(* ===== verification/FrePrelude.thy ===== *)
theory FrePrelude
  imports Main "HOL-Library.Word"
begin

text \<open>
  Shared vocabulary of the development: the machine integers of the Rust code, the
  result monad of its fallible functions, checked vector accesses, and the generic list
  facts that the component theories use.

  A \<^verbatim>\<open>usize\<close>, \<^verbatim>\<open>u64\<close> or \<^verbatim>\<open>u32\<close> that the code only counts with is a \<^typ>\<open>nat\<close>, and every
  checked operation of the code writes its bound out (\<open>usize_max\<close>, \<open>u32_max\<close>); a byte, a
  membership lane and a log word, on which the code works bitwise, are words of their width.
  The target is a 64-bit one, as the crates' own benchmarks and backends are.
  A \<^verbatim>\<open>Result\<close> is a sum, with the error on the left.
\<close>

named_theorems result_simps \<open>rewriting of the result monad\<close>
named_theorems result_elims \<open>inversion of a successful result\<close>

section \<open>Machine integers\<close>

type_synonym u8 = "8 word"
type_synonym u64w = "64 word"
type_synonym bytes = "u8 list"

definition usize_max :: nat where
  "usize_max = 2 ^ 64 - 1"

definition u32_max :: nat where
  "u32_max = 2 ^ 32 - 1"

lemma u32_max_le_usize_max: "u32_max \<le> usize_max"
  by (simp add: usize_max_def u32_max_def)

lemma usize_max_ge: "n \<le> 18446744073709551615 \<Longrightarrow> n \<le> usize_max"
  by (simp add: usize_max_def)

lemma u32_max_ge: "n \<le> 4294967295 \<Longrightarrow> n \<le> u32_max"
  by (simp add: u32_max_def)

text \<open>\<^verbatim>\<open>usize::checked_add\<close>, \<^verbatim>\<open>checked_mul\<close> and \<^verbatim>\<open>checked_sub\<close> (the \<^verbatim>\<open>u64\<close> versions have the same bound).\<close>

definition uadd :: "nat \<Rightarrow> nat \<Rightarrow> nat option" where
  "uadd a b = (if a + b \<le> usize_max then Some (a + b) else None)"

definition umul :: "nat \<Rightarrow> nat \<Rightarrow> nat option" where
  "umul a b = (if a * b \<le> usize_max then Some (a * b) else None)"

definition usub :: "nat \<Rightarrow> nat \<Rightarrow> nat option" where
  "usub a b = (if b \<le> a then Some (a - b) else None)"

lemma uadd_Some_iff [simp]: "uadd a b = Some c \<longleftrightarrow> c = a + b \<and> a + b \<le> usize_max"
  by (auto simp: uadd_def)

lemma umul_Some_iff [simp]: "umul a b = Some c \<longleftrightarrow> c = a * b \<and> a * b \<le> usize_max"
  by (auto simp: umul_def)

lemma usub_Some_iff [simp]: "usub a b = Some c \<longleftrightarrow> c = a - b \<and> b \<le> a"
  by (auto simp: usub_def)

lemma uadd_fits [simp]: "a + b \<le> usize_max \<Longrightarrow> uadd a b = Some (a + b)"
  and umul_fits [simp]: "a * b \<le> usize_max \<Longrightarrow> umul a b = Some (a * b)"
  and usub_fits [simp]: "b \<le> a \<Longrightarrow> usub a b = Some (a - b)"
  by simp_all

text \<open>The mask of one bit.\<close>

lemma and_push_bit_1: "(semiring_bit_operations_class.and w (push_bit n 1) \<noteq> (0 :: 'a :: len word)) \<longleftrightarrow> bit w n"
  by (metis and_exp_eq_0_iff_not_bit push_bit_of_1)

section \<open>The result monad\<close>

definition rbind :: "'e + 'a \<Rightarrow> ('a \<Rightarrow> 'e + 'b) \<Rightarrow> 'e + 'b" where
  "rbind m f = (case m of Inl e \<Rightarrow> Inl e | Inr x \<Rightarrow> f x)"

lemma rbind_Inl [simp, result_simps]: "rbind (Inl e) f = Inl e"
  and rbind_Inr [simp, result_simps]: "rbind (Inr x) f = f x"
  by (simp_all add: rbind_def)

lemma rbind_eq_Inr [result_simps]: "rbind m f = Inr y \<longleftrightarrow> (\<exists>x. m = Inr x \<and> f x = Inr y)"
  by (cases m) auto

lemma rbind_eq_Inl [result_simps]:
  "rbind m f = Inl e \<longleftrightarrow> m = Inl e \<or> (\<exists>x. m = Inr x \<and> f x = Inl e)"
  by (cases m) auto

lemma rbindE [result_elims]:
  assumes "rbind m f = Inr y"
  obtains x where "m = Inr x" "f x = Inr y"
  using assms by (cases m) auto

lemma rbind_cong [fundef_cong]:
  "m = m' \<Longrightarrow> (\<And>x. m' = Inr x \<Longrightarrow> f x = f' x) \<Longrightarrow> rbind m f = rbind m' f'"
  by (cases m') auto

lemma rbind_assoc: "rbind (rbind m f) g = rbind m (\<lambda>x. rbind (f x) g)"
  by (cases m) auto

text \<open>\<^verbatim>\<open>Option::ok_or\<close>.\<close>

definition ok_or :: "'a option \<Rightarrow> 'e \<Rightarrow> 'e + 'a" where
  "ok_or x e = (case x of None \<Rightarrow> Inl e | Some y \<Rightarrow> Inr y)"

lemma ok_or_simps [simp, result_simps]: "ok_or None e = Inl e" "ok_or (Some y) e = Inr y"
  by (simp_all add: ok_or_def)

lemma ok_or_eq_Inr [simp, result_simps]: "ok_or x e = Inr y \<longleftrightarrow> x = Some y"
  by (cases x) auto

text \<open>A \<^verbatim>\<open>for\<close> loop whose body may fail.\<close>

fun rfold :: "('a \<Rightarrow> 's \<Rightarrow> 'e + 's) \<Rightarrow> 'a list \<Rightarrow> 's \<Rightarrow> 'e + 's" where
  "rfold f [] s = Inr s"
| "rfold f (x # xs) s = rbind (f x s) (rfold f xs)"

lemma rfold_append: "rfold f (xs @ ys) s = rbind (rfold f xs s) (rfold f ys)"
proof (induction xs arbitrary: s)
  case (Cons x xs)
  then show ?case by (cases "f x s") auto
qed simp

lemma rfold_invariant:
  assumes "rfold f xs s = Inr t" and "I s"
    and "\<And>x s s'. x \<in> set xs \<Longrightarrow> I s \<Longrightarrow> f x s = Inr s' \<Longrightarrow> I s'"
  shows "I t"
  using assms
proof (induction xs arbitrary: s)
  case (Cons x xs)
  then obtain s' where "f x s = Inr s'" "rfold f xs s' = Inr t"
    by (auto elim: rbindE)
  with Cons show ?case by (metis list.set_intros)
qed simp

text \<open>
  Outcomes of a fallible computation: \<open>safe R m Q\<close> says that it fails only with errors in
  \<open>R\<close> and otherwise its value satisfies \<open>Q\<close>; \<open>runs m Q\<close> that it succeeds with such a value.
\<close>

definition safe :: "('e \<Rightarrow> bool) \<Rightarrow> 'e + 'a \<Rightarrow> ('a \<Rightarrow> bool) \<Rightarrow> bool" where
  "safe R m Q = (case m of Inl e \<Rightarrow> R e | Inr x \<Rightarrow> Q x)"

definition runs :: "'e + 'a \<Rightarrow> ('a \<Rightarrow> bool) \<Rightarrow> bool" where
  "runs m Q = (case m of Inl e \<Rightarrow> False | Inr x \<Rightarrow> Q x)"

lemma safe_simps [simp, result_simps]:
  "safe R (Inl e) Q = R e" "safe R (Inr x) Q = Q x"
  "safe R (rbind m f) Q = safe R m (\<lambda>x. safe R (f x) Q)"
  by (auto simp: safe_def rbind_def split: sum.split)

lemma runs_simps [simp, result_simps]:
  "runs (Inl e) Q = False" "runs (Inr x) Q = Q x"
  "runs (rbind m f) Q = runs m (\<lambda>x. runs (f x) Q)"
  by (auto simp: runs_def rbind_def split: sum.split)

lemma safe_mono: "safe R m Q \<Longrightarrow> (\<And>x. Q x \<Longrightarrow> Q' x) \<Longrightarrow> safe R m Q'"
  by (auto simp: safe_def split: sum.splits)

lemma safe_bind: "safe R m P \<Longrightarrow> (\<And>x. P x \<Longrightarrow> safe R (f x) Q) \<Longrightarrow> safe R (rbind m f) Q"
  by (simp add: safe_mono)

lemma safe_post: "safe R m (\<lambda>_. True) \<Longrightarrow> (\<And>x. m = Inr x \<Longrightarrow> Q x) \<Longrightarrow> safe R m Q"
  by (auto simp: safe_def split: sum.splits)

lemma safe_post_conj: "safe R m Q \<Longrightarrow> (\<And>x. m = Inr x \<Longrightarrow> P x) \<Longrightarrow> safe R m (\<lambda>x. Q x \<and> P x)"
  by (auto simp: safe_def split: sum.splits)

lemma safe_weaken: "safe R m Q \<Longrightarrow> (\<And>e. R e \<Longrightarrow> R' e) \<Longrightarrow> safe R' m Q"
  by (auto simp: safe_def split: sum.splits)

lemma safe_rfold:
  assumes "\<And>x s. x \<in> set xs \<Longrightarrow> I s \<Longrightarrow> safe R (f x s) I" "I s"
  shows "safe R (rfold f xs s) I"
  using assms
proof (induction xs arbitrary: s)
  case (Cons x xs)
  have "safe R (f x s) (\<lambda>s'. safe R (rfold f xs s') I)"
    by (rule safe_mono [OF Cons.prems(1)]) (use Cons in auto)
  then show ?case by simp
qed simp

lemma runs_iff: "runs m Q \<longleftrightarrow> (\<exists>x. m = Inr x \<and> Q x)"
  by (auto simp: runs_def split: sum.split)

section \<open>Ordered choice\<close>

text \<open>The first alternative of an ordered list of outcomes.\<close>

definition first_of :: "'a list \<Rightarrow> 'a option" where
  "first_of xs = (case xs of [] \<Rightarrow> None | x # _ \<Rightarrow> Some x)"

lemma first_of_simps [simp]: "first_of [] = None" "first_of (x # xs) = Some x"
  by (simp_all add: first_of_def)

lemma first_of_append:
  "first_of (xs @ ys) = (case first_of xs of None \<Rightarrow> first_of ys | Some x \<Rightarrow> Some x)"
  by (cases xs) auto

lemma first_of_eq_None [simp]: "first_of xs = None \<longleftrightarrow> xs = []"
  by (cases xs) auto

lemma first_of_eq_Some: "first_of xs = Some x \<longleftrightarrow> (\<exists>ys. xs = x # ys)"
  by (cases xs) auto

lemma first_of_in_set: "first_of xs = Some x \<Longrightarrow> x \<in> set xs"
  by (auto simp: first_of_eq_Some)

lemma first_of_map: "first_of (map f xs) = map_option f (first_of xs)"
  by (cases xs) auto

section \<open>Lists\<close>

lemma concat_map_single [simp]: "concat (map (\<lambda>x. [x]) xs) = xs"
  by (induction xs) auto

lemma concat_map_concat: "concat (map f (concat xss)) = concat (map (\<lambda>xs. concat (map f xs)) xss)"
  by (induction xss) auto

lemma concat_map_cong: "(\<And>x. x \<in> set xs \<Longrightarrow> f x = g x) \<Longrightarrow> concat (map f xs) = concat (map g xs)"
  by (induction xs) auto

lemma sum_list_rev_nat: "sum_list (rev xs) = sum_list (xs :: nat list)"
  by (induction xs) auto

end
