(* ===== verification/RefRegex.thy ===== *)
theory RefRegex
  imports FrePrelude
begin

text \<open>
  The reference interpreter, \<^verbatim>\<open>crates/fre-reference/src/lib.rs\<close>: the semantic AST, its
  validation by an explicit work stack, the backtracking machine with mandatory fuel, and
  the search and iteration built on it. The definitions follow the code; what they compute
  is proved in \<^verbatim>\<open>RefCorrect\<close>.

  Every vector of the code that is used as a stack is a list with its top first. The
  interpreter's fuel is the recursion's own measure, so the machine is total. A Rust panic
  (an index out of range) is the value \<open>RefPanic\<close>.
\<close>

section \<open>Data\<close>

datatype ref_greed = RGreedy | RLazy

record byte_range =
  br_start :: u8
  br_end :: u8

datatype ref_ast =
    REmpty
  | RByte u8
  | RClass "byte_range list"
  | RConcat "ref_ast list"
  | RAlt "ref_ast list"
  | RRepeat ref_ast nat "nat option" ref_greed
  | RCapture nat ref_ast
  | RStartText
  | REndText

record ref_span =
  rs_start :: nat
  rs_end :: nat

type_synonym captures = "ref_span option list"

record ref_match =
  rm_span :: ref_span
  rm_captures :: captures

record ref_limits =
  max_ast_nodes :: nat
  max_ast_depth :: nat
  max_capture_index :: nat
  max_steps :: nat
  max_results :: nat

definition ref_limits_default :: ref_limits where
  "ref_limits_default = \<lparr>max_ast_nodes = 4096, max_ast_depth = 128, max_capture_index = 64,
     max_steps = 1000000, max_results = 4096\<rparr>"

datatype ref_error =
    InvalidAst string
  | RefResourceLimit string
  | InvalidStart
  | RefPanic

record ref_regex =
  rr_ast :: ref_ast
  rr_capture_count :: nat
  rr_limits :: ref_limits

datatype ref_action =
    ANode ref_ast
  | ACloseCapture nat nat
  | ARepeat ref_ast nat "nat option" ref_greed nat nat

record ref_thread =
  th_position :: nat
  th_actions :: "ref_action list"
  th_captures :: captures

section \<open>Byte ranges\<close>

definition byte_range_new :: "u8 \<Rightarrow> u8 \<Rightarrow> ref_error + byte_range" where
  "byte_range_new s e =
     (if s > e then Inl (InvalidAst ''descending byte range'')
      else Inr \<lparr>br_start = s, br_end = e\<rparr>)"

definition byte_range_contains :: "byte_range \<Rightarrow> u8 \<Rightarrow> bool" where
  "byte_range_contains r b = (br_start r \<le> b \<and> b \<le> br_end r)"

section \<open>Fuel\<close>

definition fuel_spend :: "nat \<Rightarrow> nat \<Rightarrow> ref_error + nat" where
  "fuel_spend remaining amount =
     ok_or (usub remaining amount) (RefResourceLimit ''interpreter fuel'')"

definition next_byte_boundary :: "nat \<Rightarrow> nat \<Rightarrow> nat option" where
  "next_byte_boundary position len = (if position < len then uadd position 1 else None)"

section \<open>Validation\<close>

text \<open>
  What one node adds to the work stack, in stack order (the last child pushed is on top), and
  the capture index it declares (0 for none).
\<close>

fun node_check :: "ref_limits \<Rightarrow> ref_ast \<Rightarrow> ref_error + (ref_ast list \<times> nat)" where
  "node_check l (RClass rs) =
     (if rs = [] then Inl (InvalidAst ''empty byte class'')
      else if (\<exists>r\<in>set rs. br_start r > br_end r) then Inl (InvalidAst ''descending byte range'')
      else Inr ([], 0))"
| "node_check l (RConcat cs) = Inr (rev cs, 0)"
| "node_check l (RAlt cs) =
     (if cs = [] then Inl (InvalidAst ''empty alternation'') else Inr (rev cs, 0))"
| "node_check l (RRepeat c mn mx g) =
     (if (case mx of None \<Rightarrow> False | Some m \<Rightarrow> m < mn)
      then Inl (InvalidAst ''repeat maximum below minimum'') else Inr ([c], 0))"
| "node_check l (RCapture i c) =
     (if i = 0 then Inl (InvalidAst ''capture zero is reserved'')
      else if i > max_capture_index l then Inl (RefResourceLimit ''capture index'')
      else Inr ([c], i))"
| "node_check l _ = Inr ([], 0)"

lemma node_check_size:
  "node_check l a = Inr (cs, i) \<Longrightarrow> sum_list (map (\<lambda>c. Suc (size c)) cs) \<le> size a"
proof (cases a)
  case (RConcat xs)
  assume "node_check l a = Inr (cs, i)"
  with RConcat show ?thesis
    by (auto simp: rev_map [symmetric] sum_list_rev_nat size_list_conv_sum_list sum_list_Suc)
next
  case (RAlt xs)
  assume "node_check l a = Inr (cs, i)"
  with RAlt show ?thesis
    by (auto simp: rev_map [symmetric] sum_list_rev_nat size_list_conv_sum_list sum_list_Suc split: if_splits)
qed (auto split: if_splits)

function validate_loop ::
    "ref_limits \<Rightarrow> (ref_ast \<times> nat) list \<Rightarrow> nat \<Rightarrow> nat \<Rightarrow> ref_error + nat" where
  "validate_loop l [] nodes captures = Inr captures"
| "validate_loop l ((node, depth) # stack) nodes captures =
     rbind (ok_or (uadd nodes 1) (RefResourceLimit ''AST node counter'')) (\<lambda>nodes.
     if nodes > max_ast_nodes l then Inl (RefResourceLimit ''AST nodes'')
     else if depth > max_ast_depth l then Inl (RefResourceLimit ''AST depth'')
     else rbind (ok_or (uadd depth 1) (RefResourceLimit ''AST depth counter'')) (\<lambda>child_depth.
     rbind (node_check l node) (\<lambda>(children, index).
     validate_loop l (map (\<lambda>c. (c, child_depth)) children @ stack) nodes
       (max captures index))))"
  by pat_completeness auto
termination
proof (relation "measure (\<lambda>(l, stack, nodes, captures). sum_list (map (\<lambda>(a, d). Suc (size a)) stack))")
  fix l :: ref_limits and node and depth :: nat and stack and nodes captures n1 d1 :: nat
    and r children index
  assume "node_check l node = Inr r" "(children, index) = r"
  then have "sum_list (map (\<lambda>c. Suc (size c)) children) \<le> size (node :: ref_ast)"
    using node_check_size [of l node children index] by simp
  then show "((l, map (\<lambda>c. (c, d1)) children @ stack, n1, max captures index),
      l, (node, depth) # stack, nodes, captures)
    \<in> measure (\<lambda>(l, stack, nodes, captures). sum_list (map (\<lambda>(a, d). Suc (size a)) stack))"
    by (simp add: comp_def)
qed simp

definition reference_new :: "ref_ast \<Rightarrow> ref_limits \<Rightarrow> ref_error + ref_regex" where
  "reference_new ast l =
     rbind (validate_loop l [(ast, 1)] 0 0) (\<lambda>count.
     Inr \<lparr>rr_ast = ast, rr_capture_count = count, rr_limits = l\<rparr>)"

section \<open>The backtracking machine\<close>

definition schedule_repeat ::
    "ref_thread \<Rightarrow> ref_ast \<Rightarrow> nat \<Rightarrow> nat option \<Rightarrow> ref_greed \<Rightarrow> nat \<Rightarrow> ref_error + ref_thread" where
  "schedule_repeat t child mn mx g count =
     rbind (if count + 1 \<le> u32_max then Inr (count + 1)
            else Inl (RefResourceLimit ''repeat count'')) (\<lambda>next_count.
     Inr (t\<lparr>th_actions := ANode child # ARepeat child mn mx g next_count (th_position t)
              # th_actions t\<rparr>))"

text \<open>
  What the body of the inner loop does with one popped action: the thread goes on
  (\<open>Continue\<close>), or the loop is left with some threads pushed on the branch stack
  (\<open>Break\<close>, topmost first).
\<close>

datatype ref_control = Continue ref_thread | Break "ref_thread list"

fun push_alternatives ::
    "ref_thread \<Rightarrow> ref_ast list \<Rightarrow> ref_thread list \<Rightarrow> nat \<Rightarrow> ref_error + (ref_thread list \<times> nat)" where
  "push_alternatives t [] pushed fuel = Inr (pushed, fuel)"
| "push_alternatives t (a # as) pushed fuel =
     rbind (fuel_spend fuel 1) (\<lambda>fuel.
     push_alternatives t as (t\<lparr>th_actions := ANode a # th_actions t\<rparr> # pushed) fuel)"

definition advance :: "ref_thread \<Rightarrow> nat \<Rightarrow> ref_error + (ref_control \<times> nat)" where
  "advance t fuel =
     rbind (ok_or (uadd (th_position t) 1) (RefResourceLimit ''input position'')) (\<lambda>p.
     Inr (Continue (t\<lparr>th_position := p\<rparr>), fuel))"

fun step_node ::
    "bytes \<Rightarrow> ref_ast \<Rightarrow> ref_thread \<Rightarrow> nat \<Rightarrow> ref_error + (ref_control \<times> nat)" where
  "step_node h REmpty t fuel = Inr (Continue t, fuel)"
| "step_node h (RByte expected) t fuel =
     (if th_position t < length h \<and> h ! th_position t = expected
      then advance t fuel else Inr (Break [], fuel))"
| "step_node h (RClass ranges) t fuel =
     (if th_position t < length h \<and> (\<exists>r\<in>set ranges. byte_range_contains r (h ! th_position t))
      then advance t fuel else Inr (Break [], fuel))"
| "step_node h (RConcat children) t fuel =
     Inr (Continue (t\<lparr>th_actions := map ANode children @ th_actions t\<rparr>), fuel)"
| "step_node h (RAlt alternatives) t fuel =
     rbind (push_alternatives t (rev alternatives) [] fuel) (\<lambda>(pushed, fuel).
     Inr (Break pushed, fuel))"
| "step_node h (RRepeat child mn mx g) t fuel =
     Inr (Continue (t\<lparr>th_actions := ARepeat child mn mx g 0 (th_position t) # th_actions t\<rparr>), fuel)"
| "step_node h (RCapture index child) t fuel =
     Inr (Continue (t\<lparr>th_actions :=
        ANode child # ACloseCapture index (th_position t) # th_actions t\<rparr>), fuel)"
| "step_node h RStartText t fuel =
     (if th_position t \<noteq> 0 then Inr (Break [], fuel) else Inr (Continue t, fuel))"
| "step_node h REndText t fuel =
     (if th_position t \<noteq> length h then Inr (Break [], fuel) else Inr (Continue t, fuel))"

fun step_action ::
    "bytes \<Rightarrow> ref_action \<Rightarrow> ref_thread \<Rightarrow> nat \<Rightarrow> ref_error + (ref_control \<times> nat)" where
  "step_action h (ANode node) t fuel = step_node h node t fuel"
| "step_action h (ACloseCapture index start) t fuel =
     (if index < length (th_captures t)
      then Inr (Continue (t\<lparr>th_captures :=
             (th_captures t)[index := Some \<lparr>rs_start = start, rs_end = th_position t\<rparr>]\<rparr>), fuel)
      else Inl RefPanic)"
| "step_action h (ARepeat child mn mx g count previous) t fuel =
     (let made_progress = (count = 0 \<or> th_position t \<noteq> previous);
          below_min = (count < mn);
          below_max = (case mx of None \<Rightarrow> True | Some m \<Rightarrow> count < m);
          may_repeat = (below_max \<and> (below_min \<or> made_progress))
      in if below_min \<and> \<not> may_repeat then Inr (Break [], fuel)
         else if below_min then
           rbind (schedule_repeat t child mn mx g count) (\<lambda>t. Inr (Continue t, fuel))
         else if \<not> may_repeat then Inr (Continue t, fuel)
         else rbind (schedule_repeat t child mn mx g count) (\<lambda>repeated.
           Inr (Break (case g of RGreedy \<Rightarrow> [repeated, t] | RLazy \<Rightarrow> [t, repeated]), fuel)))"

lemma push_alternatives_fuel:
  "push_alternatives t as ps fuel = Inr (ps', fuel') \<Longrightarrow> fuel' \<le> fuel"
  by (induction t as ps fuel rule: push_alternatives.induct)
    (auto simp: fuel_spend_def elim!: rbindE)

lemma step_node_fuel: "step_node h a t fuel = Inr (c, fuel') \<Longrightarrow> fuel' \<le> fuel"
  by (cases a) (auto simp: advance_def split: if_splits elim!: rbindE dest: push_alternatives_fuel)

lemma step_action_fuel: "step_action h a t fuel = Inr (c, fuel') \<Longrightarrow> fuel' \<le> fuel"
  by (cases a) (auto simp: Let_def step_node_fuel split: if_splits elim!: rbindE)

text \<open>
  The two nested loops of \<^verbatim>\<open>match_from\<close>: with no current thread the outer loop pops a
  branch, with one the inner loop pops an action. Each turn spends fuel.
\<close>

function match_loop ::
    "bytes \<Rightarrow> nat \<Rightarrow> ref_thread option \<Rightarrow> ref_thread list \<Rightarrow> nat
     \<Rightarrow> ref_error + (ref_match option \<times> nat)" where
  "match_loop h start None [] fuel = Inr (None, fuel)"
| "match_loop h start None (t # branches) fuel =
     rbind (fuel_spend fuel 1) (\<lambda>fuel. match_loop h start (Some t) branches fuel)"
| "match_loop h start (Some t) branches fuel =
     rbind (fuel_spend fuel 1) (\<lambda>fuel.
     case th_actions t of
       [] \<Rightarrow> Inr (Some \<lparr>rm_span = \<lparr>rs_start = start, rs_end = th_position t\<rparr>,
                        rm_captures = th_captures t\<rparr>, fuel)
     | a # as \<Rightarrow>
         rbind (step_action h a (t\<lparr>th_actions := as\<rparr>) fuel) (\<lambda>(control, fuel).
         case control of
           Continue t' \<Rightarrow> match_loop h start (Some t') branches fuel
         | Break pushed \<Rightarrow> match_loop h start None (pushed @ branches) fuel))"
  by pat_completeness auto
termination
  by (relation "measure (\<lambda>(h, start, cur, branches, fuel). fuel)")
    (auto simp: fuel_spend_def dest!: step_action_fuel)

definition match_from :: "ref_regex \<Rightarrow> bytes \<Rightarrow> nat \<Rightarrow> nat \<Rightarrow> ref_error + (ref_match option \<times> nat)" where
  "match_from r h start fuel =
     rbind (ok_or (uadd (rr_capture_count r) 1) (RefResourceLimit ''capture slot count'')) (\<lambda>slots.
     match_loop h start None
       [\<lparr>th_position = start, th_actions = [ANode (rr_ast r)],
         th_captures = replicate slots None\<rparr>] fuel)"

lemma match_loop_fuel: "match_loop h s cur bs fuel = Inr (r, fuel') \<Longrightarrow> fuel' \<le> fuel"
proof (induction h s cur bs fuel arbitrary: r fuel' rule: match_loop.induct)
  case (2 h start t branches fuel)
  then show ?case by (fastforce simp: fuel_spend_def elim!: rbindE)
next
  case (3 h start t branches fuel)
  from "3.prems" have pos: "0 < fuel"
    by (auto simp: fuel_spend_def elim!: rbindE)
  then have sp: "fuel_spend fuel 1 = Inr (fuel - 1)" by (simp add: fuel_spend_def usub_def)
  show ?case
  proof (cases "th_actions t")
    case Nil
    with "3.prems" sp show ?thesis by auto
  next
    case (Cons a as)
    with "3.prems" sp obtain c f1 where st: "step_action h a (t\<lparr>th_actions := as\<rparr>) (fuel - 1) = Inr (c, f1)"
      and rest: "(case c of Continue t' \<Rightarrow> match_loop h start (Some t') branches f1
         | Break pushed \<Rightarrow> match_loop h start None (pushed @ branches) f1) = Inr (r, fuel')"
      by (auto elim!: rbindE)
    have "fuel' \<le> f1"
      using rest "3.IH" [OF sp Cons st refl] by (auto split: ref_control.splits)
    with step_action_fuel [OF st] show ?thesis by simp
  qed
qed simp

section \<open>Search and iteration\<close>

text \<open>The loop over the candidate starts of \<^verbatim>\<open>find_at_with_fuel\<close>.\<close>

fun find_candidates ::
    "ref_regex \<Rightarrow> bytes \<Rightarrow> nat list \<Rightarrow> nat \<Rightarrow> ref_error + (ref_match option \<times> nat)" where
  "find_candidates r h [] fuel = Inr (None, fuel)"
| "find_candidates r h (candidate # rest) fuel =
     rbind (fuel_spend fuel 1) (\<lambda>fuel.
     rbind (match_from r h candidate fuel) (\<lambda>(found, fuel).
     case found of
       Some m \<Rightarrow> (if rm_captures m = [] then Inl RefPanic
          else Inr (Some (m\<lparr>rm_captures := (rm_captures m)[0 := Some (rm_span m)]\<rparr>), fuel))
     | None \<Rightarrow> find_candidates r h rest fuel))"

definition find_at_with_fuel ::
    "ref_regex \<Rightarrow> bytes \<Rightarrow> nat \<Rightarrow> nat \<Rightarrow> ref_error + (ref_match option \<times> nat)" where
  "find_at_with_fuel r h start fuel = find_candidates r h [start..<length h + 1] fuel"

definition find_at :: "ref_regex \<Rightarrow> bytes \<Rightarrow> nat \<Rightarrow> ref_error + ref_match option" where
  "find_at r h start =
     (if start > length h then Inl InvalidStart
      else rbind (find_at_with_fuel r h start (max_steps (rr_limits r))) (\<lambda>(found, _). Inr found))"

lemma find_candidates_fuel:
  "find_candidates r h cs fuel = Inr (m, fuel') \<Longrightarrow> fuel' \<le> fuel"
  "find_candidates r h cs fuel = Inr (Some m', fuel') \<Longrightarrow> fuel' < fuel"
proof (induction cs arbitrary: fuel m m' fuel')
  case (Cons c cs)
  {
    case 1
    with Cons(1) show ?case
      by (fastforce simp: fuel_spend_def match_from_def dest: match_loop_fuel
          split: option.splits if_splits elim!: rbindE)
  next
    case 2
    with Cons(2) show ?case
      by (fastforce simp: fuel_spend_def match_from_def dest: match_loop_fuel
          split: option.splits if_splits elim!: rbindE)
  }
qed simp_all

function find_all_loop ::
    "ref_regex \<Rightarrow> bytes \<Rightarrow> nat \<Rightarrow> nat \<Rightarrow> nat option \<Rightarrow> ref_match list \<Rightarrow> ref_error + ref_match list" where
  "find_all_loop r h fuel at previous_end matches =
     rbind (find_at_with_fuel r h at fuel) (\<lambda>(found, fuel).
     case found of
       None \<Rightarrow> Inr matches
     | Some m \<Rightarrow>
         (if rs_start (rm_span m) = rs_end (rm_span m) \<and> previous_end = Some (rs_start (rm_span m))
          then (case next_byte_boundary (rs_end (rm_span m)) (length h) of
              None \<Rightarrow> Inr matches
            | Some nxt \<Rightarrow> find_all_loop r h fuel nxt previous_end matches)
          else if length (matches @ [m]) > max_results (rr_limits r)
          then Inl (RefResourceLimit ''result count'')
          else (case (if rs_start (rm_span m) = rs_end (rm_span m)
                      then next_byte_boundary (rs_end (rm_span m)) (length h)
                      else Some (rs_end (rm_span m))) of
              None \<Rightarrow> Inr (matches @ [m])
            | Some nxt \<Rightarrow>
                find_all_loop r h fuel nxt (Some (rs_end (rm_span m))) (matches @ [m]))))"
  by pat_completeness auto
termination
  by (relation "measure (\<lambda>(r, h, fuel, at, previous_end, matches). fuel)")
    (auto simp: find_at_with_fuel_def dest: find_candidates_fuel(2))

definition find_all_rust_reference :: "ref_regex \<Rightarrow> bytes \<Rightarrow> ref_error + ref_match list" where
  "find_all_rust_reference r h = find_all_loop r h (max_steps (rr_limits r)) 0 None []"

declare validate_loop.simps [simp del] match_loop.simps [simp del] find_all_loop.simps [simp del]

end
