(* ===== verification/IterSpec.thy ===== *)
theory IterSpec
  imports FrePrelude
begin

text \<open>
  The abstract contract of non-overlapping iteration that the reference interpreter, the four
  executors of \<^verbatim>\<open>fre-iterator-lab\<close> and the aggregate kernel share. An engine is seen through its
  selector: \<open>sel s\<close> is the end of the match it selects when a match must begin at \<open>s\<close>, if
  there is one. \<open>iter_seq\<close> is the Rust-style sequence: leftmost next match, an empty match
  adjacent to the previous match is suppressed, and an empty match advances by one byte.
\<close>

fun scan_from :: "(nat \<Rightarrow> nat option) \<Rightarrow> nat list \<Rightarrow> (nat \<times> nat) option" where
  "scan_from sel [] = None"
| "scan_from sel (s # ss) =
     (case sel s of Some e \<Rightarrow> Some (s, e) | None \<Rightarrow> scan_from sel ss)"

definition next_match :: "nat \<Rightarrow> (nat \<Rightarrow> nat option) \<Rightarrow> nat \<Rightarrow> (nat \<times> nat) option" where
  "next_match n sel cursor = scan_from sel [cursor..<n + 1]"

lemma scan_from_Some:
  "scan_from sel ss = Some (s, e) \<Longrightarrow> s \<in> set ss \<and> sel s = Some e"
  by (induction ss) (auto split: option.splits)

lemma scan_from_None: "scan_from sel ss = None \<longleftrightarrow> (\<forall>s\<in>set ss. sel s = None)"
  by (induction ss) (auto split: option.splits)

lemma next_match_Some:
  "next_match n sel cursor = Some (s, e) \<Longrightarrow> cursor \<le> s \<and> s \<le> n \<and> sel s = Some e"
  unfolding next_match_def by (drule scan_from_Some) auto

lemma next_match_step:
  "next_match n sel cursor =
     (if n < cursor then None
      else case sel cursor of Some e \<Rightarrow> Some (cursor, e) | None \<Rightarrow> next_match n sel (Suc cursor))"
  by (cases "cursor \<le> n")
    (auto simp: next_match_def upt_conv_Cons [of cursor "Suc n"] simp del: upt_Suc split: option.split)

lemma next_match_leftmost:
  "next_match n sel cursor = Some (s, e) \<Longrightarrow> cursor \<le> t \<Longrightarrow> t < s \<Longrightarrow> sel t = None"
proof (induction "Suc n - cursor" arbitrary: cursor)
  case (Suc m)
  from Suc.prems(1) have "\<not> n < cursor" by (auto simp: next_match_step [of n sel cursor])
  show ?case
  proof (cases "sel cursor")
    case None
    with Suc.prems(1) \<open>\<not> n < cursor\<close> have "next_match n sel (Suc cursor) = Some (s, e)"
      by (simp add: next_match_step [of n sel cursor])
    with Suc.hyps(1) [of "Suc cursor"] Suc.hyps(2) Suc.prems None show ?thesis
      by (cases "t = cursor") auto
  next
    case (Some e')
    with Suc.prems \<open>\<not> n < cursor\<close> show ?thesis by (simp add: next_match_step [of n sel cursor])
  qed
qed (auto simp: next_match_step [of n sel])

lemma next_match_first:
  assumes "sel s = Some e" "c \<le> s" "s \<le> n" "\<And>u. c \<le> u \<Longrightarrow> u < s \<Longrightarrow> sel u = None"
  shows "next_match n sel c = Some (s, e)"
  using assms(2,4)
proof (induction "s - c" arbitrary: c)
  case 0
  then show ?case using assms(1,3) by (simp add: next_match_step [of n sel c])
next
  case (Suc j)
  then show ?case using assms(3) by (simp add: next_match_step [of n sel c])
qed

lemma next_match_None_iff:
  "next_match n sel cursor = None \<longleftrightarrow> (\<forall>s. cursor \<le> s \<longrightarrow> s \<le> n \<longrightarrow> sel s = None)"
  by (auto simp: next_match_def scan_from_None less_Suc_eq_le)

function iter_seq :: "nat \<Rightarrow> (nat \<Rightarrow> nat option) \<Rightarrow> nat \<Rightarrow> nat option \<Rightarrow> (nat \<times> nat) list" where
  "iter_seq n sel cursor prev =
     (case next_match n sel cursor of
        None \<Rightarrow> []
      | Some (s, e) \<Rightarrow>
          if s = e \<and> prev = Some s then iter_seq n sel (Suc s) prev
          else if e < s then []
          else (s, e) # iter_seq n sel (if s = e then Suc s else e) (Some e))"
  by pat_completeness auto
termination
  by (relation "measure (\<lambda>(n, sel, cursor, prev). Suc n - cursor)")
    (auto dest!: next_match_Some)

declare iter_seq.simps [simp del]

text \<open>Only the selections inside the haystack matter.\<close>

lemma scan_from_cong: "(\<And>s. s \<in> set ss \<Longrightarrow> sel s = sel' s) \<Longrightarrow> scan_from sel ss = scan_from sel' ss"
  by (induction ss) (auto split: option.split)

lemma iter_seq_cong:
  assumes sel: "\<And>s. s \<le> n \<Longrightarrow> sel s = sel' s"
  shows "iter_seq n sel cursor prev = iter_seq n sel' cursor prev"
proof (induction "Suc n - cursor" arbitrary: cursor prev rule: less_induct)
  case less
  have same: "next_match n sel cursor = next_match n sel' cursor"
    unfolding next_match_def by (rule scan_from_cong) (use sel in auto)
  have "iter_seq n sel (if s = e then Suc s else e) p = iter_seq n sel' (if s = e then Suc s else e) p"
    "iter_seq n sel (Suc s) p = iter_seq n sel' (Suc s) p"
    if "next_match n sel' cursor = Some (s, e)" "\<not> e < s" for s e p
    using next_match_Some [OF that(1)] that(2) by (auto intro!: less.hyps)
  then show ?case
    by (subst (1 2) iter_seq.simps) (auto simp: same split: option.split)
qed

text \<open>
  A sequence of spans that a caller may consume left to right: it starts at or after the lower
  bound, spans do not overlap, and no empty span touches the end of its predecessor.
\<close>

fun separated :: "nat \<Rightarrow> nat option \<Rightarrow> (nat \<times> nat) list \<Rightarrow> bool" where
  "separated lo prev [] = True"
| "separated lo prev ((s, e) # spans) =
     (lo \<le> s \<and> s \<le> e \<and> \<not> (s = e \<and> prev = Some s) \<and> separated e (Some e) spans)"

lemma separated_mono: "separated lo prev spans \<Longrightarrow> lo' \<le> lo \<Longrightarrow> separated lo' prev spans"
  by (cases spans) auto

lemma separated_length:
  "separated lo prev spans \<Longrightarrow> \<forall>(s, e)\<in>set spans. e \<le> n \<Longrightarrow> lo \<le> n \<Longrightarrow>
     length spans + lo \<le> n + (if prev = Some lo then 0 else 1)"
proof (induction lo prev spans rule: separated.induct)
  case (2 lo prev s e spans)
  then have "length spans + e \<le> n" by auto
  with "2.prems" show ?case by (cases "s = e") (auto split: if_splits)
qed auto

text \<open>What every client may rely on, for any engine whose matches stay in the haystack.\<close>

locale selector =
  fixes n :: nat and sel :: "nat \<Rightarrow> nat option"
  assumes sel_bounds: "sel s = Some e \<Longrightarrow> s \<le> n \<Longrightarrow> s \<le> e \<and> e \<le> n"
begin

lemma next_match_bounds:
  "next_match n sel cursor = Some (s, e) \<Longrightarrow> cursor \<le> s \<and> s \<le> e \<and> e \<le> n \<and> sel s = Some e"
  using next_match_Some [of n sel cursor s e] sel_bounds [of s e] by auto

lemma iter_seq_unfold:
  "iter_seq n sel cursor prev =
     (case next_match n sel cursor of
        None \<Rightarrow> []
      | Some (s, e) \<Rightarrow>
          if s = e \<and> prev = Some s then iter_seq n sel (Suc s) prev
          else (s, e) # iter_seq n sel (if s = e then Suc s else e) (Some e))"
  by (subst iter_seq.simps) (auto split: option.split dest!: next_match_bounds)

lemma iter_cases:
  obtains (none) "next_match n sel cursor = None" "iter_seq n sel cursor prev = []"
  | (skip) s where "next_match n sel cursor = Some (s, s)" "prev = Some s" "cursor \<le> s" "s \<le> n"
      "sel s = Some s" "iter_seq n sel cursor prev = iter_seq n sel (Suc s) prev"
  | (emit) s e where "next_match n sel cursor = Some (s, e)" "\<not> (s = e \<and> prev = Some s)"
      "cursor \<le> s" "s \<le> e" "e \<le> n" "sel s = Some e"
      "iter_seq n sel cursor prev = (s, e) # iter_seq n sel (if s = e then Suc s else e) (Some e)"
proof (cases "next_match n sel cursor")
  case None
  then show thesis using none iter_seq_unfold [of cursor prev] by simp
next
  case (Some se)
  obtain s e where se: "se = (s, e)" by (cases se)
  note b = next_match_bounds [OF Some [unfolded se]]
  show thesis
  proof (cases "s = e \<and> prev = Some s")
    case True
    then show thesis using skip [of s] Some se b iter_seq_unfold [of cursor prev] by simp
  next
    case False
    show thesis
      by (rule emit [of s e]) (use False Some se b iter_seq_unfold [of cursor prev] in auto)
  qed
qed

lemma iter_seq_selected:
  "(s, e) \<in> set (iter_seq n sel cursor prev) \<Longrightarrow> s \<le> e \<and> e \<le> n \<and> sel s = Some e"
proof (induction "Suc n - cursor" arbitrary: cursor prev rule: less_induct)
  case less
  show ?case
  proof (cases rule: iter_cases [of cursor prev])
    case none
    with less.prems show ?thesis by simp
  next
    case (skip t)
    with less.hyps [of "Suc t" prev] less.prems show ?thesis by simp
  next
    case (emit t f)
    with less.hyps [of "if t = f then Suc t else f" "Some f"] less.prems show ?thesis
      by (auto split: if_splits)
  qed
qed

lemma iter_seq_separated: "separated cursor prev (iter_seq n sel cursor prev)"
proof (induction "Suc n - cursor" arbitrary: cursor prev rule: less_induct)
  case less
  show ?case
  proof (cases rule: iter_cases [of cursor prev])
    case none
    then show ?thesis by simp
  next
    case (skip t)
    then have "separated (Suc t) prev (iter_seq n sel (Suc t) prev)"
      by (intro less.hyps) auto
    then have "separated cursor prev (iter_seq n sel (Suc t) prev)"
      by (rule separated_mono) (use skip in simp)
    with skip show ?thesis by simp
  next
    case (emit t f)
    have "separated (if t = f then Suc t else f) (Some f)
        (iter_seq n sel (if t = f then Suc t else f) (Some f))"
      using emit by (intro less.hyps) auto
    then have "separated f (Some f) (iter_seq n sel (if t = f then Suc t else f) (Some f))"
      by (rule separated_mono) simp
    with emit show ?thesis by simp
  qed
qed

lemma iter_seq_complete:
  assumes "sel t = Some f" "cursor \<le> t" "t \<le> n"
  shows "(t, f) \<in> set (iter_seq n sel cursor prev)
    \<or> (\<exists>(s, e)\<in>set (iter_seq n sel cursor prev). s < t \<and> t < e)
    \<or> (f = t \<and> (prev = Some t \<or> (\<exists>(s, e)\<in>set (iter_seq n sel cursor prev). s < t \<and> e = t)))"
  using assms(2)
proof (induction "Suc n - cursor" arbitrary: cursor prev rule: less_induct)
  case less
  show ?case
  proof (cases rule: iter_cases [of cursor prev])
    case none
    with assms less.prems show ?thesis by (auto simp: next_match_None_iff)
  next
    case (skip s)
    from next_match_leftmost [OF skip(1)] assms(1) less.prems have "s \<le> t" by force
    show ?thesis
    proof (cases "t = s")
      case True
      with assms(1) skip show ?thesis by simp
    next
      case False
      with \<open>s \<le> t\<close> less.hyps [of "Suc s" prev] skip show ?thesis by simp
    qed
  next
    case (emit s e)
    from next_match_leftmost [OF emit(1)] assms(1) less.prems have "s \<le> t" by force
    consider "t = s" | "s < t" "t < e" | "s < t" "e \<le> t" using \<open>s \<le> t\<close> by linarith
    then show ?thesis
    proof cases
      case 1
      with assms(1) emit show ?thesis by simp
    next
      case 2
      with emit show ?thesis by auto
    next
      case 3
      let ?c = "if s = e then Suc s else e"
      have "?c \<le> t" "Suc n - ?c < Suc n - cursor" using 3 emit by auto
      from less.hyps [OF this(2,1), of "Some e"] show ?thesis
        using emit 3 by auto
    qed
  qed
qed

lemma iter_seq_length: "length (iter_seq n sel 0 None) \<le> n + 1"
  using separated_length [OF iter_seq_separated [of 0 None], of n] iter_seq_selected by fastforce

end

end
