(* ===== verification/RefCorrect.thy ===== *)
theory RefCorrect
  imports RefRegex IterSpec
begin

text \<open>
  What the reference interpreter computes. \<open>outs h a s\<close> is the ordered list of all ways
  in which the AST \<open>a\<close> can match from the state \<open>s\<close> (a position and the capture slots), in the
  priority order of a backtracking search. The machine of \<^verbatim>\<open>RefRegex\<close> is shown to return the
  first element of that list, to reach an answer within a step budget that is computed from the
  AST and the haystack, and to fail in no other way than by running out of fuel or, where an
  unbounded repetition meets a haystack of about \<^verbatim>\<open>u32::MAX\<close> bytes, of repetition counter.
\<close>

section \<open>Ordered denotational semantics\<close>

type_synonym ref_state = "nat \<times> captures"

fun seq_outs :: "(ref_state \<Rightarrow> ref_state list) list \<Rightarrow> ref_state \<Rightarrow> ref_state list" where
  "seq_outs [] s = [s]"
| "seq_outs (f # fs) s = concat (map (seq_outs fs) (f s))"

text \<open>
  The repetition of a body \<open>f\<close> from iteration \<open>count\<close> on, where \<open>prev\<close> is the position at
  which the previous iteration began. The guard on the position of the body's results makes
  the recursion well-founded; every body of interest satisfies it.
\<close>

definition may_repeat :: "nat \<Rightarrow> nat option \<Rightarrow> nat \<Rightarrow> nat \<Rightarrow> nat \<Rightarrow> bool" where
  "may_repeat mn mx count prev p =
     ((case mx of None \<Rightarrow> True | Some m \<Rightarrow> count < m) \<and> (count < mn \<or> count = 0 \<or> p \<noteq> prev))"

function rep_outs ::
    "(ref_state \<Rightarrow> ref_state list) \<Rightarrow> nat \<Rightarrow> nat \<Rightarrow> nat option \<Rightarrow> ref_greed \<Rightarrow> nat \<Rightarrow> nat
     \<Rightarrow> ref_state \<Rightarrow> ref_state list" where
  "rep_outs f n mn mx g count prev s =
     (if \<not> may_repeat mn mx count prev (fst s) then (if count < mn then [] else [s])
      else
        let again = concat (map (\<lambda>s'. if fst s \<le> fst s' \<and> fst s' \<le> n
              then rep_outs f n mn mx g (Suc count) (fst s) s' else []) (f s))
        in if count < mn then again
           else (case g of RGreedy \<Rightarrow> again @ [s] | RLazy \<Rightarrow> s # again))"
  by pat_completeness auto
termination
  by (relation "measures [\<lambda>(f, n, mn, mx, g, count, prev, s). mn - count,
      \<lambda>(f, n, mn, mx, g, count, prev, s).
        2 * (n - fst s) + (if count = 0 \<or> fst s \<noteq> prev then 1 else 0)]")
    (auto simp: may_repeat_def)

declare rep_outs.simps [simp del]

primrec outs :: "bytes \<Rightarrow> ref_ast \<Rightarrow> ref_state \<Rightarrow> ref_state list" where
  "outs h REmpty = (\<lambda>s. [s])"
| "outs h (RByte b) = (\<lambda>(p, c). if p < length h \<and> h ! p = b then [(p + 1, c)] else [])"
| "outs h (RClass rs) = (\<lambda>(p, c).
     if p < length h \<and> (\<exists>r\<in>set rs. byte_range_contains r (h ! p)) then [(p + 1, c)] else [])"
| "outs h (RConcat as) = seq_outs (map (outs h) as)"
| "outs h (RAlt as) = (\<lambda>s. concat (map (\<lambda>f. f s) (map (outs h) as)))"
| "outs h (RRepeat a mn mx g) = (\<lambda>s. rep_outs (outs h a) (length h) mn mx g 0 (fst s) s)"
| "outs h (RCapture i a) = (\<lambda>(p, c).
     map (\<lambda>(q, c'). (q, c'[i := Some \<lparr>rs_start = p, rs_end = q\<rparr>])) (outs h a (p, c)))"
| "outs h RStartText = (\<lambda>(p, c). if p = 0 then [(p, c)] else [])"
| "outs h REndText = (\<lambda>(p, c). if p = length h then [(p, c)] else [])"

text \<open>A body never moves left, stays within the haystack and keeps the number of slots.\<close>

definition bounded_body :: "nat \<Rightarrow> (ref_state \<Rightarrow> ref_state list) \<Rightarrow> bool" where
  "bounded_body n f \<longleftrightarrow> (\<forall>p c q c'. p \<le> n \<longrightarrow> (q, c') \<in> set (f (p, c))
     \<longrightarrow> p \<le> q \<and> q \<le> n \<and> length c' = length c)"

lemma bounded_bodyD:
  "bounded_body n f \<Longrightarrow> p \<le> n \<Longrightarrow> (q, c') \<in> set (f (p, c)) \<Longrightarrow>
     p \<le> q \<and> q \<le> n \<and> length c' = length c"
  unfolding bounded_body_def by blast

lemma bounded_seq_outs: "\<forall>f\<in>set fs. bounded_body n f \<Longrightarrow> bounded_body n (seq_outs fs)"
proof (induction fs)
  case (Cons f fs)
  then have f: "bounded_body n f" and fs: "bounded_body n (seq_outs fs)" by auto
  show ?case
    unfolding bounded_body_def
  proof (intro allI impI)
    fix p c q c'
    assume "p \<le> n" "(q, c') \<in> set (seq_outs (f # fs) (p, c))"
    then obtain r d where "(r, d) \<in> set (f (p, c))" "(q, c') \<in> set (seq_outs fs (r, d))"
      by auto
    with bounded_bodyD [OF f \<open>p \<le> n\<close>, of r d c] bounded_bodyD [OF fs, of r q c' d]
    show "p \<le> q \<and> q \<le> n \<and> length c' = length c" by simp
  qed
qed (auto simp: bounded_body_def)

lemma bounded_rep_outs:
  assumes f: "bounded_body n f"
  shows "fst s \<le> n \<Longrightarrow> (q, c') \<in> set (rep_outs f n mn mx g count prev s) \<Longrightarrow>
    fst s \<le> q \<and> q \<le> n \<and> length c' = length (snd s)"
  using f
proof (induction f n mn mx g count prev s rule: rep_outs.induct)
  case (1 f n mn mx g count prev s)
  show ?case
  proof (cases "may_repeat mn mx count prev (fst s)")
    case False
    with "1.prems" show ?thesis
      by (subst (asm) rep_outs.simps) (auto split: if_splits)
  next
    case True
    have again: "fst s \<le> q \<and> q \<le> n \<and> length c' = length (snd s)"
      if s': "s' \<in> set (f s)" and r: "fst s \<le> fst s'" "fst s' \<le> n"
        and m: "(q, c') \<in> set (rep_outs f n mn mx g (Suc count) (fst s) s')" for s'
    proof -
      have "fst s' \<le> q \<and> q \<le> n \<and> length c' = length (snd s')"
        using "1.IH" [of s'] True s' r m "1.prems"(3) by simp
      moreover have "length (snd s') = length (snd s)"
        using bounded_bodyD [OF "1.prems"(3,1), of "fst s'" "snd s'" "snd s"] s' by simp
      ultimately show ?thesis using r by simp
    qed
    from True "1.prems" show ?thesis
      by (subst (asm) rep_outs.simps)
        (auto simp: Let_def split: if_splits ref_greed.splits dest: again)
  qed
qed

lemma bounded_outs: "bounded_body (length h) (outs h a)"
proof (induction a)
  case (RConcat as)
  then show ?case by (simp add: bounded_seq_outs)
next
  case (RAlt as)
  show ?case
    unfolding bounded_body_def
  proof (intro allI impI)
    fix p c q c'
    assume p: "p \<le> length h" "(q, c') \<in> set (outs h (RAlt as) (p, c))"
    then obtain a where a: "a \<in> set as" and m: "(q, c') \<in> set (outs h a (p, c))" by auto
    show "p \<le> q \<and> q \<le> length h \<and> length c' = length c"
      by (rule bounded_bodyD [OF RAlt [OF a] p(1) m])
  qed
next
  case (RRepeat a mn mx g)
  show ?case
    unfolding bounded_body_def
  proof (intro allI impI)
    fix p c q c'
    assume "p \<le> length h" "(q, c') \<in> set (outs h (RRepeat a mn mx g) (p, c))"
    then show "p \<le> q \<and> q \<le> length h \<and> length c' = length c"
      using bounded_rep_outs [OF RRepeat, of "(p, c)" q c' mn mx g 0 p] by simp
  qed
next
  case (RCapture i a)
  show ?case
    unfolding bounded_body_def
  proof (intro allI impI)
    fix p c q c'
    assume p: "p \<le> length h" "(q, c') \<in> set (outs h (RCapture i a) (p, c))"
    then obtain d where m: "(q, d) \<in> set (outs h a (p, c))" and "length c' = length d" by auto
    with bounded_bodyD [OF RCapture p(1) m]
    show "p \<le> q \<and> q \<le> length h \<and> length c' = length c" by simp
  qed
qed (auto simp: bounded_body_def split: if_splits)

lemmas outs_bounds = bounded_bodyD [OF bounded_outs]

section \<open>The machine computes the ordered semantics\<close>

text \<open>The outcomes that a pending action, a thread and a stack of threads still stand for.\<close>

fun act_outs :: "bytes \<Rightarrow> ref_action \<Rightarrow> ref_state \<Rightarrow> ref_state list" where
  "act_outs h (ANode a) = outs h a"
| "act_outs h (ACloseCapture i st) = (\<lambda>(p, c). [(p, c[i := Some \<lparr>rs_start = st, rs_end = p\<rparr>])])"
| "act_outs h (ARepeat a mn mx g count prev) = rep_outs (outs h a) (length h) mn mx g count prev"

definition thread_outs :: "bytes \<Rightarrow> ref_thread \<Rightarrow> ref_state list" where
  "thread_outs h t = seq_outs (map (act_outs h) (th_actions t)) (th_position t, th_captures t)"

definition threads_outs :: "bytes \<Rightarrow> ref_thread list \<Rightarrow> ref_state list" where
  "threads_outs h ts = concat (map (thread_outs h) ts)"

lemma threads_outs_simps [simp]:
  "threads_outs h [] = []"
  "threads_outs h (t # ts) = thread_outs h t @ threads_outs h ts"
  "threads_outs h (ts @ us) = threads_outs h ts @ threads_outs h us"
  by (simp_all add: threads_outs_def)

fun control_threads :: "ref_control \<Rightarrow> ref_thread list" where
  "control_threads (Continue t) = [t]"
| "control_threads (Break ts) = ts"

lemma seq_outs_Cons: "seq_outs (f # fs) = (\<lambda>s. concat (map (seq_outs fs) (f s)))"
  by (rule ext) simp

lemma seq_outs_Nil: "seq_outs [] = (\<lambda>s. [s])"
  by (rule ext) simp

lemma seq_outs_append:
  "seq_outs (fs @ gs) = (\<lambda>s. concat (map (seq_outs gs) (seq_outs fs s)))"
  by (induction fs) (simp_all add: seq_outs_Cons concat_map_concat comp_def)

lemma rep_outs_outs:
  assumes "fst s \<le> length h"
  shows "rep_outs (outs h a) (length h) mn mx g count prev s =
    (if \<not> may_repeat mn mx count prev (fst s) then (if count < mn then [] else [s])
     else
       let again = concat (map (rep_outs (outs h a) (length h) mn mx g (Suc count) (fst s)) (outs h a s))
       in if count < mn then again
          else (case g of RGreedy \<Rightarrow> again @ [s] | RLazy \<Rightarrow> s # again))"
proof -
  have "concat (map (\<lambda>s'. if fst s \<le> fst s' \<and> fst s' \<le> length h
          then rep_outs (outs h a) (length h) mn mx g (Suc count) (fst s) s' else []) (outs h a s)) =
        concat (map (rep_outs (outs h a) (length h) mn mx g (Suc count) (fst s)) (outs h a s))"
    using outs_bounds [OF assms, of _ _ a "snd s"] by (intro concat_map_cong) force
  then show ?thesis by (simp add: rep_outs.simps [of _ _ _ _ _ count])
qed

lemma push_alternatives_eq:
  "push_alternatives t as ps fuel =
     (if length as \<le> fuel
      then Inr (map (\<lambda>a. t\<lparr>th_actions := ANode a # th_actions t\<rparr>) (rev as) @ ps, fuel - length as)
      else Inl (RefResourceLimit ''interpreter fuel''))"
  by (induction t as ps fuel rule: push_alternatives.induct)
    (auto simp: fuel_spend_def usub_def)

lemma threads_outs_alternatives:
  "threads_outs h (map (\<lambda>a. t\<lparr>th_actions := ANode a # th_actions t\<rparr>) as) =
     concat (map (seq_outs (map (act_outs h) (th_actions t)))
       (outs h (RAlt as) (th_position t, th_captures t)))"
  by (induction as) (simp_all add: thread_outs_def)

lemma map_ANode_outs: "map (act_outs h) (map ANode as) = map (outs h) as"
  by simp

lemma concat_map_case_prod:
  "concat (map F (map (\<lambda>(q, c). (q, G q c)) xs)) = concat (map (\<lambda>(q, c). F (q, G q c)) xs)"
  by (induction xs) auto

lemma step_node_outs:
  assumes "step_node h a t fuel = Inr (c, fuel')" "th_position t \<le> length h"
  shows "threads_outs h (control_threads c) =
    concat (map (seq_outs (map (act_outs h) (th_actions t))) (outs h a (th_position t, th_captures t)))"
proof (cases a)
  case (RAlt as)
  with assms show ?thesis
    by (auto simp: push_alternatives_eq threads_outs_alternatives simp del: outs.simps split: if_splits)
next
  case (RConcat as)
  with assms show ?thesis
    by (auto simp: thread_outs_def seq_outs_append comp_def)
next
  case (RCapture i b)
  with assms show ?thesis
    by (auto simp: thread_outs_def concat_map_case_prod intro!: concat_map_cong)
qed (use assms in \<open>auto simp: thread_outs_def advance_def split: if_splits elim!: rbindE\<close>)

lemma step_action_outs:
  assumes "step_action h a t fuel = Inr (c, fuel')" "th_position t \<le> length h"
  shows "threads_outs h (control_threads c) =
    concat (map (seq_outs (map (act_outs h) (th_actions t)))
      (act_outs h a (th_position t, th_captures t)))"
proof (cases a)
  case (ANode b)
  with assms show ?thesis by (simp add: step_node_outs)
next
  case (ACloseCapture i st)
  with assms show ?thesis by (auto simp: thread_outs_def split: if_splits)
next
  case (ARepeat b mn mx g count prev)
  let ?K = "seq_outs (map (act_outs h) (th_actions t))"
  have sched: "thread_outs h t' = concat (map ?K (concat (map
      (rep_outs (outs h b) (length h) mn mx g (Suc count) (th_position t))
      (outs h b (th_position t, th_captures t)))))"
    if "schedule_repeat t b mn mx g count = Inr t'" for t'
    using that by (auto simp: schedule_repeat_def thread_outs_def concat_map_concat comp_def seq_outs_Cons split: if_splits)
  have self: "thread_outs h t = ?K (th_position t, th_captures t)"
    by (simp add: thread_outs_def)
  have unfold: "rep_outs (outs h b) (length h) mn mx g count prev (th_position t, th_captures t) =
     (if \<not> may_repeat mn mx count prev (th_position t)
      then (if count < mn then [] else [(th_position t, th_captures t)])
     else
       let again = concat (map (rep_outs (outs h b) (length h) mn mx g (Suc count) (th_position t))
             (outs h b (th_position t, th_captures t)))
       in if count < mn then again
          else (case g of RGreedy \<Rightarrow> again @ [(th_position t, th_captures t)]
                | RLazy \<Rightarrow> (th_position t, th_captures t) # again))"
    using rep_outs_outs [of "(th_position t, th_captures t)" h b mn mx g count prev] assms(2)
    by simp
  have may: "may_repeat mn mx count prev (th_position t) \<longleftrightarrow>
     (case mx of None \<Rightarrow> True | Some m \<Rightarrow> count < m)
       \<and> (count < mn \<or> count = 0 \<or> th_position t \<noteq> prev)"
    by (simp add: may_repeat_def)
  show ?thesis
  proof (cases "may_repeat mn mx count prev (th_position t)")
    case False
    with assms(1) may show ?thesis
      unfolding ARepeat act_outs.simps unfold by (auto simp: Let_def self split: if_splits)
  next
    case True
    with assms(1) may obtain t' where t': "schedule_repeat t b mn mx g count = Inr t'"
      unfolding ARepeat by (auto simp: Let_def split: if_splits elim!: rbindE)
    from True assms(1) may show ?thesis
      unfolding ARepeat act_outs.simps unfold
      by (auto simp: Let_def self sched [OF t'] t' split: if_splits ref_greed.splits)
  qed
qed

section \<open>Invariant: how the machine can fail\<close>

text \<open>
  The repetition counter of the machine is a \<^verbatim>\<open>u32\<close>. A bounded repetition stops at its maximum, a \<^verbatim>\<open>u32\<close> itself;
  an unbounded one makes at most one iteration that does not move beyond its minimum and the
  bytes it consumes, so on a haystack of \<open>n\<close> bytes its counter fits if this sum does.
\<close>

definition repeat_fits :: "nat \<Rightarrow> nat \<Rightarrow> nat option \<Rightarrow> bool" where
  "repeat_fits n mn mx = (case mx of None \<Rightarrow> mn + n + 2 \<le> u32_max | Some m \<Rightarrow> m \<le> u32_max)"

lemma repeat_fits_count:
  assumes "repeat_fits n mn mx" "may_repeat mn mx count prev p"
    and "p \<le> n" "prev \<le> p" "count \<le> mn + prev + 1"
  shows "Suc count \<le> u32_max"
  using assms by (auto simp: repeat_fits_def may_repeat_def split: option.splits)

text \<open>
  The ASTs the machine runs on a haystack of \<open>n\<close> bytes with \<open>k\<close> capture slots: capture
  indices are in range (validation guarantees it) and, when \<open>strict\<close> is asked for, no
  repetition counter can pass \<^verbatim>\<open>u32::MAX\<close>.
\<close>

primrec ast_ok :: "bool \<Rightarrow> nat \<Rightarrow> nat \<Rightarrow> ref_ast \<Rightarrow> bool" where
  "ast_ok strict n k REmpty = True"
| "ast_ok strict n k (RByte b) = True"
| "ast_ok strict n k (RClass rs) = True"
| "ast_ok strict n k (RConcat as) = list_all id (map (ast_ok strict n k) as)"
| "ast_ok strict n k (RAlt as) = list_all id (map (ast_ok strict n k) as)"
| "ast_ok strict n k (RRepeat a mn mx g) = ((strict \<longrightarrow> repeat_fits n mn mx) \<and> ast_ok strict n k a)"
| "ast_ok strict n k (RCapture i a) = (i < k \<and> ast_ok strict n k a)"
| "ast_ok strict n k RStartText = True"
| "ast_ok strict n k REndText = True"

fun act_ok :: "bool \<Rightarrow> nat \<Rightarrow> nat \<Rightarrow> nat \<Rightarrow> ref_action \<Rightarrow> bool" where
  "act_ok strict n k p (ANode a) = ast_ok strict n k a"
| "act_ok strict n k p (ACloseCapture i st) = (i < k)"
| "act_ok strict n k p (ARepeat a mn mx g count prev) =
     ((strict \<longrightarrow> repeat_fits n mn mx) \<and> ast_ok strict n k a \<and> prev \<le> p \<and> count \<le> mn + prev + 1)"

definition thread_ok :: "bool \<Rightarrow> nat \<Rightarrow> nat \<Rightarrow> ref_thread \<Rightarrow> bool" where
  "thread_ok strict n k t \<longleftrightarrow> th_position t \<le> n \<and> length (th_captures t) = k \<and>
     (\<forall>a\<in>set (th_actions t). act_ok strict n k (th_position t) a)"

lemma act_ok_mono: "act_ok strict n k p a \<Longrightarrow> p \<le> q \<Longrightarrow> act_ok strict n k q a"
  by (cases a) auto

lemma act_ok_Suc: "\<forall>x\<in>set as. act_ok strict n k p x \<Longrightarrow> a \<in> set as \<Longrightarrow> act_ok strict n k (Suc p) a"
  using act_ok_mono [of strict n k p a "Suc p"] by simp

lemma advance_ok:
  assumes "advance t fuel = Inr (c, fuel')" "thread_ok strict n k t" "th_position t < n"
  shows "\<forall>t'\<in>set (control_threads c). thread_ok strict n k t'"
  using assms act_ok_Suc [of "th_actions t" strict n k "th_position t"]
  by (auto simp: advance_def thread_ok_def elim!: rbindE)

lemma step_node_ok:
  assumes "step_node h a t fuel = Inr (c, fuel')" "thread_ok strict (length h) k t" "ast_ok strict (length h) k a"
  shows "\<forall>t'\<in>set (control_threads c). thread_ok strict (length h) k t'"
proof (cases a)
  case (RAlt as)
  with assms show ?thesis
    by (auto simp: push_alternatives_eq thread_ok_def list_all_iff split: if_splits)
next
  case (RConcat as)
  with assms show ?thesis by (auto simp: thread_ok_def list_all_iff)
next
  case (RByte b)
  with assms show ?thesis by (auto split: if_splits dest: advance_ok)
next
  case (RClass rs)
  with assms show ?thesis by (auto split: if_splits dest: advance_ok)
qed (use assms in \<open>auto simp: thread_ok_def split: if_splits\<close>)

lemma schedule_repeat_ok:
  assumes "schedule_repeat t a mn mx g count = Inr t'" "thread_ok strict n k t"
    and "act_ok strict n k (th_position t) (ARepeat a mn mx g count prev)"
    and "may_repeat mn mx count prev (th_position t)"
  shows "thread_ok strict n k t'"
  using assms by (auto simp: schedule_repeat_def thread_ok_def may_repeat_def split: if_splits)

lemma step_action_ok:
  assumes "step_action h a t fuel = Inr (c, fuel')" "thread_ok strict (length h) k t"
    and "act_ok strict (length h) k (th_position t) a"
  shows "\<forall>t'\<in>set (control_threads c). thread_ok strict (length h) k t'"
proof (cases a)
  case (ANode b)
  with assms show ?thesis by (auto dest: step_node_ok)
next
  case (ACloseCapture i st)
  with assms show ?thesis by (auto simp: thread_ok_def split: if_splits)
next
  case (ARepeat b mn mx g count prev)
  have sched: "thread_ok strict (length h) k t'"
    if "schedule_repeat t b mn mx g count = Inr t'" "may_repeat mn mx count prev (th_position t)" for t'
    using schedule_repeat_ok [OF that(1) assms(2) _ that(2)] assms(3) ARepeat by simp
  show ?thesis
  proof (cases "may_repeat mn mx count prev (th_position t)")
    case False
    with assms(1,2) show ?thesis
      unfolding ARepeat by (auto simp: Let_def may_repeat_def split: if_splits)
  next
    case True
    with assms(1,2) sched show ?thesis
      unfolding ARepeat
      by (auto simp: Let_def may_repeat_def split: if_splits ref_greed.splits elim!: rbindE)
  qed
qed

abbreviation fuel_error :: ref_error where
  "fuel_error \<equiv> RefResourceLimit ''interpreter fuel''"

abbreviation repeat_error :: ref_error where
  "repeat_error \<equiv> RefResourceLimit ''repeat count''"

text \<open>The errors of the machine: the fuel and, unless \<open>strict\<close> holds, a repetition counter.\<close>

definition machine_error :: "bool \<Rightarrow> ref_error \<Rightarrow> bool" where
  "machine_error strict e \<longleftrightarrow> e = fuel_error \<or> (e = repeat_error \<and> \<not> strict)"

lemma machine_error_fuel [simp]: "machine_error strict fuel_error"
  by (simp add: machine_error_def)

lemma schedule_repeat_error:
  assumes "schedule_repeat t b mn mx g count = Inl e" "thread_ok strict n k t"
    and "act_ok strict n k (th_position t) (ARepeat b mn mx g count prev)"
    and "may_repeat mn mx count prev (th_position t)"
  shows "machine_error strict e"
proof -
  from assms(1) have e: "e = repeat_error" "\<not> Suc count \<le> u32_max"
    by (auto simp: schedule_repeat_def split: if_splits)
  with repeat_fits_count [OF _ assms(4), of n] assms(2,3) show ?thesis
    by (auto simp: machine_error_def thread_ok_def)
qed

lemma step_action_error:
  assumes "step_action h a t fuel = Inl e" "thread_ok strict (length h) k t"
    and "act_ok strict (length h) k (th_position t) a" and "length h \<le> usize_max"
  shows "machine_error strict e"
proof (cases a)
  case (ANode b)
  with assms show ?thesis
    by (cases b) (auto simp: advance_def push_alternatives_eq uadd_def split: if_splits)
next
  case (ACloseCapture i st)
  with assms show ?thesis by (auto simp: thread_ok_def)
next
  case (ARepeat b mn mx g count prev)
  with assms(1) have "schedule_repeat t b mn mx g count = Inl e"
    and "may_repeat mn mx count prev (th_position t)"
    by (auto simp: Let_def may_repeat_def rbind_eq_Inl split: if_splits)
  with schedule_repeat_error [OF _ assms(2)] assms(3) ARepeat show ?thesis by blast
qed

text \<open>The match a final state of the search stands for.\<close>

definition mk_match :: "nat \<Rightarrow> ref_state \<Rightarrow> ref_match" where
  "mk_match start s = \<lparr>rm_span = \<lparr>rs_start = start, rs_end = fst s\<rparr>, rm_captures = snd s\<rparr>"

definition loop_threads :: "ref_thread option \<Rightarrow> ref_thread list \<Rightarrow> ref_thread list" where
  "loop_threads cur bs = (case cur of None \<Rightarrow> bs | Some t \<Rightarrow> t # bs)"

lemma loop_threads_simps [simp]:
  "loop_threads None bs = bs" "loop_threads (Some t) bs = t # bs"
  by (simp_all add: loop_threads_def)

lemma fuel_spend_one:
  "fuel_spend fuel 1 = (if fuel = 0 then Inl fuel_error else Inr (fuel - 1))"
  by (auto simp: fuel_spend_def usub_def)

lemma match_loop_None:
  "match_loop h start None (t # bs) fuel =
     (if fuel = 0 then Inl fuel_error else match_loop h start (Some t) bs (fuel - 1))"
  by (simp add: match_loop.simps(2) fuel_spend_one del: One_nat_def)

lemma match_loop_Some:
  "match_loop h start (Some t) bs fuel =
     (if fuel = 0 then Inl fuel_error else
       (case th_actions t of
         [] \<Rightarrow> Inr (Some (mk_match start (th_position t, th_captures t)), fuel - 1)
       | a # as \<Rightarrow> rbind (step_action h a (t\<lparr>th_actions := as\<rparr>) (fuel - 1)) (\<lambda>(c, fuel).
           case c of
             Continue t' \<Rightarrow> match_loop h start (Some t') bs fuel
           | Break pushed \<Rightarrow> match_loop h start None (pushed @ bs) fuel)))"
  by (simp add: match_loop.simps(3) fuel_spend_one mk_match_def del: One_nat_def
      split: list.split)

lemma step_threads_outs:
  assumes "step_action h a (t\<lparr>th_actions := as\<rparr>) fuel = Inr (c, fuel')" "th_actions t = a # as"
    and "th_position t \<le> length h"
  shows "threads_outs h (control_threads c) = thread_outs h t"
  using step_action_outs [OF assms(1)] assms(2,3) by (simp add: thread_outs_def)

text \<open>What a run of the machine may answer, given the threads it still has to explore.\<close>

definition loop_answer ::
    "bool \<Rightarrow> bytes \<Rightarrow> nat \<Rightarrow> ref_thread list \<Rightarrow> ref_error + (ref_match option \<times> nat) \<Rightarrow> bool" where
  "loop_answer strict h start ts res = (case res of Inl e \<Rightarrow> machine_error strict e
     | Inr (r, _) \<Rightarrow> r = map_option (mk_match start) (first_of (threads_outs h ts)))"

lemma loop_answer_simps [simp]:
  "loop_answer strict h start ts (Inl e) \<longleftrightarrow> machine_error strict e"
  "loop_answer strict h start ts (Inr (r, f)) \<longleftrightarrow>
     r = map_option (mk_match start) (first_of (threads_outs h ts))"
  by (simp_all add: loop_answer_def)

lemma loop_answer_cong:
  "threads_outs h ts = threads_outs h us \<Longrightarrow>
     loop_answer strict h start ts res = loop_answer strict h start us res"
  by (auto simp: loop_answer_def split: sum.splits)

lemma match_loop_correct:
  assumes "length h \<le> usize_max" and "\<forall>t\<in>set (loop_threads cur bs). thread_ok strict (length h) k t"
  shows "loop_answer strict h start (loop_threads cur bs) (match_loop h start cur bs fuel)"
  using assms(2)
proof (induction fuel arbitrary: cur bs rule: less_induct)
  case (less fuel)
  show ?case
  proof (cases cur)
    case None
    show ?thesis
    proof (cases bs)
      case Nil
      with None show ?thesis by (simp add: match_loop.simps)
    next
      case (Cons t ts)
      with None less.prems less.IH [of "fuel - 1" "Some t" ts] show ?thesis
        by (cases "fuel = 0") (simp_all add: match_loop_None)
    qed
  next
    case (Some t)
    show ?thesis
    proof (cases "fuel = 0")
      case True
      with Some show ?thesis by (simp add: match_loop_Some)
    next
      case False
      from less.prems Some have t: "thread_ok strict (length h) k t" and bs: "\<forall>t\<in>set bs. thread_ok strict (length h) k t"
        by auto
      show ?thesis
      proof (cases "th_actions t")
        case Nil
        with Some False show ?thesis by (simp add: match_loop_Some thread_outs_def)
      next
        case (Cons a as)
        with t have t': "thread_ok strict (length h) k (t\<lparr>th_actions := as\<rparr>)"
          and a: "act_ok strict (length h) k (th_position (t\<lparr>th_actions := as\<rparr>)) a"
          by (auto simp: thread_ok_def)
        show ?thesis
        proof (cases "step_action h a (t\<lparr>th_actions := as\<rparr>) (fuel - 1)")
          case (Inl e)
          with Some False Cons step_action_error [OF Inl t' a assms(1)] show ?thesis
            by (simp add: match_loop_Some)
        next
          case (Inr cf)
          then obtain c f where st: "step_action h a (t\<lparr>th_actions := as\<rparr>) (fuel - 1) = Inr (c, f)"
            by (cases cf) auto
          have f: "f < fuel" using step_action_fuel [OF st] False by simp
          have outs: "threads_outs h (control_threads c) = thread_outs h t"
            using step_threads_outs [OF st Cons] t by (simp add: thread_ok_def)
          have ok: "\<forall>t\<in>set (control_threads c). thread_ok strict (length h) k t"
            by (rule step_action_ok [OF st t' a])
          define cur' bs' where "cur' = (case c of Continue u \<Rightarrow> Some u | Break ps \<Rightarrow> None)"
            and "bs' = (case c of Continue u \<Rightarrow> bs | Break ps \<Rightarrow> ps @ bs)"
          have lt: "loop_threads cur' bs' = control_threads c @ bs"
            by (cases c) (simp_all add: cur'_def bs'_def)
          have eq: "match_loop h start cur bs fuel = match_loop h start cur' bs' f"
            using Some False Cons st
            by (simp add: match_loop_Some [of h start t] cur'_def bs'_def split: ref_control.split)
          have "loop_answer strict h start (loop_threads cur' bs') (match_loop h start cur' bs' f)"
            using ok bs by (intro less.IH [OF f]) (auto simp: lt)
          then show ?thesis
            using loop_answer_cong [of h "loop_threads cur' bs'" "loop_threads cur bs"] outs Some eq lt
            by simp
        qed
      qed
    qed
  qed
qed

section \<open>Search\<close>

text \<open>
  What a search must return: the outcomes of all starts, in order, and the first of them.
\<close>

definition start_state :: "ref_regex \<Rightarrow> nat \<Rightarrow> ref_state" where
  "start_state r s = (s, replicate (rr_capture_count r + 1) None)"

definition final_match :: "nat \<Rightarrow> ref_state \<Rightarrow> ref_match" where
  "final_match s st =
     mk_match s (fst st, (snd st)[0 := Some \<lparr>rs_start = s, rs_end = fst st\<rparr>])"

definition match_at :: "ref_regex \<Rightarrow> bytes \<Rightarrow> nat \<Rightarrow> ref_match option" where
  "match_at r h s = map_option (final_match s) (first_of (outs h (rr_ast r) (start_state r s)))"

fun first_match :: "ref_regex \<Rightarrow> bytes \<Rightarrow> nat list \<Rightarrow> ref_match option" where
  "first_match r h [] = None"
| "first_match r h (s # ss) =
     (case match_at r h s of Some m \<Rightarrow> Some m | None \<Rightarrow> first_match r h ss)"

definition regex_ok :: "bool \<Rightarrow> nat \<Rightarrow> ref_regex \<Rightarrow> bool" where
  "regex_ok strict n r \<longleftrightarrow> ast_ok strict n (rr_capture_count r + 1) (rr_ast r)
     \<and> rr_capture_count r + 1 \<le> usize_max \<and> n \<le> usize_max"

lemma match_from_eq:
  "regex_ok strict (length h) r \<Longrightarrow> match_from r h s fuel = match_loop h s None
     [\<lparr>th_position = fst (start_state r s), th_actions = [ANode (rr_ast r)],
       th_captures = snd (start_state r s)\<rparr>] fuel"
  by (simp add: match_from_def regex_ok_def uadd_def start_state_def)

lemma thread_outs_initial:
  "thread_outs h \<lparr>th_position = fst st, th_actions = [ANode a], th_captures = snd st\<rparr> = outs h a st"
  by (simp add: thread_outs_def seq_outs_Nil)

lemma match_from_answer:
  assumes "regex_ok strict (length h) r" "s \<le> length h"
  shows "match_from r h s fuel = Inl e \<Longrightarrow> machine_error strict e"
    and "match_from r h s fuel = Inr (m, fuel') \<Longrightarrow>
      m = map_option (mk_match s) (first_of (outs h (rr_ast r) (start_state r s)))"
proof -
  let ?t = "\<lparr>th_position = fst (start_state r s), th_actions = [ANode (rr_ast r)],
       th_captures = snd (start_state r s)\<rparr>"
  have "loop_answer strict h s (loop_threads None [?t]) (match_loop h s None [?t] fuel)"
    by (rule match_loop_correct [where k = "rr_capture_count r + 1"])
      (use assms in \<open>auto simp: regex_ok_def thread_ok_def start_state_def\<close>)
  then have *: "loop_answer strict h s [?t] (match_from r h s fuel)"
    by (simp add: match_from_eq [OF assms(1)])
  show "machine_error strict e" if "match_from r h s fuel = Inl e"
    using * that by simp
  show "m = map_option (mk_match s) (first_of (outs h (rr_ast r) (start_state r s)))"
    if "match_from r h s fuel = Inr (m, fuel')"
    using * that thread_outs_initial [of h "start_state r s" "rr_ast r"] by simp
qed

end
