(* ===== verification/RefBudget.thy ===== *)
theory RefBudget
  imports RefCorrect
begin

text \<open>
  How many steps the reference interpreter needs. Each turn of the machine spends one unit of
  fuel and each pushed alternative one more; \<open>work h a s\<close> counts what the exploration of the
  AST \<open>a\<close> from the state \<open>s\<close> spends when every outcome is followed, so that fuel for it, and for
  what follows each of the outcomes, gives an answer. More fuel never changes the answer.
\<close>

section \<open>Fuel is only a budget\<close>

text \<open>More fuel never changes an answer: it is left over.\<close>

lemma step_action_more_fuel:
  assumes "step_action h a t fuel = Inr (c, fuel')"
  shows "step_action h a t (fuel + d) = Inr (c, fuel' + d)"
proof (cases a)
  case (ANode b)
  with assms show ?thesis
    by (cases b) (auto simp: advance_def push_alternatives_eq uadd_def split: if_splits elim!: rbindE)
next
  case (ARepeat b mn mx g count prev)
  with assms show ?thesis by (auto simp: Let_def split: if_splits elim!: rbindE)
qed (use assms in \<open>auto split: if_splits\<close>)

lemma match_loop_more_fuel:
  "match_loop h start cur bs fuel = Inr (r, fuel') \<Longrightarrow>
     match_loop h start cur bs (fuel + d) = Inr (r, fuel' + d)"
proof (induction fuel arbitrary: cur bs rule: less_induct)
  case (less fuel)
  show ?case
  proof (cases cur)
    case None
    show ?thesis
    proof (cases bs)
      case (Cons t ts)
      with None less.prems less.IH [of "fuel - 1" "Some t" ts] show ?thesis
        by (auto simp: match_loop_None split: if_splits)
    qed (use None less.prems in \<open>simp add: match_loop.simps\<close>)
  next
    case (Some t)
    with less.prems have pos: "0 < fuel" by (cases fuel) (auto simp: match_loop_Some [of h start t])
    show ?thesis
    proof (cases "th_actions t")
      case (Cons a as)
      with Some less.prems pos obtain c f
        where st: "step_action h a (t\<lparr>th_actions := as\<rparr>) (fuel - 1) = Inr (c, f)"
          and rest: "(case c of Continue t' \<Rightarrow> match_loop h start (Some t') bs f
           | Break ps \<Rightarrow> match_loop h start None (ps @ bs) f) = Inr (r, fuel')"
        by (auto simp: match_loop_Some [of h start t] elim!: rbindE)
      have "f < fuel" using step_action_fuel [OF st] pos by simp
      from less.IH [OF this] rest have "(case c of Continue t' \<Rightarrow> match_loop h start (Some t') bs (f + d)
           | Break ps \<Rightarrow> match_loop h start None (ps @ bs) (f + d)) = Inr (r, fuel' + d)"
        by (auto split: ref_control.splits)
      moreover have "fuel + d - 1 = fuel - 1 + d" using pos by simp
      ultimately show ?thesis
        using Some Cons pos step_action_more_fuel [OF st, of d]
        by (simp add: match_loop_Some [of h start t])
    qed (use Some less.prems pos in \<open>auto simp: match_loop_Some\<close>)
  qed
qed

section \<open>The cost of an exploration\<close>

fun seq_work :: "((ref_state \<Rightarrow> ref_state list) \<times> (ref_state \<Rightarrow> nat)) list \<Rightarrow> ref_state \<Rightarrow> nat" where
  "seq_work [] s = 0"
| "seq_work ((f, w) # fws) s = w s + sum_list (map (seq_work fws) (f s))"

text \<open>
  The turns of a repetition, by the recursion of \<open>rep_outs\<close>: one for the counter, those of the
  body, those of each further iteration, and two to pop the branches when both may follow.
\<close>

function rep_work ::
    "(ref_state \<Rightarrow> ref_state list) \<Rightarrow> (ref_state \<Rightarrow> nat) \<Rightarrow> nat \<Rightarrow> nat \<Rightarrow> nat option \<Rightarrow> nat \<Rightarrow> nat
     \<Rightarrow> ref_state \<Rightarrow> nat" where
  "rep_work f w n mn mx count prev s =
     (if \<not> may_repeat mn mx count prev (fst s) then 1
      else 1 + w s + sum_list (map (\<lambda>s'. if fst s \<le> fst s' \<and> fst s' \<le> n
              then rep_work f w n mn mx (Suc count) (fst s) s' else 0) (f s))
           + (if count < mn then 0 else 2))"
  by pat_completeness auto
termination
  by (relation "measures [\<lambda>(f, w, n, mn, mx, count, prev, s). mn - count,
      \<lambda>(f, w, n, mn, mx, count, prev, s).
        2 * (n - fst s) + (if count = 0 \<or> fst s \<noteq> prev then 1 else 0)]")
    (auto simp: may_repeat_def)

declare rep_work.simps [simp del]

primrec work :: "bytes \<Rightarrow> ref_ast \<Rightarrow> ref_state \<Rightarrow> nat" where
  "work h REmpty = (\<lambda>s. 1)"
| "work h (RByte b) = (\<lambda>s. 1)"
| "work h (RClass rs) = (\<lambda>s. 1)"
| "work h (RConcat as) = (\<lambda>s. 1 + seq_work (zip (map (outs h) as) (map (work h) as)) s)"
| "work h (RAlt as) = (\<lambda>s. 1 + sum_list (map (\<lambda>w. 2 + w s) (map (work h) as)))"
| "work h (RRepeat a mn mx g) =
     (\<lambda>s. 1 + rep_work (outs h a) (work h a) (length h) mn mx 0 (fst s) s)"
| "work h (RCapture i a) = (\<lambda>s. 1 + work h a s + length (outs h a s))"
| "work h RStartText = (\<lambda>s. 1)"
| "work h REndText = (\<lambda>s. 1)"

lemma rep_work_outs:
  assumes "fst s \<le> length h"
  shows "rep_work (outs h a) w (length h) mn mx count prev s =
     (if \<not> may_repeat mn mx count prev (fst s) then 1
      else 1 + w s + sum_list (map (rep_work (outs h a) w (length h) mn mx (Suc count) (fst s)) (outs h a s))
           + (if count < mn then 0 else 2))"
proof -
  have "map (\<lambda>s'. if fst s \<le> fst s' \<and> fst s' \<le> length h
          then rep_work (outs h a) w (length h) mn mx (Suc count) (fst s) s' else 0) (outs h a s) =
        map (rep_work (outs h a) w (length h) mn mx (Suc count) (fst s)) (outs h a s)"
    using outs_bounds [OF assms, of _ _ a "snd s"] by (intro map_cong) force+
  then show ?thesis
    unfolding rep_work.simps [of "outs h a" w "length h" mn mx count prev s] by (simp only:)
qed

lemma sum_list_concat_map:
  "sum_list (map k (concat (map F xs))) = (\<Sum>x\<leftarrow>xs. sum_list (map k (F x)) :: nat)"
  by (induction xs) auto

section \<open>Enough fuel gives an answer\<close>

definition halts_in :: "bytes \<Rightarrow> nat \<Rightarrow> ref_thread option \<Rightarrow> ref_thread list \<Rightarrow> nat \<Rightarrow> bool" where
  "halts_in h start cur bs N \<longleftrightarrow> (\<exists>r. match_loop h start cur bs N = Inr r)"

definition control_halts_in :: "bytes \<Rightarrow> nat \<Rightarrow> ref_control \<Rightarrow> ref_thread list \<Rightarrow> nat \<Rightarrow> bool" where
  "control_halts_in h start c bs N = (case c of Continue t \<Rightarrow> halts_in h start (Some t) bs N
     | Break ps \<Rightarrow> halts_in h start None (ps @ bs) N)"

lemma halts_in_mono: "halts_in h start cur bs N \<Longrightarrow> N \<le> M \<Longrightarrow> halts_in h start cur bs M"
  using match_loop_more_fuel [of h start cur bs N _ _ "M - N"] by (fastforce simp: halts_in_def)

lemma halts_in_Nil: "halts_in h start None [] N"
  by (simp add: halts_in_def match_loop.simps)

lemma halts_in_pop: "halts_in h start (Some t) bs N \<Longrightarrow> halts_in h start None (t # bs) (Suc N)"
  by (simp add: halts_in_def match_loop_None)

lemma halts_in_answer: "th_actions t = [] \<Longrightarrow> 0 < N \<Longrightarrow> halts_in h start (Some t) bs N"
  by (simp add: halts_in_def match_loop_Some)

lemma halts_in_step:
  assumes "th_actions t = a # as" "step_action h a (t\<lparr>th_actions := as\<rparr>) G = Inr (c, 0)"
    and "control_halts_in h start c bs N"
  shows "halts_in h start (Some t) bs (Suc (G + N))"
  using assms step_action_more_fuel [OF assms(2), of N]
  by (auto simp: halts_in_def control_halts_in_def match_loop_Some split: ref_control.splits)

text \<open>The same with the number of units named by an equation, for a control that is known.\<close>

lemma halts_in_continue:
  assumes "th_actions t = a # as" "step_action h a (t\<lparr>th_actions := as\<rparr>) 0 = Inr (Continue u, 0)"
    and "halts_in h start (Some u) bs N" "M = Suc N"
  shows "halts_in h start (Some t) bs M"
  using halts_in_step [OF assms(1,2), of start bs N] assms(3,4) by (simp add: control_halts_in_def)

lemma halts_in_break:
  assumes "th_actions t = a # as" "step_action h a (t\<lparr>th_actions := as\<rparr>) G = Inr (Break ps, 0)"
    and "halts_in h start None (ps @ bs) N" "M = Suc (G + N)"
  shows "halts_in h start (Some t) bs M"
  using halts_in_step [OF assms(1,2), of start bs N] assms(3,4) by (simp add: control_halts_in_def)

text \<open>
  \<open>good A s c\<close>: in front of any stack that halts, a thread in state \<open>s\<close> with pending actions \<open>A\<close>
  adds at most \<open>c\<close> units.
\<close>

definition good :: "bytes \<Rightarrow> nat \<Rightarrow> ref_action list \<Rightarrow> ref_state \<Rightarrow> nat \<Rightarrow> bool" where
  "good h start A s c \<longleftrightarrow> (\<forall>bs N. halts_in h start None bs N \<longrightarrow>
     halts_in h start (Some \<lparr>th_position = fst s, th_actions = A, th_captures = snd s\<rparr>) bs (c + N))"

lemma goodI:
  assumes "\<And>bs N. halts_in h start None bs N \<Longrightarrow>
    halts_in h start (Some \<lparr>th_position = fst s, th_actions = A, th_captures = snd s\<rparr>) bs (c + N)"
  shows "good h start A s c"
  using assms by (simp add: good_def)

lemma goodD:
  "good h start A (p, cs) c \<Longrightarrow> halts_in h start None bs N \<Longrightarrow>
     halts_in h start (Some \<lparr>th_position = p, th_actions = A, th_captures = cs\<rparr>) bs (c + N)"
  by (simp add: good_def)

lemma good_pop:
  "good h start A (p, cs) c \<Longrightarrow> halts_in h start None bs N \<Longrightarrow>
     halts_in h start None (\<lparr>th_position = p, th_actions = A, th_captures = cs\<rparr> # bs) (Suc (c + N))"
  by (intro halts_in_pop goodD)

lemma good_pops:
  assumes "\<forall>a\<in>set as. good h start (ANode a # A) (p, cs) (w a)" "halts_in h start None bs N"
  shows "halts_in h start None
    (map (\<lambda>a. \<lparr>th_position = p, th_actions = ANode a # A, th_captures = cs\<rparr>) as @ bs)
    ((\<Sum>a\<leftarrow>as. Suc (w a)) + N)"
  using assms
proof (induction as)
  case (Cons a as)
  then show ?case
    using good_pop [of h start "ANode a # A" p cs "w a" _ "(\<Sum>a\<leftarrow>as. Suc (w a)) + N"]
    by (simp add: add.assoc)
qed simp

lemma good_continue:
  assumes "step_action h a \<lparr>th_position = fst s, th_actions = A, th_captures = snd s\<rparr> 0 =
      Inr (Continue \<lparr>th_position = fst s', th_actions = A', th_captures = snd s'\<rparr>, 0)"
    and "good h start A' s' c"
  shows "good h start (a # A) s (Suc c)"
proof (rule goodI)
  fix bs N
  assume "halts_in h start None bs N"
  with assms(2) have
    "halts_in h start (Some \<lparr>th_position = fst s', th_actions = A', th_captures = snd s'\<rparr>) bs (c + N)"
    by (simp add: good_def)
  from halts_in_continue [OF _ _ this, of _ a A] assms(1)
  show "halts_in h start (Some \<lparr>th_position = fst s, th_actions = a # A, th_captures = snd s\<rparr>) bs (Suc c + N)"
    by simp
qed

text \<open>A leaf consumes its action and goes on with its single outcome, or drops the thread.\<close>

lemma good_leaf:
  assumes "step_node h a \<lparr>th_position = fst s, th_actions = A, th_captures = snd s\<rparr> 0 =
      Inr (case outs h a s of [] \<Rightarrow> Break []
        | s' # _ \<Rightarrow> Continue \<lparr>th_position = fst s', th_actions = A, th_captures = snd s'\<rparr>, 0)"
    and "length (outs h a s) \<le> 1"
    and "\<forall>s'\<in>set (outs h a s). good h start A s' (k s')"
  shows "good h start (ANode a # A) s (1 + sum_list (map k (outs h a s)))"
proof (cases "outs h a s")
  case Nil
  show ?thesis
    by (rule goodI, rule halts_in_break [where a = "ANode a" and as = A and G = 0 and ps = "[]"])
      (use Nil assms(1) in simp_all)
next
  case (Cons s' ss)
  with assms show ?thesis
    using good_continue [of h "ANode a" s A s' A start "k s'"] by simp
qed

lemma good_seq:
  assumes "\<And>a A s k. a \<in> set as \<Longrightarrow> fst s \<le> length h \<Longrightarrow> length (snd s) = slots \<Longrightarrow>
      \<forall>s'\<in>set (outs h a s). good h start A s' (k s') \<Longrightarrow>
      good h start (ANode a # A) s (work h a s + sum_list (map k (outs h a s)))"
    and "fst s \<le> length h" "length (snd s) = slots"
    and "\<forall>s'\<in>set (seq_outs (map (outs h) as) s). good h start A s' (k s')"
  shows "good h start (map ANode as @ A) s (seq_work (zip (map (outs h) as) (map (work h) as)) s
      + sum_list (map k (seq_outs (map (outs h) as) s)))"
  using assms
proof (induction as arbitrary: s)
  case (Cons a as)
  let ?k = "\<lambda>s'. seq_work (zip (map (outs h) as) (map (work h) as)) s'
      + sum_list (map k (seq_outs (map (outs h) as) s'))"
  have "good h start (map ANode as @ A) s' (?k s')" if s': "s' \<in> set (outs h a s)" for s'
  proof (rule Cons.IH)
    show "fst s' \<le> length h" "length (snd s') = slots"
      using outs_bounds [OF Cons.prems(2), of "fst s'" "snd s'" a "snd s"] s' Cons.prems(3) by auto
    show "\<forall>s''\<in>set (seq_outs (map (outs h) as) s'). good h start A s'' (k s'')"
      using Cons.prems(4) s' by auto
  qed (use Cons.prems(1) in auto)
  with Cons.prems(1) [of a s "map ANode as @ A" ?k] Cons.prems(2,3) show ?case
    by (simp add: sum_list_concat_map sum_list_addf add.assoc)
qed simp

text \<open>One turn of a repetition: it drops the thread, leaves the loop, repeats, or branches.\<close>

lemma good_repeat_turn:
  assumes again: "may_repeat mn mx count prev (fst s) \<Longrightarrow> Suc count \<le> u32_max \<and>
      good h start (ANode a # ARepeat a mn mx g (Suc count) (fst s) # A) s c"
    and leave: "\<not> count < mn \<Longrightarrow> good h start A s d"
  shows "good h start (ARepeat a mn mx g count prev # A) s
    (if \<not> may_repeat mn mx count prev (fst s) then (if count < mn then 1 else 1 + d)
     else 1 + c + (if count < mn then 0 else 2 + d))"
proof (rule goodI)
  fix bs N
  assume bs: "halts_in h start None bs N"
  obtain p cs where s: "s = (p, cs)" by (cases s)
  let ?x = "\<lparr>th_position = fst s, th_actions = ARepeat a mn mx g count prev # A, th_captures = snd s\<rparr>"
  let ?t = "\<lparr>th_position = p, th_actions = A, th_captures = cs\<rparr>"
  let ?r = "\<lparr>th_position = p,
      th_actions = ANode a # ARepeat a mn mx g (Suc count) p # A, th_captures = cs\<rparr>"
  note t = goodD [OF leave [unfolded s]] good_pop [OF leave [unfolded s]]
  show "halts_in h start (Some ?x) bs
    ((if \<not> may_repeat mn mx count prev (fst s) then (if count < mn then 1 else 1 + d)
     else 1 + c + (if count < mn then 0 else 2 + d)) + N)" (is "halts_in h start _ _ ?M")
  proof (cases "may_repeat mn mx count prev p")
    case no: False
    show ?thesis
    proof (cases "count < mn")
      case True
      show ?thesis
        by (rule halts_in_break [where G = 0 and ps = "[]" and N = N])
          (use True no s bs in \<open>auto simp: may_repeat_def Let_def\<close>)
    next
      case False
      show ?thesis
        by (rule halts_in_continue [where u = ?t and N = "d + N"])
          (use False no s t(1) [OF _ bs] in \<open>auto simp: may_repeat_def Let_def\<close>)
    qed
  next
    case may: True
    with again s have r: "good h start (ANode a # ARepeat a mn mx g (Suc count) p # A) (p, cs) c"
      and sched: "schedule_repeat ?t a mn mx g count = Inr ?r"
      by (auto simp: schedule_repeat_def)
    show ?thesis
    proof (cases "count < mn")
      case True
      show ?thesis
        by (rule halts_in_continue [where u = ?r and N = "c + N"])
          (use True may s sched goodD [OF r bs] in \<open>auto simp: may_repeat_def Let_def\<close>)
    next
      case False
      have "halts_in h start None ((case g of RGreedy \<Rightarrow> [?r, ?t] | RLazy \<Rightarrow> [?t, ?r]) @ bs)
          (Suc (c + Suc (d + N)))"
        using good_pop [OF r t(2) [OF False bs]] t(2) [OF False good_pop [OF r bs]]
        by (cases g) (simp_all add: add.left_commute)
      then show ?thesis
        by (rule halts_in_break [rotated 2, where G = 0])
          (use False may s sched in \<open>auto simp: may_repeat_def Let_def\<close>)
    qed
  qed
qed

lemma good_rep:
  assumes child: "\<And>A s k. fst s \<le> length h \<Longrightarrow> length (snd s) = slots \<Longrightarrow>
      \<forall>s'\<in>set (outs h a s). good h start A s' (k s') \<Longrightarrow>
      good h start (ANode a # A) s (work h a s + sum_list (map k (outs h a s)))"
    and "fst s \<le> length h" "length (snd s) = slots" "prev \<le> fst s" "count \<le> mn + prev + 1"
    and "repeat_fits (length h) mn mx"
    and "\<forall>s'\<in>set (rep_outs (outs h a) (length h) mn mx g count prev s). good h start A s' (k s')"
  shows "good h start (ARepeat a mn mx g count prev # A) s
    (rep_work (outs h a) (work h a) (length h) mn mx count prev s
      + sum_list (map k (rep_outs (outs h a) (length h) mn mx g count prev s)))"
  using assms(2-)
proof (induction "outs h a" "length h" mn mx g count prev s rule: rep_outs.induct)
  case (1 mn mx g count prev s)
  note eq = rep_outs_outs [OF "1.prems"(1), of a mn mx g count prev]
    and weq = rep_work_outs [OF "1.prems"(1), of a "work h a" mn mx count prev]
  let ?k = "\<lambda>s'. rep_work (outs h a) (work h a) (length h) mn mx (Suc count) (fst s) s'
      + sum_list (map k (rep_outs (outs h a) (length h) mn mx g (Suc count) (fst s) s'))"
  have again: "Suc count \<le> u32_max \<and> good h start (ANode a # ARepeat a mn mx g (Suc count) (fst s) # A) s
      (work h a s + sum_list (map ?k (outs h a s)))"
    if may: "may_repeat mn mx count prev (fst s)"
  proof (intro conjI child ballI)
    fix s' assume s': "s' \<in> set (outs h a s)"
    with outs_bounds [OF "1.prems"(1), of "fst s'" "snd s'" a "snd s"] "1.prems"(2)
    have b: "fst s \<le> fst s'" "fst s' \<le> length h" "length (snd s') = slots" by auto
    have g: "\<forall>s''\<in>set (rep_outs (outs h a) (length h) mn mx g (Suc count) (fst s) s').
        good h start A s'' (k s'')"
      using "1.prems"(6) may s' eq by (auto simp: Let_def split: if_splits ref_greed.splits)
    have "Suc count \<le> mn + fst s + 1"
      using may "1.prems"(3,4) by (auto simp: may_repeat_def)
    then show "good h start (ARepeat a mn mx g (Suc count) (fst s) # A) s' (?k s')"
      using "1.hyps" [of s'] may s' b g "1.prems"(5) by simp
  qed (use repeat_fits_count [OF "1.prems"(5) may "1.prems"(1,3,4)] "1.prems"(1,2) in simp_all)
  have leave: "good h start A s (k s)" if "\<not> count < mn"
    using "1.prems"(6) that eq by (auto simp: Let_def split: if_splits ref_greed.splits)
  have "good h start (ARepeat a mn mx g count prev # A) s
    (if \<not> may_repeat mn mx count prev (fst s) then (if count < mn then 1 else 1 + k s)
     else 1 + (work h a s + sum_list (map ?k (outs h a s))) + (if count < mn then 0 else 2 + k s))"
    by (rule good_repeat_turn) (use again leave in auto)
  then show ?case
    unfolding eq weq
    by (cases g) (simp_all add: Let_def sum_list_concat_map sum_list_addf ac_simps
        split: if_splits)
qed

lemma good_capture:
  assumes child: "\<And>A k. \<forall>s'\<in>set (outs h b s). good h start A s' (k s') \<Longrightarrow>
      good h start (ANode b # A) s (work h b s + sum_list (map k (outs h b s)))"
    and "fst s \<le> length h" "length (snd s) = slots" "i < slots"
    and "\<forall>s'\<in>set (outs h (RCapture i b) s). good h start A s' (k s')"
  shows "good h start (ANode (RCapture i b) # A) s
    (work h (RCapture i b) s + sum_list (map k (outs h (RCapture i b) s)))"
proof -
  let ?close = "\<lambda>(q, d). (q, d[i := Some \<lparr>rs_start = fst s, rs_end = q\<rparr>])"
  have "good h start (ACloseCapture i (fst s) # A) s' (1 + k (?close s'))"
    if m: "s' \<in> set (outs h b s)" for s'
  proof -
    obtain q d where s': "s' = (q, d)" by (cases s')
    have "i < length d"
      using outs_bounds [OF assms(2), of q d b "snd s"] m s' assms(3,4) by simp
    moreover have "good h start A (?close s') (k (?close s'))"
      using assms(5) m by (cases s) force
    ultimately show ?thesis
      using good_continue [of h "ACloseCapture i (fst s)" s' A "?close s'" A start] s' by simp
  qed
  then have "good h start (ANode b # ACloseCapture i (fst s) # A) s
      (work h b s + sum_list (map (\<lambda>s'. 1 + k (?close s')) (outs h b s)))"
    by (intro child) auto
  from good_continue [OF _ this, of "ANode (RCapture i b)" s A]
  have "good h start (ANode (RCapture i b) # A) s
      (Suc (work h b s + sum_list (map (\<lambda>s'. 1 + k (?close s')) (outs h b s))))" by simp
  moreover have "work h (RCapture i b) s + sum_list (map k (outs h (RCapture i b) s)) =
      Suc (work h b s + sum_list (map (\<lambda>s'. 1 + k (?close s')) (outs h b s)))"
    by (cases s) (simp add: sum_list_Suc comp_def)
  ultimately show ?thesis by (simp only:)
qed

lemma good_node:
  assumes "ast_ok True (length h) slots a" "fst s \<le> length h" "length (snd s) = slots"
    and "length h \<le> usize_max"
    and "\<forall>s'\<in>set (outs h a s). good h start A s' (k s')"
  shows "good h start (ANode a # A) s (work h a s + sum_list (map k (outs h a s)))"
  using assms
proof (induction a arbitrary: A s k)
  case (RConcat as)
  have "good h start (map ANode as @ A) s (seq_work (zip (map (outs h) as) (map (work h) as)) s
      + sum_list (map k (outs h (RConcat as) s)))"
    unfolding outs.simps by (rule good_seq [where slots = slots])
      (use RConcat in \<open>auto simp: list_all_iff\<close>)
  from good_continue [OF _ this, of "ANode (RConcat as)" s A] show ?case by simp
next
  case (RAlt as)
  have alts: "\<forall>a\<in>set as. good h start (ANode a # A) (fst s, snd s)
      (work h a s + sum_list (map k (outs h a s)))"
    using RAlt by (fastforce simp: list_all_iff)
  have sum: "work h (RAlt as) s + sum_list (map k (outs h (RAlt as) s)) =
      Suc (length as + (\<Sum>a\<leftarrow>as. Suc (work h a s + sum_list (map k (outs h a s)))))"
    by (induction as) (simp_all add: comp_def)
  show ?case
    unfolding sum
    by (intro goodI halts_in_break [OF _ _ good_pops [OF alts]]) (auto simp: push_alternatives_eq rev_map)
next
  case (RRepeat b mn mx g)
  have "good h start (ARepeat b mn mx g 0 (fst s) # A) s
     (rep_work (outs h b) (work h b) (length h) mn mx 0 (fst s) s
      + sum_list (map k (rep_outs (outs h b) (length h) mn mx g 0 (fst s) s)))"
    by (rule good_rep [where slots = slots]) (use RRepeat in auto)
  from good_continue [OF _ this, of "ANode (RRepeat b mn mx g)" s A] show ?case by simp
next
  case (RCapture i b)
  show ?case
    by (rule good_capture [where slots = slots]) (use RCapture in auto)
next
  case REmpty
  then show ?case using good_leaf [of h REmpty s A start k] by simp
next
  case (RByte x)
  then show ?case using good_leaf [of h "RByte x" s A start k]
    by (auto simp: advance_def uadd_def split: prod.splits)
next
  case (RClass x)
  then show ?case using good_leaf [of h "RClass x" s A start k]
    by (auto simp: advance_def uadd_def split: prod.splits)
next
  case RStartText
  then show ?case using good_leaf [of h RStartText s A start k] by (auto split: prod.splits)
next
  case REndText
  then show ?case using good_leaf [of h REndText s A start k] by (auto split: prod.splits)
qed

section \<open>The cost of a search\<close>

text \<open>From one start: to pop the thread, to explore the AST, and to answer at one of its outcomes.\<close>

definition start_work :: "ref_regex \<Rightarrow> bytes \<Rightarrow> nat \<Rightarrow> nat" where
  "start_work r h s = 1 + work h (rr_ast r) (start_state r s)
     + length (outs h (rr_ast r) (start_state r s))"

lemma match_from_enough:
  assumes "regex_ok True (length h) r" "s \<le> length h" "start_work r h s \<le> fuel"
  shows "\<exists>f. fuel - start_work r h s \<le> f \<and> match_from r h s fuel =
    Inr (map_option (mk_match s) (first_of (outs h (rr_ast r) (start_state r s))), f)"
proof -
  let ?t = "\<lparr>th_position = fst (start_state r s), th_actions = [ANode (rr_ast r)],
       th_captures = snd (start_state r s)\<rparr>"
  let ?W = "start_work r h s"
  have "good h s [ANode (rr_ast r)] (start_state r s)
      (work h (rr_ast r) (start_state r s) + sum_list (map (\<lambda>_. 1) (outs h (rr_ast r) (start_state r s))))"
    by (rule good_node [where slots = "rr_capture_count r + 1"])
      (use assms in \<open>auto simp: regex_ok_def start_state_def good_def intro: halts_in_answer\<close>)
  then have "halts_in h s None [?t] ?W"
    using good_pop [OF _ halts_in_Nil, of h s "[ANode (rr_ast r)]" "fst (start_state r s)"
        "snd (start_state r s)" _ 0]
    by (simp add: start_work_def sum_list_triv)
  then obtain m f where W: "match_loop h s None [?t] ?W = Inr (m, f)"
    by (auto simp: halts_in_def)
  have "match_from r h s fuel = Inr (m, f + (fuel - ?W))"
    using match_loop_more_fuel [OF W, of "fuel - ?W"] assms(3) by (simp add: match_from_eq [OF assms(1)])
  with match_from_answer(2) [OF assms(1,2)] show ?thesis by fastforce
qed

end
