(* ===== verification/RefSearch.thy ===== *)
theory RefSearch
  imports RefBudget
begin

text \<open>
  What the public operations of the reference interpreter promise: validation accepts exactly
  the well-formed ASTs within the limits, \<^verbatim>\<open>find_at\<close> returns the leftmost match of highest
  priority, and \<^verbatim>\<open>find_all_rust_reference\<close> enumerates the abstract iteration sequence of
  \<^verbatim>\<open>IterSpec\<close>. The interpreter's selector interprets the locale \<^verbatim>\<open>selector\<close>.
\<close>

section \<open>Validation\<close>

primrec max_list :: "nat list \<Rightarrow> nat" where
  "max_list [] = 0"
| "max_list (x # xs) = max x (max_list xs)"

lemma max_list_le_iff: "max_list xs \<le> (m::nat) \<longleftrightarrow> (\<forall>x\<in>set xs. x \<le> m)"
  by (induction xs) auto

lemma max_list_append: "max_list (xs @ ys) = max (max_list xs) (max_list ys)"
  by (induction xs) auto

lemma max_list_rev: "max_list (rev xs) = max_list xs"
  by (induction xs) (auto simp: max_list_append)

primrec ref_nodes :: "ref_ast \<Rightarrow> nat" where
  "ref_nodes REmpty = 1"
| "ref_nodes (RByte b) = 1"
| "ref_nodes (RClass rs) = 1"
| "ref_nodes (RConcat as) = 1 + sum_list (map ref_nodes as)"
| "ref_nodes (RAlt as) = 1 + sum_list (map ref_nodes as)"
| "ref_nodes (RRepeat a mn mx g) = 1 + ref_nodes a"
| "ref_nodes (RCapture i a) = 1 + ref_nodes a"
| "ref_nodes RStartText = 1"
| "ref_nodes REndText = 1"

primrec ref_depth :: "ref_ast \<Rightarrow> nat" where
  "ref_depth REmpty = 1"
| "ref_depth (RByte b) = 1"
| "ref_depth (RClass rs) = 1"
| "ref_depth (RConcat as) = 1 + max_list (map ref_depth as)"
| "ref_depth (RAlt as) = 1 + max_list (map ref_depth as)"
| "ref_depth (RRepeat a mn mx g) = 1 + ref_depth a"
| "ref_depth (RCapture i a) = 1 + ref_depth a"
| "ref_depth RStartText = 1"
| "ref_depth REndText = 1"

primrec ref_captures :: "ref_ast \<Rightarrow> nat" where
  "ref_captures REmpty = 0"
| "ref_captures (RByte b) = 0"
| "ref_captures (RClass rs) = 0"
| "ref_captures (RConcat as) = max_list (map ref_captures as)"
| "ref_captures (RAlt as) = max_list (map ref_captures as)"
| "ref_captures (RRepeat a mn mx g) = ref_captures a"
| "ref_captures (RCapture i a) = max i (ref_captures a)"
| "ref_captures RStartText = 0"
| "ref_captures REndText = 0"

primrec ref_wf :: "ref_ast \<Rightarrow> bool" where
  "ref_wf REmpty = True"
| "ref_wf (RByte b) = True"
| "ref_wf (RClass rs) = (rs \<noteq> [] \<and> (\<forall>r\<in>set rs. br_start r \<le> br_end r))"
| "ref_wf (RConcat as) = list_all id (map ref_wf as)"
| "ref_wf (RAlt as) = (as \<noteq> [] \<and> list_all id (map ref_wf as))"
| "ref_wf (RRepeat a mn mx g) = ((case mx of None \<Rightarrow> True | Some m \<Rightarrow> mn \<le> m) \<and> ref_wf a)"
| "ref_wf (RCapture i a) = (0 < i \<and> ref_wf a)"
| "ref_wf RStartText = True"
| "ref_wf REndText = True"

lemma ref_nodes_pos: "0 < ref_nodes a" and ref_depth_pos: "0 < ref_depth a"
  by (cases a; simp)+

text \<open>One node of the traversal, against the recursive functions.\<close>

definition ref_valid :: "ref_limits \<Rightarrow> ref_ast \<Rightarrow> bool" where
  "ref_valid l a \<longleftrightarrow> ref_wf a \<and> ref_captures a \<le> max_capture_index l"

lemma node_check_Inl: "node_check l a = Inl e \<Longrightarrow> \<not> ref_valid l a"
  by (cases a) (auto simp: ref_valid_def not_le split: if_splits option.splits)

lemma node_check_Inr:
  assumes "node_check l a = Inr (cs, i)"
  shows "ref_valid l a \<longleftrightarrow> (\<forall>c\<in>set cs. ref_valid l c)"
    and "ref_nodes a = Suc (sum_list (map ref_nodes cs))"
    and "ref_depth a = Suc (max_list (map ref_depth cs))"
    and "ref_captures a = max i (max_list (map ref_captures cs))"
  using assms
  by (cases a; auto simp: ref_valid_def list_all_iff max_list_le_iff rev_map [symmetric]
      max_list_rev sum_list_rev_nat split: if_splits option.splits)+

definition stack_valid :: "ref_limits \<Rightarrow> (ref_ast \<times> nat) list \<Rightarrow> bool" where
  "stack_valid l stack \<longleftrightarrow>
     (\<forall>(a, d)\<in>set stack. ref_valid l a \<and> d + ref_depth a \<le> Suc (max_ast_depth l))"

abbreviation stack_nodes :: "(ref_ast \<times> nat) list \<Rightarrow> nat" where
  "stack_nodes stack \<equiv> sum_list (map (\<lambda>(a, d). ref_nodes a) stack)"

abbreviation stack_captures :: "(ref_ast \<times> nat) list \<Rightarrow> nat" where
  "stack_captures stack \<equiv> max_list (map (\<lambda>(a, d). ref_captures a) stack)"

lemma stack_valid_children:
  assumes "node_check l a = Inr (cs, i)" "d \<le> max_ast_depth l"
  shows "stack_valid l (map (\<lambda>c. (c, Suc d)) cs @ stack) \<longleftrightarrow> stack_valid l ((a, d) # stack)"
proof -
  have "d + ref_depth a \<le> Suc (max_ast_depth l) \<longleftrightarrow>
      max_list (map ref_depth cs) \<le> max_ast_depth l - d"
    using assms(2) node_check_Inr(3) [OF assms(1)] by auto
  also have "\<dots> \<longleftrightarrow> (\<forall>c\<in>set cs. Suc d + ref_depth c \<le> Suc (max_ast_depth l))"
    using assms(2) by (auto simp: max_list_le_iff)
  finally show ?thesis
    using node_check_Inr(1) [OF assms(1)] by (simp add: stack_valid_def ball_Un) blast
qed

lemma max_list_map_pair: "max_list (map (\<lambda>(a, d). f a) (map (\<lambda>c. (c, d)) cs)) = max_list (map f cs)"
  by (induction cs) auto

lemma sum_list_map_pair:
  "sum_list (map (\<lambda>(a, d). f a) (map (\<lambda>c. (c, d)) cs)) = (sum_list (map f cs) :: nat)"
  by (induction cs) auto

lemma validate_loop_iff:
  assumes "max_ast_nodes l \<le> usize_max" "max_ast_depth l < usize_max"
  shows "validate_loop l stack nodes captures = Inr c \<longleftrightarrow>
    stack_valid l stack \<and> (stack = [] \<or> nodes + stack_nodes stack \<le> max_ast_nodes l)
      \<and> c = max captures (stack_captures stack)"
  using assms
proof (induction l stack nodes captures rule: validate_loop.induct)
  case (1 l nodes captures)
  then show ?case by (auto simp: validate_loop.simps stack_valid_def)
next
  case (2 l a d stack nodes captures)
  show ?case
  proof (cases "Suc nodes \<le> max_ast_nodes l \<and> d \<le> max_ast_depth l")
    case False
    moreover have "\<not> (stack_valid l ((a, d) # stack) \<and>
        nodes + stack_nodes ((a, d) # stack) \<le> max_ast_nodes l)"
      using False ref_nodes_pos [of a] ref_depth_pos [of a] by (auto simp: stack_valid_def)
    ultimately show ?thesis
      by (auto simp: validate_loop.simps(2) not_le split: if_splits elim!: rbindE)
  next
    case True
    with "2.prems" have ok: "uadd nodes 1 = Some (Suc nodes)" "uadd d 1 = Some (Suc d)" by auto
    show ?thesis
    proof (cases "node_check l a")
      case (Inl e)
      then show ?thesis
        using node_check_Inl [OF Inl] by (auto simp: validate_loop.simps(2) stack_valid_def
            split: if_splits elim!: rbindE)
    next
      case (Inr ci)
      obtain cs i where ci: "ci = (cs, i)" by (cases ci)
      note nc = Inr [unfolded ci]
      let ?st = "map (\<lambda>c. (c, Suc d)) cs @ stack"
      have "validate_loop l ((a, d) # stack) nodes captures =
          validate_loop l ?st (Suc nodes) (max captures i)"
        using ok True nc by (simp add: validate_loop.simps(2))
      also have "\<dots> = Inr c \<longleftrightarrow> stack_valid l ?st \<and>
          (?st = [] \<or> Suc nodes + stack_nodes ?st \<le> max_ast_nodes l)
          \<and> c = max (max captures i) (stack_captures ?st)"
        by (rule "2.IH") (use ok True nc ci "2.prems" in auto)
      also have "(?st = [] \<or> Suc nodes + stack_nodes ?st \<le> max_ast_nodes l) \<longleftrightarrow>
          nodes + stack_nodes ((a, d) # stack) \<le> max_ast_nodes l"
        using True by (auto simp: node_check_Inr(2) [OF nc] sum_list_map_pair [unfolded map_map])
      also have "max (max captures i) (stack_captures ?st) =
          max captures (stack_captures ((a, d) # stack))"
        by (simp only: map_append max_list_append max_list_map_pair list.map max_list.simps
            node_check_Inr(4) [OF nc] prod.case max.assoc)
      finally show ?thesis
        using stack_valid_children [OF nc, of d stack] True by auto
    qed
  qed
qed

lemma reference_new_iff:
  assumes "max_ast_nodes l \<le> usize_max" "max_ast_depth l < usize_max"
  shows "reference_new ast l = Inr r \<longleftrightarrow>
    ref_wf ast \<and> ref_captures ast \<le> max_capture_index l \<and> ref_nodes ast \<le> max_ast_nodes l
      \<and> ref_depth ast \<le> max_ast_depth l
      \<and> r = \<lparr>rr_ast = ast, rr_capture_count = ref_captures ast, rr_limits = l\<rparr>"
  using validate_loop_iff [OF assms, of "[(ast, 1)]" 0 0]
  by (auto simp: reference_new_def stack_valid_def ref_valid_def rbind_eq_Inr)

text \<open>
  The machine's repetition counters are \<^verbatim>\<open>u32\<close>. On a haystack of \<open>n\<close> bytes none of them passes
  the maximum when every unbounded repetition has a minimum and \<open>n\<close> small enough: without this
  \<^verbatim>\<open>schedule_repeat\<close> can fail.
\<close>

primrec repeats_small :: "nat \<Rightarrow> ref_ast \<Rightarrow> bool" where
  "repeats_small n REmpty = True"
| "repeats_small n (RByte b) = True"
| "repeats_small n (RClass rs) = True"
| "repeats_small n (RConcat as) = list_all id (map (repeats_small n) as)"
| "repeats_small n (RAlt as) = list_all id (map (repeats_small n) as)"
| "repeats_small n (RRepeat a mn mx g) = (repeat_fits n mn mx \<and> repeats_small n a)"
| "repeats_small n (RCapture i a) = repeats_small n a"
| "repeats_small n RStartText = True"
| "repeats_small n REndText = True"

lemma ast_ok_repeats_small:
  "(strict \<longrightarrow> repeats_small n a) \<Longrightarrow> ref_captures a < k \<Longrightarrow> ast_ok strict n k a"
proof (induction a)
  case (RConcat as)
  then show ?case using max_list_le_iff [of "map ref_captures as" "k - 1"]
    by (fastforce simp: list_all_iff)
next
  case (RAlt as)
  then show ?case using max_list_le_iff [of "map ref_captures as" "k - 1"]
    by (fastforce simp: list_all_iff)
qed auto

text \<open>
  A validated regex, with limits as the machine's types have them and on a haystack whose length
  is a \<^verbatim>\<open>usize\<close>, meets the machine's invariant; strictly, if its repetition counters fit.
\<close>

definition ref_ready :: "ref_ast \<Rightarrow> ref_limits \<Rightarrow> ref_regex \<Rightarrow> bytes \<Rightarrow> bool" where
  "ref_ready ast l r h \<longleftrightarrow> reference_new ast l = Inr r
     \<and> length h \<le> usize_max \<and> max_ast_nodes l \<le> usize_max \<and> max_ast_depth l < usize_max
     \<and> max_capture_index l < usize_max"

lemma ref_ready_ok:
  assumes "ref_ready ast l r h"
  shows "regex_ok (repeats_small (length h) ast) (length h) r" "rr_ast r = ast" "rr_limits r = l"
  using assms reference_new_iff [of l ast r]
  by (auto simp: ref_ready_def regex_ok_def intro: ast_ok_repeats_small)

section \<open>Search\<close>

text \<open>The end of the match of highest priority among those that begin at \<open>s\<close>.\<close>

definition ref_sel :: "ref_regex \<Rightarrow> bytes \<Rightarrow> nat \<Rightarrow> nat option" where
  "ref_sel r h s = map_option fst (first_of (outs h (rr_ast r) (start_state r s)))"

lemma ref_sel_bounds: "ref_sel r h s = Some e \<Longrightarrow> s \<le> length h \<Longrightarrow> s \<le> e \<and> e \<le> length h"
proof -
  assume "ref_sel r h s = Some e" and s: "s \<le> length h"
  then obtain c where "(e, c) \<in> set (outs h (rr_ast r) (s, snd (start_state r s)))"
    by (auto simp: ref_sel_def start_state_def dest!: first_of_in_set)
  from outs_bounds [OF s this] show ?thesis by simp
qed

interpretation ref: selector "length h" "ref_sel r h" for h r
  by unfold_locales (rule ref_sel_bounds)

lemma match_at_span:
  "match_at r h s = Some m \<Longrightarrow> ref_sel r h s = Some (rs_end (rm_span m)) \<and> rs_start (rm_span m) = s"
  "match_at r h s = None \<longleftrightarrow> ref_sel r h s = None"
  by (auto simp: match_at_def ref_sel_def final_match_def mk_match_def)

lemma first_match_scan:
  "first_match r h ss = map_option (\<lambda>(s, e). the (match_at r h s)) (scan_from (ref_sel r h) ss)"
  by (induction ss) (auto split: option.splits dest: match_at_span(1) simp: match_at_span(2))

lemma start_slots: "st \<in> set (outs h (rr_ast r) (start_state r s)) \<Longrightarrow> s \<le> length h \<Longrightarrow> snd st \<noteq> []"
  using outs_bounds [of s h "fst st" "snd st" "rr_ast r" "snd (start_state r s)"]
  by (auto simp: start_state_def)

text \<open>One candidate, as \<^verbatim>\<open>find_at_with_fuel\<close> post-processes it.\<close>

lemma find_candidates_Cons:
  assumes "regex_ok strict (length h) r" "s \<le> length h"
    and "match_from r h s (fuel - 1) = Inr (m, fuel')" "0 < fuel"
  shows "find_candidates r h (s # ss) fuel =
    (case match_at r h s of Some m \<Rightarrow> Inr (Some m, fuel') | None \<Rightarrow> find_candidates r h ss fuel')"
proof -
  have m: "m = map_option (mk_match s) (first_of (outs h (rr_ast r) (start_state r s)))"
    by (rule match_from_answer(2) [OF assms(1-3)])
  show ?thesis
  proof (cases "first_of (outs h (rr_ast r) (start_state r s))")
    case None
    with m assms show ?thesis by (simp add: match_at_def fuel_spend_def usub_def)
  next
    case (Some st)
    then have "snd st \<noteq> []" by (intro start_slots [OF first_of_in_set assms(2)])
    with Some m assms show ?thesis
      by (simp add: match_at_def fuel_spend_def usub_def mk_match_def final_match_def)
  qed
qed

lemma find_candidates_error:
  assumes "regex_ok strict (length h) r" "\<forall>s\<in>set ss. s \<le> length h"
    and "find_candidates r h ss fuel = Inl e"
  shows "machine_error strict e"
  using assms(2,3)
proof (induction ss arbitrary: fuel)
  case (Cons s ss)
  then have s: "s \<le> length h" by simp
  show ?case
  proof (cases "fuel = 0")
    case False
    show ?thesis
    proof (cases "match_from r h s (fuel - 1)")
      case (Inl e')
      with Cons.prems(2) False match_from_answer(1) [OF assms(1) s Inl] show ?thesis
        by (simp add: fuel_spend_def)
    next
      case (Inr mf)
      obtain m0 f where mf: "mf = (m0, f)" by (cases mf)
      show ?thesis
        using find_candidates_Cons [OF assms(1) s Inr [unfolded mf]] False Cons.prems Cons.IH [of f]
        by (auto split: option.splits)
    qed
  qed (use Cons.prems in \<open>auto simp: fuel_spend_def usub_def\<close>)
qed simp

lemma find_candidates_answer:
  assumes "regex_ok strict (length h) r" "\<forall>s\<in>set ss. s \<le> length h"
    and "find_candidates r h ss fuel = Inr (m, fuel')"
  shows "m = first_match r h ss"
  using assms(2,3)
proof (induction ss arbitrary: fuel)
  case (Cons s ss)
  then have s: "s \<le> length h" by simp
  from Cons.prems(2) obtain m0 f where mf: "match_from r h s (fuel - 1) = Inr (m0, f)" and "0 < fuel"
    by (auto simp: fuel_spend_def elim!: rbindE)
  show ?case
    using find_candidates_Cons [OF assms(1) s mf \<open>0 < fuel\<close>] Cons.prems Cons.IH [of f]
    by (auto split: option.splits)
qed simp

text \<open>What a search over the starts \<open>ss\<close> spends when none of them matches.\<close>

definition search_work :: "ref_regex \<Rightarrow> bytes \<Rightarrow> nat list \<Rightarrow> nat" where
  "search_work r h ss = (\<Sum>s\<leftarrow>ss. 1 + start_work r h s)"

lemma search_work_suffix:
  assumes "at \<le> n"
  shows "search_work r h [at..<n] \<le> search_work r h [0..<n]"
proof -
  have "[0..<n] = [0..<at] @ [at..<n]"
    using assms upt_add_eq_append [of 0 at "n - at"] by simp
  then show ?thesis by (simp only: search_work_def map_append sum_list_append)
qed

lemma find_candidates_enough:
  assumes "regex_ok True (length h) r"
  shows "\<forall>s\<in>set ss. s \<le> length h \<Longrightarrow> search_work r h ss \<le> fuel \<Longrightarrow>
    \<exists>f. fuel - search_work r h ss \<le> f \<and> find_candidates r h ss fuel = Inr (first_match r h ss, f)"
proof (induction ss arbitrary: fuel)
  case (Cons s ss)
  then have s: "s \<le> length h" and W: "start_work r h s \<le> fuel - 1" "0 < fuel"
    and rest: "fuel - search_work r h (s # ss) = fuel - 1 - start_work r h s - search_work r h ss"
    by (auto simp: search_work_def)
  obtain f where f: "fuel - 1 - start_work r h s \<le> f"
    "match_from r h s (fuel - 1) =
      Inr (map_option (mk_match s) (first_of (outs h (rr_ast r) (start_state r s))), f)"
    using match_from_enough [OF assms s W(1)] by blast
  note step = find_candidates_Cons [OF assms s f(2) W(2), of ss]
  have "search_work r h ss \<le> f" using Cons.prems(2) f(1) by (simp add: search_work_def)
  then obtain f' where "f - search_work r h ss \<le> f'"
    "find_candidates r h ss f = Inr (first_match r h ss, f')"
    using Cons.IH [of f] Cons.prems(1) by auto
  with step f(1) rest show ?case by (cases "match_at r h s") auto
qed simp

section \<open>Iteration\<close>

definition ref_result :: "ref_regex \<Rightarrow> bytes \<Rightarrow> nat \<times> nat \<Rightarrow> ref_match" where
  "ref_result r h = (\<lambda>(s, e). the (match_at r h s))"

lemma ref_result_span:
  "ref_sel r h s = Some e \<Longrightarrow> rm_span (ref_result r h (s, e)) = \<lparr>rs_start = s, rs_end = e\<rparr>"
  by (auto simp: ref_result_def match_at_def ref_sel_def final_match_def mk_match_def)

lemma match_at_result: "ref_sel r h s = Some e \<Longrightarrow> match_at r h s = Some (ref_result r h (s, e))"
  by (auto simp: ref_result_def match_at_def ref_sel_def)

lemma first_match_next:
  "first_match r h [at..<length h + 1] = map_option (ref_result r h) (next_match (length h) (ref_sel r h) at)"
  by (simp add: first_match_scan next_match_def ref_result_def)

abbreviation results_error :: ref_error where
  "results_error \<equiv> RefResourceLimit ''result count''"

text \<open>One turn of the loop, in the terms of the abstract iteration.\<close>

lemma find_all_step:
  assumes "length h \<le> usize_max"
    and "find_at_with_fuel r h at fuel =
      Inr (map_option (ref_result r h) (next_match (length h) (ref_sel r h) at), f)"
  shows "find_all_loop r h fuel at prev ms =
    (case next_match (length h) (ref_sel r h) at of
       None \<Rightarrow> Inr ms
     | Some (s, e) \<Rightarrow>
         if s = e \<and> prev = Some s
         then (if s < length h then find_all_loop r h f (Suc s) prev ms else Inr ms)
         else if Suc (length ms) > max_results (rr_limits r) then Inl results_error
         else if s = e \<and> \<not> s < length h then Inr (ms @ [ref_result r h (s, e)])
         else find_all_loop r h f (if s = e then Suc s else e) (Some e) (ms @ [ref_result r h (s, e)]))"
proof (cases "next_match (length h) (ref_sel r h) at")
  case None
  with assms show ?thesis by (simp add: find_all_loop.simps [of r h fuel])
next
  case (Some se)
  obtain s e where se: "se = (s, e)" by (cases se)
  have sp: "rm_span (ref_result r h (s, e)) = \<lparr>rs_start = s, rs_end = e\<rparr>" and "s \<le> length h"
    using ref.next_match_bounds [OF Some [unfolded se]] by (auto intro: ref_result_span)
  moreover have "next_byte_boundary s (length h) = (if s < length h then Some (Suc s) else None)"
    using assms(1) by (auto simp: next_byte_boundary_def)
  ultimately show ?thesis
    using Some se assms
    by (cases "s = e"; cases "s < length h") (simp_all add: find_all_loop.simps [of r h fuel])
qed

definition ref_iteration :: "ref_regex \<Rightarrow> bytes \<Rightarrow> nat \<Rightarrow> nat option \<Rightarrow> ref_match list" where
  "ref_iteration r h at prev =
     map (ref_result r h) (iter_seq (length h) (ref_sel r h) at prev)"

lemma ref_iteration_cases:
  obtains (none) "next_match (length h) (ref_sel r h) at = None" "ref_iteration r h at prev = []"
  | (skip) s where "next_match (length h) (ref_sel r h) at = Some (s, s)" "prev = Some s" "at \<le> s"
      "s \<le> length h" "ref_iteration r h at prev = ref_iteration r h (Suc s) prev"
  | (emit) s e where "next_match (length h) (ref_sel r h) at = Some (s, e)" "\<not> (s = e \<and> prev = Some s)"
      "at \<le> s" "s \<le> e" "e \<le> length h"
      "ref_iteration r h at prev = ref_result r h (s, e)
         # ref_iteration r h (if s = e then Suc s else e) (Some e)"
  unfolding ref_iteration_def by (cases rule: ref.iter_cases [of h r at prev]) (auto intro: that)

lemma ref_iteration_end: "\<not> at \<le> length h \<Longrightarrow> ref_iteration r h at prev = []"
  by (cases rule: ref_iteration_cases [of h r at prev]) auto

lemma starts_in_haystack: "\<forall>s\<in>set [at..<length h + 1]. s \<le> length h"
  by auto

lemma find_at_with_fuel_answer:
  assumes "regex_ok strict (length h) r" "find_at_with_fuel r h at fuel = Inr (m, f)"
  shows "find_at_with_fuel r h at fuel =
    Inr (map_option (ref_result r h) (next_match (length h) (ref_sel r h) at), f)"
  using find_candidates_answer [OF assms(1) starts_in_haystack, of at fuel m f] assms(2)
  unfolding find_at_with_fuel_def first_match_next by metis

lemma find_at_with_fuel_error:
  assumes "regex_ok strict (length h) r" "find_at_with_fuel r h at fuel = Inl e"
  shows "machine_error strict e"
  using find_candidates_error [OF assms(1) starts_in_haystack] assms(2)
  unfolding find_at_with_fuel_def by metis

lemma find_at_with_fuel_enough:
  assumes "regex_ok True (length h) r" "search_work r h [at..<length h + 1] \<le> fuel"
  obtains f where "fuel - search_work r h [at..<length h + 1] \<le> f"
    "find_at_with_fuel r h at fuel =
      Inr (map_option (ref_result r h) (next_match (length h) (ref_sel r h) at), f)"
  using find_candidates_enough [OF assms(1) starts_in_haystack assms(2)]
  unfolding find_at_with_fuel_def first_match_next by blast

lemma find_all_answer:
  assumes "regex_ok strict (length h) r"
  shows "find_all_loop r h fuel at prev ms = Inr ms' \<Longrightarrow> ms' = ms @ ref_iteration r h at prev"
proof (induction "Suc (length h) - at" arbitrary: fuel at prev ms rule: less_induct)
  case less
  have h: "length h \<le> usize_max" using assms by (simp add: regex_ok_def)
  from less.prems obtain m f where "find_at_with_fuel r h at fuel = Inr (m, f)"
    by (auto simp: find_all_loop.simps [of r h fuel] elim!: rbindE)
  note step = find_all_step [OF h find_at_with_fuel_answer [OF assms this], of prev ms]
  show ?case
  proof (cases rule: ref_iteration_cases [of h r at prev])
    case none
    with less.prems step show ?thesis by simp
  next
    case (skip s)
    show ?thesis
      using less.hyps [of "Suc s" f prev ms] skip less.prems step ref_iteration_end [of "Suc s" h]
      by (cases "s < length h") auto
  next
    case (emit s e)
    show ?thesis
      using less.hyps [of "if s = e then Suc s else e" f "Some e" "ms @ [ref_result r h (s, e)]"]
        emit less.prems step ref_iteration_end [of "Suc s" h]
      by (cases "s = e"; cases "s < length h") (auto split: if_splits)
  qed
qed

lemma find_all_error:
  assumes "regex_ok strict (length h) r"
  shows "find_all_loop r h fuel at prev ms = Inl e \<Longrightarrow> machine_error strict e \<or>
    (e = results_error \<and> max_results (rr_limits r) < length (ms @ ref_iteration r h at prev))"
proof (induction "Suc (length h) - at" arbitrary: fuel at prev ms rule: less_induct)
  case less
  have h: "length h \<le> usize_max" using assms by (simp add: regex_ok_def)
  show ?case
  proof (cases "find_at_with_fuel r h at fuel")
    case (Inl e')
    with less.prems find_at_with_fuel_error [OF assms Inl] show ?thesis
      by (simp add: find_all_loop.simps [of r h fuel])
  next
    case (Inr mf)
    obtain m f where mf: "mf = (m, f)" by (cases mf)
    note step = find_all_step [OF h find_at_with_fuel_answer [OF assms Inr [unfolded mf]], of prev ms]
    show ?thesis
    proof (cases rule: ref_iteration_cases [of h r at prev])
      case none
      with less.prems step show ?thesis by simp
    next
      case (skip s)
      with less.hyps [of "Suc s" f prev ms] less.prems step show ?thesis
        by (cases "s < length h") auto
    next
      case (emit s e')
      with less.hyps [of "if s = e' then Suc s else e'" f "Some e'" "ms @ [ref_result r h (s, e')]"]
        less.prems step show ?thesis
        by (cases "s = e'"; cases "s < length h") (auto split: if_splits)
    qed
  qed
qed

text \<open>
  The step budget of an iteration: it starts at most one search per boundary of the haystack, and
  none of them spends more than the search over all boundaries.
\<close>

definition ref_budget :: "ref_regex \<Rightarrow> bytes \<Rightarrow> nat" where
  "ref_budget r h = (length h + 1) * search_work r h [0..<length h + 1]"

lemma find_all_enough:
  assumes "regex_ok True (length h) r" and W: "W = search_work r h [0..<length h + 1]"
  shows "length (ms @ ref_iteration r h at prev) \<le> max_results (rr_limits r) \<Longrightarrow>
    (Suc (length h) - at) * W \<le> fuel \<Longrightarrow>
    find_all_loop r h fuel at prev ms = Inr (ms @ ref_iteration r h at prev)"
proof (induction "Suc (length h) - at" arbitrary: at prev ms fuel rule: less_induct)
  case less
  have h: "length h \<le> usize_max" using assms(1) by (simp add: regex_ok_def)
  have "search_work r h [at..<length h + 1] \<le> (Suc (length h) - at) * W"
    using search_work_suffix [of at "length h + 1" r h] W
    by (cases "at \<le> length h") (auto simp: search_work_def Suc_diff_le simp del: upt_Suc)
  then have "search_work r h [at..<length h + 1] \<le> fuel" using less.prems(2) by (rule order_trans)
  then obtain f where f: "fuel - search_work r h [at..<length h + 1] \<le> f"
    and found: "find_at_with_fuel r h at fuel =
      Inr (map_option (ref_result r h) (next_match (length h) (ref_sel r h) at), f)"
    by (rule find_at_with_fuel_enough [OF assms(1)])
  note step = find_all_step [OF h found, of prev ms]
  have more: "(Suc (length h) - at') * W \<le> f" if "at < at'" "at \<le> length h" for at'
  proof -
    have "Suc (Suc (length h) - at') * W \<le> (Suc (length h) - at) * W"
      by (rule mult_le_mono1) (use that in arith)
    then have "(Suc (length h) - at') * W + W \<le> (Suc (length h) - at) * W" by simp
    with less.prems(2) f search_work_suffix [of at "length h + 1" r h] W that show ?thesis
      by simp
  qed
  show ?case
  proof (cases rule: ref_iteration_cases [of h r at prev])
    case none
    with step show ?thesis by simp
  next
    case (skip s)
    with step less.hyps [of "Suc s" ms prev f] less.prems(1) more [of "Suc s"]
      ref_iteration_end [of "Suc s" h] show ?thesis by (cases "s < length h") auto
  next
    case (emit s e)
    let ?at = "if s = e then Suc s else e" and ?ms = "ms @ [ref_result r h (s, e)]"
    have len: "Suc (length ms) \<le> max_results (rr_limits r)" using emit less.prems by simp
    have "find_all_loop r h f ?at (Some e) ?ms = Inr (?ms @ ref_iteration r h ?at (Some e))"
      by (rule less.hyps) (use emit less.prems(1) more [of ?at] in auto)
    with step emit len ref_iteration_end [of "Suc s" h] show ?thesis
      by (cases "s = e \<and> \<not> s < length h") auto
  qed
qed

lemma ref_iteration_spans:
  "map (\<lambda>m. (rs_start (rm_span m), rs_end (rm_span m))) (ref_iteration r h at prev) =
     iter_seq (length h) (ref_sel r h) at prev"
  unfolding ref_iteration_def
  by (auto simp: comp_def ref_result_span intro!: map_idI dest!: ref.iter_seq_selected)

section \<open>Properties of the reference interpreter\<close>

lemmas ref_eval = ref_ready_def reference_new_def validate_loop.simps ref_limits_default_def
  find_all_rust_reference_def find_all_loop.simps find_at_with_fuel_def match_from_def find_at_def
  match_loop.simps fuel_spend_def next_byte_boundary_def schedule_repeat_def advance_def
  uadd_def usub_def usize_max_def u32_max_def Let_def byte_range_contains_def

text \<open>
  C5: Validation accepts exactly the well-formed ASTs (no empty class or alternation, no
  descending range or repetition bound, no capture zero) whose node count, depth and capture
  indices are within the limits, and the accepted regex has one slot per capture index.
\<close>

theorem reference_new_accepts:
  assumes "max_ast_nodes l \<le> usize_max" "max_ast_depth l < usize_max"
  shows "reference_new ast l = Inr r \<longleftrightarrow>
      ref_wf ast \<and> ref_captures ast \<le> max_capture_index l \<and> ref_nodes ast \<le> max_ast_nodes l
        \<and> ref_depth ast \<le> max_ast_depth l
        \<and> r = \<lparr>rr_ast = ast, rr_capture_count = ref_captures ast, rr_limits = l\<rparr>"
  by (rule reference_new_iff [OF assms])

definition sample_ast :: ref_ast where
  "sample_ast = RCapture 1 (RRepeat (RByte 97) 1 None RGreedy)"

theorem reference_new_accepts_witness:
  "(\<exists>r. reference_new sample_ast ref_limits_default = Inr r \<and> rr_capture_count r = 1) \<and>
   \<not> (\<exists>r. reference_new (RAlt []) ref_limits_default = Inr r)"
  using reference_new_accepts [of ref_limits_default sample_ast]
    reference_new_accepts [of ref_limits_default "RAlt []"]
  by (simp add: ref_limits_default_def usize_max_def sample_ast_def)

text \<open>
  C2: A successful search from \<open>start\<close> returns the match of highest priority at the leftmost
  start that has one (slot zero holding the whole span), \<open>None\<close> only when no start has a match;
  a start past the end is refused, and the only other failures are exhausted fuel and, when some
  unbounded repetition of the AST has a minimum and a haystack that together reach the \<^verbatim>\<open>u32\<close>
  range, an exhausted repetition counter.
\<close>

theorem find_at_correct:
  assumes "ref_ready ast l r h"
  shows "case find_at r h start of
      Inr m \<Rightarrow> start \<le> length h \<and> m = first_match r h [start..<length h + 1]
    | Inl e \<Rightarrow> if length h < start then e = InvalidStart
        else e = fuel_error \<or> (e = repeat_error \<and> \<not> repeats_small (length h) ast)"
proof (cases "find_at_with_fuel r h start (max_steps (rr_limits r))")
  case (Inl e)
  with find_at_with_fuel_error [OF ref_ready_ok(1) [OF assms] Inl] show ?thesis
    by (simp add: find_at_def machine_error_def)
next
  case (Inr mf)
  obtain m f where mf: "mf = (m, f)" by (cases mf)
  from find_at_with_fuel_answer [OF ref_ready_ok(1) [OF assms] Inr [unfolded mf]] Inr mf
  have "m = first_match r h [start..<length h + 1]" unfolding first_match_next by simp
  with Inr mf show ?thesis by (simp add: find_at_def del: upt_Suc)
qed

theorem find_at_correct_witness:
  "\<exists>r. ref_ready sample_ast ref_limits_default r [98, 97, 97] \<and>
    find_at r [98, 97, 97] 0 = Inr (first_match r [98, 97, 97] [0..<4])"
proof -
  let ?r = "\<lparr>rr_ast = sample_ast, rr_capture_count = 1, rr_limits = ref_limits_default\<rparr>"
  have ready: "ref_ready sample_ast ref_limits_default ?r [98, 97, 97]"
    by (simp add: ref_eval sample_ast_def)
  moreover have "\<exists>m. find_at ?r [98, 97, 97] 0 = Inr m"
    by (simp add: ref_eval sample_ast_def upt_rec)
  ultimately show ?thesis
    using find_at_correct [OF ready, of 0] by (auto simp: eval_nat_numeral simp del: upt_Suc)
qed

text \<open>
  C1: Iteration returns exactly the abstract sequence: leftmost non-overlapping matches of
  highest priority, empty matches adjacent to their predecessor suppressed, each with the
  captures of its own search.
\<close>

theorem find_all_correct:
  assumes "ref_ready ast l r h" "find_all_rust_reference r h = Inr ms"
  shows "map (\<lambda>m. (rs_start (rm_span m), rs_end (rm_span m))) ms = iter_seq (length h) (ref_sel r h) 0 None
    \<and> (\<forall>m\<in>set ms. match_at r h (rs_start (rm_span m)) = Some m)"
proof -
  have "ms = ref_iteration r h 0 None"
    using find_all_answer [OF ref_ready_ok(1) [OF assms(1)] assms(2) [unfolded find_all_rust_reference_def]]
    by simp
  moreover have "match_at r h (rs_start (rm_span m)) = Some m"
    if "m \<in> set (ref_iteration r h 0 None)" for m
    using that by (auto simp: ref_iteration_def ref_result_span match_at_result
        dest!: ref.iter_seq_selected)
  ultimately show ?thesis by (simp add: ref_iteration_spans)
qed

abbreviation sample_regex :: ref_regex where
  "sample_regex \<equiv> \<lparr>rr_ast = sample_ast, rr_capture_count = 1, rr_limits = ref_limits_default\<rparr>"

lemma sample_ready: "ref_ready sample_ast ref_limits_default sample_regex [97, 98, 97, 97]"
  by (simp add: ref_eval sample_ast_def)

lemma sample_find_all:
  "\<exists>ms. find_all_rust_reference sample_regex [97, 98, 97, 97] = Inr ms \<and>
     map (\<lambda>m. (rs_start (rm_span m), rs_end (rm_span m))) ms = [(0, 1), (2, 4)]"
  by (simp add: ref_eval sample_ast_def upt_rec)

theorem find_all_correct_witness:
  "iter_seq 4 (ref_sel sample_regex [97, 98, 97, 97]) 0 None = [(0, 1), (2, 4)]"
  using find_all_correct [OF sample_ready] sample_find_all by (auto simp: eval_nat_numeral)

text \<open>
  C6: Iteration fails only when its fuel runs out; with the repeat-count error, and then some
  unbounded repetition has a minimum and a haystack that together reach the \<^verbatim>\<open>u32\<close> range; or with
  the result-count error, and then the sequence really has more elements than the limit.
\<close>

theorem find_all_errors:
  assumes "ref_ready ast l r h" "find_all_rust_reference r h = Inl e"
  shows "e = fuel_error \<or> (e = repeat_error \<and> \<not> repeats_small (length h) ast) \<or>
    (e = results_error \<and> max_results l < length (iter_seq (length h) (ref_sel r h) 0 None))"
  using find_all_error [OF ref_ready_ok(1) [OF assms(1)] assms(2) [unfolded find_all_rust_reference_def]]
    ref_ready_ok(3) [OF assms(1)]
  by (auto simp: ref_iteration_def machine_error_def)

theorem find_all_errors_witness:
  "\<exists>l r. ref_ready sample_ast l r [97, 98, 97] \<and> find_all_rust_reference r [97, 98, 97] = Inl results_error
     \<and> 1 < length (iter_seq 3 (ref_sel r [97, 98, 97]) 0 None)"
proof -
  let ?l = "ref_limits_default\<lparr>max_results := 1\<rparr>"
  let ?r = "\<lparr>rr_ast = sample_ast, rr_capture_count = 1, rr_limits = ?l\<rparr>"
  have r: "ref_ready sample_ast ?l ?r [97, 98, 97]" "find_all_rust_reference ?r [97, 98, 97] = Inl results_error"
    by (simp_all add: ref_eval sample_ast_def upt_rec)
  have "1 < length (iter_seq 3 (ref_sel ?r [97, 98, 97]) 0 None)"
    using find_all_errors [OF r] by (simp add: numeral_3_eq_3)
  with r show ?thesis by blast
qed

text \<open>
  C3: Iteration succeeds with the abstract sequence whenever the sequence fits the result limit,
  the repetition counters fit their \<^verbatim>\<open>u32\<close> on this haystack, and \<^verbatim>\<open>max_steps\<close>, whatever \<^verbatim>\<open>u64\<close> it is,
  is at least the step budget \<open>ref_budget\<close> computed from the AST and the haystack.
\<close>

theorem find_all_terminates:
  assumes "ref_ready ast l r h" "repeats_small (length h) ast"
    and "length (iter_seq (length h) (ref_sel r h) 0 None) \<le> max_results l"
    and "ref_budget r h \<le> max_steps l"
  shows "\<exists>ms. find_all_rust_reference r h = Inr ms
    \<and> map (\<lambda>m. (rs_start (rm_span m), rs_end (rm_span m))) ms = iter_seq (length h) (ref_sel r h) 0 None"
proof -
  have "find_all_rust_reference r h = Inr ([] @ ref_iteration r h 0 None)"
    unfolding find_all_rust_reference_def
    by (rule find_all_enough [OF _ refl])
      (use ref_ready_ok [OF assms(1)] assms(2-) in \<open>simp_all add: ref_iteration_def ref_budget_def del: upt_Suc\<close>)
  then show ?thesis by (simp add: ref_iteration_spans)
qed

theorem find_all_terminates_witness:
  "ref_budget sample_regex [97, 98, 97, 97] \<le> max_steps ref_limits_default \<and>
   (\<exists>ms. find_all_rust_reference sample_regex [97, 98, 97, 97] = Inr ms
    \<and> map (\<lambda>m. (rs_start (rm_span m), rs_end (rm_span m))) ms =
      iter_seq (length [97, 98, 97, 97 :: u8]) (ref_sel sample_regex [97, 98, 97, 97]) 0 None)"
proof -
  have budget: "ref_budget sample_regex [97, 98, 97, 97] \<le> max_steps ref_limits_default"
    by (simp add: ref_budget_def search_work_def start_work_def start_state_def sample_ast_def
        rep_outs.simps rep_work.simps may_repeat_def ref_limits_default_def upt_rec)
  have len: "length (iter_seq (length [97, 98, 97, 97 :: u8]) (ref_sel sample_regex [97, 98, 97, 97]) 0 None)
      \<le> max_results ref_limits_default"
    using ref.iter_seq_length [of "[97, 98, 97, 97]" sample_regex] by (simp add: ref_limits_default_def)
  have small: "repeats_small (length [97, 98, 97, 97 :: u8]) sample_ast"
    by (simp add: sample_ast_def repeat_fits_def u32_max_def)
  from find_all_terminates [OF sample_ready small len budget] budget show ?thesis by simp
qed

text \<open>
  C4: The matches that iteration returns lie in the haystack, are ordered and disjoint, no empty
  match touches the end of its predecessor, and every start that has a match is accounted for: it
  is returned, strictly inside an earlier match, or it is an empty match at the end of one.
\<close>

theorem find_all_separated_complete:
  assumes "ref_ready ast l r h" "find_all_rust_reference r h = Inr ms"
    and "spans = map (\<lambda>m. (rs_start (rm_span m), rs_end (rm_span m))) ms"
  shows "separated 0 None spans \<and> (\<forall>(s, e)\<in>set spans. e \<le> length h) \<and>
    (\<forall>t f. t \<le> length h \<longrightarrow> ref_sel r h t = Some f \<longrightarrow> (t, f) \<in> set spans \<or>
      (\<exists>(s, e)\<in>set spans. s < t \<and> t < e) \<or> (f = t \<and> (\<exists>(s, e)\<in>set spans. s < t \<and> e = t)))"
proof -
  have "ms = ref_iteration r h 0 None"
    using find_all_answer [OF ref_ready_ok(1) [OF assms(1)] assms(2) [unfolded find_all_rust_reference_def]]
    by simp
  then have sp: "spans = iter_seq (length h) (ref_sel r h) 0 None"
    using assms(3) by (simp add: ref_iteration_spans)
  show ?thesis
    unfolding sp using ref.iter_seq_separated [of 0 None h r] ref.iter_seq_selected [of _ _ h r 0 None]
      ref.iter_seq_complete [of r h _ _ 0 None] by auto
qed

theorem find_all_separated_complete_witness: "separated 0 None [(0, 1), (2, 4)] \<and>
    ref_sel sample_regex [97, 98, 97, 97] 1 \<in> {None, Some 1}"
proof -
  obtain ms where ms: "find_all_rust_reference sample_regex [97, 98, 97, 97] = Inr ms"
    "map (\<lambda>m. (rs_start (rm_span m), rs_end (rm_span m))) ms = [(0, 1), (2, 4)]"
    by (rule exE [OF sample_find_all]) (elim conjE, rule that)
  note p = find_all_separated_complete [OF sample_ready ms(1) refl, unfolded ms(2)]
  show ?thesis
    using p [THEN conjunct1] p [THEN conjunct2, THEN conjunct2, rule_format, of 1]
    by (cases "ref_sel sample_regex [97, 98, 97, 97] 1") auto
qed

end
