(* ===== verification/LabBase.thy ===== *)
theory LabBase
  imports FrePrelude
begin

text \<open>
  The shared vocabulary of \<^verbatim>\<open>crates/fre-iterator-lab\<close>: its errors (\<^verbatim>\<open>error.rs\<close>), its AST
  (\<^verbatim>\<open>ast.rs\<close>), its limits and instruction set (\<^verbatim>\<open>compile.rs\<close>), and the checked work
  counters (\<^verbatim>\<open>accounting.rs\<close>). The wall-clock field of \<^verbatim>\<open>Accounting\<close> is left out; it feeds no
  decision of the code. The host allocator is a parameter: \<open>alloc kind amount\<close> says whether a
  reservation of that amount for that buffer succeeds. An indexing panic is \<open>LabPanic\<close>.
\<close>

section \<open>Errors\<close>

datatype resource_kind =
    AstNodes | AstDepth | ProgramStates | RepeatBound | GuardCount | GuardedConfigurations
  | GuardedBytes | Boundaries | TableCells | LogBytes | Work | OutputMatches | Bytes
  | RandomAccessBytes | ResidentLogBytes | OutputBytes

datatype lab_error =
    EmptyAlternation
  | EmptyRepeatBody
  | InvalidRepeatRange
  | ResourceLimit resource_kind nat nat
  | SameBoundaryCycle
  | InvalidDecisionLog
  | AllocationFailed resource_kind
  | LabPanic

type_synonym allocator = "resource_kind \<Rightarrow> nat \<Rightarrow> bool"

section \<open>Syntax\<close>

datatype greed = Greedy | Lazy

datatype repeat_atom = AtomEmpty | AtomByte u8 | AtomAnyByte | AtomStartText | AtomEndText

datatype lab_ast =
    LEmpty
  | LByte u8
  | LAnyByte
  | LStartText
  | LEndText
  | LConcat "lab_ast list"
  | LAlt "lab_ast list"
  | LRepeat "repeat_atom list" greed
  | LRepetition lab_ast nat "nat option" greed

section \<open>Limits\<close>

record compile_limits =
  max_ast_nodes :: nat
  max_ast_depth :: nat
  max_program_states :: nat
  max_repeat_bound :: nat
  max_guard_count :: nat
  max_guarded_configurations :: nat
  max_guarded_bytes :: nat
  max_boundaries :: nat
  max_table_cells :: nat
  max_log_bytes :: nat
  max_resident_log_bytes :: nat
  max_random_access_bytes :: nat
  max_output_bytes :: nat
  max_work :: nat
  max_output_matches :: nat

definition compile_limits_default :: compile_limits where
  "compile_limits_default = \<lparr>max_ast_nodes = 4096, max_ast_depth = 64,
     max_program_states = 16384, max_repeat_bound = 1000, max_guard_count = 8,
     max_guarded_configurations = 8000000, max_guarded_bytes = 256 * 1024 * 1024,
     max_boundaries = 1048577, max_table_cells = 16777216, max_log_bytes = 64 * 1024 * 1024,
     max_resident_log_bytes = 64 * 1024 * 1024, max_random_access_bytes = 128 * 1024 * 1024,
     max_output_bytes = 64 * 1024 * 1024, max_work = 268435456, max_output_matches = 1048576\<rparr>"

section \<open>Instructions\<close>

datatype inst =
    IMatch
  | IByte "u8 option" nat
  | IAssertStart nat
  | IAssertEnd nat
  | ISplit nat nat

section \<open>Checked arithmetic\<close>

definition checked_add :: "nat \<Rightarrow> nat \<Rightarrow> resource_kind \<Rightarrow> lab_error + nat" where
  "checked_add left right kind =
     ok_or (uadd left right) (ResourceLimit kind usize_max (usize_max - 1))"

definition checked_mul :: "nat \<Rightarrow> nat \<Rightarrow> resource_kind \<Rightarrow> lab_error + nat" where
  "checked_mul left right kind =
     ok_or (umul left right) (ResourceLimit kind usize_max (usize_max - 1))"

definition enforce :: "nat \<Rightarrow> nat \<Rightarrow> resource_kind \<Rightarrow> lab_error + unit" where
  "enforce required limit kind =
     (if required > limit then Inl (ResourceLimit kind required limit) else Inr ())"

text \<open>\<^verbatim>\<open>Vec::try_reserve_exact\<close> mapped to an error, and the indexing of slices.\<close>

definition try_reserve :: "allocator \<Rightarrow> resource_kind \<Rightarrow> nat \<Rightarrow> lab_error + unit" where
  "try_reserve alloc kind amount = (if alloc kind amount then Inr () else Inl (AllocationFailed kind))"

definition vget :: "'a list \<Rightarrow> nat \<Rightarrow> lab_error + 'a" where
  "vget xs i = (if i < length xs then Inr (xs ! i) else Inl LabPanic)"

definition vset :: "'a list \<Rightarrow> nat \<Rightarrow> 'a \<Rightarrow> lab_error + 'a list" where
  "vset xs i x = (if i < length xs then Inr (xs[i := x]) else Inl LabPanic)"

lemma checked_add_Inr [simp]: "checked_add a b k = Inr c \<longleftrightarrow> c = a + b \<and> a + b \<le> usize_max"
  by (auto simp: checked_add_def)

lemma checked_mul_Inr [simp]: "checked_mul a b k = Inr c \<longleftrightarrow> c = a * b \<and> a * b \<le> usize_max"
  by (auto simp: checked_mul_def)

lemma checked_add_fits [simp]: "a + b \<le> usize_max \<Longrightarrow> checked_add a b k = Inr (a + b)"
  and checked_mul_fits [simp]: "a * b \<le> usize_max \<Longrightarrow> checked_mul a b k = Inr (a * b)"
  by simp_all

lemma enforce_Inr [simp]: "enforce r l k = Inr u \<longleftrightarrow> r \<le> l"
  by (auto simp: enforce_def)

lemma enforce_fits [simp]: "r \<le> l \<Longrightarrow> enforce r l k = Inr ()"
  by simp

lemma try_reserve_Inr [simp]: "try_reserve alloc k n = Inr u \<longleftrightarrow> alloc k n"
  by (auto simp: try_reserve_def)

lemma try_reserve_ok [simp]: "alloc k n \<Longrightarrow> try_reserve alloc k n = Inr ()"
  by simp

lemma vget_Inr [simp]: "vget xs i = Inr x \<longleftrightarrow> i < length xs \<and> xs ! i = x"
  by (auto simp: vget_def)

lemma vget_ok [simp]: "i < length xs \<Longrightarrow> vget xs i = Inr (xs ! i)"
  by simp

lemma vset_Inr [simp]: "vset xs i x = Inr ys \<longleftrightarrow> i < length xs \<and> ys = xs[i := x]"
  by (auto simp: vset_def)

lemma vset_ok [simp]: "i < length xs \<Longrightarrow> vset xs i x = Inr (xs[i := x])"
  by simp

text \<open>The errors by which a run may refuse: a limit or the allocator, never an internal failure.\<close>

definition resource_error :: "lab_error \<Rightarrow> bool" where
  "resource_error e = (case e of ResourceLimit _ _ _ \<Rightarrow> True | AllocationFailed _ \<Rightarrow> True | _ \<Rightarrow> False)"

lemma resource_error_simps [simp]:
  "resource_error (ResourceLimit k a b)" "resource_error (AllocationFailed k)"
  "\<not> resource_error LabPanic" "\<not> resource_error InvalidDecisionLog" "\<not> resource_error SameBoundaryCycle"
  by (simp_all add: resource_error_def)

lemma checked_safe [simp]:
  "safe resource_error (checked_add a b k) Q \<longleftrightarrow> (a + b \<le> usize_max \<longrightarrow> Q (a + b))"
  "safe resource_error (checked_mul a b k) Q \<longleftrightarrow> (a * b \<le> usize_max \<longrightarrow> Q (a * b))"
  "safe resource_error (enforce x y k) U \<longleftrightarrow> (x \<le> y \<longrightarrow> U ())"
  "safe resource_error (try_reserve al k n) U \<longleftrightarrow> (al k n \<longrightarrow> U ())"
  by (auto simp: safe_def checked_add_def checked_mul_def uadd_def umul_def enforce_def try_reserve_def)

lemma checked_runs [simp]:
  "runs (checked_add a b k) Q \<longleftrightarrow> a + b \<le> usize_max \<and> Q (a + b)"
  "runs (checked_mul a b k) Q \<longleftrightarrow> a * b \<le> usize_max \<and> Q (a * b)"
  "runs (enforce x y k) U \<longleftrightarrow> x \<le> y \<and> U ()"
  "runs (try_reserve al k n) U \<longleftrightarrow> al k n \<and> U ()"
  by (auto simp: runs_def checked_add_def checked_mul_def uadd_def umul_def enforce_def try_reserve_def)

section \<open>Accounting\<close>

record accounting =
  program_states :: nat
  boundaries_count :: nat
  state_evaluations :: nat
  transition_checks :: nat
  root_probes :: nat
  replay_steps :: nat
  table_builds :: nat
  table_cells :: nat
  guarded_configurations :: nat
  guarded_peak_frames :: nat
  random_access_peak_bytes :: nat
  sequential_log_bytes :: nat
  resident_log_bytes :: nat
  sequential_log_write_bytes :: nat
  sequential_log_read_bytes :: nat
  output_work :: nat
  output_bytes :: nat
  output_reserved_bytes :: nat
  total_work :: nat

definition accounting_default :: accounting where
  "accounting_default = \<lparr>program_states = 0, boundaries_count = 0, state_evaluations = 0,
     transition_checks = 0, root_probes = 0, replay_steps = 0, table_builds = 0, table_cells = 0,
     guarded_configurations = 0, guarded_peak_frames = 0, random_access_peak_bytes = 0,
     sequential_log_bytes = 0, resident_log_bytes = 0, sequential_log_write_bytes = 0,
     sequential_log_read_bytes = 0, output_work = 0, output_bytes = 0, output_reserved_bytes = 0,
     total_work = 0\<rparr>"

definition charge_total :: "accounting \<Rightarrow> nat \<Rightarrow> nat \<Rightarrow> lab_error + accounting" where
  "charge_total acc amount maximum =
     rbind (checked_add (total_work acc) amount Work) (\<lambda>required.
     if required > maximum then Inl (ResourceLimit Work required maximum)
     else Inr (acc\<lparr>total_work := required\<rparr>))"

definition charge_state :: "accounting \<Rightarrow> nat \<Rightarrow> lab_error + accounting" where
  "charge_state acc maximum =
     rbind (checked_add (state_evaluations acc) 1 Work) (\<lambda>n.
     charge_total (acc\<lparr>state_evaluations := n\<rparr>) 1 maximum)"

definition charge_transition :: "accounting \<Rightarrow> nat \<Rightarrow> lab_error + accounting" where
  "charge_transition acc maximum =
     rbind (checked_add (transition_checks acc) 1 Work) (\<lambda>n.
     charge_total (acc\<lparr>transition_checks := n\<rparr>) 1 maximum)"

definition charge_root :: "accounting \<Rightarrow> nat \<Rightarrow> lab_error + accounting" where
  "charge_root acc maximum =
     rbind (checked_add (root_probes acc) 1 Work) (\<lambda>n.
     charge_total (acc\<lparr>root_probes := n\<rparr>) 1 maximum)"

definition charge_replay :: "accounting \<Rightarrow> nat \<Rightarrow> lab_error + accounting" where
  "charge_replay acc maximum =
     rbind (checked_add (replay_steps acc) 1 Work) (\<lambda>n.
     charge_total (acc\<lparr>replay_steps := n\<rparr>) 1 maximum)"

text \<open>\<^verbatim>\<open>core::mem::size_of::<Span>()\<close> and \<^verbatim>\<open>size_of::<usize>()\<close> on the 64-bit target.\<close>

definition size_of_span :: nat where
  "size_of_span = 16"

definition size_of_usize :: nat where
  "size_of_usize = 8"

definition emit :: "accounting \<Rightarrow> nat \<Rightarrow> lab_error + accounting" where
  "emit acc maximum =
     rbind (checked_add (output_work acc) 1 OutputMatches) (\<lambda>required.
     if required > maximum then Inl (ResourceLimit OutputMatches required maximum)
     else rbind (checked_mul required size_of_span Bytes) (\<lambda>bytes.
       Inr (acc\<lparr>output_work := required, output_bytes := bytes\<rparr>)))"

end
