(* ===== verification/LabCompile.thy ===== *)
theory LabCompile
  imports LabBase
begin

text \<open>
  \<^verbatim>\<open>crates/fre-iterator-lab/src/compile.rs\<close>: validation of the AST, lowering to a prioritized
  continuation graph (with the progress product of an unbounded repetition), the topological
  order of its same-boundary edges, and the compiled regex. The builder's \<^verbatim>\<open>slots\<close> are a list
  threaded through; its \<^verbatim>\<open>limit\<close> and the allocator are parameters. A child that the code compiles
  by a recursive call is passed to the helpers as the function that compiles it.
\<close>

type_synonym slots = "inst option list"
type_synonym node_compiler = "slots \<Rightarrow> nat \<Rightarrow> nat \<Rightarrow> lab_error + (slots \<times> nat)"

section \<open>Validation\<close>

fun lab_node_check :: "compile_limits \<Rightarrow> lab_ast \<Rightarrow> lab_error + lab_ast list" where
  "lab_node_check l (LConcat cs) = Inr (rev cs)"
| "lab_node_check l (LAlt cs) = (if cs = [] then Inl EmptyAlternation else Inr (rev cs))"
| "lab_node_check l (LRepeat body g) = (if body = [] then Inl EmptyRepeatBody else Inr [])"
| "lab_node_check l (LRepetition c mn mx g) =
     (if (case mx of None \<Rightarrow> False | Some m \<Rightarrow> m < mn) then Inl InvalidRepeatRange
      else if mn > max_repeat_bound l \<or> (case mx of None \<Rightarrow> False | Some m \<Rightarrow> m > max_repeat_bound l)
      then Inl (ResourceLimit RepeatBound (case mx of None \<Rightarrow> mn | Some m \<Rightarrow> m) (max_repeat_bound l))
      else Inr [c])"
| "lab_node_check l _ = Inr []"

lemma lab_node_check_size:
  "lab_node_check l a = Inr cs \<Longrightarrow> sum_list (map (\<lambda>c. Suc (size c)) cs) \<le> size a"
  by (cases a) (auto simp: rev_map [symmetric] sum_list_rev_nat size_list_conv_sum_list sum_list_Suc
      split: if_splits)

function validate_ast_loop :: "compile_limits \<Rightarrow> (lab_ast \<times> nat) list \<Rightarrow> nat \<Rightarrow> lab_error + unit" where
  "validate_ast_loop l [] nodes = Inr ()"
| "validate_ast_loop l ((node, depth) # stack) nodes =
     rbind (checked_add nodes 1 AstNodes) (\<lambda>nodes.
     rbind (enforce nodes (max_ast_nodes l) AstNodes) (\<lambda>_.
     rbind (enforce depth (max_ast_depth l) AstDepth) (\<lambda>_.
     rbind (checked_add depth 1 AstDepth) (\<lambda>next_depth.
     rbind (lab_node_check l node) (\<lambda>children.
     validate_ast_loop l (map (\<lambda>c. (c, next_depth)) children @ stack) nodes)))))"
  by pat_completeness auto
termination
proof (relation "measure (\<lambda>(l, stack, nodes). sum_list (map (\<lambda>(a, d). Suc (size a)) stack))")
  fix l :: compile_limits and node and depth :: nat and stack and nodes n1 d1 :: nat and children
  assume "lab_node_check l node = Inr children"
  then have "sum_list (map (\<lambda>c. Suc (size c)) children) \<le> size (node :: lab_ast)"
    by (rule lab_node_check_size)
  then show "((l, map (\<lambda>c. (c, d1)) children @ stack, n1), l, (node, depth) # stack, nodes)
    \<in> measure (\<lambda>(l, stack, nodes). sum_list (map (\<lambda>(a, d). Suc (size a)) stack))"
    by (simp add: comp_def)
qed simp

declare validate_ast_loop.simps [simp del]

definition validate_ast :: "lab_ast \<Rightarrow> compile_limits \<Rightarrow> lab_error + unit" where
  "validate_ast ast l = validate_ast_loop l [(ast, 1)] 0"

section \<open>The builder\<close>

definition push :: "nat \<Rightarrow> allocator \<Rightarrow> slots \<Rightarrow> inst option \<Rightarrow> lab_error + (slots \<times> nat)" where
  "push limit alloc slots i =
     rbind (checked_add (length slots) 1 ProgramStates) (\<lambda>required.
     rbind (enforce required limit ProgramStates) (\<lambda>_.
     rbind (try_reserve alloc ProgramStates 1) (\<lambda>_.
     Inr (slots @ [i], length slots))))"

text \<open>\<^verbatim>\<open>into_iter().collect::<Option<Vec<_>>>().ok_or(SameBoundaryCycle)\<close>.\<close>

definition collect_slots :: "slots \<Rightarrow> lab_error + inst list" where
  "collect_slots slots = (if None \<in> set slots then Inl SameBoundaryCycle else Inr (map the slots))"

fun compile_repeat_atom ::
    "nat \<Rightarrow> allocator \<Rightarrow> repeat_atom \<Rightarrow> nat \<Rightarrow> nat \<Rightarrow> slots \<Rightarrow> lab_error + (slots \<times> nat)" where
  "compile_repeat_atom lim al AtomEmpty loop_entry continuation slots = Inr (slots, continuation)"
| "compile_repeat_atom lim al (AtomByte b) loop_entry continuation slots =
     push lim al slots (Some (IByte (Some b) loop_entry))"
| "compile_repeat_atom lim al AtomAnyByte loop_entry continuation slots =
     push lim al slots (Some (IByte None loop_entry))"
| "compile_repeat_atom lim al AtomStartText loop_entry continuation slots =
     push lim al slots (Some (IAssertStart continuation))"
| "compile_repeat_atom lim al AtomEndText loop_entry continuation slots =
     push lim al slots (Some (IAssertEnd continuation))"

text \<open>
  The ordered choice that \<^verbatim>\<open>Ast::Alt\<close> and a repetition body are compiled to: the last
  alternative first, then each preceding one from right to left behind a new split.
\<close>

definition add_choice ::
    "nat \<Rightarrow> allocator \<Rightarrow> (slots \<Rightarrow> lab_error + (slots \<times> nat)) \<Rightarrow> slots \<times> nat \<Rightarrow> lab_error + (slots \<times> nat)" where
  "add_choice lim al cc = (\<lambda>(slots, fallback).
     rbind (cc slots) (\<lambda>(slots, preferred).
     push lim al slots (Some (ISplit preferred fallback))))"

definition compile_choice ::
    "nat \<Rightarrow> allocator \<Rightarrow> lab_error \<Rightarrow> (slots \<Rightarrow> lab_error + (slots \<times> nat)) list \<Rightarrow> slots
     \<Rightarrow> lab_error + (slots \<times> nat)" where
  "compile_choice lim al empty_error ccs slots =
     (case rev ccs of
        [] \<Rightarrow> Inl empty_error
      | final # preceding \<Rightarrow> rbind (final slots) (rfold (add_choice lim al) preceding))"

definition compile_repeat_body ::
    "nat \<Rightarrow> allocator \<Rightarrow> repeat_atom list \<Rightarrow> nat \<Rightarrow> nat \<Rightarrow> slots \<Rightarrow> lab_error + (slots \<times> nat)" where
  "compile_repeat_body lim al body loop_entry continuation slots =
     compile_choice lim al EmptyRepeatBody
       (map (\<lambda>a. compile_repeat_atom lim al a loop_entry continuation) body) slots"

definition split_of :: "greed \<Rightarrow> nat \<Rightarrow> nat \<Rightarrow> inst" where
  "split_of g body_entry exit_entry =
     (case g of Greedy \<Rightarrow> ISplit body_entry exit_entry | Lazy \<Rightarrow> ISplit exit_entry body_entry)"

definition compile_repeat ::
    "nat \<Rightarrow> allocator \<Rightarrow> repeat_atom list \<Rightarrow> greed \<Rightarrow> nat \<Rightarrow> slots \<Rightarrow> lab_error + (slots \<times> nat)" where
  "compile_repeat lim al body g continuation slots =
     (if body = [] then Inl EmptyRepeatBody
      else rbind (push lim al slots None) (\<lambda>(slots, loop_entry).
        rbind (compile_repeat_body lim al body loop_entry continuation slots) (\<lambda>(slots, body_entry).
        rbind (vset slots loop_entry (Some (split_of g body_entry continuation))) (\<lambda>slots.
        Inr (slots, loop_entry)))))"

section \<open>The progress product\<close>

text \<open>\<^verbatim>\<open>translate_progress_inst\<close>; the maps are indexed, so a bad target would panic.\<close>

fun translate_progress_inst ::
    "inst \<Rightarrow> nat list \<Rightarrow> nat list \<Rightarrow> bool \<Rightarrow> lab_error + inst" where
  "translate_progress_inst IMatch zero_map consumed_map consumed = Inl LabPanic"
| "translate_progress_inst (IByte expected nxt) zero_map consumed_map consumed =
     rbind (vget consumed_map nxt) (\<lambda>n. Inr (IByte expected n))"
| "translate_progress_inst (IAssertStart nxt) zero_map consumed_map consumed =
     rbind (vget (if consumed then consumed_map else zero_map) nxt) (\<lambda>n. Inr (IAssertStart n))"
| "translate_progress_inst (IAssertEnd nxt) zero_map consumed_map consumed =
     rbind (vget (if consumed then consumed_map else zero_map) nxt) (\<lambda>n. Inr (IAssertEnd n))"
| "translate_progress_inst (ISplit preferred fallback) zero_map consumed_map consumed =
     rbind (vget (if consumed then consumed_map else zero_map) preferred) (\<lambda>p.
     rbind (vget (if consumed then consumed_map else zero_map) fallback) (\<lambda>f.
     Inr (ISplit p f)))"

text \<open>The first loop: two fresh slots per fragment instruction, the accept state apart.\<close>

fun product_maps ::
    "nat \<Rightarrow> allocator \<Rightarrow> nat \<Rightarrow> nat \<Rightarrow> inst list \<Rightarrow> slots \<times> nat list \<times> nat list
     \<Rightarrow> lab_error + (slots \<times> nat list \<times> nat list)" where
  "product_maps lim al zc cc [] st = Inr st"
| "product_maps lim al zc cc (i # is) (slots, zm, cm) =
     (if i = IMatch then product_maps lim al zc cc is (slots, zm @ [zc], cm @ [cc])
      else rbind (push lim al slots None) (\<lambda>(slots, z).
        rbind (push lim al slots None) (\<lambda>(slots, c).
        product_maps lim al zc cc is (slots, zm @ [z], cm @ [c]))))"

text \<open>The second loop: patch both copies of every instruction.\<close>

definition product_patch :: "nat list \<Rightarrow> nat list \<Rightarrow> nat \<times> inst \<Rightarrow> slots \<Rightarrow> lab_error + slots" where
  "product_patch zm cm = (\<lambda>(pc, i) slots.
     if i = IMatch then Inr slots
     else rbind (translate_progress_inst i zm cm False) (\<lambda>zi.
       rbind (vget zm pc) (\<lambda>z.
       rbind (vset slots z (Some zi)) (\<lambda>slots.
       rbind (translate_progress_inst i zm cm True) (\<lambda>ci.
       rbind (vget cm pc) (\<lambda>c.
       vset slots c (Some ci)))))))"

definition import_progress_product ::
    "nat \<Rightarrow> allocator \<Rightarrow> inst list \<Rightarrow> nat \<Rightarrow> nat \<Rightarrow> nat \<Rightarrow> slots \<Rightarrow> lab_error + (slots \<times> nat)" where
  "import_progress_product lim al fragment fragment_entry zero_continuation consumed_continuation slots =
     rbind (try_reserve al ProgramStates (length fragment)) (\<lambda>_.
     rbind (try_reserve al ProgramStates (length fragment)) (\<lambda>_.
     rbind (product_maps lim al zero_continuation consumed_continuation fragment (slots, [], [])) (\<lambda>(slots, zm, cm).
     rbind (rfold (product_patch zm cm) (enumerate 0 fragment) slots) (\<lambda>slots.
     rbind (vget zm fragment_entry) (\<lambda>e.
     Inr (slots, e))))))"

definition compile_progress_star ::
    "nat \<Rightarrow> allocator \<Rightarrow> node_compiler \<Rightarrow> greed \<Rightarrow> nat \<Rightarrow> nat \<Rightarrow> slots \<Rightarrow> lab_error + (slots \<times> nat)" where
  "compile_progress_star lim al child g continuation depth slots =
     rbind (push lim al slots None) (\<lambda>(slots, loop_entry).
     rbind (push lim al [] (Some IMatch)) (\<lambda>(fragment, accept).
     rbind (child fragment accept depth) (\<lambda>(fragment, fragment_entry).
     rbind (collect_slots fragment) (\<lambda>fragment_insts.
     rbind (import_progress_product lim al fragment_insts fragment_entry continuation loop_entry slots)
       (\<lambda>(slots, body_entry).
     rbind (vset slots loop_entry (Some (split_of g body_entry continuation))) (\<lambda>slots.
     Inr (slots, loop_entry)))))))"

section \<open>Nodes\<close>

definition compile_optional ::
    "nat \<Rightarrow> allocator \<Rightarrow> node_compiler \<Rightarrow> greed \<Rightarrow> nat \<Rightarrow> slots \<times> nat \<Rightarrow> lab_error + (slots \<times> nat)" where
  "compile_optional lim al child g depth = (\<lambda>(slots, optional_entry).
     rbind (child slots optional_entry depth) (\<lambda>(slots, child_entry).
     push lim al slots (Some (split_of g child_entry optional_entry))))"

definition compile_copy :: "node_compiler \<Rightarrow> nat \<Rightarrow> slots \<times> nat \<Rightarrow> lab_error + (slots \<times> nat)" where
  "compile_copy child depth = (\<lambda>(slots, nxt). child slots nxt depth)"

definition compile_repetition ::
    "nat \<Rightarrow> allocator \<Rightarrow> node_compiler \<Rightarrow> nat \<Rightarrow> nat option \<Rightarrow> greed \<Rightarrow> nat \<Rightarrow> nat \<Rightarrow> slots
     \<Rightarrow> lab_error + (slots \<times> nat)" where
  "compile_repetition lim al child mn mx g continuation depth slots =
     rbind (case mx of
         Some maximum \<Rightarrow> rbind (ok_or (usub maximum mn) InvalidRepeatRange) (\<lambda>optional.
           rfold (\<lambda>_. compile_optional lim al child g depth) [0..<optional] (slots, continuation))
       | None \<Rightarrow> compile_progress_star lim al child g continuation depth slots)
     (rfold (\<lambda>_. compile_copy child depth) [0..<mn])"

primrec compile_node :: "nat \<Rightarrow> allocator \<Rightarrow> lab_ast \<Rightarrow> node_compiler" where
  "compile_node lim al LEmpty = (\<lambda>slots k depth.
     rbind (checked_add depth 1 AstDepth) (\<lambda>_. Inr (slots, k)))"
| "compile_node lim al (LByte b) = (\<lambda>slots k depth.
     rbind (checked_add depth 1 AstDepth) (\<lambda>_. push lim al slots (Some (IByte (Some b) k))))"
| "compile_node lim al LAnyByte = (\<lambda>slots k depth.
     rbind (checked_add depth 1 AstDepth) (\<lambda>_. push lim al slots (Some (IByte None k))))"
| "compile_node lim al LStartText = (\<lambda>slots k depth.
     rbind (checked_add depth 1 AstDepth) (\<lambda>_. push lim al slots (Some (IAssertStart k))))"
| "compile_node lim al LEndText = (\<lambda>slots k depth.
     rbind (checked_add depth 1 AstDepth) (\<lambda>_. push lim al slots (Some (IAssertEnd k))))"
| "compile_node lim al (LConcat children) = (\<lambda>slots k depth.
     rbind (checked_add depth 1 AstDepth) (\<lambda>child_depth.
     rfold (\<lambda>child. compile_copy child child_depth) (rev (map (compile_node lim al) children)) (slots, k)))"
| "compile_node lim al (LAlt children) = (\<lambda>slots k depth.
     rbind (checked_add depth 1 AstDepth) (\<lambda>child_depth.
     compile_choice lim al EmptyAlternation
       (map (\<lambda>child slots. child slots k child_depth) (map (compile_node lim al) children)) slots))"
| "compile_node lim al (LRepeat body g) = (\<lambda>slots k depth.
     rbind (checked_add depth 1 AstDepth) (\<lambda>_. compile_repeat lim al body g k slots))"
| "compile_node lim al (LRepetition child mn mx g) = (\<lambda>slots k depth.
     rbind (checked_add depth 1 AstDepth) (\<lambda>child_depth.
     compile_repetition lim al (compile_node lim al child) mn mx g k child_depth slots))"

section \<open>The same-boundary order\<close>

fun epsilon_children :: "inst \<Rightarrow> nat list" where
  "epsilon_children (IAssertStart nxt) = [nxt]"
| "epsilon_children (IAssertEnd nxt) = [nxt]"
| "epsilon_children (ISplit preferred fallback) = [preferred, fallback]"
| "epsilon_children _ = []"

text \<open>The closure \<^verbatim>\<open>add\<close>, for each edge in program order.\<close>

definition add_edge :: "nat \<times> nat \<Rightarrow> nat list \<times> nat list list \<Rightarrow> lab_error + (nat list \<times> nat list list)" where
  "add_edge = (\<lambda>(parent, child) (outgoing, parents).
     rbind (vget outgoing parent) (\<lambda>count.
     rbind (checked_add count 1 ProgramStates) (\<lambda>count.
     rbind (vset outgoing parent count) (\<lambda>outgoing.
     rbind (vget parents child) (\<lambda>ps.
     rbind (vset parents child (ps @ [parent])) (\<lambda>parents.
     Inr (outgoing, parents)))))))"

definition edges :: "inst list \<Rightarrow> (nat \<times> nat) list" where
  "edges insts = concat (map (\<lambda>(pc, i). map (Pair pc) (epsilon_children i)) (enumerate 0 insts))"

definition release_parent :: "nat \<Rightarrow> nat list \<times> nat list \<Rightarrow> lab_error + (nat list \<times> nat list)" where
  "release_parent = (\<lambda>parent (outgoing, queue).
     rbind (vget outgoing parent) (\<lambda>count.
     rbind (ok_or (usub count 1) SameBoundaryCycle) (\<lambda>count.
     rbind (vset outgoing parent count) (\<lambda>outgoing.
     Inr (outgoing, if count = 0 then queue @ [parent] else queue)))))"

text \<open>
  The worklist loop. Each turn of it that does not fail moves an index from the queue to the
  order; the total of the outgoing counters and the queue bounds the number of turns.
\<close>

lemma release_parent_measure:
  "rfold release_parent ps (outgoing, queue) = Inr (outgoing', queue') \<Longrightarrow>
     length queue' + sum_list outgoing' \<le> length queue + sum_list outgoing"
proof (induction ps arbitrary: outgoing queue)
  case (Cons p ps)
  then obtain o1 q1 where 1: "release_parent p (outgoing, queue) = Inr (o1, q1)"
    "rfold release_parent ps (o1, q1) = Inr (outgoing', queue')"
    by (auto elim!: rbindE)
  have "length q1 + sum_list o1 \<le> length queue + sum_list outgoing"
  proof -
    from 1(1) have p: "p < length outgoing" "0 < outgoing ! p"
      and o1: "o1 = outgoing[p := outgoing ! p - 1]" and q1: "length q1 \<le> Suc (length queue)"
      by (auto simp: release_parent_def elim!: rbindE)
    have "sum_list outgoing = sum_list o1 + 1"
      using p member_le_sum_list [of "outgoing ! p" outgoing]
      by (simp add: o1 sum_list_update)
    with q1 show ?thesis by simp
  qed
  with Cons.IH [OF 1(2)] show ?case by simp
qed simp

function epsilon_loop ::
    "nat list list \<Rightarrow> nat list \<Rightarrow> nat list \<Rightarrow> nat list \<Rightarrow> lab_error + nat list" where
  "epsilon_loop parents outgoing [] order = Inr order"
| "epsilon_loop parents outgoing (child # queue) order =
     rbind (vget parents child) (\<lambda>ps.
     rbind (rfold release_parent ps (outgoing, queue)) (\<lambda>(outgoing, queue).
     epsilon_loop parents outgoing queue (order @ [child])))"
  by pat_completeness auto
termination
  by (relation "measure (\<lambda>(parents, outgoing, queue, order). length queue + sum_list outgoing)")
    (auto dest!: release_parent_measure)

declare epsilon_loop.simps [simp del]

definition epsilon_order :: "inst list \<Rightarrow> lab_error + nat list" where
  "epsilon_order insts =
     rbind (rfold add_edge (edges insts) (replicate (length insts) 0, replicate (length insts) []))
     (\<lambda>(outgoing, parents).
     rbind (epsilon_loop parents outgoing (filter (\<lambda>i. outgoing ! i = 0) [0..<length outgoing]) [])
     (\<lambda>order.
     if length order \<noteq> length insts then Inl SameBoundaryCycle else Inr order))"

section \<open>The compiled regex\<close>

record compiled_regex =
  cr_insts :: "inst list"
  cr_entry :: nat
  cr_epsilon_order :: "nat list"
  cr_split_rank :: "nat option list"
  cr_split_count :: nat
  cr_limits :: compile_limits

definition is_split :: "inst \<Rightarrow> bool" where
  "is_split i = (case i of ISplit _ _ \<Rightarrow> True | _ \<Rightarrow> False)"

definition rank_split :: "inst \<Rightarrow> nat \<times> nat option list \<Rightarrow> lab_error + (nat \<times> nat option list)" where
  "rank_split i = (\<lambda>(split_count, split_rank).
     if is_split i
     then rbind (checked_add split_count 1 ProgramStates) (\<lambda>n. Inr (n, split_rank @ [Some split_count]))
     else Inr (split_count, split_rank @ [None]))"

definition compiled_new :: "allocator \<Rightarrow> lab_ast \<Rightarrow> compile_limits \<Rightarrow> lab_error + compiled_regex" where
  "compiled_new al ast l =
     rbind (validate_ast ast l) (\<lambda>_.
     rbind (push (max_program_states l) al [] (Some IMatch)) (\<lambda>(slots, accept).
     rbind (compile_node (max_program_states l) al ast slots accept 1) (\<lambda>(slots, entry).
     rbind (collect_slots slots) (\<lambda>insts.
     rbind (epsilon_order insts) (\<lambda>order.
     rbind (try_reserve al ProgramStates (length insts)) (\<lambda>_.
     rbind (rfold rank_split insts (0, [])) (\<lambda>(split_count, split_rank).
     Inr \<lparr>cr_insts = insts, cr_entry = entry, cr_epsilon_order = order,
          cr_split_rank = split_rank, cr_split_count = split_count, cr_limits = l\<rparr>)))))))"

definition state_count :: "compiled_regex \<Rightarrow> nat" where
  "state_count r = length (cr_insts r)"

definition boundaries :: "compiled_regex \<Rightarrow> bytes \<Rightarrow> lab_error + nat" where
  "boundaries r h =
     rbind (checked_add (length h) 1 Boundaries) (\<lambda>b.
     rbind (enforce b (max_boundaries (cr_limits r)) Boundaries) (\<lambda>_. Inr b))"

fun inst_transitions :: "inst \<Rightarrow> nat" where
  "inst_transitions IMatch = 0"
| "inst_transitions (IByte _ _) = 1"
| "inst_transitions (IAssertStart _) = 1"
| "inst_transitions (IAssertEnd _) = 1"
| "inst_transitions (ISplit _ _) = 2"

definition maximum_build_work :: "compiled_regex \<Rightarrow> nat \<Rightarrow> lab_error + nat" where
  "maximum_build_work r bounds =
     rbind (rfold (\<lambda>i sum. rbind (checked_add 1 (inst_transitions i) Work) (\<lambda>t. checked_add sum t Work))
       (cr_insts r) 0) (\<lambda>per_boundary.
     checked_mul per_boundary bounds Work)"

end
