(* ===== verification/LabSem.thy ===== *)
theory LabSem
  imports LabCompile IterSpec
begin

text \<open>
  What a laboratory AST means, and what a continuation graph computes. \<open>ends h a p\<close> is the
  ordered list of all ends that the AST \<open>a\<close> can reach from \<open>p\<close>, in priority order;
  \<open>paths P h pc p es\<close> says that the program \<open>P\<close>, started in state \<open>pc\<close> at \<open>p\<close>, reaches
  exactly the ends \<open>es\<close>, in priority order.
\<close>

section \<open>Ordered semantics of the AST\<close>

fun byte_ok :: "u8 option \<Rightarrow> u8 \<Rightarrow> bool" where
  "byte_ok None b = True"
| "byte_ok (Some x) b = (x = b)"

definition consume :: "u8 option \<Rightarrow> bytes \<Rightarrow> nat \<Rightarrow> nat list" where
  "consume x h p = (if p < length h \<and> byte_ok x (h ! p) then [Suc p] else [])"

fun atom_ends :: "bytes \<Rightarrow> nat \<Rightarrow> repeat_atom \<Rightarrow> nat list" where
  "atom_ends h p AtomEmpty = [p]"
| "atom_ends h p (AtomByte b) = consume (Some b) h p"
| "atom_ends h p AtomAnyByte = consume None h p"
| "atom_ends h p AtomStartText = (if p = 0 then [p] else [])"
| "atom_ends h p AtomEndText = (if p = length h then [p] else [])"

text \<open>
  An unbounded repetition: an iteration that consumed nothing leaves the loop. The guards make
  the recursion well-founded for every body; bodies of interest never move left.
\<close>

function star_ends :: "nat \<Rightarrow> (nat \<Rightarrow> nat list) \<Rightarrow> greed \<Rightarrow> nat \<Rightarrow> nat list" where
  "star_ends n f g p =
     (let again = concat (map (\<lambda>q. if q = p then [p]
            else if p < q \<and> q \<le> n then star_ends n f g q else []) (f p))
      in case g of Greedy \<Rightarrow> again @ [p] | Lazy \<Rightarrow> p # again)"
  by pat_completeness auto
termination by (relation "measure (\<lambda>(n, f, g, p). n - p)") auto

declare star_ends.simps [simp del]

text \<open>A bounded optional tail is a chain of optional copies, each of which may be skipped.\<close>

primrec opt_ends :: "(nat \<Rightarrow> nat list) \<Rightarrow> greed \<Rightarrow> nat \<Rightarrow> nat \<Rightarrow> nat list" where
  "opt_ends f g 0 p = [p]"
| "opt_ends f g (Suc m) p =
     (let taken = concat (map (opt_ends f g m) (f p)); skipped = opt_ends f g m p
      in case g of Greedy \<Rightarrow> taken @ skipped | Lazy \<Rightarrow> skipped @ taken)"

primrec power_ends :: "(nat \<Rightarrow> nat list) \<Rightarrow> nat \<Rightarrow> nat \<Rightarrow> nat list" where
  "power_ends f 0 p = [p]"
| "power_ends f (Suc m) p = concat (map (power_ends f m) (f p))"

fun seq_ends :: "(nat \<Rightarrow> nat list) list \<Rightarrow> nat \<Rightarrow> nat list" where
  "seq_ends [] p = [p]"
| "seq_ends (f # fs) p = concat (map (seq_ends fs) (f p))"

primrec ends :: "bytes \<Rightarrow> lab_ast \<Rightarrow> nat \<Rightarrow> nat list" where
  "ends h LEmpty = (\<lambda>p. [p])"
| "ends h (LByte b) = consume (Some b) h"
| "ends h LAnyByte = consume None h"
| "ends h LStartText = (\<lambda>p. if p = 0 then [p] else [])"
| "ends h LEndText = (\<lambda>p. if p = length h then [p] else [])"
| "ends h (LConcat as) = seq_ends (map (ends h) as)"
| "ends h (LAlt as) = (\<lambda>p. concat (map (\<lambda>f. f p) (map (ends h) as)))"
| "ends h (LRepeat body g) =
     star_ends (length h) (\<lambda>p. concat (map (atom_ends h p) body)) g"
| "ends h (LRepetition a mn mx g) = (\<lambda>p. concat (map
     (case mx of None \<Rightarrow> star_ends (length h) (ends h a) g | Some m \<Rightarrow> opt_ends (ends h a) g (m - mn))
     (power_ends (ends h a) mn p)))"

lemma opt_ends_0: "opt_ends f g 0 = (\<lambda>p. [p])"
  and opt_ends_Suc: "opt_ends f g (Suc m) = (\<lambda>p.
     let taken = concat (map (opt_ends f g m) (f p)); skipped = opt_ends f g m p
      in case g of Greedy \<Rightarrow> taken @ skipped | Lazy \<Rightarrow> skipped @ taken)"
  by (rule ext, simp)+

lemma power_ends_0: "power_ends f 0 = (\<lambda>p. [p])"
  and power_ends_Suc: "power_ends f (Suc m) = (\<lambda>p. concat (map (power_ends f m) (f p)))"
  by (rule ext, simp)+

lemma seq_ends_Nil: "seq_ends [] = (\<lambda>p. [p])"
  and seq_ends_Cons: "seq_ends (f # fs) = (\<lambda>p. concat (map (seq_ends fs) (f p)))"
  by (rule ext, simp)+

text \<open>Bodies stay in the haystack and never move left.\<close>

definition bounded :: "nat \<Rightarrow> (nat \<Rightarrow> nat list) \<Rightarrow> bool" where
  "bounded n f \<longleftrightarrow> (\<forall>p\<le>n. \<forall>q\<in>set (f p). p \<le> q \<and> q \<le> n)"

lemma boundedD: "bounded n f \<Longrightarrow> p \<le> n \<Longrightarrow> q \<in> set (f p) \<Longrightarrow> p \<le> q \<and> q \<le> n"
  unfolding bounded_def by blast

lemma boundedI: "(\<And>p q. p \<le> n \<Longrightarrow> q \<in> set (f p) \<Longrightarrow> p \<le> q \<and> q \<le> n) \<Longrightarrow> bounded n f"
  unfolding bounded_def by blast

lemma bounded_comp:
  assumes "bounded n f" "bounded n g"
  shows "bounded n (\<lambda>p. concat (map g (f p)))"
proof (rule boundedI)
  fix p q assume p: "p \<le> n" "q \<in> set (concat (map g (f p)))"
  then obtain r where r: "r \<in> set (f p)" "q \<in> set (g r)" by auto
  from boundedD [OF assms(1) p(1) r(1)] boundedD [OF assms(2) _ r(2)] show "p \<le> q \<and> q \<le> n" by auto
qed

lemma bounded_append:
  "bounded n f \<Longrightarrow> bounded n g \<Longrightarrow> bounded n (\<lambda>p. f p @ g p)"
  by (rule boundedI) (metis Un_iff boundedD set_append)

lemma bounded_consume: "bounded (length h) (consume x h)"
  by (rule boundedI) (auto simp: consume_def split: if_splits)

lemma bounded_single: "bounded n (\<lambda>p. [p])"
  by (rule boundedI) auto

lemma bounded_cond: "bounded n (\<lambda>p. if c p then [p] else [])"
  by (rule boundedI) (auto split: if_splits)

lemma bounded_choice: "\<forall>x\<in>set xs. bounded n (f x) \<Longrightarrow> bounded n (\<lambda>p. concat (map (\<lambda>x. f x p) xs))"
  by (induction xs) (auto intro: bounded_append boundedI)

lemma bounded_atom: "bounded (length h) (\<lambda>p. atom_ends h p a)"
  by (cases a) (auto intro: bounded_consume bounded_single bounded_cond)

lemma star_ends_bounds:
  "p \<le> n \<Longrightarrow> q \<in> set (star_ends n f g p) \<Longrightarrow> p \<le> q \<and> q \<le> n"
proof (induction n f g p rule: star_ends.induct)
  case (1 n f g p)
  from "1.prems" have "q = p \<or> (\<exists>r\<in>set (f p). p < r \<and> r \<le> n \<and> q \<in> set (star_ends n f g r))"
    by (subst (asm) star_ends.simps) (auto simp: Let_def split: greed.splits if_splits)
  with "1.IH" "1.prems"(1) show ?case by fastforce
qed

lemma bounded_star: "bounded n (star_ends n f g)"
  by (rule boundedI) (rule star_ends_bounds)

lemma bounded_opt: "bounded n f \<Longrightarrow> bounded n (opt_ends f g m)"
proof (induction m)
  case (Suc m)
  then have "bounded n (\<lambda>p. concat (map (opt_ends f g m) (f p)))" by (simp add: bounded_comp)
  with Suc show ?case
    by (cases g) (auto simp: Let_def opt_ends_Suc intro: bounded_append)
qed (simp add: opt_ends_0 bounded_single)

lemma bounded_power: "bounded n f \<Longrightarrow> bounded n (power_ends f m)"
  by (induction m) (simp_all add: power_ends_0 power_ends_Suc bounded_single bounded_comp)

lemma bounded_seq: "\<forall>f\<in>set fs. bounded n f \<Longrightarrow> bounded n (seq_ends fs)"
  by (induction fs) (simp_all add: seq_ends_Nil seq_ends_Cons bounded_single bounded_comp)

lemma bounded_ends: "bounded (length h) (ends h a)"
proof (induction a)
  case (LAlt as)
  then show ?case by (simp add: bounded_choice comp_def)
next
  case (LRepetition a mn mx g)
  have tail: "bounded (length h) (case mx of None \<Rightarrow> star_ends (length h) (ends h a) g
      | Some m \<Rightarrow> opt_ends (ends h a) g (m - mn))"
    using LRepetition by (simp add: bounded_star bounded_opt split: option.split)
  show ?case
    unfolding ends.simps by (rule bounded_comp [OF bounded_power [OF LRepetition] tail])
qed (simp_all add: bounded_seq bounded_consume bounded_star bounded_single bounded_cond)

lemmas ends_bounds = boundedD [OF bounded_ends]

section \<open>Ordered semantics of a program\<close>

fun succs :: "bytes \<Rightarrow> inst \<Rightarrow> nat \<Rightarrow> (nat \<times> nat) list" where
  "succs h IMatch p = []"
| "succs h (IByte x nxt) p = map (Pair nxt) (consume x h p)"
| "succs h (IAssertStart nxt) p = (if p = 0 then [(nxt, p)] else [])"
| "succs h (IAssertEnd nxt) p = (if p = length h then [(nxt, p)] else [])"
| "succs h (ISplit a b) p = [(a, p), (b, p)]"

inductive paths :: "inst list \<Rightarrow> bytes \<Rightarrow> nat \<Rightarrow> nat \<Rightarrow> nat list \<Rightarrow> bool" for P h where
  accept: "pc < length P \<Longrightarrow> P ! pc = IMatch \<Longrightarrow> paths P h pc p [p]"
| follow: "pc < length P \<Longrightarrow> P ! pc \<noteq> IMatch \<Longrightarrow>
     list_all2 (\<lambda>c es. paths P h (fst c) (snd c) es) (succs h (P ! pc) p) ess \<Longrightarrow>
     paths P h pc p (concat ess)"

lemma paths_split:
  "pc < length P \<Longrightarrow> P ! pc = ISplit a b \<Longrightarrow> paths P h a p es \<Longrightarrow> paths P h b p fs \<Longrightarrow>
     paths P h pc p (es @ fs)"
  using paths.follow [of pc P h p "[es, fs]"] by simp

lemma paths_byte:
  "pc < length P \<Longrightarrow> P ! pc = IByte x nxt \<Longrightarrow> (consume x h p \<noteq> [] \<Longrightarrow> paths P h nxt (Suc p) (K (Suc p))) \<Longrightarrow>
     paths P h pc p (concat (map K (consume x h p)))"
  using paths.follow [of pc P h p "map K (consume x h p)"]
  by (auto simp: consume_def list_all2_map1 list_all2_map2 split: if_splits)

lemma paths_assert_start:
  "pc < length P \<Longrightarrow> P ! pc = IAssertStart nxt \<Longrightarrow> (p = 0 \<Longrightarrow> paths P h nxt p es) \<Longrightarrow>
     paths P h pc p (if p = 0 then es else [])"
  using paths.follow [of pc P h p "if p = 0 then [es] else []"] by auto

lemma paths_assert_end:
  "pc < length P \<Longrightarrow> P ! pc = IAssertEnd nxt \<Longrightarrow> (p = length h \<Longrightarrow> paths P h nxt p es) \<Longrightarrow>
     paths P h pc p (if p = length h then es else [])"
  using paths.follow [of pc P h p "if p = length h then [es] else []"] by auto

lemma succs_bounds: "(pc', q) \<in> set (succs h i p) \<Longrightarrow> p \<le> q \<and> (p \<le> length h \<longrightarrow> q \<le> length h)"
  by (cases i) (auto simp: consume_def split: if_splits)

lemma list_all2_concat:
  "list_all2 R xs yss \<Longrightarrow> z \<in> set (concat yss) \<Longrightarrow> \<exists>x ys. x \<in> set xs \<and> R x ys \<and> z \<in> set ys"
  by (induction rule: list_all2_induct) auto

lemma paths_bounds:
  "paths P h pc p es \<Longrightarrow> \<forall>e\<in>set es. p \<le> e \<and> (p \<le> length h \<longrightarrow> e \<le> length h)"
proof (induction rule: paths.induct)
  case (follow pc p ess)
  show ?case
  proof
    fix e assume "e \<in> set (concat ess)"
    from list_all2_concat [OF follow.IH this] obtain c es where "c \<in> set (succs h (P ! pc) p)"
      "\<forall>e\<in>set es. snd c \<le> e \<and> (snd c \<le> length h \<longrightarrow> e \<le> length h)" "e \<in> set es" by blast
    with succs_bounds [of "fst c" "snd c" h "P ! pc" p] show "p \<le> e \<and> (p \<le> length h \<longrightarrow> e \<le> length h)"
      by (metis le_trans prod.collapse)
  qed
qed simp

end
