(* ===== verification/LabCorrect.thy ===== *)
theory LabCorrect
  imports LabSem
begin

text \<open>
  The compiler of \<^verbatim>\<open>compile.rs\<close> is correct: what it appends to the builder never changes
  afterwards, all targets are in range, the same-boundary edges are acyclic, and the entry it
  returns reaches, in priority order, what the AST reaches followed by the continuation.
\<close>

section \<open>Segments of a program under construction\<close>

fun targets :: "inst \<Rightarrow> nat list" where
  "targets IMatch = []"
| "targets (IByte _ nxt) = [nxt]"
| "targets (IAssertStart nxt) = [nxt]"
| "targets (IAssertEnd nxt) = [nxt]"
| "targets (ISplit a b) = [a, b]"

lemma epsilon_children_targets: "set (epsilon_children i) \<subseteq> set (targets i)"
  by (cases i) auto

lemma succs_targets: "(pc', q) \<in> set (succs h i p) \<Longrightarrow> pc' \<in> set (targets i)"
  by (cases i) (auto split: if_splits)

text \<open>The states from which no infinite chain of same-boundary edges starts.\<close>

inductive eacc :: "inst list \<Rightarrow> nat \<Rightarrow> bool" for P where
  eacc: "pc < length P \<Longrightarrow> (\<And>c. c \<in> set (epsilon_children (P ! pc)) \<Longrightarrow> eacc P c) \<Longrightarrow> eacc P pc"

text \<open>A final program that has the slots from \<open>lo\<close> up to the end of \<open>s\<close>.\<close>

definition agrees :: "inst list \<Rightarrow> nat \<Rightarrow> slots \<Rightarrow> bool" where
  "agrees P lo s \<longleftrightarrow> (\<forall>i. lo \<le> i \<longrightarrow> i < length s \<longrightarrow> i < length P \<and> s ! i = Some (P ! i))"

lemma agreesD: "agrees P lo s \<Longrightarrow> lo \<le> i \<Longrightarrow> i < length s \<Longrightarrow> i < length P \<and> s ! i = Some (P ! i)"
  unfolding agrees_def by blast

definition extends2 :: "slots \<Rightarrow> nat \<Rightarrow> nat \<Rightarrow> slots \<Rightarrow> bool" where
  "extends2 s k l s' \<longleftrightarrow> (\<exists>code. s' = s @ map Some code \<and>
     (\<forall>i\<in>set code. i \<noteq> IMatch \<and> (\<forall>t\<in>set (targets i). t < length s')) \<and>
     (\<forall>P. agrees P (length s) s' \<longrightarrow> eacc P k \<longrightarrow> eacc P l \<longrightarrow>
       (\<forall>pc. length s \<le> pc \<longrightarrow> pc < length s' \<longrightarrow> eacc P pc)))"

abbreviation extends :: "slots \<Rightarrow> nat \<Rightarrow> slots \<Rightarrow> bool" where
  "extends s k \<equiv> extends2 s k k"

definition entry_ok :: "nat \<Rightarrow> slots \<Rightarrow> nat \<Rightarrow> (inst list \<Rightarrow> nat \<Rightarrow> bool) \<Rightarrow> bool" where
  "entry_ok lo s e \<phi> \<longleftrightarrow> e < length s \<and> (\<forall>P. agrees P lo s \<longrightarrow> \<phi> P e)"

text \<open>
  The entry \<open>e\<close> behaves as \<open>f\<close> followed by a continuation, which is \<open>k\<close> for an end that
  consumed nothing and \<open>l\<close> for one that did (the loop entry, in a repetition body).
\<close>

definition sem2 :: "nat \<Rightarrow> nat \<Rightarrow> (bytes \<Rightarrow> nat \<Rightarrow> nat list) \<Rightarrow> inst list \<Rightarrow> nat \<Rightarrow> bool" where
  "sem2 k l f P e \<longleftrightarrow> (eacc P k \<longrightarrow> eacc P e) \<and>
     (\<forall>h p K. p \<le> length h \<longrightarrow> paths P h k p (K p) \<longrightarrow>
        (\<forall>q. p < q \<longrightarrow> q \<le> length h \<longrightarrow> paths P h l q (K q)) \<longrightarrow>
        paths P h e p (concat (map K (f h p))))"

abbreviation sem :: "nat \<Rightarrow> (bytes \<Rightarrow> nat \<Rightarrow> nat list) \<Rightarrow> inst list \<Rightarrow> nat \<Rightarrow> bool" where
  "sem k \<equiv> sem2 k k"

lemma sem2D:
  assumes "sem2 k l f P e" "p \<le> length h" "paths P h k p (K p)"
    and "\<And>q. p < q \<Longrightarrow> q \<le> length h \<Longrightarrow> paths P h l q (K q)"
  shows "paths P h e p (concat (map K (f h p)))"
  using assms unfolding sem2_def by blast

lemma semD:
  assumes "sem k f P e" "p \<le> length h" "\<And>q. p \<le> q \<Longrightarrow> q \<le> length h \<Longrightarrow> paths P h k q (K q)"
  shows "paths P h e p (concat (map K (f h p)))"
  by (rule sem2D [OF assms(1,2)]) (use assms in auto)

lemma sem_eacc: "sem2 k l f P e \<Longrightarrow> eacc P k \<Longrightarrow> eacc P e"
  unfolding sem2_def by blast

lemma sem2I:
  assumes "eacc P k \<Longrightarrow> eacc P e"
    and "\<And>h p K. p \<le> length h \<Longrightarrow> paths P h k p (K p) \<Longrightarrow>
        (\<And>q. p < q \<Longrightarrow> q \<le> length h \<Longrightarrow> paths P h l q (K q)) \<Longrightarrow> paths P h e p (concat (map K (f h p)))"
  shows "sem2 k l f P e"
  using assms unfolding sem2_def by blast

lemma semI:
  assumes "eacc P k \<Longrightarrow> eacc P e"
    and "\<And>h p K. p \<le> length h \<Longrightarrow> (\<And>q. p \<le> q \<Longrightarrow> q \<le> length h \<Longrightarrow> paths P h k q (K q)) \<Longrightarrow>
        paths P h e p (concat (map K (f h p)))"
  shows "sem k f P e"
proof (rule sem2I)
  fix h p and K :: "nat \<Rightarrow> nat list"
  assume "p \<le> length h" "paths P h k p (K p)" "\<And>q. p < q \<Longrightarrow> q \<le> length h \<Longrightarrow> paths P h k q (K q)"
  then show "paths P h e p (concat (map K (f h p)))"
    by (intro assms(2)) (auto simp: le_less)
qed (rule assms(1))

definition compile_ok :: "node_compiler \<Rightarrow> (bytes \<Rightarrow> nat \<Rightarrow> nat list) \<Rightarrow> bool" where
  "compile_ok cc f \<longleftrightarrow> (\<forall>s k d s' e. cc s k d = Inr (s', e) \<longrightarrow> k < length s \<longrightarrow>
     extends s k s' \<and> entry_ok (length s) s' e (sem k f))"

lemma compile_okD:
  "compile_ok cc f \<Longrightarrow> cc s k d = Inr (s', e) \<Longrightarrow> k < length s \<Longrightarrow>
     extends s k s' \<and> entry_ok (length s) s' e (sem k f)"
  unfolding compile_ok_def by blast

section \<open>Composition\<close>

lemma extends_length: "extends2 s k l s' \<Longrightarrow> length s \<le> length s'"
  by (auto simp: extends2_def)

lemma extends_refl: "extends2 s k l s"
  by (simp add: extends2_def)

lemma extends_prefix: "extends2 s k l s' \<Longrightarrow> \<exists>t. s' = s @ t"
  by (auto simp: extends2_def)

lemma agrees_mono: "agrees P lo s' \<Longrightarrow> s' = s @ t \<Longrightarrow> lo \<le> lo' \<Longrightarrow> agrees P lo' s"
  unfolding agrees_def by (metis le_trans length_append nth_append trans_less_add1)

lemma entry_ok_mono:
  assumes "entry_ok lo s e \<phi>" "s' = s @ t" "lo' \<le> lo"
  shows "entry_ok lo' s' e \<phi>"
  using assms agrees_mono [OF _ assms(2)] unfolding entry_ok_def by (metis length_append trans_less_add1)

lemma extendsE:
  assumes "extends2 s k l s'"
  obtains code where "s' = s @ map Some code" "\<And>i. i \<in> set code \<Longrightarrow> i \<noteq> IMatch"
    "\<And>i t. i \<in> set code \<Longrightarrow> t \<in> set (targets i) \<Longrightarrow> t < length s'"
    "\<And>P pc. agrees P (length s) s' \<Longrightarrow> eacc P k \<Longrightarrow> eacc P l \<Longrightarrow> length s \<le> pc \<Longrightarrow> pc < length s' \<Longrightarrow> eacc P pc"
proof -
  from assms obtain code where c: "s' = s @ map Some code \<and>
     (\<forall>i\<in>set code. i \<noteq> IMatch \<and> (\<forall>t\<in>set (targets i). t < length s')) \<and>
     (\<forall>P. agrees P (length s) s' \<longrightarrow> eacc P k \<longrightarrow> eacc P l \<longrightarrow>
       (\<forall>pc. length s \<le> pc \<longrightarrow> pc < length s' \<longrightarrow> eacc P pc))"
    unfolding extends2_def by (rule exE)
  show thesis
    by (rule that [OF conjunct1 [OF c]])
      (use c [THEN conjunct2, THEN conjunct1] c [THEN conjunct2, THEN conjunct2] in \<open>blast+\<close>)
qed

lemma extendsI:
  assumes "s' = s @ map Some code" "\<And>i. i \<in> set code \<Longrightarrow> i \<noteq> IMatch"
    "\<And>i t. i \<in> set code \<Longrightarrow> t \<in> set (targets i) \<Longrightarrow> t < length s'"
    "\<And>P pc. agrees P (length s) s' \<Longrightarrow> eacc P k \<Longrightarrow> eacc P l \<Longrightarrow> length s \<le> pc \<Longrightarrow> pc < length s' \<Longrightarrow> eacc P pc"
  shows "extends2 s k l s'"
  unfolding extends2_def
  by (intro exI [of _ code] conjI assms(1) ballI allI impI) (use assms(2-) in blast)+

lemma extends_trans:
  assumes 1: "extends2 s k l s1" and 2: "extends2 s1 k1 l1 s2"
    and k1: "\<And>P. agrees P (length s) s1 \<Longrightarrow> eacc P k \<Longrightarrow> eacc P l \<Longrightarrow> eacc P k1 \<and> eacc P l1"
  shows "extends2 s k l s2"
proof -
  from 1 obtain c1 where c1: "s1 = s @ map Some c1" and m1: "\<And>i. i \<in> set c1 \<Longrightarrow> i \<noteq> IMatch"
    and t1: "\<And>i t. i \<in> set c1 \<Longrightarrow> t \<in> set (targets i) \<Longrightarrow> t < length s1"
    and e1: "\<And>P pc. agrees P (length s) s1 \<Longrightarrow> eacc P k \<Longrightarrow> eacc P l \<Longrightarrow> length s \<le> pc \<Longrightarrow> pc < length s1 \<Longrightarrow> eacc P pc"
    by (rule extendsE) blast
  from 2 obtain c2 where c2: "s2 = s1 @ map Some c2" and m2: "\<And>i. i \<in> set c2 \<Longrightarrow> i \<noteq> IMatch"
    and t2: "\<And>i t. i \<in> set c2 \<Longrightarrow> t \<in> set (targets i) \<Longrightarrow> t < length s2"
    and e2: "\<And>P pc. agrees P (length s1) s2 \<Longrightarrow> eacc P k1 \<Longrightarrow> eacc P l1 \<Longrightarrow> length s1 \<le> pc \<Longrightarrow> pc < length s2 \<Longrightarrow> eacc P pc"
    by (rule extendsE) blast
  show ?thesis
  proof (rule extendsI [of _ _ "c1 @ c2"])
    fix P pc
    assume P: "agrees P (length s) s2" and k: "eacc P k" "eacc P l" and pc: "length s \<le> pc" "pc < length s2"
    have A1: "agrees P (length s) s1" by (rule agrees_mono [OF P c2]) simp
    have A2: "agrees P (length s1) s2"
      by (rule agrees_mono [OF P, of s2 "[]"]) (simp_all add: c1)
    show "eacc P pc"
    proof (cases "pc < length s1")
      case True
      with e1 [OF A1 k] pc show ?thesis by blast
    next
      case False
      with e2 [OF A2] k1 [OF A1 k] pc show ?thesis by (simp add: not_less)
    qed
  next
    fix i t assume "i \<in> set (c1 @ c2)" "t \<in> set (targets i)"
    with t1 t2 show "t < length s2" using c2 by (fastforce simp: less_le_trans)
  qed (use c1 c2 m1 m2 in auto)
qed

lemma push_Inr:
  "push lim al s i = Inr (s', e) \<longleftrightarrow>
     s' = s @ [i] \<and> e = length s \<and> Suc (length s) \<le> usize_max \<and> Suc (length s) \<le> lim \<and> al ProgramStates 1"
  by (auto simp: push_def rbind_eq_Inr)

lemma push_extends:
  assumes "push lim al s (Some i) = Inr (s', e)" "i \<noteq> IMatch" "\<forall>t\<in>set (targets i). t < length s'"
    and "\<And>P c. agrees P (length s) s' \<Longrightarrow> eacc P k \<Longrightarrow> eacc P l \<Longrightarrow> c \<in> set (epsilon_children i) \<Longrightarrow> eacc P c"
  shows "extends2 s k l s'"
proof (rule extendsI [of _ _ "[i]"])
  fix P pc
  assume P: "agrees P (length s) s'" "eacc P k" "eacc P l" and pc: "length s \<le> pc" "pc < length s'"
  from assms(1) pc have pc': "pc = length s" and s': "s' = s @ [Some i]" by (auto simp: push_Inr)
  with agreesD [OF P(1) pc] assms(4) [OF P] show "eacc P pc" by (auto intro: eacc.intros [of "length s"])
qed (use assms in \<open>auto simp: push_Inr\<close>)

lemma push_entry:
  assumes "push lim al s (Some i) = Inr (s', e)" "lo \<le> length s"
    and "\<And>P. agrees P lo s' \<Longrightarrow> e < length P \<Longrightarrow> P ! e = i \<Longrightarrow> \<phi> P e"
  shows "entry_ok lo s' e \<phi>"
  unfolding entry_ok_def
proof (intro conjI allI impI)
  show "e < length s'" using assms(1) by (simp add: push_Inr)
  fix P assume P: "agrees P lo s'"
  from agreesD [OF P, of e] assms(1,2) assms(3) [OF P] show "\<phi> P e" by (auto simp: push_Inr)
qed

text \<open>Single instructions.\<close>

lemma sem_byte:
  "e < length P \<Longrightarrow> P ! e = IByte x l \<Longrightarrow> sem2 k l (consume x) P e"
proof (rule sem2I)
  assume e: "e < length P" "P ! e = IByte x l"
  then show "eacc P e" by (auto intro: eacc.intros [of e])
  fix h p and K :: "nat \<Rightarrow> nat list"
  assume "\<And>q. p < q \<Longrightarrow> q \<le> length h \<Longrightarrow> paths P h l q (K q)"
  then show "paths P h e p (concat (map K (consume x h p)))"
    by (intro paths_byte [OF e]) (auto simp: consume_def split: if_splits)
qed

lemma sem_assert_start:
  assumes "e < length P" "P ! e = IAssertStart k"
  shows "sem2 k l (\<lambda>h p. if p = 0 then [p] else []) P e"
proof (rule sem2I)
  fix h p and K :: "nat \<Rightarrow> nat list"
  assume "paths P h k p (K p)"
  with paths_assert_start [OF assms, of p h "K p"]
  show "paths P h e p (concat (map K (if p = 0 then [p] else [])))" by (auto split: if_splits)
qed (use assms in \<open>auto intro: eacc.intros [of e]\<close>)

lemma sem_assert_end:
  assumes "e < length P" "P ! e = IAssertEnd k"
  shows "sem2 k l (\<lambda>h p. if p = length h then [p] else []) P e"
proof (rule sem2I)
  fix h p and K :: "nat \<Rightarrow> nat list"
  assume "paths P h k p (K p)"
  with paths_assert_end [OF assms, of p h "K p"]
  show "paths P h e p (concat (map K (if p = length h then [p] else [])))" by (auto split: if_splits)
qed (use assms in \<open>auto intro: eacc.intros [of e]\<close>)

lemma sem_id: "sem2 k l (\<lambda>h p. [p]) P k"
  by (rule sem2I) auto

lemma sem_split:
  assumes "sem2 k l f P a" "sem2 k l g P b" "e < length P" "P ! e = ISplit a b"
  shows "sem2 k l (\<lambda>h p. f h p @ g h p) P e"
proof (rule sem2I)
  show "eacc P e" if "eacc P k"
    using assms sem_eacc [OF assms(1) that] sem_eacc [OF assms(2) that]
    by (auto intro: eacc.intros [of e])
  fix h p and K :: "nat \<Rightarrow> nat list"
  assume "p \<le> length h" "paths P h k p (K p)" "\<And>q. p < q \<Longrightarrow> q \<le> length h \<Longrightarrow> paths P h l q (K q)"
  with paths_split [OF assms(3,4)] sem2D [OF assms(1)] sem2D [OF assms(2)]
  show "paths P h e p (concat (map K (f h p @ g h p)))" by simp
qed

text \<open>The loop: a split between the body, which comes back to it, and the exit.\<close>

lemma star_ends_K:
  assumes "bounded n f" "p \<le> n"
  shows "concat (map K (star_ends n f g p)) =
    (let again = concat (map (\<lambda>q. if q = p then K p else concat (map K (star_ends n f g q))) (f p))
     in case g of Greedy \<Rightarrow> again @ K p | Lazy \<Rightarrow> K p @ again)"
proof -
  have "concat (map K (concat (map (\<lambda>q. if q = p then [p]
         else if p < q \<and> q \<le> n then star_ends n f g q else []) (f p)))) =
       concat (map (\<lambda>q. if q = p then K p else concat (map K (star_ends n f g q))) (f p))"
    unfolding concat_map_concat map_map
    by (rule concat_map_cong) (use boundedD [OF assms] in \<open>auto simp: le_neq_implies_less\<close>)
  then show ?thesis
    by (subst star_ends.simps) (simp add: Let_def split: greed.split)
qed

lemma sem_loop:
  assumes body: "sem2 k l f P b" and l: "l < length P" "P ! l = split_of g b k"
    and f: "\<And>h. bounded (length h) (f h)"
  shows "sem k (\<lambda>h. star_ends (length h) (f h) g) P l"
proof (rule semI)
  show "eacc P l" if "eacc P k"
    using sem_eacc [OF body that] that l
    by (cases g) (auto intro!: eacc.intros [of l] simp: split_of_def)
  fix h p and K :: "nat \<Rightarrow> nat list"
  assume "p \<le> length h" "\<And>q. p \<le> q \<Longrightarrow> q \<le> length h \<Longrightarrow> paths P h k q (K q)"
  then show "paths P h l p (concat (map K (star_ends (length h) (f h) g p)))"
  proof (induction "length h - p" arbitrary: p rule: less_induct)
    case less
    have "paths P h b p (concat (map (\<lambda>q. if q = p then K p
        else concat (map K (star_ends (length h) (f h) g q))) (f h p)))"
      by (rule sem2D [OF body less.prems(1)]) (use less in auto)
    moreover have "paths P h k p (K p)" using less.prems by simp
    ultimately show ?case
      unfolding star_ends_K [OF f less.prems(1)]
      using l by (cases g) (auto simp: split_of_def Let_def intro: paths_split)
  qed
qed

lemma sem_comp:
  assumes "sem k f P k1" "sem k1 g P e" "\<And>h. bounded (length h) (g h)"
  shows "sem k (\<lambda>h p. concat (map (f h) (g h p))) P e"
proof (rule semI)
  show "eacc P e" if "eacc P k" using sem_eacc [OF assms(2) sem_eacc [OF assms(1) that]] .
  fix h p and K :: "nat \<Rightarrow> nat list"
  assume p: "p \<le> length h" and K: "\<And>q. p \<le> q \<Longrightarrow> q \<le> length h \<Longrightarrow> paths P h k q (K q)"
  have "paths P h k1 q (concat (map K (f h q)))" if "p \<le> q" "q \<le> length h" for q
    using semD [OF assms(1) that(2)] K that(1) by (meson le_trans)
  from semD [OF assms(2) p this]
  show "paths P h e p (concat (map K (concat (map (f h) (g h p)))))"
    by (simp add: concat_map_concat comp_def)
qed

section \<open>Finished pieces\<close>

definition built2 :: "slots \<Rightarrow> nat \<Rightarrow> nat \<Rightarrow> slots \<times> nat \<Rightarrow> (bytes \<Rightarrow> nat \<Rightarrow> nat list) \<Rightarrow> bool" where
  "built2 s k l r f \<longleftrightarrow> extends2 s k l (fst r) \<and> entry_ok (length s) (fst r) (snd r) (sem2 k l f)"

abbreviation built :: "slots \<Rightarrow> nat \<Rightarrow> slots \<times> nat \<Rightarrow> (bytes \<Rightarrow> nat \<Rightarrow> nat list) \<Rightarrow> bool" where
  "built s k \<equiv> built2 s k k"

lemma built_id: "k < length s \<Longrightarrow> built2 s k l (s, k) (\<lambda>h p. [p])"
  by (simp add: built2_def extends_refl entry_ok_def sem_id)

lemma compile_ok_built: "compile_ok cc f \<Longrightarrow> cc s k d = Inr r \<Longrightarrow> k < length s \<Longrightarrow> built s k r f"
  using compile_okD [of cc f s k d "fst r" "snd r"] by (simp add: built2_def)

lemma compile_okI: "(\<And>s k d r. cc s k d = Inr r \<Longrightarrow> k < length s \<Longrightarrow> built s k r f) \<Longrightarrow> compile_ok cc f"
  unfolding compile_ok_def built2_def by fastforce

lemma built_less: "built2 s k l (s', e) f \<Longrightarrow> e < length s' \<and> length s \<le> length s'"
  by (auto simp: built2_def entry_ok_def dest: extends_length)

text \<open>A piece built behind another one.\<close>

lemma built_comp:
  assumes 1: "built s k (s1, e1) g" and 2: "built s1 e1 (s2, e2) f" and b: "\<And>h. bounded (length h) (f h)"
  shows "built s k (s2, e2) (\<lambda>h p. concat (map (g h) (f h p)))"
proof -
  have x1: "extends s k s1" and n1: "entry_ok (length s) s1 e1 (sem k g)"
    and x2: "extends s1 e1 s2" and n2: "entry_ok (length s1) s2 e2 (sem e1 f)"
    using 1 2 by (auto simp: built2_def)
  obtain t where t: "s2 = s1 @ t" using extends_prefix [OF x2] by blast
  have "extends s k s2"
    by (rule extends_trans [OF x1 x2]) (use n1 in \<open>auto simp: entry_ok_def dest: sem_eacc\<close>)
  moreover have "entry_ok (length s) s2 e2 (sem k (\<lambda>h p. concat (map (g h) (f h p))))"
    unfolding entry_ok_def
  proof (intro conjI allI impI)
    show "e2 < length s2" using n2 by (simp add: entry_ok_def)
    fix P assume P: "agrees P (length s) s2"
    have "sem k g P e1" using n1 agrees_mono [OF P t] by (simp add: entry_ok_def)
    moreover have "sem e1 f P e2"
      using n2 agrees_mono [OF P, of s2 "[]"] extends_length [OF x1] by (simp add: entry_ok_def)
    ultimately show "sem k (\<lambda>h p. concat (map (g h) (f h p))) P e2" by (rule sem_comp) (rule b)
  qed
  ultimately show ?thesis by (simp add: built2_def)
qed

text \<open>A piece built beside another one, with the same continuation.\<close>

lemma built_beside:
  assumes 1: "built2 s k l (s1, e1) g" and 2: "built2 s1 k l (s2, e2) f"
  shows "extends2 s k l s2" "entry_ok (length s) s2 e1 (sem2 k l g)" "entry_ok (length s) s2 e2 (sem2 k l f)"
proof -
  have x1: "extends2 s k l s1" and n1: "entry_ok (length s) s1 e1 (sem2 k l g)"
    and x2: "extends2 s1 k l s2" and n2: "entry_ok (length s1) s2 e2 (sem2 k l f)"
    using 1 2 by (auto simp: built2_def)
  obtain t where t: "s2 = s1 @ t" using extends_prefix [OF x2] by blast
  show "extends2 s k l s2" by (rule extends_trans [OF x1 x2]) simp
  show "entry_ok (length s) s2 e1 (sem2 k l g)" by (rule entry_ok_mono [OF n1 t order_refl])
  show "entry_ok (length s) s2 e2 (sem2 k l f)"
    using n2 agrees_mono [of _ "length s" s2 s2 "[]" "length s1"] extends_length [OF x1]
    by (simp add: entry_ok_def)
qed

text \<open>A split behind an extension is an extension.\<close>

lemma extends_split:
  assumes x: "extends2 s k l s1" and ab: "a < length s1" "b < length s1"
    and acc: "\<And>P. agrees P (length s) s1 \<Longrightarrow> eacc P k \<Longrightarrow> eacc P l \<Longrightarrow> eacc P a \<and> eacc P b"
  shows "extends2 s k l (s1 @ [Some (ISplit a b)])"
proof -
  let ?s2 = "s1 @ [Some (ISplit a b)]"
  from x obtain code where c: "s1 = s @ map Some code" and m: "\<And>i. i \<in> set code \<Longrightarrow> i \<noteq> IMatch"
    and t: "\<And>i t. i \<in> set code \<Longrightarrow> t \<in> set (targets i) \<Longrightarrow> t < length s1"
    and e: "\<And>P pc. agrees P (length s) s1 \<Longrightarrow> eacc P k \<Longrightarrow> eacc P l \<Longrightarrow> length s \<le> pc \<Longrightarrow> pc < length s1 \<Longrightarrow> eacc P pc"
    by (rule extendsE) blast
  show ?thesis
  proof (rule extendsI [of _ _ "code @ [ISplit a b]"])
    fix P pc
    assume P: "agrees P (length s) ?s2" and k: "eacc P k" "eacc P l" and pc: "length s \<le> pc" "pc < length ?s2"
    note P1 = agrees_mono [OF P refl order_refl]
    show "eacc P pc"
    proof (cases "pc < length s1")
      case True
      with e [OF P1 k pc(1)] show ?thesis by simp
    next
      case False
      with pc(2) have "pc = length s1" by simp
      with agreesD [OF P pc] have "pc < length P" "P ! pc = ISplit a b" by auto
      with acc [OF P1 k] show ?thesis by (auto intro!: eacc.intros [of pc])
    qed
  qed (use c m t ab in \<open>auto simp: less_Suc_eq\<close>)
qed

lemma built_split:
  assumes x: "extends2 s k l s1" and a: "entry_ok (length s) s1 a (sem2 k l f)"
    and b: "entry_ok (length s) s1 b (sem2 k l g)"
    and push: "push lim al s1 (Some (ISplit a b)) = Inr (s2, e)"
  shows "built2 s k l (s2, e) (\<lambda>h p. f h p @ g h p)"
proof -
  have s2: "s2 = s1 @ [Some (ISplit a b)]" using push by (simp add: push_Inr)
  have sem: "sem2 k l f P a \<and> sem2 k l g P b" if "agrees P (length s) s1" for P
    using a b that by (simp add: entry_ok_def)
  have "extends2 s k l s2"
    unfolding s2 using x by (rule extends_split) (use a b sem in \<open>auto simp: entry_ok_def dest: sem_eacc\<close>)
  moreover have "entry_ok (length s) s2 e (sem2 k l (\<lambda>h p. f h p @ g h p))"
    by (rule push_entry [OF push extends_length [OF x]])
      (use sem agrees_mono [OF _ s2 order_refl] in \<open>auto intro: sem_split\<close>)
  ultimately show ?thesis by (simp add: built2_def)
qed

lemma built_push:
  assumes push: "push lim al s (Some i) = Inr (s', e)" and i: "i \<noteq> IMatch"
    and t: "set (targets i) \<subseteq> {k, l}" "set (epsilon_children i) \<subseteq> {k}"
    and k: "k < length s" "l < length s"
    and sem: "\<And>P. e < length P \<Longrightarrow> P ! e = i \<Longrightarrow> sem2 k l f P e"
  shows "built2 s k l (s', e) f"
proof -
  have "extends2 s k l s'"
    by (rule push_extends [OF push i]) (use t k push in \<open>auto simp: push_Inr\<close>)
  moreover have "entry_ok (length s) s' e (sem2 k l f)"
    by (rule push_entry [OF push order_refl]) (rule sem)
  ultimately show ?thesis by (simp add: built2_def)
qed

section \<open>Copies, options and choices\<close>

lemma seq_ends_append:
  "seq_ends (fs @ gs) = (\<lambda>p. concat (map (seq_ends gs) (seq_ends fs p)))"
  by (induction fs) (simp_all add: seq_ends_Nil seq_ends_Cons concat_map_concat comp_def)

lemma built_copies:
  assumes "rfold (\<lambda>cc. compile_copy cc d) ccs r0 = Inr r" "list_all2 compile_ok ccs fs"
    and "\<forall>f\<in>set fs. \<forall>h. bounded (length h) (f h)" and "built s k r0 g"
  shows "built s k r (\<lambda>h p. concat (map (g h) (seq_ends (map (\<lambda>f. f h) (rev fs)) p)))"
  using assms(2,1,3,4)
proof (induction arbitrary: r0 g rule: list_all2_induct)
  case Nil
  then show ?case by (cases r) simp
next
  case (Cons cc ccs f fs)
  obtain s1 e1 where r0: "r0 = (s1, e1)" by (cases r0)
  from Cons.prems(1) r0 obtain r1 where r1: "cc s1 e1 d = Inr r1"
    and rest: "rfold (\<lambda>cc. compile_copy cc d) ccs r1 = Inr r"
    by (auto simp: compile_copy_def elim!: rbindE)
  have "built s1 e1 r1 f"
    using compile_ok_built [OF Cons.hyps(1) r1] built_less Cons.prems(3) r0 by blast
  then have "built s k r1 (\<lambda>h p. concat (map (g h) (f h p)))"
    using built_comp [of s k s1 e1 g "fst r1" "snd r1" f] Cons.prems(2,3) r0 by simp
  from Cons.IH [OF rest _ this] Cons.prems(2) show ?case
    by (simp add: seq_ends_append seq_ends_Cons seq_ends_Nil concat_map_concat comp_def)
qed

lemma power_ends_seq: "power_ends f m = seq_ends (replicate m f)"
  by (induction m) (simp_all add: power_ends_0 power_ends_Suc seq_ends_Nil seq_ends_Cons)

lemma rfold_replicate:
  "rfold (\<lambda>_. F x) [0..<m] st = rfold F (replicate m x) st"
proof -
  have "rfold (\<lambda>_. F x) ys st = rfold F (replicate (length ys) x) st" for ys :: "nat list"
  proof (induction ys arbitrary: st)
    case (Cons y ys)
    show ?case by (cases "F x st") (simp_all add: Cons)
  qed simp
  from this [of "[0..<m]"] show ?thesis by simp
qed

lemma built_power:
  assumes "rfold (\<lambda>_. compile_copy cc d) [0..<m] r0 = Inr r" "compile_ok cc f"
    and "\<And>h. bounded (length h) (f h)" and "built s k r0 g"
  shows "built s k r (\<lambda>h p. concat (map (g h) (power_ends (f h) m p)))"
proof -
  have "rfold (\<lambda>cc. compile_copy cc d) (replicate m cc) r0 = Inr r"
    using assms(1) rfold_replicate [of "\<lambda>cc. compile_copy cc d" cc m r0] by simp
  from built_copies [OF this _ _ assms(4), of "replicate m f"] assms(2,3) show ?thesis
    by (simp add: list_all2_conv_all_nth power_ends_seq)
qed

lemma split_of_sem:
  assumes x: "extends2 s k l s1" and a: "entry_ok (length s) s1 a (sem2 k l f)"
    and b: "entry_ok (length s) s1 b (sem2 k l g)"
    and push: "push lim al s1 (Some (split_of gr a b)) = Inr (s2, e)"
  shows "built2 s k l (s2, e) (\<lambda>h p. case gr of Greedy \<Rightarrow> f h p @ g h p | Lazy \<Rightarrow> g h p @ f h p)"
  using built_split [OF x a b] built_split [OF x b a] push
  by (cases gr) (auto simp: split_of_def)

lemma built_optional:
  assumes "rfold (\<lambda>_. compile_optional lim al cc gr d) [0..<m] (s, k) = Inr r" "compile_ok cc f"
    and "\<And>h. bounded (length h) (f h)" and "k < length s"
  shows "built s k r (\<lambda>h. opt_ends (f h) gr m)"
  using assms(1)
proof (induction m arbitrary: r)
  case 0
  with built_id [OF assms(4), of k] show ?case by (simp add: opt_ends_0)
next
  case (Suc m)
  from Suc.prems obtain s1 e1 s2 e2 where
    1: "rfold (\<lambda>_. compile_optional lim al cc gr d) [0..<m] (s, k) = Inr (s1, e1)"
    and 2: "cc s1 e1 d = Inr (s2, e2)"
    and 3: "push lim al s2 (Some (split_of gr e2 e1)) = Inr r"
    by (auto simp: rfold_append compile_optional_def elim!: rbindE)
  note b1 = Suc.IH [OF 1]
  have b2: "built s1 e1 (s2, e2) f"
    using compile_ok_built [OF assms(2) 2] built_less [OF b1] by blast
  note b3 = built_comp [OF b1 b2 assms(3)]
  from b2 have "extends s1 e1 s2" by (simp add: built2_def)
  then obtain t where "s2 = s1 @ t" using extends_prefix by blast
  then have "entry_ok (length s) s2 e1 (sem k (\<lambda>h. opt_ends (f h) gr m))"
    using b1 by (auto simp: built2_def intro: entry_ok_mono)
  from split_of_sem [OF _ _ this] b3 3 show ?case
    by (cases r) (auto simp: built2_def opt_ends_Suc Let_def)
qed

lemma add_choice_Inr:
  "add_choice lim al cc (s, e) = Inr r \<longleftrightarrow>
     (\<exists>s1 e1. cc s = Inr (s1, e1) \<and> push lim al s1 (Some (ISplit e1 e)) = Inr r)"
  by (auto simp: add_choice_def rbind_eq_Inr)

lemma built_choices:
  assumes "rfold (add_choice lim al) ccs r0 = Inr r"
    and "list_all2 (\<lambda>cc f. \<forall>s r. cc s = Inr r \<longrightarrow> k < length s \<longrightarrow> l < length s \<longrightarrow> built2 s k l r f) ccs fs"
    and "built2 s k l r0 g" "k < length s" "l < length s"
  shows "built2 s k l r (\<lambda>h p. concat (map (\<lambda>f. f h p) (rev fs)) @ g h p)"
  using assms(2,1,3,4,5)
proof (induction arbitrary: r0 g rule: list_all2_induct)
  case Nil
  then show ?case by simp
next
  case (Cons cc ccs f fs)
  obtain s1 e1 where r0: "r0 = (s1, e1)" by (cases r0)
  from Cons.prems(1) r0 obtain s2 e2 r3 where 2: "cc s1 = Inr (s2, e2)"
    and 3: "push lim al s2 (Some (ISplit e2 e1)) = Inr r3"
    and rest: "rfold (add_choice lim al) ccs r3 = Inr r"
    by (auto simp: add_choice_Inr elim!: rbindE)
  have "built2 s1 k l (s2, e2) f"
    using Cons.hyps(1) 2 built_less [OF Cons.prems(2) [unfolded r0]] Cons.prems(3,4) by auto
  note b = built_beside [OF Cons.prems(2) [unfolded r0] this]
  have "built2 s k l r3 (\<lambda>h p. f h p @ g h p)"
    using built_split [OF b(1,3,2)] 3 by (cases r3) auto
  from Cons.IH [OF rest this Cons.prems(3,4)] show ?case by simp
qed

lemma list_all2_rev: "list_all2 R xs ys \<Longrightarrow> list_all2 R (rev xs) (rev ys)"
  by simp

lemma built_choice:
  assumes "compile_choice lim al er ccs s = Inr r"
    and "list_all2 (\<lambda>cc f. \<forall>s r. cc s = Inr r \<longrightarrow> k < length s \<longrightarrow> l < length s \<longrightarrow> built2 s k l r f) ccs fs"
    and "k < length s" "l < length s"
  shows "built2 s k l r (\<lambda>h p. concat (map (\<lambda>f. f h p) fs))"
proof -
  from assms(1) obtain cc ps where ccs: "rev ccs = cc # ps"
    by (cases "rev ccs") (auto simp: compile_choice_def)
  with assms(2) obtain f gs where fs: "rev fs = f # gs"
    and cc: "\<forall>s r. cc s = Inr r \<longrightarrow> k < length s \<longrightarrow> l < length s \<longrightarrow> built2 s k l r f"
    and ps: "list_all2 (\<lambda>cc f. \<forall>s r. cc s = Inr r \<longrightarrow> k < length s \<longrightarrow> l < length s \<longrightarrow> built2 s k l r f) ps gs"
    using list_all2_rev [OF assms(2)] by (auto simp: list_all2_Cons1)
  from assms(1) ccs obtain r1 where 1: "cc s = Inr r1" and 2: "rfold (add_choice lim al) ps r1 = Inr r"
    by (auto simp: compile_choice_def elim!: rbindE)
  have "fs = rev gs @ [f]" using fs by (metis rev_rev_ident rev.simps(2))
  moreover have "built2 s k l r1 f" using cc 1 assms(3,4) by blast
  ultimately show ?thesis using built_choices [OF 2 ps _ assms(3,4)] by simp
qed

section \<open>The legacy repetition\<close>

lemma built_atom:
  assumes "compile_repeat_atom lim al a l k s = Inr r" "k < length s" "l < length s"
  shows "built2 s k l r (\<lambda>h p. atom_ends h p a)"
proof (cases a)
  case AtomEmpty
  with assms built_id show ?thesis by auto
next
  case (AtomByte b)
  with assms show ?thesis
    by (cases r) (auto intro!: built_push sem_byte simp del: One_nat_def)
next
  case AtomAnyByte
  with assms show ?thesis by (cases r) (auto intro!: built_push sem_byte)
next
  case AtomStartText
  with assms show ?thesis by (cases r) (auto intro!: built_push sem_assert_start)
next
  case AtomEndText
  with assms show ?thesis by (cases r) (auto intro!: built_push sem_assert_end)
qed

lemma list_all2_map_same: "(\<And>x. x \<in> set xs \<Longrightarrow> R (f x) (g x)) \<Longrightarrow> list_all2 R (map f xs) (map g xs)"
  by (induction xs) auto

lemma built_repeat_body:
  assumes "compile_repeat_body lim al body l k s = Inr r" "k < length s" "l < length s"
  shows "built2 s k l r (\<lambda>h p. concat (map (atom_ends h p) body))"
proof -
  have "built2 s k l r (\<lambda>h p. concat (map (\<lambda>f. f h p) (map (\<lambda>a h p. atom_ends h p a) body)))"
    by (rule built_choice [OF assms(1) [unfolded compile_repeat_body_def]])
      (use assms built_atom in \<open>auto intro!: list_all2_map_same\<close>)
  then show ?thesis by (simp add: comp_def)
qed

text \<open>Patching the loop entry closes the loop.\<close>

lemma close_loop:
  assumes b: "built2 (s @ [None]) k (length s) (s1, b) f" and k: "k < length s"
    and f: "\<And>h. bounded (length h) (f h)" and s2: "s2 = s1[length s := Some (split_of g b k)]"
  shows "built s k (s2, length s) (\<lambda>h. star_ends (length h) (f h) g)"
proof -
  from b have x: "extends2 (s @ [None]) k (length s) s1" by (simp add: built2_def)
  from x obtain code where c: "s1 = (s @ [None]) @ map Some code" and m: "\<And>i. i \<in> set code \<Longrightarrow> i \<noteq> IMatch"
    and t: "\<And>i t. i \<in> set code \<Longrightarrow> t \<in> set (targets i) \<Longrightarrow> t < length s1"
    and e: "\<And>P pc. agrees P (length (s @ [None])) s1 \<Longrightarrow> eacc P k \<Longrightarrow> eacc P (length s) \<Longrightarrow>
        length (s @ [None]) \<le> pc \<Longrightarrow> pc < length s1 \<Longrightarrow> eacc P pc"
    by (rule extendsE) blast
  have s2': "s2 = s @ map Some (split_of g b k # code)" using s2 c by simp
  have b1: "b < length s2" using built_less [OF b] s2 by simp
  have P1: "agrees P (length (s @ [None])) s1" if "agrees P (length s) s2" for P
    unfolding agrees_def
  proof (intro allI impI)
    fix i assume i: "length (s @ [None]) \<le> i" "i < length s1"
    from agreesD [OF that, of i] i s2 show "i < length P \<and> s1 ! i = Some (P ! i)" by simp
  qed
  have loop: "sem k (\<lambda>h. star_ends (length h) (f h) g) P (length s)" if P: "agrees P (length s) s2" for P
  proof (rule sem_loop [OF _ _ _ f])
    show "sem2 k (length s) f P b" using b P1 [OF P] by (simp add: built2_def entry_ok_def)
    show "length s < length P" "P ! length s = split_of g b k"
      using agreesD [OF P, of "length s"] s2' by auto
  qed
  have "extends s k s2"
  proof (rule extendsI [OF s2'])
    fix P pc
    assume P: "agrees P (length s) s2" and k: "eacc P k" and pc: "length s \<le> pc" "pc < length s2"
    have l: "eacc P (length s)" using sem_eacc [OF loop [OF P] k] .
    show "eacc P pc"
    proof (cases "pc = length s")
      case False
      with pc s2 show ?thesis by (intro e [OF P1 [OF P] k l]) auto
    qed (simp add: l)
  next
    fix i t' assume "i \<in> set (split_of g b k # code)" "t' \<in> set (targets i)"
    moreover have "length s2 = length s1" using s2 by simp
    ultimately show "t' < length s2"
      using t [of i t'] b1 k s2' by (cases g) (auto simp: split_of_def)
  qed (use m in \<open>auto simp: split_of_def split: greed.splits\<close>)
  moreover have "entry_ok (length s) s2 (length s) (sem k (\<lambda>h. star_ends (length h) (f h) g))"
    using loop s2' by (simp add: entry_ok_def)
  ultimately show ?thesis by (simp add: built2_def)
qed

lemma bounded_atoms: "bounded (length h) (\<lambda>p. concat (map (atom_ends h p) body))"
  by (rule bounded_choice) (simp add: bounded_atom)

lemma built_repeat:
  assumes "compile_repeat lim al body g k s = Inr r" "k < length s"
  shows "built s k r (\<lambda>h. star_ends (length h) (\<lambda>p. concat (map (atom_ends h p) body)) g)"
proof -
  from assms(1) obtain s1 b where b: "compile_repeat_body lim al body (length s) k (s @ [None]) = Inr (s1, b)"
    and r: "r = (s1[length s := Some (split_of g b k)], length s)"
    by (auto simp: compile_repeat_def push_Inr split: if_splits elim!: rbindE)
  have "built2 (s @ [None]) k (length s) (s1, b) (\<lambda>h p. concat (map (atom_ends h p) body))"
    using built_repeat_body [OF b] assms(2) by simp
  from close_loop [OF this assms(2) bounded_atoms refl] r show ?thesis by simp
qed

end
