(* ===== verification/LabProduct.thy ===== *)
theory LabProduct
  imports LabCorrect
begin

text \<open>
  The progress product of an unbounded repetition, and with it the correctness of
  \<^verbatim>\<open>compile_node\<close> and of \<^verbatim>\<open>CompiledRegex::new\<close>'s program: in the zero copy of the body nothing
  has been consumed and the accept state is the exit, in the consumed copy it is the loop entry.
\<close>

section \<open>What the import appends\<close>

text \<open>The instruction that \<^verbatim>\<open>translate_progress_inst\<close> computes, with the maps as functions.\<close>

fun product_inst :: "(nat \<Rightarrow> nat) \<Rightarrow> (nat \<Rightarrow> nat) \<Rightarrow> inst \<Rightarrow> inst" where
  "product_inst same cons IMatch = IMatch"
| "product_inst same cons (IByte x nxt) = IByte x (cons nxt)"
| "product_inst same cons (IAssertStart nxt) = IAssertStart (same nxt)"
| "product_inst same cons (IAssertEnd nxt) = IAssertEnd (same nxt)"
| "product_inst same cons (ISplit a b) = ISplit (same a) (same b)"

lemma translate_progress_inst_Inr:
  "translate_progress_inst i zm cm c = Inr i' \<Longrightarrow>
     i' = product_inst (\<lambda>t. (if c then cm else zm) ! t) (\<lambda>t. cm ! t) i"
  by (cases i) (auto elim!: rbindE)

lemma product_maps_Inr:
  assumes "product_maps lim al zc cc code (s, zm, cm) = Inr (s', zm', cm')" "IMatch \<notin> set code"
  shows "s' = s @ replicate (2 * length code) None"
    and "zm' = zm @ map (\<lambda>j. length s + 2 * j) [0..<length code]"
    and "cm' = cm @ map (\<lambda>j. length s + 2 * j + 1) [0..<length code]"
proof -
  have upt: "[0..<Suc m] = 0 # map Suc [0..<m]" for m
    by (simp add: upt_conv_Cons map_Suc_upt del: upt_Suc)
  have "s' = s @ replicate (2 * length code) None \<and>
    zm' = zm @ map (\<lambda>j. length s + 2 * j) [0..<length code] \<and>
    cm' = cm @ map (\<lambda>j. length s + 2 * j + 1) [0..<length code]"
    using assms
  proof (induction code arbitrary: s zm cm)
    case (Cons i code)
    then have "product_maps lim al zc cc code (s @ [None, None], zm @ [length s], cm @ [Suc (length s)])
        = Inr (s', zm', cm')"
      by (auto simp: push_Inr elim!: rbindE)
    from Cons.IH [OF this] Cons.prems(2) show ?case
      by (simp add: upt comp_def del: upt_Suc)
  qed simp
  then show "s' = s @ replicate (2 * length code) None"
    "zm' = zm @ map (\<lambda>j. length s + 2 * j) [0..<length code]"
    "cm' = cm @ map (\<lambda>j. length s + 2 * j + 1) [0..<length code]" by auto
qed

lemma product_patch_Inr:
  assumes "rfold (product_patch zm cm) (enumerate m code) (A @ replicate (2 * length code) None) = Inr s'"
    and "IMatch \<notin> set code"
    and "\<forall>j<length code. zm ! (m + j) = length A + 2 * j \<and> cm ! (m + j) = length A + 2 * j + 1"
  shows "s' = A @ map Some (concat (map (\<lambda>i. [product_inst ((!) zm) ((!) cm) i,
      product_inst ((!) cm) ((!) cm) i]) code))"
  using assms
proof (induction code arbitrary: m A)
  case (Cons i code)
  let ?z = "product_inst ((!) zm) ((!) cm) i" and ?c = "product_inst ((!) cm) ((!) cm) i"
  have m: "zm ! m = length A" "cm ! m = Suc (length A)" using Cons.prems(3) by (auto dest: spec [of _ 0])
  from Cons.prems(1,2) m
  have "rfold (product_patch zm cm) (enumerate (Suc m) code)
      ((A @ [Some ?z, Some ?c]) @ replicate (2 * length code) None) = Inr s'"
    by (auto simp: product_patch_def list_update_append dest!: translate_progress_inst_Inr elim!: rbindE)
  moreover have "\<forall>j<length code. zm ! (Suc m + j) = length (A @ [Some ?z, Some ?c]) + 2 * j \<and>
      cm ! (Suc m + j) = length (A @ [Some ?z, Some ?c]) + 2 * j + 1"
    using Cons.prems(3) by (auto dest: spec [of _ "Suc _"])
  ultimately show ?case using Cons.IH [of "Suc m" "A @ [Some ?z, Some ?c]"] Cons.prems(2) by simp
qed simp

lemma product_patch_IMatch: "product_patch zm cm (pc, IMatch) s = Inr s"
  by (simp add: product_patch_def)

lemma length_concat_pairs: "length (concat (map (\<lambda>i. [f i, g i]) xs)) = 2 * length xs"
  by (induction xs) auto

lemma nth_concat_pairs:
  "j < length xs \<Longrightarrow> concat (map (\<lambda>i. [f i, g i]) xs) ! (2 * j) = f (xs ! j)"
  "j < length xs \<Longrightarrow> concat (map (\<lambda>i. [f i, g i]) xs) ! (2 * j + 1) = g (xs ! j)"
  by (induction xs arbitrary: j; case_tac j; simp)+

text \<open>Where the two copies of a fragment state are.\<close>

definition zero_at :: "nat \<Rightarrow> nat \<Rightarrow> nat \<Rightarrow> nat" where
  "zero_at b k pc = (if pc = 0 then k else b + 2 * (pc - 1))"

definition cons_at :: "nat \<Rightarrow> nat \<Rightarrow> nat \<Rightarrow> nat" where
  "cons_at b l pc = (if pc = 0 then l else b + 2 * (pc - 1) + 1)"

definition product_code :: "nat \<Rightarrow> nat \<Rightarrow> nat \<Rightarrow> inst list \<Rightarrow> inst list" where
  "product_code b k l code = concat (map (\<lambda>i. [product_inst (zero_at b k) (cons_at b l) i,
     product_inst (cons_at b l) (cons_at b l) i]) code)"

lemma product_inst_cong:
  assumes "\<And>t. t \<in> set (targets i) \<Longrightarrow> f t = f' t \<and> g t = g' t"
  shows "product_inst f g i = product_inst f' g' i"
  using assms by (cases i) auto

lemma import_progress_product_Inr:
  assumes "import_progress_product lim al (IMatch # code) fe k l s = Inr r" "IMatch \<notin> set code"
    and targets: "\<And>i t. i \<in> set code \<Longrightarrow> t \<in> set (targets i) \<Longrightarrow> t \<le> length code"
    and fe: "fe \<le> length code"
  shows "r = (s @ map Some (product_code (length s) k l code), zero_at (length s) k fe)"
proof -
  let ?b = "length s"
  from assms(1) obtain s1 zm cm s2 where
    1: "product_maps lim al k l code (s, [k], [l]) = Inr (s1, zm, cm)"
    and 2: "rfold (product_patch zm cm) (enumerate (Suc 0) code) s1 = Inr s2"
    and r: "r = (s2, zm ! fe)"
    by (auto simp: import_progress_product_def product_patch_IMatch elim!: rbindE)
  note m = product_maps_Inr [OF 1 assms(2)]
  have z: "zm ! t = zero_at ?b k t" "cm ! t = cons_at ?b l t" if "t \<le> length code" for t
    using that by (cases t; simp add: m zero_at_def cons_at_def)+
  have "s2 = s @ map Some (concat (map (\<lambda>i. [product_inst ((!) zm) ((!) cm) i,
      product_inst ((!) cm) ((!) cm) i]) code))"
    by (rule product_patch_Inr [OF 2 [unfolded m(1)] assms(2)])
      (auto simp: z zero_at_def cons_at_def)
  also have "concat (map (\<lambda>i. [product_inst ((!) zm) ((!) cm) i, product_inst ((!) cm) ((!) cm) i]) code)
      = product_code ?b k l code"
    unfolding product_code_def
    by (rule concat_map_cong) (use targets z in \<open>auto intro!: product_inst_cong\<close>)
  finally show ?thesis using r z [OF fe] by simp
qed

section \<open>What the product computes\<close>

lemma succs_product_zero:
  "succs h (product_inst f g i) p = map (\<lambda>(t, q). (if q = p then f t else g t, q)) (succs h i p)"
  by (cases i) (auto simp: consume_def)

lemma succs_product_cons: "succs h (product_inst g g i) p = map (\<lambda>(t, q). (g t, q)) (succs h i p)"
  by (cases i) auto

lemma product_inst_IMatch: "product_inst f g i = IMatch \<longleftrightarrow> i = IMatch"
  by (cases i) auto

lemma epsilon_children_product: "epsilon_children (product_inst f g i) = map f (epsilon_children i)"
  by (cases i) auto

lemma targets_product: "set (targets (product_inst f g i)) \<subseteq> (f ` set (targets i)) \<union> (g ` set (targets i))"
  by (cases i) auto

text \<open>A program that contains both copies of the fragment \<open>IMatch # code\<close>.\<close>

definition has_product :: "inst list \<Rightarrow> nat \<Rightarrow> nat \<Rightarrow> nat \<Rightarrow> inst list \<Rightarrow> bool" where
  "has_product P b k l code \<longleftrightarrow> IMatch \<notin> set code \<and>
     (\<forall>pc. 0 < pc \<longrightarrow> pc \<le> length code \<longrightarrow>
        zero_at b k pc < length P \<and> cons_at b l pc < length P \<and>
        P ! zero_at b k pc = product_inst (zero_at b k) (cons_at b l) ((IMatch # code) ! pc) \<and>
        P ! cons_at b l pc = product_inst (cons_at b l) (cons_at b l) ((IMatch # code) ! pc))"

lemma fragment_match: "IMatch \<notin> set code \<Longrightarrow> pc \<le> length code \<Longrightarrow> (IMatch # code) ! pc = IMatch \<longleftrightarrow> pc = 0"
  by (cases pc) (auto, metis Suc_le_lessD nth_mem)

lemma follow_map:
  assumes "pc' < length P" "P ! pc' \<noteq> IMatch" "succs h (P ! pc') p = map (\<lambda>c. (\<mu> c, snd c)) cs"
    and "list_all2 (\<lambda>c es. paths P h (\<mu> c) (snd c) (concat (map K es))) cs ess"
  shows "paths P h pc' p (concat (map K (concat ess)))"
  using paths.follow [OF assms(1,2), of h p "map (\<lambda>es. concat (map K es)) ess"] assms(3,4)
  by (simp add: concat_map_concat comp_def list_all2_map1 list_all2_map2)

lemma paths_consumed:
  assumes "paths (IMatch # code) h pc p es" and P: "has_product P b k l code"
    and "p \<le> length h" "\<And>q. p \<le> q \<Longrightarrow> q \<le> length h \<Longrightarrow> paths P h l q (K q)"
  shows "paths P h (cons_at b l pc) p (concat (map K es))"
  using assms(1,3,4)
proof (induction rule: paths.induct)
  case (accept pc p)
  with P have "pc = 0" using fragment_match [of code pc] by (auto simp: has_product_def)
  with accept show ?case by (simp add: cons_at_def)
next
  case (follow pc p ess)
  with P have pc: "0 < pc" "pc \<le> length code"
    using fragment_match [of code pc] by (auto simp: has_product_def intro: Nat.gr0I)
  note Pc = P [unfolded has_product_def, THEN conjunct2, rule_format, OF pc]
  show ?case
  proof (rule follow_map [where \<mu> = "\<lambda>c. cons_at b l (fst c)"])
    show "succs h (P ! cons_at b l pc) p =
        map (\<lambda>c. (cons_at b l (fst c), snd c)) (succs h ((IMatch # code) ! pc) p)"
      using Pc by (simp add: succs_product_cons case_prod_beta')
    show "list_all2 (\<lambda>c es. paths P h (cons_at b l (fst c)) (snd c) (concat (map K es)))
        (succs h ((IMatch # code) ! pc) p) ess"
      using follow.IH
    proof (rule list.rel_mono_strong)
      fix c es
      assume c: "c \<in> set (succs h ((IMatch # code) ! pc) p)"
        and IH: "paths (IMatch # code) h (fst c) (snd c) es \<and> (snd c \<le> length h \<longrightarrow>
          (\<forall>q. snd c \<le> q \<longrightarrow> q \<le> length h \<longrightarrow> paths P h l q (K q)) \<longrightarrow>
          paths P h (cons_at b l (fst c)) (snd c) (concat (map K es)))"
      from succs_bounds [of "fst c" "snd c" h "(IMatch # code) ! pc" p] c follow.prems(1)
      have "p \<le> snd c" "snd c \<le> length h" by auto
      with IH follow.prems(2) show "paths P h (cons_at b l (fst c)) (snd c) (concat (map K es))"
        by (meson le_trans)
    qed
  qed (use Pc follow.hyps in \<open>auto simp: product_inst_IMatch\<close>)
qed

lemma paths_zero:
  assumes "paths (IMatch # code) h pc p es" and P: "has_product P b k l code"
    and "p \<le> length h" "paths P h k p (K p)" "\<And>q. p < q \<Longrightarrow> q \<le> length h \<Longrightarrow> paths P h l q (K q)"
  shows "paths P h (zero_at b k pc) p (concat (map K es))"
  using assms(1,3,4,5)
proof (induction rule: paths.induct)
  case (accept pc p)
  with P have "pc = 0" using fragment_match [of code pc] by (auto simp: has_product_def)
  with accept show ?case by (simp add: zero_at_def)
next
  case (follow pc p ess)
  with P have pc: "0 < pc" "pc \<le> length code"
    using fragment_match [of code pc] by (auto simp: has_product_def intro: Nat.gr0I)
  note Pc = P [unfolded has_product_def, THEN conjunct2, rule_format, OF pc]
  show ?case
  proof (rule follow_map [where \<mu> = "\<lambda>c. if snd c = p then zero_at b k (fst c) else cons_at b l (fst c)"])
    show "succs h (P ! zero_at b k pc) p =
        map (\<lambda>c. (if snd c = p then zero_at b k (fst c) else cons_at b l (fst c), snd c))
          (succs h ((IMatch # code) ! pc) p)"
      using Pc by (simp add: succs_product_zero case_prod_beta')
    show "list_all2 (\<lambda>c es. paths P h (if snd c = p then zero_at b k (fst c) else cons_at b l (fst c))
          (snd c) (concat (map K es))) (succs h ((IMatch # code) ! pc) p) ess"
      using follow.IH
    proof (rule list.rel_mono_strong)
      fix c es
      assume c: "c \<in> set (succs h ((IMatch # code) ! pc) p)"
        and IH: "paths (IMatch # code) h (fst c) (snd c) es \<and> (snd c \<le> length h \<longrightarrow>
          paths P h k (snd c) (K (snd c)) \<longrightarrow>
          (\<forall>q. snd c < q \<longrightarrow> q \<le> length h \<longrightarrow> paths P h l q (K q)) \<longrightarrow>
          paths P h (zero_at b k (fst c)) (snd c) (concat (map K es)))"
      from succs_bounds [of "fst c" "snd c" h "(IMatch # code) ! pc" p] c follow.prems(1)
      have b: "p \<le> snd c" "snd c \<le> length h" by auto
      show "paths P h (if snd c = p then zero_at b k (fst c) else cons_at b l (fst c)) (snd c)
          (concat (map K es))"
      proof (cases "snd c = p")
        case True
        with IH follow.prems b show ?thesis by auto
      next
        case False
        with b follow.prems(3) paths_consumed [OF conjunct1 [OF IH] P, of K] show ?thesis by auto
      qed
    qed
  qed (use Pc follow.hyps in \<open>auto simp: product_inst_IMatch\<close>)
qed

section \<open>Unbounded repetition\<close>

lemma has_product_agrees:
  assumes P: "agrees P (length s) (s @ map Some (product_code (length s) k l code))" and "IMatch \<notin> set code"
  shows "has_product P (length s) k l code"
  unfolding has_product_def
proof (intro conjI allI impI)
  fix pc assume pc: "0 < pc" "pc \<le> length code"
  then obtain j where j: "pc = Suc j" "j < length code" by (cases pc) auto
  have len: "length (product_code (length s) k l code) = 2 * length code"
    by (simp add: product_code_def length_concat_pairs)
  have n: "length s + i < length P \<and> P ! (length s + i) = product_code (length s) k l code ! i"
    if "i < 2 * length code" for i
    using agreesD [OF P, of "length s + i"] that len by (simp add: nth_append)
  show "zero_at (length s) k pc < length P" "cons_at (length s) l pc < length P"
    using n [of "2 * j"] n [of "2 * j + 1"] j by (auto simp: zero_at_def cons_at_def)
  show "P ! zero_at (length s) k pc = product_inst (zero_at (length s) k) (cons_at (length s) l) ((IMatch # code) ! pc)"
    using n [of "2 * j"] j nth_concat_pairs(1) [OF j(2)] by (simp add: zero_at_def product_code_def)
  show "P ! cons_at (length s) l pc = product_inst (cons_at (length s) l) (cons_at (length s) l) ((IMatch # code) ! pc)"
    using n [of "2 * j + 1"] j nth_concat_pairs(2) [OF j(2)] by (simp add: cons_at_def product_code_def)
qed (rule assms(2))

lemma has_productD:
  assumes "has_product P b k l code" "0 < pc" "pc \<le> length code"
  shows "zero_at b k pc < length P" "cons_at b l pc < length P"
    and "P ! zero_at b k pc = product_inst (zero_at b k) (cons_at b l) ((IMatch # code) ! pc)"
    and "P ! cons_at b l pc = product_inst (cons_at b l) (cons_at b l) ((IMatch # code) ! pc)"
  using assms unfolding has_product_def by blast+

lemma eacc_zero:
  assumes "eacc (IMatch # code) pc" and P: "has_product P b k l code" and k: "eacc P k"
  shows "eacc P (zero_at b k pc)"
  using assms(1)
proof (induction rule: eacc.induct)
  case (eacc pc)
  show ?case
  proof (cases "pc = 0")
    case False
    with eacc.hyps(1) have pc: "0 < pc" "pc \<le> length code" by auto
    note Pc = has_productD [OF P pc]
    show ?thesis
      by (rule eacc.intros [OF Pc(1)]) (use eacc.IH Pc(3) in \<open>auto simp: epsilon_children_product\<close>)
  qed (simp add: zero_at_def k)
qed

lemma eacc_cons:
  assumes "eacc (IMatch # code) pc" and P: "has_product P b k l code" and l: "eacc P l"
  shows "eacc P (cons_at b l pc)"
  using assms(1)
proof (induction rule: eacc.induct)
  case (eacc pc)
  show ?case
  proof (cases "pc = 0")
    case False
    with eacc.hyps(1) have pc: "0 < pc" "pc \<le> length code" by auto
    note Pc = has_productD [OF P pc]
    show ?thesis
      by (rule eacc.intros [OF Pc(2)]) (use eacc.IH Pc(4) in \<open>auto simp: epsilon_children_product\<close>)
  qed (simp add: cons_at_def l)
qed

lemma product_index:
  assumes "b \<le> pc" "pc < b + 2 * n"
  obtains j where "j < n" "pc = zero_at b k (Suc j)" | j where "j < n" "pc = cons_at b l (Suc j)"
proof (cases "even (pc - b)")
  case True
  then obtain j where "pc - b = 2 * j" by (rule evenE)
  with assms that(1) [of j] show thesis by (auto simp: zero_at_def)
next
  case False
  then obtain j where "pc - b = 2 * j + 1" by (rule oddE)
  with assms that(2) [of j] show thesis by (auto simp: cons_at_def)
qed

lemma built_product:
  assumes acc: "\<And>pc. pc \<le> length code \<Longrightarrow> eacc (IMatch # code) pc"
    and m: "IMatch \<notin> set code"
    and t: "\<And>i t. i \<in> set code \<Longrightarrow> t \<in> set (targets i) \<Longrightarrow> t \<le> length code"
    and fe: "fe \<le> length code" and kl: "k < length s" "l < length s"
    and sem: "\<And>h p. p \<le> length h \<Longrightarrow> paths (IMatch # code) h fe p (f h p)"
  shows "built2 s k l (s @ map Some (product_code (length s) k l code), zero_at (length s) k fe) f"
proof -
  let ?b = "length s" and ?s = "s @ map Some (product_code (length s) k l code)"
  have len: "length ?s = ?b + 2 * length code" by (simp add: product_code_def length_concat_pairs)
  have at: "zero_at ?b k pc < length ?s" "cons_at ?b l pc < length ?s" if "pc \<le> length code" for pc
    using that kl len by (auto simp: zero_at_def cons_at_def)
  have "extends2 s k l ?s"
  proof (rule extendsI [OF refl])
    fix P pc
    assume P: "agrees P ?b ?s" and k: "eacc P k" and l: "eacc P l" and pc: "?b \<le> pc" "pc < length ?s"
    note hp = has_product_agrees [OF P m]
    have "pc < ?b + 2 * length code" using pc(2) len by simp
    with pc(1) show "eacc P pc"
      by (rule product_index [where k = k and l = l])
        (use acc eacc_zero [OF _ hp k] eacc_cons [OF _ hp l] in auto)
  next
    fix i t' assume "i \<in> set (product_code ?b k l code)" and t': "t' \<in> set (targets i)"
    then obtain c f where c: "c \<in> set code" and i: "i = product_inst f (cons_at ?b l) c"
      and f: "f = zero_at ?b k \<or> f = cons_at ?b l" by (auto simp: product_code_def)
    from t' i targets_product [of f "cons_at ?b l" c] obtain u where "u \<in> set (targets c)"
      "t' = f u \<or> t' = cons_at ?b l u" by auto
    with t [OF c] at f show "t' < length ?s" by auto
  next
    fix i assume "i \<in> set (product_code ?b k l code)"
    with m show "i \<noteq> IMatch"
      by (auto simp: product_code_def product_inst_IMatch dest!: sym [of IMatch])
  qed
  moreover have "sem2 k l f P (zero_at ?b k fe)" if "agrees P ?b ?s" for P
    using has_product_agrees [OF that m] acc [OF fe] sem
    by (intro sem2I) (auto intro: eacc_zero paths_zero)
  ultimately show ?thesis using at(1) [OF fe] by (simp add: built2_def entry_ok_def)
qed

lemma collect_slots_Some: "collect_slots (map Some xs) = Inr xs"
  by (auto simp: collect_slots_def comp_def)

lemma fragment_facts:
  assumes "compile_ok cc f" "cc [Some IMatch] 0 d = Inr (fs, fe)"
  obtains code where "fs = Some IMatch # map Some code" "IMatch \<notin> set code"
    "\<And>i t. i \<in> set code \<Longrightarrow> t \<in> set (targets i) \<Longrightarrow> t \<le> length code" "fe \<le> length code"
    "\<And>pc. pc \<le> length code \<Longrightarrow> eacc (IMatch # code) pc"
    "\<And>h p. p \<le> length h \<Longrightarrow> paths (IMatch # code) h fe p (f h p)"
proof -
  have b: "built [Some IMatch] 0 (fs, fe) f" using compile_ok_built [OF assms] by simp
  then have x: "extends [Some IMatch] 0 fs" by (simp add: built2_def)
  then obtain code where c: "fs = [Some IMatch] @ map Some code" and m: "\<And>i. i \<in> set code \<Longrightarrow> i \<noteq> IMatch"
    and t: "\<And>i t. i \<in> set code \<Longrightarrow> t \<in> set (targets i) \<Longrightarrow> t < length fs"
    and e: "\<And>P pc. agrees P (length [Some IMatch]) fs \<Longrightarrow> eacc P 0 \<Longrightarrow> eacc P 0 \<Longrightarrow>
        length [Some IMatch] \<le> pc \<Longrightarrow> pc < length fs \<Longrightarrow> eacc P pc"
    by (rule extendsE) blast
  let ?F = "IMatch # code"
  have F: "agrees ?F (length [Some IMatch]) fs" using c by (auto simp: agrees_def nth_Cons')
  have z: "eacc ?F 0" by (rule eacc.intros) auto
  have "paths ?F h fe p (f h p)" if "p \<le> length h" for h p
  proof -
    have "sem 0 f ?F fe" using b F by (simp add: built2_def entry_ok_def)
    from semD [OF this that, of "\<lambda>q. [q]"] show ?thesis by (simp add: paths.accept)
  qed
  moreover have "eacc ?F pc" if "pc \<le> length code" for pc
    using e [OF F z z, of pc] z that c by (cases "pc = 0") auto
  ultimately show thesis using that [of code] c m t built_less [OF b] by (auto simp: less_Suc_eq_le)
qed

lemma built_star:
  assumes "compile_progress_star lim al cc g k d s = Inr r" "compile_ok cc f"
    and f: "\<And>h. bounded (length h) (f h)" and k: "k < length s"
  shows "built s k r (\<lambda>h. star_ends (length h) (f h) g)"
proof -
  from assms(1) obtain fs fe fi s1 b where 1: "cc [Some IMatch] 0 d = Inr (fs, fe)"
    and 2: "collect_slots fs = Inr fi"
    and 3: "import_progress_product lim al fi fe k (length s) (s @ [None]) = Inr (s1, b)"
    and r: "r = (s1[length s := Some (split_of g b k)], length s)"
    by (auto simp: compile_progress_star_def push_Inr elim!: rbindE)
  from assms(2) 1 obtain code where c: "fs = Some IMatch # map Some code" "IMatch \<notin> set code"
    "\<And>i t. i \<in> set code \<Longrightarrow> t \<in> set (targets i) \<Longrightarrow> t \<le> length code" "fe \<le> length code"
    and e: "\<And>pc. pc \<le> length code \<Longrightarrow> eacc (IMatch # code) pc"
    "\<And>h p. p \<le> length h \<Longrightarrow> paths (IMatch # code) h fe p (f h p)"
    by (rule fragment_facts) blast
  have fi: "fi = IMatch # code"
    using 2 collect_slots_Some [of "IMatch # code"] c(1) by simp
  have "built2 (s @ [None]) k (length s) (s1, b) f"
    using import_progress_product_Inr [OF 3 [unfolded fi] c(2-4)]
      built_product [OF e(1) c(2-4) _ _ e(2), where k = k and s = "s @ [None]" and l = "length s"] k
    by simp
  from close_loop [OF this k f refl] r show ?thesis by simp
qed

section \<open>Nodes\<close>

theorem compile_node_ok: "compile_ok (compile_node lim al a) (\<lambda>h. ends h a)"
proof (induction a)
  case (LConcat as)
  show ?case
  proof (rule compile_okI)
    fix s k d r assume "compile_node lim al (LConcat as) s k d = Inr r" "k < length s"
    then have "built s k r (\<lambda>h p. concat (map (\<lambda>p. [p])
        (seq_ends (map (\<lambda>f. f h) (rev (rev (map (\<lambda>a h. ends h a) as)))) p)))"
      using LConcat
      by (intro built_copies [where d = "d + 1" and ccs = "rev (map (compile_node lim al) as)"])
        (auto intro!: list_all2_rev list_all2_map_same built_id simp: bounded_ends elim!: rbindE)
    then show "built s k r (\<lambda>h. ends h (LConcat as))" by (simp add: comp_def)
  qed
next
  case (LAlt as)
  show ?case
  proof (rule compile_okI)
    fix s k d r assume "compile_node lim al (LAlt as) s k d = Inr r" "k < length s"
    then have "built s k r (\<lambda>h p. concat (map (\<lambda>f. f h p) (map (\<lambda>a h. ends h a) as)))"
      using LAlt
      by (intro built_choice [where lim = lim and al = al and er = EmptyAlternation and
            ccs = "map (\<lambda>child slots. child slots k (d + 1)) (map (compile_node lim al) as)"])
        (auto intro!: list_all2_map_same simp: comp_def intro: compile_ok_built elim!: rbindE)
    then show "built s k r (\<lambda>h. ends h (LAlt as))" by (simp add: comp_def)
  qed
next
  case (LRepetition a mn mx g)
  show ?case
  proof (rule compile_okI)
    fix s k d r assume r: "compile_node lim al (LRepetition a mn mx g) s k d = Inr r" and k: "k < length s"
    let ?tail = "\<lambda>h. case mx of None \<Rightarrow> star_ends (length h) (ends h a) g
      | Some m \<Rightarrow> opt_ends (ends h a) g (m - mn)"
    from r obtain r0 where 0: "(case mx of
         Some maximum \<Rightarrow> rbind (ok_or (usub maximum mn) InvalidRepeatRange) (\<lambda>optional.
           rfold (\<lambda>_. compile_optional lim al (compile_node lim al a) g (Suc d)) [0..<optional] (s, k))
       | None \<Rightarrow> compile_progress_star lim al (compile_node lim al a) g k (Suc d) s) = Inr r0"
      and 1: "rfold (\<lambda>_. compile_copy (compile_node lim al a) (Suc d)) [0..<mn] r0 = Inr r"
      by (auto simp: compile_repetition_def elim!: rbindE)
    have "built s k r0 ?tail"
    proof (cases mx)
      case None
      with 0 show ?thesis by (simp add: built_star [OF _ LRepetition bounded_ends k])
    next
      case (Some m)
      with 0 have "rfold (\<lambda>_. compile_optional lim al (compile_node lim al a) g (Suc d)) [0..<m - mn] (s, k) = Inr r0"
        by (auto elim!: rbindE)
      from built_optional [OF this LRepetition bounded_ends k] Some show ?thesis by simp
    qed
    from built_power [OF 1 LRepetition bounded_ends this]
    show "built s k r (\<lambda>h. ends h (LRepetition a mn mx g))" by simp
  qed
qed (auto intro!: compile_okI built_id built_repeat built_push sem_byte sem_assert_start sem_assert_end elim!: rbindE)

end
