(* ===== verification/LabOrder.thy ===== *)
theory LabOrder
  imports LabProduct
begin

text \<open>
  \<^verbatim>\<open>epsilon_order\<close> of \<^verbatim>\<open>compile.rs\<close> is a topological sort of the same-boundary edges: it succeeds
  exactly on acyclic programs, and then lists every state once, after all its same-boundary
  successors. With it, \<^verbatim>\<open>CompiledRegex::new\<close> never reports a cycle.
\<close>

section \<open>Recording the edges\<close>

lemma add_edge_Inr:
  "add_edge (u, c) (og, ps) = Inr r \<longleftrightarrow> u < length og \<and> og ! u + 1 \<le> usize_max \<and> c < length ps \<and>
     r = (og[u := og ! u + 1], ps[c := ps ! c @ [u]])"
  by (auto simp: add_edge_def rbind_eq_Inr)

lemma add_edges_Inr:
  assumes "rfold add_edge es (og, ps) = Inr (og', ps')"
  shows "length og' = length og \<and> length ps' = length ps \<and>
    (\<forall>v<length og. og' ! v = og ! v + count_list (map fst es) v) \<and>
    (\<forall>c<length ps. ps' ! c = ps ! c @ map fst (filter (\<lambda>e. snd e = c) es))"
  using assms
proof (induction es arbitrary: og ps)
  case (Cons e es)
  obtain u c where e: "e = (u, c)" by (cases e)
  from Cons.prems e have "u < length og" "c < length ps"
    and "rfold add_edge es (og[u := og ! u + 1], ps[c := ps ! c @ [u]]) = Inr (og', ps')"
    by (auto simp: add_edge_Inr elim!: rbindE)
  with Cons.IH [OF this(3)] e show ?case by (simp add: nth_list_update)
qed simp

lemma add_edges_total:
  assumes "\<forall>(u, c)\<in>set es. u < length og \<and> c < length ps"
    and "\<forall>v<length og. og ! v + count_list (map fst es) v \<le> usize_max"
  shows "\<exists>r. rfold add_edge es (og, ps) = Inr r"
  using assms
proof (induction es arbitrary: og ps)
  case (Cons e es)
  obtain u c where e: "e = (u, c)" by (cases e)
  from Cons.prems e have uc: "u < length og" "c < length ps" by auto
  from Cons.prems(2) uc e have "og ! u + 1 \<le> usize_max" by fastforce
  with uc e have 1: "add_edge e (og, ps) = Inr (og[u := og ! u + 1], ps[c := ps ! c @ [u]])"
    by (simp add: add_edge_Inr)
  have "\<exists>r. rfold add_edge es (og[u := og ! u + 1], ps[c := ps ! c @ [u]]) = Inr r"
    using Cons.prems e by (intro Cons.IH) (auto simp: nth_list_update)
  with 1 show ?case by simp
qed simp

definition ch :: "inst list \<Rightarrow> nat \<Rightarrow> nat list" where
  "ch P v = epsilon_children (P ! v)"

lemma edges_Nil: "edges [] = []"
  by (simp add: edges_def)

lemma edges_append: "edges (P @ [i]) = edges P @ map (Pair (length P)) (epsilon_children i)"
  by (simp add: edges_def enumerate_append_eq)

lemma count_list_Pair: "count_list (map fst (map (Pair u) xs)) v = (if u = v then length xs else 0)"
  by (induction xs) auto

lemma count_edges: "count_list (map fst (edges P)) v = (if v < length P then length (ch P v) else 0)"
proof (induction P rule: rev_induct)
  case (snoc i P)
  then show ?case
    using count_list_Pair [of "length P" "epsilon_children i" v]
    by (auto simp: edges_append ch_def nth_append)
qed (simp add: edges_Nil)

lemma count_parents:
  "count_list (map fst (filter (\<lambda>e. snd e = c) (edges P))) v =
     (if v < length P then count_list (ch P v) c else 0)"
proof -
  have "count_list (map fst (filter (\<lambda>e. snd e = c) (map (Pair u) xs))) v =
      (if u = v then count_list xs c else 0)" for u xs
    by (induction xs) auto
  then show ?thesis
    by (induction P rule: rev_induct) (auto simp: edges_append ch_def nth_append edges_Nil)
qed

lemma edges_in_range: "(u, c) \<in> set (edges P) \<longleftrightarrow> u < length P \<and> c \<in> set (ch P u)"
  by (induction P rule: rev_induct)
    (auto simp: edges_append ch_def nth_append edges_Nil less_Suc_eq)

section \<open>The worklist\<close>

lemma release_parent_Inr:
  "release_parent p (og, q) = Inr r \<longleftrightarrow> p < length og \<and> 0 < og ! p \<and>
     r = (og[p := og ! p - 1], if og ! p - 1 = 0 then q @ [p] else q)"
  by (auto simp: release_parent_def rbind_eq_Inr)

lemma release_parents_Inr:
  assumes "rfold release_parent ps (og, q) = Inr (og', q')"
  shows "length og' = length og \<and> (\<forall>v\<in>set ps. v < length og) \<and>
    (\<forall>v<length og. og' ! v + count_list ps v = og ! v) \<and>
    (\<exists>new. q' = q @ new \<and> distinct new \<and> set new = {v\<in>set ps. og' ! v = 0})"
  using assms
proof (induction ps arbitrary: og q)
  case (Cons p ps)
  then have p: "p < length og" "0 < og ! p"
    and rest: "rfold release_parent ps (og[p := og ! p - 1], if og ! p - 1 = 0 then q @ [p] else q) = Inr (og', q')"
    by (auto simp: release_parent_Inr simp del: One_nat_def elim!: rbindE)
  note IH = Cons.IH [OF rest]
  then obtain new where new: "q' = (if og ! p - 1 = 0 then q @ [p] else q) @ new" "distinct new"
    "set new = {v\<in>set ps. og' ! v = 0}" by auto
  have cnt: "og' ! v + count_list ps v = og[p := og ! p - 1] ! v" if "v < length og" for v
    using IH that by simp
  have eq: "og' ! p + count_list ps p = og ! p - 1" using cnt [OF p(1)] p by simp
  have "\<exists>new. q' = q @ new \<and> distinct new \<and> set new = {v\<in>set (p # ps). og' ! v = 0}"
  proof (cases "og ! p - 1 = 0")
    case True
    with eq have "p \<notin> set ps" "og' ! p = 0" by (auto simp: count_list_0_iff)
    then have "{v \<in> set (p # ps). og' ! v = 0} = insert p (set new)" unfolding new(3) by auto
    with new(1,2) True \<open>p \<notin> set ps\<close> show ?thesis by (intro exI [of _ "p # new"]) (simp add: new(3))
  next
    case False
    with eq have "p \<in> set ps \<or> og' ! p \<noteq> 0" by (cases "p \<in> set ps") auto
    then have "{v \<in> set (p # ps). og' ! v = 0} = set new" unfolding new(3) by auto
    with new(1,2) False show ?thesis by (intro exI [of _ new]) simp
  qed
  moreover have "og' ! v + count_list (p # ps) v = og ! v" if "v < length og" for v
    using cnt [OF that] p by (cases "v = p") auto
  ultimately show ?case using IH p by simp
qed simp

lemma release_parents_total:
  assumes "\<forall>v\<in>set ps. v < length og" "\<forall>v\<in>set ps. count_list ps v \<le> og ! v"
  shows "\<exists>r. rfold release_parent ps (og, q) = Inr r"
  using assms
proof (induction ps arbitrary: og q)
  case (Cons p ps)
  then have p: "p < length og" "0 < og ! p" by auto
  let ?q = "if og ! p - 1 = 0 then q @ [p] else q"
  have "release_parent p (og, q) = Inr (og[p := og ! p - 1], ?q)"
    using p by (simp add: release_parent_Inr)
  moreover have "\<exists>r. rfold release_parent ps (og[p := og ! p - 1], ?q) = Inr r"
    by (rule Cons.IH) (use Cons.prems p in \<open>auto simp: nth_list_update\<close>)
  ultimately show ?case by simp
qed simp

text \<open>
  The invariant: each counter is the number of edges to states that are not ordered yet, the
  states with counter zero are those ordered or queued, and the order is topological so far.
\<close>

definition open_edges :: "inst list \<Rightarrow> nat list \<Rightarrow> nat \<Rightarrow> nat" where
  "open_edges P order v = length (filter (\<lambda>c. c \<notin> set order) (ch P v))"

fun topological :: "inst list \<Rightarrow> nat list \<Rightarrow> nat list \<Rightarrow> bool" where
  "topological P seen [] = True"
| "topological P seen (v # vs) = (v < length P \<and> v \<notin> set seen \<and> set (ch P v) \<subseteq> set seen
     \<and> topological P (seen @ [v]) vs)"

lemma topological_append:
  "topological P seen (xs @ ys) \<longleftrightarrow> topological P seen xs \<and> topological P (seen @ xs) ys"
  by (induction xs arbitrary: seen) auto

definition kahn_inv :: "inst list \<Rightarrow> nat list \<Rightarrow> nat list \<Rightarrow> nat list \<Rightarrow> bool" where
  "kahn_inv P og q order \<longleftrightarrow> length og = length P \<and>
     (\<forall>v<length P. og ! v = open_edges P order v) \<and>
     distinct (order @ q) \<and> set (order @ q) = {v. v < length P \<and> og ! v = 0} \<and> topological P [] order"

lemma open_edges_snoc:
  "c \<notin> set order \<Longrightarrow> open_edges P order v = open_edges P (order @ [c]) v + count_list (ch P v) c"
proof -
  assume c: "c \<notin> set order"
  have "length (filter (\<lambda>x. x \<notin> set order) xs) =
      length (filter (\<lambda>x. x \<notin> set (order @ [c])) xs) + count_list xs c" for xs
    using c by (induction xs) auto
  then show ?thesis by (simp add: open_edges_def)
qed

lemma open_edges_0: "open_edges P order v = 0 \<longleftrightarrow> set (ch P v) \<subseteq> set order"
  by (auto simp: open_edges_def filter_empty_conv)

lemma kahn_step:
  assumes inv: "kahn_inv P og (c # q) order"
    and ps: "\<And>v. count_list ps v = (if v < length P then count_list (ch P v) c else 0)"
  shows "\<exists>og' q'. rfold release_parent ps (og, q) = Inr (og', q') \<and> kahn_inv P og' q' (order @ [c])"
proof -
  have len: "length og = length P" and og: "\<And>v. v < length P \<Longrightarrow> og ! v = open_edges P order v"
    and dist: "distinct (order @ c # q)" and set: "set (order @ c # q) = {v. v < length P \<and> og ! v = 0}"
    and top: "topological P [] order" using inv by (auto simp: kahn_inv_def)
  have c: "c < length P" "og ! c = 0" "c \<notin> set order" using set dist by auto
  have mem: "v < length P" if "v \<in> set ps" for v
    using that ps [of v] by (auto simp: count_list_0_iff split: if_splits)
  have "\<exists>r. rfold release_parent ps (og, q) = Inr r"
    using mem len og open_edges_snoc [OF c(3)] ps by (intro release_parents_total) auto
  then obtain og' q' where r: "rfold release_parent ps (og, q) = Inr (og', q')" by (metis prod.collapse)
  note R = release_parents_Inr [OF r]
  then obtain new where new: "q' = q @ new" "distinct new" "set new = {v\<in>set ps. og' ! v = 0}" by auto
  have og': "og' ! v = open_edges P (order @ [c]) v" if "v < length P" for v
    using R that len og [OF that] open_edges_snoc [OF c(3), of P v] ps [of v] by fastforce
  have dec: "og ! v = og' ! v + count_list ps v" if "v < length P" for v using R len that by simp
  have new_pos: "og ! v \<noteq> 0" if "v \<in> set ps" for v
    using dec [OF mem [OF that]] that by (auto simp: count_list_0_iff)
  have "kahn_inv P og' q' (order @ [c])"
    unfolding kahn_inv_def
  proof (intro conjI allI impI)
    show "length og' = length P" using R len by simp
    have "set new \<inter> set (order @ c # q) = {}" using new(3) unfolding set by (auto dest!: new_pos)
    then show "distinct ((order @ [c]) @ q')" using dist new(1,2) by auto
    show "set ((order @ [c]) @ q') = {v. v < length P \<and> og' ! v = 0}"
    proof (intro set_eqI iffI)
      fix v assume "v \<in> set ((order @ [c]) @ q')"
      then have "v \<in> set (order @ c # q) \<or> v \<in> set new" using new(1) by auto
      then show "v \<in> {v. v < length P \<and> og' ! v = 0}"
      proof
        assume "v \<in> set (order @ c # q)"
        then have "v < length P" "og ! v = 0" using set by auto
        with dec show ?thesis by simp
      next
        assume "v \<in> set new"
        with new(3) mem show ?thesis by simp
      qed
    next
      fix v assume v: "v \<in> {v. v < length P \<and> og' ! v = 0}"
      then show "v \<in> set ((order @ [c]) @ q')"
        using dec [of v] set new by (cases "v \<in> set ps") (auto simp: count_list_0_iff)
    qed
    show "topological P [] (order @ [c])"
      using top c og [OF c(1)] open_edges_0 [of P order c] by (auto simp: topological_append)
  qed (use og' in auto)
  with r show ?thesis by blast
qed

lemma epsilon_loop_Inr:
  assumes "kahn_inv P og q order" "length parents = length P"
    and "\<And>c v. c < length P \<Longrightarrow>
      count_list (parents ! c) v = (if v < length P then count_list (ch P v) c else 0)"
  shows "\<exists>order' og'. epsilon_loop parents og q order = Inr order' \<and> kahn_inv P og' [] order'"
  using assms
proof (induction parents og q order rule: epsilon_loop.induct)
  case (1 parents og order)
  then show ?case by (auto simp: epsilon_loop.simps)
next
  case (2 parents og c q order)
  have c: "c < length P" using "2.prems"(1) by (auto simp: kahn_inv_def)
  obtain og' q' where r: "rfold release_parent (parents ! c) (og, q) = Inr (og', q')"
    and inv: "kahn_inv P og' q' (order @ [c])"
    using kahn_step [OF "2.prems"(1), of "parents ! c"] "2.prems"(3) [OF c] by auto
  from "2.IH" [OF _ r refl inv "2.prems"(2,3)] c "2.prems"(2) r show ?case
    by (simp add: epsilon_loop.simps(2))
qed

section \<open>The order\<close>

definition closed_program :: "inst list \<Rightarrow> bool" where
  "closed_program P \<longleftrightarrow> (\<forall>i\<in>set P. \<forall>t\<in>set (targets i). t < length P)"

lemma closed_programD: "closed_program P \<Longrightarrow> pc < length P \<Longrightarrow> t \<in> set (targets (P ! pc)) \<Longrightarrow> t < length P"
  unfolding closed_program_def by (metis nth_mem)

lemma ch_in_range: "closed_program P \<Longrightarrow> v < length P \<Longrightarrow> c \<in> set (ch P v) \<Longrightarrow> c < length P"
  unfolding ch_def using closed_programD epsilon_children_targets by blast

lemma length_ch: "length (ch P v) \<le> 2"
  unfolding ch_def by (cases "P ! v") auto

text \<open>Every state once, after its same-boundary successors.\<close>

definition order_ok :: "inst list \<Rightarrow> nat list \<Rightarrow> bool" where
  "order_ok P order \<longleftrightarrow> distinct order \<and> set order = {..<length P} \<and> topological P [] order"

lemma epsilon_order_cases:
  assumes "closed_program P"
  obtains order og where "kahn_inv P og [] order"
    "epsilon_order P = (if length order \<noteq> length P then Inl SameBoundaryCycle else Inr order)"
proof -
  let ?n = "length P"
  have "\<exists>r. rfold add_edge (edges P) (replicate ?n 0, replicate ?n []) = Inr r"
    using ch_in_range [OF assms] order_trans [OF length_ch usize_max_ge]
    by (intro add_edges_total) (auto simp: edges_in_range count_edges)
  then obtain og parents where e: "rfold add_edge (edges P) (replicate ?n 0, replicate ?n []) = Inr (og, parents)"
    by (metis prod.collapse)
  note E = add_edges_Inr [OF e]
  let ?q = "filter (\<lambda>i. og ! i = 0) [0..<length og]"
  have og: "og ! v = open_edges P [] v" if "v < ?n" for v
    using E that by (simp add: count_edges open_edges_def)
  have "kahn_inv P og ?q []" using E og by (auto simp: kahn_inv_def)
  moreover have "count_list (parents ! c) v = (if v < ?n then count_list (ch P v) c else 0)" if "c < ?n" for c v
    using E that count_parents [of c P v] by simp
  ultimately obtain order og' where "epsilon_loop parents og ?q [] = Inr order" "kahn_inv P og' [] order"
    using epsilon_loop_Inr [of P og ?q "[]" parents] E by auto
  with that [of og' order] e show thesis by (simp add: epsilon_order_def)
qed

lemma kahn_inv_order_ok: "kahn_inv P og [] order \<Longrightarrow> length order = length P \<Longrightarrow> order_ok P order"
proof -
  assume inv: "kahn_inv P og [] order" and len: "length order = length P"
  then have "distinct order" "set order \<subseteq> {..<length P}" by (auto simp: kahn_inv_def)
  moreover from this len have "set order = {..<length P}"
    by (metis card_lessThan card_subset_eq distinct_card finite_lessThan)
  ultimately show ?thesis using inv by (simp add: order_ok_def kahn_inv_def)
qed

lemma epsilon_order_sound:
  assumes "closed_program P" "epsilon_order P = Inr order"
  shows "order_ok P order"
  using epsilon_order_cases [OF assms(1)] assms(2) kahn_inv_order_ok by (metis Inl_Inr_False Inr_inject)

lemma epsilon_order_complete:
  assumes "closed_program P" "\<And>pc. pc < length P \<Longrightarrow> eacc P pc"
  obtains order where "epsilon_order P = Inr order" "order_ok P order"
proof -
  obtain order og where inv: "kahn_inv P og [] order"
    and eq: "epsilon_order P = (if length order \<noteq> length P then Inl SameBoundaryCycle else Inr order)"
    by (rule epsilon_order_cases [OF assms(1)])
  have "v \<in> set order" if "eacc P v" for v
    using that
  proof (induction rule: eacc.induct)
    case (eacc pc)
    then have "open_edges P order pc = 0" by (auto simp: open_edges_0 ch_def)
    with eacc.hyps inv show ?case by (auto simp: kahn_inv_def)
  qed
  with assms(2) have "{..<length P} \<subseteq> set order" by auto
  moreover have "set order \<subseteq> {..<length P}" "distinct order" using inv by (auto simp: kahn_inv_def)
  ultimately have "length order = length P"
    by (metis card_lessThan distinct_card subset_antisym)
  with eq kahn_inv_order_ok [OF inv] that show thesis by simp
qed

end
