(* ===== verification/LabIterate.thy ===== *)
theory LabIterate
  imports LabOrder
begin

text \<open>
  \<^verbatim>\<open>crates/fre-iterator-lab/src/iterate.rs\<close>: the iteration shared by the executors. An executor
  passes a closure \<^verbatim>\<open>selected_at\<close>; here it is a function on a state (the closure's captured
  buffers) and the accounting. The outer loop may only be left by its own conditions, so it is a
  partial function, whose value \<open>None\<close> would mean that it does not return; that it returns is
  proved in the locale \<open>root_source\<close>, from what every executor's closure promises.

  The repeated-search oracle of \<^verbatim>\<open>oracle.rs\<close> runs the same loop with a table build before each
  search; \<open>prepare\<close> is that step, and does nothing for the candidates.
\<close>

type_synonym 'st run_state = "'st \<times> accounting"
type_synonym 'st selector_fun = "nat \<Rightarrow> 'st run_state \<Rightarrow> lab_error + (nat option \<times> 'st run_state)"

section \<open>The loops\<close>

text \<open>The inner loop: probe the starts from the cursor on.\<close>

fun probe_starts ::
    "compile_limits \<Rightarrow> 'st selector_fun \<Rightarrow> nat list \<Rightarrow> 'st run_state
     \<Rightarrow> lab_error + ((nat \<times> nat) option \<times> 'st run_state)" where
  "probe_starts l sel [] rs = Inr (None, rs)"
| "probe_starts l sel (start # starts) (st, acc) =
     rbind (charge_root acc (max_work l)) (\<lambda>acc.
     rbind (sel start (st, acc)) (\<lambda>(selected, rs).
     case selected of
       Some e \<Rightarrow> Inr (Some (start, e), rs)
     | None \<Rightarrow> probe_starts l sel starts rs))"

partial_function (option) iterate_loop ::
    "nat \<Rightarrow> compile_limits \<Rightarrow> ('st run_state \<Rightarrow> lab_error + 'st run_state) \<Rightarrow> 'st selector_fun
     \<Rightarrow> nat \<Rightarrow> nat option \<Rightarrow> (nat \<times> nat) list \<Rightarrow> 'st run_state
     \<Rightarrow> (lab_error + ((nat \<times> nat) list \<times> 'st run_state)) option" where
  "iterate_loop n l prepare sel cursor previous_end matches rs =
     (if \<not> cursor \<le> n then Some (Inr (matches, rs))
      else case prepare rs of
        Inl e \<Rightarrow> Some (Inl e)
      | Inr rs \<Rightarrow>
        (case probe_starts l sel [cursor..<n + 1] rs of
          Inl e \<Rightarrow> Some (Inl e)
        | Inr (found, rs) \<Rightarrow>
          (case found of
            None \<Rightarrow> Some (Inr (matches, rs))
          | Some span \<Rightarrow>
            if fst span = snd span \<and> previous_end = Some (fst span)
            then (case uadd (fst span) 1 of
                None \<Rightarrow> Some (Inr (matches, rs))
              | Some nxt \<Rightarrow> iterate_loop n l prepare sel nxt previous_end matches rs)
            else (case emit (snd rs) (max_output_matches l) of
                Inl e \<Rightarrow> Some (Inl e)
              | Inr acc \<Rightarrow> iterate_loop n l prepare sel (snd span) (Some (snd span))
                  (matches @ [span]) (fst rs, acc)))))"

definition collect_sequence ::
    "nat \<Rightarrow> compile_limits \<Rightarrow> 'st selector_fun \<Rightarrow> 'st run_state
     \<Rightarrow> (lab_error + ((nat \<times> nat) list \<times> 'st run_state)) option" where
  "collect_sequence n l sel rs = iterate_loop n l Inr sel 0 None [] rs"

text \<open>The reserved vector is empty; its capacity in bytes is returned.\<close>

definition reserve_output :: "allocator \<Rightarrow> nat \<Rightarrow> compile_limits \<Rightarrow> lab_error + nat" where
  "reserve_output al bounds l =
     (let capacity = min bounds (max_output_matches l) in
      rbind (checked_mul capacity size_of_span OutputBytes) (\<lambda>bytes.
      rbind (enforce bytes (max_output_bytes l) OutputBytes) (\<lambda>_.
      rbind (try_reserve al OutputBytes capacity) (\<lambda>_.
      Inr bytes))))"

record run_report =
  rep_matches :: "(nat \<times> nat) list"
  rep_accounting :: accounting

text \<open>
  A run may not return (\<open>None\<close>), fail, or return a value; \<open>returns R res Q\<close> says that it returns,
  and fails only with errors in \<open>R\<close>.
\<close>

definition then_run ::
    "lab_error + 'a \<Rightarrow> ('a \<Rightarrow> (lab_error + 'b) option) \<Rightarrow> (lab_error + 'b) option" where
  "then_run m f = (case m of Inl e \<Rightarrow> Some (Inl e) | Inr x \<Rightarrow> f x)"

definition report ::
    "(lab_error + ((nat \<times> nat) list \<times> 'st run_state)) option \<Rightarrow> (lab_error + run_report) option" where
  "report res = map_option (\<lambda>m. rbind m (\<lambda>(matches, st, acc).
     Inr \<lparr>rep_matches = matches, rep_accounting = acc\<rparr>)) res"

definition returns :: "(lab_error \<Rightarrow> bool) \<Rightarrow> (lab_error + 'a) option \<Rightarrow> ('a \<Rightarrow> bool) \<Rightarrow> bool" where
  "returns R res Q = (case res of None \<Rightarrow> False | Some m \<Rightarrow> safe R m Q)"

lemma returns_then_run: "returns R (then_run m f) Q = safe R m (\<lambda>x. returns R (f x) Q)"
  by (auto simp: returns_def then_run_def safe_def split: sum.split)

definition succeeds :: "(lab_error + 'a) option \<Rightarrow> ('a \<Rightarrow> bool) \<Rightarrow> bool" where
  "succeeds res Q = (case res of None \<Rightarrow> False | Some m \<Rightarrow> runs m Q)"

lemma succeeds_then_run: "succeeds (then_run m f) Q = runs m (\<lambda>x. succeeds (f x) Q)"
  by (auto simp: succeeds_def then_run_def runs_def split: sum.split)

section \<open>Accounting\<close>

text \<open>The total is the sum of the work categories, so no category can overflow before it.\<close>

definition acc_ok :: "accounting \<Rightarrow> bool" where
  "acc_ok acc \<longleftrightarrow> state_evaluations acc + transition_checks acc + root_probes acc + replay_steps acc
     = total_work acc"

text \<open>Every finished table build has evaluated a state; a build in progress may be one ahead.\<close>

definition builds_ahead :: "accounting \<Rightarrow> nat" where
  "builds_ahead acc = table_builds acc - state_evaluations acc"

text \<open>\<open>acc'\<close> differs from \<open>acc\<close> by at most \<open>c\<close> units of work, and not in the output counters.\<close>

definition worked :: "nat \<Rightarrow> accounting \<Rightarrow> accounting \<Rightarrow> bool" where
  "worked c acc acc' \<longleftrightarrow> acc_ok acc' \<and> total_work acc \<le> total_work acc' \<and> total_work acc' \<le> total_work acc + c
     \<and> output_work acc' = output_work acc \<and> builds_ahead acc' \<le> builds_ahead acc"

lemma worked_refl: "acc_ok acc \<Longrightarrow> worked c acc acc"
  by (simp add: worked_def)

lemma worked_trans: "worked c a b \<Longrightarrow> worked d b e \<Longrightarrow> worked (c + d) a e"
  by (auto simp: worked_def)

lemma worked_mono: "worked c a b \<Longrightarrow> c \<le> d \<Longrightarrow> worked d a b"
  by (auto simp: worked_def)

definition work_fits :: "compile_limits \<Rightarrow> accounting \<Rightarrow> nat \<Rightarrow> bool" where
  "work_fits l acc c \<longleftrightarrow> total_work acc + c \<le> max_work l \<and> max_work l \<le> usize_max"

lemma work_fits_after: "work_fits l acc (c + d) \<Longrightarrow> worked c acc acc' \<Longrightarrow> work_fits l acc' d"
  by (auto simp: work_fits_def worked_def)

lemma work_fits_mono: "work_fits l acc d \<Longrightarrow> c \<le> d \<Longrightarrow> work_fits l acc c"
  by (auto simp: work_fits_def)

abbreviation read_bytes :: "accounting \<Rightarrow> nat" where
  "read_bytes acc \<equiv> sequential_log_read_bytes acc"

lemma charge_fits:
  assumes "acc_ok acc" "work_fits l acc 1"
  shows "\<exists>acc'. charge_state acc (max_work l) = Inr acc' \<and> worked 1 acc acc' \<and> read_bytes acc' = read_bytes acc"
    and "\<exists>acc'. charge_transition acc (max_work l) = Inr acc' \<and> worked 1 acc acc' \<and> read_bytes acc' = read_bytes acc"
    and "\<exists>acc'. charge_root acc (max_work l) = Inr acc' \<and> worked 1 acc acc' \<and> read_bytes acc' = read_bytes acc"
    and "\<exists>acc'. charge_replay acc (max_work l) = Inr acc' \<and> worked 1 acc acc' \<and> read_bytes acc' = read_bytes acc"
  using assms
  by (auto simp: charge_state_def charge_transition_def charge_root_def charge_replay_def
      charge_total_def acc_ok_def worked_def work_fits_def builds_ahead_def)

lemma emit_fits:
  assumes "acc_ok acc" "Suc (output_work acc) \<le> m" "Suc (output_work acc) * size_of_span \<le> usize_max"
  obtains acc' where "emit acc m = Inr acc'" "acc_ok acc'" "total_work acc' = total_work acc"
    "output_work acc' = Suc (output_work acc)" "builds_ahead acc' = builds_ahead acc" "read_bytes acc' = read_bytes acc"
proof -
  let ?o = "Suc (output_work acc)"
  have "?o \<le> usize_max" using assms(3) by (simp add: size_of_span_def)
  then have "emit acc m = Inr (acc\<lparr>output_work := ?o, output_bytes := ?o * size_of_span\<rparr>)"
    using assms by (simp add: emit_def)
  with that assms(1) show thesis by (simp add: acc_ok_def builds_ahead_def)
qed

lemma emit_full:
  assumes "output_work acc = m" "m * size_of_span \<le> usize_max"
  shows "emit acc m = Inl (ResourceLimit OutputMatches (Suc m) m)"
proof -
  have "Suc m \<le> usize_max" using assms(2) by (cases m) (auto simp: size_of_span_def usize_max_def)
  with assms show ?thesis by (simp add: emit_def)
qed

text \<open>How a run that has emitted the spans \<open>its\<close> within the budget \<open>w\<close> ends.\<close>

definition run_result ::
    "nat \<Rightarrow> accounting \<Rightarrow> nat \<Rightarrow> (nat \<times> nat) list \<Rightarrow> (nat \<times> nat) list
     \<Rightarrow> (lab_error + ((nat \<times> nat) list \<times> 'st run_state)) option \<Rightarrow> bool" where
  "run_result mo acc w ms its res \<longleftrightarrow>
     (if output_work acc + length its \<le> mo
      then \<exists>st' acc'. res = Some (Inr (ms @ its, st', acc')) \<and> acc_ok acc' \<and>
        total_work acc' \<le> total_work acc + w \<and> output_work acc' = output_work acc + length its
      else res = Some (Inl (ResourceLimit OutputMatches (Suc mo) mo)))"

text \<open>
  How many more boundaries a run can touch: every start is probed at most twice, and the
  boundaries of the selected matches are counted the same way.
\<close>

definition budget :: "nat \<Rightarrow> nat \<Rightarrow> nat option \<Rightarrow> nat" where
  "budget n cursor prev = 2 * (n + 1 - cursor) - (if prev = Some cursor then 1 else 0)"

lemma budget_start: "budget n 0 None = 2 * Suc n"
  by (simp add: budget_def)

lemma budget_pos: "cursor \<le> n \<Longrightarrow> n + 1 - cursor \<le> budget n cursor prev \<and> 0 < budget n cursor prev"
  by (auto simp: budget_def)

lemma budget_skip:
  "cursor \<le> s \<Longrightarrow> s \<le> n \<Longrightarrow> (s + 1 - cursor) + budget n (Suc s) (Some s) \<le> budget n cursor (Some s)"
  by (auto simp: budget_def)

lemma budget_emit:
  "cursor \<le> s \<Longrightarrow> s \<le> e \<Longrightarrow> e \<le> n \<Longrightarrow> \<not> (s = e \<and> prev = Some s) \<Longrightarrow>
     (s + 1 - cursor) + budget n e (Some e) \<le> budget n cursor prev \<and>
     (e - s + 1) + budget n e (Some e) \<le> budget n cursor prev"
  by (auto simp: budget_def)

lemma budget_cost:
  fixes b q :: nat
  assumes "x + d \<le> B" "y + d \<le> B" "0 < x"
  shows "b + (x + q * y) + d * (1 + q + b) \<le> B * (1 + q + b)"
proof -
  have "b + (x + q * y) + d * (1 + q + b) \<le> b * x + x + q * y + d * (1 + q + b)"
    using assms(3) by simp
  also have "\<dots> = (x + d) + q * (y + d) + b * (x + d)" by (simp add: algebra_simps)
  also have "\<dots> \<le> B + q * B + b * B"
    using assms by (intro add_mono mult_le_mono) auto
  finally show ?thesis by (simp add: algebra_simps)
qed

section \<open>What an executor promises\<close>

text \<open>
  \<open>spec\<close> is the abstract selector. \<open>inv p st\<close> says that the closure's state can serve every
  position from \<open>p\<close> on, given how many bytes of its log it has read; \<open>inv0\<close> is what holds between searches, before a preparation. A successful selection costs at most \<open>q\<close> units of work for each
  boundary of its match, a preparation at most \<open>b\<close>.
\<close>

locale root_source = selector n spec for n :: nat and spec :: "nat \<Rightarrow> nat option" +
  fixes l :: compile_limits
    and prepare :: "'st run_state \<Rightarrow> lab_error + 'st run_state"
    and sel :: "'st selector_fun"
    and inv0 inv :: "nat \<Rightarrow> 'st \<Rightarrow> nat \<Rightarrow> bool" and q b :: nat
  assumes inv_mono: "inv p st rb \<Longrightarrow> p \<le> p' \<Longrightarrow> inv p' st rb"
    and inv0: "inv p st rb \<Longrightarrow> inv0 p st rb"
    and n_fits: "inv0 p st rb \<Longrightarrow> n < usize_max"
    and prepare_ok: "inv0 p st (read_bytes acc) \<Longrightarrow> acc_ok acc \<Longrightarrow> builds_ahead acc = 0 \<Longrightarrow> work_fits l acc b \<Longrightarrow>
      \<exists>st' acc'. prepare (st, acc) = Inr (st', acc') \<and> inv p st' (read_bytes acc') \<and> worked b acc acc'"
    and sel_None: "p \<le> n \<Longrightarrow> spec p = None \<Longrightarrow> inv p st (read_bytes acc) \<Longrightarrow> acc_ok acc \<Longrightarrow>
      \<exists>st' acc'. sel p (st, acc) = Inr (None, st', acc') \<and> inv p st' (read_bytes acc') \<and> worked 0 acc acc'"
    and sel_Some: "p \<le> n \<Longrightarrow> spec p = Some e \<Longrightarrow> inv p st (read_bytes acc) \<Longrightarrow> acc_ok acc \<Longrightarrow>
      work_fits l acc (q * (e - p + 1)) \<Longrightarrow>
      \<exists>st' acc'. sel p (st, acc) = Inr (Some e, st', acc') \<and> inv e st' (read_bytes acc') \<and> worked (q * (e - p + 1)) acc acc'"
begin

lemma probe_starts_ok:
  assumes "inv cursor st (read_bytes acc)" "acc_ok acc"
  shows "next_match n spec cursor = None \<Longrightarrow> work_fits l acc (n + 1 - cursor) \<Longrightarrow>
      \<exists>st' acc'. probe_starts l sel [cursor..<n + 1] (st, acc) = Inr (None, st', acc')
        \<and> worked (n + 1 - cursor) acc acc'"
    and "next_match n spec cursor = Some (s, e) \<Longrightarrow> work_fits l acc ((s + 1 - cursor) + q * (e - s + 1)) \<Longrightarrow>
      \<exists>st' acc'. probe_starts l sel [cursor..<n + 1] (st, acc) = Inr (Some (s, e), st', acc')
        \<and> inv e st' (read_bytes acc') \<and> worked ((s + 1 - cursor) + q * (e - s + 1)) acc acc'"
  using assms
proof (induction "n + 1 - cursor" arbitrary: cursor st acc)
  case 0
  case 1
  with 0 show ?case by (auto simp: worked_def)
next
  case 0
  case 2
  with 0 show ?case by (simp add: next_match_step [of n spec cursor])
next
  case (Suc m)
  then have c: "cursor \<le> n" by simp
  have m: "m = n + 1 - (cursor + 1)" using Suc.hyps(3) by simp
  from c have upt: "[cursor..<n + 1] = cursor # [cursor + 1..<n + 1]" by (simp add: upt_conv_Cons)
  {
    case 1
    with c have spec: "spec cursor = None" and rest: "next_match n spec (Suc cursor) = None"
      by (auto simp: next_match_step [of n spec cursor] split: option.splits)
    from 1 c obtain acc1 where a1: "charge_root acc (max_work l) = Inr acc1" "worked 1 acc acc1"
      "read_bytes acc1 = read_bytes acc"
      using charge_fits(3) [of acc l] by (metis Suc_diff_le Suc_eq_plus1 le_add1 work_fits_mono plus_1_eq_Suc)
    then obtain st2 acc2 where a2: "sel cursor (st, acc1) = Inr (None, st2, acc2)" "inv cursor st2 (read_bytes acc2)"
      "worked 0 acc1 acc2" using sel_None [OF c spec, of st acc1] 1 by (auto simp: worked_def)
    from worked_trans [OF a1(2) a2(3)] have w: "worked 1 acc acc2" by simp
    have "work_fits l acc2 (n + 1 - (cursor + 1))"
      using work_fits_after [OF _ w, of l "n - cursor"] 1 c by (simp add: Suc_diff_le)
    then obtain st3 acc3 where "probe_starts l sel [cursor + 1..<n + 1] (st2, acc2) = Inr (None, st3, acc3)"
      "worked (n + 1 - (cursor + 1)) acc2 acc3"
      using Suc.hyps(1) [OF m _ _ inv_mono [OF a2(2)]] rest w by (auto simp: worked_def simp del: upt_Suc)
    with a1 a2 worked_trans [OF w this(2)] c show ?case unfolding upt by (simp add: Suc_diff_le)
  next
    case 2
    from 2 have sb: "cursor \<le> s" "s \<le> e" "spec s = Some e" using next_match_bounds [OF 2(1)] by auto
    from 2 sb obtain acc1 where a1: "charge_root acc (max_work l) = Inr acc1" "worked 1 acc acc1"
      "read_bytes acc1 = read_bytes acc"
      using charge_fits(3) [of acc l] work_fits_mono [OF 2(2), of 1] by auto
    show ?case
    proof (cases "spec cursor")
      case None
      with 2 c have rest: "next_match n spec (Suc cursor) = Some (s, e)"
        by (simp add: next_match_step [of n spec cursor])
      then have s: "Suc cursor \<le> s" using next_match_bounds by blast
      obtain st2 acc2 where a2: "sel cursor (st, acc1) = Inr (None, st2, acc2)" "inv cursor st2 (read_bytes acc2)"
        "worked 0 acc1 acc2" using sel_None [OF c None, of st acc1] 2 a1 by (auto simp: worked_def)
      from worked_trans [OF a1(2) a2(3)] have w: "worked 1 acc acc2" by simp
      let ?w = "(s + 1 - (cursor + 1)) + q * (e - s + 1)"
      have eq: "(s + 1 - cursor) + q * (e - s + 1) = 1 + ?w" using s by simp
      have "work_fits l acc2 ?w"
        by (rule work_fits_after [OF 2(2) [unfolded eq] w])
      then obtain st3 acc3 where r: "probe_starts l sel [cursor + 1..<n + 1] (st2, acc2) = Inr (Some (s, e), st3, acc3)"
        "inv e st3 (read_bytes acc3)" "worked ?w acc2 acc3"
        using Suc.hyps(2) [OF m _ _ inv_mono [OF a2(2)]] rest w
        by (auto simp: worked_def simp del: upt_Suc)
      from worked_trans [OF w r(3)] have "worked ((s + 1 - cursor) + q * (e - s + 1)) acc acc3"
        unfolding eq .
      with a1 a2 r show ?thesis unfolding upt by simp
    next
      case (Some f)
      with 2 c have se: "s = cursor" "e = f" by (auto simp: next_match_step [of n spec cursor])
      have "work_fits l acc1 (q * (e - s + 1))"
        using work_fits_after [OF _ a1(2), of l] 2(2) se by simp
      then obtain st2 acc2 where a2: "sel cursor (st, acc1) = Inr (Some e, st2, acc2)" "inv e st2 (read_bytes acc2)"
        "worked (q * (e - s + 1)) acc1 acc2"
        using sel_Some [OF c, of e st acc1] Some se 2 a1 by (auto simp: worked_def)
      from worked_trans [OF a1(2) a2(3)] a1 a2 se show ?thesis unfolding upt by simp
    qed
  }
qed

lemma iterate_loop_ok:
  assumes "inv0 cursor st (read_bytes acc)" "acc_ok acc" "work_fits l acc (budget n cursor prev * (1 + q + b))"
    and "output_work acc \<le> max_output_matches l"
    and "min (max_output_matches l) (output_work acc + length (iter_seq n spec cursor prev)) * size_of_span
      \<le> usize_max"
    and "builds_ahead acc = 0"
  shows "run_result (max_output_matches l) acc (budget n cursor prev * (1 + q + b)) ms
    (iter_seq n spec cursor prev) (iterate_loop n l prepare sel cursor prev ms (st, acc))"
  using assms
proof (induction "budget n cursor prev" arbitrary: cursor prev ms st acc rule: less_induct)
  case less
  let ?mo = "max_output_matches l" and ?W = "1 + q + b"
  show ?case
  proof (cases "cursor \<le> n")
    case False
    then have "iter_seq n spec cursor prev = []"
      by (cases rule: iter_cases [of cursor prev]) auto
    with False less.prems show ?thesis
      by (simp add: run_result_def iterate_loop.simps [of n l prepare sel cursor])
  next
    case True
    note bp = budget_pos [OF True, of prev]
    have "b \<le> budget n cursor prev * ?W" using bp by (cases "budget n cursor prev") auto
    with less.prems obtain st1 acc1 where p: "prepare (st, acc) = Inr (st1, acc1)" "inv cursor st1 (read_bytes acc1)" "worked b acc acc1"
      using prepare_ok [of cursor st acc] work_fits_mono [OF less.prems(3)] by blast
    then have ok1: "acc_ok acc1" and out1: "output_work acc1 = output_work acc"
      and ba1: "builds_ahead acc1 = 0" using less.prems(6) by (auto simp: worked_def)
    show ?thesis
    proof (cases rule: iter_cases [of cursor prev])
      case none
      have w: "b + (n + 1 - cursor) \<le> budget n cursor prev * ?W"
        using budget_cost [of "n + 1 - cursor" 0 "budget n cursor prev" 0] bp True by simp
      have "work_fits l acc1 (n + 1 - cursor)"
        using work_fits_after [OF work_fits_mono [OF less.prems(3) w] p(3)] .
      then obtain st2 acc2 where "probe_starts l sel [cursor..<n + 1] (st1, acc1) = Inr (None, st2, acc2)"
        "worked (n + 1 - cursor) acc1 acc2"
        using probe_starts_ok(1) [OF p(2) ok1 none(1)] by blast
      with none p True less.prems(4) worked_mono [OF worked_trans [OF p(3) this(2)] w] show ?thesis
        by (auto simp: run_result_def worked_def iterate_loop.simps [of n l prepare sel cursor] simp del: upt_Suc)
    next
      case (skip s)
      let ?c = "s + 1 - cursor" and ?B = "budget n (Suc s) prev"
      have B: "?c + ?B \<le> budget n cursor prev" using budget_skip skip by simp
      have w: "b + (?c + q * (s - s + 1)) + ?B * ?W \<le> budget n cursor prev * ?W"
        by (rule budget_cost) (use B skip in auto)
      have f1: "work_fits l acc1 (?c + q * (s - s + 1) + ?B * ?W)"
        using work_fits_after [OF _ p(3)] work_fits_mono [OF less.prems(3) w] by (simp add: add.assoc)
      then obtain st2 acc2 where r: "probe_starts l sel [cursor..<n + 1] (st1, acc1) = Inr (Some (s, s), st2, acc2)"
        "inv s st2 (read_bytes acc2)" "worked (?c + q * (s - s + 1)) acc1 acc2"
        using probe_starts_ok(2) [OF p(2) ok1 skip(1)] work_fits_mono [OF f1] by auto
      note f2 = work_fits_after [OF f1 r(3)]
      have "uadd s 1 = Some (Suc s)" using skip n_fits [OF less.prems(1)] by simp
      with p r skip True have eq: "iterate_loop n l prepare sel cursor prev ms (st, acc) =
          iterate_loop n l prepare sel (Suc s) prev ms (st2, acc2)"
        by (simp add: iterate_loop.simps [of n l prepare sel cursor] del: upt_Suc)
      have o2: "acc_ok acc2" "output_work acc2 = output_work acc" "builds_ahead acc2 = 0"
        using r(3) out1 ba1 by (auto simp: worked_def)
      have "?B < budget n cursor prev" using B skip by simp
      from less.hyps [OF this _ o2(1) f2, of st2 ms] o2 skip less.prems(4,5) inv0 [OF inv_mono [OF r(2)]]
      have "run_result ?mo acc2 (?B * ?W) ms (iter_seq n spec cursor prev)
          (iterate_loop n l prepare sel (Suc s) prev ms (st2, acc2))" by simp
      then show ?thesis
        unfolding eq using o2 w worked_trans [OF p(3) r(3)] by (auto simp: run_result_def worked_def split: if_splits)
    next
      case (emit s e)
      let ?c = "s + 1 - cursor" and ?d = "e - s + 1" and ?B = "budget n e (Some e)"
      have B: "?c + ?B \<le> budget n cursor prev" "?d + ?B \<le> budget n cursor prev"
        using budget_emit [OF emit(3-5,2)] by auto
      have w: "b + (?c + q * ?d) + ?B * ?W \<le> budget n cursor prev * ?W"
        by (rule budget_cost) (use B emit in auto)
      have f1: "work_fits l acc1 (?c + q * ?d + ?B * ?W)"
        using work_fits_after [OF _ p(3)] work_fits_mono [OF less.prems(3) w] by (simp add: add.assoc)
      then obtain st2 acc2 where r: "probe_starts l sel [cursor..<n + 1] (st1, acc1) = Inr (Some (s, e), st2, acc2)"
        "inv e st2 (read_bytes acc2)" "worked (?c + q * ?d) acc1 acc2"
        using probe_starts_ok(2) [OF p(2) ok1 emit(1)] work_fits_mono [OF f1] by auto
      have o2: "acc_ok acc2" "output_work acc2 = output_work acc" "builds_ahead acc2 = 0"
        using r(3) out1 ba1 by (auto simp: worked_def)
      let ?rest = "iter_seq n spec (if s = e then Suc s else e) (Some e)"
      have rest: "iter_seq n spec e (Some e) = ?rest"
        using emit(6) iter_seq_unfold [of e "Some e"] next_match_step [of n spec e] emit(5)
        by (cases "s = e") auto
      show ?thesis
      proof (cases "output_work acc < ?mo")
        case False
        with less.prems(4) have full: "output_work acc2 = ?mo" using o2 by simp
        have "?mo * size_of_span \<le> usize_max" using less.prems(5) full o2 by (simp add: min_def)
        from emit_full [OF full this] p r emit True False show ?thesis
          by (auto simp: run_result_def iterate_loop.simps [of n l prepare sel cursor] simp del: upt_Suc)
      next
        case out: True
        have "Suc (output_work acc2) * size_of_span \<le> usize_max"
          using order_trans [OF mult_le_mono1 [of "Suc (output_work acc)"] less.prems(5)] out o2 emit(7)
          by simp
        then obtain acc3 where a3: "emit acc2 ?mo = Inr acc3" "acc_ok acc3" "total_work acc3 = total_work acc2"
          "output_work acc3 = Suc (output_work acc)" "builds_ahead acc3 = 0" "read_bytes acc3 = read_bytes acc2"
          using emit_fits [OF o2(1), of ?mo] out o2 by (metis Suc_leI)
        have f3: "work_fits l acc3 (?B * ?W)"
          using work_fits_after [OF f1 r(3)] a3(3) by (simp add: work_fits_def)
        have eq: "iterate_loop n l prepare sel cursor prev ms (st, acc) =
            iterate_loop n l prepare sel e (Some e) (ms @ [(s, e)]) (st2, acc3)"
          using p r emit a3 True
          by (auto simp: iterate_loop.simps [of n l prepare sel cursor] simp del: upt_Suc)
        have lt: "?B < budget n cursor prev" using B by simp
        have "run_result ?mo acc3 (?B * ?W) (ms @ [(s, e)]) ?rest
            (iterate_loop n l prepare sel e (Some e) (ms @ [(s, e)]) (st2, acc3))"
          unfolding rest [symmetric]
        proof (rule less.hyps [OF lt inv0 [OF r(2) [folded a3(6)]] a3(2) f3 _ _ a3(5)])
          show "output_work acc3 \<le> ?mo" using a3(4) out by simp
          show "min ?mo (output_work acc3 + length (iter_seq n spec e (Some e))) * size_of_span \<le> usize_max"
            unfolding rest using less.prems(5) a3(4) emit(7) by simp
        qed
        then show ?thesis
          unfolding eq using a3 o2 w worked_trans [OF p(3) r(3)] emit(7)
          by (auto simp: run_result_def worked_def split: if_splits)
      qed
    qed
  qed
qed

end

end
