(* ===== verification/LabRow.thy ===== *)
theory LabRow
  imports LabIterate
begin

text \<open>
  One row of the suffix computation that the table and log executors share: at a fixed boundary
  every program state gets the encoded end of its first path, in same-boundary order, from the
  values of its successors at this boundary and at the next one. The locale \<open>row_step\<close> states
  what one turn of an executor's inner loop promises, \<open>row_log\<close> adds the recorded branch
  decision; both give the correctness of the whole row.
\<close>

section \<open>Cells\<close>

definition enc :: "nat list \<Rightarrow> nat" where
  "enc es = (case first_of es of None \<Rightarrow> 0 | Some e \<Rightarrow> Suc e)"

lemma enc_simps [simp]: "enc [] = 0" "enc (e # es) = Suc e"
  by (simp_all add: enc_def)

lemma enc_eq_0 [simp]: "enc es = 0 \<longleftrightarrow> es = []"
  by (cases es) auto

lemma enc_append: "enc (es @ fs) = (if enc es \<noteq> 0 then enc es else enc fs)"
  by (cases es) auto

fun cell_value :: "bytes \<Rightarrow> inst \<Rightarrow> nat \<Rightarrow> (nat \<Rightarrow> nat) \<Rightarrow> (nat \<Rightarrow> nat) \<Rightarrow> nat" where
  "cell_value h IMatch p same nxt = Suc p"
| "cell_value h (IByte x t) p same nxt = (if p < length h \<and> byte_ok x (h ! p) then nxt t else 0)"
| "cell_value h (IAssertStart t) p same nxt = (if p = 0 then same t else 0)"
| "cell_value h (IAssertEnd t) p same nxt = (if p = length h then same t else 0)"
| "cell_value h (ISplit a b) p same nxt = (if same a \<noteq> 0 then same a else same b)"

inductive_cases paths_cases: "paths P h pc p es"

lemma paths_succs:
  assumes "paths P h pc p es"
  shows "pc < length P \<and> (if P ! pc = IMatch then es = [p] else
    \<exists>ess. es = concat ess \<and> list_all2 (\<lambda>c es. paths P h (fst c) (snd c) es) (succs h (P ! pc) p) ess)"
  using assms by (cases rule: paths.cases) auto

lemma cell_value_enc:
  assumes "paths P h pc p es"
    and same: "\<And>c es. c \<in> set (ch P pc) \<Longrightarrow> paths P h c p es \<Longrightarrow> same c = enc es"
    and nxt: "\<And>t es. t \<in> set (targets (P ! pc)) \<Longrightarrow> p < length h \<Longrightarrow> paths P h t (Suc p) es \<Longrightarrow> nxt t = enc es"
  shows "cell_value h (P ! pc) p same nxt = enc es"
proof (cases "P ! pc")
  case IMatch
  with paths_succs [OF assms(1)] show ?thesis by simp
next
  case (IByte x t)
  with paths_succs [OF assms(1)] nxt [of t es] show ?thesis
    by (auto simp: consume_def list_all2_Cons1 split: if_splits)
next
  case (IAssertStart t)
  with paths_succs [OF assms(1)] same [of t es] show ?thesis
    by (auto simp: ch_def list_all2_Cons1 split: if_splits)
next
  case (IAssertEnd t)
  with paths_succs [OF assms(1)] same [of t es] show ?thesis
    by (auto simp: ch_def list_all2_Cons1 split: if_splits)
next
  case (ISplit a b)
  with paths_succs [OF assms(1)] obtain es1 es2 where "es = es1 @ es2" "paths P h a p es1" "paths P h b p es2"
    by (auto simp: list_all2_Cons1)
  with same [of a es1] same [of b es2] ISplit show ?thesis by (simp add: ch_def enc_append)
qed

lemma cell_value_cong:
  "(\<And>c. c \<in> set (epsilon_children i) \<Longrightarrow> f c = g c) \<Longrightarrow> cell_value h i p f nxt = cell_value h i p g nxt"
  by (cases i) auto

section \<open>The work of a row\<close>

definition inst_cost :: "inst \<Rightarrow> nat" where
  "inst_cost i = 1 + inst_transitions i"

definition build_cost :: "inst list \<Rightarrow> nat" where
  "build_cost P = sum_list (map inst_cost P)"

lemma build_cost_order:
  assumes "order_ok P order"
  shows "sum_list (map (\<lambda>pc. inst_cost (P ! pc)) order) = build_cost P"
proof -
  have "sum_list (map (\<lambda>pc. inst_cost (P ! pc)) order) = sum (\<lambda>pc. inst_cost (P ! pc)) {..<length P}"
    using assms by (simp add: order_ok_def sum_list_distinct_conv_sum_set)
  also have "\<dots> = build_cost P"
    by (simp add: build_cost_def sum_list_sum_nth atLeast0LessThan)
  finally show ?thesis .
qed

lemma maximum_build_work_Inr:
  assumes "maximum_build_work r bounds = Inr w"
  shows "w = build_cost (cr_insts r) * bounds"
proof -
  have "rfold (\<lambda>i sum. rbind (checked_add 1 (inst_transitions i) Work) (\<lambda>t. checked_add sum t Work)) is s = Inr t
      \<Longrightarrow> t = s + build_cost is" for "is" s t
    by (induction "is" arbitrary: s) (fastforce simp: build_cost_def inst_cost_def elim!: rbindE)+
  with assms show ?thesis by (force simp: maximum_build_work_def elim!: rbindE)
qed

lemma topological_fresh: "topological P seen vs \<Longrightarrow> v \<in> set seen \<Longrightarrow> v \<notin> set vs"
  by (induction vs arbitrary: seen) fastforce+

section \<open>One row\<close>

locale row_step =
  fixes P :: "inst list" and h :: bytes and p :: nat and l :: compile_limits
    and stepf :: "nat \<Rightarrow> 'st run_state \<Rightarrow> lab_error + 'st run_state"
    and good :: "'st \<Rightarrow> bool" and cell nxt :: "'st \<Rightarrow> nat \<Rightarrow> nat"
  assumes step_ok: "pc < length P \<Longrightarrow> good st \<Longrightarrow> acc_ok acc \<Longrightarrow> work_fits l acc (inst_cost (P ! pc)) \<Longrightarrow>
    \<exists>st' acc'. stepf pc (st, acc) = Inr (st', acc') \<and> good st' \<and> nxt st' = nxt st
      \<and> cell st' = (cell st)(pc := cell_value h (P ! pc) p (cell st) (nxt st))
      \<and> worked (inst_cost (P ! pc)) acc acc'"
begin

definition row_done :: "nat list \<Rightarrow> 'st \<Rightarrow> bool" where
  "row_done seen st \<longleftrightarrow> (\<forall>c es. c \<in> set seen \<longrightarrow> paths P h c p es \<longrightarrow> cell st c = enc es)"

lemma row_ok:
  assumes "topological P seen vs" "good st" "acc_ok acc" "row_done seen st"
    and "work_fits l acc (sum_list (map (\<lambda>pc. inst_cost (P ! pc)) vs))"
    and nxt: "\<And>t es. p < length h \<Longrightarrow> paths P h t (Suc p) es \<Longrightarrow> nxt st t = enc es"
  shows "\<exists>st' acc'. rfold stepf vs (st, acc) = Inr (st', acc') \<and> good st' \<and> nxt st' = nxt st
    \<and> row_done (seen @ vs) st' \<and> (\<forall>c\<in>set seen. cell st' c = cell st c)
    \<and> worked (sum_list (map (\<lambda>pc. inst_cost (P ! pc)) vs)) acc acc'"
  using assms
proof (induction vs arbitrary: seen st acc)
  case Nil
  then show ?case by (simp add: worked_def)
next
  case (Cons v vs)
  from Cons.prems(1) have v: "v < length P" "v \<notin> set seen" "set (ch P v) \<subseteq> set seen"
    and rest: "topological P (seen @ [v]) vs" by auto
  have "work_fits l acc (inst_cost (P ! v))" using Cons.prems(5) by (auto simp: work_fits_def)
  with step_ok [OF v(1) Cons.prems(2,3)] obtain st1 acc1 where 1: "stepf v (st, acc) = Inr (st1, acc1)"
    "good st1" "nxt st1 = nxt st" "cell st1 = (cell st)(v := cell_value h (P ! v) p (cell st) (nxt st))"
    "worked (inst_cost (P ! v)) acc acc1" by blast
  have "row_done (seen @ [v]) st1"
    unfolding row_done_def
  proof (intro allI impI)
    fix c es assume c: "c \<in> set (seen @ [v])" "paths P h c p es"
    show "cell st1 c = enc es"
    proof (cases "c = v")
      case True
      have "cell_value h (P ! v) p (cell st) (nxt st) = enc es"
        by (rule cell_value_enc [OF c(2) [unfolded True]])
          (use Cons.prems(4,6) v(3) in \<open>auto simp: row_done_def\<close>)
      with 1(4) True show ?thesis by simp
    next
      case False
      with c Cons.prems(4) 1(4) show ?thesis by (simp add: row_done_def)
    qed
  qed
  moreover have "work_fits l acc1 (sum_list (map (\<lambda>pc. inst_cost (P ! pc)) vs))"
    using work_fits_after [OF _ 1(5)] Cons.prems(5) by simp
  moreover have "acc_ok acc1" using 1(5) by (simp add: worked_def)
  ultimately obtain st2 acc2 where 2: "rfold stepf vs (st1, acc1) = Inr (st2, acc2)" "good st2" "nxt st2 = nxt st1"
    "row_done ((seen @ [v]) @ vs) st2" "\<forall>c\<in>set (seen @ [v]). cell st2 c = cell st1 c"
    "worked (sum_list (map (\<lambda>pc. inst_cost (P ! pc)) vs)) acc1 acc2"
    using Cons.IH [OF rest 1(2)] Cons.prems(6) 1(3) by (metis (no_types, lifting))
  have "\<forall>c\<in>set seen. cell st2 c = cell st c" using 2(5) 1(4) v(2) by auto
  with 1 2 worked_trans [OF 1(5) 2(6)] show ?case by simp
qed

lemma whole_row_ok:
  assumes "order_ok P order" "good st" "acc_ok acc" "work_fits l acc (build_cost P)"
    and "\<And>t es. p < length h \<Longrightarrow> paths P h t (Suc p) es \<Longrightarrow> nxt st t = enc es"
  shows "\<exists>st' acc'. rfold stepf order (st, acc) = Inr (st', acc') \<and> good st' \<and> nxt st' = nxt st
    \<and> (\<forall>c es. paths P h c p es \<longrightarrow> cell st' c = enc es) \<and> worked (build_cost P) acc acc'"
proof -
  have "row_done [] st" by (simp add: row_done_def)
  then obtain st' acc' where r: "rfold stepf order (st, acc) = Inr (st', acc')" "good st'" "nxt st' = nxt st"
    "row_done ([] @ order) st'" "worked (build_cost P) acc acc'"
    using row_ok [of "[]" order st acc] assms build_cost_order [OF assms(1)] by (auto simp: order_ok_def)
  have "cell st' c = enc es" if "paths P h c p es" for c es
    using r(4) that paths_succs [OF that] assms(1) by (auto simp: row_done_def order_ok_def)
  with r show ?thesis by blast
qed

end

text \<open>With a log: the decision of a split is whether its preferred branch has a path.\<close>

locale row_log = row_step P h p l stepf good cell nxt
  for P :: "inst list" and h :: bytes and p :: nat and l :: compile_limits
    and stepf :: "nat \<Rightarrow> 'st run_state \<Rightarrow> lab_error + 'st run_state"
    and good :: "'st \<Rightarrow> bool" and cell nxt :: "'st \<Rightarrow> nat \<Rightarrow> nat" +
  fixes dec :: "'st \<Rightarrow> nat \<Rightarrow> bool"
  assumes step_dec: "pc < length P \<Longrightarrow> good st \<Longrightarrow> acc_ok acc \<Longrightarrow> work_fits l acc (inst_cost (P ! pc)) \<Longrightarrow>
      stepf pc (st, acc) = Inr (st', acc') \<Longrightarrow>
      dec st' = (case P ! pc of ISplit a b \<Rightarrow> (dec st)(pc := dec st pc \<or> cell st a \<noteq> 0) | _ \<Rightarrow> dec st)"
begin

lemma row_dec:
  assumes "topological P seen vs" "good st" "acc_ok acc" "row_done seen st"
    and "work_fits l acc (sum_list (map (\<lambda>pc. inst_cost (P ! pc)) vs))"
    and nxt: "\<And>t es. p < length h \<Longrightarrow> paths P h t (Suc p) es \<Longrightarrow> nxt st t = enc es"
    and "rfold stepf vs (st, acc) = Inr (st', acc')"
  shows "(\<forall>pc a b. pc \<in> set vs \<longrightarrow> P ! pc = ISplit a b \<longrightarrow> dec st' pc = (dec st pc \<or> cell st' a \<noteq> 0))
    \<and> (\<forall>pc. pc \<notin> set vs \<longrightarrow> dec st' pc = dec st pc)"
  using assms
proof (induction vs arbitrary: seen st acc)
  case (Cons v vs)
  from Cons.prems(1) have v: "v < length P" "v \<notin> set seen" "set (ch P v) \<subseteq> set seen"
    and rest: "topological P (seen @ [v]) vs" by auto
  have f0: "work_fits l acc (inst_cost (P ! v))" using Cons.prems(5) by (auto simp: work_fits_def)
  with step_ok [OF v(1) Cons.prems(2,3)] obtain st1 acc1 where 1: "stepf v (st, acc) = Inr (st1, acc1)"
    "good st1" "nxt st1 = nxt st" "cell st1 = (cell st)(v := cell_value h (P ! v) p (cell st) (nxt st))"
    "worked (inst_cost (P ! v)) acc acc1" by blast
  have d1: "row_done (seen @ [v]) st1"
    using row_ok [of seen "[v]" st acc] Cons.prems(1-4,6) 1 f0 v by auto
  have f1: "work_fits l acc1 (sum_list (map (\<lambda>pc. inst_cost (P ! pc)) vs))"
    using work_fits_after [OF _ 1(5)] Cons.prems(5) by simp
  have a1: "acc_ok acc1" using 1(5) by (simp add: worked_def)
  have r: "rfold stepf vs (st1, acc1) = Inr (st', acc')" using Cons.prems(7) 1(1) by simp
  note IH = Cons.IH [OF rest 1(2) a1 d1 f1 _ r] Cons.prems(6)
  have nxt1: "\<And>t es. p < length h \<Longrightarrow> paths P h t (Suc p) es \<Longrightarrow> nxt st1 t = enc es"
    using Cons.prems(6) 1(3) by simp
  have keep: "cell st' c = cell st1 c" if "c \<in> set (seen @ [v])" for c
    using row_ok [OF rest 1(2) a1 d1 f1 nxt1] r that by auto
  note step = step_dec [OF v(1) Cons.prems(2,3) f0 1(1)]
  have vs: "v \<notin> set vs" using rest topological_fresh by fastforce
  have at_v: "dec st' v = (dec st v \<or> cell st' a \<noteq> 0)" if "P ! v = ISplit a b" for a b
  proof -
    have a: "a \<in> set seen" using v(3) that by (simp add: ch_def)
    then have "cell st' a = cell st a" using keep 1(4) v(2) by auto
    with IH(1) [OF nxt1] vs step that show ?thesis by simp
  qed
  have other: "dec st1 pc = dec st pc" if "pc \<noteq> v" for pc
    using step that by (auto split: inst.splits)
  show ?case
  proof (intro conjI allI impI)
    fix pc a b assume "pc \<in> set (v # vs)" "P ! pc = ISplit a b"
    then show "dec st' pc = (dec st pc \<or> cell st' a \<noteq> 0)"
      using at_v IH(1) [OF nxt1] other [of pc] by (cases "pc = v") auto
  next
    fix pc assume "pc \<notin> set (v # vs)"
    then show "dec st' pc = dec st pc" using IH(1) [OF nxt1] other [of pc] by simp
  qed
qed simp

lemma whole_row_dec:
  assumes "order_ok P order" "good st" "acc_ok acc" "work_fits l acc (build_cost P)"
    and "\<And>t es. p < length h \<Longrightarrow> paths P h t (Suc p) es \<Longrightarrow> nxt st t = enc es"
    and "rfold stepf order (st, acc) = Inr (st', acc')" "dec st = (\<lambda>_. False)"
    and "pc < length P" "P ! pc = ISplit a b" "paths P h a p es"
  shows "dec st' pc \<longleftrightarrow> es \<noteq> []"
proof -
  have "dec st' pc = (cell st' a \<noteq> 0)"
    using row_dec [of "[]" order st acc st' acc'] assms build_cost_order [OF assms(1)]
    by (auto simp: order_ok_def row_done_def)
  moreover have "cell st' a = enc es" using whole_row_ok [OF assms(1-5)] assms(6,10) by auto
  ultimately show ?thesis by simp
qed

end

end
