(* ===== verification/LabCompiled.thy ===== *)
theory LabCompiled
  imports LabRow
begin

text \<open>
  What \<^verbatim>\<open>CompiledRegex::new\<close> guarantees of the compiled regex: the invariant every executor
  relies on, and the meaning of its entry.
\<close>

section \<open>Split ranks\<close>

definition rank_of :: "inst list \<Rightarrow> nat \<Rightarrow> nat" where
  "rank_of P pc = length (filter is_split (take pc P))"

lemma rank_split_Inr:
  "rank_split i (c, rs) = Inr r \<longleftrightarrow>
     (if is_split i then Suc c \<le> usize_max \<and> r = (Suc c, rs @ [Some c]) else r = (c, rs @ [None]))"
  by (auto simp: rank_split_def rbind_eq_Inr)

lemma rank_splits:
  assumes "rfold rank_split is (length (filter is_split Q), rs) = Inr (c, rs')"
    and "rs = map (\<lambda>pc. if is_split ((Q @ is) ! pc) then Some (rank_of (Q @ is) pc) else None) [0..<length Q]"
  shows "c = length (filter is_split (Q @ is)) \<and>
    rs' = map (\<lambda>pc. if is_split ((Q @ is) ! pc) then Some (rank_of (Q @ is) pc) else None) [0..<length (Q @ is)]"
  using assms
proof (induction "is" arbitrary: Q rs)
  case (Cons i "is")
  let ?e = "if is_split i then Some (rank_of (Q @ i # is) (length Q)) else None"
  have rank: "rank_of (Q @ i # is) (length Q) = length (filter is_split Q)" by (simp add: rank_of_def)
  from Cons.prems(1) have "rfold rank_split is (length (filter is_split (Q @ [i])), rs @ [?e]) = Inr (c, rs')"
    by (cases "is_split i") (auto simp: rank_split_Inr rank elim!: rbindE)
  from Cons.IH [OF this] Cons.prems(2) show ?case by simp
qed simp

lemma rank_of_less:
  "pc < length P \<Longrightarrow> is_split (P ! pc) \<Longrightarrow> rank_of P pc < length (filter is_split P)"
proof -
  assume pc: "pc < length P" "is_split (P ! pc)"
  have "P = take pc P @ P ! pc # drop (Suc pc) P" using pc(1) by (rule id_take_nth_drop)
  then have "length (filter is_split P) = rank_of P pc + Suc (length (filter is_split (drop (Suc pc) P)))"
    using pc(2) unfolding rank_of_def by (metis filter.simps(2) filter_append length_Cons length_append)
  then show ?thesis by simp
qed

lemma rank_of_inj:
  assumes "pc < pc'" "pc' < length P" "is_split (P ! pc)"
  shows "rank_of P pc < rank_of P pc'"
proof -
  have "pc < length (take pc' P)" "take pc' P ! pc = P ! pc" "take pc (take pc' P) = take pc P"
    using assms by (auto simp: min_def)
  with rank_of_less [of pc "take pc' P"] assms(3) show ?thesis by (simp add: rank_of_def)
qed

section \<open>The runtime invariant\<close>

definition well_compiled :: "compiled_regex \<Rightarrow> bool" where
  "well_compiled r \<longleftrightarrow> closed_program (cr_insts r) \<and> cr_entry r < length (cr_insts r)
     \<and> order_ok (cr_insts r) (cr_epsilon_order r)
     \<and> cr_split_count r = length (filter is_split (cr_insts r))
     \<and> cr_split_rank r = map (\<lambda>pc. if is_split (cr_insts r ! pc) then Some (rank_of (cr_insts r) pc) else None)
         [0..<length (cr_insts r)]"

text \<open>The meaning of a compiled regex.\<close>

definition means :: "compiled_regex \<Rightarrow> lab_ast \<Rightarrow> bool" where
  "means r ast \<longleftrightarrow> (\<forall>h p. p \<le> length h \<longrightarrow> paths (cr_insts r) h (cr_entry r) p (ends h ast p))"

lemma builder_facts:
  assumes "push lim al [] (Some IMatch) = Inr (slots, accept)"
    and "compile_node lim al ast slots accept d = Inr (slots', entry)"
  obtains code where "slots' = map Some (IMatch # code)" "closed_program (IMatch # code)"
    "entry < length (IMatch # code)" "\<And>pc. pc < length (IMatch # code) \<Longrightarrow> eacc (IMatch # code) pc"
    "\<And>h p. p \<le> length h \<Longrightarrow> paths (IMatch # code) h entry p (ends h ast p)"
proof -
  from assms have "compile_node lim al ast [Some IMatch] 0 d = Inr (slots', entry)" by (auto simp: push_Inr)
  from fragment_facts [OF compile_node_ok this] obtain code where
    c: "slots' = Some IMatch # map Some code"
    and t: "\<And>i t. i \<in> set code \<Longrightarrow> t \<in> set (targets i) \<Longrightarrow> t \<le> length code" and e: "entry \<le> length code"
    and a: "\<And>pc. pc \<le> length code \<Longrightarrow> eacc (IMatch # code) pc"
    and p: "\<And>h p. p \<le> length h \<Longrightarrow> paths (IMatch # code) h entry p (ends h ast p)" by blast
  have "closed_program (IMatch # code)"
    using t by (auto simp: closed_program_def less_Suc_eq_le)
  with that [of code] c e a p show thesis by (simp add: less_Suc_eq_le)
qed

lemma compiled_new_ok:
  assumes "compiled_new al ast l = Inr r"
  shows "well_compiled r" "means r ast" "cr_limits r = l"
proof -
  from assms obtain slots accept slots' entry insts order c rs where
    1: "push (max_program_states l) al [] (Some IMatch) = Inr (slots, accept)"
    and 2: "compile_node (max_program_states l) al ast slots accept 1 = Inr (slots', entry)"
    and 3: "collect_slots slots' = Inr insts" and 4: "epsilon_order insts = Inr order"
    and 5: "rfold rank_split insts (0, []) = Inr (c, rs)"
    and r: "r = \<lparr>cr_insts = insts, cr_entry = entry, cr_epsilon_order = order,
          cr_split_rank = rs, cr_split_count = c, cr_limits = l\<rparr>"
    by (auto simp: compiled_new_def simp del: One_nat_def elim!: rbindE)
  from builder_facts [OF 1 2] obtain code where
    code: "slots' = map Some (IMatch # code)" "closed_program (IMatch # code)"
    "entry < length (IMatch # code)"
    and p: "\<And>h p. p \<le> length h \<Longrightarrow> paths (IMatch # code) h entry p (ends h ast p)" by blast
  have insts: "insts = IMatch # code" using 3 collect_slots_Some [of "IMatch # code"] code(1) by simp
  have "order_ok insts order" using epsilon_order_sound 4 code(2) insts by blast
  then show "well_compiled r"
    using rank_splits [of insts "[]" "[]" c rs] 5 code insts by (simp add: well_compiled_def r)
  show "means r ast" using p by (simp add: means_def r insts)
  show "cr_limits r = l" by (simp add: r)
qed

end
