(* ===== verification/LabTable.thy ===== *)
theory LabTable
  imports LabCompiled
begin

text \<open>
  \<^verbatim>\<open>crates/fre-iterator-lab/src/full_dp.rs\<close> and \<^verbatim>\<open>oracle.rs\<close>: the full suffix table, its
  candidate executor, and the repeated-search oracle. A run either fails its preflight or the
  allocator, or it returns the abstract sequence (or reports that the sequence exceeds the
  output limit); nothing else can happen.
\<close>

section \<open>The table\<close>

definition encode :: "nat \<Rightarrow> lab_error + nat" where
  "encode e = checked_add e 1 Boundaries"

definition decode :: "nat \<Rightarrow> nat option" where
  "decode value = usub value 1"

definition table_index :: "nat \<Rightarrow> nat \<Rightarrow> nat \<Rightarrow> lab_error + nat" where
  "table_index position state states =
     rbind (checked_mul position states TableCells) (\<lambda>row. checked_add row state TableCells)"

text \<open>The value of one cell, and the work charged for it.\<close>

fun table_value ::
    "compile_limits \<Rightarrow> bytes \<Rightarrow> nat \<Rightarrow> nat \<Rightarrow> nat \<Rightarrow> inst \<Rightarrow> nat list \<Rightarrow> accounting \<Rightarrow> lab_error + (nat \<times> accounting)" where
  "table_value l h states position row IMatch table acc =
     rbind (encode position) (\<lambda>value. Inr (value, acc))"
| "table_value l h states position row (IByte expected nxt) table acc =
     rbind (charge_transition acc (max_work l)) (\<lambda>acc.
     if position < length h \<and> byte_ok expected (h ! position)
     then rbind (checked_add position 1 Boundaries) (\<lambda>next_position.
       rbind (table_index next_position nxt states) (\<lambda>i.
       rbind (vget table i) (\<lambda>value. Inr (value, acc))))
     else Inr (0, acc))"
| "table_value l h states position row (IAssertStart nxt) table acc =
     rbind (charge_transition acc (max_work l)) (\<lambda>acc.
     if position = 0
     then rbind (checked_add row nxt TableCells) (\<lambda>i. rbind (vget table i) (\<lambda>value. Inr (value, acc)))
     else Inr (0, acc))"
| "table_value l h states position row (IAssertEnd nxt) table acc =
     rbind (charge_transition acc (max_work l)) (\<lambda>acc.
     if position = length h
     then rbind (checked_add row nxt TableCells) (\<lambda>i. rbind (vget table i) (\<lambda>value. Inr (value, acc)))
     else Inr (0, acc))"
| "table_value l h states position row (ISplit preferred fallback) table acc =
     rbind (charge_transition acc (max_work l)) (\<lambda>acc.
     rbind (checked_add row preferred TableCells) (\<lambda>i.
     rbind (vget table i) (\<lambda>selected.
     if selected \<noteq> 0 then Inr (selected, acc)
     else rbind (charge_transition acc (max_work l)) (\<lambda>acc.
       rbind (checked_add row fallback TableCells) (\<lambda>i.
       rbind (vget table i) (\<lambda>value. Inr (value, acc)))))))"

definition table_step ::
    "compiled_regex \<Rightarrow> bytes \<Rightarrow> nat \<Rightarrow> nat \<Rightarrow> nat \<Rightarrow> nat list run_state \<Rightarrow> lab_error + nat list run_state" where
  "table_step r h position row pc = (\<lambda>(table, acc).
     rbind (charge_state acc (max_work (cr_limits r))) (\<lambda>acc.
     rbind (vget (cr_insts r) pc) (\<lambda>i.
     rbind (table_value (cr_limits r) h (length (cr_insts r)) position row i table acc) (\<lambda>(value, acc).
     rbind (checked_add row pc TableCells) (\<lambda>index.
     rbind (vset table index value) (\<lambda>table.
     Inr (table, acc)))))))"

definition table_row ::
    "compiled_regex \<Rightarrow> bytes \<Rightarrow> nat \<Rightarrow> nat list run_state \<Rightarrow> lab_error + nat list run_state" where
  "table_row r h position rs =
     rbind (checked_mul position (length (cr_insts r)) TableCells) (\<lambda>row.
     rfold (table_step r h position row) (cr_epsilon_order r) rs)"

definition build_full_table ::
    "allocator \<Rightarrow> compiled_regex \<Rightarrow> bytes \<Rightarrow> accounting \<Rightarrow> lab_error + nat list run_state" where
  "build_full_table al r h acc =
     (let l = cr_limits r in
      rbind (boundaries r h) (\<lambda>bounds.
      rbind (checked_mul (length (cr_insts r)) bounds TableCells) (\<lambda>cells.
      rbind (enforce cells (max_table_cells l) TableCells) (\<lambda>_.
      rbind (checked_mul cells size_of_usize Bytes) (\<lambda>bytes.
      rbind (enforce bytes (max_random_access_bytes l) RandomAccessBytes) (\<lambda>_.
      rbind (maximum_build_work r bounds) (\<lambda>work.
      rbind (enforce work (max_work l) Work) (\<lambda>_.
      rbind (checked_add (table_builds acc) 1 Work) (\<lambda>builds.
      let acc = acc\<lparr>table_cells := max (table_cells acc) cells,
            random_access_peak_bytes := max (random_access_peak_bytes acc) bytes,
            table_builds := builds\<rparr> in
      rbind (try_reserve al RandomAccessBytes cells) (\<lambda>_.
      rfold (table_row r h) (rev [0..<bounds]) (replicate cells 0, acc)))))))))))"

section \<open>The executors\<close>

definition start_accounting :: "compiled_regex \<Rightarrow> nat \<Rightarrow> accounting" where
  "start_accounting r bounds = accounting_default\<lparr>program_states := length (cr_insts r), boundaries_count := bounds\<rparr>"

definition table_select :: "compiled_regex \<Rightarrow> nat list selector_fun" where
  "table_select r start = (\<lambda>(table, acc).
     rbind (table_index start (cr_entry r) (length (cr_insts r))) (\<lambda>i.
     rbind (vget table i) (\<lambda>value. Inr (decode value, table, acc))))"

definition find_all_full_dp ::
    "allocator \<Rightarrow> compiled_regex \<Rightarrow> bytes \<Rightarrow> (lab_error + run_report) option" where
  "find_all_full_dp al r h =
     then_run (rbind (boundaries r h) (\<lambda>bounds.
       rbind (checked_mul bounds 2 Work) (\<lambda>root_work.
       rbind (maximum_build_work r bounds) (\<lambda>build_work.
       rbind (checked_add build_work root_work Work) (\<lambda>maximum_work.
       rbind (enforce maximum_work (max_work (cr_limits r)) Work) (\<lambda>_.
       rbind (reserve_output al bounds (cr_limits r)) (\<lambda>bytes.
       build_full_table al r h ((start_accounting r bounds)\<lparr>output_reserved_bytes := bytes\<rparr>))))))))
     (\<lambda>rs. report (collect_sequence (length h) (cr_limits r) (table_select r) rs))"

text \<open>The oracle builds a fresh table before each search and drops the previous one.\<close>

definition oracle_prepare ::
    "allocator \<Rightarrow> compiled_regex \<Rightarrow> bytes \<Rightarrow> nat list run_state \<Rightarrow> lab_error + nat list run_state" where
  "oracle_prepare al r h = (\<lambda>(_, acc). build_full_table al r h acc)"

definition find_all_oracle ::
    "allocator \<Rightarrow> compiled_regex \<Rightarrow> bytes \<Rightarrow> (lab_error + run_report) option" where
  "find_all_oracle al r h =
     then_run (rbind (boundaries r h) (\<lambda>bounds.
       rbind (checked_mul bounds 2 Work) (\<lambda>twice.
       rbind (checked_add twice 1 Work) (\<lambda>maximum_searches.
       rbind (maximum_build_work r bounds) (\<lambda>work.
       rbind (checked_mul work maximum_searches Work) (\<lambda>build_work.
       rbind (checked_mul bounds 2 Work) (\<lambda>root_work.
       rbind (checked_add build_work root_work Work) (\<lambda>total.
       rbind (enforce total (max_work (cr_limits r)) Work) (\<lambda>_.
       rbind (reserve_output al bounds (cr_limits r)) (\<lambda>bytes.
       Inr ((start_accounting r bounds)\<lparr>output_reserved_bytes := bytes\<rparr>)))))))))))
     (\<lambda>acc. report (iterate_loop (length h) (cr_limits r) (oracle_prepare al r h) (table_select r)
        0 None [] ([], acc)))"

section \<open>The table is correct\<close>

abbreviation tcell :: "compiled_regex \<Rightarrow> nat \<Rightarrow> nat list \<Rightarrow> nat \<Rightarrow> nat" where
  "tcell r p table c \<equiv> table ! (p * length (cr_insts r) + c)"

lemma cell_in_table:
  assumes "p < u" "c < q" "length t = q * u"
  shows "p * q + c < length t"
proof -
  have "p * q + c < Suc p * q" using assms(2) by simp
  also have "\<dots> \<le> u * q" using assms(1) by (intro mult_le_mono1) simp
  finally show ?thesis using assms(3) by (simp add: mult.commute)
qed

definition table_good :: "compiled_regex \<Rightarrow> bytes \<Rightarrow> nat \<Rightarrow> nat list \<Rightarrow> bool" where
  "table_good r h p table \<longleftrightarrow> well_compiled r \<and> p \<le> length h \<and> length h < usize_max \<and>
     length table = length (cr_insts r) * Suc (length h) \<and> length table \<le> usize_max"

lemma charge_pair:
  assumes "acc_ok acc" "work_fits l acc (1 + c)"
  obtains acc' where "charge_state acc (max_work l) = Inr acc'" "worked 1 acc acc'" "acc_ok acc'" "work_fits l acc' c"
  using charge_fits(1) [OF assms(1), of l] work_fits_mono [OF assms(2), of 1] work_fits_after [OF assms(2)]
  by (fastforce simp: worked_def)

lemma charge_transition_fits:
  assumes "acc_ok acc" "work_fits l acc (1 + c)"
  obtains acc' where "charge_transition acc (max_work l) = Inr acc'" "worked 1 acc acc'" "acc_ok acc'" "work_fits l acc' c"
  using charge_fits(2) [OF assms(1), of l] work_fits_mono [OF assms(2), of 1] work_fits_after [OF assms(2)]
  by (fastforce simp: worked_def)

lemma table_value_ok:
  assumes good: "table_good r h p table" and i: "i \<in> set (cr_insts r)" and acc: "acc_ok acc"
    and fits: "work_fits l acc (inst_transitions i)"
  shows "\<exists>acc'. table_value l h (length (cr_insts r)) p (p * length (cr_insts r)) i table acc =
      Inr (cell_value h i p (tcell r p table) (tcell r (Suc p) table), acc')
    \<and> worked (inst_transitions i) acc acc'"
proof -
  let ?q = "length (cr_insts r)"
  have g: "p \<le> length h" "length h < usize_max" "length table = ?q * Suc (length h)" "length table \<le> usize_max"
    and t: "\<And>t. t \<in> set (targets i) \<Longrightarrow> t < ?q"
    using good i by (auto simp: table_good_def well_compiled_def closed_program_def)
  have at: "vget table (u * ?q + t) = Inr (tcell r u table t)" "u * ?q + t \<le> usize_max" "u * ?q \<le> usize_max"
    if "u \<le> length h" "t \<in> set (targets i)" for u t
    using cell_in_table [of u "Suc (length h)" t ?q table] that t g by auto
  note [simp] = at(1) [OF g(1)]
  show ?thesis
  proof (cases i)
    case IMatch
    with g acc show ?thesis by (auto simp: encode_def worked_refl)
  next
    case (IByte x nxt)
    with fits obtain acc1 where a: "charge_transition acc (max_work l) = Inr acc1" "worked 1 acc acc1"
      using charge_transition_fits [OF acc, of l 0] by auto
    show ?thesis
    proof (cases "p < length h \<and> byte_ok x (h ! p)")
      case True
      with at [of "Suc p" nxt] IByte g(2) a show ?thesis by (auto simp: table_index_def)
    qed (use a IByte in auto)
  next
    case (IAssertStart nxt)
    with fits obtain acc1 where "charge_transition acc (max_work l) = Inr acc1" "worked 1 acc acc1"
      using charge_transition_fits [OF acc, of l 0] by auto
    with IAssertStart at [OF g(1), of nxt] show ?thesis by (cases "p = 0") auto
  next
    case (IAssertEnd nxt)
    with fits obtain acc1 where "charge_transition acc (max_work l) = Inr acc1" "worked 1 acc acc1"
      using charge_transition_fits [OF acc, of l 0] by auto
    with IAssertEnd at [OF g(1), of nxt] show ?thesis by (cases "p = length h") auto
  next
    case (ISplit a b)
    with fits obtain acc1 where 1: "charge_transition acc (max_work l) = Inr acc1" "worked 1 acc acc1"
      "acc_ok acc1" "work_fits l acc1 (1 + 0)"
      using charge_transition_fits [OF acc, of l 1] by (auto simp: numeral_2_eq_2)
    from charge_transition_fits [OF 1(3,4)] obtain acc2 where 2: "charge_transition acc1 (max_work l) = Inr acc2"
      "worked 1 acc1 acc2" by blast
    from 1 2 worked_trans [OF 1(2) 2(2)] worked_mono [OF 1(2), of 2] ISplit at [OF g(1), of a] at [OF g(1), of b]
    show ?thesis by (cases "tcell r p table a = 0") (auto simp: numeral_2_eq_2)
  qed
qed

text \<open>While row \<open>p\<close> is computed the rows behind it stay as they are in \<open>t0\<close>.\<close>

definition table_frame :: "compiled_regex \<Rightarrow> bytes \<Rightarrow> nat \<Rightarrow> nat list \<Rightarrow> nat list \<Rightarrow> bool" where
  "table_frame r h p t0 table \<longleftrightarrow> table_good r h p table \<and>
     (\<forall>j. Suc p * length (cr_insts r) \<le> j \<longrightarrow> table ! j = t0 ! j)"

lemma table_step_ok:
  assumes pc: "pc < length (cr_insts r)" and good: "table_frame r h p t0 table" and acc: "acc_ok acc"
    and fits: "work_fits (cr_limits r) acc (inst_cost (cr_insts r ! pc))"
  shows "\<exists>table' acc'. table_step r h p (p * length (cr_insts r)) pc (table, acc) = Inr (table', acc')
    \<and> table_frame r h p t0 table' \<and> tcell r (Suc p) table' = tcell r (Suc p) table
    \<and> tcell r p table' = (tcell r p table)(pc :=
        cell_value h (cr_insts r ! pc) p (tcell r p table) (tcell r (Suc p) table))
    \<and> worked (inst_cost (cr_insts r ! pc)) acc acc'"
proof -
  let ?q = "length (cr_insts r)" and ?i = "cr_insts r ! pc"
  let ?v = "cell_value h ?i p (tcell r p table) (tcell r (Suc p) table)"
  have tg: "table_good r h p table" using good by (simp add: table_frame_def)
  obtain acc1 where 1: "charge_state acc (max_work (cr_limits r)) = Inr acc1" "worked 1 acc acc1"
    "acc_ok acc1" "work_fits (cr_limits r) acc1 (inst_transitions ?i)"
    using charge_pair [OF acc] fits unfolding inst_cost_def by blast
  obtain acc2 where 2: "table_value (cr_limits r) h ?q p (p * ?q) ?i table acc1 = Inr (?v, acc2)"
    "worked (inst_transitions ?i) acc1 acc2"
    using table_value_ok [OF tg nth_mem [OF pc] 1(3,4)] by blast
  have idx: "p * ?q + pc < length table" "p * ?q + pc \<le> usize_max"
    using cell_in_table [of p "Suc (length h)" pc ?q table] tg pc by (auto simp: table_good_def)
  have lt: "p * ?q + pc < Suc p * ?q" using pc by simp
  let ?t = "table[p * ?q + pc := ?v]"
  have step: "table_step r h p (p * ?q) pc (table, acc) = Inr (?t, acc2)"
    using 1 2 pc idx by (simp add: table_step_def)
  have frame: "table_frame r h p t0 ?t"
    using good lt by (auto simp: table_frame_def table_good_def)
  have same: "tcell r (Suc p) ?t = tcell r (Suc p) table"
    by (rule ext) (use lt in simp)
  have upd: "tcell r p ?t = (tcell r p table)(pc := ?v)"
    by (rule ext) (use idx in \<open>auto simp: nth_list_update\<close>)
  from step frame same upd worked_trans [OF 1(2) 2(2)] show ?thesis
    by (auto simp: inst_cost_def)
qed

interpretation table_rows: row_step "cr_insts r" h p "cr_limits r"
  "table_step r h p (p * length (cr_insts r))" "table_frame r h p t0" "tcell r p" "tcell r (Suc p)"
  for r h p t0
  by unfold_locales (rule table_step_ok)

definition rows_done :: "compiled_regex \<Rightarrow> bytes \<Rightarrow> nat \<Rightarrow> nat list \<Rightarrow> bool" where
  "rows_done r h p table \<longleftrightarrow> (\<forall>u c es. p \<le> u \<longrightarrow> u \<le> length h \<longrightarrow> paths (cr_insts r) h c u es \<longrightarrow>
     tcell r u table c = enc es)"

lemma table_row_ok:
  assumes good: "table_good r h p table" and acc: "acc_ok acc"
    and fits: "work_fits (cr_limits r) acc (build_cost (cr_insts r))" and rdone: "rows_done r h (Suc p) table"
  shows "\<exists>table' acc'. table_row r h p (table, acc) = Inr (table', acc') \<and> table_good r h p table'
    \<and> rows_done r h p table' \<and> worked (build_cost (cr_insts r)) acc acc'"
proof -
  let ?q = "length (cr_insts r)"
  have wc: "order_ok (cr_insts r) (cr_epsilon_order r)" "0 < ?q"
    using good by (auto simp: table_good_def well_compiled_def)
  have fr: "table_frame r h p table table" using good by (simp add: table_frame_def)
  have nxt: "tcell r (Suc p) table t = enc es"
    if "p < length h" "paths (cr_insts r) h t (Suc p) es" for t es
    using rdone that unfolding rows_done_def by auto
  from table_rows.whole_row_ok [OF wc(1) fr acc fits nxt]
  obtain table' acc' where
    r: "rfold (table_step r h p (p * ?q)) (cr_epsilon_order r) (table, acc) = Inr (table', acc')"
    "table_frame r h p table table'"
    "\<forall>c es. paths (cr_insts r) h c p es \<longrightarrow> tcell r p table' c = enc es"
    "worked (build_cost (cr_insts r)) acc acc'" by blast
  have "p * ?q \<le> usize_max"
    using cell_in_table [of p "Suc (length h)" 0 ?q table] good wc(2) by (auto simp: table_good_def)
  then have "table_row r h p (table, acc) = Inr (table', acc')" using r(1) by (simp add: table_row_def)
  moreover have "rows_done r h p table'"
    unfolding rows_done_def
  proof (intro allI impI)
    fix u c es
    assume u: "p \<le> u" "u \<le> length h" "paths (cr_insts r) h c u es"
    show "tcell r u table' c = enc es"
    proof (cases "u = p")
      case True
      with r(3) u show ?thesis by simp
    next
      case False
      with u have "Suc p * ?q \<le> u * ?q + c" by (intro trans_le_add1 mult_le_mono1) simp
      then have "tcell r u table' c = tcell r u table c" using r(2) by (simp add: table_frame_def)
      with rdone u False show ?thesis by (simp add: rows_done_def)
    qed
  qed
  ultimately show ?thesis using r(2,4) by (auto simp: table_frame_def)
qed

lemma table_rows_ok:
  assumes "well_compiled r" "length h < usize_max" "m \<le> Suc (length h)"
    and "length table = length (cr_insts r) * Suc (length h)" "length table \<le> usize_max"
    and "acc_ok acc" "work_fits (cr_limits r) acc (m * build_cost (cr_insts r))" "rows_done r h m table"
  shows "\<exists>table' acc'. rfold (table_row r h) (rev [0..<m]) (table, acc) = Inr (table', acc')
    \<and> length table' = length table \<and> rows_done r h 0 table'
    \<and> worked (m * build_cost (cr_insts r)) acc acc'"
  using assms(3-)
proof (induction m arbitrary: table acc)
  case 0
  then show ?case by (simp add: worked_def)
next
  case (Suc m)
  have good: "table_good r h m table" using Suc.prems assms(1,2) by (simp add: table_good_def)
  have "work_fits (cr_limits r) acc (build_cost (cr_insts r))"
    using Suc.prems(5) by (auto simp: work_fits_def)
  with table_row_ok [OF good Suc.prems(4) _ Suc.prems(6)] obtain table1 acc1 where
    1: "table_row r h m (table, acc) = Inr (table1, acc1)" "table_good r h m table1" "rows_done r h m table1"
    "worked (build_cost (cr_insts r)) acc acc1" by blast
  have len: "length table1 = length table" using 1(2) Suc.prems(2) by (simp add: table_good_def)
  have "work_fits (cr_limits r) acc1 (m * build_cost (cr_insts r))"
    using work_fits_after [OF _ 1(4)] Suc.prems(5) by simp
  with Suc.IH [of table1 acc1] Suc.prems len 1 obtain table2 acc2 where
    2: "rfold (table_row r h) (rev [0..<m]) (table1, acc1) = Inr (table2, acc2)" "length table2 = length table1"
    "rows_done r h 0 table2" "worked (m * build_cost (cr_insts r)) acc1 acc2"
    by (auto simp: worked_def)
  from 1 2 len worked_trans [OF 1(4) 2(4)] show ?case by simp
qed

section \<open>Preflight\<close>

lemma inst_cost_le: "inst_cost i \<le> 3"
  unfolding inst_cost_def by (cases i) auto

lemma build_work_fold:
  "s \<le> usize_max \<Longrightarrow>
   rfold (\<lambda>i sum. rbind (checked_add 1 (inst_transitions i) Work) (\<lambda>t. checked_add sum t Work)) is s =
     (if s + build_cost is \<le> usize_max then Inr (s + build_cost is)
      else Inl (ResourceLimit Work usize_max (usize_max - 1)))"
proof (induction "is" arbitrary: s)
  case (Cons i "is")
  have "checked_add 1 (inst_transitions i) Work = Inr (inst_cost i)"
    using order_trans [OF inst_cost_le usize_max_ge] by (simp add: inst_cost_def)
  moreover have "checked_add s (inst_cost i) Work = (if s + inst_cost i \<le> usize_max then Inr (s + inst_cost i)
      else Inl (ResourceLimit Work usize_max (usize_max - 1)))"
    by (simp add: checked_add_def uadd_def)
  ultimately show ?case
    using Cons by (auto simp: build_cost_def add.assoc simp del: One_nat_def)
qed (simp add: build_cost_def)

lemma maximum_build_work_eq:
  "maximum_build_work r u = (if build_cost (cr_insts r) \<le> usize_max then checked_mul (build_cost (cr_insts r)) u Work
     else Inl (ResourceLimit Work usize_max (usize_max - 1)))"
  unfolding maximum_build_work_def by (subst build_work_fold) auto

lemma preflight_safe [simp]:
  "safe resource_error (boundaries r h) Q \<longleftrightarrow>
     (Suc (length h) \<le> usize_max \<longrightarrow> Suc (length h) \<le> max_boundaries (cr_limits r) \<longrightarrow> Q (Suc (length h)))"
  "safe resource_error (maximum_build_work r u) Q \<longleftrightarrow>
     (build_cost (cr_insts r) \<le> usize_max \<longrightarrow> build_cost (cr_insts r) * u \<le> usize_max \<longrightarrow> Q (build_cost (cr_insts r) * u))"
  "safe resource_error (reserve_output al u l) Q \<longleftrightarrow>
     (let c = min u (max_output_matches l) in c * size_of_span \<le> usize_max \<longrightarrow>
       c * size_of_span \<le> max_output_bytes l \<longrightarrow> al OutputBytes c \<longrightarrow> Q (c * size_of_span))"
  by (auto simp: boundaries_def maximum_build_work_eq reserve_output_def Let_def)

lemma preflight_runs [simp]:
  "runs (boundaries r h) Q \<longleftrightarrow>
     Suc (length h) \<le> usize_max \<and> Suc (length h) \<le> max_boundaries (cr_limits r) \<and> Q (Suc (length h))"
  "runs (maximum_build_work r u) Q \<longleftrightarrow>
     build_cost (cr_insts r) \<le> usize_max \<and> build_cost (cr_insts r) * u \<le> usize_max \<and> Q (build_cost (cr_insts r) * u)"
  "runs (reserve_output al u l) Q \<longleftrightarrow>
     (let c = min u (max_output_matches l) in c * size_of_span \<le> usize_max \<and>
       c * size_of_span \<le> max_output_bytes l \<and> al OutputBytes c \<and> Q (c * size_of_span))"
  by (auto simp: boundaries_def maximum_build_work_eq reserve_output_def Let_def)

section \<open>Building a table\<close>

text \<open>Every cell evaluates one state, so a finished build is never ahead of its evaluations.\<close>

lemma charge_evals:
  "charge_transition acc m = Inr acc' \<Longrightarrow>
     state_evaluations acc' = state_evaluations acc \<and> table_builds acc' = table_builds acc"
  "charge_state acc m = Inr acc' \<Longrightarrow>
     state_evaluations acc' = Suc (state_evaluations acc) \<and> table_builds acc' = table_builds acc"
  by (auto simp: charge_transition_def charge_state_def charge_total_def split: if_splits elim!: rbindE)

lemma table_value_evals:
  "table_value l h q p row i t acc = Inr (v, acc') \<Longrightarrow>
     state_evaluations acc' = state_evaluations acc \<and> table_builds acc' = table_builds acc"
  by (cases i) (auto split: if_splits elim!: rbindE dest!: charge_evals(1))

lemma table_row_evals:
  assumes "table_row r h p (t, acc) = Inr (t', acc')"
  shows "state_evaluations acc' = state_evaluations acc + length (cr_epsilon_order r) \<and>
    table_builds acc' = table_builds acc"
proof -
  have "rfold (table_step r h p row) vs (t, acc) = Inr (t', acc') \<Longrightarrow>
      state_evaluations acc' = state_evaluations acc + length vs \<and> table_builds acc' = table_builds acc" for row vs
  proof (induction vs arbitrary: t acc)
    case (Cons v vs)
    then obtain t1 acc1 where 1: "table_step r h p row v (t, acc) = Inr (t1, acc1)"
      "rfold (table_step r h p row) vs (t1, acc1) = Inr (t', acc')" by (auto elim!: rbindE)
    from 1(1) have "state_evaluations acc1 = Suc (state_evaluations acc) \<and> table_builds acc1 = table_builds acc"
      by (auto simp: table_step_def elim!: rbindE dest!: table_value_evals charge_evals(2))
    with Cons.IH [OF 1(2)] show ?case by simp
  qed simp
  with assms show ?thesis by (auto simp: table_row_def elim!: rbindE)
qed

lemma table_rows_evals:
  "rfold (table_row r h) ps (t, acc) = Inr (t', acc') \<Longrightarrow>
     state_evaluations acc' = state_evaluations acc + length ps * length (cr_epsilon_order r) \<and>
     table_builds acc' = table_builds acc"
proof (induction ps arbitrary: t acc)
  case (Cons p ps)
  then obtain t1 acc1 where 1: "table_row r h p (t, acc) = Inr (t1, acc1)"
    "rfold (table_row r h) ps (t1, acc1) = Inr (t', acc')" by (auto elim!: rbindE)
  from table_row_evals [OF 1(1)] Cons.IH [OF 1(2)] show ?case by simp
qed simp

definition table_admitted :: "allocator \<Rightarrow> compiled_regex \<Rightarrow> bytes \<Rightarrow> bool" where
  "table_admitted al r h \<longleftrightarrow> (let l = cr_limits r; u = Suc (length h); cells = length (cr_insts r) * u in
     u \<le> usize_max \<and> u \<le> max_boundaries l \<and> cells \<le> usize_max \<and> cells \<le> max_table_cells l \<and>
     cells * size_of_usize \<le> usize_max \<and> cells * size_of_usize \<le> max_random_access_bytes l \<and>
     build_cost (cr_insts r) \<le> usize_max \<and> build_cost (cr_insts r) * u \<le> usize_max \<and>
     build_cost (cr_insts r) * u \<le> max_work l \<and> al RandomAccessBytes cells)"

definition table_ready :: "compiled_regex \<Rightarrow> bytes \<Rightarrow> nat list \<Rightarrow> bool" where
  "table_ready r h table \<longleftrightarrow> length h < usize_max \<and> length table = length (cr_insts r) * Suc (length h)
     \<and> length table \<le> usize_max \<and> rows_done r h 0 table"

lemma order_ok_length: "order_ok P order \<Longrightarrow> length order = length P"
  by (metis card_lessThan distinct_card order_ok_def)

lemma build_cost_pos: "well_compiled r \<Longrightarrow> 0 < build_cost (cr_insts r)"
  by (cases "cr_insts r") (auto simp: well_compiled_def build_cost_def inst_cost_def)

lemma build_full_table_ok:
  assumes wc: "well_compiled r" and adm: "table_admitted al r h" and acc: "acc_ok acc" "builds_ahead acc = 0"
    and fits: "work_fits (cr_limits r) acc (build_cost (cr_insts r) * Suc (length h))"
  shows "\<exists>table acc'. build_full_table al r h acc = Inr (table, acc') \<and> table_ready r h table
    \<and> worked (build_cost (cr_insts r) * Suc (length h)) acc acc'"
proof -
  let ?q = "length (cr_insts r)" and ?u = "Suc (length h)" and ?b = "build_cost (cr_insts r)"
  let ?cells = "?q * ?u"
  let ?acc = "acc\<lparr>table_cells := max (table_cells acc) ?cells,
      random_access_peak_bytes := max (random_access_peak_bytes acc) (?cells * size_of_usize),
      table_builds := table_builds acc + 1\<rparr>"
  have adm': "?u \<le> usize_max" "?u \<le> max_boundaries (cr_limits r)" "?cells \<le> usize_max"
    "?cells \<le> max_table_cells (cr_limits r)" "?cells * size_of_usize \<le> usize_max"
    "?cells * size_of_usize \<le> max_random_access_bytes (cr_limits r)" "?b \<le> usize_max" "?b * ?u \<le> usize_max"
    "?b * ?u \<le> max_work (cr_limits r)" "al RandomAccessBytes ?cells"
    using adm by (auto simp: table_admitted_def Let_def simp del: mult_Suc_right)
  have "table_builds acc \<le> total_work acc" using acc by (auto simp: acc_ok_def builds_ahead_def)
  moreover have "0 < ?b * ?u" using build_cost_pos [OF wc] by simp
  ultimately have tb: "table_builds acc + 1 \<le> usize_max" using fits by (auto simp: work_fits_def)
  have "boundaries r h = Inr ?u" "maximum_build_work r ?u = Inr (?b * ?u)"
    using adm' by (simp_all add: boundaries_def maximum_build_work_eq del: mult_Suc_right)
  then have eq: "build_full_table al r h acc = rfold (table_row r h) (rev [0..<?u]) (replicate ?cells 0, ?acc)"
    using adm' tb by (simp add: build_full_table_def Let_def del: mult_Suc_right upt_Suc)
  have "work_fits (cr_limits r) ?acc (?u * ?b)" "acc_ok ?acc"
    using fits acc by (simp_all add: work_fits_def acc_ok_def mult.commute)
  moreover have "rows_done r h ?u (replicate ?cells 0)" by (auto simp: rows_done_def)
  ultimately obtain table acc' where
    1: "rfold (table_row r h) (rev [0..<?u]) (replicate ?cells 0, ?acc) = Inr (table, acc')"
    "length table = ?cells" "rows_done r h 0 table" "worked (?u * ?b) ?acc acc'"
    using table_rows_ok [OF wc, of h ?u "replicate ?cells 0" ?acc] adm'(1,3) by auto
  have "0 < length (cr_epsilon_order r)"
    using order_ok_length [of "cr_insts r" "cr_epsilon_order r"] wc by (auto simp: well_compiled_def)
  then have "1 \<le> ?u * length (cr_epsilon_order r)" by (cases "cr_epsilon_order r") auto
  moreover have "state_evaluations acc' = state_evaluations acc + ?u * length (cr_epsilon_order r)"
    "table_builds acc' = table_builds acc + 1"
    using table_rows_evals [OF 1(1)] by simp_all
  moreover have "table_builds acc \<le> state_evaluations acc" using acc(2) by (simp add: builds_ahead_def)
  ultimately have "builds_ahead acc' = 0" unfolding builds_ahead_def by arith
  with 1 eq acc(2) adm'(1,3) show ?thesis
    by (auto simp: table_ready_def worked_def mult.commute simp del: mult_Suc mult_Suc_right)
qed

lemma build_full_table_safe:
  assumes "well_compiled r" "acc_ok acc" "builds_ahead acc = 0"
    and "work_fits (cr_limits r) acc (build_cost (cr_insts r) * Suc (length h))"
    and "\<And>table acc'. table_ready r h table \<Longrightarrow> table_admitted al r h \<Longrightarrow>
      worked (build_cost (cr_insts r) * Suc (length h)) acc acc' \<Longrightarrow> Q (table, acc')"
  shows "safe resource_error (build_full_table al r h acc) Q"
proof (cases "table_admitted al r h")
  case True
  with build_full_table_ok [OF assms(1) True assms(2-4)] assms(5) show ?thesis by fastforce
next
  case False
  show ?thesis
    unfolding build_full_table_def Let_def safe_simps preflight_safe checked_safe
    by (intro impI, rule notE [OF False], unfold table_admitted_def Let_def) (intro conjI; assumption)
qed

section \<open>The executors are correct\<close>

text \<open>The abstract selector of an AST: the first end from a start.\<close>

definition lab_sel :: "lab_ast \<Rightarrow> bytes \<Rightarrow> nat \<Rightarrow> nat option" where
  "lab_sel ast h p = first_of (ends h ast p)"

lemma lab_sel_bounds: "lab_sel ast h p = Some e \<Longrightarrow> p \<le> length h \<Longrightarrow> p \<le> e \<and> e \<le> length h"
  unfolding lab_sel_def by (rule ends_bounds [OF _ first_of_in_set])

interpretation lab: selector "length h" "lab_sel ast h" for ast h
  by unfold_locales (rule lab_sel_bounds)

lemma decode_enc: "decode (enc es) = first_of es"
  by (cases es) (auto simp: decode_def usub_def)

lemma table_select_ok:
  assumes "well_compiled r" "means r ast" "table_ready r h table" "p \<le> length h"
  shows "table_select r p (table, acc) = Inr (lab_sel ast h p, table, acc)"
proof -
  let ?q = "length (cr_insts r)"
  have e: "cr_entry r < ?q" using assms(1) by (simp add: well_compiled_def)
  have "p * ?q + cr_entry r < length table"
    by (rule cell_in_table [of p "Suc (length h)"]) (use assms e in \<open>auto simp: table_ready_def\<close>)
  moreover have "table ! (p * ?q + cr_entry r) = enc (ends h ast p)"
    using assms by (auto simp: table_ready_def rows_done_def means_def)
  moreover have "length table \<le> usize_max" using assms(3) by (simp add: table_ready_def)
  ultimately show ?thesis
    by (simp add: table_select_def table_index_def decode_enc lab_sel_def)
qed

definition table_inv :: "lab_ast \<Rightarrow> compiled_regex \<Rightarrow> bytes \<Rightarrow> nat \<Rightarrow> nat list \<Rightarrow> nat \<Rightarrow> bool" where
  "table_inv ast r h p table rb \<longleftrightarrow> well_compiled r \<and> means r ast \<and> table_ready r h table"

interpretation dp: root_source "length h" "lab_sel ast h" "cr_limits r" Inr "table_select r"
  "table_inv ast r h" "table_inv ast r h" 0 0 for ast r h
  by unfold_locales
    (auto simp: table_inv_def table_select_ok worked_refl, auto simp: table_ready_def)

definition oracle_inv0 :: "allocator \<Rightarrow> lab_ast \<Rightarrow> compiled_regex \<Rightarrow> bytes \<Rightarrow> nat \<Rightarrow> nat list \<Rightarrow> nat \<Rightarrow> bool" where
  "oracle_inv0 al ast r h p table rb \<longleftrightarrow> well_compiled r \<and> means r ast \<and> table_admitted al r h"

definition oracle_inv :: "allocator \<Rightarrow> lab_ast \<Rightarrow> compiled_regex \<Rightarrow> bytes \<Rightarrow> nat \<Rightarrow> nat list \<Rightarrow> nat \<Rightarrow> bool" where
  "oracle_inv al ast r h p table rb \<longleftrightarrow> oracle_inv0 al ast r h p table rb \<and> table_ready r h table"

lemma table_admitted_bound: "table_admitted al r h \<Longrightarrow> length h < usize_max"
  by (auto simp: table_admitted_def Let_def)

interpretation orc: root_source "length h" "lab_sel ast h" "cr_limits r" "oracle_prepare al r h" "table_select r"
  "oracle_inv0 al ast r h" "oracle_inv al ast r h" 0 "build_cost (cr_insts r) * Suc (length h)" for al ast r h
proof unfold_locales
  fix p :: nat and st acc
  assume "oracle_inv0 al ast r h p st (read_bytes acc)" "acc_ok acc" "builds_ahead acc = 0"
    "work_fits (cr_limits r) acc (build_cost (cr_insts r) * Suc (length h))"
  then show "\<exists>st' acc'. oracle_prepare al r h (st, acc) = Inr (st', acc') \<and> oracle_inv al ast r h p st' (read_bytes acc')
      \<and> worked (build_cost (cr_insts r) * Suc (length h)) acc acc'"
    using build_full_table_ok [of r al h acc]
    by (fastforce simp: oracle_prepare_def oracle_inv_def oracle_inv0_def simp del: mult_Suc_right)
qed (auto simp: oracle_inv_def oracle_inv0_def table_select_ok worked_refl table_admitted_bound)

text \<open>How a run that passed its preflight is reported.\<close>

lemma report_run_result:
  assumes "run_result mo acc w [] its res" "output_work acc = 0"
  shows "returns resource_error (report res) (\<lambda>rep. rep_matches rep = its \<and> length its \<le> mo
     \<and> total_work (rep_accounting rep) \<le> total_work acc + w \<and> output_work (rep_accounting rep) = length its)"
    and "length its \<le> mo \<Longrightarrow> \<exists>rep. report res = Some (Inr rep)"
  using assms by (auto simp: run_result_def report_def returns_def split: if_splits)

lemma start_accounting_ok [simp]:
  "acc_ok (start_accounting r u)" "builds_ahead (start_accounting r u) = 0"
  "total_work (start_accounting r u) = 0" "output_work (start_accounting r u) = 0"
  by (simp_all add: start_accounting_def accounting_default_def acc_ok_def builds_ahead_def)

lemma acc_frame [simp]:
  "acc_ok (acc\<lparr>output_reserved_bytes := b\<rparr>) = acc_ok acc"
  "builds_ahead (acc\<lparr>output_reserved_bytes := b\<rparr>) = builds_ahead acc"
  "work_fits l (acc\<lparr>output_reserved_bytes := b\<rparr>) c = work_fits l acc c"
  "worked c (acc\<lparr>output_reserved_bytes := b\<rparr>) acc' = worked c acc acc'"
  by (simp_all add: acc_ok_def builds_ahead_def work_fits_def worked_def)

abbreviation lab_spans :: "lab_ast \<Rightarrow> bytes \<Rightarrow> (nat \<times> nat) list" where
  "lab_spans ast h \<equiv> iter_seq (length h) (lab_sel ast h) 0 None"

lemma output_fits:
  "min (Suc (length h)) mo * size_of_span \<le> usize_max \<Longrightarrow>
     min mo (length (lab_spans ast h)) * size_of_span \<le> usize_max"
  using lab.iter_seq_length [of h ast] by (elim order_trans [rotated]) (intro mult_le_mono1, auto)

lemma full_dp_run:
  assumes ready: "table_inv ast r h 0 table (read_bytes acc)" and acc: "worked c (start_accounting r u) acc"
    and c: "c + 2 * Suc (length h) \<le> max_work (cr_limits r)" and mw: "max_work (cr_limits r) \<le> usize_max"
    and out: "min (Suc (length h)) (max_output_matches (cr_limits r)) * size_of_span \<le> usize_max"
  shows "run_result (max_output_matches (cr_limits r)) acc (2 * Suc (length h)) [] (lab_spans ast h)
    (collect_sequence (length h) (cr_limits r) (table_select r) (table, acc))"
proof -
  have "total_work acc \<le> c" "acc_ok acc" "output_work acc = 0" "builds_ahead acc = 0"
    using acc by (auto simp: worked_def)
  then show ?thesis
    using dp.iterate_loop_ok [OF ready, of None "[]"] c mw output_fits [OF out, of ast]
    by (simp add: collect_sequence_def work_fits_def budget_start)
qed

text \<open>The full-table executor, after its checks.\<close>

lemma full_dp_outcome:
  assumes wc: "well_compiled r" "means r ast" and mw: "max_work (cr_limits r) \<le> usize_max"
  shows "returns resource_error (find_all_full_dp al r h) (\<lambda>rep. rep_matches rep = lab_spans ast h \<and>
    total_work (rep_accounting rep) \<le> build_cost (cr_insts r) * Suc (length h) + Suc (length h) * 2)"
proof -
  let ?b = "build_cost (cr_insts r) * Suc (length h)" and ?l = "cr_limits r" and ?n = "Suc (length h)"
  let ?acc = "(start_accounting r ?n)\<lparr>output_reserved_bytes := min ?n (max_output_matches ?l) * size_of_span\<rparr>"
  let ?Q = "\<lambda>rep. rep_matches rep = lab_spans ast h \<and> total_work (rep_accounting rep) \<le> ?b + ?n * 2"
  have main: "safe resource_error (build_full_table al r h ?acc) (\<lambda>x. returns resource_error
        (report (collect_sequence (length h) ?l (table_select r) x)) ?Q)"
    if pre: "?b + ?n * 2 \<le> max_work ?l" "min ?n (max_output_matches ?l) * size_of_span \<le> usize_max"
  proof (rule build_full_table_safe [OF wc(1)])
    show "work_fits ?l ?acc ?b" using pre mw by (simp add: work_fits_def)
    fix table acc' assume t: "table_ready r h table" "worked ?b ?acc acc'"
    have "table_inv ast r h 0 table (read_bytes acc')" using t(1) wc by (simp add: table_inv_def)
    from full_dp_run [OF this _ _ mw pre(2)] t(2) pre(1)
    have "run_result (max_output_matches ?l) acc' (2 * ?n) [] (lab_spans ast h)
        (collect_sequence (length h) ?l (table_select r) (table, acc'))" by (simp add: mult.commute)
    from report_run_result(1) [OF this] t(2)
    show "returns resource_error (report (collect_sequence (length h) ?l (table_select r) (table, acc'))) ?Q"
      by (auto simp: worked_def returns_def elim!: safe_mono split: option.splits)
  qed simp_all
  show ?thesis
    unfolding find_all_full_dp_def returns_then_run
    by (simp add: Let_def del: mult_Suc_right mult_Suc) (intro impI main)
qed

lemma build_cost_le: "build_cost P \<le> 3 * length P"
  by (induction P) (auto simp: build_cost_def intro: add_mono inst_cost_le [THEN order_trans])

text \<open>Limits under which the table executor always answers.\<close>

definition table_limits :: "compile_limits \<Rightarrow> nat \<Rightarrow> nat \<Rightarrow> bool" where
  "table_limits l q u \<longleftrightarrow> u \<le> usize_max \<and> u \<le> max_boundaries l \<and> q * u \<le> max_table_cells l \<and>
     q * u * size_of_usize \<le> usize_max \<and> q * u * size_of_usize \<le> max_random_access_bytes l \<and>
     (3 * q + 2) * u \<le> max_work l \<and> max_work l \<le> usize_max \<and>
     u * size_of_span \<le> usize_max \<and> u * size_of_span \<le> max_output_bytes l \<and> u \<le> max_output_matches l"

lemma table_limits_admitted:
  assumes "table_limits (cr_limits r) (length (cr_insts r)) (Suc (length h))"
  shows "table_admitted (\<lambda>_ _. True) r h"
    and "build_cost (cr_insts r) * Suc (length h) + Suc (length h) * 2 \<le> max_work (cr_limits r)"
    and "build_cost (cr_insts r) \<le> usize_max"
proof -
  let ?u = "Suc (length h)" and ?q = "length (cr_insts r)" and ?b = "build_cost (cr_insts r)"
  have "?b * ?u + ?u * 2 \<le> (3 * ?q + 2) * ?u"
    using mult_le_mono1 [OF build_cost_le [of "cr_insts r"], of ?u] by (simp add: algebra_simps)
  then show w: "?b * ?u + ?u * 2 \<le> max_work (cr_limits r)" using assms by (simp add: table_limits_def)
  have "?b \<le> ?b * ?u" by simp
  then show b: "?b \<le> usize_max" using w assms unfolding table_limits_def by linarith
  have "?q * ?u \<le> ?q * ?u * size_of_usize" by (simp add: size_of_usize_def)
  then show "table_admitted (\<lambda>_ _. True) r h"
    using assms w b unfolding table_limits_def table_admitted_def Let_def
    by (intro conjI) (linarith | simp)+
qed

lemma full_dp_success:
  assumes wc: "well_compiled r" "means r ast"
    and lim: "table_limits (cr_limits r) (length (cr_insts r)) (Suc (length h))"
  shows "succeeds (find_all_full_dp (\<lambda>_ _. True) r h) (\<lambda>rep. rep_matches rep = lab_spans ast h)"
proof -
  let ?b = "build_cost (cr_insts r) * Suc (length h)" and ?l = "cr_limits r" and ?n = "Suc (length h)"
  let ?acc = "(start_accounting r ?n)\<lparr>output_reserved_bytes := min ?n (max_output_matches ?l) * size_of_span\<rparr>"
  note adm = table_limits_admitted [OF lim]
  have mw: "max_work ?l \<le> usize_max" and mo: "?n \<le> max_output_matches ?l" and out: "?n * size_of_span \<le> usize_max"
    and rest: "?n \<le> usize_max" "?n \<le> max_boundaries ?l" "?n * size_of_span \<le> max_output_bytes ?l"
    using lim by (auto simp: table_limits_def simp del: mult_Suc)
  obtain table acc' where t: "build_full_table (\<lambda>_ _. True) r h ?acc = Inr (table, acc')"
    "table_ready r h table" "worked ?b ?acc acc'"
    using build_full_table_ok [OF wc(1) adm(1), of ?acc] adm(2) mw by (auto simp: work_fits_def)
  have "table_inv ast r h 0 table (read_bytes acc')" using t(2) wc by (simp add: table_inv_def)
  from full_dp_run [OF this _ _ mw] t(3) adm(2) mo out
  have "run_result (max_output_matches ?l) acc' (2 * ?n) [] (lab_spans ast h)
      (collect_sequence (length h) ?l (table_select r) (table, acc'))"
    by (simp add: mult.commute min_def)
  moreover have "length (lab_spans ast h) \<le> max_output_matches ?l"
    using lab.iter_seq_length [of h ast] mo by simp
  ultimately have "succeeds (report (collect_sequence (length h) ?l (table_select r) (table, acc')))
      (\<lambda>rep. rep_matches rep = lab_spans ast h)"
    using t(3) by (auto simp: run_result_def worked_def report_def succeeds_def)
  with t(1) show ?thesis
    unfolding find_all_full_dp_def succeeds_then_run
    using adm mw mo out rest by (simp add: Let_def min_def del: mult_Suc mult_Suc_right)
qed

lemma oracle_outcome:
  assumes wc: "well_compiled r" "means r ast" and mw: "max_work (cr_limits r) \<le> usize_max"
  shows "returns resource_error (find_all_oracle al r h) (\<lambda>rep. rep_matches rep = lab_spans ast h)"
proof -
  let ?b = "build_cost (cr_insts r) * Suc (length h)" and ?l = "cr_limits r" and ?n = "Suc (length h)"
  let ?acc = "(start_accounting r ?n)\<lparr>output_reserved_bytes := min ?n (max_output_matches ?l) * size_of_span\<rparr>"
  let ?run = "iterate_loop (length h) ?l (oracle_prepare al r h) (table_select r) 0 None [] ([], ?acc)"
  have main: "returns resource_error (report ?run) (\<lambda>rep. rep_matches rep = lab_spans ast h)"
    if pre: "?b * (?n * 2 + 1) + ?n * 2 \<le> max_work ?l" "min ?n (max_output_matches ?l) * size_of_span \<le> usize_max"
  proof (cases "table_admitted al r h")
    case True
    have "oracle_inv0 al ast r h 0 [] (read_bytes ?acc)" using wc True by (simp add: oracle_inv0_def)
    moreover have "2 * ?n * (1 + 0 + ?b) \<le> ?b * (?n * 2 + 1) + ?n * 2" by (simp add: algebra_simps)
    ultimately have "run_result (max_output_matches ?l) ?acc (2 * ?n * (1 + 0 + ?b)) [] (lab_spans ast h) ?run"
      using orc.iterate_loop_ok [of al ast r h 0 "[]" ?acc None "[]"] pre mw output_fits [OF pre(2), of ast]
      by (simp add: work_fits_def budget_start del: mult_Suc mult_Suc_right)
    from report_run_result(1) [OF this] show ?thesis
      by (auto simp: returns_def elim!: safe_mono split: option.splits)
  next
    case False
    have "work_fits ?l ?acc ?b" using pre(1) mw by (simp add: work_fits_def algebra_simps)
    then have "safe resource_error (build_full_table al r h ?acc) (\<lambda>_. False)"
      using False by (intro build_full_table_safe [OF wc(1)]) auto
    then obtain e where "build_full_table al r h ?acc = Inl e" "resource_error e"
      by (auto simp: safe_def split: sum.splits)
    then have "?run = Some (Inl e)" by (simp add: iterate_loop.simps oracle_prepare_def)
    with \<open>resource_error e\<close> show ?thesis by (simp add: report_def returns_def)
  qed
  show ?thesis
    unfolding find_all_oracle_def returns_then_run
    by (simp add: Let_def del: mult_Suc_right mult_Suc) (intro impI main; simp del: mult_Suc_right mult_Suc)
qed

end
