(* ===== verification/LabReplay.thy ===== *)
theory LabReplay
  imports LabTable
begin

text \<open>
  What the two log executors of the iterator lab (\<^verbatim>\<open>decision_log.rs\<close>, \<^verbatim>\<open>sequential_log.rs\<close>) have
  in common: packed bits, the inner loop that evaluates one row and marks the decisions of its
  splits, and one turn of the replay loop. The two files repeat this code and differ in how a
  decision is marked and read; here that is the argument \<open>mark\<close> or \<open>decide\<close>. The locale
  \<open>log_marks\<close> gives the correctness of a row from what \<open>mark\<close> promises, \<open>replay_log\<close> the
  correctness, the termination and the cost of a replay from what \<open>decide\<close> promises.
\<close>

unbundle bit_operations_syntax

section \<open>Packed bits\<close>

definition packed :: "'a::len word list \<Rightarrow> nat \<Rightarrow> bool" where
  "packed ws i \<longleftrightarrow> i div LENGTH('a) < length ws \<and> bit (ws ! (i div LENGTH('a))) (i mod LENGTH('a))"

lemma packed_replicate_0 [simp]: "packed (replicate n 0) i = False"
  by (simp add: packed_def)

lemma bit_mask_test:
  fixes x :: "'a::len word"
  assumes "k < LENGTH('a)"
  shows "(x AND push_bit k 1 \<noteq> 0) = bit x k"
proof -
  have "bit (x AND push_bit k 1) n \<longleftrightarrow> n = k \<and> bit x k" for n
    using assms by (auto simp: bit_simps)
  then show ?thesis unfolding bit_eq_iff [of "x AND push_bit k 1" 0]
    using assms by (auto simp del: push_bit_of_1)
qed

lemma packed_test:
  fixes ws :: "'a::len word list"
  assumes "i div LENGTH('a) < length ws"
  shows "(ws ! (i div LENGTH('a)) AND push_bit (i mod LENGTH('a)) 1 \<noteq> 0) = packed ws i"
  using assms by (simp add: packed_def bit_mask_test del: push_bit_of_1)

lemma packed_update:
  fixes ws :: "'a::len word list"
  assumes "i div LENGTH('a) < length ws"
  shows "packed (ws[i div LENGTH('a) := ws ! (i div LENGTH('a)) OR push_bit (i mod LENGTH('a)) 1]) = (packed ws)(i := True)"
proof
  fix j
  have split: "j = i \<longleftrightarrow> j div LENGTH('a) = i div LENGTH('a) \<and> j mod LENGTH('a) = i mod LENGTH('a)"
    by (metis mult_div_mod_eq)
  show "packed (ws[i div LENGTH('a) := ws ! (i div LENGTH('a)) OR push_bit (i mod LENGTH('a)) 1]) j =
      ((packed ws)(i := True)) j"
    using assms split by (cases "j div LENGTH('a) = i div LENGTH('a)") (auto simp: packed_def bit_simps)
qed

section \<open>One row with marks\<close>

type_synonym 'log rows = "'log \<times> nat list \<times> nat list"

fun log_value ::
    "compiled_regex \<Rightarrow> bytes \<Rightarrow> (nat \<Rightarrow> nat \<Rightarrow> 'log \<Rightarrow> lab_error + 'log) \<Rightarrow> nat \<Rightarrow> nat \<Rightarrow> inst
     \<Rightarrow> 'log rows \<Rightarrow> accounting \<Rightarrow> lab_error + (nat \<times> 'log \<times> accounting)" where
  "log_value r h mark position pc IMatch (log, row, next_row) acc =
     rbind (encode position) (\<lambda>value. Inr (value, log, acc))"
| "log_value r h mark position pc (IByte expected nxt) (log, row, next_row) acc =
     rbind (charge_transition acc (max_work (cr_limits r))) (\<lambda>acc.
     if position < length h \<and> byte_ok expected (h ! position)
     then rbind (vget next_row nxt) (\<lambda>value. Inr (value, log, acc))
     else Inr (0, log, acc))"
| "log_value r h mark position pc (IAssertStart nxt) (log, row, next_row) acc =
     rbind (charge_transition acc (max_work (cr_limits r))) (\<lambda>acc.
     if position = 0 then rbind (vget row nxt) (\<lambda>value. Inr (value, log, acc)) else Inr (0, log, acc))"
| "log_value r h mark position pc (IAssertEnd nxt) (log, row, next_row) acc =
     rbind (charge_transition acc (max_work (cr_limits r))) (\<lambda>acc.
     if position = length h then rbind (vget row nxt) (\<lambda>value. Inr (value, log, acc)) else Inr (0, log, acc))"
| "log_value r h mark position pc (ISplit preferred fallback) (log, row, next_row) acc =
     rbind (charge_transition acc (max_work (cr_limits r))) (\<lambda>acc.
     rbind (vget row preferred) (\<lambda>preferred_value.
     rbind (vget (cr_split_rank r) pc) (\<lambda>entry.
     rbind (ok_or entry InvalidDecisionLog) (\<lambda>rank.
     if preferred_value \<noteq> 0
     then rbind (mark position rank log) (\<lambda>log. Inr (preferred_value, log, acc))
     else rbind (charge_transition acc (max_work (cr_limits r))) (\<lambda>acc.
       rbind (vget row fallback) (\<lambda>value. Inr (value, log, acc)))))))"

definition log_step ::
    "compiled_regex \<Rightarrow> bytes \<Rightarrow> (nat \<Rightarrow> nat \<Rightarrow> 'log \<Rightarrow> lab_error + 'log) \<Rightarrow> nat \<Rightarrow> nat
     \<Rightarrow> 'log rows run_state \<Rightarrow> lab_error + 'log rows run_state" where
  "log_step r h mark position pc = (\<lambda>((log, row, next_row), acc).
     rbind (charge_state acc (max_work (cr_limits r))) (\<lambda>acc.
     rbind (vget (cr_insts r) pc) (\<lambda>i.
     rbind (log_value r h mark position pc i (log, row, next_row) acc) (\<lambda>(value, log, acc).
     rbind (vset row pc value) (\<lambda>row.
     Inr ((log, row, next_row), acc))))))"

locale log_marks =
  fixes r :: compiled_regex and h :: bytes and p :: nat
    and mark :: "nat \<Rightarrow> nat \<Rightarrow> 'log \<Rightarrow> lab_error + 'log"
    and lgood :: "'log \<Rightarrow> bool" and marked :: "'log \<Rightarrow> nat \<Rightarrow> bool"
  assumes mark_ok: "lgood log \<Longrightarrow> rank < cr_split_count r \<Longrightarrow>
    \<exists>log'. mark p rank log = Inr log' \<and> lgood log' \<and> marked log' = (marked log)(rank := True)"
begin

definition rgood :: "'log rows \<Rightarrow> bool" where
  "rgood = (\<lambda>(log, row, next_row). well_compiled r \<and> p \<le> length h \<and> length h < usize_max \<and>
     length row = length (cr_insts r) \<and> length next_row = length (cr_insts r) \<and> lgood log)"

definition rdec :: "'log rows \<Rightarrow> nat \<Rightarrow> bool" where
  "rdec = (\<lambda>(log, row, next_row) pc. pc < length (cr_insts r) \<and> is_split (cr_insts r ! pc) \<and>
     marked log (rank_of (cr_insts r) pc))"

abbreviation rcell :: "'log rows \<Rightarrow> nat \<Rightarrow> nat" where
  "rcell st \<equiv> (!) (fst (snd st))"

abbreviation rnext :: "'log rows \<Rightarrow> nat \<Rightarrow> nat" where
  "rnext st \<equiv> (!) (snd (snd st))"

lemma rank_entry:
  "well_compiled r \<Longrightarrow> pc < length (cr_insts r) \<Longrightarrow> cr_insts r ! pc = ISplit a b \<Longrightarrow>
    vget (cr_split_rank r) pc = Inr (Some (rank_of (cr_insts r) pc)) \<and> rank_of (cr_insts r) pc < cr_split_count r"
  using rank_of_less [of pc "cr_insts r"] by (auto simp: well_compiled_def is_split_def)

text \<open>The value computed, what it costs, and what becomes of the log.\<close>

lemma log_value_ok:
  assumes good: "rgood (log, row, next_row)" and pc: "pc < length (cr_insts r)" and acc: "acc_ok acc"
    and fits: "work_fits (cr_limits r) acc (inst_transitions (cr_insts r ! pc))"
  shows "\<exists>log' acc'. log_value r h mark p pc (cr_insts r ! pc) (log, row, next_row) acc =
      Inr (cell_value h (cr_insts r ! pc) p ((!) row) ((!) next_row), log', acc') \<and> lgood log'
    \<and> marked log' = (case cr_insts r ! pc of
        ISplit a b \<Rightarrow> (if row ! a \<noteq> 0 then (marked log)(rank_of (cr_insts r) pc := True) else marked log)
      | _ \<Rightarrow> marked log)
    \<and> worked (inst_transitions (cr_insts r ! pc)) acc acc'"
proof -
  let ?i = "cr_insts r ! pc" and ?q = "length (cr_insts r)" and ?l = "cr_limits r"
  have g: "p \<le> length h" "length h < usize_max" "length row = ?q" "length next_row = ?q" "lgood log" "well_compiled r"
    using good by (auto simp: rgood_def)
  have t: "t < ?q" if "t \<in> set (targets ?i)" for t
    using g(6) nth_mem [OF pc] that by (auto simp: well_compiled_def closed_program_def)
  have one: "\<exists>acc1. charge_transition acc (max_work ?l) = Inr acc1 \<and> worked 1 acc acc1" if "inst_transitions ?i = 1"
    using charge_transition_fits [OF acc, of ?l 0] fits that by auto
  show ?thesis
  proof (cases ?i)
    case IMatch
    with g acc show ?thesis by (auto simp: encode_def worked_refl)
  next
    case (IByte x nxt)
    with one obtain acc1 where "charge_transition acc (max_work ?l) = Inr acc1" "worked 1 acc acc1" by auto
    with IByte g t [of nxt] show ?thesis by auto
  next
    case (IAssertStart nxt)
    with one obtain acc1 where "charge_transition acc (max_work ?l) = Inr acc1" "worked 1 acc acc1" by auto
    with IAssertStart g t [of nxt] show ?thesis by auto
  next
    case (IAssertEnd nxt)
    with one obtain acc1 where "charge_transition acc (max_work ?l) = Inr acc1" "worked 1 acc acc1" by auto
    with IAssertEnd g t [of nxt] show ?thesis by auto
  next
    case (ISplit a b)
    with fits obtain acc1 where 1: "charge_transition acc (max_work ?l) = Inr acc1" "worked 1 acc acc1"
      "acc_ok acc1" "work_fits ?l acc1 (1 + 0)"
      using charge_transition_fits [OF acc, of ?l 1] by (auto simp: numeral_2_eq_2)
    note rk = rank_entry [OF g(6) pc ISplit]
    have ab: "vget row a = Inr (row ! a)" "vget row b = Inr (row ! b)"
      using t [of a] t [of b] ISplit g by auto
    show ?thesis
    proof (cases "row ! a = 0")
      case True
      from charge_transition_fits [OF 1(3,4)] obtain acc2 where 2: "charge_transition acc1 (max_work ?l) = Inr acc2"
        "worked 1 acc1 acc2" by blast
      from True 1 2 rk ab g ISplit worked_trans [OF 1(2) 2(2)] show ?thesis by (auto simp: numeral_2_eq_2)
    next
      case False
      from mark_ok [OF g(5)] rk obtain log' where "mark p (rank_of (cr_insts r) pc) log = Inr log'" "lgood log'"
        "marked log' = (marked log)(rank_of (cr_insts r) pc := True)" by blast
      with False 1 rk ab g ISplit worked_mono [OF 1(2), of 2] show ?thesis by auto
    qed
  qed
qed

lemma log_step_full:
  assumes pc: "pc < length (cr_insts r)" and good: "rgood (log, row, next_row)" and acc: "acc_ok acc"
    and fits: "work_fits (cr_limits r) acc (inst_cost (cr_insts r ! pc))"
  shows "\<exists>log' acc'. log_step r h mark p pc ((log, row, next_row), acc) =
      Inr ((log', row[pc := cell_value h (cr_insts r ! pc) p ((!) row) ((!) next_row)], next_row), acc')
    \<and> lgood log' \<and> marked log' = (case cr_insts r ! pc of
        ISplit a b \<Rightarrow> (if row ! a \<noteq> 0 then (marked log)(rank_of (cr_insts r) pc := True) else marked log)
      | _ \<Rightarrow> marked log)
    \<and> worked (inst_cost (cr_insts r ! pc)) acc acc'"
proof -
  obtain acc1 where 1: "charge_state acc (max_work (cr_limits r)) = Inr acc1" "worked 1 acc acc1"
    "acc_ok acc1" "work_fits (cr_limits r) acc1 (inst_transitions (cr_insts r ! pc))"
    using charge_pair [OF acc] fits unfolding inst_cost_def by blast
  from log_value_ok [OF good pc 1(3,4)] obtain log' acc2 where
    2: "log_value r h mark p pc (cr_insts r ! pc) (log, row, next_row) acc1 =
      Inr (cell_value h (cr_insts r ! pc) p ((!) row) ((!) next_row), log', acc2)" "lgood log'"
    and m: "marked log' = (case cr_insts r ! pc of
        ISplit a b \<Rightarrow> (if row ! a \<noteq> 0 then (marked log)(rank_of (cr_insts r) pc := True) else marked log)
      | _ \<Rightarrow> marked log)"
    and w: "worked (inst_transitions (cr_insts r ! pc)) acc1 acc2" by blast
  from good have "length row = length (cr_insts r)" by (simp add: rgood_def)
  with 1(1) 2 pc have "log_step r h mark p pc ((log, row, next_row), acc) =
      Inr ((log', row[pc := cell_value h (cr_insts r ! pc) p ((!) row) ((!) next_row)], next_row), acc2)"
    by (simp add: log_step_def)
  moreover have "worked (inst_cost (cr_insts r ! pc)) acc acc2"
    unfolding inst_cost_def by (rule worked_trans [OF 1(2) w])
  ultimately show ?thesis using 2(2) m by (intro exI [of _ log'] exI [of _ acc2] conjI)
qed

lemma rdec_mark:
  assumes "pc < length (cr_insts r)" "cr_insts r ! pc = ISplit a b"
  shows "(pc' < length (cr_insts r) \<and> is_split (cr_insts r ! pc') \<and>
      ((marked log)(rank_of (cr_insts r) pc := True)) (rank_of (cr_insts r) pc')) =
    (pc' = pc \<or> rdec (log, row, next_row) pc')"
proof -
  have "is_split (cr_insts r ! pc)" using assms(2) by (simp add: is_split_def)
  moreover have "pc' = pc" if "pc' < length (cr_insts r)" "is_split (cr_insts r ! pc')"
      "rank_of (cr_insts r) pc' = rank_of (cr_insts r) pc" for pc'
  proof (rule linorder_cases [of pc' pc])
    assume "pc' < pc"
    from rank_of_inj [OF this assms(1) that(2)] that(3) show ?thesis by simp
  next
    assume "pc < pc'"
    from rank_of_inj [OF this that(1) calculation] that(3) show ?thesis by simp
  qed
  ultimately show ?thesis using assms(1) by (auto simp: rdec_def)
qed

end

sublocale log_marks \<subseteq> row_log "cr_insts r" h p "cr_limits r" "log_step r h mark p" rgood rcell rnext rdec
proof unfold_locales
  fix pc st acc
  assume a: "pc < length (cr_insts r)" "rgood st" "acc_ok acc"
    "work_fits (cr_limits r) acc (inst_cost (cr_insts r ! pc))"
  obtain log row next_row where st: "st = (log, row, next_row)" by (cases st)
  let ?v = "cell_value h (cr_insts r ! pc) p ((!) row) ((!) next_row)"
  have upd: "(!) (row[pc := ?v]) = ((!) row)(pc := ?v)"
    by (rule ext) (use a st in \<open>auto simp: rgood_def nth_list_update\<close>)
  show "\<exists>st' acc'. log_step r h mark p pc (st, acc) = Inr (st', acc') \<and> rgood st' \<and> rnext st' = rnext st
      \<and> rcell st' = (rcell st)(pc := cell_value h (cr_insts r ! pc) p (rcell st) (rnext st))
      \<and> worked (inst_cost (cr_insts r ! pc)) acc acc'"
    using log_step_full [OF a(1) a(2) [unfolded st] a(3,4)] a(2) upd st by (fastforce simp: rgood_def)
  fix st' acc' assume s: "log_step r h mark p pc (st, acc) = Inr (st', acc')"
  from log_step_full [OF a(1) a(2) [unfolded st] a(3,4)] s st obtain log' where
    st': "st' = (log', row[pc := ?v], next_row)" and m: "marked log' = (case cr_insts r ! pc of
        ISplit a b \<Rightarrow> (if row ! a \<noteq> 0 then (marked log)(rank_of (cr_insts r) pc := True) else marked log)
      | _ \<Rightarrow> marked log)" by auto
  show "rdec st' = (case cr_insts r ! pc of
      ISplit a b \<Rightarrow> (rdec st)(pc := rdec st pc \<or> rcell st a \<noteq> 0) | _ \<Rightarrow> rdec st)"
  proof (cases "cr_insts r ! pc")
    case (ISplit a' b')
    show ?thesis
    proof (cases "row ! a' = 0")
      case True
      with m ISplit st st' show ?thesis by (auto simp: fun_eq_iff rdec_def)
    next
      case False
      with m ISplit st st' rdec_mark [OF a(1) ISplit, of _ log row next_row] show ?thesis
        by (auto simp: fun_eq_iff rdec_def)
    qed
  qed (use m st st' in \<open>auto simp: rdec_def\<close>)
qed

text \<open>What a finished row of a log says about boundary \<open>u\<close>: which splits prefer their first branch, and whether the start matches.\<close>

definition row_logged :: "lab_ast \<Rightarrow> compiled_regex \<Rightarrow> bytes \<Rightarrow> nat \<Rightarrow> (nat \<Rightarrow> bool) \<Rightarrow> bool \<Rightarrow> bool" where
  "row_logged ast r h u dec root \<longleftrightarrow> (root \<longleftrightarrow> lab_sel ast h u \<noteq> None) \<and>
     (\<forall>pc a b es. pc < length (cr_insts r) \<longrightarrow> cr_insts r ! pc = ISplit a b \<longrightarrow> paths (cr_insts r) h a u es \<longrightarrow>
        dec (rank_of (cr_insts r) pc) = (es \<noteq> []))"

definition row_values :: "compiled_regex \<Rightarrow> bytes \<Rightarrow> nat \<Rightarrow> nat list \<Rightarrow> bool" where
  "row_values r h u row \<longleftrightarrow> length row = length (cr_insts r) \<and>
     (\<forall>c es. paths (cr_insts r) h c u es \<longrightarrow> row ! c = enc es)"

lemma row_values_entry:
  assumes "row_values r h u row" "means r ast" "u \<le> length h"
  shows "row ! cr_entry r \<noteq> 0 \<longleftrightarrow> lab_sel ast h u \<noteq> None"
proof -
  have "row ! cr_entry r = enc (ends h ast u)" using assms by (auto simp: row_values_def means_def)
  then show ?thesis by (cases "ends h ast u") (auto simp: lab_sel_def)
qed

context log_marks
begin

lemma marks_row:
  assumes wc: "well_compiled r" "means r ast" and p: "p \<le> length h" "length h < usize_max"
    and rows: "length row = length (cr_insts r)" "length next_row = length (cr_insts r)"
    and nxt: "p < length h \<Longrightarrow> row_values r h (Suc p) next_row"
    and log: "lgood log" "\<And>rank. rank < cr_split_count r \<Longrightarrow> \<not> marked log rank"
    and acc: "acc_ok acc" "work_fits (cr_limits r) acc (build_cost (cr_insts r))"
  obtains log' row' acc' where
    "rfold (log_step r h mark p) (cr_epsilon_order r) ((log, row, next_row), acc) = Inr ((log', row', next_row), acc')"
    "lgood log'" "row_values r h p row'" "row_logged ast r h p (marked log') (row' ! cr_entry r \<noteq> 0)"
    "worked (build_cost (cr_insts r)) acc acc'"
proof -
  have ord: "order_ok (cr_insts r) (cr_epsilon_order r)" using wc(1) by (simp add: well_compiled_def)
  have good: "rgood (log, row, next_row)" using wc p rows log(1) by (simp add: rgood_def)
  have none: "rdec (log, row, next_row) = (\<lambda>_. False)"
    using log(2) rank_of_less wc(1) by (auto simp: rdec_def well_compiled_def)
  have nx: "rnext (log, row, next_row) t = enc es" if "p < length h" "paths (cr_insts r) h t (Suc p) es" for t es
    using nxt [OF that(1)] that(2) by (simp add: row_values_def)
  from whole_row_ok [OF ord good acc nx] obtain st' acc' where
    1: "rfold (log_step r h mark p) (cr_epsilon_order r) ((log, row, next_row), acc) = Inr (st', acc')" "rgood st'"
    "rnext st' = rnext (log, row, next_row)" "\<forall>c es. paths (cr_insts r) h c p es \<longrightarrow> rcell st' c = enc es"
    "worked (build_cost (cr_insts r)) acc acc'" by blast
  note dec = whole_row_dec [OF ord good acc nx 1(1) none]
  obtain log' row' next' where st': "st' = (log', row', next')" by (cases st')
  have "next' = next_row" using 1(2,3) rows st' by (auto simp: rgood_def fun_eq_iff intro: nth_equalityI)
  moreover have rv: "row_values r h p row'" using 1(2,4) st' by (simp add: row_values_def rgood_def)
  moreover have "row_logged ast r h p (marked log') (row' ! cr_entry r \<noteq> 0)"
    unfolding row_logged_def row_values_entry [OF rv wc(2) p(1)]
    using dec st' by (auto simp: rdec_def is_split_def)
  ultimately show thesis using that 1 st' by (simp add: rgood_def)
qed

end

section \<open>Replay\<close>

text \<open>One turn of the replay loop either returns the end or moves to another state and boundary.\<close>

datatype replay_turn = Finished nat | Moved nat nat

definition replay_step ::
    "compiled_regex \<Rightarrow> bytes \<Rightarrow> (nat \<Rightarrow> nat \<Rightarrow> 'st run_state \<Rightarrow> lab_error + (bool \<times> 'st run_state))
     \<Rightarrow> nat \<Rightarrow> nat \<Rightarrow> 'st run_state \<Rightarrow> lab_error + (replay_turn \<times> 'st run_state)" where
  "replay_step r h decide pc position = (\<lambda>(st, acc).
     rbind (charge_replay acc (max_work (cr_limits r))) (\<lambda>acc.
     rbind (vget (cr_insts r) pc) (\<lambda>i.
     case i of
       IMatch \<Rightarrow> Inr (Finished position, st, acc)
     | IByte expected nxt \<Rightarrow>
         if position \<ge> length h \<or> \<not> byte_ok expected (h ! position) then Inl InvalidDecisionLog
         else rbind (checked_add position 1 Boundaries) (\<lambda>position. Inr (Moved nxt position, st, acc))
     | IAssertStart nxt \<Rightarrow>
         if position \<noteq> 0 then Inl InvalidDecisionLog else Inr (Moved nxt position, st, acc)
     | IAssertEnd nxt \<Rightarrow>
         if position \<noteq> length h then Inl InvalidDecisionLog else Inr (Moved nxt position, st, acc)
     | ISplit preferred fallback \<Rightarrow>
         rbind (vget (cr_split_rank r) pc) (\<lambda>entry.
         rbind (ok_or entry InvalidDecisionLog) (\<lambda>rank.
         rbind (decide position rank (st, acc)) (\<lambda>(d, rs).
         Inr (Moved (if d then preferred else fallback) position, rs)))))))"

text \<open>
  Every turn is charged, so a loop whose reads leave the work total alone ends when the total
  reaches the limit: the measure of both replay loops.
\<close>

definition replay_measure :: "compiled_regex \<Rightarrow> 'st run_state \<Rightarrow> nat" where
  "replay_measure r rs = Suc (max_work (cr_limits r)) - total_work (snd rs)"

lemma charge_replay_total:
  "charge_replay acc m = Inr acc' \<Longrightarrow> total_work acc' = Suc (total_work acc) \<and> total_work acc' \<le> m
     \<and> read_bytes acc' = read_bytes acc"
  by (auto simp: charge_replay_def charge_total_def split: if_splits elim!: rbindE)

lemma replay_step_charges:
  assumes "replay_step r h decide pc position (st, acc) = Inr (turn, st', acc')"
    and "\<And>rank acc1 d st2 acc2. decide position rank (st, acc1) = Inr (d, st2, acc2) \<Longrightarrow> total_work acc2 = total_work acc1"
  shows "replay_measure r (st', acc') < replay_measure r (st, acc)"
  using assms
  by (auto simp: replay_step_def replay_measure_def split: inst.splits if_splits elim!: rbindE
      dest!: charge_replay_total)

text \<open>Replaying from a state costs at most its place in the same-boundary order at each boundary.\<close>

definition place :: "nat list \<Rightarrow> nat \<Rightarrow> nat" where
  "place order pc = length (takeWhile (\<lambda>v. v \<noteq> pc) order)"

lemma place_less: "pc \<in> set order \<Longrightarrow> place order pc < length order"
  unfolding place_def by (induction order) auto

lemma place_child:
  assumes "order_ok P order" "pc < length P" "c \<in> set (ch P pc)"
  shows "place order c < place order pc"
proof -
  from assms(1,2) have "pc \<in> set order" by (simp add: order_ok_def)
  then obtain xs ys where o: "order = xs @ pc # ys" "pc \<notin> set xs" by (metis split_list_first)
  have "c \<in> set xs" using assms(1,3) o(1) by (auto simp: order_ok_def topological_append)
  moreover from o have "place order pc = length xs"
    unfolding place_def o(1) by (subst takeWhile_append2) auto
  moreover have "place order c = place xs c"
    using \<open>c \<in> set xs\<close> unfolding o(1) place_def by auto
  ultimately show ?thesis using place_less by simp
qed

locale replay_log =
  fixes r :: compiled_regex and h :: bytes
    and decide :: "nat \<Rightarrow> nat \<Rightarrow> 'st run_state \<Rightarrow> lab_error + (bool \<times> 'st run_state)"
    and loop :: "nat \<Rightarrow> nat \<Rightarrow> 'st run_state \<Rightarrow> lab_error + (nat \<times> 'st run_state)"
    and inv :: "nat \<Rightarrow> 'st \<Rightarrow> nat \<Rightarrow> bool"
  assumes loop: "loop pc position rs = rbind (replay_step r h decide pc position rs) (\<lambda>(turn, rs).
      case turn of Finished e \<Rightarrow> Inr (e, rs) | Moved pc position \<Rightarrow> loop pc position rs)"
    and inv_ready: "inv p st rb \<Longrightarrow> well_compiled r \<and> length h < usize_max"
    and inv_move: "inv p st rb \<Longrightarrow> p \<le> p' \<Longrightarrow> inv p' st rb"
    and decide_ok: "inv p st (read_bytes acc) \<Longrightarrow> p \<le> length h \<Longrightarrow> acc_ok acc \<Longrightarrow> pc < length (cr_insts r) \<Longrightarrow>
      cr_insts r ! pc = ISplit a b \<Longrightarrow> paths (cr_insts r) h a p es \<Longrightarrow>
      \<exists>st' acc'. decide p (rank_of (cr_insts r) pc) (st, acc) = Inr (es \<noteq> [], st', acc')
        \<and> inv p st' (read_bytes acc') \<and> worked 0 acc acc'"
begin

abbreviation cost :: "nat \<Rightarrow> nat \<Rightarrow> nat \<Rightarrow> nat" where
  "cost pc p e \<equiv> (e - p) * length (cr_insts r) + Suc (place (cr_epsilon_order r) pc)"

lemma charged:
  assumes "acc_ok acc" "work_fits (cr_limits r) acc (Suc c)"
  obtains acc1 where "charge_replay acc (max_work (cr_limits r)) = Inr acc1" "worked 1 acc acc1" "acc_ok acc1"
    "read_bytes acc1 = read_bytes acc" "work_fits (cr_limits r) acc1 c"
  using charge_fits(4) [OF assms(1), of "cr_limits r"] work_fits_mono [OF assms(2), of 1]
    work_fits_after [of "cr_limits r" acc 1 c] assms(2) that
  by (fastforce simp: worked_def)

lemma loop_IMatch:
  assumes "pc < length (cr_insts r)" "cr_insts r ! pc = IMatch" "charge_replay acc (max_work (cr_limits r)) = Inr acc1"
  shows "loop pc p (st, acc) = Inr (p, st, acc1)"
  by (subst loop) (use assms in \<open>simp add: replay_step_def\<close>)

lemma loop_IByte:
  assumes "pc < length (cr_insts r)" "cr_insts r ! pc = IByte x t" "charge_replay acc (max_work (cr_limits r)) = Inr acc1"
    and "p < length h" "byte_ok x (h ! p)" "length h < usize_max"
  shows "loop pc p (st, acc) = loop t (Suc p) (st, acc1)"
  by (subst loop) (use assms in \<open>simp add: replay_step_def\<close>)

lemma loop_assert:
  assumes "pc < length (cr_insts r)" "charge_replay acc (max_work (cr_limits r)) = Inr acc1"
    and "cr_insts r ! pc = IAssertStart t \<and> p = 0 \<or> cr_insts r ! pc = IAssertEnd t \<and> p = length h"
  shows "loop pc p (st, acc) = loop t p (st, acc1)"
  by (subst loop) (use assms in \<open>auto simp: replay_step_def\<close>)

lemma loop_ISplit:
  assumes "pc < length (cr_insts r)" "cr_insts r ! pc = ISplit a b" "charge_replay acc (max_work (cr_limits r)) = Inr acc1"
    and "well_compiled r" "decide p (rank_of (cr_insts r) pc) (st, acc1) = Inr (d, st2, acc2)"
  shows "loop pc p (st, acc) = loop (if d then a else b) p (st2, acc2)"
proof -
  have "vget (cr_split_rank r) pc = Inr (Some (rank_of (cr_insts r) pc))"
    using assms(1,2,4) by (simp add: well_compiled_def is_split_def)
  with assms show ?thesis by (subst loop) (simp add: replay_step_def)
qed

text \<open>A turn that moves on: what holds of the state moved to holds of this one.\<close>

definition replays :: "nat \<Rightarrow> nat \<Rightarrow> nat \<Rightarrow> bool" where
  "replays pc p e \<longleftrightarrow> (\<forall>st acc. inv p st (read_bytes acc) \<longrightarrow> acc_ok acc \<longrightarrow> work_fits (cr_limits r) acc (cost pc p e) \<longrightarrow>
     (\<exists>st' acc'. loop pc p (st, acc) = Inr (e, st', acc') \<and> inv e st' (read_bytes acc') \<and> worked (cost pc p e) acc acc'))"

lemma replays_turn:
  assumes cost: "Suc (cost t p' e) \<le> cost pc p e" and rest: "replays t p' e"
    and turn: "\<And>st acc acc1. inv p st (read_bytes acc1) \<Longrightarrow> acc_ok acc1 \<Longrightarrow>
      charge_replay acc (max_work (cr_limits r)) = Inr acc1 \<Longrightarrow>
      \<exists>st2 acc2. loop pc p (st, acc) = loop t p' (st2, acc2) \<and> inv p' st2 (read_bytes acc2) \<and> worked 0 acc1 acc2"
  shows "replays pc p e"
  unfolding replays_def
proof (intro allI impI)
  fix st acc
  assume i: "inv p st (read_bytes acc)" "acc_ok acc" "work_fits (cr_limits r) acc (cost pc p e)"
  from charged [OF i(2) work_fits_mono [OF i(3) cost]] obtain acc1 where
    1: "charge_replay acc (max_work (cr_limits r)) = Inr acc1" "worked 1 acc acc1" "acc_ok acc1"
    "read_bytes acc1 = read_bytes acc" by blast
  from turn [OF _ 1(3,1)] i(1) 1(4) obtain st2 acc2 where
    2: "loop pc p (st, acc) = loop t p' (st2, acc2)" "inv p' st2 (read_bytes acc2)" "worked 0 acc1 acc2" by metis
  from worked_trans [OF 1(2) 2(3)] have w: "worked 1 acc acc2" by simp
  have "work_fits (cr_limits r) acc2 (cost t p' e)"
    using work_fits_after [OF _ w, of "cr_limits r" "cost t p' e"] work_fits_mono [OF i(3) cost] by simp
  moreover have "acc_ok acc2" using w by (simp add: worked_def)
  ultimately obtain st3 acc3 where 3: "loop t p' (st2, acc2) = Inr (e, st3, acc3)" "inv e st3 (read_bytes acc3)"
    "worked (cost t p' e) acc2 acc3" using rest 2(2) unfolding replays_def by blast
  have "worked (cost pc p e) acc acc3"
    using worked_mono [OF worked_trans [OF w 3(3)]] cost by simp
  with 2 3 show "\<exists>st' acc'. loop pc p (st, acc) = Inr (e, st', acc') \<and> inv e st' (read_bytes acc') \<and>
      worked (cost pc p e) acc acc'" by auto
qed

lemma replays_first:
  assumes "paths (cr_insts r) h pc p es" "first_of es = Some e" "p \<le> length h"
    and wc: "well_compiled r" "length h < usize_max"
  shows "replays pc p e"
  using assms(1-3)
proof (induction rule: paths.induct)
  case (accept pc p)
  then have e: "e = p" by simp
  show ?case unfolding replays_def e
  proof (intro allI impI)
    fix st acc assume i: "inv p st (read_bytes acc)" "acc_ok acc" "work_fits (cr_limits r) acc (cost pc p p)"
    obtain acc1 where 1: "charge_replay acc (max_work (cr_limits r)) = Inr acc1" "worked 1 acc acc1"
      "read_bytes acc1 = read_bytes acc"
      using charged [OF i(2), of 0] work_fits_mono [OF i(3), of "Suc 0"] by auto
    with loop_IMatch [OF accept.hyps 1(1)] i(1) worked_mono [OF 1(2), of "cost pc p p"]
    show "\<exists>st' acc'. loop pc p (st, acc) = Inr (p, st', acc') \<and> inv p st' (read_bytes acc') \<and>
        worked (cost pc p p) acc acc'" by auto
  qed
next
  case (follow pc p ess)
  note pc = follow.hyps(1)
  have ord: "order_ok (cr_insts r) (cr_epsilon_order r)" using wc(1) by (simp add: well_compiled_def)
  have child: "Suc (cost t p e) \<le> cost pc p e" if "t \<in> set (ch (cr_insts r) pc)" for t
    using place_child [OF ord pc that] by simp
  show ?case
  proof (cases "cr_insts r ! pc")
    case IMatch
    with follow.hyps show ?thesis by simp
  next
    case (IByte x t)
    with follow obtain es where t: "paths (cr_insts r) h t (Suc p) es" "replays t (Suc p) e"
      "p < length h" "byte_ok x (h ! p)" "e \<in> set es"
      by (auto simp: consume_def list_all2_Cons1 first_of_in_set split: if_splits)
    have "t \<in> set (cr_epsilon_order r)" using ord paths_succs [OF t(1)] by (simp add: order_ok_def)
    from place_less [OF this] order_ok_length [OF ord] have "place (cr_epsilon_order r) t < length (cr_insts r)" by simp
    moreover have "e - p = Suc (e - Suc p)" using paths_bounds [OF t(1)] t(5) by auto
    ultimately have "Suc (cost t (Suc p) e) \<le> cost pc p e" by simp
    then show ?thesis using t(2)
    proof (rule replays_turn)
      fix st acc acc1
      assume 1: "inv p st (read_bytes acc1)" "acc_ok acc1" "charge_replay acc (max_work (cr_limits r)) = Inr acc1"
      from loop_IByte [OF pc IByte 1(3) t(3,4) wc(2)] inv_move [OF 1(1), of "Suc p"] worked_refl [OF 1(2)]
      show "\<exists>st2 acc2. loop pc p (st, acc) = loop t (Suc p) (st2, acc2) \<and> inv (Suc p) st2 (read_bytes acc2) \<and>
          worked 0 acc1 acc2" by auto
    qed
  next
    case (IAssertStart t)
    with follow have t: "p = 0" "replays t p e" by (auto simp: list_all2_Cons1 split: if_splits)
    from child [of t] IAssertStart have "Suc (cost t p e) \<le> cost pc p e" by (simp add: ch_def)
    then show ?thesis using t(2)
      by (rule replays_turn) (use loop_assert [OF pc] IAssertStart t(1) worked_refl in blast)
  next
    case (IAssertEnd t)
    with follow have t: "p = length h" "replays t p e" by (auto simp: list_all2_Cons1 split: if_splits)
    from child [of t] IAssertEnd have "Suc (cost t p e) \<le> cost pc p e" by (simp add: ch_def)
    then show ?thesis using t(2)
      by (rule replays_turn) (use loop_assert [OF pc] IAssertEnd t(1) worked_refl in blast)
  next
    case (ISplit a b)
    with follow obtain es1 es2 where s: "ess = [es1, es2]" "paths (cr_insts r) h a p es1"
      "first_of es1 = Some e \<Longrightarrow> replays a p e" "first_of es2 = Some e \<Longrightarrow> replays b p e"
      by (auto simp: list_all2_Cons1)
    let ?t = "if es1 \<noteq> [] then a else b"
    have t: "replays ?t p e" using s follow.prems(1) by (cases es1) auto
    from child [of ?t] ISplit have "Suc (cost ?t p e) \<le> cost pc p e" by (simp add: ch_def)
    then show ?thesis using t
    proof (rule replays_turn)
      fix st acc acc1
      assume 1: "inv p st (read_bytes acc1)" "acc_ok acc1" "charge_replay acc (max_work (cr_limits r)) = Inr acc1"
      from decide_ok [OF 1(1) follow.prems(2) 1(2) pc ISplit s(2)] obtain st2 acc2 where
        2: "decide p (rank_of (cr_insts r) pc) (st, acc1) = Inr (es1 \<noteq> [], st2, acc2)"
        "inv p st2 (read_bytes acc2)" "worked 0 acc1 acc2" by blast
      from loop_ISplit [OF pc ISplit 1(3) wc(1) 2(1)] 2(2,3)
      show "\<exists>st2 acc2. loop pc p (st, acc) = loop ?t p (st2, acc2) \<and> inv p st2 (read_bytes acc2) \<and>
          worked 0 acc1 acc2" by blast
    qed
  qed
qed

text \<open>The replay of a selected start, within the work that the admission sets aside for it.\<close>

lemma replay_ok:
  assumes "means r ast" "lab_sel ast h p = Some e" "p \<le> length h" "inv p st (read_bytes acc)" "acc_ok acc"
    and "work_fits (cr_limits r) acc (length (cr_insts r) * (e - p + 1))"
  shows "\<exists>st' acc'. loop (cr_entry r) p (st, acc) = Inr (e, st', acc') \<and> inv e st' (read_bytes acc')
    \<and> worked (length (cr_insts r) * (e - p + 1)) acc acc'"
proof -
  note wc = inv_ready [OF assms(4)]
  have ord: "order_ok (cr_insts r) (cr_epsilon_order r)" "cr_entry r < length (cr_insts r)"
    using wc by (auto simp: well_compiled_def)
  have "paths (cr_insts r) h (cr_entry r) p (ends h ast p)" using assms(1,3) by (simp add: means_def)
  from replays_first [OF this assms(2) [unfolded lab_sel_def] assms(3)] wc have "replays (cr_entry r) p e" by blast
  moreover have c: "cost (cr_entry r) p e \<le> length (cr_insts r) * (e - p + 1)"
    using place_less [of "cr_entry r" "cr_epsilon_order r"] order_ok_length [OF ord(1)] ord
    by (simp add: order_ok_def mult.commute)
  ultimately obtain st' acc' where "loop (cr_entry r) p (st, acc) = Inr (e, st', acc')" "inv e st' (read_bytes acc')"
    "worked (cost (cr_entry r) p e) acc acc'"
    using assms(4,5) work_fits_mono [OF assms(6) c] unfolding replays_def by blast
  with worked_mono [OF this(3) c] show ?thesis by blast
qed

end

end
