(* ===== verification/LabLog.thy ===== *)
theory LabLog
  imports LabReplay
begin

text \<open>
  \<^verbatim>\<open>crates/fre-iterator-lab/src/decision_log.rs\<close>: the executor that keeps one bit for every split
  and boundary, and one for every start, in 64-bit words, and replays only selected matches.
\<close>

section \<open>The bit log\<close>

record bit_log =
  bl_words :: "u64w list"
  bl_split_count :: nat
  bl_root_base :: nat

definition bit_log_new :: "allocator \<Rightarrow> nat \<Rightarrow> nat \<Rightarrow> nat \<Rightarrow> lab_error + bit_log" where
  "bit_log_new al split_count root_base words =
     rbind (try_reserve al ResidentLogBytes words) (\<lambda>_.
     Inr \<lparr>bl_words = replicate words 0, bl_split_count = split_count, bl_root_base = root_base\<rparr>)"

definition decision_index :: "bit_log \<Rightarrow> nat \<Rightarrow> nat \<Rightarrow> lab_error + nat" where
  "decision_index log position split_rank =
     rbind (checked_mul position (bl_split_count log) Bytes) (\<lambda>row. checked_add row split_rank Bytes)"

definition log_set :: "bit_log \<Rightarrow> nat \<Rightarrow> bool \<Rightarrow> lab_error + bit_log" where
  "log_set log index value =
     (if index div 64 < length (bl_words log)
      then Inr (if value
        then log\<lparr>bl_words := (bl_words log)[index div 64 := bl_words log ! (index div 64) OR push_bit (index mod 64) 1]\<rparr>
        else log)
      else Inl InvalidDecisionLog)"

definition log_get :: "bit_log \<Rightarrow> nat \<Rightarrow> lab_error + bool" where
  "log_get log index =
     (if index div 64 < length (bl_words log)
      then Inr (bl_words log ! (index div 64) AND push_bit (index mod 64) 1 \<noteq> 0)
      else Inl InvalidDecisionLog)"

definition set_decision :: "bit_log \<Rightarrow> nat \<Rightarrow> nat \<Rightarrow> bool \<Rightarrow> lab_error + bit_log" where
  "set_decision log position split_rank preferred =
     rbind (decision_index log position split_rank) (\<lambda>index. log_set log index preferred)"

definition log_decision :: "bit_log \<Rightarrow> nat \<Rightarrow> nat \<Rightarrow> lab_error + bool" where
  "log_decision log position split_rank =
     rbind (decision_index log position split_rank) (\<lambda>index. log_get log index)"

definition set_root :: "bit_log \<Rightarrow> nat \<Rightarrow> bool \<Rightarrow> lab_error + bit_log" where
  "set_root log position hit =
     rbind (checked_add (bl_root_base log) position Bytes) (\<lambda>index. log_set log index hit)"

definition log_root :: "bit_log \<Rightarrow> nat \<Rightarrow> lab_error + bool" where
  "log_root log position =
     rbind (checked_add (bl_root_base log) position Bytes) (\<lambda>index. log_get log index)"

section \<open>Admission\<close>

record log_admission =
  la_decision_bits :: nat
  la_logical_bytes :: nat
  la_words :: nat
  la_resident_bytes :: nat
  la_row_bytes :: nat

text \<open>\<^verbatim>\<open>size_of::<u64>()\<close> is 8.\<close>

definition ceil_div :: "nat \<Rightarrow> nat \<Rightarrow> lab_error + nat" where
  "ceil_div value divisor =
     rbind (ok_or (usub divisor 1) InvalidDecisionLog) (\<lambda>adjustment.
     rbind (checked_add value adjustment Bytes) (\<lambda>sum.
     if divisor = 0 then Inl InvalidDecisionLog else Inr (sum div divisor)))"

definition zeroed_words :: "allocator \<Rightarrow> nat \<Rightarrow> lab_error + nat list" where
  "zeroed_words al n = rbind (try_reserve al RandomAccessBytes n) (\<lambda>_. Inr (replicate n 0))"

definition admit_log :: "compiled_regex \<Rightarrow> nat \<Rightarrow> lab_error + log_admission" where
  "admit_log r bounds =
     (let l = cr_limits r in
      rbind (checked_mul (cr_split_count r) bounds Bytes) (\<lambda>decision_bits.
      rbind (checked_add decision_bits bounds Bytes) (\<lambda>logical_bits.
      rbind (ceil_div logical_bits 8) (\<lambda>logical_bytes.
      rbind (enforce logical_bytes (max_log_bytes l) LogBytes) (\<lambda>_.
      rbind (ceil_div logical_bits 64) (\<lambda>words.
      rbind (checked_mul words 8 ResidentLogBytes) (\<lambda>resident_bytes.
      rbind (enforce resident_bytes (max_resident_log_bytes l) ResidentLogBytes) (\<lambda>_.
      rbind (checked_mul (length (cr_insts r)) 2 Bytes) (\<lambda>row_words.
      rbind (checked_mul row_words size_of_usize Bytes) (\<lambda>row_bytes.
      rbind (enforce row_bytes (max_random_access_bytes l) RandomAccessBytes) (\<lambda>_.
      rbind (maximum_build_work r bounds) (\<lambda>build_work.
      rbind (checked_mul bounds 2 Work) (\<lambda>root_work.
      rbind (checked_mul (length (cr_insts r)) bounds Work) (\<lambda>cells.
      rbind (checked_mul cells 4 Work) (\<lambda>replay_work.
      rbind (checked_add build_work root_work Work) (\<lambda>work.
      rbind (checked_add work replay_work Work) (\<lambda>maximum_work.
      rbind (enforce maximum_work (max_work l) Work) (\<lambda>_.
      Inr \<lparr>la_decision_bits = decision_bits, la_logical_bytes = logical_bytes, la_words = words,
        la_resident_bytes = resident_bytes, la_row_bytes = row_bytes\<rparr>))))))))))))))))))"

section \<open>Population and replay\<close>

definition log_row ::
    "compiled_regex \<Rightarrow> bytes \<Rightarrow> nat \<Rightarrow> bit_log rows run_state \<Rightarrow> lab_error + bit_log rows run_state" where
  "log_row r h position rs =
     rbind (rfold (log_step r h (\<lambda>position rank log. set_decision log position rank True) position)
         (cr_epsilon_order r) rs) (\<lambda>((log, row, next_row), acc).
     rbind (vget row (cr_entry r)) (\<lambda>value.
     rbind (set_root log position (value \<noteq> 0)) (\<lambda>log.
     Inr ((log, next_row, row), acc))))"

definition populate_log ::
    "compiled_regex \<Rightarrow> bytes \<Rightarrow> nat \<Rightarrow> bit_log rows run_state \<Rightarrow> lab_error + bit_log rows run_state" where
  "populate_log r h bounds rs = rfold (log_row r h) (rev [0..<bounds]) rs"

definition log_decide :: "nat \<Rightarrow> nat \<Rightarrow> bit_log run_state \<Rightarrow> lab_error + (bool \<times> bit_log run_state)" where
  "log_decide position rank = (\<lambda>(log, acc). rbind (log_decision log position rank) (\<lambda>d. Inr (d, log, acc)))"

function replay ::
    "compiled_regex \<Rightarrow> bytes \<Rightarrow> nat \<Rightarrow> nat \<Rightarrow> bit_log run_state \<Rightarrow> lab_error + (nat \<times> bit_log run_state)" where
  "replay r h pc position rs =
     rbind (replay_step r h log_decide pc position rs) (\<lambda>(turn, rs).
     case turn of Finished e \<Rightarrow> Inr (e, rs) | Moved pc position \<Rightarrow> replay r h pc position rs)"
  by pat_completeness auto
termination
proof (relation "measure (\<lambda>(r, h, pc, position, rs). replay_measure r rs)")
  fix r h pc position turn pc' position' and rs x rs' :: "bit_log run_state" and t
  assume "replay_step r h log_decide pc position rs = Inr t" "(turn, rs') = t" "turn = Moved pc' position'"
  then show "((r, h, pc', position', rs'), r, h, pc, position, rs) \<in>
      measure (\<lambda>(r, h, pc, position, rs). replay_measure r rs)"
    using replay_step_charges [of r h log_decide pc position "fst rs" "snd rs" turn "fst rs'" "snd rs'"]
    by (fastforce simp: log_decide_def elim!: rbindE)
qed simp

declare replay.simps [simp del]

definition log_select :: "compiled_regex \<Rightarrow> bytes \<Rightarrow> bit_log selector_fun" where
  "log_select r h start = (\<lambda>(log, acc).
     rbind (log_root log start) (\<lambda>hit.
     if \<not> hit then Inr (None, log, acc)
     else rbind (replay r h (cr_entry r) start (log, acc)) (\<lambda>(e, rs). Inr (Some e, rs))))"

definition find_all_decision_log ::
    "allocator \<Rightarrow> compiled_regex \<Rightarrow> bytes \<Rightarrow> (lab_error + run_report) option" where
  "find_all_decision_log al r h =
     then_run (rbind (boundaries r h) (\<lambda>bounds.
       let acc = start_accounting r bounds in
       rbind (admit_log r bounds) (\<lambda>admission.
       rbind (reserve_output al bounds (cr_limits r)) (\<lambda>bytes.
       let acc = acc\<lparr>output_reserved_bytes := bytes\<rparr> in
       rbind (bit_log_new al (cr_split_count r) (la_decision_bits admission) (la_words admission)) (\<lambda>log.
       let acc = acc\<lparr>sequential_log_bytes := la_logical_bytes admission,
             resident_log_bytes := la_resident_bytes admission,
             random_access_peak_bytes := la_row_bytes admission\<rparr> in
       rbind (zeroed_words al (length (cr_insts r))) (\<lambda>next_row.
       rbind (zeroed_words al (length (cr_insts r))) (\<lambda>row.
       rbind (populate_log r h bounds ((log, row, next_row), acc)) (\<lambda>((log, row, next_row), acc).
       Inr (log, acc)))))))))
     (\<lambda>rs. report (collect_sequence (length h) (cr_limits r) (log_select r h) rs))"

section \<open>Reading what was written\<close>

lemma log_get_ok:
  "i < 64 * length (bl_words log) \<Longrightarrow> log_get log i = Inr (packed (bl_words log) i)"
  using packed_test [of i "bl_words log"] by (simp add: log_get_def less_mult_imp_div_less mult.commute)

lemma log_set_ok:
  assumes "i < 64 * length (bl_words log)"
  obtains log' where "log_set log i v = Inr log'" "bl_split_count log' = bl_split_count log"
    "bl_root_base log' = bl_root_base log" "length (bl_words log') = length (bl_words log)"
    "packed (bl_words log') = (if v then (packed (bl_words log))(i := True) else packed (bl_words log))"
proof -
  have "i div 64 < length (bl_words log)" using assms by (simp add: less_mult_imp_div_less mult.commute)
  with that packed_update [of i "bl_words log"] show thesis
    by (cases v) (auto simp: log_set_def)
qed

section \<open>The log is correct\<close>

definition log_shape :: "compiled_regex \<Rightarrow> bytes \<Rightarrow> bit_log \<Rightarrow> bool" where
  "log_shape r h log \<longleftrightarrow> well_compiled r \<and> length h < usize_max \<and> bl_split_count log = cr_split_count r \<and>
     bl_root_base log = cr_split_count r * Suc (length h) \<and>
     cr_split_count r * Suc (length h) + Suc (length h) \<le> usize_max \<and>
     cr_split_count r * Suc (length h) + Suc (length h) \<le> 64 * length (bl_words log)"

abbreviation dec_bit :: "compiled_regex \<Rightarrow> nat \<Rightarrow> bit_log \<Rightarrow> nat \<Rightarrow> bool" where
  "dec_bit r p log rank \<equiv> packed (bl_words log) (p * cr_split_count r + rank)"

abbreviation root_bit :: "compiled_regex \<Rightarrow> bytes \<Rightarrow> bit_log \<Rightarrow> nat \<Rightarrow> bool" where
  "root_bit r h log p \<equiv> packed (bl_words log) (cr_split_count r * Suc (length h) + p)"

lemma row_below: "p \<le> n \<Longrightarrow> rank < s \<Longrightarrow> p * s + rank < s * Suc n"
  for s :: nat
proof -
  assume a: "p \<le> n" "rank < s"
  have "p * s + rank < Suc p * s" using a(2) by simp
  also have "\<dots> \<le> Suc n * s" using a(1) by (intro mult_le_mono1) simp
  finally show ?thesis by (simp add: mult.commute)
qed

lemma decision_index_ok:
  assumes "log_shape r h log" "p \<le> length h" "rank < cr_split_count r"
  shows "decision_index log p rank = Inr (p * cr_split_count r + rank)"
    and "p * cr_split_count r + rank < 64 * length (bl_words log)"
  using assms row_below [OF assms(2,3)] by (auto simp: decision_index_def log_shape_def simp del: mult_Suc_right)

lemma root_index_ok:
  assumes "log_shape r h log" "p \<le> length h"
  shows "checked_add (bl_root_base log) p Bytes = Inr (cr_split_count r * Suc (length h) + p)"
    and "cr_split_count r * Suc (length h) + p < 64 * length (bl_words log)"
  using assms by (auto simp: log_shape_def simp del: mult_Suc_right)

lemma log_decision_ok:
  "log_shape r h log \<Longrightarrow> p \<le> length h \<Longrightarrow> rank < cr_split_count r \<Longrightarrow>
     log_decision log p rank = Inr (dec_bit r p log rank)"
  by (simp add: log_decision_def decision_index_ok log_get_ok)

lemma log_root_ok: "log_shape r h log \<Longrightarrow> p \<le> length h \<Longrightarrow> log_root log p = Inr (root_bit r h log p)"
  by (simp add: log_root_def root_index_ok log_get_ok del: mult_Suc_right)

text \<open>While row \<open>p\<close> is evaluated only its own bits change.\<close>

definition log_frame :: "compiled_regex \<Rightarrow> bytes \<Rightarrow> nat \<Rightarrow> bit_log \<Rightarrow> bit_log \<Rightarrow> bool" where
  "log_frame r h p log0 log \<longleftrightarrow> log_shape r h log \<and> p \<le> length h \<and>
     (\<forall>i. i < p * cr_split_count r \<or> Suc p * cr_split_count r \<le> i \<longrightarrow> packed (bl_words log) i = packed (bl_words log0) i)"

interpretation dlog: log_marks r h p "\<lambda>position rank log. set_decision log position rank True"
  "log_frame r h p log0" "dec_bit r p" for r h p log0
proof unfold_locales
  fix log rank
  assume a: "log_frame r h p log0 log" "rank < cr_split_count r"
  then have sh: "log_shape r h log" "p \<le> length h" by (auto simp: log_frame_def)
  note ix = decision_index_ok [OF sh a(2)]
  obtain log' where l: "log_set log (p * cr_split_count r + rank) True = Inr log'"
    "bl_split_count log' = bl_split_count log" "bl_root_base log' = bl_root_base log"
    "length (bl_words log') = length (bl_words log)"
    "packed (bl_words log') = (packed (bl_words log))(p * cr_split_count r + rank := True)"
    using log_set_ok [OF ix(2), of True] by auto
  then show "\<exists>log'. set_decision log p rank True = Inr log' \<and> log_frame r h p log0 log' \<and>
      dec_bit r p log' = (dec_bit r p log)(rank := True)"
    using a sh ix by (auto simp: set_decision_def log_frame_def log_shape_def)
qed

text \<open>The bits of the rows from \<open>p\<close> on are right, those below are still zero.\<close>

definition log_rows :: "lab_ast \<Rightarrow> compiled_regex \<Rightarrow> bytes \<Rightarrow> nat \<Rightarrow> bit_log \<Rightarrow> bool" where
  "log_rows ast r h p log \<longleftrightarrow> log_shape r h log \<and>
     (\<forall>u. p \<le> u \<longrightarrow> u \<le> length h \<longrightarrow> row_logged ast r h u (dec_bit r u log) (root_bit r h log u)) \<and>
     (\<forall>i. i < p * cr_split_count r \<longrightarrow> \<not> packed (bl_words log) i) \<and> (\<forall>u. u < p \<longrightarrow> \<not> root_bit r h log u)"

lemma row_logged_cong:
  assumes "row_logged ast r h u dec root" "\<And>rank. rank < cr_split_count r \<Longrightarrow> dec' rank = dec rank"
    and "well_compiled r"
  shows "row_logged ast r h u dec' root"
proof -
  have "dec' (rank_of (cr_insts r) pc) = dec (rank_of (cr_insts r) pc)"
    if "pc < length (cr_insts r)" "cr_insts r ! pc = ISplit a b" for pc a b
    using rank_of_less [OF that(1)] that(2) assms(2,3) by (simp add: well_compiled_def is_split_def)
  with assms(1) show ?thesis unfolding row_logged_def by metis
qed

lemma log_row_ok:
  assumes means: "means r ast" and rows: "log_rows ast r h (Suc p) log" and p: "p \<le> length h"
    and len: "length row = length (cr_insts r)" "length next_row = length (cr_insts r)"
    and nxt: "p < length h \<Longrightarrow> row_values r h (Suc p) next_row"
    and acc: "acc_ok acc" "work_fits (cr_limits r) acc (build_cost (cr_insts r))"
  obtains log' row' acc' where "log_row r h p ((log, row, next_row), acc) = Inr ((log', next_row, row'), acc')"
    "log_rows ast r h p log'" "row_values r h p row'" "worked (build_cost (cr_insts r)) acc acc'"
proof -
  let ?s = "cr_split_count r" and ?u = "Suc (length h)"
  have sh: "log_shape r h log" using rows by (simp add: log_rows_def)
  then have wc: "well_compiled r" "length h < usize_max" by (auto simp: log_shape_def)
  have frame: "log_frame r h p log log" using sh p by (simp add: log_frame_def)
  have clear: "\<not> dec_bit r p log rank" if "rank < ?s" for rank
    using rows that by (auto simp: log_rows_def)
  obtain log1 row' acc' where
    1: "rfold (log_step r h (\<lambda>position rank log. set_decision log position rank True) p) (cr_epsilon_order r)
        ((log, row, next_row), acc) = Inr ((log1, row', next_row), acc')"
    "log_frame r h p log log1" "row_values r h p row'"
    "row_logged ast r h p (dec_bit r p log1) (row' ! cr_entry r \<noteq> 0)" "worked (build_cost (cr_insts r)) acc acc'"
    using dlog.marks_row [OF wc(1) means p wc(2) len nxt frame clear acc] by blast
  have sh1: "log_shape r h log1" using 1(2) by (simp add: log_frame_def)
  obtain log' where 2: "set_root log1 p (row' ! cr_entry r \<noteq> 0) = Inr log'"
    "bl_split_count log' = bl_split_count log1" "bl_root_base log' = bl_root_base log1"
    "length (bl_words log') = length (bl_words log1)"
    "packed (bl_words log') = (if row' ! cr_entry r \<noteq> 0
       then (packed (bl_words log1))(?s * ?u + p := True) else packed (bl_words log1))"
    using log_set_ok [OF root_index_ok(2) [OF sh1 p], of "row' ! cr_entry r \<noteq> 0"] root_index_ok(1) [OF sh1 p]
    by (auto simp: set_root_def simp del: mult_Suc_right)
  have keep: "packed (bl_words log1) i = packed (bl_words log) i" if "i < p * ?s \<or> Suc p * ?s \<le> i" for i
    using 1(2) that by (auto simp: log_frame_def)
  have low: "packed (bl_words log') i = packed (bl_words log1) i" if "i < ?s * ?u" for i
    using that 2(5) by auto
  have rk: "root_bit r h log' u = (if u = p then row' ! cr_entry r \<noteq> 0 else root_bit r h log u)" for u
  proof -
    have "Suc p * ?s \<le> ?s * ?u + u" using p by (simp add: mult.commute trans_le_add1)
    with keep have "root_bit r h log1 u = root_bit r h log u" by blast
    moreover have "\<not> root_bit r h log p" using rows by (simp add: log_rows_def)
    ultimately show ?thesis using 2(5) by (auto simp del: mult_Suc_right)
  qed
  have "log_rows ast r h p log'"
    unfolding log_rows_def
  proof (intro conjI allI impI)
    show "log_shape r h log'" using sh1 2 by (simp add: log_shape_def)
    show "\<not> packed (bl_words log') i" if "i < p * ?s" for i
    proof -
      have "i < ?s * ?u" using that p mult_le_mono1 [of p ?u ?s] by (simp add: mult.commute)
      with that low [of i] keep [of i] rows show ?thesis by (simp add: log_rows_def)
    qed
    show "\<not> root_bit r h log' u" if "u < p" for u using rk that rows by (simp add: log_rows_def)
    fix u assume u: "p \<le> u" "u \<le> length h"
    have db: "dec_bit r u log' rank = dec_bit r u log1 rank" if "rank < ?s" for rank
      using low row_below [OF u(2) that] .
    show "row_logged ast r h u (dec_bit r u log') (root_bit r h log' u)"
    proof (cases "u = p")
      case True
      with row_logged_cong [OF 1(4) _ wc(1)] db rk show ?thesis by simp
    next
      case False
      with u have "Suc p * ?s \<le> u * ?s + rank" for rank by (intro trans_le_add1 mult_le_mono1) simp
      then have same: "dec_bit r u log1 rank = dec_bit r u log rank" for rank using keep by blast
      have "row_logged ast r h u (dec_bit r u log) (root_bit r h log u)"
        using rows u False by (simp add: log_rows_def)
      then have "row_logged ast r h u (dec_bit r u log') (root_bit r h log u)"
        by (rule row_logged_cong [OF _ _ wc(1)]) (simp only: db same)
      with rk False show ?thesis by simp
    qed
  qed
  moreover have "log_row r h p ((log, row, next_row), acc) = Inr ((log', next_row, row'), acc')"
    using 1(1,3) 2(1) wc(1) by (simp add: log_row_def row_values_def well_compiled_def)
  ultimately show thesis using that 1(3,5) by blast
qed

lemma populate_log_rows:
  assumes "means r ast" "m \<le> Suc (length h)" "log_rows ast r h m log"
    and "length row = length (cr_insts r)" "length next_row = length (cr_insts r)"
    and "m \<le> length h \<Longrightarrow> row_values r h m next_row"
    and "acc_ok acc" "work_fits (cr_limits r) acc (m * build_cost (cr_insts r))"
  shows "\<exists>log' row' next_row' acc'. rfold (log_row r h) (rev [0..<m]) ((log, row, next_row), acc) =
      Inr ((log', row', next_row'), acc') \<and> log_rows ast r h 0 log' \<and> worked (m * build_cost (cr_insts r)) acc acc'"
  using assms(2-)
proof (induction m arbitrary: log row next_row acc)
  case 0
  then show ?case by (auto simp: worked_def)
next
  case (Suc m)
  have "work_fits (cr_limits r) acc (build_cost (cr_insts r))"
    using Suc.prems(7) by (auto simp: work_fits_def)
  then obtain log1 row1 acc1 where
    1: "log_row r h m ((log, row, next_row), acc) = Inr ((log1, next_row, row1), acc1)" "log_rows ast r h m log1"
    "row_values r h m row1" "worked (build_cost (cr_insts r)) acc acc1"
    using log_row_ok [OF assms(1) Suc.prems(2) _ Suc.prems(3,4) _ Suc.prems(6)] Suc.prems(1,5)
    by (metis Suc_le_mono Suc_leI)
  have "work_fits (cr_limits r) acc1 (m * build_cost (cr_insts r))"
    using work_fits_after [OF _ 1(4)] Suc.prems(7) by simp
  moreover have "acc_ok acc1" using 1(4) by (simp add: worked_def)
  ultimately obtain log2 row2 next2 acc2 where
    2: "rfold (log_row r h) (rev [0..<m]) ((log1, next_row, row1), acc1) = Inr ((log2, row2, next2), acc2)"
    "log_rows ast r h 0 log2" "worked (m * build_cost (cr_insts r)) acc1 acc2"
    using Suc.IH [OF _ 1(2) Suc.prems(4) _ 1(3), of acc1] Suc.prems(1) 1(3) unfolding row_values_def by auto
  from 1(1) 2(1,2) worked_trans [OF 1(4) 2(3)] show ?case by simp
qed

section \<open>The executor is correct\<close>

definition dlog_inv :: "lab_ast \<Rightarrow> compiled_regex \<Rightarrow> bytes \<Rightarrow> nat \<Rightarrow> bit_log \<Rightarrow> nat \<Rightarrow> bool" where
  "dlog_inv ast r h p log rb \<longleftrightarrow> means r ast \<and> log_rows ast r h 0 log"

interpretation dreplay: replay_log r h log_decide "replay r h" "dlog_inv ast r h" for ast r h
proof unfold_locales
  fix p st acc pc a b es
  assume a: "dlog_inv ast r h p st (read_bytes acc)" "p \<le> length h" "acc_ok acc" "pc < length (cr_insts r)"
    "cr_insts r ! pc = ISplit a b" "paths (cr_insts r) h a p es"
  then have sh: "log_shape r h st" and rl: "row_logged ast r h p (dec_bit r p st) (root_bit r h st p)"
    by (auto simp: dlog_inv_def log_rows_def)
  from sh a(4,5) have "rank_of (cr_insts r) pc < cr_split_count r"
    using rank_of_less [of pc "cr_insts r"] by (simp add: log_shape_def well_compiled_def is_split_def)
  from log_decision_ok [OF sh a(2) this] rl a
  show "\<exists>st' acc'. log_decide p (rank_of (cr_insts r) pc) (st, acc) = Inr (es \<noteq> [], st', acc')
      \<and> dlog_inv ast r h p st' (read_bytes acc') \<and> worked 0 acc acc'"
    by (auto simp: log_decide_def row_logged_def worked_refl)
qed (auto simp: replay.simps [of r h] dlog_inv_def log_rows_def log_shape_def)

lemma log_select_ok:
  assumes "dlog_inv ast r h p log (read_bytes acc)" "p \<le> length h" "acc_ok acc"
  shows "lab_sel ast h p = None \<Longrightarrow> log_select r h p (log, acc) = Inr (None, log, acc)"
    and "lab_sel ast h p = Some e \<Longrightarrow> work_fits (cr_limits r) acc (length (cr_insts r) * (e - p + 1)) \<Longrightarrow>
      \<exists>log' acc'. log_select r h p (log, acc) = Inr (Some e, log', acc') \<and> dlog_inv ast r h e log' (read_bytes acc')
        \<and> worked (length (cr_insts r) * (e - p + 1)) acc acc'"
proof -
  have i: "means r ast" "log_shape r h log" "root_bit r h log p = (lab_sel ast h p \<noteq> None)"
    using assms(1,2) by (auto simp: dlog_inv_def log_rows_def row_logged_def)
  note root = log_root_ok [OF i(2) assms(2)]
  show "lab_sel ast h p = None \<Longrightarrow> log_select r h p (log, acc) = Inr (None, log, acc)"
    using root i(3) by (simp add: log_select_def)
  assume "lab_sel ast h p = Some e" "work_fits (cr_limits r) acc (length (cr_insts r) * (e - p + 1))"
  from dreplay.replay_ok [OF i(1) this(1) assms(2,1,3) this(2)] root i(3) this(1)
  show "\<exists>log' acc'. log_select r h p (log, acc) = Inr (Some e, log', acc') \<and> dlog_inv ast r h e log' (read_bytes acc')
      \<and> worked (length (cr_insts r) * (e - p + 1)) acc acc'"
    by (auto simp: log_select_def)
qed

interpretation dsrc: root_source "length h" "lab_sel ast h" "cr_limits r" Inr "log_select r h"
  "dlog_inv ast r h" "dlog_inv ast r h" "length (cr_insts r)" 0 for ast r h
proof unfold_locales
  show "dlog_inv ast r h p st rb \<Longrightarrow> length h < usize_max" for p st rb
    by (auto simp: dlog_inv_def log_rows_def log_shape_def)
  show "\<exists>st' acc'. log_select r h p (st, acc) = Inr (Some e, st', acc') \<and> dlog_inv ast r h e st' (read_bytes acc')
      \<and> worked (length (cr_insts r) * (e - p + 1)) acc acc'"
    if "p \<le> length h" "lab_sel ast h p = Some e" "dlog_inv ast r h p st (read_bytes acc)" "acc_ok acc"
      "work_fits (cr_limits r) acc (length (cr_insts r) * (e - p + 1))" for p e st acc
    by (rule log_select_ok(2) [OF that(3,1,4,2,5)])
qed (auto simp: log_select_ok worked_refl, auto simp: dlog_inv_def worked_refl)

section \<open>Admission is enough\<close>

lemma ceil_div_covers: "0 < d \<Longrightarrow> v \<le> d * ((v + (d - 1)) div d)"
  for d :: nat
  using dividend_less_div_times [of d "v + (d - 1)"] by (simp add: mult.commute [of d] del: add_diff_assoc)

lemma ceil_div_safe [simp]:
  "0 < d \<Longrightarrow> safe resource_error (ceil_div v d) Q \<longleftrightarrow> (v + (d - 1) \<le> usize_max \<longrightarrow> Q ((v + (d - 1)) div d))"
  by (auto simp: ceil_div_def usub_def)

definition log_admitted :: "compiled_regex \<Rightarrow> nat \<Rightarrow> log_admission \<Rightarrow> bool" where
  "log_admitted r u a \<longleftrightarrow> la_decision_bits a = cr_split_count r * u \<and> cr_split_count r * u + u \<le> usize_max \<and>
     cr_split_count r * u + u \<le> 64 * la_words a \<and>
     build_cost (cr_insts r) * u + u * 2 + length (cr_insts r) * u * 4 \<le> max_work (cr_limits r)"

lemma admit_log_safe:
  assumes "\<And>a. log_admitted r u a \<Longrightarrow> Q a"
  shows "safe resource_error (admit_log r u) Q"
  unfolding admit_log_def Let_def safe_simps preflight_safe checked_safe
  using ceil_div_covers [of 64 "cr_split_count r * u + u"]
  by simp (intro impI assms, simp add: log_admitted_def)

lemma fresh_log_rows:
  assumes "well_compiled r" "length h < usize_max" "log_admitted r (Suc (length h)) a"
  shows "log_rows ast r h (Suc (length h))
    \<lparr>bl_words = replicate (la_words a) 0, bl_split_count = cr_split_count r, bl_root_base = la_decision_bits a\<rparr>"
  using assms by (auto simp: log_rows_def log_shape_def log_admitted_def simp del: mult_Suc_right)

lemma start_log_accounting [simp]:
  "acc_ok (acc\<lparr>sequential_log_bytes := a, resident_log_bytes := b, random_access_peak_bytes := c\<rparr>) = acc_ok acc"
  "builds_ahead (acc\<lparr>sequential_log_bytes := a, resident_log_bytes := b, random_access_peak_bytes := c\<rparr>) = builds_ahead acc"
  "work_fits l (acc\<lparr>sequential_log_bytes := a, resident_log_bytes := b, random_access_peak_bytes := c\<rparr>) w = work_fits l acc w"
  "worked w (acc\<lparr>sequential_log_bytes := a, resident_log_bytes := b, random_access_peak_bytes := c\<rparr>) acc' = worked w acc acc'"
  by (simp_all add: acc_ok_def builds_ahead_def work_fits_def worked_def)

text \<open>The work of a run: the rows, two probes of every start, and the replays.\<close>

abbreviation log_work :: "compiled_regex \<Rightarrow> nat \<Rightarrow> nat" where
  "log_work r u \<equiv> build_cost (cr_insts r) * u + u * 2 + length (cr_insts r) * u * 4"

text \<open>From a finished log on, both log executors run the same way.\<close>

lemma log_run_report:
  assumes run: "run_result mo acc (2 * u * (1 + length (cr_insts r) + 0)) [] its res"
    and acc: "output_work acc = 0" "total_work acc \<le> build_cost (cr_insts r) * u"
  shows "returns resource_error (report res) (\<lambda>rep. rep_matches rep = its \<and> total_work (rep_accounting rep) \<le> log_work r u)"
    and "length its \<le> mo \<Longrightarrow> succeeds (report res) (\<lambda>rep. rep_matches rep = its)"
proof -
  have w: "t \<le> log_work r u" if "t \<le> total_work acc + 2 * u * (1 + length (cr_insts r) + 0)" for t
    using that acc(2) by (simp add: algebra_simps)
  show "returns resource_error (report res)
      (\<lambda>rep. rep_matches rep = its \<and> total_work (rep_accounting rep) \<le> log_work r u)"
    using report_run_result(1) [OF run acc(1)] w unfolding returns_def
    by (cases "report res") (auto elim!: safe_mono simp del: add_0_right)
  show "length its \<le> mo \<Longrightarrow> succeeds (report res) (\<lambda>rep. rep_matches rep = its)"
    using run acc(1) by (auto simp: run_result_def report_def succeeds_def)
qed

lemma decision_log_run:
  assumes inv: "dlog_inv ast r h 0 log (read_bytes acc)" and acc: "acc_ok acc" "builds_ahead acc = 0" "output_work acc = 0"
    and work: "total_work acc \<le> build_cost (cr_insts r) * Suc (length h)"
      "log_work r (Suc (length h)) \<le> max_work (cr_limits r)" "max_work (cr_limits r) \<le> usize_max"
    and out: "min (Suc (length h)) (max_output_matches (cr_limits r)) * size_of_span \<le> usize_max"
  shows "run_result (max_output_matches (cr_limits r)) acc (2 * Suc (length h) * (1 + length (cr_insts r) + 0)) []
    (lab_spans ast h) (collect_sequence (length h) (cr_limits r) (log_select r h) (log, acc))"
proof -
  let ?n = "Suc (length h)" and ?q = "length (cr_insts r)"
  have "2 * ?n * (1 + ?q + 0) \<le> ?n * 2 + ?q * ?n * 4" by (simp add: algebra_simps)
  then show ?thesis
    using dsrc.iterate_loop_ok [OF inv acc(1), of None "[]"] acc(2,3) work output_fits [OF out, of ast]
    by (simp add: collect_sequence_def work_fits_def budget_start del: mult_Suc mult_Suc_right)
qed

abbreviation fresh_log :: "compiled_regex \<Rightarrow> log_admission \<Rightarrow> bit_log" where
  "fresh_log r a \<equiv> \<lparr>bl_words = replicate (la_words a) 0, bl_split_count = cr_split_count r, bl_root_base = la_decision_bits a\<rparr>"

lemma populate_log_ok:
  assumes wc: "well_compiled r" "means r ast" and mw: "max_work (cr_limits r) \<le> usize_max"
    and a: "log_admitted r (Suc (length h)) a" "Suc (length h) \<le> usize_max"
    and out: "min (Suc (length h)) (max_output_matches (cr_limits r)) * size_of_span \<le> usize_max"
    and acc: "acc_ok acc" "builds_ahead acc = 0" "total_work acc = 0" "output_work acc = 0"
  obtains log row next_row acc' where
    "populate_log r h (Suc (length h)) ((fresh_log r a, replicate (length (cr_insts r)) 0, replicate (length (cr_insts r)) 0), acc) =
      Inr ((log, row, next_row), acc')"
    "run_result (max_output_matches (cr_limits r)) acc' (2 * Suc (length h) * (1 + length (cr_insts r) + 0)) []
      (lab_spans ast h) (collect_sequence (length h) (cr_limits r) (log_select r h) (log, acc'))"
    "output_work acc' = 0" "total_work acc' \<le> build_cost (cr_insts r) * Suc (length h)"
proof -
  let ?n = "Suc (length h)" and ?l = "cr_limits r" and ?b = "build_cost (cr_insts r)" and ?q = "length (cr_insts r)"
  have w: "log_work r ?n \<le> max_work ?l" using a(1) by (simp add: log_admitted_def)
  have "work_fits ?l acc (?n * ?b)" using w mw acc(3) by (simp add: work_fits_def mult.commute)
  with populate_log_rows [OF wc(2) order_refl fresh_log_rows [OF wc(1) _ a(1)], of "replicate ?q 0" "replicate ?q 0" acc] acc a(2)
  obtain log row next_row acc' where
    1: "populate_log r h ?n ((fresh_log r a, replicate ?q 0, replicate ?q 0), acc) = Inr ((log, row, next_row), acc')"
    "log_rows ast r h 0 log" "worked (?n * ?b) acc acc'"
    unfolding populate_log_def by auto
  then have inv: "dlog_inv ast r h 0 log (read_bytes acc')" and acc': "acc_ok acc'" "builds_ahead acc' = 0"
      "output_work acc' = 0" "total_work acc' \<le> ?b * ?n"
    using wc(2) acc by (auto simp: dlog_inv_def worked_def mult.commute simp del: mult_Suc mult_Suc_right)
  from that [OF 1(1) decision_log_run [OF inv acc' w mw out] acc'(3,4)] show thesis .
qed

abbreviation log_accounting :: "compiled_regex \<Rightarrow> nat \<Rightarrow> log_admission \<Rightarrow> accounting" where
  "log_accounting r u a \<equiv> (start_accounting r u)\<lparr>
     output_reserved_bytes := min u (max_output_matches (cr_limits r)) * size_of_span,
     sequential_log_bytes := la_logical_bytes a, resident_log_bytes := la_resident_bytes a,
     random_access_peak_bytes := la_row_bytes a\<rparr>"

lemma log_accounting_ok:
  "acc_ok (log_accounting r u a)" "builds_ahead (log_accounting r u a) = 0"
  "total_work (log_accounting r u a) = 0" "output_work (log_accounting r u a) = 0"
  by simp_all

lemma decision_log_outcome:
  assumes wc: "well_compiled r" "means r ast" and mw: "max_work (cr_limits r) \<le> usize_max"
  shows "returns resource_error (find_all_decision_log al r h) (\<lambda>rep. rep_matches rep = lab_spans ast h \<and>
    total_work (rep_accounting rep) \<le> log_work r (Suc (length h)))"
  unfolding find_all_decision_log_def returns_then_run Let_def safe_simps preflight_safe
    bit_log_new_def zeroed_words_def checked_safe
proof (intro impI admit_log_safe)
  let ?n = "Suc (length h)" and ?l = "cr_limits r" and ?q = "length (cr_insts r)"
  fix a assume a: "?n \<le> usize_max" "log_admitted r ?n a" "min ?n (max_output_matches ?l) * size_of_span \<le> usize_max"
  obtain log row next_row acc' where
    p: "populate_log r h ?n ((fresh_log r a, replicate ?q 0, replicate ?q 0), log_accounting r ?n a) = Inr ((log, row, next_row), acc')"
    "run_result (max_output_matches ?l) acc' (2 * ?n * (1 + ?q + 0)) [] (lab_spans ast h)
      (collect_sequence (length h) ?l (log_select r h) (log, acc'))"
    "output_work acc' = 0" "total_work acc' \<le> build_cost (cr_insts r) * ?n"
    using populate_log_ok [OF wc mw a(2,1,3) log_accounting_ok] by blast
  with log_run_report(1) [OF p(2-4)]
  show "safe resource_error (populate_log r h ?n ((fresh_log r a, replicate ?q 0, replicate ?q 0), log_accounting r ?n a))
     (\<lambda>x. safe resource_error (case x of (st, acc) \<Rightarrow> (case st of (log, row, next_row) \<Rightarrow> \<lambda>acc. Inr (log, acc)) acc)
       (\<lambda>x. returns resource_error (report (collect_sequence (length h) ?l (log_select r h) x))
         (\<lambda>rep. rep_matches rep = lab_spans ast h \<and> total_work (rep_accounting rep) \<le> log_work r ?n)))"
    by simp
qed

text \<open>Once the preflight has passed and the allocator serves, the run succeeds.\<close>

lemma admit_log_Inr: "admit_log r u = Inr a \<Longrightarrow> log_admitted r u a"
  using admit_log_safe [of r u "log_admitted r u"] by (auto simp: safe_def)

lemma decision_log_success:
  assumes wc: "well_compiled r" "means r ast" and mw: "max_work (cr_limits r) \<le> usize_max"
    and adm: "boundaries r h = Inr u" "admit_log r u = Inr a" "reserve_output al u (cr_limits r) = Inr b"
    and al: "al ResidentLogBytes (la_words a)" "al RandomAccessBytes (length (cr_insts r))"
    and out: "length (lab_spans ast h) \<le> max_output_matches (cr_limits r)"
  shows "succeeds (find_all_decision_log al r h) (\<lambda>rep. rep_matches rep = lab_spans ast h)"
proof -
  let ?l = "cr_limits r" and ?q = "length (cr_insts r)"
  have u: "u = Suc (length h)" "Suc (length h) \<le> usize_max" using adm(1) by (auto simp: boundaries_def elim!: rbindE)
  have b: "b = min u (max_output_matches ?l) * size_of_span" "min u (max_output_matches ?l) * size_of_span \<le> usize_max"
    using adm(3) by (auto simp: reserve_output_def Let_def elim!: rbindE)
  obtain log row next_row acc' where
    p: "populate_log r h u ((fresh_log r a, replicate ?q 0, replicate ?q 0), log_accounting r u a) = Inr ((log, row, next_row), acc')"
    "run_result (max_output_matches ?l) acc' (2 * u * (1 + ?q + 0)) [] (lab_spans ast h)
      (collect_sequence (length h) ?l (log_select r h) (log, acc'))"
    "output_work acc' = 0" "total_work acc' \<le> build_cost (cr_insts r) * u"
    using populate_log_ok [OF wc mw admit_log_Inr u(2) _ log_accounting_ok] adm(2) b(2) unfolding u by blast
  from log_run_report(2) [OF p(2-4) out] p(1) adm b(1) al show ?thesis
    unfolding find_all_decision_log_def succeeds_then_run by (simp add: bit_log_new_def zeroed_words_def Let_def)
qed

end
