(* ===== verification/LabRowLog.thy ===== *)
theory LabRowLog
  imports LabLog
begin

text \<open>
  \<^verbatim>\<open>crates/fre-iterator-lab/src/sequential_log.rs\<close>: the executor that writes one fixed-size record
  of decision bits per boundary, from the right, and reads the records back while the matches move
  from left to right. The reader refuses to go back and accounts for every byte it passes; that it
  never refuses is the invariant proved here.
\<close>

section \<open>Records and the reader\<close>

record row_admission =
  ra_record_len :: nat
  ra_store_len :: nat
  ra_scratch_bytes :: nat

record row_reader =
  rr_store :: bytes
  rr_buffer :: bytes
  rr_record_bytes :: nat
  rr_split_count :: nat
  rr_current :: "nat option"

definition record_set_bit :: "bytes \<Rightarrow> nat \<Rightarrow> lab_error + bytes" where
  "record_set_bit bs index =
     (if index div 8 < length bs
      then Inr (bs[index div 8 := bs ! (index div 8) OR push_bit (index mod 8) 1])
      else Inl InvalidDecisionLog)"

definition record_read_bit :: "bytes \<Rightarrow> nat \<Rightarrow> lab_error + bool" where
  "record_read_bit bs index =
     (if index div 8 < length bs
      then Inr (bs ! (index div 8) AND push_bit (index mod 8) 1 \<noteq> 0)
      else Inl InvalidDecisionLog)"

text \<open>\<^verbatim>\<open>copy_from_slice\<close> panics when the lengths differ.\<close>

definition reader_ensure :: "nat \<Rightarrow> row_reader run_state \<Rightarrow> lab_error + row_reader run_state" where
  "reader_ensure position = (\<lambda>(reader, acc).
     if rr_current reader = Some position then Inr (reader, acc)
     else if (case rr_current reader of Some current \<Rightarrow> position < current | None \<Rightarrow> False)
     then Inl InvalidDecisionLog
     else
       rbind (case rr_current reader of
           Some current \<Rightarrow> ok_or (usub position current) InvalidDecisionLog
         | None \<Rightarrow> checked_add position 1 LogBytes) (\<lambda>records_traversed.
       rbind (checked_mul records_traversed (rr_record_bytes reader) LogBytes) (\<lambda>traversed_bytes.
       rbind (checked_add (sequential_log_read_bytes acc) traversed_bytes LogBytes) (\<lambda>total.
       let acc = acc\<lparr>sequential_log_read_bytes := total\<rparr> in
       rbind (checked_add position 1 LogBytes) (\<lambda>ordinal.
       rbind (checked_mul ordinal (rr_record_bytes reader) LogBytes) (\<lambda>from_end.
       rbind (ok_or (usub (length (rr_store reader)) from_end) InvalidDecisionLog) (\<lambda>start.
       rbind (checked_add start (rr_record_bytes reader) LogBytes) (\<lambda>e.
       if e \<le> length (rr_store reader)
       then let record = take (e - start) (drop start (rr_store reader)) in
         if length record = length (rr_buffer reader)
         then Inr (reader\<lparr>rr_buffer := record, rr_current := Some position\<rparr>, acc)
         else Inl LabPanic
       else Inl InvalidDecisionLog))))))))"

definition reader_root :: "nat \<Rightarrow> row_reader run_state \<Rightarrow> lab_error + (bool \<times> row_reader run_state)" where
  "reader_root position rs =
     rbind (reader_ensure position rs) (\<lambda>(reader, acc).
     rbind (record_read_bit (rr_buffer reader) (rr_split_count reader)) (\<lambda>b. Inr (b, reader, acc)))"

definition reader_decision :: "nat \<Rightarrow> nat \<Rightarrow> row_reader run_state \<Rightarrow> lab_error + (bool \<times> row_reader run_state)" where
  "reader_decision position split_rank rs =
     rbind (reader_ensure position rs) (\<lambda>(reader, acc).
     rbind (record_read_bit (rr_buffer reader) split_rank) (\<lambda>b. Inr (b, reader, acc)))"

section \<open>Admission\<close>

definition row_ceil_div :: "nat \<Rightarrow> nat \<Rightarrow> lab_error + nat" where
  "row_ceil_div value divisor =
     rbind (ok_or (usub divisor 1) InvalidDecisionLog) (\<lambda>adjustment.
     rbind (checked_add value adjustment LogBytes) (\<lambda>sum.
     if divisor = 0 then Inl InvalidDecisionLog else Inr (sum div divisor)))"

definition zeroed_bytes :: "allocator \<Rightarrow> nat \<Rightarrow> resource_kind \<Rightarrow> lab_error + bytes" where
  "zeroed_bytes al n kind = rbind (try_reserve al kind n) (\<lambda>_. Inr (replicate n 0))"

definition zeroed_usizes :: "allocator \<Rightarrow> nat \<Rightarrow> lab_error + nat list" where
  "zeroed_usizes al n = rbind (try_reserve al RandomAccessBytes n) (\<lambda>_. Inr (replicate n 0))"

definition admit_row_log :: "compiled_regex \<Rightarrow> nat \<Rightarrow> lab_error + row_admission" where
  "admit_row_log r bounds =
     (let l = cr_limits r in
      rbind (checked_add (cr_split_count r) 1 LogBytes) (\<lambda>bits_per_record.
      rbind (row_ceil_div bits_per_record 8) (\<lambda>record_bytes.
      rbind (checked_mul record_bytes bounds LogBytes) (\<lambda>store_bytes.
      rbind (enforce store_bytes (max_log_bytes l) LogBytes) (\<lambda>_.
      rbind (enforce store_bytes (max_resident_log_bytes l) ResidentLogBytes) (\<lambda>_.
      rbind (checked_mul (length (cr_insts r)) 2 RandomAccessBytes) (\<lambda>row_words.
      rbind (checked_mul row_words size_of_usize RandomAccessBytes) (\<lambda>row_word_bytes.
      rbind (checked_mul record_bytes 2 RandomAccessBytes) (\<lambda>two_records.
      rbind (checked_add row_word_bytes two_records RandomAccessBytes) (\<lambda>row_scratch_bytes.
      rbind (enforce row_scratch_bytes (max_random_access_bytes l) RandomAccessBytes) (\<lambda>_.
      rbind (maximum_build_work r bounds) (\<lambda>build_work.
      rbind (checked_mul bounds 2 Work) (\<lambda>root_work.
      rbind (checked_mul (length (cr_insts r)) bounds Work) (\<lambda>cells.
      rbind (checked_mul cells 4 Work) (\<lambda>replay_work.
      rbind (checked_add build_work root_work Work) (\<lambda>work.
      rbind (checked_add work replay_work Work) (\<lambda>total.
      rbind (enforce total (max_work l) Work) (\<lambda>_.
      Inr \<lparr>ra_record_len = record_bytes, ra_store_len = store_bytes,
        ra_scratch_bytes = row_scratch_bytes\<rparr>))))))))))))))))))"

section \<open>Population and replay\<close>

type_synonym row_store_state = "bytes rows \<times> bytes \<times> nat"

definition store_row ::
    "compiled_regex \<Rightarrow> bytes \<Rightarrow> nat \<Rightarrow> row_store_state run_state \<Rightarrow> lab_error + row_store_state run_state" where
  "store_row r h position = (\<lambda>(((record, row, next_row), store, write_offset), acc).
     let record = replicate (length record) 0 in
     rbind (rfold (log_step r h (\<lambda>position rank record. record_set_bit record rank) position)
         (cr_epsilon_order r) ((record, row, next_row), acc)) (\<lambda>((record, row, next_row), acc).
     rbind (vget row (cr_entry r)) (\<lambda>value.
     rbind (if value \<noteq> 0 then record_set_bit record (cr_split_count r) else Inr record) (\<lambda>record.
     rbind (checked_add write_offset (length record) LogBytes) (\<lambda>write_end.
     if write_end \<le> length store
     then let store = take write_offset store @ record @ drop write_end store in
       rbind (checked_add (sequential_log_write_bytes acc) (length record) LogBytes) (\<lambda>written.
       Inr (((record, next_row, row), store, write_end), acc\<lparr>sequential_log_write_bytes := written\<rparr>))
     else Inl InvalidDecisionLog)))))"

definition populate_row_store ::
    "compiled_regex \<Rightarrow> bytes \<Rightarrow> nat \<Rightarrow> bytes \<Rightarrow> bytes rows \<Rightarrow> accounting \<Rightarrow> lab_error + bytes run_state" where
  "populate_row_store r h bounds store rows acc =
     rbind (rfold (store_row r h) (rev [0..<bounds]) ((rows, store, 0), acc)) (\<lambda>((rows, store, write_offset), acc).
     if write_offset \<noteq> length store then Inl InvalidDecisionLog else Inr (store, acc))"

lemma reader_decision_total:
  "reader_decision position rank (reader, acc) = Inr (d, reader', acc') \<Longrightarrow> total_work acc' = total_work acc"
  by (auto simp: reader_decision_def reader_ensure_def Let_def split: if_splits option.splits elim!: rbindE)

function replay_row_log ::
    "compiled_regex \<Rightarrow> bytes \<Rightarrow> nat \<Rightarrow> nat \<Rightarrow> row_reader run_state \<Rightarrow> lab_error + (nat \<times> row_reader run_state)" where
  "replay_row_log r h pc position rs =
     rbind (replay_step r h reader_decision pc position rs) (\<lambda>(turn, rs).
     case turn of Finished e \<Rightarrow> Inr (e, rs) | Moved pc position \<Rightarrow> replay_row_log r h pc position rs)"
  by pat_completeness auto
termination
proof (relation "measure (\<lambda>(r, h, pc, position, rs). replay_measure r rs)")
  fix r h pc position turn pc' position' and rs x rs' :: "row_reader run_state" and t
  assume "replay_step r h reader_decision pc position rs = Inr t" "(turn, rs') = t" "turn = Moved pc' position'"
  then show "((r, h, pc', position', rs'), r, h, pc, position, rs) \<in>
      measure (\<lambda>(r, h, pc, position, rs). replay_measure r rs)"
    using replay_step_charges [of r h reader_decision pc position "fst rs" "snd rs" turn "fst rs'" "snd rs'"]
    by (fastforce dest: reader_decision_total)
qed simp

declare replay_row_log.simps [simp del]

definition row_log_select :: "compiled_regex \<Rightarrow> bytes \<Rightarrow> row_reader selector_fun" where
  "row_log_select r h start rs =
     rbind (reader_root start rs) (\<lambda>(hit, rs).
     if \<not> hit then Inr (None, rs)
     else rbind (replay_row_log r h (cr_entry r) start rs) (\<lambda>(e, rs). Inr (Some e, rs)))"

definition find_all_sequential_row_log ::
    "allocator \<Rightarrow> compiled_regex \<Rightarrow> bytes \<Rightarrow> (lab_error + run_report) option" where
  "find_all_sequential_row_log al r h =
     then_run (rbind (boundaries r h) (\<lambda>bounds.
       rbind (admit_row_log r bounds) (\<lambda>admission.
       let acc = (start_accounting r bounds)\<lparr>sequential_log_bytes := ra_store_len admission,
             resident_log_bytes := ra_store_len admission,
             random_access_peak_bytes := ra_scratch_bytes admission\<rparr> in
       rbind (reserve_output al bounds (cr_limits r)) (\<lambda>bytes.
       let acc = acc\<lparr>output_reserved_bytes := bytes\<rparr> in
       rbind (zeroed_bytes al (ra_store_len admission) ResidentLogBytes) (\<lambda>store.
       rbind (zeroed_bytes al (ra_record_len admission) RandomAccessBytes) (\<lambda>record.
       rbind (zeroed_usizes al (length (cr_insts r))) (\<lambda>row.
       rbind (zeroed_usizes al (length (cr_insts r))) (\<lambda>next_row.
       rbind (populate_row_store r h bounds store (record, row, next_row) acc) (\<lambda>(store, acc).
       rbind (zeroed_bytes al (ra_record_len admission) RandomAccessBytes) (\<lambda>buffer.
       Inr (\<lparr>rr_store = store, rr_buffer = buffer, rr_record_bytes = ra_record_len admission,
         rr_split_count = cr_split_count r, rr_current = None\<rparr>, acc)))))))))))
     (\<lambda>rs. report (collect_sequence (length h) (cr_limits r) (row_log_select r h) rs))"

section \<open>Records hold what was set\<close>

lemma record_read_bit_ok: "i < 8 * length bs \<Longrightarrow> record_read_bit bs i = Inr (packed bs i)"
  using packed_test [of i bs] by (simp add: record_read_bit_def less_mult_imp_div_less mult.commute)

lemma record_set_bit_ok:
  assumes "i < 8 * length bs"
  obtains bs' where "record_set_bit bs i = Inr bs'" "length bs' = length bs" "packed bs' = (packed bs)(i := True)"
proof -
  have "i div 8 < length bs" using assms by (simp add: less_mult_imp_div_less mult.commute)
  with that packed_update [of i bs] show thesis by (auto simp: record_set_bit_def)
qed

definition record_frame :: "compiled_regex \<Rightarrow> nat \<Rightarrow> bytes \<Rightarrow> bool" where
  "record_frame r B bs \<longleftrightarrow> length bs = B \<and> cr_split_count r < 8 * B \<and> \<not> packed bs (cr_split_count r)"

interpretation slog: log_marks r h p "\<lambda>position rank record. record_set_bit record rank"
  "record_frame r B" packed for r h p B
proof unfold_locales
  fix bs rank assume a: "record_frame r B bs" "rank < cr_split_count r"
  then have "rank < 8 * length bs" by (simp add: record_frame_def)
  from record_set_bit_ok [OF this] obtain bs' where b: "record_set_bit bs rank = Inr bs'" "length bs' = length bs"
    "packed bs' = (packed bs)(rank := True)" by blast
  moreover have "record_frame r B bs'" using a b(2,3) by (simp add: record_frame_def)
  ultimately show "\<exists>bs'. record_set_bit bs rank = Inr bs' \<and> record_frame r B bs' \<and> packed bs' = (packed bs)(rank := True)"
    by blast
qed

section \<open>The store\<close>

definition slot :: "nat \<Rightarrow> nat \<Rightarrow> nat \<Rightarrow> bytes \<Rightarrow> bytes" where
  "slot B n u store = take B (drop ((n - u) * B) store)"

lemma slot_room: "length store = B * Suc n \<Longrightarrow> (n - u) * B + B \<le> length store"
  using mult_le_mono1 [of "Suc (n - u)" "Suc n" B] by (simp add: mult.commute)

lemma slot_length: "length store = B * Suc n \<Longrightarrow> length (slot B n u store) = B"
  using slot_room [of store B n u] by (simp add: slot_def min_absorb2 del: mult_Suc_right)

lemma take_drop_write:
  "k + B \<le> off \<Longrightarrow> off \<le> length store \<Longrightarrow> take B (drop k (take off store @ rest)) = take B (drop k store)"
  by (simp add: drop_take min_absorb1)

lemma slot_write:
  assumes "length store = B * Suc n" "p \<le> u" "u \<le> n" "length bs = B"
  shows "slot B n u (take ((n - p) * B) store @ bs @ drop ((n - p) * B + B) store) =
    (if u = p then bs else slot B n u store)"
proof (cases "u = p")
  case True
  with assms(4) slot_room [OF assms(1), of p] show ?thesis by (simp add: slot_def)
next
  case False
  with assms have "(n - u) * B + B \<le> (n - p) * B"
    using mult_le_mono1 [of "Suc (n - u)" "n - p" B] by (simp add: add.commute Suc_diff_Suc diff_less_mono2 Suc_leI)
  with take_drop_write [OF this, of store] slot_room [OF assms(1), of p] False show ?thesis
    by (simp add: slot_def)
qed

definition store_ok :: "lab_ast \<Rightarrow> compiled_regex \<Rightarrow> bytes \<Rightarrow> nat \<Rightarrow> nat \<Rightarrow> bytes \<Rightarrow> bool" where
  "store_ok ast r h B p store \<longleftrightarrow> well_compiled r \<and> means r ast \<and> length h < usize_max \<and>
     length store = B * Suc (length h) \<and> B * Suc (length h) \<le> usize_max \<and> cr_split_count r < 8 * B \<and>
     (\<forall>u. p \<le> u \<longrightarrow> u \<le> length h \<longrightarrow>
        row_logged ast r h u (packed (slot B (length h) u store)) (packed (slot B (length h) u store) (cr_split_count r)))"

text \<open>A row leaves the byte counters alone.\<close>

lemma charge_bytes:
  "charge_transition acc m = Inr acc' \<Longrightarrow>
     sequential_log_write_bytes acc' = sequential_log_write_bytes acc \<and> read_bytes acc' = read_bytes acc"
  "charge_state acc m = Inr acc' \<Longrightarrow>
     sequential_log_write_bytes acc' = sequential_log_write_bytes acc \<and> read_bytes acc' = read_bytes acc"
  by (auto simp: charge_transition_def charge_state_def charge_total_def split: if_splits elim!: rbindE)

lemma log_value_bytes:
  "log_value r h mark p pc i (log, row, next_row) acc = Inr (v, log', acc') \<Longrightarrow>
     sequential_log_write_bytes acc' = sequential_log_write_bytes acc \<and> read_bytes acc' = read_bytes acc"
  by (cases i) (auto split: if_splits elim!: rbindE dest!: charge_bytes(1))

lemma log_steps_bytes:
  "rfold (log_step r h mark p) pcs (st, acc) = Inr (st', acc') \<Longrightarrow>
     sequential_log_write_bytes acc' = sequential_log_write_bytes acc \<and> read_bytes acc' = read_bytes acc"
proof (induction pcs arbitrary: st acc)
  case (Cons pc pcs)
  then obtain st1 acc1 where 1: "log_step r h mark p pc (st, acc) = Inr (st1, acc1)"
    "rfold (log_step r h mark p) pcs (st1, acc1) = Inr (st', acc')" by (auto elim!: rbindE)
  from 1(1) have "sequential_log_write_bytes acc1 = sequential_log_write_bytes acc \<and> read_bytes acc1 = read_bytes acc"
    by (cases st) (auto simp: log_step_def elim!: rbindE dest!: log_value_bytes charge_bytes(2))
  with Cons.IH [OF 1(2)] show ?case by simp
qed simp

lemma store_row_ok:
  assumes store: "store_ok ast r h B (Suc p) store" and p: "p \<le> length h"
    and len: "length record = B" "length row = length (cr_insts r)" "length next_row = length (cr_insts r)"
    and nxt: "p < length h \<Longrightarrow> row_values r h (Suc p) next_row"
    and acc: "acc_ok acc" "work_fits (cr_limits r) acc (build_cost (cr_insts r))"
      "sequential_log_write_bytes acc = (length h - p) * B"
  obtains record' row' store' acc' where
    "store_row r h p (((record, row, next_row), store, (length h - p) * B), acc) =
      Inr (((record', next_row, row'), store', (Suc (length h) - p) * B), acc')"
    "store_ok ast r h B p store'" "length record' = B" "row_values r h p row'"
    "worked (build_cost (cr_insts r)) acc acc'" "read_bytes acc' = read_bytes acc"
    "sequential_log_write_bytes acc' = (Suc (length h) - p) * B"
proof -
  let ?n = "length h" and ?s = "cr_split_count r"
  have st: "well_compiled r" "means r ast" "?n < usize_max" "length store = B * Suc ?n" "B * Suc ?n \<le> usize_max"
    "?s < 8 * B" using store by (auto simp: store_ok_def)
  have frame: "record_frame r B (replicate B 0)" using st by (simp add: record_frame_def)
  obtain rec1 row' acc1 where
    1: "rfold (log_step r h (\<lambda>position rank record. record_set_bit record rank) p) (cr_epsilon_order r)
        ((replicate B 0, row, next_row), acc) = Inr ((rec1, row', next_row), acc1)"
    "record_frame r B rec1" "row_values r h p row'" "row_logged ast r h p (packed rec1) (row' ! cr_entry r \<noteq> 0)"
    "worked (build_cost (cr_insts r)) acc acc1"
    using slog.marks_row [OF st(1,2) p st(3) len(2,3) nxt frame _ acc(1,2)] by auto
  note kept = log_steps_bytes [OF 1(1)]
  have rec1: "length rec1 = B" "\<not> packed rec1 ?s" using 1(2) by (auto simp: record_frame_def)
  from rec1(1) st(6) have "?s < 8 * length rec1" by simp
  then obtain rec3 where 3: "record_set_bit rec1 ?s = Inr rec3" "length rec3 = length rec1"
    "packed rec3 = (packed rec1)(?s := True)" by (rule record_set_bit_ok)
  define rec2 where "rec2 = (if row' ! cr_entry r \<noteq> 0 then rec3 else rec1)"
  have 2: "(if row' ! cr_entry r \<noteq> 0 then record_set_bit rec1 ?s else Inr rec1) = Inr rec2"
    "length rec2 = B" "packed rec2 = (packed rec1)(?s := row' ! cr_entry r \<noteq> 0)"
    using 3 rec1 by (auto simp: rec2_def fun_eq_iff)
  let ?off = "(?n - p) * B"
  let ?store = "take ?off store @ rec2 @ drop (?off + B) store"
  let ?acc = "acc1\<lparr>sequential_log_write_bytes := ?off + B\<rparr>"
  have off: "?off + B \<le> length store" "(Suc ?n - p) * B = ?off + B"
    using st(4) p mult_le_mono1 [of "Suc (?n - p)" "Suc ?n" B] by (auto simp: mult.commute Suc_diff_le)
  have "?off + B \<le> usize_max" "vget row' (cr_entry r) = Inr (row' ! cr_entry r)"
    using off(1) st(4,5) apply linarith
    using st(1) 1(3) by (simp add: row_values_def well_compiled_def)
  then have eq: "store_row r h p (((record, row, next_row), store, ?off), acc) =
      Inr (((rec2, next_row, row'), ?store, (Suc ?n - p) * B), ?acc)"
    using 1(1) 2(1,2) off acc(3) kept len(1) by (simp add: store_row_def Let_def)
  have "row_logged ast r h p (packed rec2) (packed rec2 ?s)"
    using row_logged_cong [OF 1(4) _ st(1)] 2(3) by simp
  then have "store_ok ast r h B p ?store"
    using store slot_write [OF st(4) _ _ 2(2), of p] off st 2(2)
    unfolding store_ok_def by (auto simp: min_def)
  moreover have "worked (build_cost (cr_insts r)) acc ?acc"
    using 1(5) by (simp add: worked_def acc_ok_def builds_ahead_def)
  ultimately show thesis using that [OF eq] 2(2) 1(3) kept off(2) by simp
qed

lemma store_rows_ok:
  assumes "m \<le> Suc (length h)" "store_ok ast r h B m store" "length rec = B"
    and "length row = length (cr_insts r)" "length next_row = length (cr_insts r)"
    and "m \<le> length h \<Longrightarrow> row_values r h m next_row"
    and "acc_ok acc" "work_fits (cr_limits r) acc (m * build_cost (cr_insts r))"
    and "sequential_log_write_bytes acc = (Suc (length h) - m) * B"
  shows "\<exists>rows' store' acc'. rfold (store_row r h) (rev [0..<m])
      (((rec, row, next_row), store, (Suc (length h) - m) * B), acc) = Inr ((rows', store', Suc (length h) * B), acc')
    \<and> store_ok ast r h B 0 store' \<and> worked (m * build_cost (cr_insts r)) acc acc' \<and> read_bytes acc' = read_bytes acc"
  using assms
proof (induction m arbitrary: rec row next_row store acc)
  case 0
  then show ?case by (simp add: worked_def)
next
  case (Suc m)
  from Suc.prems(1) have m: "m \<le> length h" by simp
  have "work_fits (cr_limits r) acc (build_cost (cr_insts r))"
    using Suc.prems(8) by (auto simp: work_fits_def)
  moreover have "sequential_log_write_bytes acc = (length h - m) * B" using Suc.prems(9) by simp
  moreover have "row_values r h (Suc m) next_row" if "m < length h" using Suc.prems(6) that by simp
  ultimately obtain rec1 row1 store1 acc1 where
    1: "store_row r h m (((rec, row, next_row), store, (length h - m) * B), acc) =
      Inr (((rec1, next_row, row1), store1, (Suc (length h) - m) * B), acc1)"
    "store_ok ast r h B m store1" "length rec1 = B" "row_values r h m row1"
    "worked (build_cost (cr_insts r)) acc acc1" "read_bytes acc1 = read_bytes acc"
    "sequential_log_write_bytes acc1 = (Suc (length h) - m) * B"
    using store_row_ok [OF Suc.prems(2) m Suc.prems(3-5) _ Suc.prems(7)] by blast
  have "work_fits (cr_limits r) acc1 (m * build_cost (cr_insts r))"
    using work_fits_after [OF _ 1(5)] Suc.prems(8) by simp
  moreover have "acc_ok acc1" using 1(5) by (simp add: worked_def)
  moreover have "length row1 = length (cr_insts r)" using 1(4) by (simp add: row_values_def)
  ultimately obtain rows2 store2 acc2 where
    2: "rfold (store_row r h) (rev [0..<m]) (((rec1, next_row, row1), store1, (Suc (length h) - m) * B), acc1) =
      Inr ((rows2, store2, Suc (length h) * B), acc2)" "store_ok ast r h B 0 store2"
    "worked (m * build_cost (cr_insts r)) acc1 acc2" "read_bytes acc2 = read_bytes acc1"
    using Suc.IH [OF _ 1(2,3) Suc.prems(5) _ 1(4), of acc1] m 1(7) by (metis le_SucI)
  from 1(1,6) 2 worked_trans [OF 1(5) 2(3)] show ?case by (cases rows2) simp
qed

section \<open>The reader only moves forward\<close>

definition reader_inv :: "lab_ast \<Rightarrow> compiled_regex \<Rightarrow> bytes \<Rightarrow> nat \<Rightarrow> row_reader \<Rightarrow> nat \<Rightarrow> bool" where
  "reader_inv ast r h p reader rb \<longleftrightarrow>
     store_ok ast r h (rr_record_bytes reader) 0 (rr_store reader) \<and> rr_split_count reader = cr_split_count r \<and>
     length (rr_buffer reader) = rr_record_bytes reader \<and>
     (case rr_current reader of None \<Rightarrow> rb = 0
      | Some c \<Rightarrow> c \<le> p \<and> c \<le> length h \<and> rb = Suc c * rr_record_bytes reader \<and>
          rr_buffer reader = slot (rr_record_bytes reader) (length h) c (rr_store reader))"

lemma reader_ensure_ok:
  assumes inv: "reader_inv ast r h p reader (read_bytes acc)" and p: "p \<le> length h"
  obtains reader' acc' where "reader_ensure p (reader, acc) = Inr (reader', acc')"
    "reader_inv ast r h p reader' (read_bytes acc')"
    "rr_buffer reader' = slot (rr_record_bytes reader') (length h) p (rr_store reader')"
    "acc' = acc\<lparr>sequential_log_read_bytes := read_bytes acc'\<rparr>"
proof (cases "rr_current reader = Some p")
  case True
  then show thesis using that [of reader acc] inv by (auto simp: reader_ensure_def reader_inv_def)
next
  case False
  let ?B = "rr_record_bytes reader" and ?n = "length h" and ?st = "rr_store reader"
  have st: "length ?st = ?B * Suc ?n" "?B * Suc ?n \<le> usize_max" "?n < usize_max"
    using inv by (auto simp: reader_inv_def store_ok_def)
  have fwd: "\<not> (case rr_current reader of Some current \<Rightarrow> p < current | None \<Rightarrow> False)"
    using inv by (auto simp: reader_inv_def split: option.splits)
  obtain k where k: "(case rr_current reader of Some current \<Rightarrow> ok_or (usub p current) InvalidDecisionLog
      | None \<Rightarrow> checked_add p 1 LogBytes) = Inr k" "read_bytes acc + k * ?B = Suc p * ?B"
  proof (cases "rr_current reader")
    case None
    with inv p st(3) that [of "Suc p"] show thesis by (simp add: reader_inv_def)
  next
    case (Some c)
    with inv that [of "p - c"] show thesis
      by (simp add: reader_inv_def add_mult_distrib [symmetric] del: mult_Suc)
  qed
  have le: "Suc p * ?B \<le> ?B * Suc ?n" using p by (metis Suc_le_mono mult.commute mult_le_mono1)
  have start: "length ?st - Suc p * ?B = (?n - p) * ?B"
    using st(1) p by (simp add: mult.commute [of ?B] diff_mult_distrib [symmetric] del: mult_Suc mult_Suc_right)
  have room: "(?n - p) * ?B + ?B \<le> length ?st" using slot_room [OF st(1)] .
  let ?rec = "slot ?B ?n p ?st"
  let ?reader = "reader\<lparr>rr_buffer := ?rec, rr_current := Some p\<rparr>"
  let ?acc = "acc\<lparr>sequential_log_read_bytes := Suc p * ?B\<rparr>"
  have fits: "k * ?B \<le> usize_max" "Suc p * ?B \<le> usize_max" "(?n - p) * ?B + ?B \<le> usize_max"
    using k(2) le room st(1,2) by linarith+
  have steps: "checked_mul k ?B LogBytes = Inr (k * ?B)" "checked_add (read_bytes acc) (k * ?B) LogBytes = Inr (Suc p * ?B)"
    "checked_add p 1 LogBytes = Inr (Suc p)" "checked_mul (Suc p) ?B LogBytes = Inr (Suc p * ?B)"
    "usub (length ?st) (Suc p * ?B) = Some ((?n - p) * ?B)"
    "checked_add ((?n - p) * ?B) ?B LogBytes = Inr ((?n - p) * ?B + ?B)"
    using fits k(2) p st(1,3) le start by (simp_all add: usub_def del: mult_Suc mult_Suc_right)
  have "length ?rec = length (rr_buffer reader)" using slot_length [OF st(1), of p] inv by (simp add: reader_inv_def)
  then have "reader_ensure p (reader, acc) = Inr (?reader, ?acc)"
    unfolding reader_ensure_def case_prod_conv
    by (simp only: False fwd k(1) [unfolded steps(3)] steps simp_thms if_False rbind_Inr Let_def ok_or_simps room if_True add_diff_cancel_left'
        slot_def [symmetric])
  moreover have "reader_inv ast r h p ?reader (read_bytes ?acc)"
    using inv p slot_length [OF st(1), of p] by (simp add: reader_inv_def del: mult_Suc)
  ultimately show thesis using that [of ?reader ?acc] by simp
qed

text \<open>Reading the bits of boundary \<open>p\<close>.\<close>

lemma reader_bits:
  assumes "reader_inv ast r h p reader (read_bytes acc)" "p \<le> length h" "acc_ok acc"
  obtains reader' acc' where "reader_inv ast r h p reader' (read_bytes acc')" "worked 0 acc acc'"
    "reader_root p (reader, acc) = Inr (lab_sel ast h p \<noteq> None, reader', acc')"
    "\<And>pc a b es. pc < length (cr_insts r) \<Longrightarrow> cr_insts r ! pc = ISplit a b \<Longrightarrow> paths (cr_insts r) h a p es \<Longrightarrow>
       reader_decision p (rank_of (cr_insts r) pc) (reader, acc) = Inr (es \<noteq> [], reader', acc')"
proof -
  obtain reader' acc' where e: "reader_ensure p (reader, acc) = Inr (reader', acc')"
    "reader_inv ast r h p reader' (read_bytes acc')"
    "rr_buffer reader' = slot (rr_record_bytes reader') (length h) p (rr_store reader')"
    "acc' = acc\<lparr>sequential_log_read_bytes := read_bytes acc'\<rparr>"
    using reader_ensure_ok [OF assms(1,2)] by blast
  have st: "well_compiled r" "cr_split_count r < 8 * rr_record_bytes reader'" "rr_split_count reader' = cr_split_count r"
    "length (rr_buffer reader') = rr_record_bytes reader'"
    "row_logged ast r h p (packed (rr_buffer reader')) (packed (rr_buffer reader') (cr_split_count r))"
    using e(2) assms(2) unfolding e(3) by (auto simp: reader_inv_def store_ok_def e(3))
  have bit: "record_read_bit (rr_buffer reader') i = Inr (packed (rr_buffer reader') i)" if "i \<le> cr_split_count r" for i
    using st(2,4) that by (intro record_read_bit_ok) simp
  have "worked 0 acc acc'"
    unfolding worked_def using assms(3) by (subst (1 2 3 4 5) e(4)) (simp add: acc_ok_def builds_ahead_def)
  moreover have "reader_root p (reader, acc) = Inr (lab_sel ast h p \<noteq> None, reader', acc')"
    using e(1) bit st(3,5) by (simp add: reader_root_def row_logged_def)
  moreover have "reader_decision p (rank_of (cr_insts r) pc) (reader, acc) = Inr (es \<noteq> [], reader', acc')"
    if "pc < length (cr_insts r)" "cr_insts r ! pc = ISplit a b" "paths (cr_insts r) h a p es" for pc a b es
  proof -
    have "rank_of (cr_insts r) pc < cr_split_count r"
      using rank_of_less [OF that(1)] that(2) st(1) by (simp add: well_compiled_def is_split_def)
    with bit [of "rank_of (cr_insts r) pc"] e(1) st(5) that show ?thesis
      by (simp add: reader_decision_def row_logged_def)
  qed
  ultimately show thesis using that e(2) by blast
qed

section \<open>The executor is correct\<close>

lemma reader_inv_move: "reader_inv ast r h p reader rb \<Longrightarrow> p \<le> p' \<Longrightarrow> reader_inv ast r h p' reader rb"
  by (auto simp: reader_inv_def split: option.splits)

lemma reader_inv_facts:
  "reader_inv ast r h p reader rb \<Longrightarrow> well_compiled r \<and> means r ast \<and> length h < usize_max"
  by (simp add: reader_inv_def store_ok_def)

interpretation sreplay: replay_log r h reader_decision "replay_row_log r h" "reader_inv ast r h" for ast r h
proof unfold_locales
  fix p st acc pc a b es
  assume a: "reader_inv ast r h p st (read_bytes acc)" "p \<le> length h" "acc_ok acc" "pc < length (cr_insts r)"
    "cr_insts r ! pc = ISplit a b" "paths (cr_insts r) h a p es"
  from reader_bits [OF a(1-3)] a(4-6)
  show "\<exists>st' acc'. reader_decision p (rank_of (cr_insts r) pc) (st, acc) = Inr (es \<noteq> [], st', acc')
      \<and> reader_inv ast r h p st' (read_bytes acc') \<and> worked 0 acc acc'" by metis
qed (use reader_inv_move reader_inv_facts in \<open>auto simp: replay_row_log.simps [of r h]\<close>)

lemma row_log_select_ok:
  assumes "reader_inv ast r h p reader (read_bytes acc)" "p \<le> length h" "acc_ok acc"
  shows "lab_sel ast h p = None \<Longrightarrow> \<exists>reader' acc'. row_log_select r h p (reader, acc) = Inr (None, reader', acc')
      \<and> reader_inv ast r h p reader' (read_bytes acc') \<and> worked 0 acc acc'"
    and "lab_sel ast h p = Some e \<Longrightarrow> work_fits (cr_limits r) acc (length (cr_insts r) * (e - p + 1)) \<Longrightarrow>
      \<exists>reader' acc'. row_log_select r h p (reader, acc) = Inr (Some e, reader', acc')
        \<and> reader_inv ast r h e reader' (read_bytes acc') \<and> worked (length (cr_insts r) * (e - p + 1)) acc acc'"
proof -
  obtain reader1 acc1 where 1: "reader_inv ast r h p reader1 (read_bytes acc1)" "worked 0 acc acc1"
    "reader_root p (reader, acc) = Inr (lab_sel ast h p \<noteq> None, reader1, acc1)"
    by (rule reader_bits [OF assms])
  show "lab_sel ast h p = None \<Longrightarrow> \<exists>reader' acc'. row_log_select r h p (reader, acc) = Inr (None, reader', acc')
      \<and> reader_inv ast r h p reader' (read_bytes acc') \<and> worked 0 acc acc'"
    using 1 by (auto simp: row_log_select_def)
  assume sel: "lab_sel ast h p = Some e" and w: "work_fits (cr_limits r) acc (length (cr_insts r) * (e - p + 1))"
  have "work_fits (cr_limits r) acc1 (length (cr_insts r) * (e - p + 1))"
    using work_fits_after [OF _ 1(2)] w by simp
  moreover have "means r ast" "acc_ok acc1" using reader_inv_facts [OF assms(1)] 1(2) by (auto simp: worked_def)
  ultimately obtain reader2 acc2 where 2: "replay_row_log r h (cr_entry r) p (reader1, acc1) = Inr (e, reader2, acc2)"
    "reader_inv ast r h e reader2 (read_bytes acc2)" "worked (length (cr_insts r) * (e - p + 1)) acc1 acc2"
    using sreplay.replay_ok [OF _ sel assms(2) 1(1)] by blast
  from 1(3) 2(1,2) sel worked_trans [OF 1(2) 2(3)]
  show "\<exists>reader' acc'. row_log_select r h p (reader, acc) = Inr (Some e, reader', acc')
      \<and> reader_inv ast r h e reader' (read_bytes acc') \<and> worked (length (cr_insts r) * (e - p + 1)) acc acc'"
    by (auto simp: row_log_select_def)
qed

interpretation ssrc: root_source "length h" "lab_sel ast h" "cr_limits r" Inr "row_log_select r h"
  "reader_inv ast r h" "reader_inv ast r h" "length (cr_insts r)" 0 for ast r h
proof unfold_locales
  show "\<exists>st' acc'. row_log_select r h p (st, acc) = Inr (Some e, st', acc') \<and> reader_inv ast r h e st' (read_bytes acc')
      \<and> worked (length (cr_insts r) * (e - p + 1)) acc acc'"
    if "p \<le> length h" "lab_sel ast h p = Some e" "reader_inv ast r h p st (read_bytes acc)" "acc_ok acc"
      "work_fits (cr_limits r) acc (length (cr_insts r) * (e - p + 1))" for p e st acc
    by (rule row_log_select_ok(2) [OF that(3,1,4,2,5)])
  show "\<exists>st' acc'. Inr (st, acc) = (Inr (st', acc') :: lab_error + row_reader run_state) \<and>
      reader_inv ast r h p st' (read_bytes acc') \<and> worked 0 acc acc'"
    if "reader_inv ast r h p st (read_bytes acc)" "acc_ok acc" for p st acc
    using that worked_refl by blast
  show "\<exists>st' acc'. row_log_select r h p (st, acc) = Inr (None, st', acc') \<and> reader_inv ast r h p st' (read_bytes acc')
      \<and> worked 0 acc acc'"
    if "p \<le> length h" "lab_sel ast h p = None" "reader_inv ast r h p st (read_bytes acc)" "acc_ok acc" for p st acc
    by (rule row_log_select_ok(1) [OF that(3,1,4,2)])
qed (use reader_inv_move reader_inv_facts in blast)+

section \<open>Admission is enough\<close>

lemma row_ceil_div_safe [simp]:
  "0 < d \<Longrightarrow> safe resource_error (row_ceil_div v d) Q \<longleftrightarrow> (v + (d - 1) \<le> usize_max \<longrightarrow> Q ((v + (d - 1)) div d))"
  by (auto simp: row_ceil_div_def usub_def)

definition row_admitted :: "compiled_regex \<Rightarrow> nat \<Rightarrow> row_admission \<Rightarrow> bool" where
  "row_admitted r u a \<longleftrightarrow> cr_split_count r < 8 * ra_record_len a \<and> ra_store_len a = ra_record_len a * u \<and>
     ra_record_len a * u \<le> usize_max \<and> log_work r u \<le> max_work (cr_limits r)"

lemma admit_row_log_safe:
  assumes "\<And>a. row_admitted r u a \<Longrightarrow> Q a"
  shows "safe resource_error (admit_row_log r u) Q"
  unfolding admit_row_log_def Let_def safe_simps preflight_safe checked_safe
  using ceil_div_covers [of 8 "cr_split_count r + 1"]
  by simp (intro impI assms, simp add: row_admitted_def)

lemma row_log_run:
  assumes inv: "reader_inv ast r h 0 reader (read_bytes acc)" and acc: "acc_ok acc" "builds_ahead acc = 0" "output_work acc = 0"
    and work: "total_work acc \<le> build_cost (cr_insts r) * Suc (length h)"
      "log_work r (Suc (length h)) \<le> max_work (cr_limits r)" "max_work (cr_limits r) \<le> usize_max"
    and out: "min (Suc (length h)) (max_output_matches (cr_limits r)) * size_of_span \<le> usize_max"
  shows "run_result (max_output_matches (cr_limits r)) acc (2 * Suc (length h) * (1 + length (cr_insts r) + 0)) []
    (lab_spans ast h) (collect_sequence (length h) (cr_limits r) (row_log_select r h) (reader, acc))"
proof -
  let ?n = "Suc (length h)" and ?q = "length (cr_insts r)"
  have "2 * ?n * (1 + ?q + 0) \<le> ?n * 2 + ?q * ?n * 4" by (simp add: algebra_simps)
  then show ?thesis
    using ssrc.iterate_loop_ok [OF inv acc(1), of None "[]"] acc(2,3) work output_fits [OF out, of ast]
    by (simp add: collect_sequence_def work_fits_def budget_start del: mult_Suc mult_Suc_right)
qed

lemma populate_row_store_ok:
  assumes "well_compiled r" "means r ast" "length h < usize_max" "row_admitted r (Suc (length h)) a"
    and "acc_ok acc" "work_fits (cr_limits r) acc (build_cost (cr_insts r) * Suc (length h))"
    and "sequential_log_write_bytes acc = 0"
  obtains store acc' where
    "populate_row_store r h (Suc (length h)) (replicate (ra_store_len a) 0)
       (replicate (ra_record_len a) 0, replicate (length (cr_insts r)) 0, replicate (length (cr_insts r)) 0) acc = Inr (store, acc')"
    "store_ok ast r h (ra_record_len a) 0 store" "worked (build_cost (cr_insts r) * Suc (length h)) acc acc'"
    "read_bytes acc' = read_bytes acc"
proof -
  let ?n = "Suc (length h)" and ?B = "ra_record_len a" and ?q = "length (cr_insts r)"
  have "store_ok ast r h ?B ?n (replicate (ra_store_len a) 0)"
    using assms by (auto simp: store_ok_def row_admitted_def)
  from store_rows_ok [OF order_refl this, of "replicate ?B 0" "replicate ?q 0" "replicate ?q 0" acc] assms
  obtain rows' store' acc' where
    1: "rfold (store_row r h) (rev [0..<?n]) (((replicate ?B 0, replicate ?q 0, replicate ?q 0),
        replicate (ra_store_len a) 0, 0), acc) = Inr ((rows', store', ?n * ?B), acc')" "store_ok ast r h ?B 0 store'"
    "worked (?n * build_cost (cr_insts r)) acc acc'" "read_bytes acc' = read_bytes acc"
    by (auto simp: mult.commute simp del: mult_Suc mult_Suc_right upt_Suc)
  have "length store' = ?n * ?B" using 1(2) by (simp add: store_ok_def mult.commute)
  with 1 that [of store' acc'] show thesis
    by (simp add: populate_row_store_def mult.commute del: mult_Suc mult_Suc_right upt_Suc)
qed

abbreviation fresh_reader :: "compiled_regex \<Rightarrow> row_admission \<Rightarrow> bytes \<Rightarrow> row_reader" where
  "fresh_reader r a store \<equiv> \<lparr>rr_store = store, rr_buffer = replicate (ra_record_len a) 0, rr_record_bytes = ra_record_len a,
     rr_split_count = cr_split_count r, rr_current = None\<rparr>"

abbreviation row_accounting :: "compiled_regex \<Rightarrow> nat \<Rightarrow> row_admission \<Rightarrow> accounting" where
  "row_accounting r u a \<equiv> (start_accounting r u)\<lparr>sequential_log_bytes := ra_store_len a, resident_log_bytes := ra_store_len a,
     random_access_peak_bytes := ra_scratch_bytes a,
     output_reserved_bytes := min u (max_output_matches (cr_limits r)) * size_of_span\<rparr>"

abbreviation row_buffers :: "compiled_regex \<Rightarrow> row_admission \<Rightarrow> bytes rows" where
  "row_buffers r a \<equiv> (replicate (ra_record_len a) 0, replicate (length (cr_insts r)) 0, replicate (length (cr_insts r)) 0)"

lemma row_log_ready:
  assumes wc: "well_compiled r" "means r ast" and mw: "max_work (cr_limits r) \<le> usize_max"
    and a: "row_admitted r (Suc (length h)) a" "Suc (length h) \<le> usize_max"
    and out: "min (Suc (length h)) (max_output_matches (cr_limits r)) * size_of_span \<le> usize_max"
  obtains store acc' where
    "populate_row_store r h (Suc (length h)) (replicate (ra_store_len a) 0) (row_buffers r a)
       (row_accounting r (Suc (length h)) a) = Inr (store, acc')"
    "run_result (max_output_matches (cr_limits r)) acc' (2 * Suc (length h) * (1 + length (cr_insts r) + 0)) []
      (lab_spans ast h) (collect_sequence (length h) (cr_limits r) (row_log_select r h) (fresh_reader r a store, acc'))"
    "output_work acc' = 0" "total_work acc' \<le> build_cost (cr_insts r) * Suc (length h)"
proof -
  let ?n = "Suc (length h)" and ?l = "cr_limits r" and ?b = "build_cost (cr_insts r)"
  let ?acc = "row_accounting r ?n a"
  have w: "log_work r ?n \<le> max_work ?l" using a(1) by (simp add: row_admitted_def)
  have acc: "acc_ok ?acc" "work_fits ?l ?acc (?b * ?n)" "sequential_log_write_bytes ?acc = 0" "read_bytes ?acc = 0"
    using w mw by (simp_all add: work_fits_def start_accounting_def accounting_default_def acc_ok_def)
  obtain store acc' where p: "populate_row_store r h ?n (replicate (ra_store_len a) 0) (row_buffers r a) ?acc = Inr (store, acc')"
    "store_ok ast r h (ra_record_len a) 0 store" "worked (?b * ?n) ?acc acc'" "read_bytes acc' = read_bytes ?acc"
    using populate_row_store_ok [OF wc _ a(1) acc(1-3)] a(2) by (metis less_eq_Suc_le)
  have inv: "reader_inv ast r h 0 (fresh_reader r a store) (read_bytes acc')"
    using p(2,4) acc(4) by (simp add: reader_inv_def)
  have acc': "acc_ok acc'" "builds_ahead acc' = 0" "output_work acc' = 0" "total_work acc' \<le> ?b * ?n"
    using p(3) by (auto simp: worked_def simp del: mult_Suc mult_Suc_right)
  from that [OF p(1) row_log_run [OF inv acc' w mw out] acc'(3,4)] show thesis .
qed

lemma row_log_outcome:
  assumes wc: "well_compiled r" "means r ast" and mw: "max_work (cr_limits r) \<le> usize_max"
  shows "returns resource_error (find_all_sequential_row_log al r h) (\<lambda>rep. rep_matches rep = lab_spans ast h \<and>
    total_work (rep_accounting rep) \<le> log_work r (Suc (length h)))"
  unfolding find_all_sequential_row_log_def returns_then_run Let_def safe_simps preflight_safe
    zeroed_bytes_def zeroed_usizes_def checked_safe
proof (intro impI admit_row_log_safe)
  let ?n = "Suc (length h)" and ?l = "cr_limits r"
  let ?Q = "\<lambda>rep. rep_matches rep = lab_spans ast h \<and> total_work (rep_accounting rep) \<le> log_work r ?n"
  fix a assume a: "?n \<le> usize_max" "row_admitted r ?n a" "min ?n (max_output_matches ?l) * size_of_span \<le> usize_max"
  obtain store acc' where p: "populate_row_store r h ?n (replicate (ra_store_len a) 0) (row_buffers r a)
       (row_accounting r ?n a) = Inr (store, acc')"
    "run_result (max_output_matches ?l) acc' (2 * ?n * (1 + length (cr_insts r) + 0)) []
      (lab_spans ast h) (collect_sequence (length h) ?l (row_log_select r h) (fresh_reader r a store, acc'))"
    "output_work acc' = 0" "total_work acc' \<le> build_cost (cr_insts r) * ?n"
    using row_log_ready [OF wc mw a(2,1,3)] by blast
  with log_run_report(1) [OF p(2-4)]
  show "safe resource_error (populate_row_store r h ?n (replicate (ra_store_len a) 0) (row_buffers r a) (row_accounting r ?n a))
     (\<lambda>x. safe resource_error (case x of (store, acc) \<Rightarrow>
          rbind (rbind (try_reserve al RandomAccessBytes (ra_record_len a)) (\<lambda>_. Inr (replicate (ra_record_len a) 0)))
            (\<lambda>buffer. Inr (\<lparr>rr_store = store, rr_buffer = buffer, rr_record_bytes = ra_record_len a,
               rr_split_count = cr_split_count r, rr_current = None\<rparr>, acc)))
         (\<lambda>x. returns resource_error (report (collect_sequence (length h) ?l (row_log_select r h) x)) ?Q))"
    by simp
qed

lemma admit_row_log_Inr: "admit_row_log r u = Inr a \<Longrightarrow> row_admitted r u a"
  using admit_row_log_safe [of r u "row_admitted r u"] by (auto simp: safe_def)

lemma row_log_success:
  assumes wc: "well_compiled r" "means r ast" and mw: "max_work (cr_limits r) \<le> usize_max"
    and adm: "boundaries r h = Inr u" "admit_row_log r u = Inr a" "reserve_output al u (cr_limits r) = Inr b"
    and al: "al ResidentLogBytes (ra_store_len a)" "al RandomAccessBytes (ra_record_len a)"
      "al RandomAccessBytes (length (cr_insts r))"
    and out: "u \<le> max_output_matches (cr_limits r)"
  shows "succeeds (find_all_sequential_row_log al r h) (\<lambda>rep. rep_matches rep = lab_spans ast h)"
proof -
  let ?l = "cr_limits r"
  have u: "u = Suc (length h)" "Suc (length h) \<le> usize_max" using adm(1) by (auto simp: boundaries_def elim!: rbindE)
  have b: "b = min u (max_output_matches ?l) * size_of_span" "min u (max_output_matches ?l) * size_of_span \<le> usize_max"
    using adm(3) by (auto simp: reserve_output_def Let_def elim!: rbindE)
  obtain store acc' where
    p: "populate_row_store r h u (replicate (ra_store_len a) 0) (row_buffers r a) (row_accounting r u a) = Inr (store, acc')"
    "run_result (max_output_matches ?l) acc' (2 * u * (1 + length (cr_insts r) + 0)) [] (lab_spans ast h)
      (collect_sequence (length h) ?l (row_log_select r h) (fresh_reader r a store, acc'))"
    "output_work acc' = 0" "total_work acc' \<le> build_cost (cr_insts r) * u"
    using row_log_ready [OF wc mw admit_row_log_Inr u(2)] adm(2) b(2) unfolding u by blast
  have "length (lab_spans ast h) \<le> max_output_matches ?l"
    using lab.iter_seq_length [of h ast] out u by simp
  from log_run_report(2) [OF p(2-4) this] p(1) adm b(1) al show ?thesis
    unfolding find_all_sequential_row_log_def succeeds_then_run by (simp add: zeroed_bytes_def zeroed_usizes_def Let_def)
qed

end
