(* ===== verification/LabRefuse.thy ===== *)
theory LabRefuse
  imports LabCompiled
begin

text \<open>
  What \<^verbatim>\<open>CompiledRegex::new\<close> can report: a refused AST, a limit or the allocator. The internal
  failures of the builder (an index out of range, a slot left empty, a cycle of same-boundary
  edges) cannot happen.
\<close>

definition refusal :: "lab_error \<Rightarrow> bool" where
  "refusal e \<longleftrightarrow> resource_error e \<or> e \<in> {EmptyAlternation, EmptyRepeatBody, InvalidRepeatRange}"

lemma refusal_simps [simp]:
  "resource_error e \<Longrightarrow> refusal e" "refusal EmptyAlternation" "refusal EmptyRepeatBody" "refusal InvalidRepeatRange"
  "\<not> refusal LabPanic" "\<not> refusal SameBoundaryCycle" "\<not> refusal InvalidDecisionLog"
  by (simp_all add: refusal_def)

lemma refuses_checked [simp]:
  "safe refusal (checked_add a b k) Q \<longleftrightarrow> (a + b \<le> usize_max \<longrightarrow> Q (a + b))"
  "safe refusal (enforce x y k) U \<longleftrightarrow> (x \<le> y \<longrightarrow> U ())"
  "safe refusal (try_reserve al k n) U \<longleftrightarrow> (al k n \<longrightarrow> U ())"
  by (auto simp: safe_def checked_add_def uadd_def enforce_def try_reserve_def)

lemma refuses_push: "Q (s @ [i], length s) \<Longrightarrow> safe refusal (push lim al s i) Q"
  by (simp add: push_def)

definition grows :: "slots \<Rightarrow> lab_error + (slots \<times> nat) \<Rightarrow> bool" where
  "grows s m \<longleftrightarrow> safe refusal m (\<lambda>r. length s \<le> length (fst r))"

definition node_refuses :: "node_compiler \<Rightarrow> bool" where
  "node_refuses cc \<longleftrightarrow> (\<forall>s k d. grows s (cc s k d))"

lemma grows_push: "grows s (push lim al s i)"
  unfolding grows_def by (rule refuses_push) simp

lemma grows_ret: "grows s (Inr (s, k))"
  by (simp add: grows_def)

lemma grows_bind:
  "grows s m \<Longrightarrow> (\<And>s' e. length s \<le> length s' \<Longrightarrow> grows s' (f (s', e))) \<Longrightarrow> grows s (rbind m f)"
  unfolding grows_def safe_simps
  by (rule safe_mono, assumption) (metis (no_types, lifting) dual_order.trans prod.collapse safe_mono)

lemma grows_rfold:
  assumes "\<And>x r. x \<in> set xs \<Longrightarrow> grows (fst r) (f x r)"
  shows "grows (fst r) (rfold f xs r)"
  unfolding grows_def
proof (rule safe_rfold)
  fix x and r' :: "slots \<times> nat" assume "x \<in> set xs" "length (fst r) \<le> length (fst r')"
  with assms [of x r'] show "safe refusal (f x r') (\<lambda>r'. length (fst r) \<le> length (fst r'))"
    unfolding grows_def by (auto elim!: safe_mono)
qed simp

lemmas grows_rfold_pair = grows_rfold [where r = "(s, k)" for s k, unfolded fst_conv]

section \<open>Ordered choices and loops\<close>

lemma grows_choice:
  assumes "\<And>cc s. cc \<in> set ccs \<Longrightarrow> grows s (cc s)" "refusal er"
  shows "grows s (compile_choice lim al er ccs s)"
proof (cases "rev ccs")
  case Nil
  with assms(2) show ?thesis by (simp add: compile_choice_def grows_def)
next
  case (Cons final preceding)
  then have m: "final \<in> set ccs" "set preceding \<subseteq> set ccs" by (metis set_rev list.set_intros(1), metis set_rev set_subset_Cons)
  have "grows (fst r) (add_choice lim al cc r)" if "cc \<in> set preceding" for cc r
    unfolding add_choice_def case_prod_unfold
    by (rule grows_bind) (use assms(1) m that grows_push in auto)
  then show ?thesis
    unfolding compile_choice_def Cons list.case
    by (intro grows_bind assms(1) [OF m(1)]) (metis fst_conv grows_rfold)
qed

lemma grows_atom: "grows s (compile_repeat_atom lim al a l k s)"
  by (cases a) (simp_all add: grows_push grows_ret)

lemma grows_repeat: "grows s (compile_repeat lim al body g k s)"
proof (cases "body = []")
  case False
  have b: "grows s1 (compile_repeat_body lim al body l k s1)" for s1 l
    unfolding compile_repeat_body_def by (rule grows_choice) (auto simp: grows_atom)
  have "safe refusal (compile_repeat_body lim al body (length s) k (s @ [None])) (\<lambda>r. length s < length (fst r))"
    using b [of "s @ [None]" "length s"] by (simp add: grows_def less_eq_Suc_le)
  then have "safe refusal (compile_repeat_body lim al body (length s) k (s @ [None])) (\<lambda>r.
      safe refusal (case r of (slots, body_entry) \<Rightarrow> rbind (vset slots (length s) (Some (split_of g body_entry k)))
        (\<lambda>slots. Inr (slots, length s))) (\<lambda>r. length s \<le> length (fst r)))"
    by (rule safe_mono) auto
  with False show ?thesis
    unfolding compile_repeat_def grows_def by (simp add: refuses_push)
qed (simp add: compile_repeat_def grows_def)

section \<open>The progress product\<close>

lemma refuses_maps: "safe refusal (product_maps lim al zc cc code st) (\<lambda>_. True)"
proof (induction code arbitrary: st)
  case (Cons i code)
  obtain s zm cm where "st = (s, zm, cm)" by (cases st)
  with Cons show ?case by (simp add: refuses_push)
qed simp

lemma refuses_translate:
  assumes "i \<noteq> IMatch" "\<And>t. t \<in> set (targets i) \<Longrightarrow> t < length zm \<and> t < length cm"
  shows "safe refusal (translate_progress_inst i zm cm c) (\<lambda>_. True)"
  using assms by (cases i) auto

lemma refuses_patch:
  assumes "\<And>i t. i \<in> set code \<Longrightarrow> t \<in> set (targets i) \<Longrightarrow> t \<le> length code"
    and "length zm = Suc (length code)" "length cm = Suc (length code)"
    and "\<And>j. j < length code \<Longrightarrow> zm ! Suc j < length s \<and> cm ! Suc j < length s"
  shows "safe refusal (rfold (product_patch zm cm) (enumerate 0 (IMatch # code)) s) (\<lambda>s'. length s' = length s)"
proof (rule safe_rfold)
  fix x and s' :: slots assume x: "x \<in> set (enumerate 0 (IMatch # code))" and s': "length s' = length s"
  obtain pc i where pi: "x = (pc, i)" by (cases x)
  show "safe refusal (product_patch zm cm x s') (\<lambda>s'. length s' = length s)"
  proof (cases "i = IMatch")
    case False
    with x pi have pc: "0 < pc" "pc \<le> length code" "i \<in> set code"
      by (auto simp: in_set_enumerate_eq nth_Cons split: nat.splits)
    have t: "safe refusal (translate_progress_inst i zm cm c) (\<lambda>_. True)" for c
      by (rule refuses_translate) (use False assms pc in \<open>auto simp: less_Suc_eq_le\<close>)
    from assms(4) [of "pc - 1"] pc have b: "zm ! pc < length s" "cm ! pc < length s" by auto
    show ?thesis
      unfolding product_patch_def pi case_prod_conv
      using False pc b assms(2,3) s' by (auto intro!: safe_mono [OF t] simp: less_Suc_eq_le)
  qed (simp add: product_patch_def pi s')
qed simp

lemma refuses_import:
  assumes "IMatch \<notin> set code" "\<And>i t. i \<in> set code \<Longrightarrow> t \<in> set (targets i) \<Longrightarrow> t \<le> length code" "fe \<le> length code"
  shows "grows s (import_progress_product lim al (IMatch # code) fe k l s)"
proof -
  have "safe refusal (import_progress_product lim al (IMatch # code) fe k l s) (\<lambda>_. True)"
    unfolding import_progress_product_def safe_simps refuses_checked
  proof (intro impI safe_post [OF refuses_maps], clarsimp)
    fix s1 zm cm assume "product_maps lim al k l code (s, [k], [l]) = Inr (s1, zm, cm)"
    note m = product_maps_Inr [OF this assms(1)]
    have "safe refusal (rfold (product_patch zm cm) (enumerate 0 (IMatch # code)) s1) (\<lambda>s'. length s' = length s1)"
      by (rule refuses_patch) (use assms(2) m in auto)
    then have "safe refusal (rfold (product_patch zm cm) (enumerate (Suc 0) code) s1) (\<lambda>_. True)"
      by (simp add: product_patch_IMatch) (auto elim!: safe_mono)
    then show "safe refusal (product_patch zm cm (0, IMatch) s1)
        (\<lambda>x. safe refusal (rfold (product_patch zm cm) (enumerate (Suc 0) code) x)
          (\<lambda>x. safe refusal (vget zm fe) (\<lambda>x. True)))"
      using m(2) assms(3) by (simp add: product_patch_IMatch)
  qed
  then show ?thesis
    unfolding grows_def
    by (rule safe_post) (use import_progress_product_Inr [OF _ assms] in fastforce)
qed

lemma grows_star:
  assumes "node_refuses cc" "compile_ok cc f"
  shows "grows s (compile_progress_star lim al cc g k d s)"
proof -
  have child: "safe refusal (cc [Some IMatch] 0 d) (\<lambda>_. True)"
    using assms(1) unfolding node_refuses_def grows_def by (blast intro: safe_mono)
  have "safe refusal (cc [Some IMatch] 0 d) (\<lambda>(fs, fe). safe refusal (collect_slots fs) (\<lambda>fi.
      safe refusal (import_progress_product lim al fi fe k (length s) (s @ [None])) (\<lambda>r. Suc (length s) \<le> length (fst r))))"
  proof (rule safe_post [OF child], clarify)
    fix fs fe assume "cc [Some IMatch] 0 d = Inr (fs, fe)"
    from fragment_facts [OF assms(2) this] obtain code where c: "fs = Some IMatch # map Some code" "IMatch \<notin> set code"
      "\<And>i t. i \<in> set code \<Longrightarrow> t \<in> set (targets i) \<Longrightarrow> t \<le> length code" "fe \<le> length code" by blast
    have "collect_slots fs = Inr (IMatch # code)" using collect_slots_Some [of "IMatch # code"] c(1) by simp
    with refuses_import [OF c(2-4), where s = "s @ [None]"]
    show "safe refusal (collect_slots fs) (\<lambda>fi.
      safe refusal (import_progress_product lim al fi fe k (length s) (s @ [None])) (\<lambda>r. Suc (length s) \<le> length (fst r)))"
      by (simp add: grows_def)
  qed
  then show ?thesis
    unfolding compile_progress_star_def grows_def safe_simps
    by (intro refuses_push; simp) (intro refuses_push; auto elim!: safe_mono)
qed

section \<open>Nodes\<close>

lemma node_refusesI: "(\<And>s k d. grows s (cc s k d)) \<Longrightarrow> node_refuses cc"
  by (simp add: node_refuses_def)

lemma grows_checked: "(\<And>n. grows s (f n)) \<Longrightarrow> grows s (rbind (checked_add a b kind) f)"
  by (simp add: grows_def)

lemma grows_copy: "node_refuses cc \<Longrightarrow> grows (fst r) (compile_copy cc d r)"
  by (cases r) (simp add: compile_copy_def node_refuses_def)

lemma grows_optional: "node_refuses cc \<Longrightarrow> grows (fst r) (compile_optional lim al cc g d r)"
  unfolding compile_optional_def case_prod_unfold
  by (rule grows_bind) (auto simp: node_refuses_def grows_push)

lemma grows_repetition:
  assumes "node_refuses cc" "compile_ok cc f"
  shows "grows s (compile_repetition lim al cc mn mx g k d s)"
  unfolding compile_repetition_def
proof (rule grows_bind)
  show "grows s (case mx of
       Some maximum \<Rightarrow> rbind (ok_or (usub maximum mn) InvalidRepeatRange) (\<lambda>optional.
         rfold (\<lambda>_. compile_optional lim al cc g d) [0..<optional] (s, k))
     | None \<Rightarrow> compile_progress_star lim al cc g k d s)"
  proof (cases mx)
    case None
    then show ?thesis by (simp add: grows_star [OF assms])
  next
    case (Some m)
    have "grows s (rfold (\<lambda>_. compile_optional lim al cc g d) [0..<m - mn] (s, k))"
      by (rule grows_rfold_pair) (rule grows_optional [OF assms(1)])
    moreover have "grows s (Inl InvalidRepeatRange)" by (simp add: grows_def)
    ultimately show ?thesis using Some by (simp add: usub_def)
  qed
  show "grows s' (rfold (\<lambda>_. compile_copy cc d) [0..<mn] (s', e))" for s' e
    by (rule grows_rfold_pair) (rule grows_copy [OF assms(1)])
qed

lemma compile_node_refuses: "node_refuses (compile_node lim al a)"
proof (induction a)
  case (LConcat as)
  show ?case
  proof (rule node_refusesI, unfold compile_node.simps, rule grows_checked)
    fix s k n
    show "grows s (rfold (\<lambda>child. compile_copy child n) (rev (map (compile_node lim al) as)) (s, k))"
      by (rule grows_rfold_pair) (use LConcat in \<open>auto intro: grows_copy\<close>)
  qed
next
  case (LAlt as)
  then show ?case
    by (intro node_refusesI) (unfold compile_node.simps, intro grows_checked grows_choice, auto simp: node_refuses_def)
next
  case (LRepetition a mn mx g)
  then show ?case
    by (intro node_refusesI) (simp add: grows_checked grows_repetition [OF _ compile_node_ok])
qed (auto intro!: node_refusesI grows_checked simp: grows_push grows_ret grows_repeat)

lemma validate_refuses: "safe refusal (validate_ast_loop l stack n) (\<lambda>_. True)"
proof (induction l stack n rule: validate_ast_loop.induct)
  case (2 l node depth stack nodes)
  have "safe refusal (lab_node_check l node) (\<lambda>_. True)"
    by (cases node) (auto split: option.splits)
  then show ?case
    unfolding validate_ast_loop.simps(2) safe_simps refuses_checked
    by (intro impI, rule safe_post) (rule 2, auto)
qed (simp add: validate_ast_loop.simps)

lemma refuses_ranks: "safe refusal (rfold rank_split is st) (\<lambda>_. True)"
  by (rule safe_rfold) (auto simp: rank_split_def split: prod.splits)

lemma compiled_new_refuses: "safe refusal (compiled_new al ast l) (\<lambda>_. True)"
  unfolding compiled_new_def safe_simps
proof (rule safe_mono [OF validate_refuses [of l "[(ast, 1)]" 0, folded validate_ast_def]],
    rule refuses_push, unfold case_prod_conv safe_simps)
  let ?lim = "max_program_states l"
  have "safe refusal (compile_node ?lim al ast [Some IMatch] 0 1) (\<lambda>_. True)"
    using compile_node_refuses [of ?lim al ast] unfolding node_refuses_def grows_def by (blast intro: safe_mono)
  then show "safe refusal (compile_node ?lim al ast ([] @ [Some IMatch]) (length ([] :: slots)) 1)
     (\<lambda>x. safe refusal (case x of (slots, entry) \<Rightarrow> rbind (collect_slots slots) (\<lambda>insts.
        rbind (epsilon_order insts) (\<lambda>order. rbind (try_reserve al ProgramStates (length insts)) (\<lambda>_.
        rbind (rfold rank_split insts (0, [])) (\<lambda>(split_count, split_rank).
          Inr \<lparr>cr_insts = insts, cr_entry = entry, cr_epsilon_order = order,
            cr_split_rank = split_rank, cr_split_count = split_count, cr_limits = l\<rparr>))))) (\<lambda>_. True))"
    unfolding append_Nil list.size(3)
  proof (rule safe_post, clarify)
    fix slots' entry assume c: "compile_node ?lim al ast [Some IMatch] 0 1 = Inr (slots', entry)"
    from fragment_facts [OF compile_node_ok c] obtain code where
      f: "slots' = Some IMatch # map Some code" "\<And>i t. i \<in> set code \<Longrightarrow> t \<in> set (targets i) \<Longrightarrow> t \<le> length code"
      "\<And>pc. pc \<le> length code \<Longrightarrow> eacc (IMatch # code) pc" by blast
    have "closed_program (IMatch # code)" using f(2) by (auto simp: closed_program_def less_Suc_eq_le)
    from epsilon_order_complete [OF this] f(3) obtain order where "epsilon_order (IMatch # code) = Inr order"
      by (auto simp: less_Suc_eq_le)
    moreover have "collect_slots slots' = Inr (IMatch # code)" using collect_slots_Some [of "IMatch # code"] f(1) by simp
    ultimately show "safe refusal (rbind (collect_slots slots') (\<lambda>insts.
        rbind (epsilon_order insts) (\<lambda>order. rbind (try_reserve al ProgramStates (length insts)) (\<lambda>_.
        rbind (rfold rank_split insts (0, [])) (\<lambda>(split_count, split_rank).
          Inr \<lparr>cr_insts = insts, cr_entry = entry, cr_epsilon_order = order,
            cr_split_rank = split_rank, cr_split_count = split_count, cr_limits = l\<rparr>))))) (\<lambda>_. True)"
      using safe_mono [OF refuses_ranks [of "IMatch # code" "(0, [])"]]
      by (simp del: rfold.simps add: case_prod_unfold)
  qed
qed

end
