(* ===== verification/LabAgree.thy ===== *)
theory LabAgree
  imports LabRowLog LabRefuse
begin

text \<open>
  The properties of \<^verbatim>\<open>crates/fre-iterator-lab\<close>, from an AST to the report of an executor, with a
  small compiled regex as their witness.
\<close>

section \<open>A sample regex\<close>

text \<open>\<^verbatim>\<open>a+|b\<close>, with the default limits and an allocator that never fails.\<close>

definition sample_lab :: lab_ast where
  "sample_lab = LAlt [LRepetition (LByte 97) 1 None Greedy, LByte 98]"

abbreviation alloc_all :: allocator where
  "alloc_all \<equiv> \<lambda>_ _. True"

definition sample_compiled :: compiled_regex where
  "sample_compiled = \<lparr>cr_insts = [IMatch, IByte (Some 98) 0, ISplit 3 0, IByte (Some 97) 2, IByte (Some 97) 2,
       IByte (Some 97) 2, ISplit 5 1],
     cr_entry = 6, cr_epsilon_order = [0, 1, 3, 4, 5, 2, 6],
     cr_split_rank = [None, None, Some 0, None, None, None, Some 1], cr_split_count = 2,
     cr_limits = compile_limits_default\<rparr>"

lemmas lab_eval = compiled_new_def validate_ast_def validate_ast_loop.simps push_def compile_choice_def
  add_choice_def enforce_def uadd_def umul_def usub_def usize_max_def checked_add_def checked_mul_def
  try_reserve_def collect_slots_def epsilon_order_def epsilon_loop.simps rank_split_def is_split_def
  edges_def add_edge_def release_parent_def vget_def vset_def compile_repetition_def
  compile_progress_star_def compile_copy_def compile_optional_def import_progress_product_def
  product_patch_def split_of_def compile_repeat_def compile_repeat_body_def Let_def

lemma sample_compiles: "compiled_new alloc_all sample_lab compile_limits_default = Inr sample_compiled"
  by (simp add: lab_eval sample_lab_def sample_compiled_def compile_limits_default_def)

lemma sample_limits: "max_work compile_limits_default \<le> usize_max"
  by (simp add: compile_limits_default_def usize_max_def)

lemma sample_spans: "lab_spans sample_lab [97, 97, 98] = [(0, 2), (2, 3)]"
proof -
  have s: "lab_sel sample_lab [97, 97, 98] 0 = Some 2" "lab_sel sample_lab [97, 97, 98] 1 = Some 2"
    "lab_sel sample_lab [97, 97, 98] 2 = Some 3" "lab_sel sample_lab [97, 97, 98] 3 = None"
    by (simp_all add: lab_sel_def sample_lab_def consume_def star_ends.simps Let_def numeral_2_eq_2 numeral_3_eq_3)
  have n: "next_match (length [97, 97, 98 :: u8]) (lab_sel sample_lab [97, 97, 98]) 0 = Some (0, 2)"
    "next_match (length [97, 97, 98 :: u8]) (lab_sel sample_lab [97, 97, 98]) 2 = Some (2, 3)"
    "next_match (length [97, 97, 98 :: u8]) (lab_sel sample_lab [97, 97, 98]) 3 = None"
    using s by (simp_all add: next_match_step [of _ _ 0] next_match_step [of _ _ 2] next_match_step [of _ _ 3]
        next_match_step [of _ _ 4])
  show ?thesis
    using lab.iter_seq_unfold [of "[97, 97, 98]" sample_lab 0 None]
      lab.iter_seq_unfold [of "[97, 97, 98]" sample_lab 2 "Some 2"]
      lab.iter_seq_unfold [of "[97, 97, 98]" sample_lab 3 "Some 3"] n by simp
qed

lemma sample_admitted:
  "boundaries sample_compiled [97, 97, 98] = Inr 4" "reserve_output alloc_all 4 compile_limits_default = Inr 64"
  "\<exists>a. admit_log sample_compiled 4 = Inr a" "\<exists>a. admit_row_log sample_compiled 4 = Inr a"
  "table_limits compile_limits_default 7 4"
  by (simp_all add: boundaries_def reserve_output_def admit_log_def admit_row_log_def ceil_div_def row_ceil_div_def
      sample_compiled_def compile_limits_default_def usub_def usize_max_def maximum_build_work_def size_of_span_def
      size_of_usize_def table_limits_def Let_def)

section \<open>Compilation\<close>

text \<open>
  C8: The continuation graph that compilation builds computes the ordered semantics of the AST:
  from its entry, at every boundary, the program reaches exactly the ends of the AST, in priority
  order. This covers the progress product of unbounded repetitions.
\<close>

theorem lab_compile_correct:
  assumes "compiled_new al ast l = Inr r" "p \<le> length h"
  shows "paths (cr_insts r) h (cr_entry r) p (ends h ast p)"
  using compiled_new_ok(2) [OF assms(1)] assms(2) by (simp add: means_def)

theorem lab_compile_correct_witness: "paths (cr_insts sample_compiled) [97, 97] 6 0 [2, 1]"
proof -
  have "ends [97, 97] sample_lab 0 = [2, 1]"
    by (simp add: sample_lab_def consume_def star_ends.simps Let_def numeral_2_eq_2)
  with lab_compile_correct [OF sample_compiles, of 0 "[97, 97]"] show ?thesis
    by (simp add: sample_compiled_def)
qed

text \<open>
  C13: The runtime invariant of a compiled regex: every branch target is a state, the stored order
  is a permutation of the states in which the same-boundary successors of a state come before it,
  and the split ranks number the splits in program order.
\<close>

theorem lab_compiled_invariant:
  assumes "compiled_new al ast l = Inr r"
  shows "well_compiled r"
  by (rule compiled_new_ok(1) [OF assms])

theorem lab_compiled_invariant_witness: "topological (cr_insts sample_compiled) [] [0, 1, 3, 4, 5, 2, 6]"
  using lab_compiled_invariant [OF sample_compiles]
  by (simp add: well_compiled_def order_ok_def sample_compiled_def)

text \<open>
  C12: Compilation fails only by refusing the AST, by a limit or by the allocator. No index of the
  builder is out of range, no reserved slot stays empty, and the cycle error is never reported: the
  progress product removes every cycle of same-boundary edges.
\<close>

theorem lab_compile_errors:
  assumes "compiled_new al ast l = Inl e"
  shows "refusal e"
  using compiled_new_refuses [of al ast l] assms by simp

theorem lab_compile_errors_witness:
  "\<exists>e. compiled_new alloc_all (LConcat [LByte 97, LAlt []]) compile_limits_default = Inl e \<and> refusal e"
proof -
  have "compiled_new alloc_all (LConcat [LByte 97, LAlt []]) compile_limits_default = Inl EmptyAlternation"
    by (simp add: lab_eval compile_limits_default_def)
  with lab_compile_errors [OF this] show ?thesis by blast
qed

section \<open>Executors\<close>

text \<open>
  C11: The full-table executor returns on every input. Unless a limit or the allocator stops it, it
  reports exactly the abstract match sequence, within the work its preflight computed.
\<close>

theorem full_dp_correct:
  assumes "compiled_new al ast l = Inr r" "max_work l \<le> usize_max"
  shows "returns resource_error (find_all_full_dp al' r h) (\<lambda>rep. rep_matches rep = lab_spans ast h \<and>
    total_work (rep_accounting rep) \<le> build_cost (cr_insts r) * Suc (length h) + Suc (length h) * 2)"
  using full_dp_outcome compiled_new_ok [OF assms(1)] assms(2) by simp

theorem full_dp_correct_witness:
  "\<exists>rep. find_all_full_dp alloc_all sample_compiled [97, 97, 98] = Some (Inr rep) \<and> rep_matches rep = [(0, 2), (2, 3)]"
proof -
  note c = compiled_new_ok [OF sample_compiles]
  have "table_limits (cr_limits sample_compiled) (length (cr_insts sample_compiled)) (Suc (length [97, 97, 98 :: u8]))"
    using sample_admitted(5) by (simp add: sample_compiled_def eval_nat_numeral)
  from full_dp_success [OF c(1,2) this]
    full_dp_correct [OF sample_compiles sample_limits, of alloc_all "[97, 97, 98]", unfolded sample_spans]
  show ?thesis by (auto simp: returns_def succeeds_def runs_iff split: option.splits)
qed

text \<open>
  The repeated-search oracle, which builds a fresh table for every search, returns on every
  input and reports the abstract match sequence unless a limit or the allocator stops it.
\<close>

lemma oracle_correct:
  assumes "compiled_new al ast l = Inr r" "max_work l \<le> usize_max"
  shows "returns resource_error (find_all_oracle al' r h) (\<lambda>rep. rep_matches rep = lab_spans ast h)"
  using oracle_outcome compiled_new_ok [OF assms(1)] assms(2) by simp

text \<open>
  C9: The decision-log executor returns on every input: its replay terminates, never meets an
  inconsistent log, and ends where the suffix evaluation says. Unless a limit or the allocator
  stops it, it reports exactly the abstract match sequence, within the work admitted for it.
\<close>

theorem decision_log_correct:
  assumes "compiled_new al ast l = Inr r" "max_work l \<le> usize_max"
  shows "returns resource_error (find_all_decision_log al' r h) (\<lambda>rep. rep_matches rep = lab_spans ast h \<and>
    total_work (rep_accounting rep) \<le> log_work r (Suc (length h)))"
  using decision_log_outcome compiled_new_ok [OF assms(1)] assms(2) by simp

theorem decision_log_correct_witness:
  "returns resource_error (find_all_decision_log alloc_all sample_compiled [97, 97, 98])
     (\<lambda>rep. rep_matches rep = [(0, 2), (2, 3)] \<and> total_work (rep_accounting rep) \<le> log_work sample_compiled (Suc (length [97, 97, 98 :: u8])))"
  by (rule decision_log_correct [OF sample_compiles sample_limits, of alloc_all "[97, 97, 98]", unfolded sample_spans])

text \<open>
  C10: The row-log executor returns on every input, although its reader refuses every step back: a
  selected match never reads a row before the one the reader stands on. Unless a limit or the
  allocator stops it, it reports exactly the abstract match sequence.
\<close>

theorem row_log_correct:
  assumes "compiled_new al ast l = Inr r" "max_work l \<le> usize_max"
  shows "returns resource_error (find_all_sequential_row_log al' r h) (\<lambda>rep. rep_matches rep = lab_spans ast h \<and>
    total_work (rep_accounting rep) \<le> log_work r (Suc (length h)))"
  using row_log_outcome compiled_new_ok [OF assms(1)] assms(2) by simp

theorem row_log_correct_witness:
  "returns resource_error (find_all_sequential_row_log alloc_all sample_compiled [97, 97, 98])
     (\<lambda>rep. rep_matches rep = [(0, 2), (2, 3)] \<and> total_work (rep_accounting rep) \<le> log_work sample_compiled (Suc (length [97, 97, 98 :: u8])))"
  by (rule row_log_correct [OF sample_compiles sample_limits, of alloc_all "[97, 97, 98]", unfolded sample_spans])

text \<open>
  C14: The preflight of the decision-log executor is enough: once it has passed, the output has been
  reserved, the allocator serves the log and the rows and the sequence fits the output-match limit,
  the run succeeds with the abstract sequence.
\<close>

theorem decision_log_answers:
  assumes "compiled_new al ast l = Inr r" "max_work l \<le> usize_max"
    and "boundaries r h = Inr u" "admit_log r u = Inr a" "reserve_output al' u l = Inr b"
    and "al' ResidentLogBytes (la_words a)" "al' RandomAccessBytes (length (cr_insts r))" "length (lab_spans ast h) \<le> max_output_matches l"
  shows "\<exists>rep. find_all_decision_log al' r h = Some (Inr rep) \<and> rep_matches rep = lab_spans ast h"
  using decision_log_success [of r ast h u a al' b] compiled_new_ok [OF assms(1)] assms
  by (auto simp: succeeds_def runs_iff split: option.splits)

theorem decision_log_answers_witness:
  "\<exists>rep. find_all_decision_log alloc_all sample_compiled [97, 97, 98] = Some (Inr rep) \<and> rep_matches rep = [(0, 2), (2, 3)]"
proof -
  obtain a where a: "admit_log sample_compiled 4 = Inr a" using sample_admitted(3) by blast
  show ?thesis
    by (rule decision_log_answers [OF sample_compiles sample_limits sample_admitted(1) a sample_admitted(2),
          unfolded sample_spans]) (simp_all add: compile_limits_default_def)
qed

text \<open>
  C7: The four executors agree: whenever two of them report, on the same regex and haystack and
  whatever the allocators did, they report the same matches.
\<close>

theorem executors_agree:
  assumes "compiled_new al ast l = Inr r" "max_work l \<le> usize_max"
    and "run \<in> {find_all_full_dp, find_all_oracle, find_all_decision_log, find_all_sequential_row_log}"
    and "run' \<in> {find_all_full_dp, find_all_oracle, find_all_decision_log, find_all_sequential_row_log}"
    and "run al1 r h = Some (Inr rep)" "run' al2 r h = Some (Inr rep')"
  shows "rep_matches rep = rep_matches rep'"
proof -
  note c = compiled_new_ok [OF assms(1)]
  have mw: "max_work (cr_limits r) \<le> usize_max" using c(3) assms(2) by simp
  have "rep_matches rep = lab_spans ast h"
    if "run \<in> {find_all_full_dp, find_all_oracle, find_all_decision_log, find_all_sequential_row_log}"
      "run al r h = Some (Inr rep)" for run al rep
    using that full_dp_outcome [OF c(1,2) mw, of al h] oracle_outcome [OF c(1,2) mw, of al h]
      decision_log_outcome [OF c(1,2) mw, of al h] row_log_outcome [OF c(1,2) mw, of al h]
    by (auto simp: returns_def)
  from this [OF assms(3,5)] this [OF assms(4,6)] show ?thesis by simp
qed

theorem executors_agree_witness:
  "\<exists>rep rep'. find_all_decision_log alloc_all sample_compiled [97, 97, 98] = Some (Inr rep) \<and>
     find_all_sequential_row_log alloc_all sample_compiled [97, 97, 98] = Some (Inr rep') \<and>
     rep_matches rep = rep_matches rep'"
proof -
  note c = compiled_new_ok [OF sample_compiles]
  obtain a b where ab: "admit_log sample_compiled 4 = Inr a" "admit_row_log sample_compiled 4 = Inr b"
    using sample_admitted(3,4) by blast
  have l: "4 \<le> max_output_matches (cr_limits sample_compiled)"
    "reserve_output alloc_all 4 (cr_limits sample_compiled) = Inr 64" "max_work (cr_limits sample_compiled) \<le> usize_max"
    using sample_admitted(2) sample_limits c(3) by (simp_all add: compile_limits_default_def)
  have fit: "length (lab_spans sample_lab [97, 97, 98]) \<le> max_output_matches (cr_limits sample_compiled)"
    unfolding sample_spans using c(3) by (simp add: compile_limits_default_def)
  have "succeeds (find_all_decision_log alloc_all sample_compiled [97, 97, 98]) (\<lambda>_. True)"
    "succeeds (find_all_sequential_row_log alloc_all sample_compiled [97, 97, 98]) (\<lambda>_. True)"
    using decision_log_success [OF c(1,2) l(3) sample_admitted(1) ab(1) l(2) _ _ fit]
      row_log_success [OF c(1,2) l(3) sample_admitted(1) ab(2) l(2)] l(1)
    by (auto simp: succeeds_def runs_iff split: option.splits)
  then obtain rep rep' where r: "find_all_decision_log alloc_all sample_compiled [97, 97, 98] = Some (Inr rep)"
    "find_all_sequential_row_log alloc_all sample_compiled [97, 97, 98] = Some (Inr rep')"
    by (auto simp: succeeds_def runs_iff split: option.splits)
  with executors_agree [OF sample_compiles sample_limits, of find_all_decision_log find_all_sequential_row_log
      alloc_all "[97, 97, 98]" rep alloc_all rep'] show ?thesis by simp
qed

text \<open>
  What an executor reports is a usable iteration: the spans lie in the haystack, are ordered and
  disjoint, no empty span touches the end of its predecessor, and every start with a match is
  accounted for.
\<close>

lemma lab_spans_separated_complete:
  assumes "compiled_new al ast l = Inr r" "max_work l \<le> usize_max"
    and "find_all_sequential_row_log al' r h = Some (Inr rep)" "spans = rep_matches rep"
  shows "separated 0 None spans \<and> (\<forall>(s, e)\<in>set spans. e \<le> length h) \<and>
    (\<forall>t f. t \<le> length h \<longrightarrow> lab_sel ast h t = Some f \<longrightarrow> (t, f) \<in> set spans \<or>
      (\<exists>(s, e)\<in>set spans. s < t \<and> t < e) \<or> (f = t \<and> (\<exists>(s, e)\<in>set spans. s < t \<and> e = t)))"
proof -
  note c = compiled_new_ok [OF assms(1)]
  have "max_work (cr_limits r) \<le> usize_max" using c(3) assms(2) by simp
  from row_log_outcome [OF c(1,2) this, of al' h] assms(3,4) have sp: "spans = lab_spans ast h"
    by (simp add: returns_def)
  show ?thesis
    unfolding sp using lab.iter_seq_separated [of 0 None h ast] lab.iter_seq_selected [of _ _ h ast 0 None]
      lab.iter_seq_complete [of ast h _ _ 0 None] by auto
qed

end
