(* ===== verification/RegexAgree.thy ===== *)
theory RegexAgree
  imports RefSearch LabAgree
begin

text \<open>
  The two independent regex semantics of the repository meet here: the backtracking reference
  interpreter of \<^verbatim>\<open>crates/fre-reference\<close> and the laboratory AST of \<^verbatim>\<open>crates/fre-iterator-lab\<close>. On
  patterns whose repetitions are stars, optional copies or exact powers, both enumerate the
  same ends in the same order, so the reference iteration and the four executors report the
  same spans. A bounded repetition of a nullable body is outside this fragment for a reason:
  the reference interpreter leaves it after an empty iteration, the laboratory does not.
\<close>

section \<open>Translation\<close>

fun ref_greed_of :: "greed \<Rightarrow> ref_greed" where
  "ref_greed_of Greedy = RGreedy"
| "ref_greed_of Lazy = RLazy"

definition any_byte :: ref_ast where
  "any_byte = RClass [\<lparr>br_start = 0, br_end = 255\<rparr>]"

fun ref_atom :: "repeat_atom \<Rightarrow> ref_ast" where
  "ref_atom AtomEmpty = REmpty"
| "ref_atom (AtomByte b) = RByte b"
| "ref_atom AtomAnyByte = any_byte"
| "ref_atom AtomStartText = RStartText"
| "ref_atom AtomEndText = REndText"

primrec ref_of :: "lab_ast \<Rightarrow> ref_ast" where
  "ref_of LEmpty = REmpty"
| "ref_of (LByte b) = RByte b"
| "ref_of LAnyByte = any_byte"
| "ref_of LStartText = RStartText"
| "ref_of LEndText = REndText"
| "ref_of (LConcat as) = RConcat (map ref_of as)"
| "ref_of (LAlt as) = RAlt (map ref_of as)"
| "ref_of (LRepeat body g) = RRepeat (RAlt (map ref_atom body)) 0 None (ref_greed_of g)"
| "ref_of (LRepetition a mn mx g) = RRepeat (ref_of a) mn mx (ref_greed_of g)"

text \<open>Repetitions \<open>*\<close>, \<open>?\<close> and \<open>{n}\<close>.\<close>

definition plain_bounds :: "nat \<Rightarrow> nat option \<Rightarrow> bool" where
  "plain_bounds mn mx = (mn = 0 \<and> mx = None \<or> mn = 0 \<and> mx = Some 1 \<or> mx = Some mn)"

primrec plain :: "lab_ast \<Rightarrow> bool" where
  "plain LEmpty = True"
| "plain (LByte b) = True"
| "plain LAnyByte = True"
| "plain LStartText = True"
| "plain LEndText = True"
| "plain (LConcat as) = list_all id (map plain as)"
| "plain (LAlt as) = list_all id (map plain as)"
| "plain (LRepeat body g) = True"
| "plain (LRepetition a mn mx g) = (plain a \<and> plain_bounds mn mx)"

section \<open>Bodies that agree\<close>

definition same_ends :: "nat \<Rightarrow> (ref_state \<Rightarrow> ref_state list) \<Rightarrow> (nat \<Rightarrow> nat list) \<Rightarrow> bool" where
  "same_ends n f g = (\<forall>p c. p \<le> n \<longrightarrow> map fst (f (p, c)) = g p)"

lemma same_endsD: "same_ends n f g \<Longrightarrow> p \<le> n \<Longrightarrow> map fst (f (p, c)) = g p"
  by (simp add: same_ends_def)

lemma map_fst_concat:
  assumes "map fst xs = ps" "\<And>x. x \<in> set xs \<Longrightarrow> map fst (f x) = g (fst x)"
  shows "map fst (concat (map f xs)) = concat (map g ps)"
  using assms by (induction xs arbitrary: ps) auto

lemma agrees_seq:
  assumes "list_all2 (same_ends n) fs gs" "\<forall>g\<in>set gs. bounded n g"
  shows "same_ends n (seq_outs fs) (seq_ends gs)"
  using assms
proof (induction rule: list_all2_induct)
  case Nil
  then show ?case by (simp add: same_ends_def)
next
  case (Cons f fs g gs)
  show ?case
    unfolding same_ends_def
  proof (intro allI impI)
    fix p c assume p: "p \<le> n"
    have fp: "map fst (f (p, c)) = g p" using same_endsD [OF Cons.hyps(1) p] .
    have "fst x \<le> n" if "x \<in> set (f (p, c))" for x
    proof -
      have "fst x \<in> set (g p)" using that fp by (metis image_eqI list.set_map)
      with Cons.prems p show ?thesis by (auto dest: boundedD)
    qed
    then have "map fst (concat (map (seq_outs fs) (f (p, c)))) = concat (map (seq_ends gs) (g p))"
      using Cons.IH Cons.prems by (intro map_fst_concat [OF fp]) (auto simp: same_ends_def)
    then show "map fst (seq_outs (f # fs) (p, c)) = seq_ends (g # gs) p" by simp
  qed
qed

lemma agrees_alt:
  assumes "list_all2 (same_ends n) fs gs"
  shows "same_ends n (\<lambda>s. concat (map (\<lambda>f. f s) fs)) (\<lambda>p. concat (map (\<lambda>g. g p) gs))"
  using assms by (induction rule: list_all2_induct) (auto simp: same_ends_def)

lemma star_agrees:
  assumes f: "same_ends n f g" and g: "bounded n g" and "p \<le> n" "count = 0 \<or> p \<noteq> prev"
  shows "map fst (rep_outs f n 0 None (ref_greed_of gr) count prev (p, c)) = star_ends n g gr p"
  using assms(3,4)
proof (induction "n - p" arbitrary: p count prev c rule: less_induct)
  case less
  have fp: "map fst (f (p, c)) = g p" using same_endsD [OF f less.prems(1)] .
  have "map fst (if p \<le> fst s' \<and> fst s' \<le> n then rep_outs f n 0 None (ref_greed_of gr) (Suc count) p s' else [])
      = (if fst s' = p then [p] else if p < fst s' \<and> fst s' \<le> n then star_ends n g gr (fst s') else [])"
    if "s' \<in> set (f (p, c))" for s'
  proof (cases s')
    case (Pair q d)
    show ?thesis
    proof (cases "q = p")
      case True
      then show ?thesis using Pair less.prems(1) by (simp add: rep_outs.simps may_repeat_def)
    next
      case False
      then show ?thesis using less.hyps [of q "Suc count" p d] Pair by auto
    qed
  qed
  note again = map_fst_concat [where g = "\<lambda>q. if q = p then [p] else if p < q \<and> q \<le> n then star_ends n g gr q else []", OF fp this]
  show ?case
    using less.prems again
    by (subst rep_outs.simps, subst star_ends.simps, cases gr) (simp_all add: may_repeat_def Let_def cong: if_cong)
qed

lemma power_agrees:
  assumes f: "same_ends n f g" and g: "bounded n g" and "p \<le> n" "count \<le> mn"
  shows "map fst (rep_outs f n mn (Some mn) gr count prev (p, c)) = power_ends g (mn - count) p"
  using assms(3,4)
proof (induction "mn - count" arbitrary: p count prev c)
  case 0
  then show ?case by (simp add: rep_outs.simps may_repeat_def)
next
  case (Suc k)
  have fp: "map fst (f (p, c)) = g p" using same_endsD [OF f Suc.prems(1)] .
  have "map fst (if p \<le> fst s' \<and> fst s' \<le> n then rep_outs f n mn (Some mn) gr (Suc count) p s' else [])
      = power_ends g k (fst s')" if "s' \<in> set (f (p, c))" for s'
  proof -
    have "fst s' \<in> set (g p)" using that fp by (metis image_eqI list.set_map)
    then have "p \<le> fst s'" "fst s' \<le> n" using boundedD [OF g Suc.prems(1)] by auto
    moreover have "k = mn - Suc count" "Suc count \<le> mn" using Suc.hyps(2) by linarith+
    ultimately show ?thesis using Suc.hyps(1) [of "Suc count" "fst s'" p "snd s'"] by simp
  qed
  note again = map_fst_concat [where g = "power_ends g k", OF fp this]
  have "count < mn" "mn - count = Suc k" using Suc.hyps(2) by linarith+
  then show ?case using again by (subst rep_outs.simps) (simp add: may_repeat_def Let_def cong: if_cong)
qed

lemma optional_agrees:
  assumes f: "same_ends n f g" and g: "bounded n g" and p: "p \<le> n"
  shows "map fst (rep_outs f n 0 (Some 1) (ref_greed_of gr) 0 prev (p, c)) = opt_ends g gr 1 p"
proof -
  have fp: "map fst (f (p, c)) = g p" using same_endsD [OF f p] .
  have "map fst (if p \<le> fst s' \<and> fst s' \<le> n then rep_outs f n 0 (Some 1) (ref_greed_of gr) (Suc 0) p s' else [])
      = [fst s']" if "s' \<in> set (f (p, c))" for s'
  proof -
    have "fst s' \<in> set (g p)" using that fp by (metis image_eqI list.set_map)
    then have "p \<le> fst s'" "fst s' \<le> n" using boundedD [OF g p] by auto
    then show ?thesis by (simp add: rep_outs.simps may_repeat_def)
  qed
  note again = map_fst_concat [where g = "\<lambda>q. [q]", OF fp this]
  then show ?thesis
    by (subst rep_outs.simps, cases gr) (simp_all add: may_repeat_def Let_def opt_ends_0 cong: if_cong)
qed


section \<open>Agreement\<close>

lemma agrees_consume:
  "same_ends (length h) (outs h (RByte b)) (consume (Some b) h)"
  "same_ends (length h) (outs h any_byte) (consume None h)"
proof -
  have max: "(255 :: u8) = - 1" by simp
  have "byte \<le> (255 :: u8)" for byte unfolding max by (rule word_order.extremum)
  then show "same_ends (length h) (outs h any_byte) (consume None h)"
    by (simp add: same_ends_def any_byte_def consume_def byte_range_contains_def)
qed (auto simp: same_ends_def consume_def)

lemma agrees_atom: "same_ends (length h) (outs h (ref_atom a)) (\<lambda>p. atom_ends h p a)"
  using agrees_consume by (cases a) (auto simp: same_ends_def)

lemma bounded_atom_ends: "bounded (length h) (\<lambda>p. atom_ends h p a)"
  by (cases a) (simp_all add: bounded_single bounded_cond bounded_consume)

lemma agrees_plain: "plain ast \<Longrightarrow> same_ends (length h) (outs h (ref_of ast)) (ends h ast)"
proof (induction ast)
  case (LConcat as)
  then have "list_all2 (same_ends (length h)) (map (outs h) (map ref_of as)) (map (ends h) as)"
    by (auto simp: list_all2_conv_all_nth list_all_length)
  then show ?case using bounded_ends agrees_seq by (auto simp: comp_def)
next
  case (LAlt as)
  then have "list_all2 (same_ends (length h)) (map (outs h) (map ref_of as)) (map (ends h) as)"
    by (auto simp: list_all2_conv_all_nth list_all_length)
  from agrees_alt [OF this] show ?case by (simp add: comp_def)
next
  case (LRepeat body g)
  have "list_all2 (same_ends (length h)) (map (outs h) (map ref_atom body)) (map (\<lambda>a p. atom_ends h p a) body)"
    by (auto simp: list_all2_conv_all_nth agrees_atom)
  from agrees_alt [OF this]
  have body: "same_ends (length h) (outs h (RAlt (map ref_atom body))) (\<lambda>p. concat (map (atom_ends h p) body))"
    by (simp add: comp_def)
  have "bounded (length h) (\<lambda>p. concat (map (atom_ends h p) body))"
    using bounded_choice [of body "length h" "\<lambda>a p. atom_ends h p a"] by (simp add: bounded_atom_ends)
  from star_agrees [OF body this] show ?case by (simp add: same_ends_def)
next
  case (LRepetition a mn mx g)
  then have a: "same_ends (length h) (outs h (ref_of a)) (ends h a)" and b: "plain_bounds mn mx" by simp_all
  note rules = star_agrees [OF a bounded_ends] power_agrees [OF a bounded_ends] optional_agrees [OF a bounded_ends]
  show ?case
    using b unfolding plain_bounds_def same_ends_def
    by (elim disjE conjE) (auto simp: rules opt_ends_0 simp del: One_nat_def)
qed (use agrees_consume in \<open>auto simp: same_ends_def\<close>)

lemma plain_sel:
  assumes "plain ast" "rr_ast r = ref_of ast" "s \<le> length h"
  shows "ref_sel r h s = lab_sel ast h s"
proof -
  obtain c where c: "start_state r s = (s, c)" by (simp add: start_state_def)
  have "map fst (outs h (ref_of ast) (s, c)) = ends h ast s" by (rule same_endsD [OF agrees_plain [OF assms(1)] assms(3)])
  then show ?thesis by (simp add: ref_sel_def lab_sel_def assms(2) c flip: first_of_map)
qed

lemma plain_iteration:
  assumes "plain ast" "rr_ast r = ref_of ast"
  shows "iter_seq (length h) (ref_sel r h) 0 None = lab_spans ast h"
  by (rule iter_seq_cong) (rule plain_sel [OF assms])

section \<open>Properties\<close>

text \<open>
  C19: The reference interpreter and the row-log executor, two implementations that share no code,
  whenever both succeed report the same spans for every pattern whose repetitions are \<open>*\<close>, \<open>?\<close> or \<open>{n}\<close>, nullable
  bodies included.
\<close>

theorem lab_reference_agree:
  assumes "plain ast" "ref_ready (ref_of ast) rl r h" "find_all_rust_reference r h = Inr ms"
    and "compiled_new al ast l = Inr cr" "max_work l \<le> usize_max"
    and "find_all_sequential_row_log al' cr h = Some (Inr rep)"
  shows "rep_matches rep = map (\<lambda>m. (rs_start (rm_span m), rs_end (rm_span m))) ms"
proof -
  note c = compiled_new_ok [OF assms(4)]
  have "max_work (cr_limits cr) \<le> usize_max" using c(3) assms(5) by simp
  from row_log_outcome [OF c(1,2) this, of al' h] assms(6) have lab: "rep_matches rep = lab_spans ast h"
    by (simp add: returns_def)
  have "ms = ref_iteration r h 0 None"
    using find_all_answer [OF ref_ready_ok(1) [OF assms(2)] assms(3) [unfolded find_all_rust_reference_def]]
    by simp
  then show ?thesis
    using plain_iteration [OF assms(1) ref_ready_ok(2) [OF assms(2)], of h] lab by (simp add: ref_iteration_spans)
qed

definition sample_plain :: lab_ast where
  "sample_plain = LConcat [LRepetition (LByte 97) 0 None Greedy, LByte 98]"

definition sample_plain_compiled :: compiled_regex where
  "sample_plain_compiled = \<lparr>cr_insts = [IMatch, IByte (Some 98) 0, ISplit 3 1, IByte (Some 97) 2, IByte (Some 97) 2],
     cr_entry = 2, cr_epsilon_order = [0, 1, 3, 4, 2], cr_split_rank = [None, None, Some 0, None, None],
     cr_split_count = 1, cr_limits = compile_limits_default\<rparr>"

lemma sample_plain_compiles: "compiled_new alloc_all sample_plain compile_limits_default = Inr sample_plain_compiled"
  by (simp add: lab_eval sample_plain_def sample_plain_compiled_def compile_limits_default_def)

lemma sample_plain_reference:
  "\<exists>r ms. ref_ready (ref_of sample_plain) ref_limits_default r [97, 98, 98] \<and> find_all_rust_reference r [97, 98, 98] = Inr ms
    \<and> map (\<lambda>m. (rs_start (rm_span m), rs_end (rm_span m))) ms = [(0, 2), (2, 3)]"
  by (simp add: ref_eval sample_plain_def upt_rec)

lemma sample_plain_reports: "\<exists>rep. find_all_sequential_row_log alloc_all sample_plain_compiled [97, 98, 98] = Some (Inr rep)"
proof -
  note c = compiled_new_ok [OF sample_plain_compiles]
  have b: "boundaries sample_plain_compiled [97, 98, 98] = Inr 4"
    "\<exists>a. admit_row_log sample_plain_compiled 4 = Inr a"
    by (simp_all add: boundaries_def admit_row_log_def row_ceil_div_def sample_plain_compiled_def
        compile_limits_default_def usize_max_def maximum_build_work_def size_of_usize_def Let_def)
  then obtain a where a: "admit_row_log sample_plain_compiled 4 = Inr a" by blast
  have "succeeds (find_all_sequential_row_log alloc_all sample_plain_compiled [97, 98, 98])
      (\<lambda>rep. rep_matches rep = lab_spans sample_plain [97, 98, 98])"
    by (rule row_log_success [OF c(1,2) _ b(1) a, unfolded c(3)])
      (use sample_admitted(2) sample_limits in \<open>simp_all add: compile_limits_default_def\<close>)
  then show ?thesis by (auto simp: succeeds_def runs_iff split: option.splits)
qed

theorem lab_reference_agree_witness:
  "\<exists>rep. find_all_sequential_row_log alloc_all sample_plain_compiled [97, 98, 98] = Some (Inr rep)
     \<and> rep_matches rep = [(0, 2), (2, 3)]"
proof -
  obtain r ms where r: "ref_ready (ref_of sample_plain) ref_limits_default r [97, 98, 98]"
    "find_all_rust_reference r [97, 98, 98] = Inr ms"
    "map (\<lambda>m. (rs_start (rm_span m), rs_end (rm_span m))) ms = [(0, 2), (2, 3)]"
    using sample_plain_reference by (elim exE conjE)
  obtain rep where rep: "find_all_sequential_row_log alloc_all sample_plain_compiled [97, 98, 98] = Some (Inr rep)"
    using sample_plain_reports by blast
  have "plain sample_plain" by (simp add: sample_plain_def plain_bounds_def)
  from lab_reference_agree [OF this r(1,2) sample_plain_compiles sample_limits rep] r(3) rep show ?thesis by simp
qed

section \<open>A divergence\<close>

text \<open>The pattern \<^verbatim>\<open>(?:|a|ab|bc){0,2}(?:c|d)\<close>.\<close>

definition divergent :: lab_ast where
  "divergent = LConcat [LRepetition (LAlt [LEmpty, LByte 97, LConcat [LByte 97, LByte 98], LConcat [LByte 98, LByte 99]])
     0 (Some 2) Greedy, LAlt [LByte 99, LByte 100]]"

lemma divergent_compiles: "\<exists>cr. compiled_new alloc_all divergent compile_limits_default = Inr cr"
proof -
  have two: "[0..<2] = [0, 1 :: nat]" by (simp add: upt_rec)
  show ?thesis by (simp add: lab_eval divergent_def compile_limits_default_def two)
qed

lemma divergent_ends: "\<exists>rest. ends [97, 98, 99, 100] divergent 0 = 3 # rest"
proof -
  have two: "opt_ends f g 2 = opt_ends f g (Suc (Suc 0))" for f g by (simp add: numeral_2_eq_2)
  show ?thesis by (simp add: divergent_def consume_def two Let_def)
qed

text \<open>
  C20: the two semantics differ on a bounded repetition of a nullable body. On \<^verbatim>\<open>abcd\<close> the reference
  interpreter leaves \<^verbatim>\<open>(?:|a|ab|bc){0,2}\<close> after an empty first iteration, so that its match ends at
  4; the laboratory's compiled graph tries the second copy, as the expansion of the bound into
  optional copies does, and its path of highest priority ends at 3.
\<close>

theorem bounded_repetition_diverges:
  "(\<exists>cr rest. compiled_new alloc_all divergent compile_limits_default = Inr cr
      \<and> paths (cr_insts cr) [97, 98, 99, 100] (cr_entry cr) 0 (3 # rest))
   \<and> (\<exists>r m. reference_new (ref_of divergent) ref_limits_default = Inr r
      \<and> find_at r [97, 98, 99, 100] 0 = Inr (Some m) \<and> rm_span m = \<lparr>rs_start = 0, rs_end = 4\<rparr>)"
proof
  obtain cr where cr: "compiled_new alloc_all divergent compile_limits_default = Inr cr" using divergent_compiles by blast
  obtain rest where "ends [97, 98, 99, 100] divergent 0 = 3 # rest" using divergent_ends by blast
  with compiled_new_ok(2) [OF cr] cr show "\<exists>cr rest. compiled_new alloc_all divergent compile_limits_default = Inr cr
      \<and> paths (cr_insts cr) [97, 98, 99, 100] (cr_entry cr) 0 (3 # rest)"
    unfolding means_def by (metis zero_le)
  show "\<exists>r m. reference_new (ref_of divergent) ref_limits_default = Inr r
      \<and> find_at r [97, 98, 99, 100] 0 = Inr (Some m) \<and> rm_span m = \<lparr>rs_start = 0, rs_end = 4\<rparr>"
    by (simp add: ref_eval divergent_def upt_rec)
qed

end
