(* ===== verification/LabGuard.thy ===== *)
theory LabGuard
  imports LabIterate
begin

text \<open>
  \<^verbatim>\<open>crates/fre-iterator-lab/src/guarded.rs\<close>: the guarded-state executor. Its compiler gives every
  unbounded repetition a progress register instead of a progress product, and its solver
  evaluates the configurations (state, boundary, register vector) on demand, depth first, with
  an explicit stack and a memo table. The register vector is a mixed-radix code.
\<close>

section \<open>Programs\<close>

datatype guard_inst =
    GMatch
  | GByte "u8 option" nat
  | GAssertStart nat
  | GAssertEnd nat
  | GSplit nat nat
  | GSaveProgress nat nat
  | GCheckProgress nat nat nat

type_synonym guard_slots = "guard_inst option list"

record guarded_regex =
  gr_insts :: "guard_inst list"
  gr_entry :: nat
  gr_guard_count :: nat
  gr_limits :: compile_limits

section \<open>Compiler\<close>

record guard_builder =
  gb_slots :: guard_slots
  gb_guard_count :: nat

type_synonym guard_compiler = "guard_builder \<Rightarrow> nat \<Rightarrow> nat \<Rightarrow> lab_error + (guard_builder \<times> nat)"

definition gb_push ::
    "compile_limits \<Rightarrow> allocator \<Rightarrow> guard_inst option \<Rightarrow> guard_builder \<Rightarrow> lab_error + (guard_builder \<times> nat)" where
  "gb_push l al i b =
     rbind (checked_add (length (gb_slots b)) 1 ProgramStates) (\<lambda>required.
     rbind (enforce required (max_program_states l) ProgramStates) (\<lambda>_.
     rbind (try_reserve al ProgramStates 1) (\<lambda>_.
     Inr (b\<lparr>gb_slots := gb_slots b @ [i]\<rparr>, length (gb_slots b)))))"

definition new_guard :: "compile_limits \<Rightarrow> guard_builder \<Rightarrow> lab_error + (guard_builder \<times> nat)" where
  "new_guard l b =
     rbind (checked_add (gb_guard_count b) 1 GuardCount) (\<lambda>required.
     rbind (enforce required (max_guard_count l) GuardCount) (\<lambda>_.
     Inr (b\<lparr>gb_guard_count := required\<rparr>, gb_guard_count b)))"

text \<open>\<^verbatim>\<open>ordered\<close>, in the split it is used for.\<close>

definition guard_ordered :: "greed \<Rightarrow> nat \<Rightarrow> nat \<Rightarrow> guard_inst" where
  "guard_ordered g body exit = (case g of Greedy \<Rightarrow> GSplit body exit | Lazy \<Rightarrow> GSplit exit body)"

fun guard_atom ::
    "compile_limits \<Rightarrow> allocator \<Rightarrow> repeat_atom \<Rightarrow> nat \<Rightarrow> guard_builder \<Rightarrow> lab_error + (guard_builder \<times> nat)" where
  "guard_atom l al AtomEmpty continuation b = Inr (b, continuation)"
| "guard_atom l al (AtomByte x) continuation b = gb_push l al (Some (GByte (Some x) continuation)) b"
| "guard_atom l al AtomAnyByte continuation b = gb_push l al (Some (GByte None continuation)) b"
| "guard_atom l al AtomStartText continuation b = gb_push l al (Some (GAssertStart continuation)) b"
| "guard_atom l al AtomEndText continuation b = gb_push l al (Some (GAssertEnd continuation)) b"

text \<open>An ordered choice, as \<^verbatim>\<open>Ast::Alt\<close> and a repetition body compile it.\<close>

definition guard_add_choice ::
    "compile_limits \<Rightarrow> allocator \<Rightarrow> (guard_builder \<Rightarrow> lab_error + (guard_builder \<times> nat))
     \<Rightarrow> guard_builder \<times> nat \<Rightarrow> lab_error + (guard_builder \<times> nat)" where
  "guard_add_choice l al cc = (\<lambda>(b, fallback).
     rbind (cc b) (\<lambda>(b, preferred).
     gb_push l al (Some (GSplit preferred fallback)) b))"

definition guard_choice ::
    "compile_limits \<Rightarrow> allocator \<Rightarrow> lab_error \<Rightarrow> (guard_builder \<Rightarrow> lab_error + (guard_builder \<times> nat)) list
     \<Rightarrow> guard_builder \<Rightarrow> lab_error + (guard_builder \<times> nat)" where
  "guard_choice l al empty_error ccs b =
     (case rev ccs of
        [] \<Rightarrow> Inl empty_error
      | final # preceding \<Rightarrow> rbind (final b) (rfold (guard_add_choice l al) preceding))"

text \<open>
  The loop shared by \<^verbatim>\<open>compile_general_star\<close> and \<^verbatim>\<open>compile_atom_star\<close>: a register, the loop's slot, the
  check, the body in front of the check, the save, and the split in the loop's slot.
\<close>

definition guard_star ::
    "compile_limits \<Rightarrow> allocator \<Rightarrow> greed \<Rightarrow> nat
     \<Rightarrow> (nat \<Rightarrow> guard_builder \<Rightarrow> lab_error + (guard_builder \<times> nat))
     \<Rightarrow> guard_builder \<Rightarrow> lab_error + (guard_builder \<times> nat)" where
  "guard_star l al g continuation body b =
     rbind (new_guard l b) (\<lambda>(b, guard).
     rbind (gb_push l al None b) (\<lambda>(b, loop_entry).
     rbind (gb_push l al (Some (GCheckProgress guard loop_entry continuation)) b) (\<lambda>(b, check).
     rbind (body check b) (\<lambda>(b, body_entry).
     rbind (gb_push l al (Some (GSaveProgress guard body_entry)) b) (\<lambda>(b, save).
     rbind (vset (gb_slots b) loop_entry (Some (guard_ordered g save continuation))) (\<lambda>slots.
     Inr (b\<lparr>gb_slots := slots\<rparr>, loop_entry)))))))"

definition guard_atom_star ::
    "compile_limits \<Rightarrow> allocator \<Rightarrow> repeat_atom list \<Rightarrow> greed \<Rightarrow> nat \<Rightarrow> guard_builder
     \<Rightarrow> lab_error + (guard_builder \<times> nat)" where
  "guard_atom_star l al body g continuation b =
     (if body = [] then Inl EmptyRepeatBody
      else guard_star l al g continuation
        (\<lambda>check. guard_choice l al EmptyRepeatBody (map (\<lambda>a. guard_atom l al a check) body)) b)"

definition guard_general_star ::
    "compile_limits \<Rightarrow> allocator \<Rightarrow> guard_compiler \<Rightarrow> greed \<Rightarrow> nat \<Rightarrow> nat \<Rightarrow> guard_builder
     \<Rightarrow> lab_error + (guard_builder \<times> nat)" where
  "guard_general_star l al child g continuation depth b =
     guard_star l al g continuation (\<lambda>check b. child b check depth) b"

definition guard_optional ::
    "compile_limits \<Rightarrow> allocator \<Rightarrow> guard_compiler \<Rightarrow> greed \<Rightarrow> nat \<Rightarrow> guard_builder \<times> nat
     \<Rightarrow> lab_error + (guard_builder \<times> nat)" where
  "guard_optional l al child g depth = (\<lambda>(b, entry).
     rbind (child b entry depth) (\<lambda>(b, child_entry).
     gb_push l al (Some (guard_ordered g child_entry entry)) b))"

definition guard_copy :: "guard_compiler \<Rightarrow> nat \<Rightarrow> guard_builder \<times> nat \<Rightarrow> lab_error + (guard_builder \<times> nat)" where
  "guard_copy child depth = (\<lambda>(b, k). child b k depth)"

definition guard_repetition ::
    "compile_limits \<Rightarrow> allocator \<Rightarrow> guard_compiler \<Rightarrow> nat \<Rightarrow> nat option \<Rightarrow> greed \<Rightarrow> nat \<Rightarrow> nat \<Rightarrow> guard_builder
     \<Rightarrow> lab_error + (guard_builder \<times> nat)" where
  "guard_repetition l al child mn mx g continuation depth b =
     rbind (case mx of
         Some maximum \<Rightarrow> rbind (ok_or (usub maximum mn) InvalidRepeatRange) (\<lambda>optional.
           rfold (\<lambda>_. guard_optional l al child g depth) [0..<optional] (b, continuation))
       | None \<Rightarrow> guard_general_star l al child g continuation depth b)
     (rfold (\<lambda>_. guard_copy child depth) [0..<mn])"

primrec guard_node :: "compile_limits \<Rightarrow> allocator \<Rightarrow> lab_ast \<Rightarrow> guard_compiler" where
  "guard_node l al LEmpty = (\<lambda>b k depth.
     rbind (checked_add depth 1 AstDepth) (\<lambda>_. Inr (b, k)))"
| "guard_node l al (LByte x) = (\<lambda>b k depth.
     rbind (checked_add depth 1 AstDepth) (\<lambda>_. gb_push l al (Some (GByte (Some x) k)) b))"
| "guard_node l al LAnyByte = (\<lambda>b k depth.
     rbind (checked_add depth 1 AstDepth) (\<lambda>_. gb_push l al (Some (GByte None k)) b))"
| "guard_node l al LStartText = (\<lambda>b k depth.
     rbind (checked_add depth 1 AstDepth) (\<lambda>_. gb_push l al (Some (GAssertStart k)) b))"
| "guard_node l al LEndText = (\<lambda>b k depth.
     rbind (checked_add depth 1 AstDepth) (\<lambda>_. gb_push l al (Some (GAssertEnd k)) b))"
| "guard_node l al (LConcat children) = (\<lambda>b k depth.
     rbind (checked_add depth 1 AstDepth) (\<lambda>child_depth.
     rfold (\<lambda>child. guard_copy child child_depth) (rev (map (guard_node l al) children)) (b, k)))"
| "guard_node l al (LAlt children) = (\<lambda>b k depth.
     rbind (checked_add depth 1 AstDepth) (\<lambda>child_depth.
     guard_choice l al EmptyAlternation
       (map (\<lambda>child b. child b k child_depth) (map (guard_node l al) children)) b))"
| "guard_node l al (LRepeat body g) = (\<lambda>b k depth.
     rbind (checked_add depth 1 AstDepth) (\<lambda>_. guard_atom_star l al body g k b))"
| "guard_node l al (LRepetition child mn mx g) = (\<lambda>b k depth.
     rbind (checked_add depth 1 AstDepth) (\<lambda>child_depth.
     guard_repetition l al (guard_node l al child) mn mx g k child_depth b))"

definition guarded_new :: "allocator \<Rightarrow> lab_ast \<Rightarrow> compile_limits \<Rightarrow> lab_error + guarded_regex" where
  "guarded_new al ast l =
     rbind (validate_ast ast l) (\<lambda>_.
     rbind (gb_push l al (Some GMatch) \<lparr>gb_slots = [], gb_guard_count = 0\<rparr>) (\<lambda>(b, accept).
     rbind (guard_node l al ast b accept 1) (\<lambda>(b, entry).
     rbind (if None \<in> set (gb_slots b) then Inl SameBoundaryCycle else Inr (map the (gb_slots b))) (\<lambda>insts.
     Inr \<lparr>gr_insts = insts, gr_entry = entry, gr_guard_count = gb_guard_count b, gr_limits = l\<rparr>))))"

section \<open>Admission\<close>

record guard_admission =
  ga_boundaries :: nat
  ga_radix :: nat
  ga_guard_space :: nat
  ga_cells :: nat
  ga_random_bytes :: nat

definition checked_pow :: "nat \<Rightarrow> nat \<Rightarrow> resource_kind \<Rightarrow> lab_error + nat" where
  "checked_pow base exponent kind = rfold (\<lambda>_ result. checked_mul result base kind) [0..<exponent] 1"

text \<open>\<^verbatim>\<open>size_of::<GuardFrame>()\<close>: three words and a byte, aligned.\<close>

definition size_of_guard_frame :: nat where
  "size_of_guard_frame = 32"

definition guard_admit :: "guarded_regex \<Rightarrow> bytes \<Rightarrow> lab_error + guard_admission" where
  "guard_admit r h =
     rbind (checked_add (length h) 1 Boundaries) (\<lambda>boundaries.
     rbind (enforce boundaries (max_boundaries (gr_limits r)) Boundaries) (\<lambda>_.
     rbind (checked_add boundaries 1 GuardedConfigurations) (\<lambda>radix.
     rbind (checked_pow radix (gr_guard_count r) GuardedConfigurations) (\<lambda>guard_space.
     rbind (checked_mul (length (gr_insts r)) boundaries GuardedConfigurations) (\<lambda>rows.
     rbind (checked_mul rows guard_space GuardedConfigurations) (\<lambda>cells.
     rbind (enforce cells (max_guarded_configurations (gr_limits r)) GuardedConfigurations) (\<lambda>_.
     rbind (checked_mul cells size_of_usize GuardedBytes) (\<lambda>memo_bytes.
     rbind (checked_mul cells size_of_guard_frame GuardedBytes) (\<lambda>stack_bytes.
     rbind (checked_add memo_bytes stack_bytes GuardedBytes) (\<lambda>random_bytes.
     rbind (enforce random_bytes (max_guarded_bytes (gr_limits r)) GuardedBytes) (\<lambda>_.
     rbind (checked_mul cells 3 Work) (\<lambda>recurrence_work.
     rbind (checked_mul boundaries 2 Work) (\<lambda>root_work.
     rbind (checked_add recurrence_work root_work Work) (\<lambda>work.
     rbind (enforce work (max_work (gr_limits r)) Work) (\<lambda>_.
     Inr \<lparr>ga_boundaries = boundaries, ga_radix = radix, ga_guard_space = guard_space, ga_cells = cells,
          ga_random_bytes = random_bytes\<rparr>)))))))))))))))"

section \<open>Solver\<close>

record guard_config =
  gc_pc :: nat
  gc_position :: nat
  gc_guard_code :: nat

record guard_frame =
  gf_config :: guard_config
  gf_next_child :: nat

datatype node_shape = ShapeEnd nat | ShapeFailure | ShapeChildren nat

text \<open>Memo values: 0 unknown, 1 being visited, 2 failure, an end behind an offset of 3.\<close>

definition encode_end :: "nat \<Rightarrow> lab_error + nat" where
  "encode_end e = checked_add e 3 Boundaries"

definition decode_end :: "nat \<Rightarrow> lab_error + nat option" where
  "decode_end v = (if v = 0 \<or> v = 1 then Inl SameBoundaryCycle else if v = 2 then Inr None else Inr (usub v 3))"

definition read_guard :: "guard_admission \<Rightarrow> nat \<Rightarrow> nat \<Rightarrow> lab_error + nat" where
  "read_guard adm code guard =
     rbind (checked_pow (ga_radix adm) guard GuardedConfigurations) (\<lambda>factor.
     if factor = 0 \<or> ga_radix adm = 0 then Inl SameBoundaryCycle
     else Inr (code div factor mod ga_radix adm))"

definition write_guard :: "guard_admission \<Rightarrow> nat \<Rightarrow> nat \<Rightarrow> nat \<Rightarrow> lab_error + nat" where
  "write_guard adm code guard position =
     rbind (checked_pow (ga_radix adm) guard GuardedConfigurations) (\<lambda>factor.
     rbind (read_guard adm code guard) (\<lambda>old.
     rbind (checked_mul old factor GuardedConfigurations) (\<lambda>removed.
     rbind (ok_or (usub code removed) SameBoundaryCycle) (\<lambda>base.
     rbind (checked_mul position factor GuardedConfigurations) (\<lambda>added.
     checked_add base added GuardedConfigurations)))))"

definition guard_index :: "guarded_regex \<Rightarrow> guard_admission \<Rightarrow> guard_config \<Rightarrow> lab_error + nat" where
  "guard_index r adm c =
     (if gc_guard_code c \<ge> ga_guard_space adm \<or> gc_position c \<ge> ga_boundaries adm \<or> gc_pc c \<ge> length (gr_insts r)
      then Inl SameBoundaryCycle
      else
        rbind (checked_mul (gc_guard_code c) (ga_boundaries adm) GuardedConfigurations) (\<lambda>rows.
        rbind (checked_add rows (gc_position c) GuardedConfigurations) (\<lambda>row.
        rbind (checked_mul row (length (gr_insts r)) GuardedConfigurations) (\<lambda>cells.
        checked_add cells (gc_pc c) GuardedConfigurations))))"

definition guard_shape :: "guarded_regex \<Rightarrow> bytes \<Rightarrow> guard_config \<Rightarrow> lab_error + node_shape" where
  "guard_shape r h c =
     rbind (vget (gr_insts r) (gc_pc c)) (\<lambda>i.
     Inr (case i of
        GMatch \<Rightarrow> ShapeEnd (gc_position c)
      | GByte expected _ \<Rightarrow>
          if gc_position c < length h \<and> (case expected of None \<Rightarrow> True | Some x \<Rightarrow> x = h ! gc_position c)
          then ShapeChildren 1 else ShapeFailure
      | GAssertStart _ \<Rightarrow> if gc_position c = 0 then ShapeChildren 1 else ShapeFailure
      | GAssertEnd _ \<Rightarrow> if gc_position c = length h then ShapeChildren 1 else ShapeFailure
      | GSplit _ _ \<Rightarrow> ShapeChildren 2
      | _ \<Rightarrow> ShapeChildren 1))"

definition guard_child :: "guarded_regex \<Rightarrow> guard_admission \<Rightarrow> guard_config \<Rightarrow> nat \<Rightarrow> lab_error + guard_config" where
  "guard_child r adm c ordinal =
     rbind (vget (gr_insts r) (gc_pc c)) (\<lambda>i.
     case i of
       GMatch \<Rightarrow> Inl SameBoundaryCycle
     | GByte _ nxt \<Rightarrow> rbind (checked_add (gc_position c) 1 Boundaries) (\<lambda>position.
         Inr (c\<lparr>gc_pc := nxt, gc_position := position\<rparr>))
     | GAssertStart nxt \<Rightarrow> Inr (c\<lparr>gc_pc := nxt\<rparr>)
     | GAssertEnd nxt \<Rightarrow> Inr (c\<lparr>gc_pc := nxt\<rparr>)
     | GSplit preferred fallback \<Rightarrow>
         (if ordinal = 0 then Inr (c\<lparr>gc_pc := preferred\<rparr>)
          else if ordinal = 1 then Inr (c\<lparr>gc_pc := fallback\<rparr>)
          else Inl SameBoundaryCycle)
     | GSaveProgress guard nxt \<Rightarrow> rbind (write_guard adm (gc_guard_code c) guard (gc_position c)) (\<lambda>code.
         Inr (c\<lparr>gc_pc := nxt, gc_guard_code := code\<rparr>))
     | GCheckProgress guard progressed stalled \<Rightarrow> rbind (read_guard adm (gc_guard_code c) guard) (\<lambda>saved.
         if saved = ga_boundaries adm \<or> gc_position c < saved then Inl SameBoundaryCycle
         else Inr (c\<lparr>gc_pc := (if gc_position c > saved then progressed else stalled)\<rparr>)))"

text \<open>The memo table, the stack with its top first, and the accounting.\<close>

type_synonym guard_state = "nat list \<times> guard_frame list"

definition guard_push ::
    "guard_admission \<Rightarrow> guard_config \<Rightarrow> guard_frame list \<Rightarrow> accounting \<Rightarrow> lab_error + (guard_frame list \<times> accounting)" where
  "guard_push adm c stack acc =
     (if length stack \<ge> ga_cells adm
      then Inl (ResourceLimit GuardedConfigurations (min usize_max (length stack + 1)) (ga_cells adm))
      else
        let stack = \<lparr>gf_config = c, gf_next_child = 0\<rparr> # stack
        in Inr (stack, acc\<lparr>guarded_peak_frames := max (guarded_peak_frames acc) (length stack)\<rparr>))"

text \<open>One turn of the solver's loop, with \<open>frame\<close> on top of \<open>rest\<close>.\<close>

definition guard_visit ::
    "guarded_regex \<Rightarrow> nat \<Rightarrow> nat list \<Rightarrow> accounting \<Rightarrow> lab_error + (nat list \<times> accounting)" where
  "guard_visit r index memo acc =
     rbind (vget memo index) (\<lambda>v.
     if v = 0 then rbind (charge_state acc (max_work (gr_limits r))) (\<lambda>acc. Inr (memo[index := 1], acc))
     else Inr (memo, acc))"

definition guard_follow ::
    "guarded_regex \<Rightarrow> guard_admission \<Rightarrow> guard_frame \<Rightarrow> guard_frame list \<Rightarrow> nat \<Rightarrow> nat list \<Rightarrow> accounting
     \<Rightarrow> lab_error + (nat list \<times> guard_frame list \<times> accounting)" where
  "guard_follow r adm frame rest index memo acc =
     rbind (guard_child r adm (gf_config frame) (gf_next_child frame)) (\<lambda>child.
     rbind (charge_transition acc (max_work (gr_limits r))) (\<lambda>acc.
     rbind (guard_index r adm child) (\<lambda>child_index.
     rbind (vget memo child_index) (\<lambda>v.
     if v = 0 then rbind (guard_push adm child (frame # rest) acc) (\<lambda>(stack, acc). Inr (memo, stack, acc))
     else if v = 1 then Inl SameBoundaryCycle
     else if v = 2 then
       (if gf_next_child frame + 1 > 255 then Inl SameBoundaryCycle
        else Inr (memo, frame\<lparr>gf_next_child := gf_next_child frame + 1\<rparr> # rest, acc))
     else Inr (memo[index := v], rest, acc)))))"

definition guard_turn ::
    "guarded_regex \<Rightarrow> bytes \<Rightarrow> guard_admission \<Rightarrow> guard_frame \<Rightarrow> guard_frame list \<Rightarrow> nat list \<Rightarrow> accounting
     \<Rightarrow> lab_error + (nat list \<times> guard_frame list \<times> accounting)" where
  "guard_turn r h adm frame rest memo acc =
     rbind (guard_index r adm (gf_config frame)) (\<lambda>index.
     rbind (guard_visit r index memo acc) (\<lambda>(memo, acc).
     rbind (guard_shape r h (gf_config frame)) (\<lambda>shape.
     case shape of
       ShapeEnd e \<Rightarrow> rbind (encode_end e) (\<lambda>v. Inr (memo[index := v], rest, acc))
     | ShapeFailure \<Rightarrow> Inr (memo[index := 2], rest, acc)
     | ShapeChildren count \<Rightarrow>
         if gf_next_child frame \<ge> count then Inr (memo[index := 2], rest, acc)
         else guard_follow r adm frame rest index memo acc)))"

lemma charges_more:
  "charge_state acc maximum = Inr acc' \<Longrightarrow> total_work acc' = Suc (total_work acc) \<and> total_work acc' \<le> maximum"
  "charge_transition acc maximum = Inr acc' \<Longrightarrow> total_work acc' = Suc (total_work acc) \<and> total_work acc' \<le> maximum"
  by (auto simp: charge_state_def charge_transition_def charge_total_def rbind_eq_Inr split: if_splits)

text \<open>A turn charges work, or takes the top frame off the stack.\<close>

lemma guard_follow_more:
  assumes "guard_follow r adm frame rest index memo acc = Inr (memo', stack', acc')"
  shows "total_work acc < total_work acc' \<and> total_work acc' \<le> max_work (gr_limits r)"
proof -
  from assms obtain acc1 where charge: "charge_transition acc (max_work (gr_limits r)) = Inr acc1"
    and same: "total_work acc' = total_work acc1"
    unfolding guard_follow_def rbind_eq_Inr
    by (elim exE conjE) (auto simp: rbind_eq_Inr guard_push_def Let_def split: if_splits)
  from charges_more(2) [OF charge] same show ?thesis by simp
qed

lemma guard_turn_measure:
  assumes "guard_turn r h adm frame rest memo acc = Inr (memo', stack', acc')"
  shows "(total_work acc < total_work acc' \<and> total_work acc' \<le> max_work (gr_limits r))
    \<or> (total_work acc' = total_work acc \<and> stack' = rest)"
proof -
  from assms obtain index memo1 acc1 shape where visit: "guard_visit r index memo acc = Inr (memo1, acc1)"
    and step: "(case shape of
       ShapeEnd e \<Rightarrow> rbind (encode_end e) (\<lambda>v. Inr (memo1[index := v], rest, acc1))
     | ShapeFailure \<Rightarrow> Inr (memo1[index := 2], rest, acc1)
     | ShapeChildren count \<Rightarrow>
         if gf_next_child frame \<ge> count then Inr (memo1[index := 2], rest, acc1)
         else guard_follow r adm frame rest index memo1 acc1) = Inr (memo', stack', acc')"
    unfolding guard_turn_def rbind_eq_Inr by (elim exE conjE) (auto simp: rbind_eq_Inr split: prod.splits)
  have rest: "stack' = rest \<and> acc' = acc1 \<or> guard_follow r adm frame rest index memo1 acc1 = Inr (memo', stack', acc')"
    using step by (cases shape) (auto simp: rbind_eq_Inr split: if_splits)
  have "total_work acc1 = total_work acc \<or> total_work acc < total_work acc1 \<and> total_work acc1 \<le> max_work (gr_limits r)"
    using visit by (auto simp: guard_visit_def rbind_eq_Inr split: if_splits dest!: charges_more(1))
  with rest show ?thesis by (auto dest!: guard_follow_more)
qed

function guard_loop ::
    "guarded_regex \<Rightarrow> bytes \<Rightarrow> guard_admission \<Rightarrow> nat list \<Rightarrow> guard_frame list \<Rightarrow> accounting
     \<Rightarrow> lab_error + (nat list \<times> accounting)" where
  "guard_loop r h adm memo [] acc = Inr (memo, acc)"
| "guard_loop r h adm memo (frame # rest) acc =
     rbind (guard_turn r h adm frame rest memo acc) (\<lambda>(memo, stack, acc). guard_loop r h adm memo stack acc)"
  by pat_completeness auto
termination
  by (relation "measures [\<lambda>(r, h, adm, memo, stack, acc). max_work (gr_limits r) - total_work acc,
      \<lambda>(r, h, adm, memo, stack, acc). length stack]") (auto dest!: guard_turn_measure)

declare guard_loop.simps [simp del]

definition guard_solve :: "guarded_regex \<Rightarrow> bytes \<Rightarrow> guard_admission \<Rightarrow> nat \<Rightarrow> guard_state selector_fun" where
  "guard_solve r h adm initial_guard_code start = (\<lambda>((memo, stack), acc).
     let root = \<lparr>gc_pc = gr_entry r, gc_position = start, gc_guard_code = initial_guard_code\<rparr> in
     rbind (guard_index r adm root) (\<lambda>root_index.
     rbind (vget memo root_index) (\<lambda>v.
     rbind (if v = 0 then guard_push adm root stack acc else Inr (stack, acc)) (\<lambda>(stack, acc).
     rbind (guard_loop r h adm memo stack acc) (\<lambda>(memo, acc).
     rbind (vget memo root_index) (\<lambda>v.
     rbind (decode_end v) (\<lambda>selected. Inr (selected, (memo, []), acc))))))))"

definition find_all_guarded_dp :: "allocator \<Rightarrow> guarded_regex \<Rightarrow> bytes \<Rightarrow> (lab_error + run_report) option" where
  "find_all_guarded_dp al r h =
     then_run (guard_admit r h) (\<lambda>adm.
     then_run (reserve_output al (ga_boundaries adm) (gr_limits r)) (\<lambda>output_reserved.
     then_run (try_reserve al GuardedBytes (ga_cells adm)) (\<lambda>_.
     then_run (try_reserve al GuardedBytes (ga_cells adm)) (\<lambda>_.
     then_run (ok_or (usub (ga_guard_space adm) 1) SameBoundaryCycle) (\<lambda>initial_guard_code.
     report (collect_sequence (length h) (gr_limits r) (guard_solve r h adm initial_guard_code)
       ((replicate (ga_cells adm) 0, []), accounting_default\<lparr>program_states := length (gr_insts r),
          boundaries_count := ga_boundaries adm, table_builds := 1, table_cells := ga_cells adm,
          guarded_configurations := ga_cells adm, random_access_peak_bytes := ga_random_bytes adm,
          output_reserved_bytes := output_reserved\<rparr>)))))))"

end
