(* ===== verification/LabGuardSem.thy ===== *)
theory LabGuardSem
  imports LabGuard LabRefuse
begin

text \<open>
  What a guarded program computes, and that the guarded compiler computes the ordered
  semantics of the AST. A configuration is a state, a boundary and the registers;
  \<open>gpaths P h c es\<close> says that the program reaches exactly the ends \<open>es\<close> from \<open>c\<close>, in priority
  order, and, by its being inductive, that no path from \<open>c\<close> is infinite.
\<close>

type_synonym regs = "nat \<Rightarrow> nat"
type_synonym gconfig = "nat \<times> nat \<times> regs"

section \<open>Ordered semantics of a guarded program\<close>

fun gsuccs :: "bytes \<Rightarrow> guard_inst \<Rightarrow> nat \<Rightarrow> regs \<Rightarrow> gconfig list" where
  "gsuccs h GMatch p \<sigma> = []"
| "gsuccs h (GByte x nxt) p \<sigma> = map (\<lambda>q. (nxt, q, \<sigma>)) (consume x h p)"
| "gsuccs h (GAssertStart nxt) p \<sigma> = (if p = 0 then [(nxt, p, \<sigma>)] else [])"
| "gsuccs h (GAssertEnd nxt) p \<sigma> = (if p = length h then [(nxt, p, \<sigma>)] else [])"
| "gsuccs h (GSplit a b) p \<sigma> = [(a, p, \<sigma>), (b, p, \<sigma>)]"
| "gsuccs h (GSaveProgress g nxt) p \<sigma> = [(nxt, p, \<sigma>(g := p))]"
| "gsuccs h (GCheckProgress g progressed stalled) p \<sigma> = [(if p > \<sigma> g then progressed else stalled, p, \<sigma>)]"

fun gready :: "guard_inst \<Rightarrow> nat \<Rightarrow> regs \<Rightarrow> bool" where
  "gready (GCheckProgress g progressed stalled) p \<sigma> = (\<sigma> g \<le> p)"
| "gready _ p \<sigma> = True"

inductive gpaths :: "guard_inst list \<Rightarrow> bytes \<Rightarrow> gconfig \<Rightarrow> nat list \<Rightarrow> bool" for P h where
  gaccept: "pc < length P \<Longrightarrow> P ! pc = GMatch \<Longrightarrow> gpaths P h (pc, p, \<sigma>) [p]"
| gfollow: "pc < length P \<Longrightarrow> P ! pc \<noteq> GMatch \<Longrightarrow> gready (P ! pc) p \<sigma> \<Longrightarrow>
     list_all2 (gpaths P h) (gsuccs h (P ! pc) p \<sigma>) ess \<Longrightarrow> gpaths P h (pc, p, \<sigma>) (concat ess)"

lemma gpaths_split:
  "pc < length P \<Longrightarrow> P ! pc = GSplit a b \<Longrightarrow> gpaths P h (a, p, \<sigma>) es \<Longrightarrow> gpaths P h (b, p, \<sigma>) fs \<Longrightarrow>
     gpaths P h (pc, p, \<sigma>) (es @ fs)"
  using gpaths.gfollow [of pc P p \<sigma> h "[es, fs]"] by simp

lemma gpaths_byte:
  "pc < length P \<Longrightarrow> P ! pc = GByte x nxt \<Longrightarrow> (consume x h p \<noteq> [] \<Longrightarrow> gpaths P h (nxt, Suc p, \<sigma>) (K (Suc p))) \<Longrightarrow>
     gpaths P h (pc, p, \<sigma>) (concat (map K (consume x h p)))"
  using gpaths.gfollow [of pc P p \<sigma> h "map K (consume x h p)"]
  by (auto simp: consume_def list_all2_map1 list_all2_map2 split: if_splits)

lemma gpaths_assert_start:
  "pc < length P \<Longrightarrow> P ! pc = GAssertStart nxt \<Longrightarrow> (p = 0 \<Longrightarrow> gpaths P h (nxt, p, \<sigma>) es) \<Longrightarrow>
     gpaths P h (pc, p, \<sigma>) (if p = 0 then es else [])"
  using gpaths.gfollow [of pc P p \<sigma> h "if p = 0 then [es] else []"] by auto

lemma gpaths_assert_end:
  "pc < length P \<Longrightarrow> P ! pc = GAssertEnd nxt \<Longrightarrow> (p = length h \<Longrightarrow> gpaths P h (nxt, p, \<sigma>) es) \<Longrightarrow>
     gpaths P h (pc, p, \<sigma>) (if p = length h then es else [])"
  using gpaths.gfollow [of pc P p \<sigma> h "if p = length h then [es] else []"] by auto

lemma gpaths_save:
  "pc < length P \<Longrightarrow> P ! pc = GSaveProgress g nxt \<Longrightarrow> gpaths P h (nxt, p, \<sigma>(g := p)) es \<Longrightarrow> gpaths P h (pc, p, \<sigma>) es"
  using gpaths.gfollow [of pc P p \<sigma> h "[es]"] by simp

lemma gpaths_check:
  "pc < length P \<Longrightarrow> P ! pc = GCheckProgress g progressed stalled \<Longrightarrow> \<sigma> g \<le> p \<Longrightarrow>
     gpaths P h (if p > \<sigma> g then progressed else stalled, p, \<sigma>) es \<Longrightarrow> gpaths P h (pc, p, \<sigma>) es"
  using gpaths.gfollow [of pc P p \<sigma> h "[es]"] by simp

section \<open>Fragments\<close>

text \<open>Registers that agree but for those from \<open>m\<close> to below \<open>m'\<close>.\<close>

definition outside :: "nat \<Rightarrow> nat \<Rightarrow> regs \<Rightarrow> regs \<Rightarrow> bool" where
  "outside m m' \<sigma> \<tau> = (\<forall>g. g < m \<or> m' \<le> g \<longrightarrow> \<sigma> g = \<tau> g)"

lemma outside_refl [simp]: "outside m m' \<sigma> \<sigma>"
  by (simp add: outside_def)

lemma outside_trans: "outside m m' \<sigma> \<tau> \<Longrightarrow> outside m m' \<tau> \<upsilon> \<Longrightarrow> outside m m' \<sigma> \<upsilon>"
  by (simp add: outside_def)

lemma outside_mono: "outside k k' \<sigma> \<tau> \<Longrightarrow> m \<le> k \<Longrightarrow> k' \<le> m' \<Longrightarrow> outside m m' \<sigma> \<tau>"
  by (auto simp: outside_def)

lemma outside_upd: "m \<le> g \<Longrightarrow> g < m' \<Longrightarrow> outside m m' \<sigma> (\<sigma>(g := p))"
  by (auto simp: outside_def)

text \<open>The program holds the slots from \<open>base\<close> on.\<close>

definition holds :: "guard_inst list \<Rightarrow> nat \<Rightarrow> guard_slots \<Rightarrow> bool" where
  "holds P base slots = (length slots \<le> length P \<and> (\<forall>i. base \<le> i \<longrightarrow> i < length slots \<longrightarrow> slots ! i = Some (P ! i)))"

fun slot_ok :: "nat \<Rightarrow> guard_inst option \<Rightarrow> bool" where
  "slot_ok m None = False"
| "slot_ok m (Some (GSaveProgress g _)) = (g < m)"
| "slot_ok m (Some (GCheckProgress g _ _)) = (g < m)"
| "slot_ok m (Some _) = True"

lemma slot_ok_mono: "slot_ok m s \<Longrightarrow> m \<le> m' \<Longrightarrow> slot_ok m' s"
  by (induction m s rule: slot_ok.induct) auto

text \<open>
  From the builder \<open>b\<close>, a fragment with continuation \<open>k\<close> was appended, giving \<open>b'\<close> and the entry
  \<open>e\<close>: it computes \<open>f\<close> in front of whatever the continuation computes, and touches only its own
  registers.
\<close>

definition computes :: "bytes \<Rightarrow> guard_inst list \<Rightarrow> nat \<Rightarrow> nat \<Rightarrow> nat \<Rightarrow> nat \<Rightarrow> (nat \<Rightarrow> nat list) \<Rightarrow> bool" where
  "computes h P m m' k e f = (\<forall>\<sigma> K p. p \<le> length h \<longrightarrow>
     (\<forall>q \<tau>. p \<le> q \<longrightarrow> q \<le> length h \<longrightarrow> outside m m' \<sigma> \<tau> \<longrightarrow> gpaths P h (k, q, \<tau>) (K q)) \<longrightarrow>
     gpaths P h (e, p, \<sigma>) (concat (map K (f p))))"

definition gbuilt :: "bytes \<Rightarrow> guard_builder \<Rightarrow> nat \<Rightarrow> guard_builder \<times> nat \<Rightarrow> (nat \<Rightarrow> nat list) \<Rightarrow> bool" where
  "gbuilt h b k r f = (case r of (b', e) \<Rightarrow>
     gb_guard_count b \<le> gb_guard_count b' \<and>
     (\<exists>new. gb_slots b' = gb_slots b @ new \<and> list_all (slot_ok (gb_guard_count b')) new) \<and>
     (\<forall>P. holds P (length (gb_slots b)) (gb_slots b') \<longrightarrow>
        computes h P (gb_guard_count b) (gb_guard_count b') k e f))"

lemma computesD:
  assumes "computes h P m m' k e f" "p \<le> length h"
    and "\<And>q \<tau>. p \<le> q \<Longrightarrow> q \<le> length h \<Longrightarrow> outside m m' \<sigma> \<tau> \<Longrightarrow> gpaths P h (k, q, \<tau>) (K q)"
  shows "gpaths P h (e, p, \<sigma>) (concat (map K (f p)))"
  using assms unfolding computes_def by blast

lemma computesI:
  assumes "\<And>\<sigma> K p. p \<le> length h \<Longrightarrow>
     (\<And>q \<tau>. p \<le> q \<Longrightarrow> q \<le> length h \<Longrightarrow> outside m m' \<sigma> \<tau> \<Longrightarrow> gpaths P h (k, q, \<tau>) (K q)) \<Longrightarrow>
     gpaths P h (e, p, \<sigma>) (concat (map K (f p)))"
  shows "computes h P m m' k e f"
  using assms unfolding computes_def by blast

lemma computes_widen:
  assumes "computes h P k k' c e f" "m \<le> k" "k' \<le> m'"
  shows "computes h P m m' c e f"
  by (rule computesI, rule computesD [OF assms(1)]) (use outside_mono assms(2,3) in blast)+

lemma computes_id: "computes h P m m' k k (\<lambda>p. [p])"
  by (rule computesI) simp

lemma computes_comp:
  assumes "computes h P m m1 k e1 f1" "computes h P m1 m' e1 e f2" "m \<le> m1" "m1 \<le> m'"
  shows "computes h P m m' k e (\<lambda>p. concat (map f1 (f2 p)))"
proof (rule computesI)
  fix \<sigma> K p assume p: "p \<le> length h"
    and K: "\<And>q \<tau>. p \<le> q \<Longrightarrow> q \<le> length h \<Longrightarrow> outside m m' \<sigma> \<tau> \<Longrightarrow> gpaths P h (k, q, \<tau>) (K q)"
  have "gpaths P h (e, p, \<sigma>) (concat (map (\<lambda>q. concat (map K (f1 q))) (f2 p)))"
  proof (rule computesD [OF assms(2) p])
    fix q \<tau> assume q: "p \<le> q" "q \<le> length h" "outside m1 m' \<sigma> \<tau>"
    show "gpaths P h (e1, q, \<tau>) (concat (map K (f1 q)))"
    proof (rule computesD [OF assms(1) q(2)])
      fix r \<upsilon> assume "q \<le> r" "r \<le> length h" "outside m m1 \<tau> \<upsilon>"
      moreover from this(3) q(3) have "outside m m' \<sigma> \<upsilon>"
        using outside_trans outside_mono assms(3,4) by (meson order_refl)
      ultimately show "gpaths P h (k, r, \<upsilon>) (K r)" using K q(1) by simp
    qed
  qed
  then show "gpaths P h (e, p, \<sigma>) (concat (map K (concat (map f1 (f2 p)))))"
    by (simp add: concat_map_concat comp_def)
qed

lemma computes_split:
  assumes "computes h P m m' k a f" "computes h P m m' k b g" "e < length P" "P ! e = GSplit a b"
  shows "computes h P m m' k e (\<lambda>p. f p @ g p)"
proof (rule computesI)
  fix \<sigma> K p assume "p \<le> length h"
    and "\<And>q \<tau>. p \<le> q \<Longrightarrow> q \<le> length h \<Longrightarrow> outside m m' \<sigma> \<tau> \<Longrightarrow> gpaths P h (k, q, \<tau>) (K q)"
  with computesD [OF assms(1)] computesD [OF assms(2)] gpaths_split [OF assms(3,4)]
  show "gpaths P h (e, p, \<sigma>) (concat (map K (f p @ g p)))" by simp
qed


lemma computes_ordered:
  assumes "computes h P m m' k a f" "computes h P m m' k b g" "e < length P" "P ! e = guard_ordered gr a b"
  shows "computes h P m m' k e (\<lambda>p. case gr of Greedy \<Rightarrow> f p @ g p | Lazy \<Rightarrow> g p @ f p)"
  using computes_split [OF assms(1,2,3)] computes_split [OF assms(2,1,3)] assms(4)
  by (cases gr) (simp_all add: guard_ordered_def)

text \<open>The loop of an unbounded repetition: the register \<open>m\<close> holds the start of the current iteration.\<close>

lemma loop_gpaths:
  assumes body: "computes h P (Suc m) m' check entry f" and m: "m < m'"
    and range: "start < length P" "check < length P" "save < length P"
    and code: "P ! start = guard_ordered gr save k" "P ! check = GCheckProgress m start k" "P ! save = GSaveProgress m entry"
    and p: "p \<le> length h"
    and K: "\<And>q \<tau>. p \<le> q \<Longrightarrow> q \<le> length h \<Longrightarrow> outside m m' \<sigma> \<tau> \<Longrightarrow> gpaths P h (k, q, \<tau>) (K q)"
  shows "gpaths P h (start, p, \<sigma>) (concat (map K (star_ends (length h) f gr p)))"
  using p K
proof (induction "length h - p" arbitrary: p \<sigma> rule: less_induct)
  case less
  let ?n = "length h"
  let ?next = "\<lambda>q. if q = p then [p] else if p < q \<and> q \<le> ?n then star_ends ?n f gr q else []"
  have "gpaths P h (entry, p, \<sigma>(m := p)) (concat (map (\<lambda>q. concat (map K (?next q))) (f p)))"
  proof (rule computesD [OF body less.prems(1)])
    fix q \<tau> assume q: "p \<le> q" "q \<le> ?n" and out: "outside (Suc m) m' (\<sigma>(m := p)) \<tau>"
    have \<tau>: "\<tau> m = p" "outside m m' \<sigma> \<tau>"
      using out m by (auto simp: outside_def fun_upd_def split: if_splits)
    show "gpaths P h (check, q, \<tau>) (concat (map K (?next q)))"
    proof (rule gpaths_check [OF range(2) code(2)])
      show "gpaths P h (if q > \<tau> m then start else k, q, \<tau>) (concat (map K (?next q)))"
      proof (cases "q = p")
        case True
        then show ?thesis using less.prems(2) [of p \<tau>] less.prems(1) \<tau> by simp
      next
        case False
        have "gpaths P h (start, q, \<tau>) (concat (map K (star_ends ?n f gr q)))"
        proof (rule less.hyps)
          show "?n - q < ?n - p" using False q by simp
          fix r \<upsilon> assume "q \<le> r" "r \<le> ?n" "outside m m' \<tau> \<upsilon>"
          then show "gpaths P h (k, r, \<upsilon>) (K r)"
            using less.prems(2) outside_trans [OF \<tau>(2)] q(1) by simp
        qed (rule q(2))
        then show ?thesis using False q \<tau> by simp
      qed
    qed (use \<tau> q in simp)
  qed
  then have again: "gpaths P h (save, p, \<sigma>) (concat (map K (concat (map ?next (f p)))))"
    by (intro gpaths_save [OF range(3) code(3)]) (simp add: concat_map_concat comp_def)
  have leave: "gpaths P h (k, p, \<sigma>) (K p)" using less.prems by simp
  show ?case
  proof (cases gr)
    case Greedy
    then have "P ! start = GSplit save k" using code(1) by (simp add: guard_ordered_def)
    from gpaths_split [OF range(1) this again leave] show ?thesis
      unfolding star_ends.simps [of ?n f gr p] Let_def by (simp add: Greedy)
  next
    case Lazy
    then have "P ! start = GSplit k save" using code(1) by (simp add: guard_ordered_def)
    from gpaths_split [OF range(1) this leave again] show ?thesis
      unfolding star_ends.simps [of ?n f gr p] Let_def by (simp add: Lazy)
  qed
qed

lemma computes_star:
  assumes "computes h P (Suc m) m' check entry f" "m < m'" "start < length P" "check < length P" "save < length P"
    and "P ! start = guard_ordered gr save k" "P ! check = GCheckProgress m start k" "P ! save = GSaveProgress m entry"
  shows "computes h P m m' k start (star_ends (length h) f gr)"
  by (rule computesI, rule loop_gpaths [OF assms]) blast+


section \<open>The builder\<close>

abbreviation gok ::
    "bytes \<Rightarrow> guard_builder \<Rightarrow> nat \<Rightarrow> lab_error + (guard_builder \<times> nat) \<Rightarrow> (nat \<Rightarrow> nat list) \<Rightarrow> bool" where
  "gok h b k m f \<equiv> safe refusal m (\<lambda>r. gbuilt h b k r f)"

lemma holds_prefix: "holds P base (slots @ new) \<Longrightarrow> holds P base slots"
  by (auto simp: holds_def nth_append split: if_splits)

lemma holds_suffix: "holds P base slots \<Longrightarrow> base \<le> base' \<Longrightarrow> holds P base' slots"
  by (auto simp: holds_def)

lemma holds_at:
  "holds P base (slots @ new) \<Longrightarrow> base \<le> length slots \<Longrightarrow> i < length new \<Longrightarrow>
     length slots + i < length P \<and> new ! i = Some (P ! (length slots + i))"
  by (auto simp: holds_def nth_append dest: spec [of _ "length slots + i"])

lemma gok_push:
  assumes "gbuilt h b k (b\<lparr>gb_slots := gb_slots b @ [i]\<rparr>, length (gb_slots b)) f"
  shows "gok h b k (gb_push l al i b) f"
  using assms by (simp add: gb_push_def)

lemma push_safe:
  "Q (b\<lparr>gb_slots := gb_slots b @ [i]\<rparr>, length (gb_slots b)) \<Longrightarrow> safe refusal (gb_push l al i b) Q"
  by (simp add: gb_push_def)

lemma gbuilt_leaf:
  assumes "slot_ok (gb_guard_count b) (Some i)"
    and "\<And>P e. e < length P \<Longrightarrow> P ! e = i \<Longrightarrow> computes h P (gb_guard_count b) (gb_guard_count b) k e f"
  shows "gok h b k (gb_push l al (Some i) b) f"
proof (rule gok_push)
  show "gbuilt h b k (b\<lparr>gb_slots := gb_slots b @ [Some i]\<rparr>, length (gb_slots b)) f"
    using assms holds_at [of _ "length (gb_slots b)" "gb_slots b" "[Some i]" 0] by (auto simp: gbuilt_def)
qed

lemma gbuilt_id: "gbuilt h b k (b, k) (\<lambda>p. [p])"
  by (auto simp: gbuilt_def computes_id)

lemma gbuilt_comp:
  assumes "gbuilt h b k (b1, e1) f1" "gbuilt h b1 e1 (b2, e2) f2"
  shows "gbuilt h b k (b2, e2) (\<lambda>p. concat (map f1 (f2 p)))"
proof -
  obtain new1 new2 where new: "gb_slots b1 = gb_slots b @ new1" "gb_slots b2 = gb_slots b1 @ new2"
    and ok: "list_all (slot_ok (gb_guard_count b1)) new1" "list_all (slot_ok (gb_guard_count b2)) new2"
    and count: "gb_guard_count b \<le> gb_guard_count b1" "gb_guard_count b1 \<le> gb_guard_count b2"
    using assms by (auto simp: gbuilt_def)
  have "list_all (slot_ok (gb_guard_count b2)) (new1 @ new2)"
    using ok slot_ok_mono [OF _ count(2)] by (auto simp: list_all_iff)
  moreover have "computes h P (gb_guard_count b) (gb_guard_count b2) k e2 (\<lambda>p. concat (map f1 (f2 p)))"
    if P: "holds P (length (gb_slots b)) (gb_slots b2)" for P
  proof (rule computes_comp [OF _ _ count])
    show "computes h P (gb_guard_count b) (gb_guard_count b1) k e1 f1"
      using assms(1) holds_prefix P new(2) by (auto simp: gbuilt_def)
    show "computes h P (gb_guard_count b1) (gb_guard_count b2) e1 e2 f2"
      using assms(2) holds_suffix [OF P, of "length (gb_slots b1)"] new(1) by (auto simp: gbuilt_def)
  qed
  ultimately show ?thesis using new count by (simp add: gbuilt_def)
qed

text \<open>Two fragments with the same continuation, and a split in front of them.\<close>

lemma gbuilt_choice:
  assumes "gbuilt h b k (b1, e1) f1" "gbuilt h b1 k (b2, e2) f2"
    and split: "\<And>P. length (gb_slots b2) < length P \<Longrightarrow> P ! length (gb_slots b2) = i \<Longrightarrow>
      computes h P (gb_guard_count b) (gb_guard_count b2) k e1 f1 \<Longrightarrow>
      computes h P (gb_guard_count b) (gb_guard_count b2) k e2 f2 \<Longrightarrow>
      computes h P (gb_guard_count b) (gb_guard_count b2) k (length (gb_slots b2)) f"
    and i: "slot_ok (gb_guard_count b2) (Some i)"
  shows "gok h b k (gb_push l al (Some i) b2) f"
proof (rule push_safe)
  obtain new1 new2 where new: "gb_slots b1 = gb_slots b @ new1" "gb_slots b2 = gb_slots b1 @ new2"
    and ok: "list_all (slot_ok (gb_guard_count b1)) new1" "list_all (slot_ok (gb_guard_count b2)) new2"
    and count: "gb_guard_count b \<le> gb_guard_count b1" "gb_guard_count b1 \<le> gb_guard_count b2"
    using assms(1,2) by (auto simp: gbuilt_def)
  have slots: "list_all (slot_ok (gb_guard_count b2)) (new1 @ new2 @ [Some i])"
    using ok i slot_ok_mono [OF _ count(2)] by (auto simp: list_all_iff)
  show "gbuilt h b k (b2\<lparr>gb_slots := gb_slots b2 @ [Some i]\<rparr>, length (gb_slots b2)) f"
    unfolding gbuilt_def prod.case
  proof (intro conjI allI impI)
    fix P assume P: "holds P (length (gb_slots b)) (gb_slots (b2\<lparr>gb_slots := gb_slots b2 @ [Some i]\<rparr>))"
    then have P2: "holds P (length (gb_slots b)) (gb_slots b2)" using holds_prefix by simp
    have "computes h P (gb_guard_count b) (gb_guard_count b1) k e1 f1"
      using assms(1) P2 holds_prefix new(2) by (auto simp: gbuilt_def)
    moreover have "computes h P (gb_guard_count b1) (gb_guard_count b2) k e2 f2"
      using assms(2) holds_suffix [OF P2, of "length (gb_slots b1)"] new(1) by (auto simp: gbuilt_def)
    moreover have "length (gb_slots b2) < length P" "P ! length (gb_slots b2) = i"
      using holds_at [of P "length (gb_slots b)" "gb_slots b2" "[Some i]" 0] P new by auto
    ultimately show "computes h P (gb_guard_count b) (gb_guard_count (b2\<lparr>gb_slots := gb_slots b2 @ [Some i]\<rparr>)) k
        (length (gb_slots b2)) f"
      using split [of P] computes_widen count by simp
  qed (use slots new count in auto)
qed


lemma gok_bind:
  assumes "gok h b k m f1" "\<And>b1 e1. gbuilt h b k (b1, e1) f1 \<Longrightarrow> safe refusal (g (b1, e1)) Q"
  shows "safe refusal (rbind m g) Q"
  using assms by (cases m) auto

section \<open>The compiler\<close>

lemma gok_byte: "gok h b k (gb_push l al (Some (GByte x k)) b) (consume x h)"
proof (rule gbuilt_leaf)
  fix P e assume "e < length P" "P ! e = GByte x k"
  note byte = gpaths_byte [OF this]
  show "computes h P (gb_guard_count b) (gb_guard_count b) k e (consume x h)"
    by (rule computesI, rule byte) (auto simp: consume_def split: if_splits)
qed simp

lemma gok_assert:
  "gok h b k (gb_push l al (Some (GAssertStart k)) b) (\<lambda>p. if p = 0 then [p] else [])"
  "gok h b k (gb_push l al (Some (GAssertEnd k)) b) (\<lambda>p. if p = length h then [p] else [])"
proof -
  have start: "computes h P m m' k e (\<lambda>p. if p = 0 then [p] else [])"
    if "e < length P" "P ! e = GAssertStart k" for P e m m'
  proof (rule computesI)
    fix \<sigma> K p assume "p \<le> length h" "\<And>q \<tau>. p \<le> q \<Longrightarrow> q \<le> length h \<Longrightarrow> outside m m' \<sigma> \<tau> \<Longrightarrow> gpaths P h (k, q, \<tau>) (K q)"
    then show "gpaths P h (e, p, \<sigma>) (concat (map K (if p = 0 then [p] else [])))"
      using gpaths_assert_start [OF that, of p h \<sigma> "K p"] by (cases "p = 0") auto
  qed
  have stop: "computes h P m m' k e (\<lambda>p. if p = length h then [p] else [])"
    if "e < length P" "P ! e = GAssertEnd k" for P e m m'
  proof (rule computesI)
    fix \<sigma> K p assume "p \<le> length h" "\<And>q \<tau>. p \<le> q \<Longrightarrow> q \<le> length h \<Longrightarrow> outside m m' \<sigma> \<tau> \<Longrightarrow> gpaths P h (k, q, \<tau>) (K q)"
    then show "gpaths P h (e, p, \<sigma>) (concat (map K (if p = length h then [p] else [])))"
      using gpaths_assert_end [OF that, where p = p and \<sigma> = \<sigma> and h = h and es = "K p"] by (cases "p = length h") auto
  qed
  show "gok h b k (gb_push l al (Some (GAssertStart k)) b) (\<lambda>p. if p = 0 then [p] else [])"
    "gok h b k (gb_push l al (Some (GAssertEnd k)) b) (\<lambda>p. if p = length h then [p] else [])"
    by (rule gbuilt_leaf; simp add: start stop)+
qed

lemma gok_atom: "gok h b k (guard_atom l al a k b) (\<lambda>p. atom_ends h p a)"
  by (cases a) (simp_all add: gok_byte gok_assert gbuilt_id)

lemma gok_choices:
  assumes "list_all2 (\<lambda>cc f. \<forall>b. gok h b k (cc b) f) ccs fs" "gbuilt h b k (b1, e1) F"
  shows "gok h b k (rfold (guard_add_choice l al) (rev ccs) (b1, e1)) (\<lambda>p. concat (map (\<lambda>f. f p) fs) @ F p)"
  using assms(1)
proof (induction rule: list_all2_induct)
  case Nil
  then show ?case using assms(2) by simp
next
  case (Cons cc ccs f fs)
  have "safe refusal (guard_add_choice l al cc r) (\<lambda>r. gbuilt h b k r (\<lambda>p. concat (map (\<lambda>f. f p) (f # fs)) @ F p))"
    if r: "gbuilt h b k r (\<lambda>p. concat (map (\<lambda>f. f p) fs) @ F p)" for r
  proof (cases r)
    case (Pair b2 e2)
    have "safe refusal (gb_push l al (Some (GSplit e3 e2)) b3) (\<lambda>r. gbuilt h b k r (\<lambda>p. f p @ concat (map (\<lambda>f. f p) fs) @ F p))"
      if "gbuilt h b2 k (b3, e3) f" for b3 e3
      by (rule gbuilt_choice [OF r [unfolded Pair] that]) (auto intro: computes_split)
    with Cons.hyps(1) Pair show ?thesis by (auto simp: guard_add_choice_def intro: safe_mono)
  qed
  with Cons.IH show ?case by (auto simp: rfold_append elim: safe_mono)
qed

lemma gok_choice:
  assumes "list_all2 (\<lambda>cc f. \<forall>b. gok h b k (cc b) f) ccs fs" "refusal err"
  shows "gok h b k (guard_choice l al err ccs b) (\<lambda>p. concat (map (\<lambda>f. f p) fs))"
proof (cases ccs rule: rev_cases)
  case Nil
  then show ?thesis using assms(2) by (simp add: guard_choice_def)
next
  case (snoc front final)
  with assms(1) obtain fs' F where fs: "fs = fs' @ [F]" and front: "list_all2 (\<lambda>cc f. \<forall>b. gok h b k (cc b) f) front fs'"
    and final: "gok h b k (final b) F"
    by (auto simp: list_all2_append1 list_all2_Cons1)
  have "gok h b k (rbind (final b) (rfold (guard_add_choice l al) (rev front))) (\<lambda>p. concat (map (\<lambda>f. f p) fs') @ F p)"
    by (rule gok_bind [OF final]) (rule gok_choices [OF front])
  then show ?thesis by (simp add: guard_choice_def snoc fs)
qed

lemma gok_optional:
  assumes child: "\<And>b k. gok h b k (child b k d) f"
  shows "gok h b k (rfold (\<lambda>_. guard_optional l al child g d) [0..<n] (b, k)) (opt_ends f g n)"
proof (induction n)
  case 0
  then show ?case by (simp add: gbuilt_id opt_ends_0)
next
  case (Suc n)
  have "safe refusal (guard_optional l al child g d r) (\<lambda>r. gbuilt h b k r (opt_ends f g (Suc n)))"
    if r: "gbuilt h b k r (opt_ends f g n)" for r
  proof (cases r)
    case (Pair b1 e1)
    have "safe refusal (gb_push l al (Some (guard_ordered g e2 e1)) b2) (\<lambda>r. gbuilt h b k r (opt_ends f g (Suc n)))"
      if f: "gbuilt h b1 e1 (b2, e2) f" for b2 e2
    proof (rule safe_mono [OF gbuilt_choice [OF gbuilt_id f, where i = "guard_ordered g e2 e1"
        and f = "\<lambda>p. case g of Greedy \<Rightarrow> f p @ [p] | Lazy \<Rightarrow> [p] @ f p"]])
      fix x assume "gbuilt h b1 e1 x (\<lambda>p. case g of Greedy \<Rightarrow> f p @ [p] | Lazy \<Rightarrow> [p] @ f p)"
      with r Pair gbuilt_comp [of h b k b1 e1 "opt_ends f g n"]
      have "gbuilt h b k x (\<lambda>p. concat (map (opt_ends f g n) (case g of Greedy \<Rightarrow> f p @ [p] | Lazy \<Rightarrow> [p] @ f p)))"
        by (cases x) blast
      then show "gbuilt h b k x (opt_ends f g (Suc n))"
        by (cases g) (simp_all add: opt_ends_Suc Let_def)
    qed (auto intro: computes_ordered simp: guard_ordered_def split: greed.split)
    with child [of b1 e1] Pair show ?thesis by (auto simp: guard_optional_def intro: safe_mono)
  qed
  with Suc show ?case by (auto simp: rfold_append simp del: opt_ends.simps elim: safe_mono)
qed

lemma gok_copies:
  assumes child: "\<And>b k. gok h b k (child b k d) f" and tail: "gbuilt h b k r F"
  shows "safe refusal (rfold (\<lambda>_. guard_copy child d) [0..<n] r) (\<lambda>r. gbuilt h b k r (\<lambda>p. concat (map F (power_ends f n p))))"
proof (induction n)
  case 0
  then show ?case using tail by (simp add: power_ends_0)
next
  case (Suc n)
  let ?F = "\<lambda>p. concat (map F (power_ends f n p))"
  have "safe refusal (guard_copy child d r) (\<lambda>r. gbuilt h b k r (\<lambda>p. concat (map F (power_ends f (Suc n) p))))"
    if r: "gbuilt h b k r ?F" for r
  proof (cases r)
    case (Pair b1 e1)
    have "gbuilt h b k x (\<lambda>p. concat (map F (power_ends f (Suc n) p)))" if "gbuilt h b1 e1 x f" for x
      using gbuilt_comp [OF r [unfolded Pair], of "fst x" "snd x" f] that
      by (simp add: power_ends_Suc concat_map_concat comp_def)
    with child [of b1 e1] Pair show ?thesis by (auto simp: guard_copy_def intro: safe_mono)
  qed
  with Suc show ?case by (auto simp: rfold_append elim: safe_mono)
qed


text \<open>The loop, its slots being known.\<close>

lemma gbuilt_loop:
  fixes b :: guard_builder and g :: greed and k :: nat
  defines "m \<equiv> gb_guard_count b" and "start \<equiv> length (gb_slots b)"
  defines "b3 \<equiv> b\<lparr>gb_guard_count := Suc m, gb_slots := gb_slots b @ [None, Some (GCheckProgress m start k)]\<rparr>"
  assumes body: "gbuilt h b3 (Suc start) (b4, e) f" and new: "gb_slots b4 = gb_slots b3 @ new"
  shows "gbuilt h b k (b4\<lparr>gb_slots := gb_slots b @ [Some (guard_ordered g (length (gb_slots b4)) k),
      Some (GCheckProgress m start k)] @ new @ [Some (GSaveProgress m e)]\<rparr>, start) (star_ends (length h) f g)"
proof -
  let ?save = "length (gb_slots b4)"
  let ?tail = "[Some (guard_ordered g ?save k), Some (GCheckProgress m start k)] @ new @ [Some (GSaveProgress m e)]"
  have len: "length (gb_slots b4) = start + 2 + length new" "length (gb_slots b3) = start + 2"
    using new by (simp_all add: b3_def start_def)
  have count: "m < gb_guard_count b4" and ok: "list_all (slot_ok (gb_guard_count b4)) new"
    using body new by (auto simp: gbuilt_def b3_def)
  have "slot_ok (gb_guard_count b4) (Some (guard_ordered g ?save k))" by (cases g) (simp_all add: guard_ordered_def)
  with ok count have slots: "list_all (slot_ok (gb_guard_count b4)) ?tail" by simp
  have "computes h P m (gb_guard_count b4) k start (star_ends (length h) f g)"
    if P: "holds P start (gb_slots b @ ?tail)" for P
  proof (rule computes_star [OF _ count, where check = "Suc start" and entry = e and save = ?save])
    note at = holds_at [OF P, unfolded start_def, OF order_refl, folded start_def]
    show "start < length P" "P ! start = guard_ordered g ?save k" using at [of 0] by auto
    show "Suc start < length P" "P ! Suc start = GCheckProgress m start k" using at [of 1] by auto
    show "?save < length P" "P ! ?save = GSaveProgress m e"
      using at [of "2 + length new"] len by (auto simp: nth_append numeral_2_eq_2)
    have "holds P (length (gb_slots b3)) (gb_slots b4)"
      unfolding holds_def
    proof (intro conjI allI impI)
      show "length (gb_slots b4) \<le> length P" using \<open>?save < length P\<close> by simp
      fix i assume i: "length (gb_slots b3) \<le> i" "i < length (gb_slots b4)"
      then obtain j where j: "i = start + 2 + j" "j < length new"
        using len by (metis add.assoc le_Suc_ex nat_add_left_cancel_less)
      have "new ! j = Some (P ! i)" using at [of "2 + j"] j by (auto simp: nth_append numeral_2_eq_2)
      then show "gb_slots b4 ! i = Some (P ! i)" using j new len by (simp add: nth_append)
    qed
    then show "computes h P (Suc m) (gb_guard_count b4) (Suc start) e f"
      using body by (auto simp: gbuilt_def b3_def)
  qed
  with slots count show ?thesis unfolding gbuilt_def m_def start_def by auto
qed

lemma gok_star:
  assumes body: "\<And>b check. gok h b check (body check b) f"
  shows "gok h b k (guard_star l al g k body b) (star_ends (length h) f g)"
proof -
  let ?m = "gb_guard_count b" and ?start = "length (gb_slots b)"
  let ?b3 = "b\<lparr>gb_guard_count := Suc ?m, gb_slots := gb_slots b @ [None, Some (GCheckProgress ?m ?start k)]\<rparr>"
  have "safe refusal (rbind (gb_push l al (Some (GSaveProgress ?m e)) b4) (\<lambda>(b, save).
      rbind (vset (gb_slots b) ?start (Some (guard_ordered g save k))) (\<lambda>slots.
      Inr (b\<lparr>gb_slots := slots\<rparr>, ?start)))) (\<lambda>r. gbuilt h b k r (star_ends (length h) f g))"
    if built: "gbuilt h ?b3 (Suc ?start) (b4, e) f" for b4 e
  proof -
    obtain new where new: "gb_slots b4 = gb_slots ?b3 @ new" using built by (auto simp: gbuilt_def)
    from gbuilt_loop [OF built new, of g] show ?thesis
      by (simp add: gb_push_def new list_update_append)
  qed
  then have tail: "safe refusal (rbind (body (Suc ?start) ?b3) (\<lambda>(b, e).
      rbind (gb_push l al (Some (GSaveProgress ?m e)) b) (\<lambda>(b, save).
      rbind (vset (gb_slots b) ?start (Some (guard_ordered g save k))) (\<lambda>slots.
      Inr (b\<lparr>gb_slots := slots\<rparr>, ?start))))) (\<lambda>r. gbuilt h b k r (star_ends (length h) f g))"
    by (intro gok_bind [OF body]) simp
  show ?thesis
    unfolding guard_star_def new_guard_def gb_push_def [of l al None]
      gb_push_def [of l al "Some (GCheckProgress guard entry k)" for guard entry]
    using tail by simp
qed

lemma gok_seq:
  assumes "list_all2 (\<lambda>cc f. \<forall>b k. gok h b k (cc b k d) f) ccs fs"
  shows "gok h b k (rfold (\<lambda>child. guard_copy child d) (rev ccs) (b, k)) (seq_ends fs)"
  using assms
proof (induction rule: list_all2_induct)
  case Nil
  then show ?case by (simp add: gbuilt_id seq_ends_Nil)
next
  case (Cons cc ccs f fs)
  have "safe refusal (guard_copy cc d r) (\<lambda>r. gbuilt h b k r (seq_ends (f # fs)))"
    if r: "gbuilt h b k r (seq_ends fs)" for r
  proof (cases r)
    case (Pair b1 e1)
    have "gbuilt h b k x (seq_ends (f # fs))" if "gbuilt h b1 e1 x f" for x
      using gbuilt_comp [OF r [unfolded Pair], of "fst x" "snd x" f] that by (simp add: seq_ends_Cons)
    moreover have "gok h b1 e1 (cc b1 e1 d) f" using Cons.hyps(1) by blast
    ultimately show ?thesis unfolding Pair guard_copy_def prod.case by (rule safe_mono [rotated])
  qed
  with Cons.IH show ?case by (auto simp: rfold_append simp del: seq_ends.simps elim: safe_mono)
qed

lemma guard_node_ok: "gok h b k (guard_node l al ast b k d) (ends h ast)"
proof (induction ast arbitrary: b k d)
  case (LConcat as)
  then have "list_all2 (\<lambda>cc f. \<forall>b k. gok h b k (cc b k (d + 1)) f) (map (guard_node l al) as) (map (ends h) as)"
    by (simp add: list_all2_conv_all_nth)
  from gok_seq [OF this, of b k] show ?case by simp
next
  case (LAlt as)
  then have "list_all2 (\<lambda>cc f. \<forall>b. gok h b k (cc b) f) (map (\<lambda>child b. child b k (d + 1)) (map (guard_node l al) as)) (map (ends h) as)"
    by (simp add: list_all2_conv_all_nth)
  from gok_choice [OF this, where err = EmptyAlternation and b = b] show ?case by (simp add: comp_def)
next
  case (LRepeat body g)
  have "list_all2 (\<lambda>cc f. \<forall>b. gok h b check (cc b) f) (map (\<lambda>a. guard_atom l al a check) body) (map (\<lambda>a p. atom_ends h p a) body)"
    for check by (simp add: list_all2_conv_all_nth gok_atom)
  from gok_choice [OF this, where err = EmptyRepeatBody]
  have "gok h b check (guard_choice l al EmptyRepeatBody (map (\<lambda>a. guard_atom l al a check) body) b)
      (\<lambda>p. concat (map (atom_ends h p) body))" for b check by (simp add: comp_def)
  from gok_star [OF this] show ?case by (simp add: guard_atom_star_def)
next
  case (LRepetition a mn mx g)
  let ?tail = "case mx of None \<Rightarrow> star_ends (length h) (ends h a) g | Some m \<Rightarrow> opt_ends (ends h a) g (m - mn)"
  have tail: "gok h b k (case mx of
         Some maximum \<Rightarrow> rbind (ok_or (usub maximum mn) InvalidRepeatRange) (\<lambda>optional.
           rfold (\<lambda>_. guard_optional l al (guard_node l al a) g (d + 1)) [0..<optional] (b, k))
       | None \<Rightarrow> guard_general_star l al (guard_node l al a) g k (d + 1) b) ?tail"
  proof (cases mx)
    case None
    then show ?thesis using gok_star [OF LRepetition] by (simp add: guard_general_star_def)
  next
    case (Some m)
    then show ?thesis using gok_optional [OF LRepetition] by (cases "mn \<le> m") (simp_all add: usub_def)
  qed
  show ?case
    unfolding guard_node.simps guard_repetition_def ends.simps safe_simps(3) refuses_checked(1)
    by (subst safe_simps(3) [symmetric], intro impI gok_bind [OF tail] gok_copies [OF LRepetition])
qed (simp_all add: gbuilt_id gok_byte gok_assert)

section \<open>Compiled programs\<close>

definition guard_means :: "guarded_regex \<Rightarrow> lab_ast \<Rightarrow> bool" where
  "guard_means r ast = (gr_entry r < length (gr_insts r)
     \<and> (\<forall>i\<in>set (gr_insts r). slot_ok (gr_guard_count r) (Some i))
     \<and> (\<forall>h p \<sigma>. p \<le> length h \<longrightarrow> gpaths (gr_insts r) h (gr_entry r, p, \<sigma>) (ends h ast p)))"


lemma guarded_new_outcome:
  "safe refusal (guarded_new al ast l) (\<lambda>r. guard_means r ast \<and> gr_limits r = l)"
proof -
  let ?b0 = "\<lparr>gb_slots = [Some GMatch], gb_guard_count = 0\<rparr>"
  have node: "safe refusal (guard_node l al ast ?b0 0 1) (\<lambda>r. \<forall>h. gbuilt h ?b0 0 r (ends h ast))"
    using guard_node_ok [where b = ?b0 and k = 0 and l = l and al = al and ast = ast and d = 1] by (auto simp: safe_def split: sum.splits)
  have "safe refusal (rbind (if None \<in> set (gb_slots b) then Inl SameBoundaryCycle else Inr (map the (gb_slots b)))
      (\<lambda>insts. Inr \<lparr>gr_insts = insts, gr_entry = entry, gr_guard_count = gb_guard_count b, gr_limits = l\<rparr>))
      (\<lambda>r. guard_means r ast \<and> gr_limits r = l)"
    if built: "\<forall>h. gbuilt h ?b0 0 (b, entry) (ends h ast)" for b entry
  proof -
    let ?P = "map the (gb_slots b)"
    obtain new where new: "gb_slots b = Some GMatch # new" "list_all (slot_ok (gb_guard_count b)) new"
      using built [rule_format, of "[]"] by (auto simp: gbuilt_def)
    have some: "\<forall>s\<in>set (gb_slots b). slot_ok (gb_guard_count b) s" using new by (simp add: list_all_iff)
    have none: "None \<notin> set (gb_slots b)" using some by force
    have at: "gb_slots b ! i = Some (?P ! i)" if "i < length (gb_slots b)" for i
      using none that by (metis nth_map nth_mem option.collapse)
    have holds: "holds ?P 1 (gb_slots b)" using at by (simp add: holds_def)
    have paths: "gpaths ?P h (entry, p, \<sigma>) (ends h ast p)" if p: "p \<le> length h" for h p \<sigma>
    proof -
      have "gpaths ?P h (0, q, \<tau>) [q]" for q \<tau> by (rule gpaths.gaccept) (simp_all add: new)
      moreover have "computes h ?P 0 (gb_guard_count b) 0 entry (ends h ast)"
        using built [rule_format, of h] holds by (auto simp: gbuilt_def)
      ultimately have "gpaths ?P h (entry, p, \<sigma>) (concat (map (\<lambda>q. [q]) (ends h ast p)))"
        by (intro computesD [OF _ p])
      then show ?thesis by simp
    qed
    have "entry < length ?P"
      using paths [of 0 "[]" "\<lambda>_. 0"] by (auto elim: gpaths.cases)
    moreover have "slot_ok (gb_guard_count b) (Some i)" if "i \<in> set ?P" for i
      using that some none by (auto, metis option.collapse)
    ultimately show ?thesis using none paths by (simp add: guard_means_def)
  qed
  then have "safe refusal (rbind (guard_node l al ast ?b0 0 1) (\<lambda>(b, entry).
      rbind (if None \<in> set (gb_slots b) then Inl SameBoundaryCycle else Inr (map the (gb_slots b)))
      (\<lambda>insts. Inr \<lparr>gr_insts = insts, gr_entry = entry, gr_guard_count = gb_guard_count b, gr_limits = l\<rparr>)))
      (\<lambda>r. guard_means r ast \<and> gr_limits r = l)"
    using node by (auto elim!: safe_mono)
  then show ?thesis
    unfolding guarded_new_def gb_push_def using validate_refuses [of l "[(ast, 1)]" 0] by (auto simp: validate_ast_def elim!: safe_mono)
qed

end
