(* ===== verification/LabGuardRun.thy ===== *)
theory LabGuardRun
  imports LabGuardSem LabTable
begin

text \<open>
  The guarded solver is correct: registers and their mixed-radix code, the memo table, one
  configuration solved with everything below it, and the work this takes. Every configuration is
  visited once; a visit, the two examinations of its children and the examination by its parent
  cost at most four units of work.
\<close>

section \<open>Registers\<close>

definition digit :: "nat \<Rightarrow> nat \<Rightarrow> regs" where
  "digit radix code g = code div radix ^ g mod radix"

definition replace_digit :: "nat \<Rightarrow> nat \<Rightarrow> nat \<Rightarrow> nat \<Rightarrow> nat" where
  "replace_digit radix code g p = code - digit radix code g * radix ^ g + p * radix ^ g"

lemma replace_digit_parts:
  assumes "0 < radix"
  obtains a b where "code = (a * radix + digit radix code g) * radix ^ g + b" "b < radix ^ g"
    "replace_digit radix code g p = (a * radix + p) * radix ^ g + b"
proof
  let ?q = "radix ^ g" and ?x = "code div radix ^ g"
  have q: "0 < ?q" using assms by simp
  have x: "?x = ?x div radix * radix + digit radix code g" by (simp add: digit_def)
  show split: "code = (?x div radix * radix + digit radix code g) * ?q + code mod ?q"
    using x div_mult_mod_eq [of code ?q] by simp
  show "code mod ?q < ?q" using q by simp
  have "code = ?x div radix * radix * ?q + digit radix code g * ?q + code mod ?q"
    using split by (simp only: add_mult_distrib)
  then have "code - digit radix code g * ?q = ?x div radix * radix * ?q + code mod ?q" by linarith
  then show "replace_digit radix code g p = (?x div radix * radix + p) * ?q + code mod ?q"
    by (simp add: replace_digit_def add_mult_distrib)
qed

lemma digit_low:
  assumes "0 < radix" "g' < g"
  shows "digit radix (x * radix ^ g + b) g' = digit radix b g'"
proof -
  have "radix ^ g = radix ^ g' * (radix * radix ^ (g - Suc g'))"
    using assms(2) by (simp flip: power_Suc power_add)
  then have "x * radix ^ g + b = radix ^ g' * (radix * (x * radix ^ (g - Suc g'))) + b" by (simp only: ac_simps)
  moreover have "(radix ^ g' * y + b) div radix ^ g' = y + b div radix ^ g'" for y using assms(1) by simp
  ultimately have "(x * radix ^ g + b) div radix ^ g' = radix * (x * radix ^ (g - Suc g')) + b div radix ^ g'"
    by (simp only:)
  then show ?thesis by (simp add: digit_def)
qed

lemma digit_high:
  assumes "0 < radix" "g \<le> g'" "b < radix ^ g"
  shows "digit radix (x * radix ^ g + b) g' = x div radix ^ (g' - g) mod radix"
proof -
  have "radix ^ g' = radix ^ g * radix ^ (g' - g)" using assms(2) by (simp flip: power_add)
  then have "(x * radix ^ g + b) div radix ^ g' = (x * radix ^ g + b) div radix ^ g div radix ^ (g' - g)"
    by (simp add: div_mult2_eq)
  then show ?thesis using assms(1,3) by (simp add: digit_def)
qed

lemma digit_replace:
  assumes "p < radix"
  shows "digit radix (replace_digit radix code g p) = (digit radix code)(g := p)"
proof
  fix g'
  have pos: "0 < radix" using assms by simp
  obtain a b where parts: "code = (a * radix + digit radix code g) * radix ^ g + b" "b < radix ^ g"
    "replace_digit radix code g p = (a * radix + p) * radix ^ g + b"
    by (rule replace_digit_parts [OF pos])
  have d: "digit radix code g < radix" using pos by (simp add: digit_def)
  consider "g' < g" | "g' = g" | "g < g'" by linarith
  then show "digit radix (replace_digit radix code g p) g' = ((digit radix code)(g := p)) g'"
  proof cases
    case 1
    then show ?thesis using digit_low [OF pos 1] parts(1) by (metis fun_upd_other nat_neq_iff parts(3))
  next
    case 2
    then show ?thesis unfolding parts(3) using digit_high [OF pos, of g g' b] parts(2) assms by simp
  next
    case 3
    have high: "digit radix ((a * radix + y) * radix ^ g + b) g' = a div radix ^ (g' - Suc g) mod radix" if "y < radix" for y
    proof -
      have "radix ^ (g' - g) = radix * radix ^ (g' - Suc g)" using 3 by (metis Suc_diff_Suc power_Suc)
      then show ?thesis
        using digit_high [OF pos _ parts(2), of g' "a * radix + y"] 3 that by (simp add: div_mult2_eq)
    qed
    have "digit radix code g' = a div radix ^ (g' - Suc g) mod radix" using high [OF d] parts(1) by metis
    then show ?thesis using high [OF assms] parts(3) 3 by simp
  qed
qed

lemma replace_digit_less:
  assumes "p < radix" "g < n" "code < radix ^ n"
  shows "replace_digit radix code g p < radix ^ n"
proof -
  have pos: "0 < radix" using assms by simp
  obtain a b where parts: "code = (a * radix + digit radix code g) * radix ^ g + b" "b < radix ^ g"
    "replace_digit radix code g p = (a * radix + p) * radix ^ g + b"
    by (rule replace_digit_parts [OF pos])
  let ?m = "radix ^ (n - Suc g)"
  have n: "radix ^ n = radix * ?m * radix ^ g" using assms(2) by (simp flip: power_Suc power_add)
  have "a * radix * radix ^ g \<le> code"
    by (subst parts(1)) (simp add: add_mult_distrib)
  also have "code < ?m * radix * radix ^ g" using assms(3) n by (simp only: ac_simps)
  finally have "a < ?m" using pos by simp
  then have "(a + 1) * radix \<le> ?m * radix" by (intro mult_le_mono1) simp
  moreover have "a * radix + p + 1 \<le> (a + 1) * radix" using assms(1) by simp
  ultimately have "(a * radix + p + 1) * radix ^ g \<le> ?m * radix * radix ^ g" by (intro mult_le_mono1) simp
  then show ?thesis using parts(2,3) n by (simp add: algebra_simps)
qed


section \<open>Configurations\<close>

definition guard_admitted :: "guarded_regex \<Rightarrow> bytes \<Rightarrow> guard_admission \<Rightarrow> bool" where
  "guard_admitted r h adm = (0 < length (gr_insts r) \<and> (\<forall>i\<in>set (gr_insts r). slot_ok (gr_guard_count r) (Some i))
     \<and> ga_boundaries adm = Suc (length h) \<and> ga_radix adm = length h + 2
     \<and> ga_guard_space adm = ga_radix adm ^ gr_guard_count r
     \<and> ga_cells adm = length (gr_insts r) * Suc (length h) * ga_guard_space adm
     \<and> ga_cells adm * size_of_usize \<le> usize_max)"

definition valid :: "guarded_regex \<Rightarrow> bytes \<Rightarrow> guard_admission \<Rightarrow> guard_config \<Rightarrow> bool" where
  "valid r h adm c = (gc_pc c < length (gr_insts r) \<and> gc_position c \<le> length h \<and> gc_guard_code c < ga_guard_space adm)"

definition cell :: "guarded_regex \<Rightarrow> bytes \<Rightarrow> guard_config \<Rightarrow> nat" where
  "cell r h c = (gc_guard_code c * Suc (length h) + gc_position c) * length (gr_insts r) + gc_pc c"

definition config :: "guard_admission \<Rightarrow> guard_config \<Rightarrow> gconfig" where
  "config adm c = (gc_pc c, gc_position c, digit (ga_radix adm) (gc_guard_code c))"

lemma mixed_less:
  fixes a b m n :: nat
  assumes "a < m" "b < n"
  shows "a * n + b < m * n"
proof -
  have "a * n + b < (a + 1) * n" using assms(2) by simp
  also have "\<dots> \<le> m * n" using assms(1) by (intro mult_le_mono1) simp
  finally show ?thesis .
qed

lemma mixed_inject:
  fixes a b n :: nat
  assumes "b < n" "b' < n" "a * n + b = a' * n + b'"
  shows "a = a' \<and> b = b'"
proof -
  have "(a * n + b) div n = a" "(a' * n + b') div n = a'" using assms(1,2) by simp_all
  with assms(3) have "a = a'" by metis
  with assms(3) show ?thesis by simp
qed

lemma cell_less:
  assumes "guard_admitted r h adm" "valid r h adm c"
  shows "cell r h c < ga_cells adm"
proof -
  have "gc_guard_code c * Suc (length h) + gc_position c < ga_guard_space adm * Suc (length h)"
    using assms(2) by (intro mixed_less) (simp_all add: valid_def less_Suc_eq_le)
  then have "cell r h c < ga_guard_space adm * Suc (length h) * length (gr_insts r)"
    unfolding cell_def using assms(2) by (intro mixed_less) (simp_all add: valid_def)
  also have "\<dots> = ga_cells adm" using assms(1) by (simp only: guard_admitted_def ac_simps)
  finally show ?thesis .
qed

lemma cell_inject:
  assumes "valid r h adm c" "valid r h adm c'" "cell r h c = cell r h c'"
  shows "c = c'"
proof -
  have "gc_guard_code c * Suc (length h) + gc_position c = gc_guard_code c' * Suc (length h) + gc_position c'"
    "gc_pc c = gc_pc c'"
    using mixed_inject [OF _ _ assms(3) [unfolded cell_def]] assms(1,2) by (auto simp: valid_def)
  moreover from this(1) have "gc_guard_code c = gc_guard_code c' \<and> gc_position c = gc_position c'"
    by (intro mixed_inject [where n = "Suc (length h)"]) (use assms(1,2) in \<open>auto simp: valid_def\<close>)
  ultimately show ?thesis by (cases c; cases c') simp
qed

lemma cells_fit: "guard_admitted r h adm \<Longrightarrow> ga_cells adm * 8 \<le> usize_max \<and> Suc (length h) \<le> ga_cells adm \<and> ga_guard_space adm \<le> ga_cells adm"
proof -
  assume adm: "guard_admitted r h adm"
  have pos: "1 \<le> ga_guard_space adm" "1 \<le> length (gr_insts r)" "1 \<le> Suc (length h)"
    using adm by (auto simp: guard_admitted_def Suc_le_eq)
  have "1 * Suc (length h) * 1 \<le> length (gr_insts r) * Suc (length h) * ga_guard_space adm"
    "1 * 1 * ga_guard_space adm \<le> length (gr_insts r) * Suc (length h) * ga_guard_space adm"
    by (intro mult_le_mono pos order_refl)+
  moreover have "ga_cells adm = length (gr_insts r) * Suc (length h) * ga_guard_space adm" "ga_cells adm * 8 \<le> usize_max"
    using adm unfolding guard_admitted_def size_of_usize_def by blast+
  ultimately show ?thesis by simp
qed

lemma index_ok:
  assumes "guard_admitted r h adm" "valid r h adm c"
  shows "guard_index r adm c = Inr (cell r h c)"
proof -
  define row q where "row = gc_guard_code c * Suc (length h) + gc_position c" and "q = length (gr_insts r)"
  have "cell r h c \<le> usize_max" using cell_less [OF assms] cells_fit [OF assms(1)] by simp
  then have all: "row * q + gc_pc c \<le> usize_max" by (simp only: cell_def row_def q_def)
  have "row * 1 \<le> row * q" using assms(2) by (intro mult_le_mono2) (simp add: valid_def q_def)
  moreover from all have cells: "row * q \<le> usize_max" by linarith
  ultimately have row: "row \<le> usize_max" by linarith
  have rows: "gc_guard_code c * Suc (length h) \<le> usize_max" using row unfolding row_def by linarith
  have bounds: "\<not> (gc_guard_code c \<ge> ga_guard_space adm \<or> gc_position c \<ge> Suc (length h) \<or> gc_pc c \<ge> length (gr_insts r))"
    using assms(2) by (auto simp: valid_def)
  have B: "ga_boundaries adm = Suc (length h)" using assms(1) by (simp add: guard_admitted_def)
  show ?thesis
    unfolding guard_index_def B if_not_P [OF bounds] checked_mul_fits [OF rows] rbind_Inr
      checked_add_fits [OF row [unfolded row_def]] row_def [symmetric] q_def [symmetric]
      checked_mul_fits [OF cells] checked_add_fits [OF all] cell_def
    by (rule if_not_P) (use bounds in \<open>simp add: q_def\<close>)
qed

section \<open>Reading and writing registers\<close>

lemma checked_pow_fits:
  assumes "0 < radix" "radix ^ g \<le> usize_max"
  shows "checked_pow radix g k = Inr (radix ^ g)"
  using assms(2)
proof (induction g)
  case 0
  then show ?case by (simp add: checked_pow_def)
next
  case (Suc g)
  have "radix ^ g * 1 \<le> radix ^ g * radix" using assms(1) by (intro mult_le_mono2) simp
  also have "\<dots> \<le> usize_max" using Suc.prems by (simp add: mult.commute)
  finally have "checked_pow radix g k = Inr (radix ^ g)" using Suc.IH by simp
  then show ?case using Suc.prems by (simp add: checked_pow_def rfold_append mult.commute)
qed

lemma factor_fits:
  assumes "guard_admitted r h adm" "g < gr_guard_count r"
  shows "ga_radix adm * ga_radix adm ^ g \<le> ga_guard_space adm" "ga_guard_space adm \<le> usize_max" "1 < ga_radix adm"
    "checked_pow (ga_radix adm) g k = Inr (ga_radix adm ^ g)"
proof -
  show radix: "1 < ga_radix adm" using assms(1) by (simp add: guard_admitted_def)
  show le: "ga_radix adm * ga_radix adm ^ g \<le> ga_guard_space adm"
    using power_increasing [of "Suc g" "gr_guard_count r" "ga_radix adm"] assms radix by (simp add: guard_admitted_def)
  show space: "ga_guard_space adm \<le> usize_max" using cells_fit [OF assms(1)] by simp
  have "1 * ga_radix adm ^ g \<le> ga_radix adm * ga_radix adm ^ g" using radix by (intro mult_le_mono1) simp
  then show "checked_pow (ga_radix adm) g k = Inr (ga_radix adm ^ g)"
    using le space radix by (intro checked_pow_fits) linarith+
qed

lemma read_guard_ok:
  assumes "guard_admitted r h adm" "g < gr_guard_count r"
  shows "read_guard adm code g = Inr (digit (ga_radix adm) code g)"
  using factor_fits [OF assms] by (simp add: read_guard_def digit_def)

lemma write_guard_ok:
  assumes "guard_admitted r h adm" "g < gr_guard_count r" "code < ga_guard_space adm" "p < ga_radix adm"
  shows "write_guard adm code g p = Inr (replace_digit (ga_radix adm) code g p)"
    "replace_digit (ga_radix adm) code g p < ga_guard_space adm"
proof -
  let ?q = "ga_radix adm ^ g" and ?d = "digit (ga_radix adm) code g"
  note f = factor_fits [OF assms(1,2)]
  have "ga_guard_space adm = ga_radix adm ^ gr_guard_count r" using assms(1) by (simp add: guard_admitted_def)
  then show less: "replace_digit (ga_radix adm) code g p < ga_guard_space adm"
    using replace_digit_less [OF assms(4,2), of code] assms(3) by simp
  have "?d \<le> code div ?q" by (simp add: digit_def)
  then have "?d * ?q \<le> code div ?q * ?q" by (rule mult_le_mono1)
  also have "\<dots> \<le> code" by simp
  finally have removed: "?d * ?q \<le> code" .
  have added: "p * ?q \<le> usize_max"
    using order_trans [OF mult_le_mono1 [of p "ga_radix adm" ?q] f(1)] assms(4) f(2) by simp
  have "code - ?d * ?q + p * ?q \<le> usize_max" using less f(2) by (simp add: replace_digit_def)
  moreover have "?d * ?q \<le> usize_max" using removed assms(3) f(2) by simp
  ultimately show "write_guard adm code g p = Inr (replace_digit (ga_radix adm) code g p)"
    using added removed f(4) read_guard_ok [OF assms(1,2)]
    by (simp add: write_guard_def replace_digit_def usub_def)
qed

section \<open>Shapes and children\<close>

abbreviation guard_succs :: "guarded_regex \<Rightarrow> bytes \<Rightarrow> guard_admission \<Rightarrow> guard_config \<Rightarrow> gconfig list" where
  "guard_succs r h adm c \<equiv> gsuccs h (gr_insts r ! gc_pc c) (gc_position c) (digit (ga_radix adm) (gc_guard_code c))"

lemma succs_two: "length (gsuccs h i p \<sigma>) \<le> 2"
  by (cases i) (auto simp: consume_def)

lemma shape_ok:
  assumes "gc_pc c < length (gr_insts r)"
  shows "guard_shape r h c = Inr (
    if gr_insts r ! gc_pc c = GMatch then ShapeEnd (gc_position c)
    else if guard_succs r h adm c = [] then ShapeFailure else ShapeChildren (length (guard_succs r h adm c)))"
proof (cases "gr_insts r ! gc_pc c")
  case (GByte x nxt)
  then show ?thesis using assms by (cases x) (auto simp: guard_shape_def consume_def)
qed (use assms in \<open>auto simp: guard_shape_def\<close>)

lemma gpaths_pc: "gpaths P h (pc, p, \<sigma>) es \<Longrightarrow> pc < length P"
  by (erule gpaths.cases) auto

lemma child_ok:
  assumes adm: "guard_admitted r h adm" and c: "valid r h adm c"
    and ready: "gready (gr_insts r ! gc_pc c) (gc_position c) (digit (ga_radix adm) (gc_guard_code c))"
    and j: "j < length (guard_succs r h adm c)" and paths: "gpaths (gr_insts r) h (guard_succs r h adm c ! j) es"
  obtains d where "guard_child r adm c j = Inr d" "config adm d = guard_succs r h adm c ! j" "valid r h adm d"
proof -
  let ?i = "gr_insts r ! gc_pc c"
  have pc: "gc_pc c < length (gr_insts r)" and p: "gc_position c \<le> length h" and code: "gc_guard_code c < ga_guard_space adm"
    using c by (auto simp: valid_def)
  have slot: "slot_ok (gr_guard_count r) (Some ?i)" and B: "ga_boundaries adm = Suc (length h)" and radix: "ga_radix adm = length h + 2"
    using adm pc by (auto simp: guard_admitted_def)
  have fits: "Suc (gc_position c) \<le> usize_max" using cells_fit [OF adm] p by simp
  have goal: thesis if "guard_child r adm c j = Inr d" "config adm d = guard_succs r h adm c ! j"
      "gc_position d \<le> length h" "gc_guard_code d < ga_guard_space adm" for d
    using \<open>\<And>d. guard_child r adm c j = Inr d \<Longrightarrow> config adm d = guard_succs r h adm c ! j \<Longrightarrow> valid r h adm d \<Longrightarrow> thesis\<close>
      that gpaths_pc [of "gr_insts r" h "gc_pc d" "gc_position d" "digit (ga_radix adm) (gc_guard_code d)" es]
      paths [folded that(2)] by (simp add: config_def valid_def)
  show thesis
  proof (cases ?i)
    case (GByte x nxt)
    then show ?thesis using j p pc code fits
      by (intro goal [of "c\<lparr>gc_pc := nxt, gc_position := Suc (gc_position c)\<rparr>"])
        (auto simp: guard_child_def config_def consume_def split: if_splits)
  next
    case (GSplit a b)
    then show ?thesis using j p pc code
      by (intro goal [of "c\<lparr>gc_pc := if j = 0 then a else b\<rparr>"]) (auto simp: guard_child_def config_def less_Suc_eq)
  next
    case (GSaveProgress g nxt)
    then show ?thesis using slot j p pc write_guard_ok [OF adm _ code, of g "gc_position c"] radix
      by (intro goal [of "c\<lparr>gc_pc := nxt, gc_guard_code := replace_digit (ga_radix adm) (gc_guard_code c) g (gc_position c)\<rparr>"])
        (auto simp: guard_child_def config_def digit_replace)
  next
    case (GCheckProgress g progressed stalled)
    then show ?thesis using slot ready j p pc code read_guard_ok [OF adm, of g "gc_guard_code c"] B
      by (intro goal [of "c\<lparr>gc_pc := if gc_position c > digit (ga_radix adm) (gc_guard_code c) g then progressed else stalled\<rparr>"])
        (auto simp: guard_child_def config_def)
  qed (use j p pc code in \<open>auto intro: goal simp: guard_child_def config_def split: if_splits\<close>)
qed

section \<open>Solutions\<close>

text \<open>A configuration has one list of ends, and does not lead back to itself.\<close>

lemma gpaths_determined: "gpaths P h \<gamma> es \<Longrightarrow> gpaths P h \<gamma> es' \<Longrightarrow> es' = es"
proof (induction arbitrary: es' rule: gpaths.induct)
  case (gaccept pc p \<sigma>)
  from gaccept(3) show ?case by (rule gpaths.cases) (use gaccept in auto)
next
  case (gfollow pc p \<sigma> ess)
  from gfollow.prems show ?case
  proof (rule gpaths.cases)
    fix pc' p' \<sigma>' ess'
    assume "(pc, p, \<sigma>) = (pc', p', \<sigma>')" "es' = concat ess'" "list_all2 (gpaths P h) (gsuccs h (P ! pc') p' \<sigma>') ess'"
    moreover from this gfollow.IH have "ess' = ess"
      by (auto simp: list_all2_conv_all_nth intro!: nth_equalityI)
    ultimately show ?case by simp
  qed (use gfollow in auto)
qed

definition leads :: "guard_inst list \<Rightarrow> bytes \<Rightarrow> gconfig \<Rightarrow> gconfig \<Rightarrow> bool" where
  "leads P h \<gamma> \<delta> = (case \<gamma> of (pc, p, \<sigma>) \<Rightarrow> \<delta> \<in> set (gsuccs h (P ! pc) p \<sigma>))"

lemma gpaths_acyclic: "gpaths P h \<gamma> es \<Longrightarrow> \<not> (leads P h)\<^sup>+\<^sup>+ \<gamma> \<gamma>"
proof (induction rule: gpaths.induct)
  case (gaccept pc p \<sigma>)
  show ?case
  proof
    assume "(leads P h)\<^sup>+\<^sup>+ (pc, p, \<sigma>) (pc, p, \<sigma>)"
    then obtain \<delta> where "leads P h (pc, p, \<sigma>) \<delta>" by (meson tranclpD)
    with gaccept show False by (simp add: leads_def)
  qed
next
  case (gfollow pc p \<sigma> ess)
  show ?case
  proof
    assume "(leads P h)\<^sup>+\<^sup>+ (pc, p, \<sigma>) (pc, p, \<sigma>)"
    then obtain \<delta> where \<delta>: "leads P h (pc, p, \<sigma>) \<delta>" "(leads P h)\<^sup>*\<^sup>* \<delta> (pc, p, \<sigma>)" by (meson tranclpD)
    then have "(leads P h)\<^sup>+\<^sup>+ \<delta> \<delta>" by (meson rtranclp_into_tranclp1)
    moreover obtain i where "i < length ess" "\<delta> = gsuccs h (P ! pc) p \<sigma> ! i"
      using \<delta>(1) gfollow.IH by (auto simp: leads_def in_set_conv_nth dest: list_all2_lengthD)
    ultimately show False using gfollow.IH by (auto simp: list_all2_conv_all_nth)
  qed
qed

end
