(* ===== verification/LabGuardSolve.thy ===== *)
theory LabGuardSolve
  imports LabGuardRun
begin

text \<open>
  The solver of \<^verbatim>\<open>guarded.rs\<close>: a configuration on top of the stack is solved, with everything it
  needs, before the stack below it is touched again. The memo table then holds the ends of the
  configuration, the entries that were known are unchanged, and the work is paid by the entries
  that became known: one visit, at most two examinations of its children, and the examination by
  its parent, four units for each entry.
\<close>

section \<open>The memo table\<close>

fun genc :: "nat list \<Rightarrow> nat" where
  "genc [] = 2"
| "genc (e # _) = e + 3"

lemma genc_known: "genc es \<noteq> 0" "genc es \<noteq> 1" "2 \<le> genc es"
  by (cases es; simp)+

lemma genc_2: "genc es = 2 \<longleftrightarrow> es = []"
  by (cases es) auto

lemma genc_concat: "es \<noteq> [] \<Longrightarrow> genc (es @ fs) = genc es"
  by (cases es) auto

lemma decode_genc: "decode_end (genc es) = Inr (first_of es)"
  by (cases es) (auto simp: decode_end_def usub_def)

definition memo_ok :: "guarded_regex \<Rightarrow> bytes \<Rightarrow> guard_admission \<Rightarrow> nat list \<Rightarrow> bool" where
  "memo_ok r h adm memo = (length memo = ga_cells adm \<and> (\<forall>c es. valid r h adm c \<longrightarrow>
     gpaths (gr_insts r) h (config adm c) es \<longrightarrow> memo ! cell r h c \<in> {0, 1, genc es}))"

text \<open>The entries that are unknown, and the entries that are being visited.\<close>

definition unknown :: "nat list \<Rightarrow> nat set" where
  "unknown memo = {i. i < length memo \<and> memo ! i = 0}"

definition visiting :: "nat list \<Rightarrow> nat set" where
  "visiting memo = {i. i < length memo \<and> memo ! i = 1}"

lemma finite_memo [simp]: "finite (unknown memo)" "finite (visiting memo)"
  by (simp_all add: unknown_def visiting_def)

text \<open>Entries become known and stay as they are.\<close>

definition learns :: "nat list \<Rightarrow> nat list \<Rightarrow> bool" where
  "learns memo memo' = (length memo' = length memo
     \<and> (\<forall>i<length memo. if memo ! i = 0 then memo' ! i \<noteq> 1 else memo' ! i = memo ! i))"

lemma learns_refl [simp]: "learns memo memo"
  by (simp add: learns_def)

lemma learns_trans: "learns a b \<Longrightarrow> learns b c \<Longrightarrow> learns a c"
  unfolding learns_def by (metis zero_neq_one)

lemma learns_visiting: "learns memo memo' \<Longrightarrow> visiting memo' = visiting memo"
  unfolding learns_def visiting_def by (metis zero_neq_one)

lemma learns_unknown: "learns memo memo' \<Longrightarrow> card (unknown memo') \<le> card (unknown memo)"
  by (rule card_mono) (auto simp: learns_def unknown_def split: if_splits)

lemma visit_unknown:
  assumes "i < length memo" "memo ! i = 0"
  shows "card (unknown memo) = Suc (card (unknown (memo[i := Suc v])))" "visiting (memo[i := 1]) = insert i (visiting memo)"
    "i \<notin> visiting memo"
proof -
  have "unknown (memo[i := Suc v]) = unknown memo - {i}" "i \<in> unknown memo"
    using assms by (auto simp: unknown_def nth_list_update)
  then show "card (unknown memo) = Suc (card (unknown (memo[i := Suc v])))" by (metis card_Suc_Diff1 finite_memo(1))
qed (use assms in \<open>auto simp: visiting_def nth_list_update\<close>)

lemma visiting_bound:
  assumes "i < length memo" "memo ! i = 0"
  shows "card (visiting memo) < length memo"
proof -
  have "visiting memo \<subseteq> {..<length memo} - {i}" using assms by (auto simp: visiting_def)
  then have "card (visiting memo) \<le> card ({..<length memo} - {i})" by (rule card_mono [rotated]) simp
  also have "\<dots> < length memo" using assms(1) by simp
  finally show ?thesis .
qed

lemma memo_ok_entry:
  assumes "memo_ok r h adm memo" "valid r h adm c" "gpaths (gr_insts r) h (config adm c) es"
  shows "memo ! cell r h c = 0 \<or> memo ! cell r h c = 1 \<or> memo ! cell r h c = genc es"
  using assms by (auto simp: memo_ok_def)

lemma memo_ok_set:
  assumes "memo_ok r h adm memo" "valid r h adm c" "gpaths (gr_insts r) h (config adm c) es" "v \<in> {1, genc es}"
  shows "memo_ok r h adm (memo[cell r h c := v])"
  unfolding memo_ok_def
proof (intro conjI allI impI)
  fix c' es' assume c': "valid r h adm c'" "gpaths (gr_insts r) h (config adm c') es'"
  show "memo[cell r h c := v] ! cell r h c' \<in> {0, 1, genc es'}"
  proof (cases "cell r h c' = cell r h c \<and> cell r h c < length memo")
    case True
    then have "c' = c" using cell_inject [OF c'(1) assms(2)] by simp
    with gpaths_determined [OF assms(3)] c'(2) have "es' = es" by simp
    with True assms(4) show ?thesis by auto
  next
    case False
    then have "memo[cell r h c := v] ! cell r h c' = memo ! cell r h c'" by (metis list_update_beyond not_le nth_list_update_neq)
    then show ?thesis using assms(1) c' by (simp add: memo_ok_def)
  qed
qed (use assms(1) in \<open>simp add: memo_ok_def\<close>)

text \<open>No configuration below \<open>c\<close> is being visited.\<close>

definition clear :: "guarded_regex \<Rightarrow> bytes \<Rightarrow> guard_admission \<Rightarrow> nat list \<Rightarrow> guard_config \<Rightarrow> bool" where
  "clear r h adm memo c = (\<forall>d. valid r h adm d \<longrightarrow> memo ! cell r h d = 1 \<longrightarrow>
     \<not> (leads (gr_insts r) h)\<^sup>*\<^sup>* (config adm c) (config adm d))"

lemma clear_learns:
  assumes "guard_admitted r h adm" "length memo = ga_cells adm" "learns memo memo'" "clear r h adm memo c"
  shows "clear r h adm memo' c"
  unfolding clear_def
proof (intro allI impI)
  fix d assume d: "valid r h adm d" "memo' ! cell r h d = 1"
  then have "memo ! cell r h d = 1"
    using assms(2,3) cell_less [OF assms(1) d(1)] by (auto simp: learns_def split: if_splits)
  then show "\<not> (leads (gr_insts r) h)\<^sup>*\<^sup>* (config adm c) (config adm d)" using assms(4) d(1) by (simp add: clear_def)
qed

lemma clear_child:
  assumes "guard_admitted r h adm" "length memo = ga_cells adm" "clear r h adm memo c" "valid r h adm c"
    and "gpaths (gr_insts r) h (config adm c) es" "leads (gr_insts r) h (config adm c) (config adm d)"
  shows "clear r h adm (memo[cell r h c := 1]) d"
  unfolding clear_def
proof (intro allI impI notI)
  fix d' assume d': "valid r h adm d'" "memo[cell r h c := 1] ! cell r h d' = 1"
    and below: "(leads (gr_insts r) h)\<^sup>*\<^sup>* (config adm d) (config adm d')"
  show False
  proof (cases "cell r h d' = cell r h c")
    case True
    then have "d' = c" using cell_inject d'(1) assms(4) by blast
    with below assms(6) have "(leads (gr_insts r) h)\<^sup>+\<^sup>+ (config adm c) (config adm c)" by (meson rtranclp_into_tranclp2)
    with gpaths_acyclic [OF assms(5)] show False by simp
  next
    case False
    then have "memo ! cell r h d' = 1" using d'(2) by simp
    with assms(3) d'(1) converse_rtranclp_into_rtranclp [of "leads (gr_insts r) h", OF assms(6) below] show False
      by (simp add: clear_def)
  qed
qed

section \<open>Runs of the loop\<close>

text \<open>From \<open>stack\<close> the loop fails with an error in \<open>E\<close>, or comes down to \<open>rest\<close>.\<close>

definition solved ::
    "(lab_error \<Rightarrow> bool) \<Rightarrow> guarded_regex \<Rightarrow> bytes \<Rightarrow> guard_admission \<Rightarrow> nat list \<Rightarrow> guard_frame list \<Rightarrow> accounting
     \<Rightarrow> guard_frame list \<Rightarrow> (nat list \<Rightarrow> accounting \<Rightarrow> bool) \<Rightarrow> bool" where
  "solved E r h adm memo stack acc rest Q =
     ((\<exists>e. guard_loop r h adm memo stack acc = Inl e \<and> E e)
      \<or> (\<exists>memo' acc'. guard_loop r h adm memo stack acc = guard_loop r h adm memo' rest acc' \<and> Q memo' acc'))"

lemma solved_refl: "Q memo acc \<Longrightarrow> solved E r h adm memo rest acc rest Q"
  by (auto simp: solved_def)

lemma solved_trans:
  assumes "solved E r h adm memo stack acc mid P" "\<And>e. E e \<Longrightarrow> E' e"
    and "\<And>memo' acc'. P memo' acc' \<Longrightarrow> solved E' r h adm memo' mid acc' rest Q"
  shows "solved E' r h adm memo stack acc rest Q"
  using assms unfolding solved_def by metis

lemma solved_turn:
  assumes "safe E (guard_turn r h adm frame below memo acc) (\<lambda>(memo, stack, acc). solved E r h adm memo stack acc rest Q)"
  shows "solved E r h adm memo (frame # below) acc rest Q"
  using assms by (cases "guard_turn r h adm frame below memo acc") (auto simp: solved_def guard_loop.simps(2))

section \<open>Charges\<close>

definition out_of_work :: "compile_limits \<Rightarrow> nat \<Rightarrow> lab_error \<Rightarrow> bool" where
  "out_of_work l w e = (resource_error e \<and> \<not> (w \<le> max_work l \<and> max_work l \<le> usize_max))"

lemma out_of_work_mono: "out_of_work l w e \<Longrightarrow> w \<le> w' \<Longrightarrow> out_of_work l w' e"
  by (auto simp: out_of_work_def)

definition one_more :: "accounting \<Rightarrow> accounting \<Rightarrow> bool" where
  "one_more acc acc' = (acc_ok acc' \<and> total_work acc' = Suc (total_work acc) \<and> output_work acc' = output_work acc)"

lemma charge_out_of_work:
  assumes "acc_ok acc" "Suc (total_work acc) \<le> w"
  shows "safe (out_of_work l w) (charge_state acc (max_work l)) (one_more acc)"
    "safe (out_of_work l w) (charge_transition acc (max_work l)) (one_more acc)"
    "safe (out_of_work l w) (charge_root acc (max_work l)) (one_more acc)"
  using assms
  by (auto simp: charge_state_def charge_transition_def charge_root_def charge_total_def checked_add_def uadd_def
      enforce_def safe_def rbind_def out_of_work_def one_more_def acc_ok_def split: sum.splits if_splits option.splits)

definition potential :: "nat list \<Rightarrow> accounting \<Rightarrow> nat" where
  "potential memo acc = total_work acc + 4 * card (unknown memo)"

section \<open>Turns\<close>

abbreviation frame_at :: "guard_config \<Rightarrow> nat \<Rightarrow> guard_frame" where
  "frame_at c j \<equiv> \<lparr>gf_config = c, gf_next_child = j\<rparr>"

lemma turn_first:
  assumes "guard_admitted r h adm" "valid r h adm c" "length memo = ga_cells adm" "memo ! cell r h c = 0"
    and "acc_ok acc" "Suc (total_work acc) \<le> w"
    and "\<And>acc'. one_more acc acc' \<Longrightarrow>
      solved (out_of_work (gr_limits r) w) r h adm (memo[cell r h c := 1]) (frame_at c j # below) acc' rest Q"
  shows "solved (out_of_work (gr_limits r) w) r h adm memo (frame_at c j # below) acc rest Q"
proof -
  let ?i = "cell r h c" and ?E = "out_of_work (gr_limits r) w"
  have i: "?i < length memo" using cell_less [OF assms(1,2)] assms(3) by simp
  have turn: "guard_turn r h adm (frame_at c j) below memo acc =
      rbind (charge_state acc (max_work (gr_limits r))) (guard_turn r h adm (frame_at c j) below (memo[?i := 1]))"
    using i assms(4) by (cases "charge_state acc (max_work (gr_limits r))")
      (simp_all add: guard_turn_def index_ok [OF assms(1,2)] guard_visit_def)
  have "guard_loop r h adm memo (frame_at c j # below) acc =
      rbind (charge_state acc (max_work (gr_limits r))) (guard_loop r h adm (memo[?i := 1]) (frame_at c j # below))"
    by (cases "charge_state acc (max_work (gr_limits r))") (simp_all add: guard_loop.simps(2) turn)
  then show ?thesis
    using charge_out_of_work(1) [OF assms(5,6), of "gr_limits r"] assms(7)
    by (cases "charge_state acc (max_work (gr_limits r))") (auto simp: solved_def)
qed

lemma turn_accept:
  assumes "guard_admitted r h adm" "valid r h adm c" "length memo = ga_cells adm" "memo ! cell r h c = 1"
    and "gr_insts r ! gc_pc c = GMatch"
  shows "guard_turn r h adm (frame_at c j) below memo acc = Inr (memo[cell r h c := gc_position c + 3], below, acc)"
proof -
  have "gc_position c + 3 \<le> usize_max"
    using cells_fit [OF assms(1)] assms(2) by (simp add: valid_def usize_max_def)
  then show ?thesis
    using cell_less [OF assms(1,2)] assms(2-)
    by (simp add: guard_turn_def index_ok [OF assms(1,2)] guard_visit_def shape_ok [where adm = adm] valid_def encode_end_def)
qed

lemma turn_exhausted:
  assumes "guard_admitted r h adm" "valid r h adm c" "length memo = ga_cells adm" "memo ! cell r h c = 1"
    and "gr_insts r ! gc_pc c \<noteq> GMatch" "j = length (guard_succs r h adm c)"
  shows "guard_turn r h adm (frame_at c j) below memo acc = Inr (memo[cell r h c := 2], below, acc)"
  using cell_less [OF assms(1,2)] assms(2-)
  by (simp add: guard_turn_def index_ok [OF assms(1,2)] guard_visit_def shape_ok [where adm = adm] valid_def)

lemma turn_child:
  assumes "guard_admitted r h adm" "valid r h adm c" "length memo = ga_cells adm" "memo ! cell r h c = 1"
    and "gr_insts r ! gc_pc c \<noteq> GMatch" "j < length (guard_succs r h adm c)"
    and "guard_child r adm c j = Inr d" "valid r h adm d" "memo ! cell r h d \<noteq> 1"
  shows "guard_turn r h adm (frame_at c j) below memo acc =
    rbind (charge_transition acc (max_work (gr_limits r))) (\<lambda>acc.
    if memo ! cell r h d = 0 then rbind (guard_push adm d (frame_at c j # below) acc) (\<lambda>(stack, acc). Inr (memo, stack, acc))
    else if memo ! cell r h d = 2 then Inr (memo, frame_at c (Suc j) # below, acc)
    else Inr (memo[cell r h c := memo ! cell r h d], below, acc))"
proof -
  have "j < 2" using assms(6) succs_two [of h "gr_insts r ! gc_pc c" "gc_position c"] by (meson less_le_trans)
  moreover have "guard_succs r h adm c \<noteq> []" using assms(6) by auto
  ultimately show ?thesis
    using cell_less [OF assms(1,2)] cell_less [OF assms(1,8)] assms(2-7,9)
    by (cases "charge_transition acc (max_work (gr_limits r))")
      (simp_all add: guard_turn_def index_ok [OF assms(1,2)] index_ok [OF assms(1,8)] guard_visit_def
        shape_ok [where adm = adm] valid_def guard_follow_def)
qed

section \<open>One frame\<close>

text \<open>
  The frame of \<open>c\<close>, which is being visited, over \<open>below\<close>: the visited entries are at least the
  frames below it and itself, and no child of \<open>c\<close> leads to one of them.
\<close>

definition at_frame ::
    "guarded_regex \<Rightarrow> bytes \<Rightarrow> guard_admission \<Rightarrow> guard_config \<Rightarrow> guard_frame list \<Rightarrow> nat list \<Rightarrow> accounting \<Rightarrow> bool" where
  "at_frame r h adm c below memo acc = (memo_ok r h adm memo \<and> memo ! cell r h c = 1 \<and> acc_ok acc
     \<and> length below < card (visiting memo)
     \<and> (\<forall>d. leads (gr_insts r) h (config adm c) (config adm d) \<longrightarrow> clear r h adm memo d))"

text \<open>What a solved configuration leaves behind.\<close>

definition gained :: "guarded_regex \<Rightarrow> bytes \<Rightarrow> guard_admission \<Rightarrow> nat list \<Rightarrow> accounting \<Rightarrow> nat list \<Rightarrow> accounting \<Rightarrow> bool" where
  "gained r h adm memo acc memo' acc' = (memo_ok r h adm memo' \<and> learns memo memo' \<and> acc_ok acc' \<and> output_work acc' = output_work acc)"

lemma gained_trans:
  "gained r h adm a acc b acc1 \<Longrightarrow> gained r h adm b acc1 c acc2 \<Longrightarrow> gained r h adm a acc c acc2"
  by (auto simp: gained_def intro: learns_trans)

lemma at_frame_gained:
  assumes "guard_admitted r h adm" "valid r h adm c" "at_frame r h adm c below memo acc" "gained r h adm memo acc memo' acc'"
  shows "at_frame r h adm c below memo' acc'"
  using assms cell_less [OF assms(1,2)] learns_visiting [of memo memo'] clear_learns [OF assms(1), of memo memo']
  by (auto simp: at_frame_def gained_def learns_def memo_ok_def)

definition solvable :: "guarded_regex \<Rightarrow> bytes \<Rightarrow> guard_admission \<Rightarrow> gconfig \<Rightarrow> nat list \<Rightarrow> bool" where
  "solvable r h adm \<gamma> es = (\<forall>c memo below acc. config adm c = \<gamma> \<longrightarrow> valid r h adm c \<longrightarrow> memo_ok r h adm memo \<longrightarrow>
     memo ! cell r h c = 0 \<longrightarrow> clear r h adm memo c \<longrightarrow> length below \<le> card (visiting memo) \<longrightarrow> acc_ok acc \<longrightarrow>
     solved (out_of_work (gr_limits r) (potential memo acc)) r h adm memo (frame_at c 0 # below) acc below
       (\<lambda>memo' acc'. gained r h adm memo acc memo' acc' \<and> memo' ! cell r h c = genc es \<and>
          potential memo' acc' < potential memo acc))"

text \<open>What the frame leaves behind, before its own entry is written.\<close>

definition framed ::
    "guarded_regex \<Rightarrow> bytes \<Rightarrow> guard_admission \<Rightarrow> guard_config \<Rightarrow> nat list \<Rightarrow> nat \<Rightarrow> nat list \<Rightarrow> accounting \<Rightarrow> nat list \<Rightarrow> accounting \<Rightarrow> bool" where
  "framed r h adm c es k memo acc memo' acc' = (\<exists>memo1. memo' = memo1[cell r h c := genc es] \<and>
     gained r h adm memo acc memo1 acc' \<and> potential memo1 acc' \<le> potential memo acc + k)"

lemma framed_after:
  assumes "gained r h adm memo acc memo1 acc1" "framed r h adm c es k memo1 acc1 memo' acc'"
    and "potential memo1 acc1 + k \<le> potential memo acc + k'"
  shows "framed r h adm c es k' memo acc memo' acc'"
  using assms gained_trans [OF assms(1)] unfolding framed_def by (blast intro: order_trans add_right_mono)

lemma framed_mono: "framed r h adm c es k memo acc memo' acc' \<Longrightarrow> k \<le> k' \<Longrightarrow> framed r h adm c es k' memo acc memo' acc'"
  unfolding framed_def by (blast intro: order_trans add_left_mono)

lemma one_more_gained:
  assumes "at_frame r h adm c below memo acc" "one_more acc acc1"
  shows "gained r h adm memo acc memo acc1" "potential memo acc1 = Suc (potential memo acc)"
  using assms by (auto simp: gained_def at_frame_def one_more_def potential_def)

lemma push_fits:
  assumes "guard_admitted r h adm" "at_frame r h adm c below memo acc" "valid r h adm d" "memo ! cell r h d = 0"
    and "acc_ok acc1"
  obtains acc2 where "guard_push adm d (frame_at c j # below) acc1 = Inr (frame_at d 0 # frame_at c j # below, acc2)"
    "acc_ok acc2" "total_work acc2 = total_work acc1" "output_work acc2 = output_work acc1"
proof -
  have "length memo = ga_cells adm" "length below < card (visiting memo)"
    using assms(2) by (auto simp: at_frame_def memo_ok_def)
  then have "Suc (length below) < ga_cells adm"
    using visiting_bound [of "cell r h d" memo] cell_less [OF assms(1,3)] assms(4) by simp
  then show thesis using assms(5)
    by (intro that [of "acc1\<lparr>guarded_peak_frames := max (guarded_peak_frames acc1) (Suc (Suc (length below)))\<rparr>"])
      (auto simp: guard_push_def Let_def acc_ok_def)
qed

text \<open>A child is examined whose entry is known; \<open>later\<close> is what the frame does behind it.\<close>

lemma known_child:
  assumes adm: "guard_admitted r h adm" and c: "valid r h adm c" and frame: "at_frame r h adm c below memo acc"
    and inst: "gr_insts r ! gc_pc c \<noteq> GMatch" and j: "j < length (guard_succs r h adm c)"
    and d: "guard_child r adm c j = Inr d" "valid r h adm d" "memo ! cell r h d = genc es"
    and later: "\<And>acc1. es = [] \<Longrightarrow> one_more acc acc1 \<Longrightarrow>
      solved (out_of_work (gr_limits r) (potential memo acc1 + k)) r h adm memo (frame_at c (Suc j) # below) acc1 below
        (framed r h adm c fs k memo acc1)"
  shows "solved (out_of_work (gr_limits r) (potential memo acc + Suc k)) r h adm memo (frame_at c j # below) acc below
    (framed r h adm c (es @ fs) (Suc k) memo acc)"
proof (rule solved_turn)
  let ?E = "out_of_work (gr_limits r) (potential memo acc + Suc k)"
  have known: "memo ! cell r h d \<noteq> 1" "memo ! cell r h d \<noteq> 0" using d(3) genc_known by simp_all
  have ok: "acc_ok acc" "length memo = ga_cells adm" "memo ! cell r h c = 1" using frame by (auto simp: at_frame_def memo_ok_def)
  have "safe ?E (charge_transition acc (max_work (gr_limits r))) (one_more acc)"
    by (rule charge_out_of_work [OF ok(1)]) (simp add: potential_def)
  then show "safe ?E (guard_turn r h adm (frame_at c j) below memo acc)
      (\<lambda>(memo1, stack, acc1). solved ?E r h adm memo1 stack acc1 below (framed r h adm c (es @ fs) (Suc k) memo acc))"
    unfolding turn_child [OF adm c ok(2,3) inst j d(1,2) known(1)]
  proof (rule safe_bind)
    fix acc1 assume more: "one_more acc acc1"
    note g = one_more_gained [OF frame more]
    show "safe ?E (if memo ! cell r h d = 0 then rbind (guard_push adm d (frame_at c j # below) acc1) (\<lambda>(stack, acc). Inr (memo, stack, acc))
        else if memo ! cell r h d = 2 then Inr (memo, frame_at c (Suc j) # below, acc1)
        else Inr (memo[cell r h c := memo ! cell r h d], below, acc1))
      (\<lambda>(memo1, stack, acc1). solved ?E r h adm memo1 stack acc1 below (framed r h adm c (es @ fs) (Suc k) memo acc))"
    proof (cases "es = []")
      case True
      have "solved ?E r h adm memo (frame_at c (Suc j) # below) acc1 below (framed r h adm c (es @ fs) (Suc k) memo acc)"
        by (rule solved_trans [OF later [OF True more]])
          (use True g framed_after [OF g(1), of c fs k _ _ "Suc k"] in \<open>auto intro: solved_refl\<close>)
      then show ?thesis using True d(3) by simp
    next
      case False
      have "framed r h adm c (es @ fs) (Suc k) memo acc (memo[cell r h c := genc es]) acc1"
        unfolding framed_def using g genc_concat [OF False] by (intro exI [of _ memo]) simp
      then show ?thesis using known False d(3) genc_2 [of es] by (simp add: solved_refl)
    qed
  qed
qed

lemma unknown_child:
  assumes adm: "guard_admitted r h adm" and c: "valid r h adm c" and frame: "at_frame r h adm c below memo acc"
    and inst: "gr_insts r ! gc_pc c \<noteq> GMatch" and j: "j < length (guard_succs r h adm c)"
    and d: "guard_child r adm c j = Inr d" "valid r h adm d" "memo ! cell r h d = 0"
    and child: "solvable r h adm (config adm d) es" "clear r h adm memo d"
    and w: "Suc (potential memo acc) \<le> w"
    and later: "\<And>memo1 acc1. gained r h adm memo acc memo1 acc1 \<Longrightarrow> potential memo1 acc1 \<le> potential memo acc \<Longrightarrow>
      memo1 ! cell r h d = genc es \<Longrightarrow>
      solved (out_of_work (gr_limits r) w) r h adm memo1 (frame_at c j # below) acc1 below Q"
  shows "solved (out_of_work (gr_limits r) w) r h adm memo (frame_at c j # below) acc below Q"
proof (rule solved_turn)
  let ?E = "out_of_work (gr_limits r) w"
  have ok: "acc_ok acc" "memo_ok r h adm memo" "length memo = ga_cells adm" "memo ! cell r h c = 1"
    and depth: "length (frame_at c j # below) \<le> card (visiting memo)"
    using frame by (auto simp: at_frame_def memo_ok_def)
  have "safe ?E (charge_transition acc (max_work (gr_limits r))) (one_more acc)"
    by (rule charge_out_of_work [OF ok(1)]) (use w in \<open>simp add: potential_def\<close>)
  then show "safe ?E (guard_turn r h adm (frame_at c j) below memo acc)
      (\<lambda>(memo1, stack, acc1). solved ?E r h adm memo1 stack acc1 below Q)"
    unfolding turn_child [OF adm c ok(3,4) inst j d(1,2), unfolded d(3), simplified]
  proof (rule safe_bind)
    fix acc1 assume more: "one_more acc acc1"
    then have "acc_ok acc1" by (simp add: one_more_def)
    with push_fits [OF adm frame d(2,3)] obtain acc2
      where push: "guard_push adm d (frame_at c j # below) acc1 = Inr (frame_at d 0 # frame_at c j # below, acc2)"
      and acc2: "acc_ok acc2" "total_work acc2 = total_work acc1" "output_work acc2 = output_work acc1" by metis
    have pot: "potential memo acc2 = Suc (potential memo acc)"
      using more acc2(2) by (simp add: potential_def one_more_def)
    have "solved ?E r h adm memo (frame_at d 0 # frame_at c j # below) acc2 below Q"
    proof (rule solved_trans)
      show "solved (out_of_work (gr_limits r) (potential memo acc2)) r h adm memo (frame_at d 0 # frame_at c j # below) acc2
          (frame_at c j # below) (\<lambda>memo' acc'. gained r h adm memo acc2 memo' acc' \<and> memo' ! cell r h d = genc es \<and>
            potential memo' acc' < potential memo acc2)"
        using child d(2,3) ok(2) depth acc2(1) unfolding solvable_def by blast
      show "solved ?E r h adm memo' (frame_at c j # below) acc' below Q"
        if "gained r h adm memo acc2 memo' acc' \<and> memo' ! cell r h d = genc es \<and> potential memo' acc' < potential memo acc2"
        for memo' acc'
        using that pot more acc2(3) by (intro later) (auto simp: gained_def one_more_def)
      show "out_of_work (gr_limits r) w e" if "out_of_work (gr_limits r) (potential memo acc2) e" for e
        using out_of_work_mono [OF that] pot w by simp
    qed
    then show "safe ?E (rbind (guard_push adm d (frame_at c j # below) acc1) (\<lambda>(stack, acc). Inr (memo, stack, acc)))
        (\<lambda>(memo1, stack, acc1). solved ?E r h adm memo1 stack acc1 below Q)"
      by (simp add: push)
  qed
qed

lemma frame_solved:
  assumes adm: "guard_admitted r h adm" and c: "valid r h adm c"
    and inst: "gr_insts r ! gc_pc c \<noteq> GMatch"
    and ready: "gready (gr_insts r ! gc_pc c) (gc_position c) (digit (ga_radix adm) (gc_guard_code c))"
    and paths: "list_all2 (gpaths (gr_insts r) h) (guard_succs r h adm c) ess"
    and children: "list_all2 (solvable r h adm) (guard_succs r h adm c) ess"
  shows "j + k = length ess \<Longrightarrow> at_frame r h adm c below memo acc \<Longrightarrow>
    solved (out_of_work (gr_limits r) (potential memo acc + k)) r h adm memo (frame_at c j # below) acc below
      (framed r h adm c (concat (drop j ess)) k memo acc)"
proof (induction k arbitrary: j memo acc)
  case 0
  then have ok: "length memo = ga_cells adm" "memo ! cell r h c = 1" "j = length (guard_succs r h adm c)"
    and post: "framed r h adm c [] 0 memo acc (memo[cell r h c := 2]) acc"
    using list_all2_lengthD [OF paths] by (auto simp: at_frame_def memo_ok_def framed_def gained_def)
  show ?case
    by (rule solved_turn) (use 0 turn_exhausted [OF adm c ok(1,2) inst ok(3)] post in \<open>simp add: solved_refl\<close>)
next
  case (Suc k)
  have j: "j < length (guard_succs r h adm c)" "j < length ess" using Suc.prems(1) list_all2_lengthD [OF paths] by simp_all
  have path: "gpaths (gr_insts r) h (guard_succs r h adm c ! j) (ess ! j)"
    and child: "solvable r h adm (guard_succs r h adm c ! j) (ess ! j)"
    using paths children j by (simp_all add: list_all2_conv_all_nth)
  obtain d where d: "guard_child r adm c j = Inr d" "config adm d = guard_succs r h adm c ! j" "valid r h adm d"
    by (rule child_ok [OF adm c ready j(1) path])
  have drop: "concat (drop j ess) = ess ! j @ concat (drop (Suc j) ess)" using j(2) by (metis Cons_nth_drop_Suc concat.simps(2))
  have "leads (gr_insts r) h (config adm c) (config adm d)" unfolding d(2) using j(1) by (simp add: leads_def config_def)
  then have clear: "clear r h adm memo d" using Suc.prems(2) by (simp add: at_frame_def)
  have known: "solved (out_of_work (gr_limits r) (potential memo1 acc1 + Suc k)) r h adm memo1 (frame_at c j # below) acc1 below
      (framed r h adm c (concat (drop j ess)) (Suc k) memo1 acc1)"
    if frame: "at_frame r h adm c below memo1 acc1" and entry: "memo1 ! cell r h d = genc (ess ! j)" for memo1 acc1
    unfolding drop
  proof (rule known_child [OF adm c frame inst j(1) d(1,3) entry])
    fix acc2 assume "one_more acc1 acc2"
    then have "at_frame r h adm c below memo1 acc2" using frame by (auto simp: at_frame_def one_more_def)
    then show "solved (out_of_work (gr_limits r) (potential memo1 acc2 + k)) r h adm memo1 (frame_at c (Suc j) # below) acc2 below
        (framed r h adm c (concat (drop (Suc j) ess)) k memo1 acc2)"
      using Suc.prems(1) by (intro Suc.IH) simp_all
  qed
  have "memo ! cell r h d \<noteq> 1" using clear d(3) by (auto simp: clear_def)
  then consider "memo ! cell r h d = 0" | "memo ! cell r h d = genc (ess ! j)"
    using memo_ok_entry [OF _ d(3)] path d(2) Suc.prems(2) by (metis at_frame_def)
  then show ?case
  proof cases
    case 1
    show ?thesis
    proof (rule unknown_child [OF adm c Suc.prems(2) inst j(1) d(1,3) 1 _ clear])
      show "solvable r h adm (config adm d) (ess ! j)" using child d(2) by simp
      show "Suc (potential memo acc) \<le> potential memo acc + Suc k" by simp
      fix memo1 acc1 assume g: "gained r h adm memo acc memo1 acc1" "potential memo1 acc1 \<le> potential memo acc"
        and entry: "memo1 ! cell r h d = genc (ess ! j)"
      show "solved (out_of_work (gr_limits r) (potential memo acc + Suc k)) r h adm memo1 (frame_at c j # below) acc1 below
          (framed r h adm c (concat (drop j ess)) (Suc k) memo acc)"
        by (rule solved_trans [OF known [OF at_frame_gained [OF adm c Suc.prems(2) g(1)] entry]])
          (use g framed_after [OF g(1)] in \<open>auto intro: solved_refl elim: out_of_work_mono\<close>)
    qed
  next
    case 2
    then show ?thesis by (rule known [OF Suc.prems(2)])
  qed
qed

text \<open>A fresh entry that was visited and is written at the end.\<close>

lemma learns_fresh:
  assumes "i < length memo" "memo ! i = 0" "learns (memo[i := 1]) memo1" "v \<noteq> 0" "v \<noteq> 1"
  shows "learns memo (memo1[i := v])" "card (unknown (memo1[i := v])) = card (unknown memo1)"
proof -
  have len: "length memo1 = length memo" using assms(3) by (simp add: learns_def)
  have same: "if memo ! k = 0 then memo1 ! k \<noteq> 1 else memo1 ! k = memo ! k" if "k < length memo" "k \<noteq> i" for k
    using assms(3) that unfolding learns_def by (metis length_list_update nth_list_update_neq)
  have i: "memo1 ! i = 1" using assms(1,3) by (auto simp: learns_def)
  show "learns memo (memo1[i := v])"
    unfolding learns_def
  proof (intro conjI allI impI)
    show "if memo ! k = 0 then memo1[i := v] ! k \<noteq> 1 else memo1[i := v] ! k = memo ! k" if "k < length memo" for k
      using same [OF that] len that assms(2,5) by (cases "k = i") auto
  qed (use len in simp)
  have "memo1[i := v] ! x = 0 \<longleftrightarrow> memo1 ! x = 0" if "x < length memo1" for x
    using i assms(4) that by (cases "x = i") auto
  then have "unknown (memo1[i := v]) = unknown memo1" unfolding unknown_def by auto
  then show "card (unknown (memo1[i := v])) = card (unknown memo1)" by simp
qed

lemma fresh_solved:
  assumes adm: "guard_admitted r h adm" and c: "valid r h adm c" and memo: "memo_ok r h adm memo" "memo ! cell r h c = 0"
    and path: "gpaths (gr_insts r) h (config adm c) es" and acc: "acc_ok acc"
    and frame: "\<And>acc1. one_more acc acc1 \<Longrightarrow>
      solved (out_of_work (gr_limits r) (potential (memo[cell r h c := 1]) acc1 + 2)) r h adm (memo[cell r h c := 1])
        (frame_at c 0 # below) acc1 below (framed r h adm c es 2 (memo[cell r h c := 1]) acc1)"
  shows "solved (out_of_work (gr_limits r) (potential memo acc)) r h adm memo (frame_at c 0 # below) acc below
    (\<lambda>memo' acc'. gained r h adm memo acc memo' acc' \<and> memo' ! cell r h c = genc es \<and> potential memo' acc' < potential memo acc)"
proof -
  let ?i = "cell r h c"
  have len: "length memo = ga_cells adm" using memo(1) by (simp add: memo_ok_def)
  then have i: "?i < length memo" using cell_less [OF adm c] by simp
  have paid: "potential memo acc = potential (memo[?i := 1]) acc + 4"
    using visit_unknown(1) [OF i memo(2), of 0] by (simp add: potential_def)
  show ?thesis
  proof (rule turn_first [OF adm c len memo(2) acc])
    show "Suc (total_work acc) \<le> potential memo acc" using paid by (simp add: potential_def)
    fix acc1 assume more: "one_more acc acc1"
    then have pot: "potential (memo[?i := 1]) acc1 + 3 = potential memo acc"
      using paid by (simp add: potential_def one_more_def)
    show "solved (out_of_work (gr_limits r) (potential memo acc)) r h adm (memo[?i := 1]) (frame_at c 0 # below) acc1 below
        (\<lambda>memo' acc'. gained r h adm memo acc memo' acc' \<and> memo' ! ?i = genc es \<and> potential memo' acc' < potential memo acc)"
    proof (rule solved_trans [OF frame [OF more]])
      fix memo' acc' assume "framed r h adm c es 2 (memo[?i := 1]) acc1 memo' acc'"
      then obtain memo1 where m: "memo' = memo1[?i := genc es]" "gained r h adm (memo[?i := 1]) acc1 memo1 acc'"
        "potential memo1 acc' \<le> potential (memo[?i := 1]) acc1 + 2" by (auto simp: framed_def)
      have l: "learns (memo[?i := 1]) memo1" "memo_ok r h adm memo1" "length memo1 = length memo"
        using m(2) by (auto simp: gained_def learns_def)
      note fresh = learns_fresh [OF i memo(2) l(1) genc_known(1,2), of es]
      have "gained r h adm memo acc memo' acc'"
        using m(2) fresh(1) memo_ok_set [OF l(2) c path, of "genc es"] more by (simp add: gained_def m(1) one_more_def)
      moreover have "memo' ! ?i = genc es" using m(1) l(3) i by simp
      moreover have "potential memo' acc' < potential memo acc"
        using m(3) pot fresh(2) by (simp add: m(1) potential_def)
      ultimately show "solved (out_of_work (gr_limits r) (potential memo acc)) r h adm memo' below acc' below
          (\<lambda>memo' acc'. gained r h adm memo acc memo' acc' \<and> memo' ! ?i = genc es \<and> potential memo' acc' < potential memo acc)"
        by (intro solved_refl) simp
    next
      fix e assume "out_of_work (gr_limits r) (potential (memo[?i := 1]) acc1 + 2) e"
      then show "out_of_work (gr_limits r) (potential memo acc) e" using pot by (auto elim: out_of_work_mono)
    qed
  qed
qed

theorem gpaths_solvable:
  assumes adm: "guard_admitted r h adm"
  shows "gpaths (gr_insts r) h \<gamma> es \<Longrightarrow> solvable r h adm \<gamma> es"
proof (induction rule: gpaths.induct)
  case (gaccept pc p \<sigma>)
  show ?case
    unfolding solvable_def
  proof (intro allI impI)
    fix c memo acc and below :: "guard_frame list"
    assume c: "config adm c = (pc, p, \<sigma>)" "valid r h adm c" and memo: "memo_ok r h adm memo" "memo ! cell r h c = 0"
      and acc: "acc_ok acc"
    let ?m = "memo[cell r h c := 1]"
    have m: "length ?m = ga_cells adm" "?m ! cell r h c = 1" "gr_insts r ! gc_pc c = GMatch" "gc_position c = p"
      using memo c gaccept cell_less [OF adm c(2)] by (auto simp: memo_ok_def config_def)
    have path: "gpaths (gr_insts r) h (config adm c) [p]" using gpaths.gaccept gaccept c(1) by simp
    then have ok: "memo_ok r h adm ?m" using memo_ok_set [OF memo(1) c(2)] by simp
    show "solved (out_of_work (gr_limits r) (potential memo acc)) r h adm memo (frame_at c 0 # below) acc below
        (\<lambda>memo' acc'. gained r h adm memo acc memo' acc' \<and> memo' ! cell r h c = genc [p] \<and> potential memo' acc' < potential memo acc)"
    proof (rule fresh_solved [OF adm c(2) memo path acc], rule solved_turn)
      fix acc1 assume "one_more acc acc1"
      then have "framed r h adm c [p] 2 ?m acc1 (?m[cell r h c := genc [p]]) acc1"
        unfolding framed_def using ok by (intro exI [of _ ?m]) (simp add: gained_def one_more_def)
      then show "safe (out_of_work (gr_limits r) (potential ?m acc1 + 2)) (guard_turn r h adm (frame_at c 0) below ?m acc1)
          (\<lambda>(memo, stack, acc). solved (out_of_work (gr_limits r) (potential ?m acc1 + 2)) r h adm memo stack acc below
            (framed r h adm c [p] 2 ?m acc1))"
        unfolding turn_accept [OF adm c(2) m(1-3)] m(4) by (auto intro: solved_refl)
    qed
  qed
next
  case (gfollow pc p \<sigma> ess)
  have paths: "list_all2 (gpaths (gr_insts r) h) (gsuccs h (gr_insts r ! pc) p \<sigma>) ess"
    and children: "list_all2 (solvable r h adm) (gsuccs h (gr_insts r ! pc) p \<sigma>) ess"
    using gfollow.IH by (auto elim: list_all2_mono)
  have two: "length ess \<le> 2" using list_all2_lengthD [OF paths] succs_two [of h "gr_insts r ! pc" p \<sigma>] by simp
  show ?case
    unfolding solvable_def
  proof (intro allI impI)
    fix c memo acc and below :: "guard_frame list"
    assume c: "config adm c = (pc, p, \<sigma>)" "valid r h adm c" and memo: "memo_ok r h adm memo" "memo ! cell r h c = 0"
      and clear: "clear r h adm memo c" and depth: "length below \<le> card (visiting memo)" and acc: "acc_ok acc"
    let ?m = "memo[cell r h c := 1]"
    have len: "length memo = ga_cells adm" and i: "cell r h c < length memo"
      using memo(1) cell_less [OF adm c(2)] by (simp_all add: memo_ok_def)
    have eqs: "gc_pc c = pc" "gc_position c = p" "digit (ga_radix adm) (gc_guard_code c) = \<sigma>" using c(1) by (simp_all add: config_def)
    have path: "gpaths (gr_insts r) h (config adm c) (concat ess)"
      unfolding c(1) by (rule gpaths.gfollow [OF gfollow.hyps(1,2,3) paths])
    show "solved (out_of_work (gr_limits r) (potential memo acc)) r h adm memo (frame_at c 0 # below) acc below
        (\<lambda>memo' acc'. gained r h adm memo acc memo' acc' \<and> memo' ! cell r h c = genc (concat ess) \<and> potential memo' acc' < potential memo acc)"
    proof (rule fresh_solved [OF adm c(2) memo path acc])
      fix acc1 assume more: "one_more acc acc1"
      have "at_frame r h adm c below ?m acc1"
        unfolding at_frame_def
        using memo_ok_set [OF memo(1) c(2) path, of 1] i more depth clear_child [OF adm len clear c(2) path]
          visit_unknown(2,3) [OF i memo(2)] by (simp add: one_more_def)
      from frame_solved [OF adm c(2) _ _ _ _ _ this, unfolded eqs, OF gfollow.hyps(2,3) paths children, of 0 "length ess"]
      show "solved (out_of_work (gr_limits r) (potential ?m acc1 + 2)) r h adm ?m (frame_at c 0 # below) acc1 below
          (framed r h adm c (concat ess) 2 ?m acc1)"
        by (rule solved_trans [OF _ out_of_work_mono]) (use two in \<open>auto intro!: solved_refl elim: framed_mono\<close>)
    qed
  qed
qed

section \<open>A search\<close>

text \<open>Between two searches the stack is empty and no entry is being visited.\<close>

definition solver_ok :: "guarded_regex \<Rightarrow> bytes \<Rightarrow> guard_admission \<Rightarrow> guard_state \<Rightarrow> bool" where
  "solver_ok r h adm st = (memo_ok r h adm (fst st) \<and> snd st = [] \<and> visiting (fst st) = {})"

lemma solver_starts: "guard_admitted r h adm \<Longrightarrow> solver_ok r h adm (replicate (ga_cells adm) 0, [])"
  using cell_less [of r h adm] by (auto simp: solver_ok_def memo_ok_def visiting_def)

lemma clear_start:
  assumes "guard_admitted r h adm" "length memo = ga_cells adm" "visiting memo = {}"
  shows "clear r h adm memo c"
  using assms cell_less [OF assms(1)] by (auto simp: clear_def visiting_def)

lemma solve_ok:
  assumes adm: "guard_admitted r h adm" and means: "guard_means r ast" and start: "start \<le> length h"
    and code: "code < ga_guard_space adm" and st: "solver_ok r h adm st" and acc: "acc_ok acc"
  shows "safe (out_of_work (gr_limits r) (potential (fst st) acc)) (guard_solve r h adm code start (st, acc))
    (\<lambda>(selected, st', acc'). selected = lab_sel ast h start \<and> solver_ok r h adm st' \<and> acc_ok acc' \<and>
       output_work acc' = output_work acc \<and> potential (fst st') acc' \<le> potential (fst st) acc)"
proof -
  obtain memo where stm: "st = (memo, [])" and memo: "memo_ok r h adm memo" "visiting memo = {}"
    using st by (cases st) (auto simp: solver_ok_def)
  define root where "root = \<lparr>gc_pc = gr_entry r, gc_position = start, gc_guard_code = code\<rparr>"
  let ?E = "out_of_work (gr_limits r) (potential memo acc)" and ?i = "cell r h root"
  have valid: "valid r h adm root" using means start code by (simp add: valid_def root_def guard_means_def)
  have path: "gpaths (gr_insts r) h (config adm root) (ends h ast start)"
    using means start by (simp add: guard_means_def config_def root_def)
  have len: "length memo = ga_cells adm" and i: "?i < ga_cells adm"
    using memo(1) cell_less [OF adm valid] by (simp_all add: memo_ok_def)
  have "memo ! ?i \<noteq> 1" using memo(2) i len by (auto simp: visiting_def)
  then consider "memo ! ?i = 0" | "memo ! ?i = genc (ends h ast start)"
    using memo_ok_entry [OF memo(1) valid path] by auto
  then show ?thesis
  proof cases
    case 1
    let ?a = "acc\<lparr>guarded_peak_frames := max (guarded_peak_frames acc) 1\<rparr>"
    have push: "guard_push adm root [] acc = Inr ([frame_at root 0], ?a)"
      using i by (simp add: guard_push_def Let_def)
    have a: "acc_ok ?a" "potential memo ?a = potential memo acc" using acc by (simp_all add: acc_ok_def potential_def)
    have "solved (out_of_work (gr_limits r) (potential memo ?a)) r h adm memo [frame_at root 0] ?a []
        (\<lambda>memo' acc'. gained r h adm memo ?a memo' acc' \<and> memo' ! ?i = genc (ends h ast start) \<and>
          potential memo' acc' < potential memo ?a)"
      using gpaths_solvable [OF adm path] valid memo(1) 1 clear_start [OF adm len memo(2)] a(1)
      unfolding solvable_def by simp
    then have "safe ?E (guard_loop r h adm memo [frame_at root 0] ?a) (\<lambda>(memo', acc'). gained r h adm memo ?a memo' acc' \<and>
        memo' ! ?i = genc (ends h ast start) \<and> potential memo' acc' < potential memo acc)"
      unfolding a(2) by (auto simp: solved_def guard_loop.simps(1))
    then have "safe ?E (rbind (guard_loop r h adm memo [frame_at root 0] ?a) (\<lambda>(memo, acc). rbind (vget memo ?i) (\<lambda>v.
        rbind (decode_end v) (\<lambda>selected. Inr (selected, (memo, []), acc)))))
        (\<lambda>(selected, st', acc'). selected = lab_sel ast h start \<and> solver_ok r h adm st' \<and> acc_ok acc' \<and>
          output_work acc' = output_work acc \<and> potential (fst st') acc' \<le> potential memo acc)"
    proof (rule safe_bind)
      fix x assume x: "case x of (memo', acc') \<Rightarrow> gained r h adm memo ?a memo' acc' \<and>
        memo' ! ?i = genc (ends h ast start) \<and> potential memo' acc' < potential memo acc"
      obtain memo' acc' where x': "x = (memo', acc')" by (cases x)
      have g: "gained r h adm memo ?a memo' acc'" "?i < length memo'" "visiting memo' = {}"
        using x x' i len memo(2) learns_visiting [of memo memo'] by (auto simp: gained_def memo_ok_def)
      then show "safe ?E (case x of (memo, acc) \<Rightarrow> rbind (vget memo ?i) (\<lambda>v.
          rbind (decode_end v) (\<lambda>selected. Inr (selected, (memo, []), acc))))
          (\<lambda>(selected, st', acc'). selected = lab_sel ast h start \<and> solver_ok r h adm st' \<and> acc_ok acc' \<and>
            output_work acc' = output_work acc \<and> potential (fst st') acc' \<le> potential memo acc)"
        using x by (simp add: x' decode_genc lab_sel_def solver_ok_def gained_def)
    qed
    then show ?thesis
      using i len 1 by (simp add: guard_solve_def stm Let_def root_def [symmetric] index_ok [OF adm valid] push)
  next
    case 2
    then show ?thesis
      using i len memo acc
      by (simp add: guard_solve_def stm Let_def root_def [symmetric] index_ok [OF adm valid] guard_loop.simps(1)
          decode_genc lab_sel_def solver_ok_def genc_known(1))
  qed
qed

end
