(* ===== verification/LabGuardAgree.thy ===== *)
theory LabGuardAgree
  imports LabGuardSolve LabAgree
begin

text \<open>
  The guarded-state executor of \<^verbatim>\<open>guarded.rs\<close>, from an AST to its report. Its searches share the
  memo table, so their cost is not bounded search by search: the locale \<open>paying_source\<close> states what
  such a closure promises of the shared iteration, with a potential for the work still unpaid.
\<close>

section \<open>Iteration over a source with a potential\<close>

text \<open>The errors of a run that needs \<open>w\<close> units of work and \<open>m\<close> matches of output.\<close>

definition starved :: "compile_limits \<Rightarrow> nat \<Rightarrow> nat \<Rightarrow> lab_error \<Rightarrow> bool" where
  "starved l w m e = (resource_error e \<and> \<not> (w \<le> max_work l \<and> max_work l \<le> usize_max
     \<and> m \<le> max_output_matches l \<and> m * size_of_span \<le> usize_max))"

lemma out_of_work_starved: "out_of_work l w e \<Longrightarrow> w \<le> w' \<Longrightarrow> starved l w' m e"
  by (auto simp: out_of_work_def starved_def)

lemma starved_mono: "starved l w m e \<Longrightarrow> w \<le> w' \<Longrightarrow> m \<le> m' \<Longrightarrow> starved l w' m' e"
  unfolding starved_def by (meson mult_le_mono1 order_trans)

lemma emit_starved:
  assumes "acc_ok acc" "Suc (output_work acc) \<le> m"
  shows "safe (starved l w m) (emit acc (max_output_matches l)) (\<lambda>acc'. acc_ok acc' \<and>
    total_work acc' = total_work acc \<and> output_work acc' = Suc (output_work acc))"
proof (cases "Suc (output_work acc) \<le> max_output_matches l \<and> Suc (output_work acc) * size_of_span \<le> usize_max")
  case True
  obtain acc' where "emit acc (max_output_matches l) = Inr acc'" "acc_ok acc'" "total_work acc' = total_work acc"
    "output_work acc' = Suc (output_work acc)"
    by (rule emit_fits [OF assms(1) conjunct1 [OF True] conjunct2 [OF True]])
  then show ?thesis by simp
next
  case False
  have "\<not> (m \<le> max_output_matches l \<and> m * size_of_span \<le> usize_max)"
    using False assms(2) by (meson mult_le_mono1 order_trans)
  then have "starved l w m = resource_error" by (auto simp: starved_def)
  then show ?thesis using assms(1) False by (auto simp: emit_def acc_ok_def)
qed

text \<open>How many starts the inner loop probes from \<open>cursor\<close>.\<close>

definition probes :: "nat \<Rightarrow> (nat \<Rightarrow> nat option) \<Rightarrow> nat \<Rightarrow> nat" where
  "probes n spec cursor = (case next_match n spec cursor of None \<Rightarrow> n + 1 - cursor | Some (s, _) \<Rightarrow> s + 1 - cursor)"

locale paying_source = selector n spec for n :: nat and spec :: "nat \<Rightarrow> nat option" +
  fixes l :: compile_limits
    and sel :: "'st selector_fun"
    and inv :: "'st \<Rightarrow> bool" and unpaid :: "'st \<Rightarrow> nat"
  assumes n_fits: "inv st \<Longrightarrow> n < usize_max"
    and sel_ok: "p \<le> n \<Longrightarrow> inv st \<Longrightarrow> acc_ok acc \<Longrightarrow>
      safe (out_of_work l (total_work acc + unpaid st)) (sel p (st, acc)) (\<lambda>(selected, st', acc').
        selected = spec p \<and> inv st' \<and> acc_ok acc' \<and> output_work acc' = output_work acc \<and>
        total_work acc' + unpaid st' \<le> total_work acc + unpaid st)"
begin

definition kept :: "nat \<Rightarrow> nat \<Rightarrow> nat \<Rightarrow> 'st run_state \<Rightarrow> bool" where
  "kept w k m rs = (case rs of (st, acc) \<Rightarrow> inv st \<and> acc_ok acc \<and> output_work acc = m \<and> total_work acc + unpaid st + k \<le> w)"

lemma probe_starts_kept:
  assumes "kept w (probes n spec cursor + k) m rs"
  shows "safe (out_of_work l w) (probe_starts l sel [cursor..<n + 1] rs)
    (\<lambda>(found, rs'). found = next_match n spec cursor \<and> kept w k m rs')"
  using assms
proof (induction "n + 1 - cursor" arbitrary: cursor rs)
  case 0
  then show ?case by (cases rs) (simp add: next_match_step [of n spec cursor] probes_def)
next
  case (Suc d)
  then have c: "cursor \<le> n" by simp
  have upt: "[cursor..<n + 1] = cursor # [cursor + 1..<n + 1]" using c by (simp add: upt_conv_Cons)
  obtain st acc where rs: "rs = (st, acc)" and inv: "inv st" and acc: "acc_ok acc" "output_work acc = m"
    and w: "total_work acc + unpaid st + (probes n spec cursor + k) \<le> w"
    using Suc.prems by (cases rs) (auto simp: kept_def)
  have probed: "probes n spec cursor = Suc (case spec cursor of None \<Rightarrow> probes n spec (Suc cursor) | Some e \<Rightarrow> 0)"
    using c by (auto simp: probes_def next_match_step [of n spec cursor] split: option.splits dest!: next_match_bounds)
  have "safe (out_of_work l w) (charge_root acc (max_work l)) (one_more acc)"
    by (rule charge_out_of_work [OF acc(1)]) (use w probed in simp)
  then show ?case
    unfolding upt rs probe_starts.simps
  proof (rule safe_bind)
    fix acc1 assume more: "one_more acc acc1"
    then have acc1: "acc_ok acc1" "total_work acc1 = Suc (total_work acc)" "output_work acc1 = m"
      using acc(2) by (auto simp: one_more_def)
    show "safe (out_of_work l w) (rbind (sel cursor (st, acc1)) (\<lambda>(selected, rs).
        case selected of Some e \<Rightarrow> Inr (Some (cursor, e), rs) | None \<Rightarrow> probe_starts l sel [cursor + 1..<n + 1] rs))
        (\<lambda>(found, rs'). found = next_match n spec cursor \<and> kept w k m rs')"
    proof (rule safe_bind [OF safe_weaken [OF sel_ok [OF c inv acc1(1)]]])
      fix x assume "case x of (selected, st', acc') \<Rightarrow> selected = spec cursor \<and> inv st' \<and> acc_ok acc' \<and>
        output_work acc' = output_work acc1 \<and> total_work acc' + unpaid st' \<le> total_work acc1 + unpaid st"
      then obtain st' acc' where x: "x = (spec cursor, st', acc')" and inv': "inv st'" "acc_ok acc'" "output_work acc' = m"
        "total_work acc' + unpaid st' \<le> Suc (total_work acc) + unpaid st"
        using acc1 by (cases x) auto
      show "safe (out_of_work l w) (case x of (selected, rs) \<Rightarrow>
          case selected of Some e \<Rightarrow> Inr (Some (cursor, e), rs) | None \<Rightarrow> probe_starts l sel [cursor + 1..<n + 1] rs)
          (\<lambda>(found, rs'). found = next_match n spec cursor \<and> kept w k m rs')"
      proof (cases "spec cursor")
        case None
        then have "kept w (probes n spec (Suc cursor) + k) m (st', acc')" using inv' w probed by (simp add: kept_def)
        then have "safe (out_of_work l w) (probe_starts l sel [Suc cursor..<n + 1] (st', acc'))
            (\<lambda>(found, rs'). found = next_match n spec (Suc cursor) \<and> kept w k m rs')"
          using Suc.hyps(2) by (intro Suc.hyps(1)) simp_all
        then show ?thesis using None c by (simp add: x next_match_step [of n spec cursor] del: upt_Suc)
      next
        case (Some e)
        then show ?thesis using inv' w probed c by (simp add: x next_match_step [of n spec cursor] kept_def)
      qed
    next
      fix e assume "out_of_work l (total_work acc1 + unpaid st) e"
      then show "out_of_work l w e" using w probed acc1(2) by (auto elim: out_of_work_mono)
    qed
  qed
qed

lemma iterate_loop_kept:
  assumes "kept w (budget n cursor prev) m rs" "mo = m + length (iter_seq n spec cursor prev)"
  shows "returns (starved l w mo) (iterate_loop n l Inr sel cursor prev ms rs)
    (\<lambda>(ms', rs'). ms' = ms @ iter_seq n spec cursor prev \<and> kept w 0 mo rs')"
  using assms
proof (induction "budget n cursor prev" arbitrary: cursor prev ms m rs rule: less_induct)
  case less
  have fits: "n < usize_max" using less.prems(1) n_fits by (auto simp: kept_def)
  note loop = iterate_loop.simps [of n l Inr sel cursor prev ms rs]
  show ?case
  proof (cases "cursor \<le> n")
    case False
    then have "iter_seq n spec cursor prev = []" by (cases rule: iter_cases [of cursor prev]) auto
    with False less.prems show ?thesis by (auto simp: loop returns_def kept_def split: prod.splits)
  next
    case True
    define k where "k = budget n cursor prev - probes n spec cursor"
    have "probes n spec cursor \<le> budget n cursor prev"
      using budget_pos [OF True, of prev]
      by (auto simp: probes_def split: option.splits dest!: next_match_bounds)
    then have "kept w (probes n spec cursor + k) m rs" using less.prems(1) by (simp add: k_def)
    note found = probe_starts_kept [OF this]
    show ?thesis
    proof (cases "probe_starts l sel [cursor..<n + 1] rs")
      case (Inl e)
      have "starved l w mo e" using found Inl out_of_work_starved [of l w e w mo] by (simp del: upt_Suc)
      then show ?thesis using Inl True by (simp add: loop returns_def del: upt_Suc)
    next
      case (Inr x)
      then obtain st acc where x: "x = (next_match n spec cursor, st, acc)" and kept: "kept w k m (st, acc)"
        using found by (cases x) (auto simp del: upt_Suc)
      show ?thesis
      proof (cases rule: iter_cases [of cursor prev])
        case none
        then show ?thesis using Inr x kept True less.prems(2) by (auto simp: loop returns_def kept_def simp del: upt_Suc)
      next
        case (skip s)
        have "probes n spec cursor + budget n (Suc s) prev \<le> budget n cursor prev"
          using budget_skip skip by (simp add: probes_def)
        then have k: "kept w (budget n (Suc s) prev) m (st, acc)" and lt: "budget n (Suc s) prev < budget n cursor prev"
          using kept skip by (auto simp: k_def kept_def probes_def)
        have "iterate_loop n l Inr sel cursor prev ms rs = iterate_loop n l Inr sel (Suc s) prev ms (st, acc)"
          using Inr x skip True fits by (simp add: iterate_loop.simps [of n l Inr sel cursor] uadd_def del: upt_Suc)
        then show ?thesis using less.hyps [OF lt k] less.prems(2) skip(6) by simp
      next
        case (emit s e)
        let ?rest = "iter_seq n spec (if s = e then Suc s else e) (Some e)"
        have rest: "iter_seq n spec e (Some e) = ?rest"
          using emit(6) iter_seq_unfold [of e "Some e"] next_match_step [of n spec e] emit(5)
          by (cases "s = e") auto
        have "probes n spec cursor + budget n e (Some e) \<le> budget n cursor prev"
          using budget_emit [OF emit(3-5,2)] emit(1) by (simp add: probes_def)
        then have k: "kept w (budget n e (Some e)) m (st, acc)" and lt: "budget n e (Some e) < budget n cursor prev"
          using kept emit(1,3) by (auto simp: k_def kept_def probes_def)
        have mo: "mo = Suc m + length (iter_seq n spec e (Some e))" using less.prems(2) emit(7) rest by simp
        have ok: "acc_ok acc" "output_work acc = m" using kept by (auto simp: kept_def)
        have step: "iterate_loop n l Inr sel cursor prev ms rs = then_run (emit acc (max_output_matches l))
            (\<lambda>acc. iterate_loop n l Inr sel e (Some e) (ms @ [(s, e)]) (st, acc))"
          using Inr x emit(1,2) True by (auto simp: loop then_run_def split: sum.split simp del: upt_Suc)
        show ?thesis
          unfolding step returns_then_run
        proof (rule safe_mono [OF emit_starved [OF ok(1)]])
          show "Suc (output_work acc) \<le> mo" using mo ok(2) by simp
          fix acc1 assume "acc_ok acc1 \<and> total_work acc1 = total_work acc \<and> output_work acc1 = Suc (output_work acc)"
          then have "kept w (budget n e (Some e)) (Suc m) (st, acc1)" using k ok(2) by (simp add: kept_def)
          from less.hyps [OF lt this mo, of "ms @ [(s, e)]"]
          show "returns (starved l w mo) (iterate_loop n l Inr sel e (Some e) (ms @ [(s, e)]) (st, acc1))
              (\<lambda>(ms', rs'). ms' = ms @ iter_seq n spec cursor prev \<and> kept w 0 mo rs')"
            by (simp add: emit(7) rest)
        qed
      qed
    qed
  qed
qed

end

section \<open>The executor\<close>

definition guard_ready :: "lab_ast \<Rightarrow> guarded_regex \<Rightarrow> bytes \<Rightarrow> guard_admission \<Rightarrow> nat \<Rightarrow> guard_state \<Rightarrow> bool" where
  "guard_ready ast r h adm code st = (guard_admitted r h adm \<and> guard_means r ast \<and> code < ga_guard_space adm \<and> solver_ok r h adm st)"

interpretation guarded: paying_source "length h" "lab_sel ast h" "gr_limits r" "guard_solve r h adm code"
  "guard_ready ast r h adm code" "\<lambda>st. 4 * card (unknown (fst st))" for ast h r adm code
proof unfold_locales
  show "length h < usize_max" if "guard_ready ast r h adm code st" for st
    using that cells_fit [of r h adm] by (auto simp: guard_ready_def)
next
  fix p st acc assume "p \<le> length h" "guard_ready ast r h adm code st" "acc_ok acc"
  with solve_ok [of r h adm ast p code st acc]
  show "safe (out_of_work (gr_limits r) (total_work acc + 4 * card (unknown (fst st)))) (guard_solve r h adm code p (st, acc))
      (\<lambda>(selected, st', acc'). selected = lab_sel ast h p \<and> guard_ready ast r h adm code st' \<and> acc_ok acc' \<and>
        output_work acc' = output_work acc \<and>
        total_work acc' + 4 * card (unknown (fst st')) \<le> total_work acc + 4 * card (unknown (fst st)))"
    by (auto simp: guard_ready_def potential_def elim!: safe_mono)
qed

definition guard_cells :: "guarded_regex \<Rightarrow> bytes \<Rightarrow> nat" where
  "guard_cells r h = length (gr_insts r) * Suc (length h) * (length h + 2) ^ gr_guard_count r"

lemma checked_pow_safe: "safe resource_error (checked_pow b e k) (\<lambda>x. x = b ^ e)"
proof (induction e)
  case 0
  then show ?case by (simp add: checked_pow_def)
next
  case (Suc e)
  have "checked_pow b (Suc e) k = rbind (checked_pow b e k) (\<lambda>x. rbind (checked_mul x b k) Inr)"
    by (cases "rfold (\<lambda>_ result. checked_mul result b k) [0..<e] 1") (auto simp: checked_pow_def rfold_append rbind_def split: sum.split)
  then show ?case using Suc by (auto simp: mult.commute elim!: safe_mono)
qed

lemma guard_admit_safe:
  assumes "guard_means r ast"
  shows "safe resource_error (guard_admit r h) (\<lambda>adm. guard_admitted r h adm \<and> ga_cells adm = guard_cells r h)"
  unfolding guard_admit_def using assms
  by (auto simp: guard_admitted_def guard_means_def guard_cells_def intro!: safe_mono [OF checked_pow_safe])

lemma unknown_start: "card (unknown (replicate k 0)) = k"
  by (simp add: unknown_def cong: conj_cong)

lemma guarded_run:
  assumes adm: "guard_admitted r h adm" and means: "guard_means r ast" and code: "code < ga_guard_space adm"
    and acc: "acc_ok acc" "total_work acc = 0" "output_work acc = 0"
  shows "returns (starved (gr_limits r) (4 * ga_cells adm + 2 * Suc (length h)) (length (lab_spans ast h)))
    (report (collect_sequence (length h) (gr_limits r) (guard_solve r h adm code) ((replicate (ga_cells adm) 0, []), acc)))
    (\<lambda>rep. rep_matches rep = lab_spans ast h \<and> total_work (rep_accounting rep) \<le> 4 * ga_cells adm + 2 * Suc (length h))"
proof -
  let ?w = "4 * ga_cells adm + 2 * Suc (length h)" and ?m = "length (lab_spans ast h)"
  let ?rs = "((replicate (ga_cells adm) 0, []), acc)"
  have "guarded.kept ast r h adm code ?w (budget (length h) 0 None) 0 ?rs"
    using adm means code acc solver_starts [OF adm]
    by (simp add: guarded.kept_def guard_ready_def unknown_start budget_start)
  from guarded.iterate_loop_kept [OF this, of ?m "[]"]
  have "returns (starved (gr_limits r) ?w ?m) (iterate_loop (length h) (gr_limits r) Inr (guard_solve r h adm code) 0 None [] ?rs)
      (\<lambda>(ms, rs). ms = lab_spans ast h \<and> guarded.kept ast r h adm code ?w 0 ?m rs)"
    by simp
  then show ?thesis
    unfolding collect_sequence_def returns_def report_def
    by (auto split: option.splits elim!: safe_mono simp: guarded.kept_def)
qed

lemma guarded_start:
  fixes reserved :: nat
  assumes "guard_admitted r h adm" "guard_means r ast"
  defines "acc \<equiv> accounting_default\<lparr>program_states := length (gr_insts r), boundaries_count := ga_boundaries adm,
    table_builds := 1, table_cells := ga_cells adm, guarded_configurations := ga_cells adm,
    random_access_peak_bytes := ga_random_bytes adm, output_reserved_bytes := reserved\<rparr>"
  shows "ok_or (usub (ga_guard_space adm) 1) SameBoundaryCycle = Inr (ga_guard_space adm - 1)"
    "returns (starved (gr_limits r) (4 * ga_cells adm + 2 * Suc (length h)) (length (lab_spans ast h)))
      (report (collect_sequence (length h) (gr_limits r) (guard_solve r h adm (ga_guard_space adm - 1)) ((replicate (ga_cells adm) 0, []), acc)))
      (\<lambda>rep. rep_matches rep = lab_spans ast h \<and> total_work (rep_accounting rep) \<le> 4 * ga_cells adm + 2 * Suc (length h))"
proof -
  have space: "0 < ga_guard_space adm" using assms(1) by (simp add: guard_admitted_def)
  then show "ok_or (usub (ga_guard_space adm) 1) SameBoundaryCycle = Inr (ga_guard_space adm - 1)"
    by (simp add: usub_def ok_or_def)
  show "returns (starved (gr_limits r) (4 * ga_cells adm + 2 * Suc (length h)) (length (lab_spans ast h)))
      (report (collect_sequence (length h) (gr_limits r) (guard_solve r h adm (ga_guard_space adm - 1)) ((replicate (ga_cells adm) 0, []), acc)))
      (\<lambda>rep. rep_matches rep = lab_spans ast h \<and> total_work (rep_accounting rep) \<le> 4 * ga_cells adm + 2 * Suc (length h))"
    by (rule guarded_run [OF assms(1,2)]) (use space in \<open>simp_all add: acc_def acc_ok_def accounting_default_def\<close>)
qed

lemma guarded_outcome:
  assumes "guard_means r ast"
  shows "returns resource_error (find_all_guarded_dp al r h) (\<lambda>rep. rep_matches rep = lab_spans ast h \<and>
    total_work (rep_accounting rep) \<le> 4 * guard_cells r h + 2 * Suc (length h))"
proof -
  have "returns resource_error res Q" if "returns (starved l w m) res Q" for l w m Q and res :: "(lab_error + run_report) option"
    using that by (cases res) (auto simp: returns_def starved_def elim: safe_weaken)
  note weaker = this [OF guarded_start(2) [OF _ assms]]
  show ?thesis
    unfolding find_all_guarded_dp_def returns_then_run
  proof (rule safe_mono [OF guard_admit_safe [OF assms]], elim conjE)
    fix adm assume adm: "guard_admitted r h adm" "ga_cells adm = guard_cells r h"
    note run = weaker [OF adm(1)]
    show "safe resource_error (reserve_output al (ga_boundaries adm) (gr_limits r)) (\<lambda>output_reserved.
        safe resource_error (try_reserve al GuardedBytes (ga_cells adm)) (\<lambda>_.
        safe resource_error (try_reserve al GuardedBytes (ga_cells adm)) (\<lambda>_.
        safe resource_error (ok_or (usub (ga_guard_space adm) 1) SameBoundaryCycle) (\<lambda>code.
        returns resource_error (report (collect_sequence (length h) (gr_limits r) (guard_solve r h adm code)
          ((replicate (ga_cells adm) 0, []), accounting_default\<lparr>program_states := length (gr_insts r),
          boundaries_count := ga_boundaries adm, table_builds := 1, table_cells := ga_cells adm,
          guarded_configurations := ga_cells adm, random_access_peak_bytes := ga_random_bytes adm,
          output_reserved_bytes := output_reserved\<rparr>)))
        (\<lambda>rep. rep_matches rep = lab_spans ast h \<and> total_work (rep_accounting rep) \<le> 4 * guard_cells r h + 2 * Suc (length h))))))"
      unfolding guarded_start(1) [OF adm(1) assms] adm(2) [symmetric] using run by (simp add: Let_def)
  qed
qed

text \<open>With the work the potential asks for, an admitted run answers.\<close>

lemma guarded_success:
  assumes means: "guard_means r ast" and mw: "max_work (gr_limits r) \<le> usize_max"
    and admit: "guard_admit r h = Inr adm" and reserve: "reserve_output al (ga_boundaries adm) (gr_limits r) = Inr b"
    and al: "al GuardedBytes (ga_cells adm)" and matches: "length (lab_spans ast h) \<le> max_output_matches (gr_limits r)"
    and work: "4 * ga_cells adm + 2 * ga_boundaries adm \<le> max_work (gr_limits r)"
  shows "succeeds (find_all_guarded_dp al r h) (\<lambda>rep. rep_matches rep = lab_spans ast h)"
proof -
  have adm: "guard_admitted r h adm" using guard_admit_safe [OF means, of h] admit by simp
  then have B: "ga_boundaries adm = Suc (length h)" by (simp add: guard_admitted_def)
  have len: "length (lab_spans ast h) \<le> ga_boundaries adm" using lab.iter_seq_length [of h ast] B by simp
  have "min (ga_boundaries adm) (max_output_matches (gr_limits r)) * size_of_span \<le> usize_max"
    using reserve by (auto simp: reserve_output_def Let_def checked_mul_def umul_def split: if_splits elim!: rbindE)
  moreover have "length (lab_spans ast h) \<le> min (ga_boundaries adm) (max_output_matches (gr_limits r))"
    using len matches by simp
  ultimately have bytes: "length (lab_spans ast h) * size_of_span \<le> usize_max" by (meson mult_le_mono1 order_trans)
  have "\<not> starved (gr_limits r) (4 * ga_cells adm + 2 * Suc (length h)) (length (lab_spans ast h)) e" for e
    using work mw matches len bytes unfolding starved_def B by auto
  then have "succeeds res Q" if "returns (starved (gr_limits r) (4 * ga_cells adm + 2 * Suc (length h)) (length (lab_spans ast h))) res Q"
    for Q and res :: "(lab_error + run_report) option"
    using that by (auto simp: returns_def succeeds_def safe_def runs_def split: option.splits sum.splits)
  note run = this [OF guarded_start(2) [OF adm means, of b]]
  have run_then: "succeeds res (\<lambda>rep. P rep \<and> R rep) \<Longrightarrow> succeeds res P" for P R and res :: "(lab_error + run_report) option"
    by (auto simp: succeeds_def runs_def split: option.splits sum.splits)
  have "0 < ga_guard_space adm" using adm by (simp add: guard_admitted_def)
  then show ?thesis
    using run_then [OF run] al
    by (simp add: find_all_guarded_dp_def then_run_def admit reserve try_reserve_def usub_def ok_or_def Suc_le_eq)
qed

end
