(* ===== verification/LabGuardReport.thy ===== *)
theory LabGuardReport
  imports LabGuardAgree
begin

text \<open>
  The properties of the guarded-state executor of \<^verbatim>\<open>guarded.rs\<close>, with \<^verbatim>\<open>a+|b\<close> as their witness, and
  the regex on which its preflight admits less work than the run charges.
\<close>

section \<open>A sample program\<close>

definition sample_guarded :: guarded_regex where
  "sample_guarded = \<lparr>gr_insts = [GMatch, GByte (Some 98) 0, GSplit 5 0, GCheckProgress 0 2 0, GByte (Some 97) 3,
       GSaveProgress 0 4, GByte (Some 97) 2, GSplit 6 1],
     gr_entry = 7, gr_guard_count = 1, gr_limits = compile_limits_default\<rparr>"

lemmas guard_eval = guarded_new_def validate_ast_def validate_ast_loop.simps gb_push_def new_guard_def guard_choice_def
  guard_add_choice_def guard_ordered_def guard_star_def guard_general_star_def guard_atom_star_def guard_optional_def
  guard_copy_def guard_repetition_def enforce_def uadd_def umul_def usub_def usize_max_def checked_add_def
  checked_mul_def try_reserve_def vget_def vset_def Let_def

lemma sample_guarded_compiles: "guarded_new alloc_all sample_lab compile_limits_default = Inr sample_guarded"
  by (simp add: guard_eval sample_lab_def sample_guarded_def compile_limits_default_def)

definition sample_admission :: guard_admission where
  "sample_admission = \<lparr>ga_boundaries = 4, ga_radix = 5, ga_guard_space = 5, ga_cells = 160, ga_random_bytes = 6400\<rparr>"

lemma sample_guard_admitted: "guard_admit sample_guarded [97, 97, 98] = Inr sample_admission"
  by (simp add: guard_admit_def guard_eval checked_pow_def sample_guarded_def sample_admission_def
      compile_limits_default_def size_of_usize_def size_of_guard_frame_def)

section \<open>Compilation\<close>

text \<open>
  C16: The guarded program that \<^verbatim>\<open>GuardedRegex::new\<close> builds computes the ordered semantics of the AST:
  from its entry, at every boundary and whatever the registers hold, it reaches exactly the ends of
  the AST, in priority order, and no path is infinite, although its unbounded repetitions are
  cycles. Compilation fails only by refusing the AST, by a limit or by the allocator.
\<close>

theorem guarded_compile_correct:
  assumes "p \<le> length h"
  shows "safe refusal (guarded_new al ast l) (\<lambda>r. gpaths (gr_insts r) h (gr_entry r, p, \<sigma>) (ends h ast p))"
  by (rule safe_mono [OF guarded_new_outcome]) (use assms in \<open>simp add: guard_means_def\<close>)

theorem guarded_compile_correct_witness: "gpaths (gr_insts sample_guarded) [97, 97] (7, 0, \<lambda>_. 3) [2, 1]"
proof -
  have "ends [97, 97] sample_lab 0 = [2, 1]"
    by (simp add: sample_lab_def consume_def star_ends.simps Let_def numeral_2_eq_2)
  with guarded_compile_correct [of 0 "[97, 97]" alloc_all sample_lab compile_limits_default "\<lambda>_. 3"] show ?thesis
    by (simp add: sample_guarded_compiles) (simp add: sample_guarded_def)
qed

section \<open>Execution\<close>

text \<open>
  C15: The guarded-state executor returns on every input: its depth-first solver terminates, never
  meets a configuration that is being visited, and never leaves its table. Unless a limit or the
  allocator stops it, it reports exactly the abstract match sequence, and it charges at most four
  units of work for each configuration and two for each boundary.
\<close>

theorem guarded_correct:
  assumes "guarded_new al ast l = Inr r"
  shows "returns resource_error (find_all_guarded_dp al' r h) (\<lambda>rep. rep_matches rep = lab_spans ast h \<and>
    total_work (rep_accounting rep) \<le> 4 * guard_cells r h + 2 * Suc (length h))"
  by (rule guarded_outcome) (use guarded_new_outcome [of al ast l] assms in simp)

theorem guarded_correct_witness:
  "returns resource_error (find_all_guarded_dp alloc_all sample_guarded [97, 97, 98])
    (\<lambda>rep. rep_matches rep = [(0, 2), (2, 3)] \<and> total_work (rep_accounting rep) \<le> 648)"
proof -
  have "guard_cells sample_guarded [97, 97, 98] = 160" by (simp add: guard_cells_def sample_guarded_def)
  with guarded_correct [OF sample_guarded_compiles, of alloc_all "[97, 97, 98]", unfolded sample_spans] show ?thesis by simp
qed

text \<open>
  C17: An admitted run of the guarded-state executor answers: when the work limit covers four units
  for each configuration and two for each boundary, the output has been reserved, the allocator serves
  the memo table and the sequence fits the output-match limit, it succeeds with the abstract sequence.
\<close>

theorem guarded_answers:
  assumes "guarded_new al ast l = Inr r" "max_work l \<le> usize_max" "guard_admit r h = Inr adm"
    and "reserve_output al' (ga_boundaries adm) l = Inr b" "al' GuardedBytes (ga_cells adm)"
    and "length (lab_spans ast h) \<le> max_output_matches l" "4 * ga_cells adm + 2 * ga_boundaries adm \<le> max_work l"
  shows "\<exists>rep. find_all_guarded_dp al' r h = Some (Inr rep) \<and> rep_matches rep = lab_spans ast h"
  using guarded_success [of r ast h adm al' b] guarded_new_outcome [of al ast l] assms
  by (auto simp: succeeds_def runs_iff split: option.splits)

theorem guarded_answers_witness:
  "\<exists>rep. find_all_guarded_dp alloc_all sample_guarded [97, 97, 98] = Some (Inr rep) \<and> rep_matches rep = [(0, 2), (2, 3)]"
  by (rule guarded_answers [OF sample_guarded_compiles sample_limits sample_guard_admitted, unfolded sample_spans, of alloc_all 64])
    (use sample_admitted(2) in \<open>simp_all add: sample_admission_def compile_limits_default_def\<close>)

section \<open>The preflight\<close>

text \<open>\<^verbatim>\<open>(?:|||||||)a\<close>: every alternative leads to the same state, which is examined once from each split.\<close>

definition wide_lab :: lab_ast where
  "wide_lab = LConcat [LAlt [LEmpty, LEmpty, LEmpty, LEmpty, LEmpty, LEmpty, LEmpty, LEmpty], LByte 97]"

definition tight_limits :: compile_limits where
  "tight_limits = compile_limits_default\<lparr>max_work := 29\<rparr>"

definition wide_guarded :: guarded_regex where
  "wide_guarded = \<lparr>gr_insts = [GMatch, GByte (Some 97) 0, GSplit 1 1, GSplit 1 2, GSplit 1 3, GSplit 1 4, GSplit 1 5,
       GSplit 1 6, GSplit 1 7],
     gr_entry = 8, gr_guard_count = 0, gr_limits = tight_limits\<rparr>"

definition wide_admission :: guard_admission where
  "wide_admission = \<lparr>ga_boundaries = 1, ga_radix = 2, ga_guard_space = 1, ga_cells = 9, ga_random_bytes = 360\<rparr>"

lemma wide_compiles: "guarded_new alloc_all wide_lab tight_limits = Inr wide_guarded"
  by (simp add: guard_eval wide_lab_def wide_guarded_def tight_limits_def compile_limits_default_def)

lemma wide_admitted: "guard_admit wide_guarded [] = Inr wide_admission"
  by (simp add: guard_admit_def guard_eval checked_pow_def wide_guarded_def wide_admission_def tight_limits_def
      compile_limits_default_def size_of_usize_def size_of_guard_frame_def)

lemmas solver_eval = guard_loop.simps guard_turn_def guard_visit_def guard_follow_def guard_child_def guard_push_def
  guard_shape_def guard_index_def charge_state_def charge_transition_def charge_total_def checked_add_def
  checked_mul_def uadd_def umul_def usize_max_def vget_def Let_def

lemma update_numeral: "(x # xs)[numeral v := y] = x # xs[pred_numeral v := y]"
  by (simp add: numeral_eq_Suc)

text \<open>
  C18: The work preflight of the guarded-state executor, three units for each configuration and two
  for each boundary, is not a bound on the work of the run: \<^verbatim>\<open>(?:|||||||)a\<close> on the empty haystack is
  admitted with a limit of exactly the 29 units computed for it, every reservation succeeds, and the
  run stops on its thirtieth unit instead of reporting that there is no match.
\<close>

theorem guarded_preflight_short:
  "guarded_new alloc_all wide_lab tight_limits = Inr wide_guarded \<and> guard_admit wide_guarded [] = Inr wide_admission \<and>
   lab_spans wide_lab [] = [] \<and> max_work tight_limits = 3 * ga_cells wide_admission + 2 * ga_boundaries wide_admission \<and>
   find_all_guarded_dp alloc_all wide_guarded [] = Some (Inl (ResourceLimit Work 30 29))"
proof (intro conjI)
  show "find_all_guarded_dp alloc_all wide_guarded [] = Some (Inl (ResourceLimit Work 30 29))"
    unfolding find_all_guarded_dp_def wide_admitted
    by (simp add: then_run_def reserve_output_def enforce_def size_of_span_def report_def collect_sequence_def iterate_loop.simps guard_solve_def solver_eval
        wide_guarded_def wide_admission_def tight_limits_def compile_limits_default_def accounting_default_def
        try_reserve_def ok_or_def usub_def charge_root_def update_numeral)
  show "lab_spans wide_lab [] = []"
  proof -
    have "lab_sel wide_lab [] 0 = None" by (simp add: lab_sel_def wide_lab_def consume_def)
    then have "next_match 0 (lab_sel wide_lab []) 0 = None"
      by (simp add: next_match_step [of 0 _ 0] next_match_step [of 0 _ "Suc 0"])
    then show ?thesis using lab.iter_seq_unfold [of "[]" wide_lab 0 None] by simp
  qed
  show "guard_admit wide_guarded [] = Inr wide_admission" by (rule wide_admitted)
  show "guarded_new alloc_all wide_lab tight_limits = Inr wide_guarded" by (rule wide_compiles)
qed (simp add: tight_limits_def wide_admission_def)

end
