(* ===== verification/KirBase.thy ===== *)
theory KirBase
  imports FrePrelude
begin

text \<open>
  The data of \<^verbatim>\<open>crates/fre-kernel-ir\<close>: the interchange form of a kernel (\<^verbatim>\<open>ir.rs\<close>), its output
  contracts and search windows (\<^verbatim>\<open>contract.rs\<close>), and its errors (\<^verbatim>\<open>error.rs\<close>). Versions, ids
  and class lanes are words of their width. An array \<^verbatim>\<open>[u64; 4]\<close> is a constructor of four words,
  and \<^verbatim>\<open>Block\<close>, a struct with the one field \<^verbatim>\<open>op\<close>, is that operation.
  A Rust panic (an index out of range, a failed \<^verbatim>\<open>expect\<close>) is the extra error \<open>ExecPanic\<close> or
  \<open>ValidatePanic\<close>; the theorems show that it is not reached.
\<close>

type_synonym u16w = "16 word"
type_synonym u32w = "32 word"

unbundle bit_operations_syntax

section \<open>Byte classes\<close>

datatype byte_class = ByteClass u64w u64w u64w u64w

fun lanes :: "byte_class \<Rightarrow> u64w list" where
  "lanes (ByteClass a b c d) = [a, b, c, d]"

definition class_empty :: byte_class where
  "class_empty = ByteClass 0 0 0 0"

definition byte_lane :: "u8 \<Rightarrow> nat" where
  "byte_lane byte = unat (byte div 64)"

definition byte_bit :: "u8 \<Rightarrow> nat" where
  "byte_bit byte = unat (byte mod 64)"

text \<open>\<^verbatim>\<open>class.lanes[lane] |= bits\<close>; a lane of a byte is below 4.\<close>

fun or_lane :: "byte_class \<Rightarrow> nat \<Rightarrow> u64w \<Rightarrow> byte_class" where
  "or_lane (ByteClass a b c d) lane bits =
     (if lane = 0 then ByteClass (a OR bits) b c d
      else if lane = 1 then ByteClass a (b OR bits) c d
      else if lane = 2 then ByteClass a b (c OR bits) d
      else ByteClass a b c (d OR bits))"

fun class_add_all :: "u8 list \<Rightarrow> byte_class \<Rightarrow> byte_class" where
  "class_add_all [] cls = cls"
| "class_add_all (byte # bytes) cls =
     class_add_all bytes (or_lane cls (byte_lane byte) (push_bit (byte_bit byte) 1))"

definition from_bytes :: "u8 list \<Rightarrow> byte_class" where
  "from_bytes bytes = class_add_all bytes class_empty"

definition contains :: "byte_class \<Rightarrow> u8 \<Rightarrow> bool" where
  "contains cls byte = ((lanes cls ! byte_lane byte) AND push_bit (byte_bit byte) 1 \<noteq> 0)"

definition class_is_empty :: "byte_class \<Rightarrow> bool" where
  "class_is_empty cls = list_all (\<lambda>lane. lane = 0) (lanes cls)"

section \<open>Kernels\<close>

datatype block_id = BlockId (block_no: u32w)
datatype data_id = DataId (data_no: u32w)
datatype semantics_version = SemanticsVersion (semantics_no: u16w)
datatype abi_version = AbiVersion (abi_no: u16w)

definition semantics_current :: semantics_version where
  "semantics_current = SemanticsVersion 1"

definition abi_current :: abi_version where
  "abi_current = AbiVersion 1"

record anchor_flags =
  anchor_start :: bool
  anchor_end :: bool

definition anchors_default :: anchor_flags where
  "anchors_default = \<lparr>anchor_start = False, anchor_end = False\<rparr>"

datatype data_blob = Bytes bytes | Class byte_class

datatype block_op =
    Entry block_id
  | ScanLiteral data_id anchor_flags block_id block_id
  | ScanClassStart data_id bool block_id block_id
  | ExtendClassRun data_id block_id
  | ConfirmSuffix data_id bool block_id block_id
  | AdvanceAfterReject block_id
  | ReturnFound
  | ReturnNone

fun successors :: "block_op \<Rightarrow> block_id list" where
  "successors (Entry next) = [next]"
| "successors (ExtendClassRun cls next) = [next]"
| "successors (AdvanceAfterReject next) = [next]"
| "successors (ScanLiteral needle anchors matched exhausted) = [matched, exhausted]"
| "successors (ConfirmSuffix suffix anchored matched rejected) = [matched, rejected]"
| "successors (ScanClassStart cls anchored run exhausted) = [run, exhausted]"
| "successors ReturnFound = []"
| "successors ReturnNone = []"

section \<open>Output contracts and windows\<close>

datatype output_kind = Exists | SelectedEnd | Span

record match_span =
  span_start :: nat
  span_end :: nat

definition match_span_new :: "nat \<Rightarrow> nat \<Rightarrow> match_span" where
  "match_span_new start stop = \<lparr>span_start = start, span_end = stop\<rparr>"

record search_window =
  window_start :: nat
  window_end :: nat

definition window_new :: "nat \<Rightarrow> nat \<Rightarrow> search_window" where
  "window_new start stop = \<lparr>window_start = start, window_end = stop\<rparr>"

definition window_valid :: "search_window \<Rightarrow> nat \<Rightarrow> bool" where
  "window_valid window haystack_len =
     (window_start window \<le> window_end window \<and> window_end window \<le> haystack_len)"

record checked_window =
  checked_haystack :: bytes
  checked_bounds :: search_window
  searched_bytes :: nat

definition checked_window_new :: "bytes \<Rightarrow> search_window \<Rightarrow> checked_window option" where
  "checked_window_new haystack window =
     (case usub (window_end window) (window_start window) of
        None \<Rightarrow> None
      | Some searched \<Rightarrow>
          if window_end window > length haystack then None
          else Some \<lparr>checked_haystack = haystack, checked_bounds = window, searched_bytes = searched\<rparr>)"

datatype kernel_output =
    ExistsOutput bool
  | SelectedEndOutput "nat option"
  | SpanOutput "match_span option"

fun project :: "output_kind \<Rightarrow> match_span option \<Rightarrow> kernel_output" where
  "project Exists found = ExistsOutput (found \<noteq> None)"
| "project SelectedEnd found = SelectedEndOutput (map_option span_end found)"
| "project Span found = SpanOutput found"

record raw_program =
  schema_version :: u16w
  semantics :: semantics_version
  abi :: abi_version
  raw_output :: output_kind
  raw_entry :: block_id
  raw_blocks :: "block_op list"
  raw_data :: "data_blob list"

definition raw_schema_version :: u16w where
  "raw_schema_version = 1"

section \<open>Errors\<close>

datatype kir_resource =
    Blocks | Instructions | DataBlobs | DataBytes | SerializedBytes | SerializedCapacityBytes
  | ConstructionAllocationBytes | RawProgramCapacityBytes | EstimatedCodeBytes | ValidationWork
  | ConstructionWork | ValidationScratchBytes | ValidationPhaseBytes | SerializationPhaseBytes
  | IdentityPhaseBytes | RetainedProgramBytes | WorkFactor

datatype arithmetic_site =
    SiteDataBytes | SiteSerializedBytes | SiteConstructionAllocationBytes | SiteEstimatedCodeBytes
  | SiteValidationWork | SiteConstructionWork | SitePhasePeakBytes | SiteWorkFactor
  | SiteSearchWorkBound | SiteSearchPosition

datatype invalid_program =
    BadSchemaVersion u16w
  | BadSemanticsVersion u16w
  | BadAbiVersion u16w
  | OutputContract
  | EmptyBlocks
  | EntryOutOfRange
  | EntryIsNotEntry
  | BlockTargetOutOfRange u32w u32w
  | DataTargetOutOfRange u32w u32w
  | WrongDataKind u32w u32w
  | EmptyClass u32w
  | EmptySuffix u32w
  | SuffixOverlapsClass u32w u32w
  | DuplicateData u32w u32w
  | UnusedData u32w
  | UnreachableBlock u32w
  | FlowStateMismatch u32w
  | NonCanonicalTopology u32w
  | InvalidCycle u32w
  | DominanceViolation u32w u32w

datatype validate_error =
    Invalid invalid_program
  | KirResourceLimit kir_resource nat nat
  | ArithmeticOverflow arithmetic_site
  | SerializationLengthMismatch nat nat
  | ConstructionLengthMismatch kir_resource nat nat
  | KirAllocationFailed kir_resource
  | ValidatePanic

datatype build_error =
    BuildValidate validate_error
  | BuildAllocationFailed kir_resource

datatype execute_error =
    InvalidWindow nat nat nat
  | WorkLimitExceeded nat nat
  | ExecArithmeticOverflow arithmetic_site
  | InternalInvariant u32w
  | ExecPanic

section \<open>Validated programs\<close>

record resource_accounting =
  ra_version :: u16w
  ra_allocation_requests :: nat
  ra_literal_allocation_request_bytes :: nat
  ra_block_allocation_request_bytes :: nat
  ra_data_table_allocation_request_bytes :: nat
  ra_raw_allocation_request_bytes :: nat
  ra_serialized_allocation_request_bytes :: nat
  ra_allocation_request_bytes :: nat
  ra_literal_capacity_bytes :: nat
  ra_block_capacity_bytes :: nat
  ra_data_table_capacity_bytes :: nat
  ra_raw_program_capacity_bytes :: nat
  ra_serialized_capacity_bytes :: nat
  ra_planning_work :: nat
  ra_initialization_work :: nat
  ra_copy_work :: nat
  ra_hash_invocations :: nat
  ra_hash_work :: nat
  ra_validation_work :: nat
  ra_validation_work_upper_bound :: nat
  ra_construction_work :: nat
  ra_validation_scratch_bytes :: nat
  ra_validation_phase_peak_bytes :: nat
  ra_serialization_phase_peak_bytes :: nat
  ra_identity_phase_peak_bytes :: nat
  ra_retained_program_bytes :: nat

record program_stats =
  st_blocks :: nat
  st_instructions :: nat
  st_data_blobs :: nat
  st_data_bytes :: nat
  st_serialized_bytes :: nat
  st_estimated_code_bytes :: nat
  st_work_factor :: nat
  st_resources :: resource_accounting

text \<open>The retained capacity of the serialization is part of its value; the identity is its digest.\<close>

record serialized_program =
  sp_bytes :: bytes
  sp_capacity :: nat
  sp_identity :: bytes

record validated_program =
  vp_raw :: raw_program
  vp_stats :: program_stats
  vp_serialized :: serialized_program

definition conservative_work_bound :: "validated_program \<Rightarrow> nat \<Rightarrow> validate_error + nat" where
  "conservative_work_bound program window_width =
     ok_or (Option.bind (uadd window_width 1) (\<lambda>positions.
              Option.bind (umul positions (st_work_factor (vp_stats program))) (\<lambda>work.
                uadd work 8)))
       (ArithmeticOverflow SiteSearchWorkBound)"

section \<open>Membership\<close>

lemma byte_lane_less: "byte_lane byte < 4"
  unfolding byte_lane_def using unsigned_less [of byte, where 'a = nat] by (simp add: unat_div)

lemma byte_bit_less: "byte_bit byte < 64"
  unfolding byte_bit_def by (simp add: unat_mod)

lemma byte_position_inject:
  "byte_lane a = byte_lane b \<Longrightarrow> byte_bit a = byte_bit b \<Longrightarrow> a = b"
proof -
  assume "byte_lane a = byte_lane b" "byte_bit a = byte_bit b"
  then have "unat a div 64 = unat b div 64" "unat a mod 64 = unat b mod 64"
    by (simp_all add: byte_lane_def byte_bit_def unat_div unat_mod)
  then have "unat a = unat b" by (metis div_mult_mod_eq)
  then show "a = b" by (simp only: word_eq_iff_unsigned [where 'a = nat])
qed

lemma contains_bit: "contains cls byte \<longleftrightarrow> bit (lanes cls ! byte_lane byte) (byte_bit byte)"
  by (simp only: contains_def and_push_bit_1)

lemma lanes_or_lane:
  "lane < 4 \<Longrightarrow> lanes (or_lane cls lane bits) = (lanes cls)[lane := (lanes cls ! lane) OR bits]"
  by (cases cls) (auto simp: eval_nat_numeral less_Suc_eq)

lemma length_lanes [simp]: "length (lanes cls) = 4"
  by (cases cls) simp

lemma contains_or_lane:
  "contains (or_lane cls (byte_lane a) (push_bit (byte_bit a) 1)) byte
     \<longleftrightarrow> byte = a \<or> contains cls byte"
proof -
  let ?w = "lanes cls ! byte_lane byte"
  have one: "bit (push_bit (byte_bit a) (1 :: u64w)) (byte_bit byte) \<longleftrightarrow> byte_bit a = byte_bit byte"
    using byte_bit_less [of byte] by (auto simp: bit_simps)
  have "lanes (or_lane cls (byte_lane a) (push_bit (byte_bit a) 1)) ! byte_lane byte =
      (if byte_lane a = byte_lane byte then ?w OR push_bit (byte_bit a) 1 else ?w)"
    by (simp only: lanes_or_lane [OF byte_lane_less] nth_list_update length_lanes byte_lane_less)
       (simp only: split: if_split, simp)
  then have "contains (or_lane cls (byte_lane a) (push_bit (byte_bit a) 1)) byte \<longleftrightarrow>
      contains cls byte \<or> byte_lane a = byte_lane byte \<and> byte_bit a = byte_bit byte"
    by (simp only: contains_bit) (simp only: bit_or_iff one split: if_split, blast)
  then show ?thesis using byte_position_inject [of byte a] by metis
qed

lemma contains_add_all:
  "contains (class_add_all bytes cls) byte \<longleftrightarrow> byte \<in> set bytes \<or> contains cls byte"
proof (induction bytes arbitrary: cls)
  case (Cons a bytes)
  then show ?case
    by (simp only: class_add_all.simps contains_or_lane list.set insert_iff disj_assoc) blast
qed simp

lemma not_contains_empty [simp]: "\<not> contains class_empty byte"
proof -
  have "set (lanes class_empty) = {0}" by (simp add: class_empty_def)
  then have "lanes class_empty ! byte_lane byte = 0"
    by (metis byte_lane_less length_lanes nth_mem singletonD)
  then show ?thesis by (simp add: contains_def)
qed

lemma contains_from_bytes [simp]: "contains (from_bytes bytes) byte \<longleftrightarrow> byte \<in> set bytes"
  by (simp add: from_bytes_def contains_add_all)

lemma byte_at_position:
  assumes "lane < 4" "n < 64"
  obtains byte where "byte_lane byte = lane" "byte_bit byte = n"
proof
  have "unat (word_of_nat (lane * 64 + n) :: u8) = lane * 64 + n"
    using assms by (simp only: unat_of_nat) (simp add: take_bit_nat_def)
  then show "byte_lane (word_of_nat (lane * 64 + n)) = lane"
    and "byte_bit (word_of_nat (lane * 64 + n)) = n"
    using assms by (simp_all only: byte_lane_def byte_bit_def unat_div unat_mod) simp_all
qed

lemma class_is_empty_iff: "class_is_empty cls \<longleftrightarrow> (\<forall>byte. \<not> contains cls byte)"
proof
  assume "class_is_empty cls"
  then show "\<forall>byte. \<not> contains cls byte"
    using byte_lane_less by (auto simp: class_is_empty_def list_all_length contains_def)
next
  assume none: "\<forall>byte. \<not> contains cls byte"
  have "lanes cls ! lane = 0" if lane: "lane < 4" for lane
  proof (rule bit_word_eqI)
    fix n assume n: "n < LENGTH(64)"
    obtain byte where "byte_lane byte = lane" "byte_bit byte = n"
      by (rule byte_at_position [of lane n]) (use lane n in auto)
    with none show "bit (lanes cls ! lane) n = bit (0 :: u64w) n"
      by (auto simp: contains_bit)
  qed
  then show "class_is_empty cls" by (simp add: class_is_empty_def list_all_length)
qed

lemma checked_window_new_iff:
  "checked_window_new haystack window = Some checked \<longleftrightarrow>
     window_valid window (length haystack) \<and>
     checked = \<lparr>checked_haystack = haystack, checked_bounds = window,
                searched_bytes = window_end window - window_start window\<rparr>"
  by (auto simp: checked_window_new_def window_valid_def usub_def)

end
