(* ===== verification/KirMeter.thy ===== *)
theory KirMeter
  imports KirBase
begin

text \<open>
  The resource vocabulary of \<^verbatim>\<open>validate.rs\<close>: its admission limits, the two work meters, the
  construction seed and the planning envelope of \<^verbatim>\<open>crates/fre-kernel-ir\<close>. What the compiler and the
  allocator decide is a parameter: a \<open>layout\<close> holds the \<^verbatim>\<open>size_of\<close> values the code reads, and a
  \<open>vec_capacities\<close> the capacities of the vectors of a raw program, which are no part of its value.
\<close>

section \<open>Parameters\<close>

record layout =
  sz_bool :: nat
  sz_usize :: nat
  sz_block :: nat
  sz_data_blob :: nat
  sz_validator :: nat
  sz_raw_program :: nat
  sz_validated_program :: nat
  sz_aggregate_program :: nat
  sz_vec_u8 :: nat
  sz_fixed_writer :: nat
  sz_sha256 :: nat
  sz_digest :: nat
  sz_validate_limits :: nat
  sz_dimensions :: nat
  sz_census :: nat
  sz_planning_envelope :: nat
  sz_planning_meter :: nat
  sz_construction_seed :: nat
  sz_construction_work :: nat
  sz_phase_peaks :: nat
  sz_resource_accounting :: nat
  sz_block_slots8 :: nat
  sz_block_slots2 :: nat
  sz_flow_states2 :: nat
  sz_data_slots1 :: nat
  sz_class_shape :: nat

record vec_capacities =
  cap_blocks :: nat
  cap_data :: nat
  cap_literal :: "nat \<Rightarrow> nat"

section \<open>Checked sums\<close>

text \<open>A chain \<^verbatim>\<open>a.checked_add(b).and_then(..)\<close>.\<close>

fun uadds :: "nat \<Rightarrow> nat list \<Rightarrow> nat option" where
  "uadds a [] = Some a"
| "uadds a (b # bs) = Option.bind (uadd a b) (\<lambda>c. uadds c bs)"

definition saturating_add :: "nat \<Rightarrow> nat \<Rightarrow> nat" where
  "saturating_add a b = min (a + b) usize_max"

definition saturating_mul :: "nat \<Rightarrow> nat \<Rightarrow> nat" where
  "saturating_mul a b = min (a * b) usize_max"

definition u8_add :: "nat \<Rightarrow> nat \<Rightarrow> nat option" where
  "u8_add a b = (if a + b \<le> 255 then Some (a + b) else None)"

lemma uadds_Some: "uadds a bs = Some c \<longleftrightarrow> c = a + sum_list bs \<and> (bs = [] \<or> a + sum_list bs \<le> usize_max)"
proof (induction bs arbitrary: a)
  case (Cons b bs)
  show ?case
  proof (cases "a + b \<le> usize_max")
    case True
    then have "uadds a (b # bs) = Some c \<longleftrightarrow> uadds (a + b) bs = Some c" by simp
    then show ?thesis using True Cons.IH [of "a + b"] by (cases bs) (auto simp: add.assoc)
  next
    case False
    then show ?thesis by (simp add: uadd_def)
  qed
qed auto

lemma uadds_fits: "a + sum_list bs \<le> usize_max \<Longrightarrow> uadds a bs = Some (a + sum_list bs)"
  by (simp add: uadds_Some)

section \<open>Limits\<close>

definition hard_max_blocks :: nat where
  "hard_max_blocks = 64"

definition resource_accounting_version :: u16w where
  "resource_accounting_version = 2"

definition default_construction_bytes :: nat where
  "default_construction_bytes = 4194304"

definition raw_header_check_work :: nat where
  "raw_header_check_work = 4"

definition identity_initialization_work_per_hash :: nat where
  "identity_initialization_work_per_hash = 128"

definition identity_copy_work_per_hash :: nat where
  "identity_copy_work_per_hash = 96"

record validate_limits =
  max_blocks :: nat
  max_instructions :: nat
  max_data_blobs :: nat
  max_data_bytes :: nat
  max_serialized_bytes :: nat
  max_serialized_capacity_bytes :: nat
  max_construction_allocation_bytes :: nat
  max_raw_program_capacity_bytes :: nat
  max_estimated_code_bytes :: nat
  max_validation_work :: nat
  max_construction_work :: nat
  max_validation_scratch_bytes :: nat
  max_validation_phase_bytes :: nat
  max_serialization_phase_bytes :: nat
  max_identity_phase_bytes :: nat
  max_retained_program_bytes :: nat
  max_work_factor :: nat

definition validate_limits_default :: validate_limits where
  "validate_limits_default = \<lparr>max_blocks = 64, max_instructions = 64, max_data_blobs = 16,
     max_data_bytes = 1048576, max_serialized_bytes = 1048576 + 4096,
     max_serialized_capacity_bytes = 1048576 + 4096,
     max_construction_allocation_bytes = default_construction_bytes,
     max_raw_program_capacity_bytes = 2097152, max_estimated_code_bytes = 1048576,
     max_validation_work = 8388608, max_construction_work = 16777216,
     max_validation_scratch_bytes = 4096, max_validation_phase_bytes = default_construction_bytes,
     max_serialization_phase_bytes = default_construction_bytes,
     max_identity_phase_bytes = default_construction_bytes,
     max_retained_program_bytes = default_construction_bytes, max_work_factor = 1048576 + 16\<rparr>"

definition enforce_count :: "kir_resource \<Rightarrow> nat \<Rightarrow> nat \<Rightarrow> validate_error + nat" where
  "enforce_count resource required limit =
     (if required > limit then Inl (KirResourceLimit resource limit required) else Inr required)"

definition enforce_work :: "kir_resource \<Rightarrow> nat \<Rightarrow> nat \<Rightarrow> validate_error + unit" where
  "enforce_work resource required limit =
     (if required > limit then Inl (KirResourceLimit resource limit required) else Inr ())"

lemma enforce_count_Inr [simp]: "enforce_count r n l = Inr m \<longleftrightarrow> m = n \<and> n \<le> l"
  by (auto simp: enforce_count_def)

lemma enforce_work_Inr [simp]: "enforce_work r n l = Inr u \<longleftrightarrow> n \<le> l"
  by (auto simp: enforce_work_def)

section \<open>Meters\<close>

record planning_meter =
  pm_limit :: nat
  pm_consumed :: nat

definition planning_new :: "nat \<Rightarrow> nat \<Rightarrow> planning_meter" where
  "planning_new consumed limit = \<lparr>pm_limit = limit, pm_consumed = consumed\<rparr>"

definition planning_admit :: "planning_meter \<Rightarrow> nat \<Rightarrow> validate_error + unit" where
  "planning_admit planning additional =
     rbind (ok_or (uadd (pm_consumed planning) additional) (ArithmeticOverflow SiteConstructionWork))
       (\<lambda>required. enforce_work ConstructionWork required (pm_limit planning))"

definition planning_charge :: "nat \<Rightarrow> planning_meter \<Rightarrow> validate_error + planning_meter" where
  "planning_charge amount planning =
     rbind (planning_admit planning amount) (\<lambda>_.
     rbind (ok_or (uadd (pm_consumed planning) amount) (ArithmeticOverflow SiteConstructionWork))
       (\<lambda>consumed. Inr (planning\<lparr>pm_consumed := consumed\<rparr>)))"

definition ensure_planning_complete :: "nat \<Rightarrow> nat \<Rightarrow> validate_error + unit" where
  "ensure_planning_complete expected attempted =
     (if expected = attempted then Inr ()
      else Inl (ConstructionLengthMismatch ConstructionWork expected attempted))"

record val_meter =
  vm_limit :: nat
  vm_consumed :: nat

definition val_meter_new :: "nat \<Rightarrow> val_meter" where
  "val_meter_new limit = \<lparr>vm_limit = limit, vm_consumed = 0\<rparr>"

definition val_charge :: "nat \<Rightarrow> val_meter \<Rightarrow> validate_error + val_meter" where
  "val_charge amount meter =
     rbind (ok_or (uadd (vm_consumed meter) amount) (ArithmeticOverflow SiteValidationWork))
       (\<lambda>required.
        if required > vm_limit meter
        then Inl (KirResourceLimit ValidationWork (vm_limit meter) required)
        else Inr (meter\<lparr>vm_consumed := required\<rparr>))"

lemma planning_charge_Inr [simp]:
  "planning_charge n p = Inr p' \<longleftrightarrow> pm_consumed p + n \<le> usize_max \<and> pm_consumed p + n \<le> pm_limit p
     \<and> p' = p\<lparr>pm_consumed := pm_consumed p + n\<rparr>"
  by (auto simp: planning_charge_def planning_admit_def rbind_eq_Inr)

lemma val_charge_Inr [simp]:
  "val_charge n v = Inr v' \<longleftrightarrow> vm_consumed v + n \<le> usize_max \<and> vm_consumed v + n \<le> vm_limit v
     \<and> v' = v\<lparr>vm_consumed := vm_consumed v + n\<rparr>"
  by (auto simp: val_charge_def rbind_eq_Inr split: if_splits)

lemma val_charge_fits [simp]:
  "vm_consumed v + n \<le> usize_max \<Longrightarrow> vm_consumed v + n \<le> vm_limit v \<Longrightarrow>
     val_charge n v = Inr (v\<lparr>vm_consumed := vm_consumed v + n\<rparr>)"
  by simp

lemma ensure_planning_complete_Inr [simp]: "ensure_planning_complete a b = Inr u \<longleftrightarrow> a = b"
  by (auto simp: ensure_planning_complete_def)

section \<open>Construction seed\<close>

record construction_seed =
  cs_raw_allocation_requests :: nat
  cs_literal_allocation_request_bytes :: nat
  cs_block_allocation_request_bytes :: nat
  cs_data_table_allocation_request_bytes :: nat
  cs_allocation_request_bytes :: nat
  cs_planning_work :: nat
  cs_initialization_work :: nat
  cs_copy_work :: nat
  cs_additional_hash_invocations :: nat
  cs_additional_hash_work :: nat
  cs_additional_retained_bytes :: nat

definition seed_default :: construction_seed where
  "seed_default = \<lparr>cs_raw_allocation_requests = 0, cs_literal_allocation_request_bytes = 0,
     cs_block_allocation_request_bytes = 0, cs_data_table_allocation_request_bytes = 0,
     cs_allocation_request_bytes = 0, cs_planning_work = 0, cs_initialization_work = 0,
     cs_copy_work = 0, cs_additional_hash_invocations = 0, cs_additional_hash_work = 0,
     cs_additional_retained_bytes = 0\<rparr>"

record planning_envelope =
  pe_header :: nat
  pe_block_census :: nat
  pe_data_census :: nat
  pe_comparison_scan :: nat
  pe_pair_planning :: nat

definition envelope_total :: "planning_envelope \<Rightarrow> validate_error + nat" where
  "envelope_total envelope =
     ok_or (uadds (pe_header envelope) [pe_block_census envelope, pe_data_census envelope,
              pe_comparison_scan envelope, pe_pair_planning envelope])
       (ArithmeticOverflow SiteConstructionWork)"

definition raw_metadata_planning_envelope :: "nat \<Rightarrow> nat \<Rightarrow> validate_error + planning_envelope" where
  "raw_metadata_planning_envelope blocks data_blobs =
     rbind (ok_or (umul (data_blobs - 1) data_blobs) (ArithmeticOverflow SiteConstructionWork))
       (\<lambda>pair_planning. Inr \<lparr>pe_header = raw_header_check_work, pe_block_census = blocks,
          pe_data_census = data_blobs, pe_comparison_scan = data_blobs,
          pe_pair_planning = pair_planning\<rparr>)"

section \<open>Work formulas\<close>

definition validation_work_formula :: "nat \<Rightarrow> nat \<Rightarrow> nat \<Rightarrow> validate_error + nat" where
  "validation_work_formula blocks data_blobs additional_data_work =
     ok_or (Option.bind (umul blocks 11) (\<lambda>work. uadds work [data_blobs, additional_data_work, 11]))
       (ArithmeticOverflow SiteValidationWork)"

definition fixed_shape_validation_work_upper_bound :: "nat \<Rightarrow> nat \<Rightarrow> nat \<Rightarrow> validate_error + nat" where
  "fixed_shape_validation_work_upper_bound blocks data_blobs comparison_work =
     validation_work_formula blocks data_blobs comparison_work"

fun is_bytes :: "data_blob \<Rightarrow> bool" where
  "is_bytes (Bytes _) = True"
| "is_bytes (Class _) = False"

fun blob_touches :: "data_blob \<Rightarrow> data_blob \<Rightarrow> nat" where
  "blob_touches (Bytes left) (Bytes right) = min (length left) (length right)"
| "blob_touches (Class left) (Class right) = 4"
| "blob_touches left right = 0"

definition blob_compare_work :: "data_blob \<Rightarrow> data_blob \<Rightarrow> validate_error + nat" where
  "blob_compare_work left right =
     ok_or (uadd (blob_touches left right) 2) (ArithmeticOverflow SiteValidationWork)"

lemma validation_work_formula_Inr [simp]:
  "validation_work_formula b d a = Inr w \<longleftrightarrow> w = b * 11 + d + a + 11 \<and> w \<le> usize_max"
  by (auto simp: validation_work_formula_def bind_eq_Some_conv uadds_Some)

lemma blob_compare_work_Inr [simp]:
  "blob_compare_work l r = Inr w \<longleftrightarrow> w = blob_touches l r + 2 \<and> w \<le> usize_max"
  by (auto simp: blob_compare_work_def)

text \<open>The work of comparing every data entry with those before it.\<close>

definition blob_scan :: "data_blob list \<Rightarrow> nat \<times> data_blob \<Rightarrow> nat" where
  "blob_scan blobs entry = (if is_bytes (snd entry) then 0 else 4)
     + sum_list (map (\<lambda>prior. blob_touches (snd entry) prior + 2) (take (fst entry) blobs))"

definition data_scan_work :: "data_blob list \<Rightarrow> nat" where
  "data_scan_work blobs = sum_list (map (blob_scan blobs) (zip [0..<length blobs] blobs))"

end
