(* ===== verification/KirSerialize.thy ===== *)
theory KirSerialize
  imports KirBase
begin

text \<open>
  The canonical serialization of a kernel (\<^verbatim>\<open>serialize.rs\<close> of \<^verbatim>\<open>crates/fre-kernel-ir\<close>): a writer into
  a buffer of a size fixed beforehand, and \<^verbatim>\<open>serialize\<close>. Two things the code does not define
  are parameters: \<open>reserve\<close>, the capacity \<^verbatim>\<open>Vec::try_reserve_exact\<close> gives for a request (or its
  failure), and \<open>sha256\<close>, the digest of the \<^verbatim>\<open>sha2\<close> crate. \<open>encode\<close> is the byte format as a
  function; the writer is shown to produce exactly it, and it is shown to be injective.
\<close>

section \<open>The writer\<close>

definition le_bytes :: "nat \<Rightarrow> 'a :: len word \<Rightarrow> bytes" where
  "le_bytes n w = map (\<lambda>i. ucast (drop_bit (8 * i) w)) [0..<n]"

record fixed_writer =
  writer_bytes :: bytes
  writer_cursor :: nat

definition writer_new :: "bytes \<Rightarrow> fixed_writer" where
  "writer_new buffer = \<lparr>writer_bytes = buffer, writer_cursor = 0\<rparr>"

definition writer_raw :: "bytes \<Rightarrow> fixed_writer \<Rightarrow> validate_error + fixed_writer" where
  "writer_raw value w =
     rbind (ok_or (uadd (writer_cursor w) (length value)) (ArithmeticOverflow SiteSerializedBytes))
       (\<lambda>stop.
        if stop > length (writer_bytes w)
        then Inl (SerializationLengthMismatch (length (writer_bytes w)) stop)
        else Inr (w\<lparr>writer_bytes := take (writer_cursor w) (writer_bytes w) @ value
                                     @ drop stop (writer_bytes w),
                    writer_cursor := stop\<rparr>))"

definition writer_finish :: "fixed_writer \<Rightarrow> validate_error + unit" where
  "writer_finish w =
     (if writer_cursor w \<noteq> length (writer_bytes w)
      then Inl (SerializationLengthMismatch (length (writer_bytes w)) (writer_cursor w))
      else Inr ())"

definition writer_byte :: "u8 \<Rightarrow> fixed_writer \<Rightarrow> validate_error + fixed_writer" where
  "writer_byte value w = writer_raw [value] w"

definition writer_u16 :: "u16w \<Rightarrow> fixed_writer \<Rightarrow> validate_error + fixed_writer" where
  "writer_u16 value w = writer_raw (le_bytes 2 value) w"

definition writer_u32 :: "nat \<Rightarrow> fixed_writer \<Rightarrow> validate_error + fixed_writer" where
  "writer_u32 value w =
     (if value > u32_max then Inl (ArithmeticOverflow SiteSerializedBytes)
      else writer_raw (le_bytes 4 (word_of_nat value :: u32w)) w)"

definition writer_version ::
  "semantics_version \<Rightarrow> abi_version \<Rightarrow> fixed_writer \<Rightarrow> validate_error + fixed_writer" where
  "writer_version sem ab w = rbind (writer_u16 (semantics_no sem) w) (writer_u16 (abi_no ab))"

definition writer_block :: "block_id \<Rightarrow> fixed_writer \<Rightarrow> validate_error + fixed_writer" where
  "writer_block block w = writer_raw (le_bytes 4 (block_no block)) w"

definition writer_data :: "data_id \<Rightarrow> fixed_writer \<Rightarrow> validate_error + fixed_writer" where
  "writer_data d w = writer_raw (le_bytes 4 (data_no d)) w"

definition anchor_byte :: "anchor_flags \<Rightarrow> u8" where
  "anchor_byte anchors = of_bool (anchor_start anchors) OR push_bit 1 (of_bool (anchor_end anchors))"

definition writer_anchor :: "anchor_flags \<Rightarrow> fixed_writer \<Rightarrow> validate_error + fixed_writer" where
  "writer_anchor anchors w = writer_byte (anchor_byte anchors) w"

fun writer_op :: "block_op \<Rightarrow> fixed_writer \<Rightarrow> validate_error + fixed_writer" where
  "writer_op (Entry next) w = rbind (writer_byte 1 w) (writer_block next)"
| "writer_op (ScanLiteral needle anchors matched exhausted) w =
     rbind (writer_byte 2 w) (\<lambda>w. rbind (writer_data needle w) (\<lambda>w. rbind (writer_anchor anchors w) (\<lambda>w.
     rbind (writer_block matched w) (writer_block exhausted))))"
| "writer_op (ScanClassStart cls anchored run exhausted) w =
     rbind (writer_byte 3 w) (\<lambda>w. rbind (writer_data cls w) (\<lambda>w. rbind (writer_byte (of_bool anchored) w) (\<lambda>w.
     rbind (writer_block run w) (writer_block exhausted))))"
| "writer_op (ExtendClassRun cls next) w =
     rbind (writer_byte 4 w) (\<lambda>w. rbind (writer_data cls w) (writer_block next))"
| "writer_op (ConfirmSuffix suffix anchored matched rejected) w =
     rbind (writer_byte 5 w) (\<lambda>w. rbind (writer_data suffix w) (\<lambda>w. rbind (writer_byte (of_bool anchored) w) (\<lambda>w.
     rbind (writer_block matched w) (writer_block rejected))))"
| "writer_op (AdvanceAfterReject next) w = rbind (writer_byte 6 w) (writer_block next)"
| "writer_op ReturnFound w = writer_byte 7 w"
| "writer_op ReturnNone w = writer_byte 8 w"

fun output_tag :: "output_kind \<Rightarrow> u8" where
  "output_tag Exists = 1"
| "output_tag SelectedEnd = 2"
| "output_tag Span = 3"

fun writer_blob :: "data_blob \<Rightarrow> fixed_writer \<Rightarrow> validate_error + fixed_writer" where
  "writer_blob (Bytes value) w =
     rbind (writer_byte 1 w) (\<lambda>w. rbind (writer_u32 (length value) w) (writer_raw value))"
| "writer_blob (Class cls) w =
     rbind (writer_byte 2 w) (\<lambda>w. rbind (writer_u32 32 w)
       (rfold (\<lambda>lane. writer_raw (le_bytes 8 lane)) (lanes cls)))"

text \<open>\<^verbatim>\<open>b"FREKIR\0\x01"\<close>.\<close>

definition program_magic :: bytes where
  "program_magic = [70, 82, 69, 75, 73, 82, 0, 1]"

section \<open>Serialization\<close>

definition write_program :: "raw_program \<Rightarrow> fixed_writer \<Rightarrow> validate_error + fixed_writer" where
  "write_program raw w =
     rbind (writer_raw program_magic w) (\<lambda>w.
     rbind (writer_u16 (schema_version raw) w) (\<lambda>w.
     rbind (writer_version (semantics raw) (abi raw) w) (\<lambda>w.
     rbind (writer_byte (output_tag (raw_output raw)) w) (\<lambda>w.
     rbind (writer_block (raw_entry raw) w) (\<lambda>w.
     rbind (writer_u32 (length (raw_blocks raw)) w) (\<lambda>w.
     rbind (writer_u32 (length (raw_data raw)) w) (\<lambda>w.
     rbind (rfold writer_op (raw_blocks raw) w)
       (rfold writer_blob (raw_data raw)))))))))"

definition kir_serialize ::
  "(nat \<Rightarrow> nat option) \<Rightarrow> (bytes \<Rightarrow> bytes) \<Rightarrow> raw_program \<Rightarrow> nat \<Rightarrow> nat
     \<Rightarrow> (nat \<Rightarrow> validate_error + 'a) \<Rightarrow> validate_error + serialized_program \<times> 'a" where
  "kir_serialize reserve sha256 raw expected_size max_retained_capacity_bytes admit_capacity =
     rbind (ok_or (reserve expected_size) (KirAllocationFailed SerializedBytes)) (\<lambda>capacity.
     if capacity > max_retained_capacity_bytes
     then Inl (KirResourceLimit SerializedCapacityBytes max_retained_capacity_bytes capacity)
     else rbind (admit_capacity capacity) (\<lambda>admitted.
       if capacity < expected_size
       then Inl (SerializationLengthMismatch expected_size capacity)
       else
         rbind (write_program raw (writer_new (replicate expected_size 0))) (\<lambda>w.
         rbind (writer_finish w) (\<lambda>_.
         Inr (\<lparr>sp_bytes = writer_bytes w, sp_capacity = capacity,
               sp_identity = sha256 (writer_bytes w)\<rparr>, admitted)))))"

section \<open>The byte format\<close>

fun encode_op :: "block_op \<Rightarrow> bytes" where
  "encode_op (Entry next) = 1 # le_bytes 4 (block_no next)"
| "encode_op (ScanLiteral needle anchors matched exhausted) =
     2 # le_bytes 4 (data_no needle) @ anchor_byte anchors # le_bytes 4 (block_no matched)
     @ le_bytes 4 (block_no exhausted)"
| "encode_op (ScanClassStart cls anchored run exhausted) =
     3 # le_bytes 4 (data_no cls) @ of_bool anchored # le_bytes 4 (block_no run)
     @ le_bytes 4 (block_no exhausted)"
| "encode_op (ExtendClassRun cls next) = 4 # le_bytes 4 (data_no cls) @ le_bytes 4 (block_no next)"
| "encode_op (ConfirmSuffix suffix anchored matched rejected) =
     5 # le_bytes 4 (data_no suffix) @ of_bool anchored # le_bytes 4 (block_no matched)
     @ le_bytes 4 (block_no rejected)"
| "encode_op (AdvanceAfterReject next) = 6 # le_bytes 4 (block_no next)"
| "encode_op ReturnFound = [7]"
| "encode_op ReturnNone = [8]"

definition encode_len :: "nat \<Rightarrow> bytes" where
  "encode_len n = le_bytes 4 (word_of_nat n :: u32w)"

fun encode_blob :: "data_blob \<Rightarrow> bytes" where
  "encode_blob (Bytes value) = 1 # encode_len (length value) @ value"
| "encode_blob (Class cls) = 2 # encode_len 32 @ concat (map (le_bytes 8) (lanes cls))"

definition encode :: "raw_program \<Rightarrow> bytes" where
  "encode raw = program_magic @ le_bytes 2 (schema_version raw) @ le_bytes 2 (semantics_no (semantics raw))
     @ le_bytes 2 (abi_no (abi raw)) @ [output_tag (raw_output raw)] @ le_bytes 4 (block_no (raw_entry raw))
     @ encode_len (length (raw_blocks raw)) @ encode_len (length (raw_data raw))
     @ concat (map encode_op (raw_blocks raw)) @ concat (map encode_blob (raw_data raw))"

fun blob_fits :: "data_blob \<Rightarrow> bool" where
  "blob_fits (Bytes value) = (length value \<le> u32_max)"
| "blob_fits (Class cls) = True"

definition lengths_fit :: "raw_program \<Rightarrow> bool" where
  "lengths_fit raw = (length (raw_blocks raw) \<le> u32_max \<and> length (raw_data raw) \<le> u32_max
     \<and> list_all blob_fits (raw_data raw))"

section \<open>The writer writes the format\<close>

definition writer_ok :: "fixed_writer \<Rightarrow> bool" where
  "writer_ok w = (writer_cursor w \<le> length (writer_bytes w) \<and> length (writer_bytes w) \<le> usize_max)"

lemma writer_raw_Inr:
  "writer_raw value w = Inr w' \<longleftrightarrow>
     writer_cursor w + length value \<le> usize_max \<and> writer_cursor w + length value \<le> length (writer_bytes w)
     \<and> w' = w\<lparr>writer_bytes := take (writer_cursor w) (writer_bytes w) @ value
          @ drop (writer_cursor w + length value) (writer_bytes w),
        writer_cursor := writer_cursor w + length value\<rparr>"
  by (auto simp: writer_raw_def rbind_eq_Inr split: if_splits)

lemma writer_raw_ok: "writer_raw value w = Inr w' \<Longrightarrow> writer_ok w \<Longrightarrow> writer_ok w'"
  by (auto simp: writer_raw_Inr writer_ok_def)

text \<open>\<open>emits f bs\<close>: the step \<open>f\<close> succeeds exactly when \<open>bs\<close> fits, and then appends \<open>bs\<close>.\<close>

definition emits :: "(fixed_writer \<Rightarrow> validate_error + fixed_writer) \<Rightarrow> bytes \<Rightarrow> bool" where
  "emits f bs = (\<forall>w. writer_ok w \<longrightarrow> (\<forall>w'. f w = Inr w' \<longleftrightarrow> writer_raw bs w = Inr w'))"

lemma emits_raw [simp, intro]: "emits (writer_raw bs) bs"
  by (simp add: emits_def)

lemma writer_raw_append:
  "writer_ok w \<Longrightarrow> rbind (writer_raw xs w) (writer_raw ys) = Inr w' \<longleftrightarrow> writer_raw (xs @ ys) w = Inr w'"
  by (auto simp: rbind_eq_Inr writer_raw_Inr writer_ok_def min_def add.assoc)
     (simp_all add: add.commute add.left_commute)

lemma emits_bind:
  assumes "emits f xs" "emits g ys"
  shows "emits (\<lambda>w. rbind (f w) g) (xs @ ys)"
  unfolding emits_def
proof (intro allI impI)
  fix w w' assume ok: "writer_ok w"
  have "rbind (f w) g = Inr w' \<longleftrightarrow> (\<exists>v. writer_raw xs w = Inr v \<and> g v = Inr w')"
    using assms(1) ok by (simp add: rbind_eq_Inr emits_def)
  also have "\<dots> \<longleftrightarrow> (\<exists>v. writer_raw xs w = Inr v \<and> writer_raw ys v = Inr w')"
    using assms(2) writer_raw_ok [OF _ ok] by (auto simp: emits_def)
  also have "\<dots> \<longleftrightarrow> writer_raw (xs @ ys) w = Inr w'"
    using writer_raw_append [OF ok, of xs ys w'] by (simp add: rbind_eq_Inr)
  finally show "rbind (f w) g = Inr w' \<longleftrightarrow> writer_raw (xs @ ys) w = Inr w'" .
qed

lemma emits_nil: "emits Inr []"
  by (auto simp: emits_def writer_raw_Inr writer_ok_def)

lemma emits_rfold:
  "(\<And>x. x \<in> set xs \<Longrightarrow> emits (f x) (enc x)) \<Longrightarrow> emits (rfold f xs) (concat (map enc xs))"
proof (induction xs)
  case Nil
  then show ?case using emits_nil by (simp add: emits_def)
next
  case (Cons x xs)
  then have "emits (\<lambda>w. rbind (f x w) (rfold f xs)) (enc x @ concat (map enc xs))"
    by (intro emits_bind) auto
  then show ?case by (simp add: emits_def)
qed

lemma emits_byte [simp]: "emits (writer_byte b) [b]"
  and emits_u16 [simp]: "emits (writer_u16 v) (le_bytes 2 v)"
  and emits_block [simp]: "emits (writer_block i) (le_bytes 4 (block_no i))"
  and emits_data [simp]: "emits (writer_data d) (le_bytes 4 (data_no d))"
  and emits_anchor [simp]: "emits (writer_anchor an) [anchor_byte an]"
  by (simp_all add: emits_def writer_byte_def writer_u16_def writer_block_def writer_data_def
      writer_anchor_def)

lemma emits_u32: "n \<le> u32_max \<Longrightarrow> emits (writer_u32 n) (encode_len n)"
  by (simp add: emits_def writer_u32_def encode_len_def)

lemma emits_version: "emits (writer_version sem ab) (le_bytes 2 (semantics_no sem) @ le_bytes 2 (abi_no ab))"
  using emits_bind [OF emits_u16 emits_u16] by (simp add: emits_def writer_version_def)

lemmas emits_cons = emits_bind [where xs = "[b]" for b, simplified]

lemma emits_op: "emits (writer_op op) (encode_op op)"
proof (cases op)
  case (Entry n)
  then show ?thesis using emits_cons [OF emits_byte [of 1] emits_block [of n]] by (simp add: emits_def)
next
  case (ScanLiteral d an i j)
  then show ?thesis
    using emits_cons [OF emits_byte [of 2] emits_bind [OF emits_data [of d]
      emits_cons [OF emits_anchor [of an] emits_bind [OF emits_block [of i] emits_block [of j]]]]]
    by (simp add: emits_def)
next
  case (ScanClassStart d b i j)
  then show ?thesis
    using emits_cons [OF emits_byte [of 3] emits_bind [OF emits_data [of d]
      emits_cons [OF emits_byte [of "of_bool b"] emits_bind [OF emits_block [of i] emits_block [of j]]]]]
    by (simp add: emits_def)
next
  case (ExtendClassRun d i)
  then show ?thesis
    using emits_cons [OF emits_byte [of 4] emits_bind [OF emits_data [of d] emits_block [of i]]]
    by (simp add: emits_def)
next
  case (ConfirmSuffix d b i j)
  then show ?thesis
    using emits_cons [OF emits_byte [of 5] emits_bind [OF emits_data [of d]
      emits_cons [OF emits_byte [of "of_bool b"] emits_bind [OF emits_block [of i] emits_block [of j]]]]]
    by (simp add: emits_def)
next
  case (AdvanceAfterReject n)
  then show ?thesis using emits_cons [OF emits_byte [of 6] emits_block [of n]] by (simp add: emits_def)
next
  case ReturnFound
  then show ?thesis using emits_byte [of 7] by (simp add: emits_def)
next
  case ReturnNone
  then show ?thesis using emits_byte [of 8] by (simp add: emits_def)
qed

lemma emits_blob: "blob_fits blob \<Longrightarrow> emits (writer_blob blob) (encode_blob blob)"
proof (cases blob)
  case (Bytes bs)
  assume "blob_fits blob"
  with Bytes have "emits (writer_u32 (length bs)) (encode_len (length bs))"
    by (simp add: emits_u32)
  from emits_cons [OF emits_byte [of 1] emits_bind [OF this emits_raw [of bs]]] Bytes
  show ?thesis by (simp add: emits_def)
next
  case (Class cls)
  have "emits (writer_u32 32) (encode_len 32)" by (simp add: emits_u32 u32_max_def)
  moreover have "emits (rfold (\<lambda>lane. writer_raw (le_bytes 8 lane)) (lanes cls))
      (concat (map (le_bytes 8) (lanes cls)))"
    by (rule emits_rfold) simp
  ultimately show ?thesis
    using emits_cons [OF emits_byte [of 2] emits_bind] Class by (simp add: emits_def)
qed

lemma emits_program: "lengths_fit raw \<Longrightarrow> emits (write_program raw) (encode raw)"
proof -
  assume fit: "lengths_fit raw"
  then have u32s: "emits (writer_u32 (length (raw_blocks raw))) (encode_len (length (raw_blocks raw)))"
    "emits (writer_u32 (length (raw_data raw))) (encode_len (length (raw_data raw)))"
    by (simp_all add: lengths_fit_def emits_u32)
  have folds: "emits (rfold writer_op (raw_blocks raw)) (concat (map encode_op (raw_blocks raw)))"
    "emits (rfold writer_blob (raw_data raw)) (concat (map encode_blob (raw_data raw)))"
    using fit by (auto intro!: emits_rfold emits_op emits_blob simp: lengths_fit_def list_all_iff)
  have "emits (write_program raw) (program_magic @ le_bytes 2 (schema_version raw)
     @ (le_bytes 2 (semantics_no (semantics raw)) @ le_bytes 2 (abi_no (abi raw)))
     @ [output_tag (raw_output raw)] @ le_bytes 4 (block_no (raw_entry raw))
     @ encode_len (length (raw_blocks raw)) @ encode_len (length (raw_data raw))
     @ concat (map encode_op (raw_blocks raw)) @ concat (map encode_blob (raw_data raw)))"
    unfolding write_program_def [abs_def]
    by (intro emits_bind emits_raw emits_u16 emits_version emits_byte emits_block u32s folds)
  then show ?thesis by (simp add: encode_def)
qed

text \<open>A program whose lengths do not fit a \<^verbatim>\<open>u32\<close> is not written at all.\<close>

lemma write_program_fits: "write_program raw w = Inr w' \<Longrightarrow> lengths_fit raw"
proof -
  assume "write_program raw w = Inr w'"
  then have "length (raw_blocks raw) \<le> u32_max" "length (raw_data raw) \<le> u32_max"
    and "\<exists>v. rfold writer_blob (raw_data raw) v = Inr w'"
    by (auto simp: write_program_def rbind_eq_Inr writer_u32_def split: if_splits)
  moreover have "rfold writer_blob blobs v = Inr w' \<Longrightarrow> list_all blob_fits blobs" for blobs v
  proof (induction blobs arbitrary: v)
    case (Cons blob blobs)
    then show ?case
      by (cases blob) (auto simp: rbind_eq_Inr writer_u32_def split: if_splits)
  qed simp
  ultimately show ?thesis by (auto simp: lengths_fit_def)
qed

lemma write_all_iff:
  assumes "expected \<le> usize_max"
  shows "write_program raw (writer_new (replicate expected 0)) = Inr w \<and> writer_finish w = Inr () \<longleftrightarrow>
    lengths_fit raw \<and> expected = length (encode raw)
    \<and> w = \<lparr>writer_bytes = encode raw, writer_cursor = expected\<rparr>" (is "?lhs \<longleftrightarrow> ?rhs")
proof -
  let ?w = "writer_new (replicate expected 0)"
  have ok: "writer_ok ?w" using assms by (simp add: writer_ok_def writer_new_def)
  have "?lhs \<longleftrightarrow> lengths_fit raw \<and> writer_raw (encode raw) ?w = Inr w \<and> writer_finish w = Inr ()"
    using emits_program [of raw] write_program_fits [of raw ?w] ok by (auto simp: emits_def)
  also have "\<dots> \<longleftrightarrow> ?rhs"
    using assms by (auto simp: writer_raw_Inr writer_finish_def writer_new_def split: if_splits)
  finally show ?thesis .
qed

lemma kir_serialize_Inr:
  assumes "expected \<le> usize_max"
  shows "kir_serialize reserve sha256 raw expected max_capacity admit = Inr (serialized, admitted) \<longleftrightarrow>
    (\<exists>capacity. reserve expected = Some capacity \<and> capacity \<le> max_capacity \<and> expected \<le> capacity
       \<and> admit capacity = Inr admitted \<and> lengths_fit raw \<and> expected = length (encode raw)
       \<and> serialized = \<lparr>sp_bytes = encode raw, sp_capacity = capacity, sp_identity = sha256 (encode raw)\<rparr>)"
    (is "?lhs \<longleftrightarrow> ?rhs")
proof -
  have "?lhs \<longleftrightarrow> (\<exists>capacity. reserve expected = Some capacity \<and> capacity \<le> max_capacity \<and> expected \<le> capacity
      \<and> admit capacity = Inr admitted \<and> (\<exists>w. (write_program raw (writer_new (replicate expected 0)) = Inr w
        \<and> writer_finish w = Inr ()) \<and> serialized =
          \<lparr>sp_bytes = writer_bytes w, sp_capacity = capacity, sp_identity = sha256 (writer_bytes w)\<rparr>))"
    by (auto simp: kir_serialize_def rbind_eq_Inr not_less split: if_splits)
  also have "\<dots> \<longleftrightarrow> ?rhs" unfolding write_all_iff [OF assms] by auto
  finally show ?thesis .
qed

section \<open>Injectivity\<close>

lemma length_le_bytes [simp]: "length (le_bytes n w) = n"
  by (simp add: le_bytes_def)

lemma le_bytes_inject:
  fixes v w :: "'a :: len word"
  assumes "LENGTH('a) = 8 * n" "le_bytes n v = le_bytes n w"
  shows "v = w"
proof (rule bit_word_eqI)
  fix k assume k: "k < LENGTH('a)"
  have "k div 8 < n" using k assms(1) by simp
  then have "(ucast (drop_bit (8 * (k div 8)) v) :: u8) = ucast (drop_bit (8 * (k div 8)) w)"
    using assms(2) by (simp add: le_bytes_def)
  then have "bit (ucast (drop_bit (8 * (k div 8)) v) :: u8) (k mod 8)
      = bit (ucast (drop_bit (8 * (k div 8)) w) :: u8) (k mod 8)" by simp
  then show "bit v k = bit w k" using k by (simp add: bit_simps)
qed

lemma le_bytes_append_inject:
  fixes v w :: "'a :: len word"
  shows "LENGTH('a) = 8 * n \<Longrightarrow> le_bytes n v @ xs = le_bytes n w @ ys \<longleftrightarrow> v = w \<and> xs = ys"
  by (auto dest: le_bytes_inject)

lemma le_bytes_eq:
  fixes v w :: "'a :: len word"
  shows "LENGTH('a) = 8 * n \<Longrightarrow> le_bytes n v = le_bytes n w \<longleftrightarrow> v = w"
  by (auto dest: le_bytes_inject)

lemmas le_bytes_eqs [simp] = le_bytes_eq [where 'a = 16 and n = 2, simplified]
  le_bytes_eq [where 'a = 32 and n = 4, simplified] le_bytes_eq [where 'a = 64 and n = 8, simplified]

lemmas le_bytes_inject_16 [simp] = le_bytes_append_inject [where 'a = 16 and n = 2, simplified]
lemmas le_bytes_inject_32 [simp] = le_bytes_append_inject [where 'a = 32 and n = 4, simplified]
lemmas le_bytes_inject_64 [simp] = le_bytes_append_inject [where 'a = 64 and n = 8, simplified]

lemma encode_len_append_inject:
  assumes "m \<le> u32_max" "n \<le> u32_max"
  shows "encode_len m @ xs = encode_len n @ ys \<longleftrightarrow> m = n \<and> xs = ys"
proof -
  have "word_of_nat m = (word_of_nat n :: u32w) \<longleftrightarrow> m = n"
    using assms by (simp add: word_of_nat_eq_iff u32_max_def take_bit_nat_eq_self)
  then show ?thesis by (simp add: encode_len_def)
qed

lemma anchor_byte_inject [simp]: "anchor_byte a = anchor_byte b \<longleftrightarrow> a = b"
  by (cases a; cases b) (auto simp: anchor_byte_def split: if_splits)

lemma output_tag_inject [simp]: "output_tag a = output_tag b \<longleftrightarrow> a = b"
  by (cases a; cases b) auto

lemma block_no_inject [simp]: "block_no i = block_no j \<longleftrightarrow> i = j"
  by (cases i; cases j) simp

lemma data_no_inject [simp]: "data_no i = data_no j \<longleftrightarrow> i = j"
  by (cases i; cases j) simp

lemma encode_op_inject: "encode_op a @ xs = encode_op b @ ys \<Longrightarrow> a = b \<and> xs = ys"
  by (cases a; cases b) (auto simp: of_bool_def split: if_splits)

lemma lanes_inject: "concat (map (le_bytes 8) (lanes a)) @ xs = concat (map (le_bytes 8) (lanes b)) @ ys
    \<Longrightarrow> a = b \<and> xs = ys"
  by (cases a; cases b) auto

lemma encode_blob_inject:
  "blob_fits a \<Longrightarrow> blob_fits b \<Longrightarrow> encode_blob a @ xs = encode_blob b @ ys \<Longrightarrow> a = b \<and> xs = ys"
  by (cases a; cases b) (auto simp: encode_len_append_inject u32_max_def dest: lanes_inject)

lemma concat_map_inject:
  assumes "\<And>x y us vs. P x \<Longrightarrow> P y \<Longrightarrow> enc x @ us = enc y @ vs \<Longrightarrow> x = y \<and> us = vs"
    and "length xs = length ys" "list_all P xs" "list_all P ys"
    and "concat (map enc xs) @ us = concat (map enc ys) @ vs"
  shows "xs = ys \<and> us = vs"
  using assms(2-)
proof (induction xs ys rule: list_induct2)
  case (Cons x xs y ys)
  from Cons.prems assms(1) [of x y "concat (map enc xs) @ us" "concat (map enc ys) @ vs"] Cons.IH
  show ?case by simp
qed simp

lemma encode_inject:
  assumes "lengths_fit raw" "lengths_fit raw'" "encode raw = encode raw'"
  shows "raw = raw'"
proof -
  let ?t = "\<lambda>raw. concat (map encode_blob (raw_data raw))"
  from assms have heads: "schema_version raw = schema_version raw'" "semantics_no (semantics raw) = semantics_no (semantics raw')"
    "abi_no (abi raw) = abi_no (abi raw')" "raw_output raw = raw_output raw'" "raw_entry raw = raw_entry raw'"
    "length (raw_blocks raw) = length (raw_blocks raw')" "length (raw_data raw) = length (raw_data raw')"
    "concat (map encode_op (raw_blocks raw)) @ ?t raw = concat (map encode_op (raw_blocks raw')) @ ?t raw'"
    by (auto simp: encode_def encode_len_append_inject lengths_fit_def)
  have blocks: "raw_blocks raw = raw_blocks raw' \<and> ?t raw = ?t raw'"
    by (rule concat_map_inject [where P = "\<lambda>_. True" and enc = encode_op, OF _ heads(6) _ _ heads(8)])
       (use encode_op_inject in \<open>auto simp only: list_all_iff\<close>)
  have fits: "list_all blob_fits (raw_data raw)" "list_all blob_fits (raw_data raw')"
    using assms(1,2) by (simp_all add: lengths_fit_def)
  have eq: "?t raw @ [] = ?t raw' @ []" using blocks by simp
  have "raw_data raw = raw_data raw' \<and> [] = ([] :: bytes)"
    by (rule concat_map_inject [where enc = encode_blob, OF _ heads(7) fits eq]) (rule encode_blob_inject)
  with heads blocks show ?thesis
    by (cases raw; cases raw') (auto intro: semantics_version.expand abi_version.expand)
qed

end
