(* ===== verification/KirCensus.thy ===== *)
theory KirCensus
  imports KirMeter KirSerialize
begin

text \<open>
  Preflight of a kernel in \<^verbatim>\<open>validate.rs\<close>: the census of its serialized, code and literal sizes, the
  work and memory accounting, and the admission of both against the limits. The census of the
  serialized size is proved to be the length of the serialization itself.
\<close>

section \<open>Dimensions\<close>

record dimensions =
  dim_data_bytes :: nat
  dim_serialized_bytes :: nat
  dim_serialized_bytes_u64 :: nat
  dim_estimated_code_bytes :: nat
  dim_work_factor :: nat
  dim_raw_program_capacity_bytes :: nat
  dim_literal_capacity_bytes :: nat
  dim_block_capacity_bytes :: nat
  dim_data_table_capacity_bytes :: nat
  dim_validation_work_upper_bound :: nat

definition serialized_header_bytes :: nat where
  "serialized_header_bytes = 27"

record dimension_census =
  census_serialized :: "nat option"
  census_estimated_code :: "nat option"
  census_longest_literal :: nat

definition census_new :: dimension_census where
  "census_new = \<lparr>census_serialized = Some serialized_header_bytes,
     census_estimated_code = Some 0, census_longest_literal = 0\<rparr>"

definition accumulate_checked :: "nat option \<Rightarrow> nat option \<Rightarrow> nat option" where
  "accumulate_checked sofar increment =
     (case sofar of None \<Rightarrow> None | Some current \<Rightarrow> Option.bind increment (uadd current))"

fun block_sizes :: "block_op \<Rightarrow> nat \<times> nat" where
  "block_sizes (Entry _) = (5, 16)"
| "block_sizes (ScanLiteral _ _ _ _) = (14, 160)"
| "block_sizes (ConfirmSuffix _ _ _ _) = (14, 160)"
| "block_sizes (ScanClassStart _ _ _ _) = (14, 192)"
| "block_sizes (ExtendClassRun _ _) = (9, 128)"
| "block_sizes (AdvanceAfterReject _) = (5, 32)"
| "block_sizes ReturnFound = (1, 32)"
| "block_sizes ReturnNone = (1, 32)"

definition observe_block :: "block_op \<Rightarrow> dimension_census \<Rightarrow> dimension_census" where
  "observe_block op census =
     (case block_sizes op of (serialized_bytes, estimated_code_bytes) \<Rightarrow>
        census\<lparr>census_serialized := accumulate_checked (census_serialized census) (Some serialized_bytes),
               census_estimated_code :=
                 accumulate_checked (census_estimated_code census) (Some estimated_code_bytes)\<rparr>)"

text \<open>\<^verbatim>\<open>value & !15\<close> clears the four low bits.\<close>

definition align16 :: "nat \<Rightarrow> nat" where
  "align16 n = n - n mod 16"

definition observe_data :: "data_blob \<Rightarrow> nat \<Rightarrow> dimension_census \<Rightarrow> dimension_census" where
  "observe_data blob payload_bytes census =
     census\<lparr>census_serialized := accumulate_checked (census_serialized census) (uadd payload_bytes 5),
            census_estimated_code := accumulate_checked (census_estimated_code census)
              (map_option align16 (uadd payload_bytes 15)),
            census_longest_literal := (if is_bytes blob
              then max (census_longest_literal census) payload_bytes
              else census_longest_literal census)\<rparr>"

definition census_finish ::
  "dimension_census \<Rightarrow> nat \<Rightarrow> validate_limits \<Rightarrow> validate_error + dimensions" where
  "census_finish census data_bytes limits =
     rbind (enforce_count DataBytes data_bytes (max_data_bytes limits)) (\<lambda>_.
     rbind (ok_or (census_serialized census) (ArithmeticOverflow SiteSerializedBytes)) (\<lambda>serialized_bytes.
     rbind (enforce_count SerializedBytes serialized_bytes (max_serialized_bytes limits))
       (\<lambda>serialized_bytes_u64.
     rbind (enforce_count SerializedCapacityBytes serialized_bytes (max_serialized_capacity_bytes limits)) (\<lambda>_.
     rbind (ok_or (census_estimated_code census) (ArithmeticOverflow SiteEstimatedCodeBytes))
       (\<lambda>estimated_code_bytes.
     rbind (enforce_count EstimatedCodeBytes estimated_code_bytes (max_estimated_code_bytes limits)) (\<lambda>_.
     rbind (ok_or (uadd (census_longest_literal census) 8) (ArithmeticOverflow SiteWorkFactor))
       (\<lambda>work_factor.
     if work_factor > max_work_factor limits
     then Inl (KirResourceLimit WorkFactor (max_work_factor limits) work_factor)
     else Inr \<lparr>dim_data_bytes = data_bytes, dim_serialized_bytes = serialized_bytes,
       dim_serialized_bytes_u64 = serialized_bytes_u64,
       dim_estimated_code_bytes = estimated_code_bytes, dim_work_factor = work_factor,
       dim_raw_program_capacity_bytes = 0, dim_literal_capacity_bytes = 0,
       dim_block_capacity_bytes = 0, dim_data_table_capacity_bytes = 0,
       dim_validation_work_upper_bound = 0\<rparr>)))))))"

definition validation_scratch_bytes :: "layout \<Rightarrow> validate_error + nat" where
  "validation_scratch_bytes sizes =
     rbind (ok_or (uadd (sz_bool sizes) (sz_usize sizes)) (ArithmeticOverflow SitePhasePeakBytes)) (\<lambda>slot.
     rbind (ok_or (umul hard_max_blocks slot) (ArithmeticOverflow SitePhasePeakBytes)) (\<lambda>traversal.
     ok_or (uadd (sz_validator sizes) traversal) (ArithmeticOverflow SitePhasePeakBytes)))"

definition admit_raw_shape_counts :: "raw_program \<Rightarrow> validate_limits \<Rightarrow> validate_error + unit" where
  "admit_raw_shape_counts raw limits =
     rbind (enforce_count Blocks (length (raw_blocks raw)) (max_blocks limits)) (\<lambda>_.
     rbind (enforce_count Instructions (length (raw_blocks raw)) (max_instructions limits)) (\<lambda>_.
     rbind (enforce_count Blocks (length (raw_blocks raw)) hard_max_blocks) (\<lambda>_.
     rbind (enforce_count DataBlobs (length (raw_data raw)) (max_data_blobs limits)) (\<lambda>_.
     rbind (enforce_count DataBlobs (length (raw_data raw)) hard_max_blocks) (\<lambda>_. Inr ())))))"

text \<open>\<^verbatim>\<open>validation_work_upper_bound\<close>: the planning loop over pairs of data entries.\<close>

definition compare_step ::
  "data_blob \<Rightarrow> data_blob \<Rightarrow> planning_meter \<times> nat \<Rightarrow> validate_error + planning_meter \<times> nat" where
  "compare_step blob prior st =
     (case st of (planning, work) \<Rightarrow>
        rbind (planning_charge 2 planning) (\<lambda>planning.
        rbind (blob_compare_work blob prior) (\<lambda>compare.
        rbind (ok_or (uadd work compare) (ArithmeticOverflow SiteValidationWork)) (\<lambda>work.
        Inr (planning, work)))))"

definition scan_step ::
  "data_blob list \<Rightarrow> nat \<times> data_blob \<Rightarrow> planning_meter \<times> nat \<Rightarrow> validate_error + planning_meter \<times> nat" where
  "scan_step blobs entry st =
     (case entry of (index, blob) \<Rightarrow> case st of (planning, work) \<Rightarrow>
        rbind (planning_charge 1 planning) (\<lambda>planning.
        rbind (if is_bytes blob then Inr work
               else ok_or (uadd work 4) (ArithmeticOverflow SiteValidationWork)) (\<lambda>work.
        rfold (compare_step blob) (take index blobs) (planning, work))))"

definition validation_work_upper_bound ::
  "raw_program \<Rightarrow> planning_meter \<Rightarrow> validate_error + nat \<times> planning_meter" where
  "validation_work_upper_bound raw planning =
     rbind (rfold (scan_step (raw_data raw)) (zip [0..<length (raw_data raw)] (raw_data raw)) (planning, 0))
       (\<lambda>(planning, data_scan_work).
        rbind (validation_work_formula (length (raw_blocks raw)) (length (raw_data raw)) data_scan_work)
          (\<lambda>work. Inr (work, planning)))"

section \<open>Preflight\<close>

definition block_census_step ::
  "block_op \<Rightarrow> planning_meter \<times> dimension_census \<Rightarrow> validate_error + planning_meter \<times> dimension_census" where
  "block_census_step op st =
     (case st of (planning, census) \<Rightarrow>
        rbind (planning_charge 1 planning) (\<lambda>planning. Inr (planning, observe_block op census)))"

record data_census =
  dc_planning :: planning_meter
  dc_census :: dimension_census
  dc_literal_capacity :: nat
  dc_raw_capacity :: nat
  dc_data_bytes :: nat

definition blob_capacity_step ::
  "vec_capacities \<Rightarrow> validate_limits \<Rightarrow> nat \<Rightarrow> data_blob \<Rightarrow> data_census \<Rightarrow> validate_error + data_census \<times> nat" where
  "blob_capacity_step caps limits index blob st =
     (case blob of
        Bytes value \<Rightarrow>
          rbind (ok_or (uadd (dc_literal_capacity st) (cap_literal caps index))
            (ArithmeticOverflow SitePhasePeakBytes)) (\<lambda>literal.
          rbind (ok_or (uadd (dc_raw_capacity st) (cap_literal caps index))
            (ArithmeticOverflow SitePhasePeakBytes)) (\<lambda>raw.
          rbind (enforce_count RawProgramCapacityBytes raw (max_raw_program_capacity_bytes limits)) (\<lambda>_.
          Inr (st\<lparr>dc_literal_capacity := literal, dc_raw_capacity := raw\<rparr>, length value))))
      | Class cls \<Rightarrow> Inr (st, 32))"

definition data_census_step ::
  "vec_capacities \<Rightarrow> validate_limits \<Rightarrow> nat \<times> data_blob \<Rightarrow> data_census \<Rightarrow> validate_error + data_census" where
  "data_census_step caps limits entry st =
     (case entry of (index, blob) \<Rightarrow>
        rbind (planning_charge 1 (dc_planning st)) (\<lambda>planning.
        rbind (blob_capacity_step caps limits index blob (st\<lparr>dc_planning := planning\<rparr>)) (\<lambda>(st, size).
        rbind (enforce_count DataBytes size u32_max) (\<lambda>_.
        rbind (ok_or (uadd (dc_data_bytes st) size) (ArithmeticOverflow SiteDataBytes)) (\<lambda>bytes.
        Inr (st\<lparr>dc_data_bytes := bytes, dc_census := observe_data blob size (dc_census st)\<rparr>))))))"

definition preflight_dimensions ::
  "layout \<Rightarrow> vec_capacities \<Rightarrow> raw_program \<Rightarrow> validate_limits \<Rightarrow> planning_meter
     \<Rightarrow> validate_error + dimensions \<times> planning_meter" where
  "preflight_dimensions sizes caps raw limits planning =
     rbind (validation_scratch_bytes sizes) (\<lambda>scratch.
     rbind (enforce_count ValidationScratchBytes scratch (max_validation_scratch_bytes limits)) (\<lambda>_.
     rbind (fixed_shape_validation_work_upper_bound (length (raw_blocks raw)) (length (raw_data raw)) 0)
       (\<lambda>minimum_validation_work.
     rbind (enforce_work ValidationWork minimum_validation_work (max_validation_work limits)) (\<lambda>_.
     rbind (ok_or (umul (cap_blocks caps) (sz_block sizes)) (ArithmeticOverflow SitePhasePeakBytes))
       (\<lambda>block_capacity.
     rbind (ok_or (umul (cap_data caps) (sz_data_blob sizes)) (ArithmeticOverflow SitePhasePeakBytes))
       (\<lambda>data_table_capacity.
     rbind (ok_or (uadd block_capacity data_table_capacity) (ArithmeticOverflow SitePhasePeakBytes))
       (\<lambda>raw_capacity.
     rbind (enforce_count RawProgramCapacityBytes raw_capacity (max_raw_program_capacity_bytes limits)) (\<lambda>_.
     rbind (rfold block_census_step (raw_blocks raw) (planning, census_new)) (\<lambda>(planning, census).
     rbind (rfold (data_census_step caps limits) (zip [0..<length (raw_data raw)] (raw_data raw))
         \<lparr>dc_planning = planning, dc_census = census, dc_literal_capacity = 0,
          dc_raw_capacity = raw_capacity, dc_data_bytes = 0\<rparr>) (\<lambda>dc.
     rbind (census_finish (dc_census dc) (dc_data_bytes dc) limits) (\<lambda>dims.
     rbind (validation_work_upper_bound raw (dc_planning dc)) (\<lambda>(work, planning).
     Inr (dims\<lparr>dim_raw_program_capacity_bytes := dc_raw_capacity dc,
               dim_literal_capacity_bytes := dc_literal_capacity dc,
               dim_block_capacity_bytes := block_capacity,
               dim_data_table_capacity_bytes := data_table_capacity,
               dim_validation_work_upper_bound := work\<rparr>, planning)))))))))))))"

section \<open>Construction work\<close>

record construction_work =
  cw_allocation_requests :: nat
  cw_literal_allocation_request_bytes :: nat
  cw_block_allocation_request_bytes :: nat
  cw_data_table_allocation_request_bytes :: nat
  cw_raw_allocation_request_bytes :: nat
  cw_serialized_allocation_request_bytes :: nat
  cw_allocation_request_bytes :: nat
  cw_planning_work :: nat
  cw_initialization_work :: nat
  cw_copy_work :: nat
  cw_hash_invocations :: nat
  cw_hash_work :: nat
  cw_total_upper_bound :: nat
  cw_additional_retained_bytes :: nat

definition construction_work_new :: "dimensions \<Rightarrow> construction_seed \<Rightarrow> validate_error + construction_work" where
  "construction_work_new dims seed =
     rbind (ok_or (u8_add (cs_raw_allocation_requests seed) 1)
       (ArithmeticOverflow SiteConstructionAllocationBytes)) (\<lambda>allocation_requests.
     rbind (ok_or (uadd (cs_allocation_request_bytes seed) (dim_serialized_bytes dims))
       (ArithmeticOverflow SiteConstructionAllocationBytes)) (\<lambda>allocation_request_bytes.
     rbind (ok_or (u8_add (cs_additional_hash_invocations seed) 1)
       (ArithmeticOverflow SiteConstructionWork)) (\<lambda>hash_invocations.
     rbind (ok_or (umul hash_invocations identity_initialization_work_per_hash)
       (ArithmeticOverflow SiteConstructionWork)) (\<lambda>identity_initialization_work.
     rbind (ok_or (umul hash_invocations identity_copy_work_per_hash)
       (ArithmeticOverflow SiteConstructionWork)) (\<lambda>identity_copy_work.
     rbind (ok_or (uadds (cs_initialization_work seed)
         [dim_serialized_bytes_u64 dims, identity_initialization_work])
       (ArithmeticOverflow SiteConstructionWork)) (\<lambda>initialization_work.
     rbind (ok_or (uadds (cs_copy_work seed) [dim_serialized_bytes_u64 dims, identity_copy_work])
       (ArithmeticOverflow SiteConstructionWork)) (\<lambda>copy_work.
     rbind (ok_or (uadd (dim_serialized_bytes_u64 dims) (cs_additional_hash_work seed))
       (ArithmeticOverflow SiteConstructionWork)) (\<lambda>hash_work.
     rbind (ok_or (uadds (dim_validation_work_upper_bound dims)
         [cs_planning_work seed, initialization_work, copy_work, hash_work])
       (ArithmeticOverflow SiteConstructionWork)) (\<lambda>total_upper_bound.
     Inr \<lparr>cw_allocation_requests = allocation_requests,
       cw_literal_allocation_request_bytes = cs_literal_allocation_request_bytes seed,
       cw_block_allocation_request_bytes = cs_block_allocation_request_bytes seed,
       cw_data_table_allocation_request_bytes = cs_data_table_allocation_request_bytes seed,
       cw_raw_allocation_request_bytes = cs_allocation_request_bytes seed,
       cw_serialized_allocation_request_bytes = dim_serialized_bytes dims,
       cw_allocation_request_bytes = allocation_request_bytes,
       cw_planning_work = cs_planning_work seed, cw_initialization_work = initialization_work,
       cw_copy_work = copy_work, cw_hash_invocations = hash_invocations, cw_hash_work = hash_work,
       cw_total_upper_bound = total_upper_bound,
       cw_additional_retained_bytes = cs_additional_retained_bytes seed\<rparr>)))))))))"

section \<open>Phase peaks\<close>

record phase_peaks =
  peak_validation :: nat
  peak_serialization :: nat
  peak_identity :: nat
  peak_retained :: nat

definition phase_control_inline_bytes :: "layout \<Rightarrow> validate_error + nat" where
  "phase_control_inline_bytes sizes =
     ok_or (uadds (sz_validate_limits sizes) [sz_dimensions sizes, sz_census sizes,
         sz_planning_envelope sizes, sz_planning_meter sizes, sz_construction_seed sizes,
         sz_construction_work sizes, sz_phase_peaks sizes, sz_resource_accounting sizes,
         sz_block_slots8 sizes, sz_block_slots2 sizes, sz_flow_states2 sizes, sz_data_slots1 sizes,
         sz_class_shape sizes, saturating_mul 8 (sz_usize sizes)])
       (ArithmeticOverflow SitePhasePeakBytes)"

definition serialization_inline_scratch_bytes :: "layout \<Rightarrow> nat" where
  "serialization_inline_scratch_bytes sizes = saturating_add (sz_vec_u8 sizes) (sz_fixed_writer sizes)"

definition identity_inline_scratch_bytes :: "layout \<Rightarrow> nat" where
  "identity_inline_scratch_bytes sizes = saturating_add (sz_sha256 sizes) (saturating_mul 2 (sz_digest sizes))"

definition phase_peaks_of :: "layout \<Rightarrow> dimensions \<Rightarrow> nat \<Rightarrow> nat \<Rightarrow> validate_error + phase_peaks" where
  "phase_peaks_of sizes dims serialized_capacity additional_retained_bytes =
     rbind (validation_scratch_bytes sizes) (\<lambda>validation_scratch.
     rbind (phase_control_inline_bytes sizes) (\<lambda>control.
     rbind (ok_or (uadds (dim_raw_program_capacity_bytes dims)
         [sz_raw_program sizes, validation_scratch, control])
       (ArithmeticOverflow SitePhasePeakBytes)) (\<lambda>validation.
     rbind (ok_or (uadds (dim_raw_program_capacity_bytes dims)
         [serialized_capacity, sz_raw_program sizes, serialization_inline_scratch_bytes sizes, control])
       (ArithmeticOverflow SitePhasePeakBytes)) (\<lambda>serialization.
     rbind (ok_or (uadds (dim_raw_program_capacity_bytes dims)
         [serialized_capacity, sz_validated_program sizes, additional_retained_bytes])
       (ArithmeticOverflow SitePhasePeakBytes)) (\<lambda>retained.
     rbind (ok_or (uadds retained [identity_inline_scratch_bytes sizes, control])
       (ArithmeticOverflow SitePhasePeakBytes)) (\<lambda>identity.
     Inr \<lparr>peak_validation = validation, peak_serialization = serialization,
          peak_identity = identity, peak_retained = retained\<rparr>))))))"

section \<open>Accounting\<close>

definition resource_accounting_of ::
  "layout \<Rightarrow> dimensions \<Rightarrow> construction_work \<Rightarrow> nat \<Rightarrow> nat \<Rightarrow> validate_error + resource_accounting" where
  "resource_accounting_of sizes dims work serialized_capacity actual_validation_work =
     rbind (phase_peaks_of sizes dims serialized_capacity (cw_additional_retained_bytes work)) (\<lambda>peaks.
     rbind (validation_scratch_bytes sizes) (\<lambda>scratch.
     Inr \<lparr>ra_version = resource_accounting_version,
       ra_allocation_requests = cw_allocation_requests work,
       ra_literal_allocation_request_bytes = cw_literal_allocation_request_bytes work,
       ra_block_allocation_request_bytes = cw_block_allocation_request_bytes work,
       ra_data_table_allocation_request_bytes = cw_data_table_allocation_request_bytes work,
       ra_raw_allocation_request_bytes = cw_raw_allocation_request_bytes work,
       ra_serialized_allocation_request_bytes = cw_serialized_allocation_request_bytes work,
       ra_allocation_request_bytes = cw_allocation_request_bytes work,
       ra_literal_capacity_bytes = dim_literal_capacity_bytes dims,
       ra_block_capacity_bytes = dim_block_capacity_bytes dims,
       ra_data_table_capacity_bytes = dim_data_table_capacity_bytes dims,
       ra_raw_program_capacity_bytes = dim_raw_program_capacity_bytes dims,
       ra_serialized_capacity_bytes = serialized_capacity,
       ra_planning_work = cw_planning_work work,
       ra_initialization_work = cw_initialization_work work,
       ra_copy_work = cw_copy_work work,
       ra_hash_invocations = cw_hash_invocations work,
       ra_hash_work = cw_hash_work work,
       ra_validation_work = actual_validation_work,
       ra_validation_work_upper_bound = dim_validation_work_upper_bound dims,
       ra_construction_work = cw_total_upper_bound work,
       ra_validation_scratch_bytes = scratch,
       ra_validation_phase_peak_bytes = peak_validation peaks,
       ra_serialization_phase_peak_bytes = peak_serialization peaks,
       ra_identity_phase_peak_bytes = peak_identity peaks,
       ra_retained_program_bytes = peak_retained peaks\<rparr>))"

definition admit_accounting :: "resource_accounting \<Rightarrow> validate_limits \<Rightarrow> validate_error + unit" where
  "admit_accounting accounting limits =
     rbind (enforce_count ConstructionAllocationBytes (ra_allocation_request_bytes accounting)
       (max_construction_allocation_bytes limits)) (\<lambda>_.
     rbind (enforce_count RawProgramCapacityBytes (ra_raw_program_capacity_bytes accounting)
       (max_raw_program_capacity_bytes limits)) (\<lambda>_.
     rbind (enforce_count SerializedCapacityBytes (ra_serialized_capacity_bytes accounting)
       (max_serialized_capacity_bytes limits)) (\<lambda>_.
     rbind (enforce_work ValidationWork (ra_validation_work_upper_bound accounting)
       (max_validation_work limits)) (\<lambda>_.
     rbind (enforce_work ConstructionWork (ra_construction_work accounting)
       (max_construction_work limits)) (\<lambda>_.
     rbind (enforce_count ValidationScratchBytes (ra_validation_scratch_bytes accounting)
       (max_validation_scratch_bytes limits)) (\<lambda>_.
     rbind (enforce_count ValidationPhaseBytes (ra_validation_phase_peak_bytes accounting)
       (max_validation_phase_bytes limits)) (\<lambda>_.
     rbind (enforce_count SerializationPhaseBytes (ra_serialization_phase_peak_bytes accounting)
       (max_serialization_phase_bytes limits)) (\<lambda>_.
     rbind (enforce_count IdentityPhaseBytes (ra_identity_phase_peak_bytes accounting)
       (max_identity_phase_bytes limits)) (\<lambda>_.
     rbind (enforce_count RetainedProgramBytes (ra_retained_program_bytes accounting)
       (max_retained_program_bytes limits)) (\<lambda>_. Inr ()))))))))))"

definition admit_prospective ::
  "layout \<Rightarrow> dimensions \<Rightarrow> construction_work \<Rightarrow> validate_limits \<Rightarrow> validate_error + unit" where
  "admit_prospective sizes dims work limits =
     rbind (resource_accounting_of sizes dims work (dim_serialized_bytes dims) 0)
       (\<lambda>accounting. admit_accounting accounting limits)"

end
