(* ===== verification/KirPlan.thy ===== *)
theory KirPlan
  imports KirCensus
begin

text \<open>
  The preflight of \<^verbatim>\<open>validate.rs\<close> is exact: the census of the serialized size is the length of the
  serialization, the planned work is what the planning meter ends with, and the bound it
  computes for the validator is the closed formula. Its failures are resource errors only.
\<close>

fun is_resource :: "validate_error \<Rightarrow> bool" where
  "is_resource (KirResourceLimit _ _ _) = True"
| "is_resource (ArithmeticOverflow _) = True"
| "is_resource (KirAllocationFailed _) = True"
| "is_resource _ = False"

section \<open>Sizes\<close>

fun payload :: "data_blob \<Rightarrow> nat" where
  "payload (Bytes value) = length value"
| "payload (Class cls) = 32"

lemma length_encode_op: "length (encode_op op) = fst (block_sizes op)"
  by (cases op) simp_all

lemma length_encode_blob: "length (encode_blob blob) = payload blob + 5"
proof (cases blob)
  case (Class cls)
  then show ?thesis by (cases cls) (simp add: encode_len_def)
qed (simp add: encode_len_def)

definition serialized_size :: "raw_program \<Rightarrow> nat" where
  "serialized_size raw = serialized_header_bytes + sum_list (map (\<lambda>op. fst (block_sizes op)) (raw_blocks raw))
     + sum_list (map (\<lambda>blob. payload blob + 5) (raw_data raw))"

lemma length_encode: "length (encode raw) = serialized_size raw"
  by (simp add: encode_def serialized_size_def length_concat comp_def length_encode_op length_encode_blob
      encode_len_def program_magic_def serialized_header_bytes_def)

fun longest_literal :: "data_blob list \<Rightarrow> nat" where
  "longest_literal [] = 0"
| "longest_literal (blob # blobs) = max (if is_bytes blob then payload blob else 0) (longest_literal blobs)"

lemma longest_literal_upper: "Bytes bs \<in> set blobs \<Longrightarrow> length bs \<le> longest_literal blobs"
  by (induction blobs) auto

section \<open>Census\<close>

lemma accumulate_checked_Some:
  "accumulate_checked sofar increment = Some n \<longleftrightarrow>
     (\<exists>a b. sofar = Some a \<and> increment = Some b \<and> n = a + b \<and> n \<le> usize_max)"
  by (auto simp: accumulate_checked_def bind_eq_Some_conv split: option.splits)

lemma block_census_success:
  "rfold block_census_step ops (planning, census) = Inr (planning', census') \<Longrightarrow>
   planning' = planning\<lparr>pm_consumed := pm_consumed planning + length ops\<rparr>
   \<and> census_longest_literal census' = census_longest_literal census
   \<and> (\<forall>n. census_serialized census' = Some n \<longrightarrow>
        (\<exists>m. census_serialized census = Some m \<and> n = m + sum_list (map (\<lambda>op. fst (block_sizes op)) ops)))"
proof (induction ops arbitrary: planning census)
  case (Cons op ops)
  then obtain p c where step: "block_census_step op (planning, census) = Inr (p, c)"
    and rest: "rfold block_census_step ops (p, c) = Inr (planning', census')" by (auto elim!: rbindE)
  have "p = planning\<lparr>pm_consumed := pm_consumed planning + 1\<rparr>" "c = observe_block op census"
    using step by (auto simp: block_census_step_def rbind_eq_Inr)
  with Cons.IH [OF rest] show ?case
    by (fastforce simp: observe_block_def accumulate_checked_Some split: prod.splits)
qed simp

lemma data_census_step_success:
  assumes "data_census_step caps limits (i, blob) st = Inr st'"
  shows "dc_planning st' = (dc_planning st)\<lparr>pm_consumed := pm_consumed (dc_planning st) + 1\<rparr>"
    "dc_census st' = observe_data blob (payload blob) (dc_census st)"
    "dc_data_bytes st' = dc_data_bytes st + payload blob" "payload blob \<le> u32_max"
  using assms
  by (cases blob; auto simp: data_census_step_def blob_capacity_step_def rbind_eq_Inr)+

lemma data_census_success:
  "rfold (data_census_step caps limits) xs st = Inr st' \<Longrightarrow>
   dc_planning st' = (dc_planning st)\<lparr>pm_consumed := pm_consumed (dc_planning st) + length xs\<rparr>
   \<and> dc_data_bytes st' = dc_data_bytes st + sum_list (map (\<lambda>x. payload (snd x)) xs)
   \<and> census_longest_literal (dc_census st') =
        max (census_longest_literal (dc_census st)) (longest_literal (map snd xs))
   \<and> (\<forall>n. census_serialized (dc_census st') = Some n \<longrightarrow>
        (\<exists>m. census_serialized (dc_census st) = Some m \<and> n = m + sum_list (map (\<lambda>x. payload (snd x) + 5) xs)))
   \<and> (\<forall>x\<in>set xs. payload (snd x) \<le> u32_max)"
proof (induction xs arbitrary: st)
  case (Cons x xs)
  obtain i blob where x: "x = (i, blob)" by (cases x)
  from Cons.prems obtain st1 where step: "data_census_step caps limits (i, blob) st = Inr st1"
    and rest: "rfold (data_census_step caps limits) xs st1 = Inr st'" using x by (auto elim!: rbindE)
  show ?case
    using Cons.IH [OF rest] data_census_step_success [OF step] x
    by (fastforce simp: observe_data_def accumulate_checked_Some)
qed simp

lemma census_finish_success:
  assumes "census_finish census data_bytes limits = Inr dims"
  shows "dim_serialized_bytes dims \<le> max_serialized_bytes limits"
    "census_serialized census = Some (dim_serialized_bytes dims)"
    "dim_serialized_bytes_u64 dims = dim_serialized_bytes dims"
    "dim_work_factor dims = census_longest_literal census + 8" "dim_data_bytes dims = data_bytes"
    "dim_work_factor dims \<le> usize_max"
  using assms by (auto simp: census_finish_def rbind_eq_Inr split: if_splits)

section \<open>The planned comparison work\<close>

lemma compare_success:
  "rfold (compare_step blob) priors (planning, work) = Inr (planning', work') \<Longrightarrow>
   planning' = planning\<lparr>pm_consumed := pm_consumed planning + 2 * length priors\<rparr>
   \<and> work' = work + sum_list (map (\<lambda>prior. blob_touches blob prior + 2) priors)"
proof (induction priors arbitrary: planning work)
  case (Cons prior priors)
  then obtain p w where step: "compare_step blob prior (planning, work) = Inr (p, w)"
    and rest: "rfold (compare_step blob) priors (p, w) = Inr (planning', work')" by (auto elim!: rbindE)
  have "p = planning\<lparr>pm_consumed := pm_consumed planning + 2\<rparr>" "w = work + (blob_touches blob prior + 2)"
    using step by (auto simp: compare_step_def rbind_eq_Inr)
  with Cons.IH [OF rest] show ?case by simp
qed simp

lemma scan_success:
  "rfold (scan_step blobs) xs (planning, work) = Inr (planning', work') \<Longrightarrow>
   \<forall>x\<in>set xs. fst x \<le> length blobs \<Longrightarrow>
   planning' = planning\<lparr>pm_consumed := pm_consumed planning + sum_list (map (\<lambda>x. 1 + 2 * fst x) xs)\<rparr>
   \<and> work' = work + sum_list (map (blob_scan blobs) xs)"
proof (induction xs arbitrary: planning work)
  case (Cons x xs)
  obtain i blob where x: "x = (i, blob)" by (cases x)
  from Cons.prems obtain p w where step: "scan_step blobs x (planning, work) = Inr (p, w)"
    and rest: "rfold (scan_step blobs) xs (p, w) = Inr (planning', work')" by (auto elim!: rbindE)
  have "i \<le> length blobs" using Cons.prems(2) x by simp
  with step have "p = planning\<lparr>pm_consumed := pm_consumed planning + (1 + 2 * i)\<rparr>" "w = work + blob_scan blobs x"
    by (auto simp: scan_step_def x rbind_eq_Inr blob_scan_def dest!: compare_success split: if_splits)
  with Cons.IH [OF rest] Cons.prems(2) x show ?case by simp
qed simp

lemma sum_odd: "sum_list (map (\<lambda>i. 1 + 2 * i) [0..<n]) = n * (n :: nat)"
  by (induction n) (auto simp: algebra_simps)

lemma planned_work:
  assumes "validation_work_upper_bound raw planning = Inr (work, planning')"
  shows "work = length (raw_blocks raw) * 11 + length (raw_data raw) + data_scan_work (raw_data raw) + 11"
    "work \<le> usize_max"
    "pm_consumed planning' = pm_consumed planning + length (raw_data raw) * length (raw_data raw)"
proof -
  let ?xs = "zip [0..<length (raw_data raw)] (raw_data raw)"
  obtain data_work where fold: "rfold (scan_step (raw_data raw)) ?xs (planning, 0) = Inr (planning', data_work)"
    and formula: "validation_work_formula (length (raw_blocks raw)) (length (raw_data raw)) data_work = Inr work"
    using assms by (auto simp: validation_work_upper_bound_def rbind_eq_Inr)
  have "\<forall>x\<in>set ?xs. fst x \<le> length (raw_data raw)" by (auto simp: set_zip)
  note ok = scan_success [OF fold this]
  have "map (\<lambda>x. 1 + 2 * fst x) ?xs = map (\<lambda>i. 1 + 2 * i) (map fst ?xs)"
    by (simp only: map_map comp_def)
  also have "map fst ?xs = [0..<length (raw_data raw)]" by simp
  finally have "sum_list (map (\<lambda>x. 1 + 2 * fst x) ?xs) = length (raw_data raw) * length (raw_data raw)"
    by (simp only: sum_odd)
  with ok show "pm_consumed planning' = pm_consumed planning + length (raw_data raw) * length (raw_data raw)"
    by simp
  show "work = length (raw_blocks raw) * 11 + length (raw_data raw) + data_scan_work (raw_data raw) + 11"
    "work \<le> usize_max"
    using ok formula by (simp_all add: data_scan_work_def)
qed

section \<open>Preflight\<close>

lemma preflight_success:
  assumes "preflight_dimensions sizes caps raw limits planning = Inr (dims, planning')"
  shows "dim_serialized_bytes dims = length (encode raw)" "dim_serialized_bytes_u64 dims = length (encode raw)"
    "length (encode raw) \<le> max_serialized_bytes limits"
    "dim_work_factor dims = longest_literal (raw_data raw) + 8" "dim_work_factor dims \<le> usize_max"
    "dim_data_bytes dims = sum_list (map payload (raw_data raw))"
    "dim_validation_work_upper_bound dims =
       length (raw_blocks raw) * 11 + length (raw_data raw) + data_scan_work (raw_data raw) + 11"
    "dim_validation_work_upper_bound dims \<le> usize_max"
    "pm_consumed planning' = pm_consumed planning + length (raw_blocks raw) + length (raw_data raw)
       + length (raw_data raw) * length (raw_data raw)"
    "list_all blob_fits (raw_data raw)"
proof -
  let ?xs = "zip [0..<length (raw_data raw)] (raw_data raw)"
  obtain block_capacity table_capacity raw_capacity planning1 census dc dims0 work where
    blocks: "rfold block_census_step (raw_blocks raw) (planning, census_new) = Inr (planning1, census)"
    and dc: "rfold (data_census_step caps limits) ?xs \<lparr>dc_planning = planning1, dc_census = census,
        dc_literal_capacity = 0, dc_raw_capacity = raw_capacity, dc_data_bytes = 0\<rparr> = Inr dc"
    and fin: "census_finish (dc_census dc) (dc_data_bytes dc) limits = Inr dims0"
    and plan: "validation_work_upper_bound raw (dc_planning dc) = Inr (work, planning')"
    and dims: "dims = dims0\<lparr>dim_raw_program_capacity_bytes := dc_raw_capacity dc,
               dim_literal_capacity_bytes := dc_literal_capacity dc,
               dim_block_capacity_bytes := block_capacity,
               dim_data_table_capacity_bytes := table_capacity,
               dim_validation_work_upper_bound := work\<rparr>"
    using assms unfolding preflight_dimensions_def
    by (auto simp: rbind_eq_Inr split: prod.splits)
  note b = block_census_success [OF blocks] and d = data_census_success [OF dc]
    and f = census_finish_success [OF fin] and w = planned_work [OF plan]
  have snd: "map snd ?xs = raw_data raw" by simp
  have sums: "map (\<lambda>x. payload (snd x)) ?xs = map payload (raw_data raw)"
    "map (\<lambda>x. payload (snd x) + 5) ?xs = map (\<lambda>blob. payload blob + 5) (raw_data raw)"
    using arg_cong [OF snd, of "map payload"] arg_cong [OF snd, of "map (\<lambda>blob. payload blob + 5)"]
    unfolding map_map comp_def .
  have "dim_serialized_bytes dims0 = serialized_size raw"
    using b d f(2) by (auto simp: serialized_size_def sums census_new_def)
  then show "dim_serialized_bytes dims = length (encode raw)" "dim_serialized_bytes_u64 dims = length (encode raw)"
    "length (encode raw) \<le> max_serialized_bytes limits"
    using f by (simp_all add: dims length_encode)
  show "dim_work_factor dims = longest_literal (raw_data raw) + 8" "dim_work_factor dims \<le> usize_max"
    "dim_data_bytes dims = sum_list (map payload (raw_data raw))"
    using b d f by (simp_all add: dims sums census_new_def)
  show "dim_validation_work_upper_bound dims =
       length (raw_blocks raw) * 11 + length (raw_data raw) + data_scan_work (raw_data raw) + 11"
    "dim_validation_work_upper_bound dims \<le> usize_max" using w by (simp_all add: dims)
  show "pm_consumed planning' = pm_consumed planning + length (raw_blocks raw) + length (raw_data raw)
       + length (raw_data raw) * length (raw_data raw)"
    using w(3) b d by simp
  have "\<forall>blob\<in>set (raw_data raw). payload blob \<le> u32_max"
  proof
    fix blob assume "blob \<in> set (raw_data raw)"
    then obtain x where "x \<in> set ?xs" "snd x = blob" using snd by (metis image_iff list.set_map)
    with d show "payload blob \<le> u32_max" by auto
  qed
  moreover have "payload blob \<le> u32_max \<Longrightarrow> blob_fits blob" for blob by (cases blob) auto
  ultimately show "list_all blob_fits (raw_data raw)" by (auto simp: list_all_iff)
qed

end
