(* ===== verification/KirValidator.thy ===== *)
theory KirValidator
  imports KirMeter
begin

text \<open>
  The structural validator of \<^verbatim>\<open>validate.rs\<close> (\<^verbatim>\<open>Validator\<close> and its helpers): headers, targets and flow
  states, reachability, data entries, topology and dominance. The traversal stack \<^verbatim>\<open>[usize; 64]\<close>
  with its length is the list of its live entries, the top first; a push beyond the array is a panic,
  as is an index or an \<^verbatim>\<open>expect\<close> that fails.
\<close>

section \<open>Flow states\<close>

datatype flow_state = FInitial | FCursor | FRun | FMatch | FExhausted | FRejected

fun required_state :: "block_op \<Rightarrow> flow_state" where
  "required_state (Entry _) = FInitial"
| "required_state (ScanLiteral _ _ _ _) = FCursor"
| "required_state (ScanClassStart _ _ _ _) = FCursor"
| "required_state (ExtendClassRun _ _) = FRun"
| "required_state (ConfirmSuffix _ _ _ _) = FRun"
| "required_state (AdvanceAfterReject _) = FRejected"
| "required_state ReturnFound = FMatch"
| "required_state ReturnNone = FExhausted"

fun outgoing_states :: "block_op \<Rightarrow> flow_state list" where
  "outgoing_states (Entry _) = [FCursor, FInitial]"
| "outgoing_states (AdvanceAfterReject _) = [FCursor, FInitial]"
| "outgoing_states (ScanLiteral _ _ _ _) = [FMatch, FExhausted]"
| "outgoing_states (ScanClassStart _ _ _ _) = [FRun, FExhausted]"
| "outgoing_states (ExtendClassRun _ _) = [FRun, FInitial]"
| "outgoing_states (ConfirmSuffix _ _ _ _) = [FMatch, FRejected]"
| "outgoing_states ReturnFound = [FInitial, FInitial]"
| "outgoing_states ReturnNone = [FInitial, FInitial]"

fun referenced_data :: "block_op \<Rightarrow> data_id list" where
  "referenced_data (ScanLiteral needle _ _ _) = [needle]"
| "referenced_data (ScanClassStart cls _ _ _) = [cls]"
| "referenced_data (ExtendClassRun cls _) = [cls]"
| "referenced_data (ConfirmSuffix suffix _ _ _) = [suffix]"
| "referenced_data _ = []"

fun data_kind_ok :: "block_op \<Rightarrow> data_blob \<Rightarrow> bool" where
  "data_kind_ok (ScanLiteral _ _ _ _) (Bytes _) = True"
| "data_kind_ok (ConfirmSuffix _ _ _ _) (Bytes _) = True"
| "data_kind_ok (ScanClassStart _ _ _ _) (Class _) = True"
| "data_kind_ok (ExtendClassRun _ _) (Class _) = True"
| "data_kind_ok _ _ = False"

section \<open>Indices\<close>

definition index_id :: "nat \<Rightarrow> validate_error + u32w" where
  "index_id index =
     (if index \<le> u32_max then Inr (word_of_nat index) else Inl (ArithmeticOverflow SiteValidationWork))"

definition block_index :: "block_id \<Rightarrow> nat" where
  "block_index block = unat (block_no block)"

definition data_index :: "data_id \<Rightarrow> nat" where
  "data_index d = unat (data_no d)"

section \<open>The validator\<close>

record validator =
  vd_raw :: raw_program
  vd_meter :: val_meter
  vd_reachable :: "bool list"
  vd_data_use :: "nat list"

definition validator_new :: "raw_program \<Rightarrow> val_meter \<Rightarrow> validator" where
  "validator_new raw meter = \<lparr>vd_raw = raw, vd_meter = meter,
     vd_reachable = replicate hard_max_blocks False, vd_data_use = replicate hard_max_blocks 0\<rparr>"

definition vd_charge :: "nat \<Rightarrow> validator \<Rightarrow> validate_error + validator" where
  "vd_charge amount v = rbind (val_charge amount (vd_meter v)) (\<lambda>meter. Inr (v\<lparr>vd_meter := meter\<rparr>))"

definition validate_headers :: "output_kind \<Rightarrow> raw_program \<Rightarrow> validate_error + unit" where
  "validate_headers kind raw =
     (if schema_version raw \<noteq> raw_schema_version then Inl (Invalid (BadSchemaVersion (schema_version raw)))
      else if semantics raw \<noteq> semantics_current
        then Inl (Invalid (BadSemanticsVersion (semantics_no (semantics raw))))
      else if abi raw \<noteq> abi_current then Inl (Invalid (BadAbiVersion (abi_no (abi raw))))
      else if raw_output raw \<noteq> kind then Inl (Invalid OutputContract)
      else Inr ())"

definition vd_headers :: "output_kind \<Rightarrow> validator \<Rightarrow> validate_error + validator" where
  "vd_headers kind v =
     rbind (vd_charge 4 v) (\<lambda>v.
     if schema_version (vd_raw v) \<noteq> raw_schema_version
       then Inl (Invalid (BadSchemaVersion (schema_version (vd_raw v))))
     else if semantics (vd_raw v) \<noteq> semantics_current
       then Inl (Invalid (BadSemanticsVersion (semantics_no (semantics (vd_raw v)))))
     else if abi (vd_raw v) \<noteq> abi_current then Inl (Invalid (BadAbiVersion (abi_no (abi (vd_raw v)))))
     else if raw_output (vd_raw v) \<noteq> kind then Inl (Invalid OutputContract)
     else Inr v)"

definition edge_step :: "u32w \<Rightarrow> block_id \<times> flow_state \<Rightarrow> validator \<Rightarrow> validate_error + validator" where
  "edge_step source_id edge v =
     (case edge of (target, st) \<Rightarrow>
        rbind (vd_charge 1 v) (\<lambda>v.
        if block_index target \<ge> length (raw_blocks (vd_raw v))
        then Inl (Invalid (BlockTargetOutOfRange source_id (block_no target)))
        else if required_state (raw_blocks (vd_raw v) ! block_index target) \<noteq> st
        then Inl (Invalid (FlowStateMismatch (block_no target)))
        else Inr v))"

definition data_step :: "u32w \<Rightarrow> block_op \<Rightarrow> data_id \<Rightarrow> validator \<Rightarrow> validate_error + validator" where
  "data_step source_id op d v =
     rbind (vd_charge 1 v) (\<lambda>v.
     if data_index d \<ge> length (raw_data (vd_raw v))
     then Inl (Invalid (DataTargetOutOfRange source_id (data_no d)))
     else if data_index d \<ge> length (vd_data_use v)
     then Inl (KirResourceLimit DataBlobs hard_max_blocks (length (raw_data (vd_raw v))))
     else if vd_data_use v ! data_index d + 1 > u32_max
     then Inl (ArithmeticOverflow SiteValidationWork)
     else
       let v = v\<lparr>vd_data_use := (vd_data_use v)[data_index d := vd_data_use v ! data_index d + 1]\<rparr> in
       if data_kind_ok op (raw_data (vd_raw v) ! data_index d) then Inr v
       else Inl (Invalid (WrongDataKind source_id (data_no d))))"

definition flow_block :: "nat \<times> block_op \<Rightarrow> validator \<Rightarrow> validate_error + validator" where
  "flow_block block v =
     (case block of (source, op) \<Rightarrow>
        rbind (vd_charge 1 v) (\<lambda>v.
        rbind (index_id source) (\<lambda>source_id.
        rbind (rfold (edge_step source_id) (zip (successors op) (outgoing_states op)) v)
          (rfold (data_step source_id op) (referenced_data op)))))"

fun is_entry :: "block_op \<Rightarrow> bool" where
  "is_entry (Entry _) = True"
| "is_entry _ = False"

definition numbered :: "'a list \<Rightarrow> (nat \<times> 'a) list" where
  "numbered xs = zip [0..<length xs] xs"

definition vd_targets_and_flow :: "validator \<Rightarrow> validate_error + validator" where
  "vd_targets_and_flow v =
     (if raw_blocks (vd_raw v) = [] then Inl (Invalid EmptyBlocks)
      else if block_index (raw_entry (vd_raw v)) \<ge> length (raw_blocks (vd_raw v))
      then Inl (Invalid EntryOutOfRange)
      else if \<not> is_entry (raw_blocks (vd_raw v) ! block_index (raw_entry (vd_raw v)))
      then Inl (Invalid EntryIsNotEntry)
      else rfold flow_block (numbered (raw_blocks (vd_raw v))) v)"

section \<open>Reachability\<close>

text \<open>Marking one successor: a new block is marked and pushed.\<close>

definition visit :: "(block_id \<Rightarrow> bool) \<Rightarrow> block_id \<Rightarrow> bool list \<times> nat list \<Rightarrow> validate_error + bool list \<times> nat list" where
  "visit admitted successor st =
     (case st of (seen, stack) \<Rightarrow>
        if \<not> admitted successor then Inr (seen, stack)
        else if block_index successor \<ge> length seen then Inl ValidatePanic
        else if seen ! block_index successor then Inr (seen, stack)
        else if length stack \<ge> hard_max_blocks then Inl ValidatePanic
        else Inr (seen[block_index successor := True], block_index successor # stack))"

function reach_loop ::
  "raw_program \<Rightarrow> nat list \<Rightarrow> bool list \<Rightarrow> val_meter \<Rightarrow> validate_error + bool list \<times> val_meter" where
  "reach_loop raw stack reachable meter =
     (case stack of
        [] \<Rightarrow> Inr (reachable, meter)
      | current # stack \<Rightarrow>
          rbind (val_charge 1 meter) (\<lambda>meter.
          if current \<ge> length (raw_blocks raw) then Inl ValidatePanic
          else
            rbind (rfold (visit (\<lambda>_. True)) (successors (raw_blocks raw ! current)) (reachable, stack))
              (\<lambda>(reachable, stack). reach_loop raw stack reachable meter)))"
  by pat_completeness auto
termination
  by (relation "measure (\<lambda>(raw, stack, reachable, meter). usize_max - vm_consumed meter)") auto

declare reach_loop.simps [simp del]

definition reach_check :: "nat \<times> bool \<Rightarrow> validator \<Rightarrow> validate_error + validator" where
  "reach_check entry v =
     (case entry of (index, reachable) \<Rightarrow>
        rbind (vd_charge 1 v) (\<lambda>v.
        if reachable then Inr v
        else rbind (index_id index) (\<lambda>block. Inl (Invalid (UnreachableBlock block)))))"

definition vd_reachability :: "validator \<Rightarrow> validate_error + validator" where
  "vd_reachability v =
     (let start = block_index (raw_entry (vd_raw v)) in
      if start \<ge> length (vd_reachable v) then Inl ValidatePanic
      else
        rbind (reach_loop (vd_raw v) [start] ((vd_reachable v)[start := True]) (vd_meter v))
          (\<lambda>(reachable, meter).
            rfold reach_check (numbered (take (length (raw_blocks (vd_raw v))) reachable))
              (v\<lparr>vd_reachable := reachable, vd_meter := meter\<rparr>)))"

section \<open>Data\<close>

definition duplicate_step :: "nat \<Rightarrow> data_blob \<Rightarrow> nat \<times> data_blob \<Rightarrow> validator \<Rightarrow> validate_error + validator" where
  "duplicate_step index blob prior v =
     (case prior of (first, other) \<Rightarrow>
        rbind (blob_compare_work blob other) (\<lambda>work.
        rbind (vd_charge work v) (\<lambda>v.
        if blob = other
        then rbind (index_id first) (\<lambda>first. rbind (index_id index) (\<lambda>second.
          Inl (Invalid (DuplicateData first second))))
        else Inr v)))"

definition class_step :: "nat \<Rightarrow> data_blob \<Rightarrow> validator \<Rightarrow> validate_error + validator" where
  "class_step index blob v =
     (case blob of
        Class cls \<Rightarrow>
          rbind (vd_charge 4 v) (\<lambda>v.
          if class_is_empty cls then rbind (index_id index) (\<lambda>d. Inl (Invalid (EmptyClass d)))
          else Inr v)
      | Bytes _ \<Rightarrow> Inr v)"

definition blob_step :: "nat \<times> data_blob \<Rightarrow> validator \<Rightarrow> validate_error + validator" where
  "blob_step entry v =
     (case entry of (index, blob) \<Rightarrow>
        rbind (vd_charge 1 v) (\<lambda>v.
        if index \<ge> length (vd_data_use v) then Inl ValidatePanic
        else if vd_data_use v ! index = 0
        then rbind (index_id index) (\<lambda>d. Inl (Invalid (UnusedData d)))
        else rbind (class_step index blob v)
          (rfold (duplicate_step index blob) (take index (numbered (raw_data (vd_raw v)))))))"

definition vd_data :: "validator \<Rightarrow> validate_error + validator" where
  "vd_data v = rfold blob_step (numbered (raw_data (vd_raw v))) v"

section \<open>Topology and dominance\<close>

record block_slots =
  slot_entry :: "block_id option"
  slot_literal :: "block_id option"
  slot_scan_class :: "block_id option"
  slot_extend :: "block_id option"
  slot_confirm :: "block_id option"
  slot_advance :: "block_id option"
  slot_found :: "block_id option"
  slot_none :: "block_id option"

definition slots_empty :: block_slots where
  "slots_empty = \<lparr>slot_entry = None, slot_literal = None, slot_scan_class = None,
     slot_extend = None, slot_confirm = None, slot_advance = None, slot_found = None, slot_none = None\<rparr>"

fun slot_of :: "block_op \<Rightarrow> block_slots \<Rightarrow> block_id option" where
  "slot_of (Entry _) slots = slot_entry slots"
| "slot_of (ScanLiteral _ _ _ _) slots = slot_literal slots"
| "slot_of (ScanClassStart _ _ _ _) slots = slot_scan_class slots"
| "slot_of (ExtendClassRun _ _) slots = slot_extend slots"
| "slot_of (ConfirmSuffix _ _ _ _) slots = slot_confirm slots"
| "slot_of (AdvanceAfterReject _) slots = slot_advance slots"
| "slot_of ReturnFound slots = slot_found slots"
| "slot_of ReturnNone slots = slot_none slots"

fun slot_fill :: "block_op \<Rightarrow> block_id \<Rightarrow> block_slots \<Rightarrow> block_slots" where
  "slot_fill (Entry _) i slots = slots\<lparr>slot_entry := Some i\<rparr>"
| "slot_fill (ScanLiteral _ _ _ _) i slots = slots\<lparr>slot_literal := Some i\<rparr>"
| "slot_fill (ScanClassStart _ _ _ _) i slots = slots\<lparr>slot_scan_class := Some i\<rparr>"
| "slot_fill (ExtendClassRun _ _) i slots = slots\<lparr>slot_extend := Some i\<rparr>"
| "slot_fill (ConfirmSuffix _ _ _ _) i slots = slots\<lparr>slot_confirm := Some i\<rparr>"
| "slot_fill (AdvanceAfterReject _) i slots = slots\<lparr>slot_advance := Some i\<rparr>"
| "slot_fill ReturnFound i slots = slots\<lparr>slot_found := Some i\<rparr>"
| "slot_fill ReturnNone i slots = slots\<lparr>slot_none := Some i\<rparr>"

definition slot_step :: "nat \<times> block_op \<Rightarrow> validator \<times> block_slots \<Rightarrow> validate_error + validator \<times> block_slots" where
  "slot_step block st =
     (case block of (index, op) \<Rightarrow> case st of (v, slots) \<Rightarrow>
        rbind (vd_charge 1 v) (\<lambda>v.
        rbind (index_id index) (\<lambda>i.
        if slot_of op slots \<noteq> None then Inl (Invalid (NonCanonicalTopology i))
        else Inr (v, slot_fill op (BlockId i) slots))))"

definition vd_op :: "raw_program \<Rightarrow> block_id \<Rightarrow> validate_error + block_op" where
  "vd_op raw i =
     (if block_index i < length (raw_blocks raw) then Inr (raw_blocks raw ! block_index i)
      else Inl ValidatePanic)"

definition vd_bytes :: "raw_program \<Rightarrow> data_id \<Rightarrow> block_id \<Rightarrow> validate_error + bytes" where
  "vd_bytes raw d block =
     (if data_index d < length (raw_data raw) then
        case raw_data raw ! data_index d of
          Bytes bs \<Rightarrow> Inr bs
        | Class _ \<Rightarrow> Inl (Invalid (WrongDataKind (block_no block) (data_no d)))
      else Inl ValidatePanic)"

definition vd_class :: "raw_program \<Rightarrow> data_id \<Rightarrow> block_id \<Rightarrow> validate_error + byte_class" where
  "vd_class raw d block =
     (if data_index d < length (raw_data raw) then
        case raw_data raw ! data_index d of
          Class cls \<Rightarrow> Inr cls
        | Bytes _ \<Rightarrow> Inl (Invalid (WrongDataKind (block_no block) (data_no d)))
      else Inl ValidatePanic)"

function avoid_loop ::
  "raw_program \<Rightarrow> block_id \<Rightarrow> block_id \<Rightarrow> nat list \<Rightarrow> bool list \<Rightarrow> val_meter \<Rightarrow> validate_error + bool \<times> val_meter" where
  "avoid_loop raw target avoided stack seen meter =
     (case stack of
        [] \<Rightarrow> Inr (False, meter)
      | current # stack \<Rightarrow>
          rbind (val_charge 1 meter) (\<lambda>meter.
          rbind (index_id current) (\<lambda>current_id.
          if BlockId current_id = target then Inr (True, meter)
          else if current \<ge> length (raw_blocks raw) then Inl ValidatePanic
          else
            rbind (rfold (visit (\<lambda>successor. successor \<noteq> avoided))
                (successors (raw_blocks raw ! current)) (seen, stack))
              (\<lambda>(seen, stack). avoid_loop raw target avoided stack seen meter))))"
  by pat_completeness auto
termination
  by (relation "measure (\<lambda>(raw, target, avoided, stack, seen, meter). usize_max - vm_consumed meter)") auto

declare avoid_loop.simps [simp del]

definition reachable_avoiding :: "block_id \<Rightarrow> block_id \<Rightarrow> validator \<Rightarrow> validate_error + bool \<times> validator" where
  "reachable_avoiding target avoided v =
     (let start = block_index (raw_entry (vd_raw v)) in
      if raw_entry (vd_raw v) = avoided then Inr (False, v)
      else if start \<ge> hard_max_blocks then Inl ValidatePanic
      else
        rbind (avoid_loop (vd_raw v) target avoided [start]
            ((replicate hard_max_blocks False)[start := True]) (vd_meter v))
          (\<lambda>(found, meter). Inr (found, v\<lparr>vd_meter := meter\<rparr>)))"

definition require_dominates :: "block_id \<Rightarrow> block_id \<Rightarrow> validator \<Rightarrow> validate_error + validator" where
  "require_dominates dominator target v =
     rbind (reachable_avoiding target dominator v) (\<lambda>(found, v).
     if found then Inl (Invalid (DominanceViolation (block_no dominator) (block_no target)))
     else Inr v)"

definition require_literal_edges ::
  "block_id \<Rightarrow> block_id \<Rightarrow> block_id \<Rightarrow> block_id \<Rightarrow> validator \<Rightarrow> validate_error + validator" where
  "require_literal_edges start scan found none v =
     rbind (vd_op (vd_raw v) start) (\<lambda>start_op.
     rbind (vd_op (vd_raw v) scan) (\<lambda>scan_op.
     if (case start_op of Entry next \<Rightarrow> next = scan | _ \<Rightarrow> False)
        \<and> (case scan_op of ScanLiteral _ _ matched exhausted \<Rightarrow> matched = found \<and> exhausted = none
           | _ \<Rightarrow> False)
     then Inr v
     else Inl (Invalid (NonCanonicalTopology (block_no scan)))))"

record class_shape =
  shape_entry :: block_id
  shape_scan :: block_id
  shape_extend :: block_id
  shape_confirm :: block_id
  shape_advance :: block_id
  shape_found :: block_id
  shape_none :: block_id

definition class_edges_ok ::
  "class_shape \<Rightarrow> block_op \<Rightarrow> block_op \<Rightarrow> block_op \<Rightarrow> block_op \<Rightarrow> block_op \<Rightarrow> bool" where
  "class_edges_ok shape entry_op scan_op extend_op confirm_op advance_op =
     ((case entry_op of Entry next \<Rightarrow> next = shape_scan shape | _ \<Rightarrow> False)
      \<and> (case scan_op of ScanClassStart _ _ run exhausted \<Rightarrow>
            run = shape_extend shape \<and> exhausted = shape_none shape | _ \<Rightarrow> False)
      \<and> (case extend_op of ExtendClassRun _ next \<Rightarrow> next = shape_confirm shape | _ \<Rightarrow> False)
      \<and> (case confirm_op of ConfirmSuffix _ _ matched rejected \<Rightarrow>
            matched = shape_found shape \<and> rejected = shape_advance shape | _ \<Rightarrow> False)
      \<and> (case advance_op of AdvanceAfterReject next \<Rightarrow> next = shape_scan shape | _ \<Rightarrow> False))"

definition class_data_ok :: "raw_program \<Rightarrow> class_shape \<Rightarrow> data_id \<Rightarrow> data_id \<Rightarrow> validate_error + unit" where
  "class_data_ok raw shape scan_class suffix =
     rbind (vd_bytes raw suffix (shape_confirm shape)) (\<lambda>suffix_bytes.
     case suffix_bytes of
       [] \<Rightarrow> Inl (Invalid (EmptySuffix (data_no suffix)))
     | first # _ \<Rightarrow>
         rbind (vd_class raw scan_class (shape_scan shape)) (\<lambda>cls.
         if contains cls first
         then Inl (Invalid (SuffixOverlapsClass (data_no scan_class) (data_no suffix)))
         else Inr ()))"

definition require_class_edges :: "class_shape \<Rightarrow> validator \<Rightarrow> validate_error + validator" where
  "require_class_edges shape v =
     rbind (vd_charge 7 v) (\<lambda>v.
     rbind (vd_op (vd_raw v) (shape_entry shape)) (\<lambda>entry_op.
     rbind (vd_op (vd_raw v) (shape_scan shape)) (\<lambda>scan_op.
     rbind (vd_op (vd_raw v) (shape_extend shape)) (\<lambda>extend_op.
     rbind (vd_op (vd_raw v) (shape_confirm shape)) (\<lambda>confirm_op.
     rbind (vd_op (vd_raw v) (shape_advance shape)) (\<lambda>advance_op.
     if \<not> class_edges_ok shape entry_op scan_op extend_op confirm_op advance_op
     then Inl (Invalid (InvalidCycle (block_no (shape_advance shape))))
     else
       case (scan_op, extend_op, confirm_op) of
         (ScanClassStart scan_class _ _ _, ExtendClassRun extend_class _, ConfirmSuffix suffix _ _ _) \<Rightarrow>
           if scan_class \<noteq> extend_class
           then Inl (Invalid (NonCanonicalTopology (block_no (shape_extend shape))))
           else rbind (class_data_ok (vd_raw v) shape scan_class suffix) (\<lambda>_. Inr v)
       | _ \<Rightarrow> Inl ValidatePanic))))))"

definition literal_topology ::
  "block_slots \<Rightarrow> block_id \<Rightarrow> block_id \<Rightarrow> block_id \<Rightarrow> block_id \<Rightarrow> validator \<Rightarrow> validate_error + validator" where
  "literal_topology slots start scan found none v =
     (if length (raw_blocks (vd_raw v)) \<noteq> 4 \<or> slot_scan_class slots \<noteq> None \<or> slot_extend slots \<noteq> None
         \<or> slot_confirm slots \<noteq> None \<or> slot_advance slots \<noteq> None
      then Inl (Invalid (NonCanonicalTopology (block_no scan)))
      else
        rbind (require_literal_edges start scan found none v) (\<lambda>v.
        rbind (require_dominates scan found v) (require_dominates scan none)))"

definition class_topology ::
  "block_slots \<Rightarrow> block_id \<Rightarrow> block_id \<Rightarrow> block_id \<Rightarrow> validator \<Rightarrow> validate_error + validator" where
  "class_topology slots start found none v =
     rbind (ok_or (slot_scan_class slots) (Invalid (NonCanonicalTopology (block_no start)))) (\<lambda>scan.
     rbind (ok_or (slot_extend slots) (Invalid (NonCanonicalTopology (block_no scan)))) (\<lambda>extend'.
     rbind (ok_or (slot_confirm slots) (Invalid (NonCanonicalTopology (block_no extend')))) (\<lambda>confirm.
     rbind (ok_or (slot_advance slots) (Invalid (NonCanonicalTopology (block_no confirm)))) (\<lambda>advance.
     if length (raw_blocks (vd_raw v)) \<noteq> 7
     then Inl (Invalid (NonCanonicalTopology (block_no start)))
     else
       rbind (require_class_edges \<lparr>shape_entry = start, shape_scan = scan, shape_extend = extend',
           shape_confirm = confirm, shape_advance = advance, shape_found = found,
           shape_none = none\<rparr> v) (\<lambda>v.
       rbind (require_dominates scan extend' v) (\<lambda>v.
       rbind (require_dominates extend' confirm v) (\<lambda>v.
       rbind (require_dominates confirm advance v) (require_dominates confirm found))))))))"

definition slots_topology :: "block_slots \<Rightarrow> validator \<Rightarrow> validate_error + validator" where
  "slots_topology slots v =
     rbind (ok_or (slot_entry slots) (Invalid (NonCanonicalTopology 0))) (\<lambda>start.
     rbind (ok_or (slot_found slots) (Invalid (NonCanonicalTopology 0))) (\<lambda>found.
     rbind (ok_or (slot_none slots) (Invalid (NonCanonicalTopology 0))) (\<lambda>none.
     if start \<noteq> raw_entry (vd_raw v) then Inl (Invalid EntryIsNotEntry)
     else case slot_literal slots of
       Some scan \<Rightarrow> literal_topology slots start scan found none v
     | None \<Rightarrow> class_topology slots start found none v)))"

definition vd_topology :: "validator \<Rightarrow> validate_error + validator" where
  "vd_topology v =
     rbind (rfold slot_step (numbered (raw_blocks (vd_raw v))) (v, slots_empty))
       (\<lambda>(v, slots). slots_topology slots v)"

definition validator_run :: "output_kind \<Rightarrow> validator \<Rightarrow> validate_error + val_meter" where
  "validator_run kind v =
     rbind (vd_headers kind v) (\<lambda>v.
     rbind (vd_targets_and_flow v) (\<lambda>v.
     rbind (vd_reachability v) (\<lambda>v.
     rbind (vd_data v) (\<lambda>v.
     rbind (vd_topology v) (\<lambda>v. Inr (vd_meter v))))))"

end
