(* ===== verification/KirBudget.thy ===== *)
theory KirBudget
  imports KirValidator
begin

text \<open>
  The work of the validator. \<open>within B k v\<close> says that the validator \<open>v\<close> may still spend \<open>k\<close> units
  without passing the bound \<open>B\<close>. Every phase is shown to spend no more than its share of
  \<^verbatim>\<open>validation_work_formula\<close>, so that a program admitted by the preflight is never refused for
  validation work, and never to panic: the only errors left are \<open>Invalid\<close>.
\<close>

fun is_invalid :: "validate_error \<Rightarrow> bool" where
  "is_invalid (Invalid _) = True"
| "is_invalid _ = False"

abbreviation spent :: "validator \<Rightarrow> nat" where
  "spent v \<equiv> vm_consumed (vd_meter v)"

definition meter_within :: "nat \<Rightarrow> nat \<Rightarrow> val_meter \<Rightarrow> bool" where
  "meter_within B k meter = (vm_consumed meter + k \<le> B \<and> B \<le> vm_limit meter \<and> B \<le> usize_max)"

definition within_work :: "raw_program \<Rightarrow> nat \<Rightarrow> nat \<Rightarrow> validator \<Rightarrow> bool" where
  "within_work raw B k v = (meter_within B k (vd_meter v) \<and> vd_raw v = raw
     \<and> length (vd_reachable v) = hard_max_blocks \<and> length (vd_data_use v) = hard_max_blocks)"

definition spend :: "nat \<Rightarrow> validator \<Rightarrow> validator" where
  "spend n v = v\<lparr>vd_meter := (vd_meter v)\<lparr>vm_consumed := spent v + n\<rparr>\<rparr>"

lemma spend_simps [simp]:
  "vd_raw (spend n v) = vd_raw v" "vd_reachable (spend n v) = vd_reachable v"
  "vd_data_use (spend n v) = vd_data_use v" "spent (spend n v) = spent v + n"
  "vm_limit (vd_meter (spend n v)) = vm_limit (vd_meter v)"
  by (simp_all add: spend_def)

lemma charge_within:
  assumes "within_work raw B k v" "n \<le> k"
  shows "vd_charge n v = Inr (spend n v)" "within_work raw B (k - n) (spend n v)"
proof -
  have "val_charge n (vd_meter v) = Inr ((vd_meter v)\<lparr>vm_consumed := spent v + n\<rparr>)"
    using assms by (simp add: within_work_def meter_within_def)
  then show "vd_charge n v = Inr (spend n v)" by (simp only: vd_charge_def spend_def rbind_Inr)
  show "within_work raw B (k - n) (spend n v)"
    using assms by (auto simp: within_work_def meter_within_def)
qed

lemma safe_rfold_work:
  assumes "\<And>x s k. x \<in> set xs \<Longrightarrow> I (c x + k) s \<Longrightarrow> safe R (f x s) (I k)" "I (sum_list (map c xs) + k) s"
  shows "safe R (rfold f xs s) (I k)"
  using assms
proof (induction xs arbitrary: s)
  case (Cons x xs)
  have "safe R (f x s) (\<lambda>s'. safe R (rfold f xs s') (I k))"
    by (rule safe_mono [OF Cons.prems(1) [of x "sum_list (map c xs) + k"]])
       (use Cons in \<open>auto simp: add.assoc\<close>)
  then show ?case by simp
qed simp

section \<open>Traversals\<close>

definition marked :: "bool list \<Rightarrow> nat set" where
  "marked seen = {i. i < length seen \<and> seen ! i}"

definition unmarked :: "nat \<Rightarrow> bool list \<Rightarrow> nat" where
  "unmarked n seen = card ({..<n} - marked seen)"

lemma marked_update: "i < length seen \<Longrightarrow> marked (seen[i := True]) = insert i (marked seen)"
  by (auto simp: marked_def nth_list_update)

lemma marked_replicate [simp]: "marked (replicate n False) = {}"
  by (auto simp: marked_def)

lemma unmarked_update:
  assumes "i < n" "i < length seen" "\<not> seen ! i"
  shows "Suc (unmarked n (seen[i := True])) = unmarked n seen"
proof -
  have "i \<in> {..<n} - marked seen" using assms by (auto simp: marked_def)
  moreover have "{..<n} - marked (seen[i := True]) = ({..<n} - marked seen) - {i}"
    by (auto simp: marked_update [OF assms(2)])
  ultimately show ?thesis by (simp add: unmarked_def card_Suc_Diff1 del: card_Diff_insert)
qed

text \<open>What a traversal keeps: \<open>n\<close> blocks, the array length, and the sum of what is still to be
  pushed and what is on the stack.\<close>

definition traversal :: "nat \<Rightarrow> nat \<Rightarrow> bool list \<Rightarrow> nat list \<Rightarrow> bool" where
  "traversal n cap seen stack = (length seen = hard_max_blocks \<and> n \<le> hard_max_blocks
     \<and> set stack \<subseteq> {..<n} \<inter> marked seen \<and> distinct stack
     \<and> unmarked n seen + length stack \<le> cap \<and> cap \<le> hard_max_blocks)"

lemma visit_traversal:
  assumes "traversal n cap seen stack" "admitted s \<Longrightarrow> block_index s < n"
  shows "safe (\<lambda>_. False) (visit admitted s (seen, stack)) (\<lambda>(seen', stack').
    traversal n cap seen' stack' \<and> marked seen' = marked seen \<union> {block_index t | t. t = s \<and> admitted t}
    \<and> set stack' = set stack \<union> (marked seen' - marked seen))"
proof (cases "admitted s \<and> \<not> seen ! block_index s")
  case True
  let ?i = "block_index s"
  have i: "?i < n" "?i < length seen" "n \<le> hard_max_blocks" "length seen = hard_max_blocks"
    using assms True by (auto simp: traversal_def)
  have new: "?i \<notin> marked seen" using True by (simp add: marked_def)
  have "?i \<in> {..<n} - marked seen" using i new by simp
  then have "0 < unmarked n seen" by (auto simp: unmarked_def card_gt_0_iff)
  then have room: "length stack < hard_max_blocks" using assms(1) by (auto simp: traversal_def)
  have eq: "visit admitted s (seen, stack) = Inr (seen[?i := True], ?i # stack)"
    using True i room by (simp add: visit_def)
  have "traversal n cap (seen[?i := True]) (?i # stack)"
    using assms(1) unmarked_update [OF i(1,2)] True new i
    by (auto simp: traversal_def marked_update)
  with True i new show ?thesis unfolding eq by (auto simp: marked_update)
next
  case False
  have "admitted s \<Longrightarrow> block_index s < length seen" "admitted s \<Longrightarrow> block_index s \<in> marked seen"
    using assms False by (auto simp: traversal_def marked_def)
  with False assms(1) show ?thesis by (auto simp: visit_def)
qed

lemma visits_traversal:
  assumes "traversal n cap seen stack" "\<And>s. s \<in> set ss \<Longrightarrow> admitted s \<Longrightarrow> block_index s < n"
  shows "safe (\<lambda>_. False) (rfold (visit admitted) ss (seen, stack)) (\<lambda>(seen', stack').
    traversal n cap seen' stack'
    \<and> marked seen' = marked seen \<union> {block_index t | t. t \<in> set ss \<and> admitted t}
    \<and> set stack' = set stack \<union> (marked seen' - marked seen))"
  using assms
proof (induction ss arbitrary: seen stack)
  case (Cons s ss)
  have "safe (\<lambda>_. False) (visit admitted s (seen, stack)) (\<lambda>st.
      safe (\<lambda>_. False) (rfold (visit admitted) ss st) (\<lambda>(seen', stack').
        traversal n cap seen' stack'
        \<and> marked seen' = marked seen \<union> {block_index t | t. t \<in> set (s # ss) \<and> admitted t}
        \<and> set stack' = set stack \<union> (marked seen' - marked seen)))"
  proof (rule safe_mono [OF visit_traversal [OF Cons.prems(1), of admitted s]])
    show "admitted s \<Longrightarrow> block_index s < n" using Cons.prems(2) by simp
  next
    fix st
    assume st: "case st of (seen', stack') \<Rightarrow> traversal n cap seen' stack'
      \<and> marked seen' = marked seen \<union> {block_index t | t. t = s \<and> admitted t}
      \<and> set stack' = set stack \<union> (marked seen' - marked seen)"
    then obtain seen1 stack1 where pair: "st = (seen1, stack1)" and tr: "traversal n cap seen1 stack1"
      and mk: "marked seen1 = marked seen \<union> {block_index t | t. t = s \<and> admitted t}"
      and sk: "set stack1 = set stack \<union> (marked seen1 - marked seen)" by (cases st) auto
    show "safe (\<lambda>_. False) (rfold (visit admitted) ss st) (\<lambda>(seen', stack').
        traversal n cap seen' stack'
        \<and> marked seen' = marked seen \<union> {block_index t | t. t \<in> set (s # ss) \<and> admitted t}
        \<and> set stack' = set stack \<union> (marked seen' - marked seen))"
      unfolding pair
    proof (rule safe_mono [OF Cons.IH [OF tr]])
      show "\<And>t. t \<in> set ss \<Longrightarrow> admitted t \<Longrightarrow> block_index t < n" using Cons.prems(2) by simp
    next
      fix st'
      assume "case st' of (seen', stack') \<Rightarrow> traversal n cap seen' stack'
        \<and> marked seen' = marked seen1 \<union> {block_index t | t. t \<in> set ss \<and> admitted t}
        \<and> set stack' = set stack1 \<union> (marked seen' - marked seen1)"
      then show "case st' of (seen', stack') \<Rightarrow> traversal n cap seen' stack'
        \<and> marked seen' = marked seen \<union> {block_index t | t. t \<in> set (s # ss) \<and> admitted t}
        \<and> set stack' = set stack \<union> (marked seen' - marked seen)"
        using mk sk by (simp only: split_def list.set) blast
    qed
  qed
  then show ?case by simp
qed auto

definition targets_ok :: "raw_program \<Rightarrow> bool" where
  "targets_ok raw = (\<forall>op\<in>set (raw_blocks raw). \<forall>s\<in>set (successors op).
     block_index s < length (raw_blocks raw))"

text \<open>Blocks are closed when the successors of all but the listed ones are in the set.\<close>

definition closed_except :: "raw_program \<Rightarrow> (block_id \<Rightarrow> bool) \<Rightarrow> nat set \<Rightarrow> nat set \<Rightarrow> bool" where
  "closed_except raw admitted open_blocks S = (\<forall>i\<in>S - open_blocks. i < length (raw_blocks raw) \<longrightarrow>
     (\<forall>s\<in>set (successors (raw_blocks raw ! i)). admitted s \<longrightarrow> block_index s \<in> S))"

lemma reach_loop_safe:
  assumes "targets_ok raw" "traversal (length (raw_blocks raw)) cap reachable stack"
    and "meter_within B (unmarked (length (raw_blocks raw)) reachable + length stack + k) meter"
    and "closed_except raw (\<lambda>_. True) (set stack) (marked reachable)"
  shows "safe (\<lambda>_. False) (reach_loop raw stack reachable meter) (\<lambda>(reachable', meter').
    length reachable' = hard_max_blocks \<and> meter_within B k meter' \<and> vm_limit meter' = vm_limit meter
    \<and> marked reachable \<subseteq> marked reachable' \<and> closed_except raw (\<lambda>_. True) {} (marked reachable')
    \<and> (\<forall>S. marked reachable \<subseteq> S \<longrightarrow> closed_except raw (\<lambda>_. True) {} S \<longrightarrow> marked reachable' \<subseteq> S))"
  using assms(2-)
proof (induction "unmarked (length (raw_blocks raw)) reachable + length stack"
    arbitrary: reachable stack meter rule: less_induct)
  case less
  let ?n = "length (raw_blocks raw)"
  show ?case
  proof (cases stack)
    case Nil
    with less.prems show ?thesis
      by (subst reach_loop.simps) (simp add: traversal_def meter_within_def)
  next
    case (Cons current rest)
    let ?m = "meter\<lparr>vm_consumed := vm_consumed meter + 1\<rparr>"
    have charge: "vm_consumed meter + 1 \<le> usize_max" "vm_consumed meter + 1 \<le> vm_limit meter"
      using less.prems(2) Cons by (auto simp: meter_within_def)
    have current: "current < ?n" "current \<in> marked reachable" "current \<notin> set rest"
      using less.prems(1) Cons by (auto simp: traversal_def)
    have rest: "traversal ?n (unmarked ?n reachable + length rest) reachable rest"
      using less.prems(1) Cons by (auto simp: traversal_def)
    have targets: "block_index s < ?n" if "s \<in> set (successors (raw_blocks raw ! current))" for s
      using assms(1) current that by (auto simp: targets_ok_def)
    have "safe (\<lambda>_. False) (rfold (visit (\<lambda>_. True)) (successors (raw_blocks raw ! current)) (reachable, rest))
      (\<lambda>st. safe (\<lambda>_. False) (case st of (reachable, stack) \<Rightarrow> reach_loop raw stack reachable ?m)
        (\<lambda>(reachable', meter'). length reachable' = hard_max_blocks \<and> meter_within B k meter'
          \<and> vm_limit meter' = vm_limit meter \<and> marked reachable \<subseteq> marked reachable'
          \<and> closed_except raw (\<lambda>_. True) {} (marked reachable')
          \<and> (\<forall>S. marked reachable \<subseteq> S \<longrightarrow> closed_except raw (\<lambda>_. True) {} S \<longrightarrow> marked reachable' \<subseteq> S)))"
    proof (rule safe_mono [OF visits_traversal [OF rest]])
      fix st
      assume "case st of (seen', stack') \<Rightarrow> traversal ?n (unmarked ?n reachable + length rest) seen' stack'
        \<and> marked seen' = marked reachable \<union>
            {block_index t | t. t \<in> set (successors (raw_blocks raw ! current)) \<and> True}
        \<and> set stack' = set rest \<union> (marked seen' - marked reachable)"
      then obtain seen' stack' where st: "st = (seen', stack')"
        and tr: "traversal ?n (unmarked ?n reachable + length rest) seen' stack'"
        and mk: "marked seen' = marked reachable \<union>
            {block_index t | t. t \<in> set (successors (raw_blocks raw ! current))}"
        and sk: "set stack' = set rest \<union> (marked seen' - marked reachable)" by (cases st) auto
      have le: "unmarked ?n seen' + length stack' \<le> unmarked ?n reachable + length rest"
        using tr by (simp add: traversal_def)
      have "closed_except raw (\<lambda>_. True) (set stack') (marked seen')"
        unfolding closed_except_def
      proof (intro ballI impI)
        fix i s assume i: "i \<in> marked seen' - set stack'" "i < ?n" and s: "s \<in> set (successors (raw_blocks raw ! i))"
        show "block_index s \<in> marked seen'"
        proof (cases "i = current")
          case True
          then show ?thesis using s mk by auto
        next
          case False
          then have "i \<in> marked reachable - set stack" using i sk Cons by auto
          then show ?thesis using less.prems(3) i s mk by (auto simp: closed_except_def)
        qed
      qed
      moreover have "meter_within B (unmarked ?n seen' + length stack' + k) ?m"
        using less.prems(2) Cons le by (simp add: meter_within_def)
      moreover have "traversal ?n cap seen' stack'"
        using tr less.prems(1) Cons by (auto simp: traversal_def)
      moreover have "unmarked ?n seen' + length stack' < unmarked ?n reachable + length stack"
        using le Cons by simp
      ultimately have result: "safe (\<lambda>_. False) (reach_loop raw stack' seen' ?m) (\<lambda>(reachable', meter').
          length reachable' = hard_max_blocks \<and> meter_within B k meter' \<and> vm_limit meter' = vm_limit ?m
          \<and> marked seen' \<subseteq> marked reachable' \<and> closed_except raw (\<lambda>_. True) {} (marked reachable')
          \<and> (\<forall>S. marked seen' \<subseteq> S \<longrightarrow> closed_except raw (\<lambda>_. True) {} S \<longrightarrow> marked reachable' \<subseteq> S))"
        using less.hyps [of seen' stack' ?m] by simp
      have least: "marked seen' \<subseteq> S" if "marked reachable \<subseteq> S" "closed_except raw (\<lambda>_. True) {} S" for S
        using that mk current by (auto simp: closed_except_def)
      from result show "safe (\<lambda>_. False) (case st of (reachable, stack) \<Rightarrow> reach_loop raw stack reachable ?m)
        (\<lambda>(reachable', meter'). length reachable' = hard_max_blocks \<and> meter_within B k meter'
          \<and> vm_limit meter' = vm_limit meter \<and> marked reachable \<subseteq> marked reachable'
          \<and> closed_except raw (\<lambda>_. True) {} (marked reachable')
          \<and> (\<forall>S. marked reachable \<subseteq> S \<longrightarrow> closed_except raw (\<lambda>_. True) {} S \<longrightarrow> marked reachable' \<subseteq> S))"
        unfolding st prod.case
      proof (rule safe_mono, elim case_prodE, clarsimp, intro conjI allI impI)
        fix reachable' assume "marked seen' \<subseteq> marked reachable'"
        then show "marked reachable \<subseteq> marked reachable'" using mk by blast
      next
        fix reachable' S
        assume "\<forall>S. marked seen' \<subseteq> S \<longrightarrow> closed_except raw (\<lambda>_. True) {} S \<longrightarrow> marked reachable' \<subseteq> S"
          "marked reachable \<subseteq> S" "closed_except raw (\<lambda>_. True) {} S"
        then show "marked reachable' \<subseteq> S" using least by simp
      qed
    qed (rule targets)
    then show ?thesis using Cons charge current by (subst reach_loop.simps) simp
  qed
qed

lemma index_id_small: "i < hard_max_blocks \<Longrightarrow> index_id i = Inr (word_of_nat i)"
  by (simp add: index_id_def hard_max_blocks_def u32_max_def)

lemma block_index_of_nat: "i < hard_max_blocks \<Longrightarrow> block_index (BlockId (word_of_nat i)) = i"
  by (simp add: block_index_def hard_max_blocks_def unat_of_nat take_bit_nat_eq_self)

lemma avoid_loop_safe:
  assumes "targets_ok raw" "traversal (length (raw_blocks raw)) cap seen stack"
    and "meter_within B (unmarked (length (raw_blocks raw)) seen + length stack + k) meter"
  shows "safe (\<lambda>_. False) (avoid_loop raw target avoided stack seen meter) (\<lambda>(found, meter').
    meter_within B k meter' \<and> vm_limit meter' = vm_limit meter
    \<and> (\<forall>S. marked seen \<subseteq> S \<longrightarrow> closed_except raw (\<lambda>s. s \<noteq> avoided) {} S \<longrightarrow> block_index target \<notin> S \<longrightarrow> \<not> found))"
  using assms(2-)
proof (induction "unmarked (length (raw_blocks raw)) seen + length stack"
    arbitrary: seen stack meter rule: less_induct)
  case less
  let ?n = "length (raw_blocks raw)"
  let ?Q = "\<lambda>seen (found, meter'). meter_within B k meter' \<and> vm_limit meter' = vm_limit meter
    \<and> (\<forall>S. marked seen \<subseteq> S \<longrightarrow> closed_except raw (\<lambda>s. s \<noteq> avoided) {} S \<longrightarrow> block_index target \<notin> S \<longrightarrow> \<not> found)"
  show ?case
  proof (cases stack)
    case Nil
    with less.prems show ?thesis by (subst avoid_loop.simps) (simp add: meter_within_def)
  next
    case (Cons current rest)
    let ?m = "meter\<lparr>vm_consumed := vm_consumed meter + 1\<rparr>"
    have charge: "vm_consumed meter + 1 \<le> usize_max" "vm_consumed meter + 1 \<le> vm_limit meter"
      using less.prems(2) Cons by (auto simp: meter_within_def)
    have current: "current < ?n" "current \<in> marked seen" "current \<notin> set rest" "current < hard_max_blocks"
      using less.prems(1) Cons by (auto simp: traversal_def)
    have rest: "traversal ?n (unmarked ?n seen + length rest) seen rest"
      using less.prems(1) Cons by (auto simp: traversal_def)
    have targets: "block_index s < ?n" if "s \<in> set (successors (raw_blocks raw ! current))" for s
      using assms(1) current that by (auto simp: targets_ok_def)
    show ?thesis
    proof (cases "BlockId (word_of_nat current) = target")
      case True
      then have "block_index target \<in> marked seen" using block_index_of_nat current by auto
      with True Cons charge current less.prems(2) show ?thesis
        by (subst avoid_loop.simps) (auto simp: index_id_small meter_within_def)
    next
      case False
      have "safe (\<lambda>_. False)
        (rfold (visit (\<lambda>s. s \<noteq> avoided)) (successors (raw_blocks raw ! current)) (seen, rest))
        (\<lambda>st. safe (\<lambda>_. False) (case st of (seen, stack) \<Rightarrow> avoid_loop raw target avoided stack seen ?m) (?Q seen))"
      proof (rule safe_mono [OF visits_traversal [OF rest]])
        fix st
        assume "case st of (seen', stack') \<Rightarrow> traversal ?n (unmarked ?n seen + length rest) seen' stack'
          \<and> marked seen' = marked seen \<union>
              {block_index t | t. t \<in> set (successors (raw_blocks raw ! current)) \<and> t \<noteq> avoided}
          \<and> set stack' = set rest \<union> (marked seen' - marked seen)"
        then obtain seen' stack' where st: "st = (seen', stack')"
          and tr: "traversal ?n (unmarked ?n seen + length rest) seen' stack'"
          and mk: "marked seen' = marked seen \<union>
              {block_index t | t. t \<in> set (successors (raw_blocks raw ! current)) \<and> t \<noteq> avoided}"
          by (cases st) auto
        have le: "unmarked ?n seen' + length stack' \<le> unmarked ?n seen + length rest"
          using tr by (simp add: traversal_def)
        have step: "unmarked ?n seen' + length stack' < unmarked ?n seen + length stack"
          "traversal ?n cap seen' stack'" "meter_within B (unmarked ?n seen' + length stack' + k) ?m"
          using le tr less.prems Cons by (auto simp: traversal_def meter_within_def)
        have "marked seen' \<subseteq> S" if "marked seen \<subseteq> S" "closed_except raw (\<lambda>s. s \<noteq> avoided) {} S" for S
          using that mk current by (auto simp: closed_except_def)
        with safe_mono [OF less.hyps [OF step], of "?Q seen"]
        show "safe (\<lambda>_. False) (case st of (seen, stack) \<Rightarrow> avoid_loop raw target avoided stack seen ?m) (?Q seen)"
          unfolding st prod.case by (auto simp del: safe_simps)
      qed (rule targets)
      then show ?thesis using Cons charge current False
        by (subst avoid_loop.simps) (simp add: index_id_small)
    qed
  qed
qed

section \<open>What each phase accepts\<close>

definition headers_ok :: "output_kind \<Rightarrow> raw_program \<Rightarrow> bool" where
  "headers_ok kind raw = (schema_version raw = raw_schema_version \<and> semantics raw = semantics_current
     \<and> abi raw = abi_current \<and> raw_output raw = kind)"

definition edge_ok :: "raw_program \<Rightarrow> block_id \<times> flow_state \<Rightarrow> bool" where
  "edge_ok raw edge = (block_index (fst edge) < length (raw_blocks raw)
     \<and> required_state (raw_blocks raw ! block_index (fst edge)) = snd edge)"

definition reference_ok :: "raw_program \<Rightarrow> block_op \<Rightarrow> data_id \<Rightarrow> bool" where
  "reference_ok raw op d = (data_index d < length (raw_data raw)
     \<and> data_kind_ok op (raw_data raw ! data_index d))"

definition block_ok :: "raw_program \<Rightarrow> block_op \<Rightarrow> bool" where
  "block_ok raw op = ((\<forall>e\<in>set (zip (successors op) (outgoing_states op)). edge_ok raw e)
     \<and> (\<forall>d\<in>set (referenced_data op). reference_ok raw op d))"

definition flow_ok :: "raw_program \<Rightarrow> bool" where
  "flow_ok raw = (block_index (raw_entry raw) < length (raw_blocks raw)
     \<and> is_entry (raw_blocks raw ! block_index (raw_entry raw))
     \<and> (\<forall>op\<in>set (raw_blocks raw). block_ok raw op))"

definition used_data :: "raw_program \<Rightarrow> nat set" where
  "used_data raw = (\<Union>op\<in>set (raw_blocks raw). data_index ` set (referenced_data op))"

definition data_ok :: "raw_program \<Rightarrow> bool" where
  "data_ok raw = ({..<length (raw_data raw)} \<subseteq> used_data raw \<and> distinct (raw_data raw)
     \<and> (\<forall>cls. Class cls \<in> set (raw_data raw) \<longrightarrow> \<not> class_is_empty cls))"

definition all_reachable :: "raw_program \<Rightarrow> bool" where
  "all_reachable raw = (\<forall>S. block_index (raw_entry raw) \<in> S \<longrightarrow> closed_except raw (\<lambda>_. True) {} S
     \<longrightarrow> {..<length (raw_blocks raw)} \<subseteq> S)"

section \<open>Folds\<close>

text \<open>
  A phase that walks over a list: it refuses only when an element is bad, and when it
  succeeds, all elements are good and the tracked set has grown by their shares.
\<close>

definition phase :: "bool \<Rightarrow> validate_error + 'a \<Rightarrow> ('a \<Rightarrow> bool) \<Rightarrow> bool" where
  "phase good m Q = safe (\<lambda>e. is_invalid e \<and> \<not> good) m (\<lambda>x. Q x \<and> good)"

lemma phase_return: "good \<Longrightarrow> Q x \<Longrightarrow> phase good (Inr x) Q"
  by (simp add: phase_def)

lemma phase_refuse: "\<not> good \<Longrightarrow> phase good (Inl (Invalid i)) Q"
  by (simp add: phase_def)

lemma phase_bind:
  assumes "phase good m P" "\<And>x. P x \<Longrightarrow> good \<Longrightarrow> phase good' (f x) Q"
  shows "phase (good \<and> good') (rbind m f) Q"
proof (cases m)
  case (Inl e)
  with assms(1) show ?thesis by (simp add: phase_def)
next
  case (Inr x)
  with assms(1) assms(2) [of x] show ?thesis
    by (cases "f x") (auto simp: phase_def)
qed

lemma phase_mono: "phase good m Q \<Longrightarrow> (\<And>x. Q x \<Longrightarrow> good \<Longrightarrow> Q' x) \<Longrightarrow> phase good m Q'"
  by (cases m) (auto simp: phase_def)

lemma phase_rfold:
  assumes step: "\<And>x s k. x \<in> set xs \<Longrightarrow> I (c x + k) s \<Longrightarrow>
      phase (P x) (f x s) (\<lambda>s'. I k s' \<and> U s' = U s \<union> A x)"
    and start: "I (sum_list (map c xs) + k) s"
  shows "phase (\<forall>x\<in>set xs. P x) (rfold f xs s) (\<lambda>s'. I k s' \<and> U s' = U s \<union> (\<Union>x\<in>set xs. A x))"
  using assms
proof (induction xs arbitrary: s)
  case (Cons x xs)
  have "phase (P x \<and> (\<forall>x\<in>set xs. P x)) (rbind (f x s) (rfold f xs))
      (\<lambda>s'. I k s' \<and> U s' = U s \<union> (\<Union>x\<in>set (x # xs). A x))"
  proof (rule phase_bind)
    show "phase (P x) (f x s) (\<lambda>s'. I (sum_list (map c xs) + k) s' \<and> U s' = U s \<union> A x)"
      using Cons.prems by (simp add: add.assoc)
  next
    fix s' assume s': "I (sum_list (map c xs) + k) s' \<and> U s' = U s \<union> A x"
    show "phase (\<forall>x\<in>set xs. P x) (rfold f xs s') (\<lambda>s'. I k s' \<and> U s' = U s \<union> (\<Union>x\<in>set (x # xs). A x))"
      by (rule phase_mono [OF Cons.IH]) (use s' Cons.prems(1) in auto)
  qed
  then show ?case by simp
qed (simp add: phase_def)

section \<open>Headers and flow\<close>

lemma within_mono: "within_work raw B k v \<Longrightarrow> k' \<le> k \<Longrightarrow> within_work raw B k' v"
  by (auto simp: within_work_def meter_within_def)

lemma headers_phase:
  assumes "within_work raw B (4 + k) v"
  shows "phase (headers_ok kind raw) (vd_headers kind v) (\<lambda>v'. within_work raw B k v' \<and> v' = spend 4 v)"
proof -
  have "vd_raw v = raw" using assms by (simp add: within_work_def)
  then show ?thesis using charge_within [OF assms, of 4]
    by (auto simp: vd_headers_def headers_ok_def phase_def)
qed

text \<open>
  The use counters stay below what was spent, and what the phases up to the flow check spend is
  small: the bound is \<open>B\<close>, and \<open>extra\<close> is what is reserved for the phases after it.
\<close>

definition used :: "validator \<Rightarrow> nat set" where
  "used v = {i. i < length (vd_data_use v) \<and> vd_data_use v ! i \<noteq> 0}"

definition flow_work :: "raw_program \<Rightarrow> nat \<Rightarrow> nat \<Rightarrow> nat \<Rightarrow> validator \<Rightarrow> bool" where
  "flow_work raw extra B k v = (within_work raw (B + extra) (k + extra) v
     \<and> (\<forall>u\<in>set (vd_data_use v). u \<le> spent v) \<and> vd_reachable v = replicate hard_max_blocks False)"

lemma flow_work_spend:
  assumes "flow_work raw extra B k v" "n \<le> k"
  shows "vd_charge n v = Inr (spend n v)" "flow_work raw extra B (k - n) (spend n v)"
  using assms charge_within [of raw "B + extra" "k + extra" v n]
  by (auto simp: flow_work_def intro: trans_le_add1)

lemma flow_work_mono: "flow_work raw extra B k v \<Longrightarrow> k' \<le> k \<Longrightarrow> flow_work raw extra B k' v"
  by (auto simp: flow_work_def intro: within_mono)

lemma used_spend [simp]: "used (spend n v) = used v"
  by (simp add: used_def)

lemma flow_raw: "flow_work raw extra B k v \<Longrightarrow> vd_raw v = raw"
  by (simp add: flow_work_def within_work_def)

lemma edge_phase:
  assumes "flow_work raw extra B (1 + k) v"
  shows "phase (edge_ok raw e) (edge_step i e v) (\<lambda>v'. flow_work raw extra B k v' \<and> used v' = used v \<union> {})"
  using flow_work_spend [OF assms, of 1] flow_raw [OF assms]
  by (auto simp: edge_step_def edge_ok_def phase_def split: prod.split)

lemma reference_phase:
  assumes work: "flow_work raw extra B (1 + k) v" and "B < u32_max" "length (raw_data raw) \<le> hard_max_blocks"
  shows "phase (reference_ok raw op d) (data_step i op d v)
    (\<lambda>v'. flow_work raw extra B k v' \<and> used v' = used v \<union> {data_index d})"
proof -
  let ?j = "data_index d"
  note c = flow_work_spend [OF work, of 1, simplified]
  have lens: "vd_raw v = raw" "length (vd_data_use v) = hard_max_blocks" "spent v < u32_max"
    using work assms(2) by (auto simp: flow_work_def within_work_def meter_within_def)
  show ?thesis
  proof (cases "?j < length (raw_data raw)")
    case True
    then have d: "?j < length (vd_data_use v)" using assms(3) lens by simp
    then have small: "vd_data_use v ! ?j \<le> spent v" using work by (simp add: flow_work_def)
    let ?v = "(spend 1 v)\<lparr>vd_data_use := (vd_data_use v)[?j := vd_data_use v ! ?j + 1]\<rparr>"
    have "within_work raw (B + extra) (k + extra) ?v" using c(2) by (simp add: flow_work_def within_work_def)
    moreover have "\<forall>u\<in>set (vd_data_use ?v). u \<le> spent ?v"
      using work small
      by (auto simp: flow_work_def dest!: set_update_subset_insert [THEN subsetD] intro: le_SucI)
    ultimately have "flow_work raw extra B k ?v" using work by (simp add: flow_work_def)
    moreover have "used ?v = used v \<union> {?j}" using d by (auto simp: used_def nth_list_update)
    ultimately show ?thesis using True d small lens c(1)
      by (simp add: data_step_def Let_def reference_ok_def phase_def)
  next
    case False
    with c lens show ?thesis by (simp add: data_step_def reference_ok_def phase_def)
  qed
qed

lemma length_edges: "length (zip (successors op) (outgoing_states op)) + length (referenced_data op) \<le> 3"
  by (cases op) auto

lemma flow_block_phase:
  assumes "flow_work raw extra B (4 + k) v" "B < u32_max" "length (raw_data raw) \<le> hard_max_blocks"
    and "i < hard_max_blocks"
  shows "phase (block_ok raw op) (flow_block (i, op) v)
    (\<lambda>v'. flow_work raw extra B k v' \<and> used v' = used v \<union> data_index ` set (referenced_data op))"
proof -
  let ?e = "zip (successors op) (outgoing_states op)" and ?d = "referenced_data op"
  note c = flow_work_spend [OF assms(1), of 1, simplified]
  have start: "flow_work raw extra B (sum_list (map (\<lambda>_. 1) ?e) + (sum_list (map (\<lambda>_. 1) ?d) + k)) (spend 1 v)"
    using length_edges [of op] c(2)
    by (auto simp: sum_list_triv simp del: length_zip intro: flow_work_mono)
  have "phase ((\<forall>e\<in>set ?e. edge_ok raw e) \<and> (\<forall>d\<in>set ?d. reference_ok raw op d))
      (rbind (rfold (edge_step (word_of_nat i)) ?e (spend 1 v)) (rfold (data_step (word_of_nat i) op) ?d))
      (\<lambda>v'. flow_work raw extra B k v' \<and> used v' = used v \<union> data_index ` set ?d)"
  proof (rule phase_bind)
    show "phase (\<forall>e\<in>set ?e. edge_ok raw e) (rfold (edge_step (word_of_nat i)) ?e (spend 1 v))
        (\<lambda>v'. flow_work raw extra B (sum_list (map (\<lambda>_. 1) ?d) + k) v' \<and> used v' = used (spend 1 v) \<union> (\<Union>e\<in>set ?e. {}))"
      by (rule phase_rfold [where c = "\<lambda>_. 1" and I = "flow_work raw extra B" and U = used], rule edge_phase)
         (assumption, rule start)
  next
    fix v' assume v': "flow_work raw extra B (sum_list (map (\<lambda>_. 1) ?d) + k) v' \<and> used v' = used (spend 1 v) \<union> (\<Union>e\<in>set ?e. {})"
    have "phase (\<forall>d\<in>set ?d. reference_ok raw op d) (rfold (data_step (word_of_nat i) op) ?d v')
        (\<lambda>v''. flow_work raw extra B k v'' \<and> used v'' = used v' \<union> (\<Union>d\<in>set ?d. {data_index d}))"
      by (rule phase_rfold [where c = "\<lambda>_. 1" and I = "flow_work raw extra B" and U = used],
          rule reference_phase [OF _ assms(2,3)]) (assumption, rule v' [THEN conjunct1])
    then show "phase (\<forall>d\<in>set ?d. reference_ok raw op d) (rfold (data_step (word_of_nat i) op) ?d v')
        (\<lambda>v'. flow_work raw extra B k v' \<and> used v' = used v \<union> data_index ` set ?d)"
      by (rule phase_mono) (use v' in auto)
  qed
  then show ?thesis using c(1) assms(4)
    by (simp add: flow_block_def index_id_small block_ok_def)
qed

lemma numbered_bounds: "x \<in> set (numbered xs) \<Longrightarrow> fst x < length xs \<and> snd x = xs ! fst x"
  by (auto simp: numbered_def set_zip)

lemma length_numbered [simp]: "length (numbered xs) = length xs"
  by (simp add: numbered_def)

lemma snd_numbered: "snd ` set (numbered xs) = set xs"
  by (metis map_snd_zip numbered_def length_upt minus_nat.diff_0 list.set_map)

lemma numbered_ball: "(\<forall>x\<in>set (numbered xs). P (snd x)) \<longleftrightarrow> (\<forall>x\<in>set xs. P x)"
  using snd_numbered [of xs] by (metis (no_types, lifting) image_iff)

lemma flow_phase:
  assumes "flow_work raw extra B (length (raw_blocks raw) * 4 + k) v" "B < u32_max"
    and "length (raw_blocks raw) \<le> hard_max_blocks" "length (raw_data raw) \<le> hard_max_blocks"
    and "used v = {}"
  shows "phase (flow_ok raw) (vd_targets_and_flow v) (\<lambda>v'. flow_work raw extra B k v' \<and> used v' = used_data raw)"
proof -
  have "phase (\<forall>x\<in>set (numbered (raw_blocks raw)). block_ok raw (snd x))
      (rfold flow_block (numbered (raw_blocks raw)) v)
      (\<lambda>v'. flow_work raw extra B k v' \<and> used v' = used v
        \<union> (\<Union>x\<in>set (numbered (raw_blocks raw)). data_index ` set (referenced_data (snd x))))"
  proof (rule phase_rfold [where c = "\<lambda>_. 4"])
    show "flow_work raw extra B (sum_list (map (\<lambda>_. 4) (numbered (raw_blocks raw))) + k) v"
      using assms(1) by (simp add: sum_list_triv)
  next
    fix x s j assume x: "x \<in> set (numbered (raw_blocks raw))" and work: "flow_work raw extra B (4 + j) s"
    have "fst x < hard_max_blocks" using numbered_bounds [OF x] assms(3) by simp
    from flow_block_phase [OF work assms(2,4) this, of "snd x"]
    show "phase (block_ok raw (snd x)) (flow_block x s)
      (\<lambda>v'. flow_work raw extra B j v' \<and> used v' = used s \<union> data_index ` set (referenced_data (snd x)))"
      by simp
  qed
  moreover have "(\<Union>x\<in>set (numbered (raw_blocks raw)). data_index ` set (referenced_data (snd x))) = used_data raw"
    using snd_numbered [of "raw_blocks raw"] by (auto simp: used_data_def) (metis image_iff)+
  ultimately have "phase (\<forall>op\<in>set (raw_blocks raw). block_ok raw op)
      (rfold flow_block (numbered (raw_blocks raw)) v) (\<lambda>v'. flow_work raw extra B k v' \<and> used v' = used_data raw)"
    using assms(5) by (simp add: numbered_ball)
  moreover have "vd_raw v = raw" by (rule flow_raw [OF assms(1)])
  ultimately show ?thesis
    by (auto simp: vd_targets_and_flow_def flow_ok_def phase_def)
qed

end
