(* ===== verification/KirInterp.thy ===== *)
theory KirInterp
  imports KirBase
begin

text \<open>
  The portable semantic oracle of \<^verbatim>\<open>crates/fre-kernel-ir\<close> (\<^verbatim>\<open>interpret.rs\<close>): a work meter, the
  literal, class and suffix scans, and the block machine. \<^verbatim>\<open>Machine\<close> is a record and each of
  its methods returns the updated machine. Every turn of \<^verbatim>\<open>run\<close> ticks the meter, so the loop
  ends when the budget does; the measure of \<open>run\<close> is what is left of it.
\<close>

section \<open>Budget and report\<close>

record execution_limits =
  exec_max_work :: nat

definition execution_unlimited :: execution_limits where
  "execution_unlimited = \<lparr>exec_max_work = usize_max\<rparr>"

definition execution_limits_default :: execution_limits where
  "execution_limits_default = \<lparr>exec_max_work = 100000000\<rparr>"

record execution_report =
  report_output :: kernel_output
  report_work :: nat

record work_meter =
  meter_limit :: nat
  meter_consumed :: nat

definition meter_new :: "nat \<Rightarrow> work_meter" where
  "meter_new limit = \<lparr>meter_limit = limit, meter_consumed = 0\<rparr>"

definition meter_tick :: "work_meter \<Rightarrow> execute_error + work_meter" where
  "meter_tick meter =
     (if meter_consumed meter = meter_limit meter
      then Inl (WorkLimitExceeded (meter_limit meter) (meter_consumed meter))
      else rbind (ok_or (uadd (meter_consumed meter) 1) (ExecArithmeticOverflow SiteSearchWorkBound))
        (\<lambda>consumed. Inr (meter\<lparr>meter_consumed := consumed\<rparr>)))"

section \<open>Scans\<close>

text \<open>\<^verbatim>\<open>haystack[position]\<close>.\<close>

definition byte_at :: "bytes \<Rightarrow> nat \<Rightarrow> execute_error + u8" where
  "byte_at haystack position =
     (if position < length haystack then Inr (haystack ! position) else Inl ExecPanic)"

definition haystack_get :: "bytes \<Rightarrow> nat \<Rightarrow> u8 option" where
  "haystack_get haystack position =
     (if position < length haystack then Some (haystack ! position) else None)"

definition next_position :: "nat \<Rightarrow> nat \<Rightarrow> execute_error + nat" where
  "next_position position amount =
     ok_or (uadd position amount) (ExecArithmeticOverflow SiteSearchPosition)"

fun matches_loop :: "bytes \<Rightarrow> nat \<Rightarrow> nat \<Rightarrow> bytes \<Rightarrow> work_meter \<Rightarrow> execute_error + bool \<times> work_meter"
where
  "matches_loop haystack start offset [] meter = Inr (True, meter)"
| "matches_loop haystack start offset (expected # needle) meter =
     rbind (meter_tick meter) (\<lambda>meter.
     rbind (next_position start offset) (\<lambda>position.
     if haystack_get haystack position \<noteq> Some expected then Inr (False, meter)
     else matches_loop haystack start (Suc offset) needle meter))"

definition matches_at ::
  "bytes \<Rightarrow> search_window \<Rightarrow> nat \<Rightarrow> bytes \<Rightarrow> work_meter \<Rightarrow> execute_error + bool \<times> work_meter" where
  "matches_at haystack window start needle meter =
     (case uadd start (length needle) of
        None \<Rightarrow> Inr (False, meter)
      | Some stop \<Rightarrow>
          if start < window_start window \<or> stop > window_end window then Inr (False, meter)
          else matches_loop haystack start 0 needle meter)"

function literal_loop ::
  "bytes \<Rightarrow> search_window \<Rightarrow> nat \<Rightarrow> nat \<Rightarrow> bytes \<Rightarrow> work_meter
     \<Rightarrow> execute_error + match_span option \<times> work_meter" where
  "literal_loop haystack window candidate final needle meter =
     (if candidate \<le> final then
        rbind (meter_tick meter) (\<lambda>meter.
        rbind (matches_at haystack window candidate needle meter) (\<lambda>(matched, meter).
        if matched then
          rbind (next_position candidate (length needle)) (\<lambda>stop.
          Inr (Some (match_span_new candidate stop), meter))
        else rbind (next_position candidate 1) (\<lambda>candidate'.
          literal_loop haystack window candidate' final needle meter)))
      else Inr (None, meter))"
  by pat_completeness auto
termination
  by (relation "measure (\<lambda>(haystack, window, candidate, final, needle, meter). Suc final - candidate)")
     (auto simp: next_position_def)

declare literal_loop.simps [simp del]

definition find_literal ::
  "bytes \<Rightarrow> search_window \<Rightarrow> nat \<Rightarrow> bytes \<Rightarrow> anchor_flags \<Rightarrow> work_meter
     \<Rightarrow> execute_error + match_span option \<times> work_meter" where
  "find_literal haystack window cursor needle anchors meter =
     (if anchor_start anchors then
        if cursor \<noteq> 0 \<or> window_start window \<noteq> 0 then Inr (None, meter)
        else rbind (matches_at haystack window 0 needle meter) (\<lambda>(matched, meter).
          if matched \<and> (\<not> anchor_end anchors \<or> length needle = length haystack)
          then Inr (Some (match_span_new 0 (length needle)), meter)
          else Inr (None, meter))
      else if anchor_end anchors then
        case usub (length haystack) (length needle) of
          None \<Rightarrow> Inr (None, meter)
        | Some start \<Rightarrow>
            if start < cursor \<or> start < window_start window then Inr (None, meter)
            else rbind (matches_at haystack window start needle meter) (\<lambda>(matched, meter).
              if matched then Inr (Some (match_span_new start (length haystack)), meter)
              else Inr (None, meter))
      else
        case usub (window_end window) (length needle) of
          None \<Rightarrow> Inr (None, meter)
        | Some final \<Rightarrow>
            literal_loop haystack window (max cursor (window_start window)) final needle meter)"

function class_loop ::
  "bytes \<Rightarrow> nat \<Rightarrow> nat \<Rightarrow> byte_class \<Rightarrow> work_meter \<Rightarrow> execute_error + nat option \<times> work_meter" where
  "class_loop haystack stop position cls meter =
     (if position < stop then
        rbind (meter_tick meter) (\<lambda>meter.
        rbind (byte_at haystack position) (\<lambda>byte.
        if contains cls byte then Inr (Some position, meter)
        else rbind (next_position position 1) (\<lambda>position'.
          class_loop haystack stop position' cls meter)))
      else Inr (None, meter))"
  by pat_completeness auto
termination
  by (relation "measure (\<lambda>(haystack, stop, position, cls, meter). stop - position)")
     (auto simp: next_position_def)

declare class_loop.simps [simp del]

definition find_class_start ::
  "bytes \<Rightarrow> search_window \<Rightarrow> nat \<Rightarrow> byte_class \<Rightarrow> bool \<Rightarrow> work_meter
     \<Rightarrow> execute_error + nat option \<times> work_meter" where
  "find_class_start haystack window cursor cls anchored_start meter =
     (if anchored_start then
        if cursor \<noteq> 0 \<or> window_start window \<noteq> 0 \<or> window_end window = 0 then Inr (None, meter)
        else rbind (meter_tick meter) (\<lambda>meter.
          rbind (byte_at haystack 0) (\<lambda>byte.
          Inr (if contains cls byte then Some 0 else None, meter)))
      else class_loop haystack (window_end window) (max cursor (window_start window)) cls meter)"

section \<open>The machine\<close>

datatype flow =
    Initial
  | Cursor nat
  | Run nat nat
  | Match match_span
  | Exhausted
  | Rejected nat

datatype control = Continue | Return "match_span option"

record machine =
  m_program :: validated_program
  m_haystack :: bytes
  m_window :: search_window
  m_pc :: block_id
  m_state :: flow
  m_meter :: work_meter

definition invariant_error :: "machine \<Rightarrow> execute_error" where
  "invariant_error mc = InternalInvariant (block_no (m_pc mc))"

definition program_bytes :: "validated_program \<Rightarrow> u32w \<Rightarrow> block_id \<Rightarrow> execute_error + bytes" where
  "program_bytes program n block =
     (if unat n < length (raw_data (vp_raw program)) then
        case raw_data (vp_raw program) ! unat n of
          Bytes value \<Rightarrow> Inr value
        | Class _ \<Rightarrow> Inl (InternalInvariant (block_no block))
      else Inl (InternalInvariant (block_no block)))"

definition program_class :: "machine \<Rightarrow> u32w \<Rightarrow> execute_error + byte_class" where
  "program_class mc n =
     (if unat n < length (raw_data (vp_raw (m_program mc))) then
        case raw_data (vp_raw (m_program mc)) ! unat n of
          Class cls \<Rightarrow> Inr cls
        | Bytes _ \<Rightarrow> Inl (invariant_error mc)
      else Inl (invariant_error mc))"

definition scan_literal ::
  "machine \<Rightarrow> u32w \<Rightarrow> anchor_flags \<Rightarrow> block_id \<Rightarrow> block_id \<Rightarrow> execute_error + machine" where
  "scan_literal mc needle anchors matched exhausted =
     (case m_state mc of
        Cursor cursor \<Rightarrow>
          rbind (program_bytes (m_program mc) needle (m_pc mc)) (\<lambda>needle.
          rbind (find_literal (m_haystack mc) (m_window mc) cursor needle anchors (m_meter mc))
            (\<lambda>(found, meter).
              case found of
                Some span \<Rightarrow> Inr (mc\<lparr>m_meter := meter, m_state := Match span, m_pc := matched\<rparr>)
              | None \<Rightarrow> Inr (mc\<lparr>m_meter := meter, m_state := Exhausted, m_pc := exhausted\<rparr>)))
      | _ \<Rightarrow> Inl (invariant_error mc))"

definition scan_class ::
  "machine \<Rightarrow> u32w \<Rightarrow> bool \<Rightarrow> block_id \<Rightarrow> block_id \<Rightarrow> execute_error + machine" where
  "scan_class mc cls anchored_start run exhausted =
     (case m_state mc of
        Cursor cursor \<Rightarrow>
          rbind (program_class mc cls) (\<lambda>cls.
          rbind (find_class_start (m_haystack mc) (m_window mc) cursor cls anchored_start (m_meter mc))
            (\<lambda>(found, meter).
              case found of
                Some start \<Rightarrow>
                  rbind (next_position start 1) (\<lambda>stop.
                  Inr (mc\<lparr>m_meter := meter, m_state := Run start stop, m_pc := run\<rparr>))
              | None \<Rightarrow> Inr (mc\<lparr>m_meter := meter, m_state := Exhausted, m_pc := exhausted\<rparr>)))
      | _ \<Rightarrow> Inl (invariant_error mc))"

function extend_loop ::
  "bytes \<Rightarrow> nat \<Rightarrow> byte_class \<Rightarrow> nat \<Rightarrow> work_meter \<Rightarrow> execute_error + nat \<times> work_meter" where
  "extend_loop haystack limit cls stop meter =
     (if stop < limit then
        rbind (meter_tick meter) (\<lambda>meter.
        rbind (byte_at haystack stop) (\<lambda>byte.
        if \<not> contains cls byte then Inr (stop, meter)
        else rbind (next_position stop 1) (\<lambda>stop'.
          extend_loop haystack limit cls stop' meter)))
      else Inr (stop, meter))"
  by pat_completeness auto
termination
  by (relation "measure (\<lambda>(haystack, limit, cls, stop, meter). limit - stop)")
     (auto simp: next_position_def)

declare extend_loop.simps [simp del]

definition extend_class :: "machine \<Rightarrow> u32w \<Rightarrow> block_id \<Rightarrow> execute_error + machine" where
  "extend_class mc cls next =
     (case m_state mc of
        Run start stop \<Rightarrow>
          rbind (program_class mc cls) (\<lambda>cls.
          rbind (extend_loop (m_haystack mc) (window_end (m_window mc)) cls stop (m_meter mc))
            (\<lambda>(stop, meter).
              Inr (mc\<lparr>m_meter := meter, m_state := Run start stop, m_pc := next\<rparr>)))
      | _ \<Rightarrow> Inl (invariant_error mc))"

definition confirm_suffix ::
  "machine \<Rightarrow> u32w \<Rightarrow> bool \<Rightarrow> block_id \<Rightarrow> block_id \<Rightarrow> execute_error + machine" where
  "confirm_suffix mc suffix anchored_end matched rejected =
     (case m_state mc of
        Run start stop \<Rightarrow>
          rbind (program_bytes (m_program mc) suffix (m_pc mc)) (\<lambda>suffix.
          rbind (matches_at (m_haystack mc) (m_window mc) stop suffix (m_meter mc))
            (\<lambda>(equal, meter).
              let reject = mc\<lparr>m_meter := meter, m_state := Rejected stop, m_pc := rejected\<rparr> in
              if equal then
                rbind (next_position stop (length suffix)) (\<lambda>match_end.
                if \<not> anchored_end \<or> match_end = length (m_haystack mc)
                then Inr (mc\<lparr>m_meter := meter, m_state := Match (match_span_new start match_end),
                            m_pc := matched\<rparr>)
                else Inr reject)
              else Inr reject))
      | _ \<Rightarrow> Inl (invariant_error mc))"

text \<open>One turn of the machine.\<close>

definition machine_step :: "machine \<Rightarrow> execute_error + control \<times> machine" where
  "machine_step mc =
     (if unat (block_no (m_pc mc)) < length (raw_blocks (vp_raw (m_program mc))) then
        case raw_blocks (vp_raw (m_program mc)) ! unat (block_no (m_pc mc)) of
          Entry next \<Rightarrow>
            (case m_state mc of
               Initial \<Rightarrow> Inr (Continue,
                 mc\<lparr>m_state := Cursor (window_start (m_window mc)), m_pc := next\<rparr>)
             | _ \<Rightarrow> Inl (invariant_error mc))
        | ScanLiteral needle anchors matched exhausted \<Rightarrow>
            rbind (scan_literal mc (data_no needle) anchors matched exhausted) (\<lambda>mc. Inr (Continue, mc))
        | ScanClassStart cls anchored_start run exhausted \<Rightarrow>
            rbind (scan_class mc (data_no cls) anchored_start run exhausted) (\<lambda>mc. Inr (Continue, mc))
        | ExtendClassRun cls next \<Rightarrow>
            rbind (extend_class mc (data_no cls) next) (\<lambda>mc. Inr (Continue, mc))
        | ConfirmSuffix suffix anchored_end matched rejected \<Rightarrow>
            rbind (confirm_suffix mc (data_no suffix) anchored_end matched rejected)
              (\<lambda>mc. Inr (Continue, mc))
        | AdvanceAfterReject next \<Rightarrow>
            (case m_state mc of
               Rejected resume \<Rightarrow> Inr (Continue, mc\<lparr>m_state := Cursor resume, m_pc := next\<rparr>)
             | _ \<Rightarrow> Inl (invariant_error mc))
        | ReturnFound \<Rightarrow>
            (case m_state mc of
               Match span \<Rightarrow> Inr (Return (Some span), mc)
             | _ \<Rightarrow> Inl (invariant_error mc))
        | ReturnNone \<Rightarrow>
            (case m_state mc of
               Exhausted \<Rightarrow> Inr (Return None, mc)
             | _ \<Rightarrow> Inl (invariant_error mc))
      else Inl (invariant_error mc))"

section \<open>The meter only moves forward\<close>

definition forward :: "work_meter \<Rightarrow> execute_error + 'a \<times> work_meter \<Rightarrow> bool" where
  "forward meter m = safe (\<lambda>_. True) m (\<lambda>(r, meter'). meter_consumed meter \<le> meter_consumed meter')"

lemma forward_simps [simp]: "forward meter (Inl e)"
  "forward meter (Inr (r, meter')) \<longleftrightarrow> meter_consumed meter \<le> meter_consumed meter'"
  by (simp_all add: forward_def)

lemma meter_tick_advances:
  "meter_tick meter = Inr meter' \<Longrightarrow>
     meter_consumed meter' = Suc (meter_consumed meter) \<and> Suc (meter_consumed meter) \<le> usize_max"
  by (auto simp: meter_tick_def rbind_eq_Inr split: if_splits)

lemma forward_tick:
  assumes "\<And>meter'. meter_tick meter = Inr meter' \<Longrightarrow> forward meter' (f meter')"
  shows "forward meter (rbind (meter_tick meter) f)"
proof (cases "meter_tick meter")
  case (Inr meter')
  with assms [OF this] show ?thesis
    by (auto simp: forward_def safe_def split: sum.splits dest!: meter_tick_advances)
qed simp

lemma forward_pure:
  assumes "\<And>x. r = Inr x \<Longrightarrow> forward meter (f x)"
  shows "forward meter (rbind r f)"
  using assms by (cases r) auto

lemmas forward_position = forward_pure [of "next_position p n" for p n]
lemmas forward_byte = forward_pure [of "byte_at h p" for h p]
lemmas forward_rules = forward_tick forward_position forward_byte

lemma forward_bind:
  assumes "forward meter r" and "\<And>x meter'. r = Inr (x, meter') \<Longrightarrow> forward meter' (f (x, meter'))"
  shows "forward meter (rbind r f)"
proof (cases r)
  case (Inr y)
  then show ?thesis using assms by (cases y; cases "f y") (auto simp: forward_def safe_def)
qed simp

lemma matches_loop_forward: "forward meter (matches_loop haystack start offset needle meter)"
  by (induction haystack start offset needle meter rule: matches_loop.induct)
     (auto intro!: forward_rules)

lemma matches_at_forward: "forward meter (matches_at haystack window start needle meter)"
  by (simp add: matches_at_def matches_loop_forward split: option.split)

lemma literal_loop_forward: "forward meter (literal_loop haystack window candidate final needle meter)"
proof (induction haystack window candidate final needle meter rule: literal_loop.induct)
  case (1 haystack window candidate final needle meter)
  show ?case
    by (subst literal_loop.simps)
       (auto intro!: forward_rules forward_bind [OF matches_at_forward] "1.IH")
qed

lemma class_loop_forward: "forward meter (class_loop haystack stop position cls meter)"
proof (induction haystack stop position cls meter rule: class_loop.induct)
  case (1 haystack stop position cls meter)
  show ?case
    by (subst class_loop.simps) (auto intro!: forward_rules "1.IH")
qed

lemma extend_loop_forward: "forward meter (extend_loop haystack limit cls stop meter)"
proof (induction haystack limit cls stop meter rule: extend_loop.induct)
  case (1 haystack limit cls stop meter)
  show ?case
    by (subst extend_loop.simps) (auto intro!: forward_rules "1.IH")
qed

lemma find_literal_forward: "forward meter (find_literal haystack window cursor needle anchors meter)"
  by (auto simp: find_literal_def literal_loop_forward split: option.split
      intro!: forward_bind [OF matches_at_forward])

lemma find_class_start_forward: "forward meter (find_class_start haystack window cursor cls anchored meter)"
  by (auto simp: find_class_start_def class_loop_forward intro!: forward_rules)

lemma forwardD: "r = Inr (x, meter') \<Longrightarrow> forward meter r \<Longrightarrow> meter_consumed meter \<le> meter_consumed meter'"
  by simp

lemma machine_step_forward:
  "machine_step mc = Inr (c, mc') \<Longrightarrow> meter_consumed (m_meter mc) \<le> meter_consumed (m_meter mc')"
  by (auto simp: machine_step_def scan_literal_def scan_class_def extend_class_def confirm_suffix_def
      rbind_eq_Inr Let_def split: if_splits block_op.splits flow.splits option.splits
      dest!: forwardD [OF _ find_literal_forward] forwardD [OF _ find_class_start_forward]
        forwardD [OF _ extend_loop_forward] forwardD [OF _ matches_at_forward])

function machine_run :: "machine \<Rightarrow> execute_error + match_span option \<times> machine" where
  "machine_run mc =
     rbind (meter_tick (m_meter mc)) (\<lambda>meter.
     rbind (machine_step (mc\<lparr>m_meter := meter\<rparr>)) (\<lambda>(control, mc').
     case control of
       Return found \<Rightarrow> Inr (found, mc')
     | Continue \<Rightarrow> machine_run mc'))"
  by pat_completeness auto
termination
  by (relation "measure (\<lambda>mc. usize_max - meter_consumed (m_meter mc))")
     (auto dest!: meter_tick_advances machine_step_forward)

declare machine_run.simps [simp del]

definition execute ::
  "output_kind \<Rightarrow> validated_program \<Rightarrow> bytes \<Rightarrow> search_window \<Rightarrow> execution_limits
     \<Rightarrow> execute_error + execution_report" where
  "execute kind program haystack window limits =
     (if \<not> window_valid window (length haystack)
      then Inl (InvalidWindow (window_start window) (window_end window) (length haystack))
      else
        rbind (machine_run \<lparr>m_program = program, m_haystack = haystack, m_window = window,
            m_pc = raw_entry (vp_raw program), m_state = Initial,
            m_meter = meter_new (exec_max_work limits)\<rparr>)
          (\<lambda>(found, mc). Inr \<lparr>report_output = project kind found,
                             report_work = meter_consumed (m_meter mc)\<rparr>))"

end
