(* ===== verification/KirSearch.thy ===== *)
theory KirSearch
  imports KirInterp
begin

text \<open>
  What a kernel of \<^verbatim>\<open>crates/fre-kernel-ir\<close> promises, and that the scans of \<^verbatim>\<open>interpret.rs\<close> keep it.
  A kernel is a literal or a class run with a suffix (\<open>kernel_shape\<close>); \<open>kernel_match\<close> says which
  spans match it, byte by byte, and \<open>first_from\<close> that a result is the leftmost such span. The
  outcome of a metered computation is described by \<open>metered\<close>: it either stops exactly at its limit,
  which then was below the stated cost, or returns a value with the property within the cost.
\<close>

section \<open>Kernels and their matches\<close>

datatype kernel_shape =
    LiteralShape bytes anchor_flags
  | ClassSuffixShape byte_class bytes anchor_flags

definition slice :: "bytes \<Rightarrow> nat \<Rightarrow> nat \<Rightarrow> bytes" where
  "slice haystack start stop = take (stop - start) (drop start haystack)"

definition anchors_hold :: "anchor_flags \<Rightarrow> bytes \<Rightarrow> nat \<Rightarrow> nat \<Rightarrow> bool" where
  "anchors_hold anchors haystack start stop =
     ((anchor_start anchors \<longrightarrow> start = 0) \<and> (anchor_end anchors \<longrightarrow> stop = length haystack))"

definition within :: "search_window \<Rightarrow> nat \<Rightarrow> nat \<Rightarrow> bool" where
  "within window start stop = (window_start window \<le> start \<and> start \<le> stop \<and> stop \<le> window_end window)"

fun kernel_match :: "kernel_shape \<Rightarrow> bytes \<Rightarrow> search_window \<Rightarrow> nat \<Rightarrow> nat \<Rightarrow> bool" where
  "kernel_match (LiteralShape needle anchors) haystack window start stop =
     (within window start stop \<and> slice haystack start stop = needle
      \<and> anchors_hold anchors haystack start stop)"
| "kernel_match (ClassSuffixShape cls suffix anchors) haystack window start stop =
     (within window start stop \<and> anchors_hold anchors haystack start stop
      \<and> (\<exists>middle\<in>{Suc start..stop}.
            list_all (contains cls) (slice haystack start middle)
            \<and> slice haystack middle stop = suffix))"

declare kernel_match.simps [simp del]

text \<open>The leftmost match that starts at or after a position.\<close>

definition first_from :: "(nat \<Rightarrow> nat \<Rightarrow> bool) \<Rightarrow> nat \<Rightarrow> match_span option \<Rightarrow> bool" where
  "first_from matches cursor found =
     (case found of
        None \<Rightarrow> \<forall>s t. cursor \<le> s \<longrightarrow> \<not> matches s t
      | Some span \<Rightarrow> cursor \<le> span_start span \<and> matches (span_start span) (span_end span)
          \<and> (\<forall>s t. cursor \<le> s \<longrightarrow> s < span_start span \<longrightarrow> \<not> matches s t))"

definition kernel_found :: "kernel_shape \<Rightarrow> bytes \<Rightarrow> search_window \<Rightarrow> match_span option \<Rightarrow> bool" where
  "kernel_found shape haystack window found =
     first_from (kernel_match shape haystack window) (window_start window) found"

lemma first_from_None [simp]: "first_from matches cursor None \<longleftrightarrow> (\<forall>s t. cursor \<le> s \<longrightarrow> \<not> matches s t)"
  by (simp add: first_from_def)

lemma first_from_Some [simp]:
  "first_from matches cursor (Some (match_span_new s t)) \<longleftrightarrow>
     cursor \<le> s \<and> matches s t \<and> (\<forall>s' t'. cursor \<le> s' \<longrightarrow> s' < s \<longrightarrow> \<not> matches s' t')"
  by (simp add: first_from_def match_span_new_def)

lemma first_from_skip:
  assumes "first_from matches cursor' found" "cursor \<le> cursor'"
    and "\<And>s t. cursor \<le> s \<Longrightarrow> s < cursor' \<Longrightarrow> \<not> matches s t"
  shows "first_from matches cursor found"
proof (cases found)
  case None
  have "\<not> matches s t" if "cursor \<le> s" for s t
    using assms None that by (cases "s < cursor'") auto
  with None show ?thesis by simp
next
  case (Some span)
  have "\<not> matches s t" if "cursor \<le> s" "s < span_start span" for s t
    using assms Some that by (cases "s < cursor'") (auto simp: first_from_def)
  with Some assms show ?thesis by (auto simp: first_from_def)
qed

lemma length_slice: "stop \<le> length haystack \<Longrightarrow> length (slice haystack start stop) = stop - start"
  by (simp add: slice_def)

lemma slice_eq_iff:
  assumes "stop \<le> length haystack"
  shows "slice haystack start stop = needle \<longleftrightarrow>
    length needle = stop - start \<and> (\<forall>i<length needle. haystack ! (start + i) = needle ! i)"
  using assms by (auto simp: slice_def list_eq_iff_nth_eq)

lemma list_all_slice_iff:
  "stop \<le> length haystack \<Longrightarrow> list_all p (slice haystack start stop) \<longleftrightarrow>
     (\<forall>i. start \<le> i \<longrightarrow> i < stop \<longrightarrow> p (haystack ! i))"
  by (auto simp: list_all_length slice_def) (metis add_diff_inverse_nat diff_less_mono leD)

lemma slice_empty [simp]: "slice haystack s s = []"
  by (simp add: slice_def)

text \<open>
  With a suffix whose first byte is outside the class, the run before it is maximal: a start
  has at most one end, which is why the scan needs no backtracking.
\<close>

lemma class_suffix_middle:
  assumes "stop \<le> length haystack" "middle \<le> stop" "stop' \<le> length haystack" "middle' \<le> stop'"
    and "list_all (contains cls) (slice haystack start middle)"
    and "list_all (contains cls) (slice haystack start middle')"
    and "slice haystack middle stop = suffix" "slice haystack middle' stop' = suffix"
    and "start < middle" "start < middle'" "suffix \<noteq> []" "\<not> contains cls (hd suffix)"
  shows "middle = middle' \<and> stop = stop'"
proof -
  have first: "\<not> contains cls (haystack ! m)" "stop = m + length suffix"
    if "slice haystack m stop = suffix" "m \<le> stop" "stop \<le> length haystack" for m stop
    using that assms(11,12) by (auto simp: slice_eq_iff hd_conv_nth)
  have "\<not> middle < middle'" "\<not> middle' < middle"
    using first [OF assms(7,2,1)] first [OF assms(8,4,3)] assms
    by (auto simp: list_all_slice_iff)
  then have "middle = middle'" by simp
  with first(2) [OF assms(7,2,1)] first(2) [OF assms(8,4,3)] show ?thesis by simp
qed

section \<open>Metered outcomes\<close>

definition meter_ok :: "work_meter \<Rightarrow> bool" where
  "meter_ok meter = (meter_consumed meter \<le> meter_limit meter \<and> meter_limit meter \<le> usize_max)"

definition metered ::
  "work_meter \<Rightarrow> nat \<Rightarrow> execute_error + 'a \<times> work_meter \<Rightarrow> ('a \<Rightarrow> bool) \<Rightarrow> bool" where
  "metered meter cost m Q =
     (case m of
        Inl e \<Rightarrow> e = WorkLimitExceeded (meter_limit meter) (meter_limit meter)
          \<and> meter_limit meter < meter_consumed meter + cost
      | Inr (x, meter') \<Rightarrow> Q x \<and> meter_limit meter' = meter_limit meter
          \<and> meter_consumed meter \<le> meter_consumed meter'
          \<and> meter_consumed meter' \<le> meter_consumed meter + cost \<and> meter_ok meter')"

lemma meter_new_ok: "limit \<le> usize_max \<Longrightarrow> meter_ok (meter_new limit)"
  by (simp add: meter_ok_def meter_new_def)

lemma metered_return: "meter_ok meter \<Longrightarrow> Q x \<Longrightarrow> metered meter cost (Inr (x, meter)) Q"
  by (simp add: metered_def)

lemma metered_cost: "metered meter cost m Q \<Longrightarrow> cost \<le> cost' \<Longrightarrow> metered meter cost' m Q"
  by (auto simp: metered_def split: sum.splits)

lemma metered_mono: "metered meter cost m Q \<Longrightarrow> (\<And>x. Q x \<Longrightarrow> Q' x) \<Longrightarrow> metered meter cost m Q'"
  by (auto simp: metered_def split: sum.splits)

lemma metered_tick:
  assumes "meter_ok meter" "\<And>meter'. meter_ok meter' \<Longrightarrow> metered meter' cost (f meter') Q"
  shows "metered meter (Suc cost) (rbind (meter_tick meter) f) Q"
proof (cases "meter_consumed meter = meter_limit meter")
  case True
  then show ?thesis by (simp add: metered_def meter_tick_def)
next
  case False
  let ?m = "meter\<lparr>meter_consumed := Suc (meter_consumed meter)\<rparr>"
  have "meter_ok ?m" "meter_tick meter = Inr ?m"
    using assms(1) False by (auto simp: meter_ok_def meter_tick_def)
  with assms(2) [of ?m] show ?thesis by (auto simp: metered_def split: sum.splits)
qed

lemma metered_bind:
  assumes "metered meter cost m P"
    and "\<And>x meter'. P x \<Longrightarrow> meter_ok meter' \<Longrightarrow> metered meter' cost' (f (x, meter')) Q"
  shows "metered meter (cost + cost') (rbind m f) Q"
proof (cases m)
  case (Inl e)
  with assms(1) show ?thesis by (auto simp: metered_def)
next
  case (Inr y)
  obtain x meter' where y: "y = (x, meter')" by (cases y)
  show ?thesis
    using assms(1) assms(2) [of x meter'] Inr y by (auto simp: metered_def split: sum.splits)
qed

text \<open>
  For a scan that gives back what it did not use, \<open>credited\<close> is the same outcome with a budget:
  its postcondition sees how much of the budget is left.
\<close>

definition credited ::
  "work_meter \<Rightarrow> nat \<Rightarrow> execute_error + 'a \<times> work_meter \<Rightarrow> ('a \<Rightarrow> nat \<Rightarrow> bool) \<Rightarrow> bool" where
  "credited meter budget m Q =
     (case m of
        Inl e \<Rightarrow> e = WorkLimitExceeded (meter_limit meter) (meter_limit meter)
          \<and> meter_limit meter < meter_consumed meter + budget
      | Inr (x, meter') \<Rightarrow> meter_limit meter' = meter_limit meter
          \<and> meter_consumed meter \<le> meter_consumed meter' \<and> meter_ok meter'
          \<and> (\<exists>left. Q x left \<and> meter_consumed meter' + left \<le> meter_consumed meter + budget))"

lemma credited_return: "meter_ok meter \<Longrightarrow> Q x budget \<Longrightarrow> credited meter budget (Inr (x, meter)) Q"
  by (auto simp: credited_def)

lemma credited_mono:
  "credited meter budget m Q \<Longrightarrow> (\<And>x left. Q x left \<Longrightarrow> Q' x left) \<Longrightarrow> credited meter budget m Q'"
  by (fastforce simp: credited_def split: sum.splits)

lemma credited_budget: "credited meter budget m Q \<Longrightarrow> budget \<le> budget' \<Longrightarrow> credited meter budget' m Q"
  by (fastforce simp: credited_def split: sum.splits)

lemma credited_tick:
  assumes "meter_ok meter" "\<And>meter'. meter_ok meter' \<Longrightarrow> credited meter' budget (f meter') Q"
  shows "credited meter (Suc budget) (rbind (meter_tick meter) f) Q"
proof (cases "meter_consumed meter = meter_limit meter")
  case True
  then show ?thesis by (simp add: credited_def meter_tick_def)
next
  case False
  let ?m = "meter\<lparr>meter_consumed := Suc (meter_consumed meter)\<rparr>"
  have "meter_ok ?m" "meter_tick meter = Inr ?m"
    using assms(1) False by (auto simp: meter_ok_def meter_tick_def)
  with assms(2) [of ?m] show ?thesis by (auto simp: credited_def split: sum.splits)
qed

lemma credited_bind:
  assumes "credited meter budget m P"
    and "\<And>x left meter'. P x left \<Longrightarrow> meter_ok meter' \<Longrightarrow> credited meter' left (f (x, meter')) Q"
  shows "credited meter budget (rbind m f) Q"
proof (cases m)
  case (Inl e)
  with assms(1) show ?thesis by (auto simp: credited_def)
next
  case (Inr y)
  obtain x meter' where y: "y = (x, meter')" by (cases y)
  with assms(1) Inr obtain left where "P x left" "meter_ok meter'"
    "meter_limit meter' = meter_limit meter" "meter_consumed meter \<le> meter_consumed meter'"
    "meter_consumed meter' + left \<le> meter_consumed meter + budget"
    by (auto simp: credited_def)
  with assms(2) [of x left meter'] Inr y show ?thesis
    by (fastforce simp: credited_def split: sum.splits)
qed

lemma metered_credited:
  "metered meter cost m Q \<Longrightarrow> credited meter (cost + left) m (\<lambda>x left'. Q x \<and> left' = left)"
  by (auto simp: credited_def metered_def split: sum.splits)

lemma credited_metered: "credited meter cost m (\<lambda>x left. Q x) \<Longrightarrow> metered meter cost m Q"
  by (auto simp: credited_def metered_def split: sum.splits)

section \<open>Scans\<close>

lemma next_position_fits [simp]: "p + n \<le> usize_max \<Longrightarrow> next_position p n = Inr (p + n)"
  by (simp add: next_position_def)

lemma byte_at_fits [simp]: "p < length haystack \<Longrightarrow> byte_at haystack p = Inr (haystack ! p)"
  by (simp add: byte_at_def)

lemma matches_loop_metered:
  assumes "meter_ok meter" "start + offset + length needle \<le> length haystack"
    and "length haystack \<le> usize_max"
  shows "metered meter (length needle) (matches_loop haystack start offset needle meter)
    (\<lambda>b. b \<longleftrightarrow> (\<forall>i<length needle. haystack ! (start + offset + i) = needle ! i))"
  using assms(1,2)
proof (induction needle arbitrary: offset meter)
  case (Cons expected needle)
  have get: "haystack_get haystack (start + offset) = Some (haystack ! (start + offset))"
    using Cons.prems by (simp add: haystack_get_def)
  show ?case
  proof (simp only: matches_loop.simps list.size add_Suc_right add_0_right, rule metered_tick)
    fix meter' assume ok: "meter_ok meter'"
    show "metered meter' (length needle)
        (rbind (next_position start offset) (\<lambda>position.
          if haystack_get haystack position \<noteq> Some expected then Inr (False, meter')
          else matches_loop haystack start (Suc offset) needle meter'))
        (\<lambda>b. b \<longleftrightarrow> (\<forall>i<Suc (length needle). haystack ! (start + offset + i) = (expected # needle) ! i))"
    proof (cases "haystack ! (start + offset) = expected")
      case True
      with Cons.prems get assms(3) show ?thesis
        by (auto simp: All_less_Suc2 intro!: metered_mono [OF Cons.IH [OF ok]])
    next
      case False
      with Cons.prems get assms(3) ok show ?thesis
        by (auto simp: All_less_Suc2 intro!: metered_return)
    qed
  qed (rule Cons.prems)
qed (simp add: metered_return)

lemma matches_at_metered:
  assumes "meter_ok meter" "window_valid window (length haystack)" "length haystack \<le> usize_max"
  shows "metered meter (length needle) (matches_at haystack window start needle meter)
    (\<lambda>b. b \<longleftrightarrow> within window start (start + length needle)
        \<and> slice haystack start (start + length needle) = needle)"
proof (cases "within window start (start + length needle)")
  case True
  with assms have "start + length needle \<le> length haystack" "start + length needle \<le> usize_max"
    by (auto simp: within_def window_valid_def)
  with True assms show ?thesis
    by (auto simp: matches_at_def within_def slice_eq_iff
        intro!: metered_mono [OF matches_loop_metered [where offset = 0, simplified]])
next
  case False
  with assms show ?thesis
    by (auto simp: matches_at_def within_def uadd_def intro!: metered_return)
qed

lemma literal_match_end:
  assumes "window_valid window (length haystack)"
    and "kernel_match (LiteralShape needle anchors) haystack window s t"
  shows "t = s + length needle"
proof -
  have "t \<le> length haystack" "s \<le> t"
    using assms by (auto simp: kernel_match.simps within_def window_valid_def)
  with assms(2) length_slice [of t haystack s] show ?thesis by (auto simp: kernel_match.simps)
qed

lemma kernel_match_literal:
  assumes "window_valid window (length haystack)"
  shows "kernel_match (LiteralShape needle anchors) haystack window s t \<longleftrightarrow>
    t = s + length needle \<and> within window s t \<and> slice haystack s t = needle
    \<and> anchors_hold anchors haystack s t"
  using literal_match_end [OF assms] by (auto simp: kernel_match.simps(1))

lemma literal_loop_metered:
  assumes "window_valid window (length haystack)" "length haystack \<le> usize_max"
    and "final + length needle = window_end window" "\<not> anchor_start anchors" "\<not> anchor_end anchors"
    and "meter_ok meter" "window_start window \<le> candidate"
  shows "metered meter ((Suc final - candidate) * Suc (length needle))
    (literal_loop haystack window candidate final needle meter)
    (first_from (kernel_match (LiteralShape needle anchors) haystack window) candidate)"
  using assms(6,7)
proof (induction "Suc final - candidate" arbitrary: candidate meter)
  case 0
  then have "\<not> candidate \<le> final" by simp
  with 0 assms(3) show ?case
    by (auto simp: literal_loop.simps [of haystack window candidate] kernel_match_literal [OF assms(1)]
        within_def intro!: metered_return)
next
  case (Suc k)
  let ?km = "kernel_match (LiteralShape needle anchors) haystack window"
  let ?n = "length needle"
  have le: "candidate \<le> final" using Suc.hyps(2) by simp
  have fits: "candidate + ?n \<le> usize_max" "Suc candidate \<le> usize_max \<or> ?n = 0 \<and> candidate = final"
    using le assms(1-3) unfolding window_valid_def by arith+
  have here: "?km candidate t \<longleftrightarrow> t = candidate + ?n \<and> within window candidate (candidate + ?n)
      \<and> slice haystack candidate (candidate + ?n) = needle" for t
    using assms(4,5) by (auto simp: kernel_match_literal [OF assms(1)] anchors_hold_def)
  have empty: "?n = 0 \<Longrightarrow> ?km candidate candidate"
    using here [of candidate] le assms(3) Suc.prems by (auto simp: within_def)
  have "metered meter (Suc (?n + k * Suc ?n)) (literal_loop haystack window candidate final needle meter)
      (first_from ?km candidate)"
  proof (subst literal_loop.simps, subst if_P [OF le], rule metered_tick [OF Suc.prems(1)],
      rule metered_bind [OF matches_at_metered [OF _ assms(1,2)]])
    fix meter2 b meter3
    assume b: "b \<longleftrightarrow> within window candidate (candidate + ?n)
        \<and> slice haystack candidate (candidate + ?n) = needle" and ok: "meter_ok meter3"
    have rest: "metered meter3 (k * Suc ?n)
        (literal_loop haystack window (Suc candidate) final needle meter3) (first_from ?km (Suc candidate))"
    proof -
      have k: "k = Suc final - Suc candidate" using Suc.hyps(2) by simp
      show ?thesis
        using Suc.hyps(1) [OF k ok] Suc.prems(2) by (simp only: k [symmetric] le_SucI)
    qed
    show "metered meter3 (k * Suc ?n)
        (case (b, meter3) of (matched, meter) \<Rightarrow>
          if matched then rbind (next_position candidate ?n)
            (\<lambda>stop. Inr (Some (match_span_new candidate stop), meter))
          else rbind (next_position candidate 1)
            (\<lambda>candidate'. literal_loop haystack window candidate' final needle meter))
        (first_from ?km candidate)"
    proof (cases b)
      case True
      with b here fits ok show ?thesis by (auto intro!: metered_return)
    next
      case False
      then have none: "\<not> ?km candidate t" for t using b here by blast
      then have "Suc candidate \<le> usize_max" using fits(2) empty by auto
      moreover have "first_from ?km candidate r" if "first_from ?km (Suc candidate) r" for r
        by (rule first_from_skip [OF that]) (use none less_Suc_eq in auto)
      ultimately show ?thesis using False metered_mono [OF rest] by simp
    qed
  qed
  then show ?case by (simp add: Suc.hyps(2) [symmetric] ac_simps)
qed

lemma find_literal_metered:
  assumes "meter_ok meter" "window_valid window (length haystack)" "length haystack \<le> usize_max"
  shows "metered meter ((window_end window - window_start window + 1) * Suc (length needle))
    (find_literal haystack window (window_start window) needle anchors meter)
    (kernel_found (LiteralShape needle anchors) haystack window)"
proof -
  let ?n = "length needle" and ?W = "window_end window - window_start window"
  let ?km = "kernel_match (LiteralShape needle anchors) haystack window"
  note km = kernel_match_literal [OF assms(2)]
  have n: "?n \<le> (?W + 1) * Suc ?n" by simp
  note at = metered_bind [OF matches_at_metered [OF assms], where cost' = 0, simplified]
  consider (start) "anchor_start anchors" | (stop) "\<not> anchor_start anchors" "anchor_end anchors"
    | (free) "\<not> anchor_start anchors" "\<not> anchor_end anchors" by blast
  then show ?thesis
  proof cases
    case start
    show ?thesis
    proof (cases "window_start window = 0")
      case True
      have "metered meter ?n (find_literal haystack window (window_start window) needle anchors meter)
          (kernel_found (LiteralShape needle anchors) haystack window)"
        unfolding find_literal_def using start True
        by (auto simp: kernel_found_def km anchors_hold_def
            intro!: at metered_return)
      then show ?thesis by (rule metered_cost [OF _ n])
    next
      case False
      with start assms(1) show ?thesis
        by (auto simp: find_literal_def kernel_found_def km within_def anchors_hold_def
            intro!: metered_return)
    qed
  next
    case stop
    show ?thesis
    proof (cases "?n \<le> length haystack \<and> window_start window \<le> length haystack - ?n")
      case True
      let ?s = "length haystack - ?n"
      have here: "?km s t \<longleftrightarrow> s = ?s \<and> t = length haystack \<and> within window ?s (?s + ?n)
          \<and> slice haystack ?s (?s + ?n) = needle" for s t
        using stop True by (cases "s = ?s") (auto simp: km anchors_hold_def)
      have eq: "find_literal haystack window (window_start window) needle anchors meter =
          rbind (matches_at haystack window ?s needle meter) (\<lambda>(matched, meter).
              if matched then Inr (Some (match_span_new ?s (length haystack)), meter)
              else Inr (None, meter))"
        using stop True by (simp add: find_literal_def)
      have "metered meter ?n (find_literal haystack window (window_start window) needle anchors meter)
          (kernel_found (LiteralShape needle anchors) haystack window)"
        unfolding eq
      proof (rule at)
        fix b meter'
        assume "b \<longleftrightarrow> within window ?s (?s + ?n) \<and> slice haystack ?s (?s + ?n) = needle"
          and "meter_ok meter'"
        with True here show "metered meter' 0 (case (b, meter') of (matched, meter) \<Rightarrow>
              if matched then Inr (Some (match_span_new ?s (length haystack)), meter)
              else Inr (None, meter)) (kernel_found (LiteralShape needle anchors) haystack window)"
          by (auto simp: kernel_found_def intro!: metered_return)
      qed
      then show ?thesis by (rule metered_cost [OF _ n])
    next
      case False
      with stop assms(1) show ?thesis
        by (auto simp: find_literal_def kernel_found_def km within_def anchors_hold_def usub_def
            intro!: metered_return)
    qed
  next
    case free
    show ?thesis
    proof (cases "?n \<le> window_end window")
      case True
      then have "metered meter ((Suc (window_end window - ?n) - window_start window) * Suc ?n)
          (find_literal haystack window (window_start window) needle anchors meter)
          (kernel_found (LiteralShape needle anchors) haystack window)"
        using free literal_loop_metered [OF assms(2,3), of "window_end window - ?n" needle anchors] assms(1)
        by (simp add: find_literal_def kernel_found_def [abs_def])
      then show ?thesis by (rule metered_cost) (intro mult_le_mono1, use assms(2) in \<open>auto simp: window_valid_def\<close>)
    next
      case False
      with free assms(1) show ?thesis
        by (auto simp: find_literal_def kernel_found_def km within_def usub_def
            intro!: metered_return)
    qed
  qed
qed

lemma class_loop_credited:
  assumes "stop \<le> length haystack" "length haystack \<le> usize_max" "meter_ok meter"
  shows "credited meter (stop - position + spare) (class_loop haystack stop position cls meter)
    (\<lambda>r left. case r of
        None \<Rightarrow> left = spare \<and> (\<forall>i. position \<le> i \<longrightarrow> i < stop \<longrightarrow> \<not> contains cls (haystack ! i))
      | Some p \<Rightarrow> left = stop - Suc p + spare \<and> position \<le> p \<and> p < stop \<and> contains cls (haystack ! p)
          \<and> (\<forall>i. position \<le> i \<longrightarrow> i < p \<longrightarrow> \<not> contains cls (haystack ! i)))"
    (is "credited _ _ _ (?Q position)")
  using assms(3)
proof (induction "stop - position" arbitrary: position meter)
  case 0
  then show ?case
    by (auto simp: class_loop.simps [of haystack stop position] intro!: credited_return)
next
  case (Suc k)
  have lt: "position < stop" using Suc.hyps(2) by simp
  have fits: "position < length haystack" "Suc position \<le> usize_max" using lt assms by auto
  show ?case
  proof (subst Suc.hyps(2) [symmetric], subst class_loop.simps, subst if_P [OF lt],
      subst add_Suc, rule credited_tick [OF Suc.prems])
    fix meter' assume ok: "meter_ok meter'"
    have k: "k = stop - Suc position" using Suc.hyps(2) by simp
    show "credited meter' (k + spare) (rbind (byte_at haystack position) (\<lambda>byte.
        if contains cls byte then Inr (Some position, meter')
        else rbind (next_position position 1) (\<lambda>position'. class_loop haystack stop position' cls meter')))
        (?Q position)"
    proof (cases "contains cls (haystack ! position)")
      case True
      with fits lt ok k show ?thesis by (auto intro!: credited_return)
    next
      case False
      have "\<not> contains cls (haystack ! i)"
        if "\<forall>i. Suc position \<le> i \<longrightarrow> i < p \<longrightarrow> \<not> contains cls (haystack ! i)" "position \<le> i" "i < p" for i p
        using that False by (cases "i = position") auto
      then have "?Q position r left" if "?Q (Suc position) r left" for r left
        using that by (auto split: option.splits)
      then have "credited meter' (k + spare) (class_loop haystack stop (Suc position) cls meter') (?Q position)"
        by (rule credited_mono [OF Suc.hyps(1) [OF k ok, folded k]])
      with False fits show ?thesis by simp
    qed
  qed
qed

lemma extend_loop_credited:
  assumes "limit \<le> length haystack" "length haystack \<le> usize_max" "meter_ok meter" "stop \<le> limit"
  shows "credited meter (limit - stop + spare) (extend_loop haystack limit cls stop meter)
    (\<lambda>e left. left = limit - Suc e + spare \<and> stop \<le> e \<and> e \<le> limit
        \<and> (\<forall>i. stop \<le> i \<longrightarrow> i < e \<longrightarrow> contains cls (haystack ! i))
        \<and> (e < limit \<longrightarrow> \<not> contains cls (haystack ! e)))"
    (is "credited _ _ _ (?Q stop)")
  using assms(3,4)
proof (induction "limit - stop" arbitrary: stop meter)
  case 0
  then show ?case by (subst extend_loop.simps) (auto intro!: credited_return)
next
  case (Suc k)
  have lt: "stop < limit" using Suc.hyps(2) by simp
  have fits: "stop < length haystack" "stop + 1 \<le> usize_max" using lt assms by auto
  show ?case
  proof (subst Suc.hyps(2) [symmetric], subst extend_loop.simps, subst if_P [OF lt],
      subst add_Suc, rule credited_tick [OF Suc.prems(1)])
    fix meter' assume ok: "meter_ok meter'"
    have k: "k = limit - Suc stop" using Suc.hyps(2) by simp
    have rest: "credited meter' (k + spare) (extend_loop haystack limit cls (Suc stop) meter') (?Q (Suc stop))"
      using Suc.hyps(1) [OF k ok] k lt by simp
    show "credited meter' (k + spare) (rbind (byte_at haystack stop) (\<lambda>byte.
        if \<not> contains cls byte then Inr (stop, meter')
        else rbind (next_position stop 1) (\<lambda>stop'. extend_loop haystack limit cls stop' meter')))
        (?Q stop)"
    proof (cases "contains cls (haystack ! stop)")
      case True
      have "contains cls (haystack ! i)"
        if "\<forall>i. Suc stop \<le> i \<longrightarrow> i < e \<longrightarrow> contains cls (haystack ! i)" "stop \<le> i" "i < e" for e i
        using that True by (cases "i = stop") auto
      then have "?Q stop e left" if "?Q (Suc stop) e left" for e left
        using that Suc_leD by blast
      then have "credited meter' (k + spare) (extend_loop haystack limit cls (Suc stop) meter') (?Q stop)"
        by (rule credited_mono [OF rest])
      with True fits show ?thesis
        by (simp only: byte_at_fits next_position_fits rbind_Inr Suc_eq_plus1 if_False not_True_eq_False)
    next
      case False
      with fits lt ok k show ?thesis by (auto intro!: credited_return)
    qed
  qed
qed

lemma find_class_start_credited:
  assumes "window_valid window (length haystack)" "length haystack \<le> usize_max" "meter_ok meter"
    and "window_start window \<le> cursor" "cursor \<le> window_end window"
  shows "credited meter (window_end window - cursor + spare)
    (find_class_start haystack window cursor cls anchored meter)
    (\<lambda>r left. case r of
        None \<Rightarrow> spare \<le> left
          \<and> (\<forall>i. cursor \<le> i \<longrightarrow> i < window_end window \<longrightarrow> (anchored \<longrightarrow> i = 0) \<longrightarrow> \<not> contains cls (haystack ! i))
      | Some p \<Rightarrow> left = window_end window - Suc p + spare \<and> cursor \<le> p \<and> p < window_end window
          \<and> contains cls (haystack ! p) \<and> (anchored \<longrightarrow> p = 0)
          \<and> (\<forall>i. cursor \<le> i \<longrightarrow> i < p \<longrightarrow> \<not> contains cls (haystack ! i)))"
    (is "credited _ _ _ ?Q")
proof (cases anchored)
  case True
  show ?thesis
  proof (cases "cursor = 0 \<and> window_start window = 0 \<and> window_end window \<noteq> 0")
    case first: True
    then obtain k where k: "window_end window = Suc k" by (cases "window_end window") auto
    have "byte_at haystack 0 = Inr (haystack ! 0)"
      using first assms(1) by (auto simp: window_valid_def byte_at_def)
    with True first assms(3) show ?thesis
      by (auto simp: find_class_start_def k intro!: credited_tick credited_return)
  next
    case False
    with True assms show ?thesis by (auto simp: find_class_start_def intro!: credited_return)
  qed
next
  case False
  have "window_end window \<le> length haystack" using assms(1) by (simp add: window_valid_def)
  from credited_mono [OF class_loop_credited [OF this assms(2,3), of cursor spare cls], of ?Q]
  show ?thesis using False assms(4) by (auto simp: find_class_start_def max_absorb1 split: option.splits)
qed

end
