(* ===== verification/KirRun.thy ===== *)
theory KirRun
  imports KirSearch
begin

text \<open>
  The block machine on a program of one of the two canonical shapes: it never raises
  \<open>InternalInvariant\<close>, never overflows or panics, and computes the leftmost match of its kernel
  within the work that \<^verbatim>\<open>conservative_work_bound\<close> announces.
\<close>

section \<open>Program shapes\<close>

definition block_at :: "raw_program \<Rightarrow> block_id \<Rightarrow> block_op \<Rightarrow> bool" where
  "block_at raw i op = (unat (block_no i) < length (raw_blocks raw)
     \<and> raw_blocks raw ! unat (block_no i) = op)"

definition blob_at :: "raw_program \<Rightarrow> data_id \<Rightarrow> data_blob \<Rightarrow> bool" where
  "blob_at raw i blob = (unat (data_no i) < length (raw_data raw)
     \<and> raw_data raw ! unat (data_no i) = blob)"

definition literal_program ::
  "raw_program \<Rightarrow> bytes \<Rightarrow> anchor_flags \<Rightarrow> data_id \<Rightarrow> block_id \<Rightarrow> block_id \<Rightarrow> block_id \<Rightarrow> bool" where
  "literal_program raw needle anchors d scan found none =
     (block_at raw (raw_entry raw) (Entry scan)
      \<and> block_at raw scan (ScanLiteral d anchors found none)
      \<and> block_at raw found ReturnFound \<and> block_at raw none ReturnNone
      \<and> blob_at raw d (Bytes needle))"

definition class_program ::
  "raw_program \<Rightarrow> byte_class \<Rightarrow> bytes \<Rightarrow> anchor_flags \<Rightarrow> data_id \<Rightarrow> data_id
     \<Rightarrow> block_id \<Rightarrow> block_id \<Rightarrow> block_id \<Rightarrow> block_id \<Rightarrow> block_id \<Rightarrow> block_id \<Rightarrow> bool" where
  "class_program raw cls suffix anchors dc ds scan grow confirm advance found none =
     (block_at raw (raw_entry raw) (Entry scan)
      \<and> block_at raw scan (ScanClassStart dc (anchor_start anchors) grow none)
      \<and> block_at raw grow (ExtendClassRun dc confirm)
      \<and> block_at raw confirm (ConfirmSuffix ds (anchor_end anchors) found advance)
      \<and> block_at raw advance (AdvanceAfterReject scan)
      \<and> block_at raw found ReturnFound \<and> block_at raw none ReturnNone
      \<and> blob_at raw dc (Class cls) \<and> blob_at raw ds (Bytes suffix)
      \<and> suffix \<noteq> [] \<and> \<not> contains cls (hd suffix))"

fun program_shape :: "raw_program \<Rightarrow> kernel_shape \<Rightarrow> bool" where
  "program_shape raw (LiteralShape needle anchors) =
     (\<exists>d scan found none. literal_program raw needle anchors d scan found none)"
| "program_shape raw (ClassSuffixShape cls suffix anchors) =
     (\<exists>dc ds scan grow confirm advance found none.
        class_program raw cls suffix anchors dc ds scan grow confirm advance found none)"

fun shape_bytes :: "kernel_shape \<Rightarrow> bytes" where
  "shape_bytes (LiteralShape needle anchors) = needle"
| "shape_bytes (ClassSuffixShape cls suffix anchors) = suffix"

section \<open>The outcome of a run\<close>

definition machine_outcome :: "machine \<Rightarrow> execute_error + match_span option \<times> work_meter" where
  "machine_outcome mc = rbind (machine_run mc) (\<lambda>(found, mc'). Inr (found, m_meter mc'))"

lemma machine_outcome_step:
  "machine_outcome mc =
     rbind (meter_tick (m_meter mc)) (\<lambda>meter.
     rbind (machine_step (mc\<lparr>m_meter := meter\<rparr>)) (\<lambda>(control, mc').
     case control of Return found \<Rightarrow> Inr (found, m_meter mc') | Continue \<Rightarrow> machine_outcome mc'))"
  unfolding machine_outcome_def
  by (subst machine_run.simps)
     (auto simp: rbind_assoc split: prod.split control.split intro!: rbind_cong)

text \<open>The machine in the middle of a run.\<close>

abbreviation state_at ::
  "validated_program \<Rightarrow> bytes \<Rightarrow> search_window \<Rightarrow> block_id \<Rightarrow> flow \<Rightarrow> work_meter \<Rightarrow> machine" where
  "state_at program haystack window pc st meter \<equiv> \<lparr>m_program = program, m_haystack = haystack,
     m_window = window, m_pc = pc, m_state = st, m_meter = meter\<rparr>"

lemma program_bytes_at:
  "blob_at (vp_raw program) d (Bytes value) \<Longrightarrow> program_bytes program (data_no d) pc = Inr value"
  by (simp add: blob_at_def program_bytes_def)

lemma program_class_at:
  "blob_at (vp_raw program) d (Class cls) \<Longrightarrow> program_class (state_at program haystack window pc st meter) (data_no d) = Inr cls"
  by (simp add: blob_at_def program_class_def)

lemma outcome_entry:
  "block_at (vp_raw program) pc (Entry next) \<Longrightarrow> machine_outcome (state_at program haystack window pc Initial meter) =
     rbind (meter_tick meter) (\<lambda>meter. machine_outcome (state_at program haystack window next (Cursor (window_start window)) meter))"
  by (subst machine_outcome_step) (simp add: machine_step_def block_at_def)

lemma outcome_found:
  "block_at (vp_raw program) pc ReturnFound \<Longrightarrow> machine_outcome (state_at program haystack window pc (Match span) meter) =
     rbind (meter_tick meter) (\<lambda>meter. Inr (Some span, meter))"
  by (subst machine_outcome_step) (simp add: machine_step_def block_at_def)

lemma outcome_none:
  "block_at (vp_raw program) pc ReturnNone \<Longrightarrow> machine_outcome (state_at program haystack window pc Exhausted meter) =
     rbind (meter_tick meter) (\<lambda>meter. Inr (None, meter))"
  by (subst machine_outcome_step) (simp add: machine_step_def block_at_def)

lemma outcome_advance:
  "block_at (vp_raw program) pc (AdvanceAfterReject next) \<Longrightarrow> machine_outcome (state_at program haystack window pc (Rejected resume) meter) =
     rbind (meter_tick meter) (\<lambda>meter. machine_outcome (state_at program haystack window next (Cursor resume) meter))"
  by (subst machine_outcome_step) (simp add: machine_step_def block_at_def)

lemma outcome_literal:
  "block_at (vp_raw program) pc (ScanLiteral d anchors found none) \<Longrightarrow> blob_at (vp_raw program) d (Bytes needle) \<Longrightarrow>
   machine_outcome (state_at program haystack window pc (Cursor cursor) meter) =
     rbind (meter_tick meter) (\<lambda>meter.
     rbind (find_literal haystack window cursor needle anchors meter) (\<lambda>(r, meter).
     machine_outcome (case r of
         Some span \<Rightarrow> state_at program haystack window found (Match span) meter
       | None \<Rightarrow> state_at program haystack window none Exhausted meter)))"
  by (subst machine_outcome_step)
     (auto simp: machine_step_def block_at_def scan_literal_def program_bytes_at rbind_assoc
       split: option.split intro!: rbind_cong)

lemma outcome_scan_class:
  "block_at (vp_raw program) pc (ScanClassStart d anchored grow none) \<Longrightarrow> blob_at (vp_raw program) d (Class cls) \<Longrightarrow>
   machine_outcome (state_at program haystack window pc (Cursor cursor) meter) =
     rbind (meter_tick meter) (\<lambda>meter.
     rbind (find_class_start haystack window cursor cls anchored meter) (\<lambda>(r, meter).
     case r of
         Some start \<Rightarrow> rbind (next_position start 1) (\<lambda>stop.
           machine_outcome (state_at program haystack window grow (Run start stop) meter))
       | None \<Rightarrow> machine_outcome (state_at program haystack window none Exhausted meter)))"
  by (subst machine_outcome_step)
     (auto simp: machine_step_def block_at_def scan_class_def program_class_at rbind_assoc
       split: option.split intro!: rbind_cong)

lemma outcome_extend:
  "block_at (vp_raw program) pc (ExtendClassRun d confirm) \<Longrightarrow> blob_at (vp_raw program) d (Class cls) \<Longrightarrow>
   machine_outcome (state_at program haystack window pc (Run start stop) meter) =
     rbind (meter_tick meter) (\<lambda>meter.
     rbind (extend_loop haystack (window_end window) cls stop meter) (\<lambda>(stop, meter).
     machine_outcome (state_at program haystack window confirm (Run start stop) meter)))"
  by (subst machine_outcome_step)
     (auto simp: machine_step_def block_at_def extend_class_def program_class_at rbind_assoc
       intro!: rbind_cong)

lemma outcome_confirm:
  "block_at (vp_raw program) pc (ConfirmSuffix d anchored found advance) \<Longrightarrow> blob_at (vp_raw program) d (Bytes suffix) \<Longrightarrow>
   machine_outcome (state_at program haystack window pc (Run start stop) meter) =
     rbind (meter_tick meter) (\<lambda>meter.
     rbind (matches_at haystack window stop suffix meter) (\<lambda>(equal, meter).
     if equal then rbind (next_position stop (length suffix)) (\<lambda>match_end.
       if \<not> anchored \<or> match_end = length haystack
       then machine_outcome (state_at program haystack window found (Match (match_span_new start match_end)) meter)
       else machine_outcome (state_at program haystack window advance (Rejected stop) meter))
     else machine_outcome (state_at program haystack window advance (Rejected stop) meter)))"
  by (subst machine_outcome_step)
     (auto simp: machine_step_def block_at_def confirm_suffix_def program_bytes_at rbind_assoc Let_def
       intro!: rbind_cong)

lemma literal_run:
  assumes shape: "literal_program (vp_raw program) needle anchors d scan found none" and "meter_ok meter"
    and window: "window_valid window (length haystack)" and haystack_fits: "length haystack \<le> usize_max"
  shows "metered meter (3 + (window_end window - window_start window + 1) * Suc (length needle))
    (machine_outcome (state_at program haystack window (raw_entry (vp_raw program)) Initial meter))
    (kernel_found (LiteralShape needle anchors) haystack window)"
proof -
  let ?w = "(window_end window - window_start window + 1) * Suc (length needle)"
  note shape' = shape [unfolded literal_program_def]
  have "metered meter (Suc (Suc (?w + 1))) (machine_outcome (state_at program haystack window (raw_entry (vp_raw program)) Initial meter))
      (kernel_found (LiteralShape needle anchors) haystack window)"
    unfolding outcome_entry [OF shape' [THEN conjunct1]]
  proof (rule metered_tick [OF assms(2)], subst outcome_literal, (use shape' in blast)+,
      rule metered_tick, assumption, rule metered_bind,
      rule find_literal_metered [OF _ window haystack_fits], assumption)
    fix r meter4
    assume "kernel_found (LiteralShape needle anchors) haystack window r" "meter_ok meter4"
    then show "metered meter4 1 (case (r, meter4) of (r, meter) \<Rightarrow>
        machine_outcome (case r of Some span \<Rightarrow> state_at program haystack window found (Match span) meter
          | None \<Rightarrow> state_at program haystack window none Exhausted meter))
        (kernel_found (LiteralShape needle anchors) haystack window)"
      using shape' by (auto simp: outcome_found outcome_none split: option.split
          intro!: metered_tick [where cost = 0, simplified] metered_return)
  qed
  then show ?thesis by (simp add: numeral_eq_Suc)
qed

text \<open>The class kernel: what a turn of its scan knows about the matches it has passed.\<close>

lemma class_match_start:
  assumes "kernel_match (ClassSuffixShape cls suffix anchors) haystack window s t"
    and window: "window_valid window (length haystack)"
  shows "contains cls (haystack ! s) \<and> s < window_end window \<and> (anchor_start anchors \<longrightarrow> s = 0)"
proof -
  from assms(1) obtain m where "Suc s \<le> m" "m \<le> t" "t \<le> window_end window"
    "list_all (contains cls) (slice haystack s m)" "anchor_start anchors \<longrightarrow> s = 0"
    by (auto simp: kernel_match.simps within_def anchors_hold_def)
  with window show ?thesis by (auto simp: window_valid_def list_all_slice_iff)
qed

lemma class_match_run:
  assumes "suffix \<noteq> []" "\<not> contains cls (hd suffix)"
    and "start < stop" "stop \<le> window_end window" "window_start window \<le> start"
    and run: "\<And>i. start \<le> i \<Longrightarrow> i < stop \<Longrightarrow> contains cls (haystack ! i)"
    and maximal: "stop < window_end window \<Longrightarrow> \<not> contains cls (haystack ! stop)"
    and s: "start \<le> s" "s < stop"
    and window: "window_valid window (length haystack)"
  shows "kernel_match (ClassSuffixShape cls suffix anchors) haystack window s t \<longleftrightarrow>
    t = stop + length suffix \<and> t \<le> window_end window \<and> slice haystack stop t = suffix
    \<and> anchors_hold anchors haystack s t"
proof
  assume km: "kernel_match (ClassSuffixShape cls suffix anchors) haystack window s t"
  then obtain m where m: "Suc s \<le> m" "m \<le> t" "t \<le> window_end window"
    "list_all (contains cls) (slice haystack s m)" "slice haystack m t = suffix"
    and anchors: "anchors_hold anchors haystack s t"
    by (auto simp: kernel_match.simps within_def)
  have t: "t \<le> length haystack" using m window by (simp add: window_valid_def)
  then have len: "length suffix = t - m" using m(5) length_slice [of t haystack m] by simp
  have pos: "0 < length suffix" using assms(1) by simp
  have "\<forall>i<length suffix. haystack ! (m + i) = suffix ! i" using m(5) t by (simp add: slice_eq_iff)
  with pos have "haystack ! m = suffix ! 0" by force
  with pos len assms(1,2) have first: "m < t" "\<not> contains cls (haystack ! m)"
    by (simp_all add: hd_conv_nth)
  have "\<not> m < stop" using first(2) run [of m] s m(1) by auto
  moreover have "\<not> stop < m"
    using m t maximal s by (auto simp: list_all_slice_iff)
  ultimately have "m = stop" by simp
  with m len first anchors show "t = stop + length suffix \<and> t \<le> window_end window
      \<and> slice haystack stop t = suffix \<and> anchors_hold anchors haystack s t" by auto
next
  assume *: "t = stop + length suffix \<and> t \<le> window_end window \<and> slice haystack stop t = suffix
    \<and> anchors_hold anchors haystack s t"
  have "stop \<le> length haystack" using assms(4) window by (simp add: window_valid_def)
  with * s run have "list_all (contains cls) (slice haystack s stop)"
    by (auto simp: list_all_slice_iff)
  with * s assms(5) show "kernel_match (ClassSuffixShape cls suffix anchors) haystack window s t"
    by (auto simp: kernel_match.simps within_def intro!: bexI [of _ stop])
qed

lemma scan_budget:
  fixes e cursor E n :: nat
  assumes "cursor < e" "e \<le> E"
  defines "left \<equiv> E - Suc e + (E - cursor) * (n + 7)"
  shows "left = Suc (n + Suc (left - n - 2))" "(E - e) * (n + 8) + 2 \<le> left - n - 2"
proof -
  define x y where "x = E - e" and "y = e - Suc cursor"
  have xy: "E - cursor = Suc (x + y)" "E - Suc e = x - 1" "E - e = x"
    using assms(1,2) by (auto simp: x_def y_def)
  have "x - 1 + Suc (x + y) * (n + 7) \<ge> x * (n + 8) + n + 4"
    by (cases x) (auto simp: algebra_simps)
  then show "left = Suc (n + Suc (left - n - 2))" "(E - e) * (n + 8) + 2 \<le> left - n - 2"
    unfolding left_def xy by linarith+
qed

lemma class_run:
  assumes shape: "class_program (vp_raw program) cls suffix anchors dc ds scan grow confirm advance found none"
    and "meter_ok meter" "window_start window \<le> cursor" "cursor \<le> window_end window"
    and window: "window_valid window (length haystack)" and haystack_fits: "length haystack \<le> usize_max"
  shows "credited meter ((window_end window - cursor) * (length suffix + 8) + 2)
    (machine_outcome (state_at program haystack window scan (Cursor cursor) meter))
    (\<lambda>r left. first_from (kernel_match (ClassSuffixShape cls suffix anchors) haystack window) cursor r)"
  using assms(2-4)
proof (induction "window_end window - cursor" arbitrary: cursor meter rule: less_induct)
  case less
  let ?km = "kernel_match (ClassSuffixShape cls suffix anchors) haystack window"
  let ?E = "window_end window" and ?n = "length suffix"
  let ?goal = "\<lambda>r (left :: nat). first_from ?km cursor r"
  let ?B = "(?E - cursor) * (?n + 7) + 1"
  note shape' = shape [unfolded class_program_def]
  have E: "?E \<le> length haystack" using window by (simp add: window_valid_def)
  have disjoint: "suffix \<noteq> []" "\<not> contains cls (hd suffix)" using shape' by auto
  have budget: "(?E - cursor) * (?n + 8) + 2 = Suc (?E - cursor + ?B)" by (simp add: algebra_simps)
  show ?case unfolding budget
  proof (subst outcome_scan_class, (use shape' in blast)+, rule credited_tick [OF less.prems(1)],
      rule credited_bind [OF find_class_start_credited [OF window haystack_fits _ less.prems(2,3)]], assumption)
    fix r left meter1
    assume ok1: "meter_ok meter1" and r: "case r of
        None \<Rightarrow> ?B \<le> left \<and> (\<forall>i. cursor \<le> i \<longrightarrow> i < ?E \<longrightarrow> (anchor_start anchors \<longrightarrow> i = 0)
          \<longrightarrow> \<not> contains cls (haystack ! i))
      | Some p \<Rightarrow> left = ?E - Suc p + ?B \<and> cursor \<le> p \<and> p < ?E \<and> contains cls (haystack ! p)
          \<and> (anchor_start anchors \<longrightarrow> p = 0) \<and> (\<forall>i. cursor \<le> i \<longrightarrow> i < p \<longrightarrow> \<not> contains cls (haystack ! i))"
    show "credited meter1 left (case (r, meter1) of (r, meter) \<Rightarrow> (case r of
         Some start \<Rightarrow> rbind (next_position start 1) (\<lambda>stop.
           machine_outcome (state_at program haystack window grow (Run start stop) meter))
       | None \<Rightarrow> machine_outcome (state_at program haystack window none Exhausted meter))) ?goal"
    proof (cases r)
      case None
      then have "?goal None left" using r class_match_start [OF _ window] by fastforce
      moreover obtain left' where "left = Suc left'" using r None by (cases left) auto
      ultimately show ?thesis
        using shape' ok1 None by (auto simp: outcome_none intro!: credited_tick credited_return)
    next
      case (Some p)
      have p: "left = Suc (?E - Suc p + (?B - 1))" "cursor \<le> p" "p < ?E" "contains cls (haystack ! p)"
        "anchor_start anchors \<longrightarrow> p = 0" "\<And>i. cursor \<le> i \<Longrightarrow> i < p \<Longrightarrow> \<not> contains cls (haystack ! i)"
        using r Some by auto
      have fits: "p + 1 \<le> usize_max" using p(3) E haystack_fits by simp
      have "credited meter1 left (machine_outcome (state_at program haystack window grow (Run p (p + 1)) meter1)) ?goal"
        unfolding p(1)
      proof (subst outcome_extend, (use shape' in blast)+, rule credited_tick [OF ok1], subst Suc_eq_plus1,
          rule credited_bind [OF extend_loop_credited [OF E haystack_fits]], assumption, use p(3) in simp)
        fix e left2 meter2
        assume ok2: "meter_ok meter2" and e: "left2 = ?E - Suc e + (?B - 1) \<and> p + 1 \<le> e \<and> e \<le> ?E
          \<and> (\<forall>i. p + 1 \<le> i \<longrightarrow> i < e \<longrightarrow> contains cls (haystack ! i))
          \<and> (e < ?E \<longrightarrow> \<not> contains cls (haystack ! e))"
        have run: "contains cls (haystack ! i)" if "p \<le> i" "i < e" for i
          using that e p(4) by (cases "i = p") auto
        have km: "?km s t \<longleftrightarrow> t = e + ?n \<and> t \<le> ?E \<and> slice haystack e t = suffix
            \<and> anchors_hold anchors haystack s t" if "p \<le> s" "s < e" for s t
          by (rule class_match_run [OF disjoint _ _ _ run]) (use e p less.prems that window in auto)
        have before: "\<not> ?km s t" if "cursor \<le> s" "s < p" for s t
          using class_match_start [OF _ window, of cls suffix anchors s t] p(6) that by blast
        have rest: "left2 = Suc (?n + Suc (left2 - ?n - 2))" "(?E - e) * (?n + 8) + 2 \<le> left2 - ?n - 2"
        proof -
          have "cursor < e" "e \<le> ?E" and left2: "left2 = ?E - Suc e + (?E - cursor) * (?n + 7)"
            using e p(2) by auto
          from scan_budget [OF this(1,2), of ?n]
          show "left2 = Suc (?n + Suc (left2 - ?n - 2))" "(?E - e) * (?n + 8) + 2 \<le> left2 - ?n - 2"
            unfolding left2 .
        qed
        show "credited meter2 left2 (case (e, meter2) of (stop, meter) \<Rightarrow>
            machine_outcome (state_at program haystack window confirm (Run p stop) meter)) ?goal"
          unfolding prod.case
        proof (subst outcome_confirm, (use shape' in blast)+, subst rest(1), rule credited_tick [OF ok2],
            rule credited_bind [OF metered_credited [OF matches_at_metered [OF _ window haystack_fits]]],
            assumption)
          fix equal left3 meter3
          assume ok3: "meter_ok meter3" and eq: "(equal \<longleftrightarrow> within window e (e + ?n)
            \<and> slice haystack e (e + ?n) = suffix) \<and> left3 = Suc (left2 - ?n - 2)"
          have found: "?goal (Some (match_span_new p (e + ?n))) k" if "equal"
            "\<not> anchor_end anchors \<or> e + ?n = length haystack" for k
            using eq that km [of p "e + ?n"] before p e by (auto simp: within_def anchors_hold_def)
          have reject: "credited meter3 left3 (machine_outcome (state_at program haystack window advance (Rejected e) meter3)) ?goal"
            if none: "\<not> (equal \<and> (\<not> anchor_end anchors \<or> e + ?n = length haystack))"
          proof (subst outcome_advance, use shape' in blast, subst eq [THEN conjunct2],
              rule credited_tick [OF ok3], rule credited_mono)
            fix meter4 assume "meter_ok meter4"
            then show "credited meter4 (left2 - ?n - 2) (machine_outcome (state_at program haystack window scan (Cursor e) meter4))
                (\<lambda>r left. first_from ?km e r)"
              by (intro credited_budget [OF less.hyps rest(2)]) (use e p less.prems in auto)
          next
            fix r k assume later: "first_from ?km e r"
            have passed: "\<not> ?km s t" if "cursor \<le> s" "s < e" for s t
            proof (cases "s < p")
              case True
              then show ?thesis using before that(1) by blast
            next
              case False
              have "window_start window \<le> e" using less.prems(2) p(2) e by linarith
              then have "?km s t \<Longrightarrow> equal \<and> (\<not> anchor_end anchors \<or> e + ?n = length haystack)"
                using km [of s t] that False eq by (clarsimp simp: within_def anchors_hold_def)
              with none show ?thesis by blast
            qed
            have "cursor \<le> e" using e p(2) by linarith
            then show "?goal r k" by (rule first_from_skip [OF later _ passed])
          qed
          have fits: "equal \<Longrightarrow> e + ?n \<le> usize_max" using eq E haystack_fits by (auto simp: within_def)
          show "credited meter3 left3 (case (equal, meter3) of (equal, meter) \<Rightarrow>
              if equal then rbind (next_position e ?n) (\<lambda>match_end.
                if \<not> anchor_end anchors \<or> match_end = length haystack
                then machine_outcome (state_at program haystack window found (Match (match_span_new p match_end)) meter)
                else machine_outcome (state_at program haystack window advance (Rejected e) meter))
              else machine_outcome (state_at program haystack window advance (Rejected e) meter)) ?goal"
            using fits reject found eq ok3 shape'
            by (auto simp: outcome_found simp del: first_from_Some intro!: credited_tick credited_return)
        qed
      qed
      with Some fits show ?thesis by simp
    qed
  qed
qed

text \<open>Both shapes stay within the announced bound.\<close>

lemma kernel_run:
  assumes "program_shape (vp_raw program) shape" "meter_ok meter"
    and window: "window_valid window (length haystack)" and haystack_fits: "length haystack \<le> usize_max"
  shows "metered meter ((window_end window - window_start window + 1) * (length (shape_bytes shape) + 8) + 8)
    (machine_outcome (state_at program haystack window (raw_entry (vp_raw program)) Initial meter)) (kernel_found shape haystack window)"
proof (cases shape)
  case (LiteralShape needle anchors)
  with assms obtain d scan found none where "literal_program (vp_raw program) needle anchors d scan found none"
    by auto
  from literal_run [OF this assms(2-4)] show ?thesis
    unfolding LiteralShape by (rule metered_cost) (simp add: algebra_simps)
next
  case (ClassSuffixShape cls suffix anchors)
  with assms obtain dc ds scan grow confirm advance found none where
    program: "class_program (vp_raw program) cls suffix anchors dc ds scan grow confirm advance found none" by auto
  let ?b = "(window_end window - window_start window) * (length suffix + 8) + 2"
  have start: "window_start window \<le> window_end window" using window by (simp add: window_valid_def)
  have "credited meter (Suc ?b) (machine_outcome (state_at program haystack window (raw_entry (vp_raw program)) Initial meter))
      (\<lambda>r left. kernel_found shape haystack window r)"
    unfolding kernel_found_def ClassSuffixShape
  proof (subst outcome_entry [of _ _ scan])
    show "block_at (vp_raw program) (raw_entry (vp_raw program)) (Entry scan)" using program by (simp add: class_program_def)
  qed (rule credited_tick [OF assms(2) class_run [OF program _ order_refl start window haystack_fits]])
  from credited_metered [OF this] show ?thesis
    unfolding ClassSuffixShape by (rule metered_cost) (simp add: algebra_simps)
qed

text \<open>What \<^verbatim>\<open>execute\<close> returns for a program of a canonical shape.\<close>

lemma execute_outcome:
  assumes "program_shape (vp_raw program) shape" "length haystack \<le> usize_max"
    and "window_valid window (length haystack)" "exec_max_work limits \<le> usize_max"
  defines "bound \<equiv> (window_end window - window_start window + 1) * (length (shape_bytes shape) + 8) + 8"
  shows "case execute kind program haystack window limits of
      Inl e \<Rightarrow> e = WorkLimitExceeded (exec_max_work limits) (exec_max_work limits)
        \<and> exec_max_work limits < bound
    | Inr report \<Rightarrow> report_work report \<le> bound \<and> report_work report \<le> exec_max_work limits
        \<and> (\<exists>found. report_output report = project kind found \<and> kernel_found shape haystack window found)"
proof -
  let ?meter = "meter_new (exec_max_work limits)"
  let ?mc = "\<lparr>m_program = program, m_haystack = haystack, m_window = window,
      m_pc = raw_entry (vp_raw program), m_state = Initial, m_meter = ?meter\<rparr>"
  have "metered ?meter bound (machine_outcome ?mc) (kernel_found shape haystack window)"
    unfolding bound_def by (rule kernel_run [OF assms(1) meter_new_ok [OF assms(4)] assms(3,2)])
  then show ?thesis
    using assms(3) unfolding execute_def machine_outcome_def
    by (cases "machine_run ?mc") (auto simp: metered_def meter_new_def meter_ok_def)
qed

end
