(* ===== verification/KirPhases.thy ===== *)
theory KirPhases
  imports KirBudget KirRun
begin

text \<open>
  The remaining phases of the validator (\<^verbatim>\<open>validate.rs\<close>), each with its share of the work bound and
  with what it accepts: reachability, data entries, and topology with dominance. Together: an
  admitted validator accepts exactly the programs of the two canonical shapes.
\<close>

section \<open>Reachability\<close>

lemma flow_ok_targets: "flow_ok raw \<Longrightarrow> targets_ok raw"
proof -
  have "\<exists>st. (s, st) \<in> set (zip (successors op) (outgoing_states op))" if "s \<in> set (successors op)" for op s
    using that by (cases op) auto
  then show "flow_ok raw \<Longrightarrow> targets_ok raw"
    by (fastforce simp: flow_ok_def targets_ok_def block_ok_def edge_ok_def)
qed

lemma reach_check_phase:
  assumes "within_work raw B (1 + k) v \<and> vd_data_use v = uses" "fst x < hard_max_blocks"
  shows "phase (snd x) (reach_check x v)
    (\<lambda>v'. (within_work raw B k v' \<and> vd_data_use v' = uses) \<and> ({} :: nat set) = {} \<union> {})"
  using assms charge_within [of raw B "1 + k" v 1]
  by (auto simp: reach_check_def phase_def index_id_small split: prod.split)

lemma set_numbered: "set (numbered xs) = (\<lambda>i. (i, xs ! i)) ` {..<length xs}"
  by (auto simp: numbered_def set_zip image_iff intro: exI [where x = "_ :: nat"]) (metis nth_upt add_0)

lemma take_marked:
  "n \<le> length seen \<Longrightarrow> (\<forall>x\<in>set (numbered (take n seen)). snd x) \<longleftrightarrow> {..<n} \<subseteq> marked seen"
  by (auto simp: set_numbered marked_def)

lemma entry_traversal:
  assumes "start < n" "n \<le> hard_max_blocks"
  defines "seen \<equiv> (replicate hard_max_blocks False)[start := True]"
  shows "traversal n n seen [start]" "marked seen = {start}" "unmarked n seen + 1 = n"
proof -
  show m: "marked seen = {start}" using assms by (simp add: marked_update)
  have "{..<n} - marked (replicate hard_max_blocks False) = {..<n}" by simp
  then show u: "unmarked n seen + 1 = n"
    using unmarked_update [of start n "replicate hard_max_blocks False"] assms
    by (simp add: unmarked_def)
  show "traversal n n seen [start]" using m u assms by (simp add: traversal_def)
qed

lemma reachability_phase:
  assumes work: "within_work raw B (length (raw_blocks raw) * 2 + k) v" and "flow_ok raw"
    and "vd_reachable v = replicate hard_max_blocks False" "length (raw_blocks raw) \<le> hard_max_blocks"
  shows "phase (all_reachable raw) (vd_reachability v)
    (\<lambda>v'. within_work raw B k v' \<and> vd_data_use v' = vd_data_use v)"
proof -
  let ?n = "length (raw_blocks raw)" and ?s = "block_index (raw_entry raw)"
  let ?seen = "(replicate hard_max_blocks False)[?s := True]"
  have raw: "vd_raw v = raw" and meter: "meter_within B (?n * 2 + k) (vd_meter v)"
    and uses: "length (vd_data_use v) = hard_max_blocks"
    using work by (auto simp: within_work_def)
  have s: "?s < ?n" "?s < hard_max_blocks" using assms(2,4) by (auto simp: flow_ok_def)
  note start = entry_traversal [OF s(1) assms(4)]
  have "safe (\<lambda>_. False) (reach_loop raw [?s] ?seen (vd_meter v)) (\<lambda>(reachable', meter').
      length reachable' = hard_max_blocks \<and> meter_within B (?n + k) meter' \<and> vm_limit meter' = vm_limit (vd_meter v)
      \<and> marked ?seen \<subseteq> marked reachable' \<and> closed_except raw (\<lambda>_. True) {} (marked reachable')
      \<and> (\<forall>S. marked ?seen \<subseteq> S \<longrightarrow> closed_except raw (\<lambda>_. True) {} S \<longrightarrow> marked reachable' \<subseteq> S))"
  proof (rule reach_loop_safe [OF flow_ok_targets [OF assms(2)] start(1)])
    show "meter_within B (unmarked ?n ?seen + length [?s] + (?n + k)) (vd_meter v)"
      using meter start(3) by (simp add: meter_within_def)
    show "closed_except raw (\<lambda>_. True) (set [?s]) (marked ?seen)"
      by (simp add: start(2) closed_except_def)
  qed
  then obtain reachable meter' where run: "reach_loop raw [?s] ?seen (vd_meter v) = Inr (reachable, meter')"
    and r: "length reachable = hard_max_blocks" "meter_within B (?n + k) meter'"
      "?s \<in> marked reachable" "closed_except raw (\<lambda>_. True) {} (marked reachable)"
      "\<And>S. ?s \<in> S \<Longrightarrow> closed_except raw (\<lambda>_. True) {} S \<Longrightarrow> marked reachable \<subseteq> S"
    by (cases "reach_loop raw [?s] ?seen (vd_meter v)") (auto simp: start(2))
  let ?v = "v\<lparr>vd_reachable := reachable, vd_meter := meter'\<rparr>"
  let ?marks = "numbered (take ?n reachable)"
  have "phase (\<forall>x\<in>set ?marks. snd x) (rfold reach_check ?marks ?v) (\<lambda>v'.
      (within_work raw B k v' \<and> vd_data_use v' = vd_data_use v) \<and> ({} :: nat set) = {} \<union> (\<Union>x\<in>set ?marks. {}))"
  proof (rule phase_rfold [where c = "\<lambda>_. 1" and U = "\<lambda>_. {}"], rule reach_check_phase)
    show "within_work raw B (sum_list (map (\<lambda>_. 1) ?marks) + k) ?v \<and> vd_data_use ?v = vd_data_use v"
      using r raw uses assms(4) by (simp add: within_work_def sum_list_triv)
  next
    fix x assume "x \<in> set ?marks"
    then show "fst x < hard_max_blocks" using numbered_bounds [of x] assms(4) by fastforce
  qed
  moreover have "(\<forall>x\<in>set ?marks. snd x) \<longleftrightarrow> all_reachable raw"
    using take_marked [of ?n reachable] r assms(4) by (auto simp: all_reachable_def)
  ultimately show ?thesis using run raw s(2) assms(3)
    by (simp add: vd_reachability_def Let_def)
qed

section \<open>Data entries\<close>

definition blob_ok :: "raw_program \<Rightarrow> nat set \<Rightarrow> nat \<times> data_blob \<Rightarrow> bool" where
  "blob_ok raw uses entry = (fst entry \<in> uses \<and> snd entry \<notin> set (take (fst entry) (raw_data raw))
     \<and> (\<forall>cls. snd entry = Class cls \<longrightarrow> \<not> class_is_empty cls))"

lemma take_numbered: "i \<le> length xs \<Longrightarrow> map snd (take i (numbered xs)) = take i xs"
  by (simp add: numbered_def take_zip)

lemma duplicates_phase:
  assumes "within_work raw B (sum_list (map (\<lambda>prior. blob_touches blob prior + 2) (map snd ps)) + k) v"
    and "vd_data_use v = uses" "i < hard_max_blocks" "\<forall>p\<in>set ps. fst p < hard_max_blocks"
  shows "phase (\<forall>p\<in>set ps. blob \<noteq> snd p) (rfold (duplicate_step i blob) ps v)
    (\<lambda>v'. (within_work raw B k v' \<and> vd_data_use v' = uses) \<and> ({} :: nat set) = {} \<union> (\<Union>p\<in>set ps. {}))"
proof (rule phase_rfold [where c = "\<lambda>p. blob_touches blob (snd p) + 2" and U = "\<lambda>_. {}"])
  show "within_work raw B (sum_list (map (\<lambda>p. blob_touches blob (snd p) + 2) ps) + k) v \<and> vd_data_use v = uses"
    using assms(1,2) by (simp add: comp_def)
next
  fix p s j
  assume p: "p \<in> set ps" and work: "within_work raw B (blob_touches blob (snd p) + 2 + j) s \<and> vd_data_use s = uses"
  let ?c = "blob_touches blob (snd p) + 2"
  have fits: "?c \<le> usize_max" using work by (auto simp: within_work_def meter_within_def)
  note c = charge_within [OF conjunct1 [OF work], of ?c, simplified]
  have "fst p < hard_max_blocks" using assms(4) p by blast
  then show "phase (blob \<noteq> snd p) (duplicate_step i blob p s)
      (\<lambda>v'. (within_work raw B j v' \<and> vd_data_use v' = uses) \<and> ({} :: nat set) = {} \<union> {})"
    using fits c work assms(3)
    by (cases p) (auto simp: duplicate_step_def phase_def index_id_small blob_compare_work_def)
qed

lemma blob_phase:
  assumes work: "within_work raw B (1 + blob_scan (raw_data raw) x + k) v \<and> vd_data_use v = uses"
    and x: "x \<in> set (numbered (raw_data raw))" and "length (raw_data raw) \<le> hard_max_blocks"
    and "length uses = hard_max_blocks"
  shows "phase (blob_ok raw {i. i < length uses \<and> uses ! i \<noteq> 0} x) (blob_step x v)
    (\<lambda>v'. (within_work raw B k v' \<and> vd_data_use v' = uses) \<and> ({} :: nat set) = {} \<union> {})"
proof -
  obtain i blob where pair: "x = (i, blob)" by (cases x)
  have i: "i < length (raw_data raw)" "i < hard_max_blocks" "i < length uses"
    using numbered_bounds [OF x] pair assms(3,4) by auto
  let ?d = "sum_list (map (\<lambda>prior. blob_touches blob prior + 2) (take i (raw_data raw)))"
  let ?c = "if is_bytes blob then 0 else 4 :: nat"
  let ?priors = "take i (numbered (raw_data raw))"
  have scan: "1 + blob_scan (raw_data raw) x + k = Suc (?c + (?d + k))"
    by (simp add: blob_scan_def pair)
  note c1 = charge_within [OF conjunct1 [OF work, unfolded scan], of 1, simplified]
  have raw: "vd_raw v = raw" using work by (simp add: within_work_def)
  have cls: "phase (\<forall>cls. blob = Class cls \<longrightarrow> \<not> class_is_empty cls) (class_step i blob (spend 1 v))
      (\<lambda>v'. within_work raw B (?d + k) v' \<and> vd_data_use v' = uses)"
  proof (cases blob)
    case (Bytes bs)
    with c1 work show ?thesis by (simp add: class_step_def phase_def)
  next
    case (Class c)
    with c1 charge_within [of raw B "4 + (?d + k)" "spend 1 v" 4] work i show ?thesis
      by (auto simp: class_step_def phase_def index_id_small)
  qed
  have "phase ((\<forall>cls. blob = Class cls \<longrightarrow> \<not> class_is_empty cls) \<and> (\<forall>p\<in>set ?priors. blob \<noteq> snd p))
      (rbind (class_step i blob (spend 1 v)) (rfold (duplicate_step i blob) ?priors))
      (\<lambda>v'. within_work raw B k v' \<and> vd_data_use v' = uses)"
  proof (rule phase_bind [OF cls])
    fix v' assume "within_work raw B (?d + k) v' \<and> vd_data_use v' = uses"
    then show "phase (\<forall>p\<in>set ?priors. blob \<noteq> snd p) (rfold (duplicate_step i blob) ?priors v')
        (\<lambda>v'. within_work raw B k v' \<and> vd_data_use v' = uses)"
      by (intro phase_mono [OF duplicates_phase [of raw B blob ?priors k v' uses i]])
         (use i assms(3) in \<open>auto simp: take_numbered dest!: in_set_takeD numbered_bounds\<close>)
  qed
  moreover have "(\<forall>p\<in>set ?priors. blob \<noteq> snd p) \<longleftrightarrow> blob \<notin> set (take i (raw_data raw))"
    using take_numbered [of i "raw_data raw"] i by (metis image_iff list.set_map less_imp_le)
  ultimately show ?thesis
    using c1(1) raw work i pair
    by (auto simp: blob_step_def blob_ok_def phase_def index_id_small)
qed

lemma distinct_prefixes: "distinct xs \<longleftrightarrow> (\<forall>i<length xs. xs ! i \<notin> set (take i xs))"
proof (induction xs rule: rev_induct)
  case (snoc x xs)
  have "(\<forall>i<length (xs @ [x]). (xs @ [x]) ! i \<notin> set (take i (xs @ [x]))) \<longleftrightarrow>
      (\<forall>i<length xs. xs ! i \<notin> set (take i xs)) \<and> x \<notin> set xs"
    by (auto simp: nth_append less_Suc_eq)
  with snoc show ?case by auto
qed simp

lemma sum_list_Suc: "sum_list (map (\<lambda>x. Suc (f x)) xs) = length xs + sum_list (map f xs)"
  by (induction xs) auto

lemma data_phase:
  assumes "within_work raw B (length (raw_data raw) + data_scan_work (raw_data raw) + k) v"
    and "used v = used_data raw" "length (raw_data raw) \<le> hard_max_blocks"
  shows "phase (data_ok raw) (vd_data v) (within_work raw B k)"
proof -
  let ?xs = "numbered (raw_data raw)" and ?uses = "vd_data_use v"
  have raw: "vd_raw v = raw" and lens: "length ?uses = hard_max_blocks"
    using assms(1) by (auto simp: within_work_def)
  have main: "phase (\<forall>x\<in>set ?xs. blob_ok raw {i. i < length ?uses \<and> ?uses ! i \<noteq> 0} x) (rfold blob_step ?xs v)
      (\<lambda>v'. (within_work raw B k v' \<and> vd_data_use v' = ?uses) \<and> ({} :: nat set) = {} \<union> (\<Union>x\<in>set ?xs. {}))"
  proof (rule phase_rfold [where c = "\<lambda>x. 1 + blob_scan (raw_data raw) x" and U = "\<lambda>_. {}"],
      rule blob_phase [OF _ _ assms(3) lens])
    have "sum_list (map (\<lambda>x. 1 + blob_scan (raw_data raw) x) ?xs) = length (raw_data raw) + data_scan_work (raw_data raw)"
      by (simp add: sum_list_Suc data_scan_work_def numbered_def)
    then show "within_work raw B (sum_list (map (\<lambda>x. 1 + blob_scan (raw_data raw) x) ?xs) + k) v \<and> ?uses = ?uses"
      using assms(1) by simp
  qed
  have eq: "(\<forall>x\<in>set ?xs. blob_ok raw {i. i < length ?uses \<and> ?uses ! i \<noteq> 0} x) \<longleftrightarrow> data_ok raw"
  proof -
    have "(\<forall>x\<in>set ?xs. blob_ok raw {i. i < length ?uses \<and> ?uses ! i \<noteq> 0} x) \<longleftrightarrow>
        (\<forall>i<length (raw_data raw). blob_ok raw (used_data raw) (i, raw_data raw ! i))"
      using assms(2) by (auto simp: used_def set_numbered)
    also have "\<dots> \<longleftrightarrow> data_ok raw"
      by (auto simp: blob_ok_def data_ok_def distinct_prefixes [of "raw_data raw"] in_set_conv_nth subset_iff)
    finally show ?thesis .
  qed
  show ?thesis unfolding vd_data_def raw by (rule phase_mono [OF main [unfolded eq]]) simp
qed

section \<open>Slots\<close>

fun op_kind :: "block_op \<Rightarrow> nat" where
  "op_kind (Entry _) = 0"
| "op_kind (ScanLiteral _ _ _ _) = 1"
| "op_kind (ScanClassStart _ _ _ _) = 2"
| "op_kind (ExtendClassRun _ _) = 3"
| "op_kind (ConfirmSuffix _ _ _ _) = 4"
| "op_kind (AdvanceAfterReject _) = 5"
| "op_kind ReturnFound = 6"
| "op_kind ReturnNone = 7"

definition slot_at :: "block_slots \<Rightarrow> nat \<Rightarrow> block_id option" where
  "slot_at slots k =
     (if k = 0 then slot_entry slots else if k = 1 then slot_literal slots
      else if k = 2 then slot_scan_class slots else if k = 3 then slot_extend slots
      else if k = 4 then slot_confirm slots else if k = 5 then slot_advance slots
      else if k = 6 then slot_found slots else if k = 7 then slot_none slots else None)"

lemma slot_of_at: "slot_of op slots = slot_at slots (op_kind op)"
  by (cases op) (simp_all add: slot_at_def)

lemma slot_at_fill: "slot_at (slot_fill op i slots) k = (if k = op_kind op then Some i else slot_at slots k)"
  by (cases op) (simp_all add: slot_at_def)

lemma slot_at_empty [simp]: "slot_at slots_empty k = None"
  by (simp add: slot_at_def slots_empty_def)

text \<open>The slots after the first \<open>m\<close> blocks.\<close>

definition slots_exact :: "raw_program \<Rightarrow> nat \<Rightarrow> block_slots \<Rightarrow> bool" where
  "slots_exact raw m slots = (\<forall>k i. slot_at slots k = Some i \<longleftrightarrow>
     (\<exists>j<m. i = BlockId (word_of_nat j) \<and> op_kind (raw_blocks raw ! j) = k))"

definition kinds :: "raw_program \<Rightarrow> nat list" where
  "kinds raw = map op_kind (raw_blocks raw)"

lemma slot_free:
  "slots_exact raw m slots \<Longrightarrow> m \<le> length (raw_blocks raw) \<Longrightarrow> slot_at slots k = None \<longleftrightarrow> k \<notin> set (take m (kinds raw))"
proof -
  assume exact: "slots_exact raw m slots" and m: "m \<le> length (raw_blocks raw)"
  have "slot_at slots k = None \<longleftrightarrow> \<not> (\<exists>i. slot_at slots k = Some i)" by simp
  also have "\<dots> \<longleftrightarrow> \<not> (\<exists>j<m. op_kind (raw_blocks raw ! j) = k)"
    using exact unfolding slots_exact_def by blast
  also have "\<dots> \<longleftrightarrow> k \<notin> set (take m (kinds raw))"
    using m by (auto simp: kinds_def in_set_conv_nth)
  finally show ?thesis .
qed

lemma slots_phase:
  assumes "length (raw_blocks raw) \<le> hard_max_blocks"
    and "m \<le> length (raw_blocks raw)" "within_work raw B (length (raw_blocks raw) - m + k) v"
    and "slots_exact raw m slots" "distinct (take m (kinds raw))"
  shows "phase (distinct (kinds raw)) (rfold slot_step (drop m (numbered (raw_blocks raw))) (v, slots))
    (\<lambda>(v', slots'). within_work raw B k v' \<and> vd_data_use v' = vd_data_use v
       \<and> slots_exact raw (length (raw_blocks raw)) slots')"
  using assms(2-)
proof (induction "length (raw_blocks raw) - m" arbitrary: m v slots)
  case 0
  then have "m = length (raw_blocks raw)" by simp
  with 0 show ?case by (simp add: phase_def kinds_def)
next
  case (Suc d)
  let ?n = "length (raw_blocks raw)" and ?op = "raw_blocks raw ! m"
  have m: "m < ?n" "m < hard_max_blocks" using Suc.hyps(2) assms(1) by auto
  have drop: "drop m (numbered (raw_blocks raw)) = (m, ?op) # drop (Suc m) (numbered (raw_blocks raw))"
    using m by (simp add: Cons_nth_drop_Suc [symmetric] numbered_def)
  have "within_work raw B (Suc (d + k)) v"
    using Suc.prems(2) unfolding Suc.hyps(2) [symmetric] by simp
  note c = charge_within [OF this, of 1, simplified]
  have kind: "kinds raw ! m = op_kind ?op" "m < length (kinds raw)" using m by (simp_all add: kinds_def)
  have free: "slot_of ?op slots \<noteq> None \<longleftrightarrow> op_kind ?op \<in> set (take m (kinds raw))"
    using slot_free [OF Suc.prems(3)] m by (simp add: slot_of_at)
  show ?case
  proof (cases "op_kind ?op \<in> set (take m (kinds raw))")
    case True
    then have "\<not> distinct (take (Suc m) (kinds raw))" using kind by (simp add: take_Suc_conv_app_nth)
    then have "\<not> distinct (kinds raw)" by (metis distinct_take)
    with True free c(1) m show ?thesis
      by (simp add: drop slot_step_def index_id_small phase_def)
  next
    case False
    let ?slots = "slot_fill ?op (BlockId (word_of_nat m)) slots"
    have "slots_exact raw (Suc m) ?slots"
      unfolding slots_exact_def
    proof (intro allI)
      fix k' i
      have old: "slot_at slots k' = Some i \<longleftrightarrow>
          (\<exists>j<m. i = BlockId (word_of_nat j) \<and> op_kind (raw_blocks raw ! j) = k')"
        using Suc.prems(3) by (simp add: slots_exact_def)
      have "k' = op_kind ?op \<Longrightarrow> \<not> (\<exists>j<m. op_kind (raw_blocks raw ! j) = k')"
        using False m by (auto simp: kinds_def in_set_conv_nth)
      with old show "slot_at ?slots k' = Some i \<longleftrightarrow>
          (\<exists>j<Suc m. i = BlockId (word_of_nat j) \<and> op_kind (raw_blocks raw ! j) = k')"
        by (auto simp: slot_at_fill less_Suc_eq)
    qed
    moreover have "distinct (take (Suc m) (kinds raw))"
      using False Suc.prems(4) kind by (simp add: take_Suc_conv_app_nth)
    moreover have d: "d = ?n - Suc m" using Suc.hyps(2) by simp
    moreover have "within_work raw B (?n - Suc m + k) (spend 1 v)"
      using c(2) unfolding d by simp
    ultimately have "phase (distinct (kinds raw))
        (rfold slot_step (drop (Suc m) (numbered (raw_blocks raw))) (spend 1 v, ?slots))
        (\<lambda>(v', slots'). within_work raw B k v' \<and> vd_data_use v' = vd_data_use (spend 1 v) \<and> slots_exact raw ?n slots')"
      using m by (intro Suc.hyps(1)) auto
    moreover have "slot_step (m, ?op) (v, slots) = Inr (spend 1 v, ?slots)"
      using False free c(1) m by (simp add: slot_step_def index_id_small)
    ultimately show ?thesis by (simp add: drop)
  qed
qed

section \<open>Canonical topologies\<close>

fun canonical :: "raw_program \<Rightarrow> kernel_shape \<Rightarrow> bool" where
  "canonical raw (LiteralShape needle anchors) =
     (length (raw_blocks raw) = 4 \<and> program_shape raw (LiteralShape needle anchors))"
| "canonical raw (ClassSuffixShape cls suffix anchors) =
     (length (raw_blocks raw) = 7 \<and> program_shape raw (ClassSuffixShape cls suffix anchors))"

lemma block_at_kind: "block_at raw i op \<Longrightarrow> op_kind op \<in> set (kinds raw)"
  by (auto simp: block_at_def kinds_def)

lemma exact_kinds:
  assumes "K \<subseteq> set (kinds raw)" "length (raw_blocks raw) \<le> card K" "finite K"
  shows "distinct (kinds raw)" "set (kinds raw) = K"
proof -
  have "card (set (kinds raw)) \<le> length (raw_blocks raw)"
    by (metis card_length kinds_def length_map)
  moreover have "card K \<le> card (set (kinds raw))" using assms(1) by (simp add: card_mono)
  ultimately have eq: "card (set (kinds raw)) = length (kinds raw)" "card K = card (set (kinds raw))"
    using assms(2) by (auto simp: kinds_def)
  then show "distinct (kinds raw)" by (simp add: card_distinct)
  show "set (kinds raw) = K" using card_subset_eq [OF _ assms(1) eq(2)] by simp
qed

lemma literal_kinds:
  assumes "literal_program raw needle anchors d scan found none" "length (raw_blocks raw) = 4"
  shows "distinct (kinds raw)" "set (kinds raw) = {0, 1, 6, 7}"
proof -
  have "{0, 1, 6, 7} \<subseteq> set (kinds raw)"
    using assms(1) block_at_kind [of raw] unfolding literal_program_def by fastforce
  from exact_kinds [OF this] assms(2)
  show "distinct (kinds raw)" "set (kinds raw) = {0, 1, 6, 7}" by simp_all
qed

lemma class_kinds:
  assumes "class_program raw cls suffix anchors dc ds scan grow confirm advance found none"
    and "length (raw_blocks raw) = 7"
  shows "distinct (kinds raw)" "set (kinds raw) = {0, 2, 3, 4, 5, 6, 7}"
proof -
  have "{0, 2, 3, 4, 5, 6, 7} \<subseteq> set (kinds raw)"
    using assms(1) block_at_kind [of raw] unfolding class_program_def by fastforce
  from exact_kinds [OF this] assms(2)
  show "distinct (kinds raw)" "set (kinds raw) = {0, 2, 3, 4, 5, 6, 7}" by simp_all
qed

lemma block_id_index: "i < hard_max_blocks \<Longrightarrow> BlockId (word_of_nat i) = j \<longleftrightarrow> block_index j = i"
  by (cases j) (auto simp: block_index_def hard_max_blocks_def unat_of_nat take_bit_nat_eq_self)

lemma slots_exact_iff:
  assumes "slots_exact raw (length (raw_blocks raw)) slots" "length (raw_blocks raw) \<le> hard_max_blocks"
  shows "slot_at slots k = Some i \<longleftrightarrow> (\<exists>op. block_at raw i op \<and> op_kind op = k)"
proof -
  have "slot_at slots k = Some i \<longleftrightarrow>
      (\<exists>j<length (raw_blocks raw). block_index i = j \<and> op_kind (raw_blocks raw ! j) = k)"
  proof -
    have "i = BlockId (word_of_nat j) \<longleftrightarrow> block_index i = j" if "j < length (raw_blocks raw)" for j
      using block_id_index [of j i] assms(2) that by auto
    then show ?thesis using assms(1) unfolding slots_exact_def by blast
  qed
  then show ?thesis by (auto simp: block_at_def block_index_def)
qed

lemma op_kind_cases:
  "op_kind op = 0 \<longleftrightarrow> (\<exists>n. op = Entry n)"
  "op_kind op = Suc 0 \<longleftrightarrow> (\<exists>d an i j. op = ScanLiteral d an i j)"
  "op_kind op = 2 \<longleftrightarrow> (\<exists>d b i j. op = ScanClassStart d b i j)"
  "op_kind op = 3 \<longleftrightarrow> (\<exists>d i. op = ExtendClassRun d i)"
  "op_kind op = 4 \<longleftrightarrow> (\<exists>d b i j. op = ConfirmSuffix d b i j)"
  "op_kind op = 5 \<longleftrightarrow> (\<exists>n. op = AdvanceAfterReject n)"
  "op_kind op = 6 \<longleftrightarrow> op = ReturnFound"
  "op_kind op = 7 \<longleftrightarrow> op = ReturnNone"
  by (cases op; simp)+

lemma vd_op_at: "block_at raw i op \<Longrightarrow> vd_op raw i = Inr op"
  by (simp add: block_at_def vd_op_def block_index_def)

lemma slot_fields:
  "slot_entry slots = slot_at slots 0" "slot_literal slots = slot_at slots 1"
  "slot_scan_class slots = slot_at slots 2" "slot_extend slots = slot_at slots 3"
  "slot_confirm slots = slot_at slots 4" "slot_advance slots = slot_at slots 5"
  "slot_found slots = slot_at slots 6" "slot_none slots = slot_at slots 7"
  by (simp_all add: slot_at_def)

section \<open>Dominance\<close>

definition dominated :: "raw_program \<Rightarrow> block_id \<Rightarrow> block_id \<Rightarrow> bool" where
  "dominated raw dominator target = (\<exists>S. block_index (raw_entry raw) \<in> S
     \<and> closed_except raw (\<lambda>s. s \<noteq> dominator) {} S \<and> block_index target \<notin> S)"

lemma dominates_safe:
  assumes work: "within_work raw B (length (raw_blocks raw) + k) v" and "flow_ok raw"
    and "length (raw_blocks raw) \<le> hard_max_blocks"
  shows "safe (\<lambda>e. is_invalid e \<and> \<not> dominated raw dominator target) (require_dominates dominator target v)
    (within_work raw B k)"
proof (cases "raw_entry raw = dominator")
  case True
  with work show ?thesis
    by (auto simp: require_dominates_def reachable_avoiding_def within_work_def meter_within_def)
next
  case False
  let ?n = "length (raw_blocks raw)" and ?s = "block_index (raw_entry raw)"
  let ?seen = "(replicate hard_max_blocks False)[?s := True]"
  have raw: "vd_raw v = raw" and meter: "meter_within B (?n + k) (vd_meter v)"
    using work by (auto simp: within_work_def)
  have s: "?s < ?n" "?s < hard_max_blocks" using assms(2,3) by (auto simp: flow_ok_def)
  note start = entry_traversal [OF s(1) assms(3)]
  have "safe (\<lambda>_. False) (avoid_loop raw target dominator [?s] ?seen (vd_meter v)) (\<lambda>(found, meter').
      meter_within B k meter' \<and> vm_limit meter' = vm_limit (vd_meter v)
      \<and> (\<forall>S. marked ?seen \<subseteq> S \<longrightarrow> closed_except raw (\<lambda>s. s \<noteq> dominator) {} S
           \<longrightarrow> block_index target \<notin> S \<longrightarrow> \<not> found))"
    by (rule avoid_loop_safe [OF flow_ok_targets [OF assms(2)] start(1)])
       (use meter start(3) in \<open>simp add: meter_within_def\<close>)
  then obtain found meter' where run: "avoid_loop raw target dominator [?s] ?seen (vd_meter v) = Inr (found, meter')"
    and r: "meter_within B k meter'" "dominated raw dominator target \<Longrightarrow> \<not> found"
    by (cases "avoid_loop raw target dominator [?s] ?seen (vd_meter v)") (auto simp: start(2) dominated_def)
  then show ?thesis using False raw s(2) work
    by (auto simp: require_dominates_def reachable_avoiding_def Let_def within_work_def)
qed

end
