(* ===== verification/KirTopology.thy ===== *)
theory KirTopology
  imports KirPhases
begin

text \<open>
  The last phase of the validator and the validator as a whole: an admitted run of
  \<^verbatim>\<open>Validator::run\<close> never panics, spends at most \<^verbatim>\<open>validation_work_formula\<close>, and accepts exactly
  the well-formed programs: right headers, consistent flow, every block reachable, every data
  entry used, distinct and non-empty, and one of the two canonical topologies.
\<close>

definition topology_ok :: "raw_program \<Rightarrow> bool" where
  "topology_ok raw = (\<exists>shape. canonical raw shape)"

lemma topology_cases:
  assumes "topology_ok raw"
  obtains (literal) needle anchors d scan found none
    where "literal_program raw needle anchors d scan found none" "length (raw_blocks raw) = 4"
  | (classed) cls suffix anchors dc ds scan grow confirm advance found none
    where "class_program raw cls suffix anchors dc ds scan grow confirm advance found none"
      "length (raw_blocks raw) = 7"
proof -
  obtain shape where "canonical raw shape" using assms by (auto simp: topology_ok_def)
  then show thesis using literal classed by (cases shape) auto
qed

lemma block_at_fun: "block_at raw i a \<Longrightarrow> block_at raw i b \<Longrightarrow> a = b"
  by (auto simp: block_at_def)

lemma block_at_distinct: "block_at raw i a \<Longrightarrow> block_at raw j b \<Longrightarrow> a \<noteq> b \<Longrightarrow> block_index i \<noteq> block_index j"
  by (auto simp: block_at_def block_index_def)

text \<open>Dominance by a list of the blocks that can be reached without the dominator.\<close>

lemma dominatedI:
  assumes "\<And>b op. (b, op) \<in> set L \<Longrightarrow> block_at raw b op
      \<and> (\<forall>s\<in>set (successors op). s \<noteq> dominator \<longrightarrow> s \<in> fst ` set L)"
    and "raw_entry raw \<in> fst ` set L" "block_at raw target op" "op \<notin> snd ` set L"
  shows "dominated raw dominator target"
proof -
  let ?S = "block_index ` fst ` set L"
  have "closed_except raw (\<lambda>s. s \<noteq> dominator) {} ?S"
    unfolding closed_except_def
  proof (intro ballI impI)
    fix i s assume "i \<in> ?S - {}" "s \<in> set (successors (raw_blocks raw ! i))" and s: "s \<noteq> dominator"
    then obtain b op where b: "(b, op) \<in> set L" "i = block_index b" "s \<in> set (successors op)"
      using assms(1) by (force simp: block_at_def block_index_def)
    then show "block_index s \<in> ?S" using assms(1) [OF b(1)] s by blast
  qed
  moreover have "block_index target \<notin> ?S"
  proof
    assume "block_index target \<in> ?S"
    then obtain b op' where b: "(b, op') \<in> set L" "block_index target = block_index b" by auto
    then have "op' \<noteq> op" using assms(4) by force
    with block_at_distinct [OF conjunct1 [OF assms(1) [OF b(1)]] assms(3)] b(2) show False by simp
  qed
  ultimately show ?thesis using assms(2) unfolding dominated_def by blast
qed

text \<open>Safety weakens to the plain one, and an impossible refusal is none at all.\<close>

lemma safe_invalid: "safe (\<lambda>e. is_invalid e \<and> \<not> good) m Q \<Longrightarrow> safe is_invalid m Q"
  by (erule safe_weaken) simp

lemma safe_good: "safe (\<lambda>e. is_invalid e \<and> \<not> good) m Q \<Longrightarrow> good \<Longrightarrow> safe R m Q"
  by (erule safe_weaken) simp

section \<open>Literal topology\<close>

lemma dominates_refuses:
  assumes "within_work raw B (length (raw_blocks raw) + k) v" "flow_ok raw"
    "length (raw_blocks raw) \<le> hard_max_blocks" "good \<Longrightarrow> dominated raw dominator target"
  shows "safe (\<lambda>e. is_invalid e \<and> \<not> good) (require_dominates dominator target v) (within_work raw B k)"
  by (rule safe_weaken [OF dominates_safe [OF assms(1-3)]]) (use assms(4) in blast)

lemma literal_topology_safe:
  assumes work: "within_work raw B (length (raw_blocks raw) * 2 + k) v" and "flow_ok raw"
    and le: "length (raw_blocks raw) \<le> hard_max_blocks"
    and exact: "slots_exact raw (length (raw_blocks raw)) slots"
    and blocks: "block_at raw (raw_entry raw) (Entry a)" "block_at raw scan (ScanLiteral d an m e)"
      "block_at raw found ReturnFound" "block_at raw none ReturnNone"
  shows "safe (\<lambda>err. is_invalid err \<and> \<not> topology_ok raw)
    (literal_topology slots (raw_entry raw) scan found none v) (within_work raw B k)"
proof -
  let ?n = "length (raw_blocks raw)"
  have raw: "vd_raw v = raw" using work by (simp add: within_work_def)
  note slot = slots_exact_iff [OF exact le]
  have good: "?n = 4 \<and> a = scan \<and> m = found \<and> e = none \<and> slot_scan_class slots = None
      \<and> slot_extend slots = None \<and> slot_confirm slots = None \<and> slot_advance slots = None" if "topology_ok raw"
    using that
  proof (cases rule: topology_cases)
    case (literal needle anchors d' scan' found' none')
    have same: "b = b'" if "block_at raw b op" "block_at raw b' op'" "op_kind op = op_kind op'" for b b' op op'
      using that slot [of "op_kind op" b] slot [of "op_kind op" b'] by fastforce
    note lit = literal(1) [unfolded literal_program_def]
    have "scan' = scan" "found' = found" "none' = none"
      using lit blocks by (auto intro!: same)
    moreover have "Entry a = Entry scan'" "ScanLiteral d an m e = ScanLiteral d' anchors found' none'"
      using lit blocks block_at_fun [of raw "raw_entry raw"] block_at_fun [of raw scan] \<open>scan' = scan\<close>
      by blast+
    moreover have "slot_at slots k = None" if "k \<notin> {0, 1, 6, 7}" for k
      using slot_free [OF exact order_refl] literal_kinds(2) [OF literal] that by (simp add: kinds_def)
    ultimately show ?thesis using literal(2) by (simp add: slot_fields)
  next
    case (classed cls suffix anchors dc ds scan' grow confirm advance found' none')
    have "1 \<in> set (kinds raw)" using block_at_kind [OF blocks(2)] by simp
    then show ?thesis unfolding class_kinds(2) [OF classed] by simp
  qed
  have dom: "dominated raw scan b" if "topology_ok raw" "block_at raw b op" "op \<noteq> Entry a" for b op
    by (rule dominatedI [of "[(raw_entry raw, Entry a)]"]) (use blocks good [OF that(1)] that in auto)
  have "safe (\<lambda>err. is_invalid err \<and> \<not> topology_ok raw)
      (rbind (require_dominates scan found v) (require_dominates scan none)) (within_work raw B k)"
    by (rule safe_bind [OF dominates_refuses [OF _ assms(2) le, where k = "?n + k"]
          dominates_refuses [OF _ assms(2) le]])
       (use work dom blocks in \<open>auto simp: mult_2_right add.assoc\<close>)
  then show ?thesis
    using good raw by (auto simp: literal_topology_def require_literal_edges_def vd_op_at [OF blocks(1)]
      vd_op_at [OF blocks(2)])
qed

section \<open>Class topology\<close>

lemma reference_blob:
  assumes "flow_ok raw" "block_at raw i op" "d \<in> set (referenced_data op)"
  shows "reference_ok raw op d"
  using assms by (auto simp: flow_ok_def block_ok_def block_at_def)

lemma class_edges_safe:
  assumes work: "within_work raw B (7 + k) v" and flow: "flow_ok raw"
    and blocks: "block_at raw (shape_entry sh) (Entry a)" "block_at raw (shape_scan sh) (ScanClassStart d b i j)"
      "block_at raw (shape_extend sh) (ExtendClassRun d' n)" "block_at raw (shape_confirm sh) (ConfirmSuffix s b' m r)"
      "block_at raw (shape_advance sh) (AdvanceAfterReject t)"
  shows "safe (\<lambda>e. is_invalid e \<and> \<not> (a = shape_scan sh \<and> i = shape_extend sh \<and> j = shape_none sh
      \<and> n = shape_confirm sh \<and> m = shape_found sh \<and> r = shape_advance sh \<and> t = shape_scan sh \<and> d = d'
      \<and> (\<exists>suffix cls. blob_at raw s (Bytes suffix) \<and> blob_at raw d (Class cls)
           \<and> suffix \<noteq> [] \<and> \<not> contains cls (hd suffix))))
    (require_class_edges sh v) (within_work raw B k)"
proof -
  have raw: "vd_raw v = raw" using work by (simp add: within_work_def)
  obtain suffix where s: "data_index s < length (raw_data raw)" "raw_data raw ! data_index s = Bytes suffix"
    using reference_blob [OF flow blocks(4), of s]
    by (cases "raw_data raw ! data_index s") (auto simp: reference_ok_def)
  obtain cls where c: "data_index d < length (raw_data raw)" "raw_data raw ! data_index d = Class cls"
    using reference_blob [OF flow blocks(2), of d]
    by (cases "raw_data raw ! data_index d") (auto simp: reference_ok_def)
  have blobs: "blob_at raw s (Bytes x) \<longleftrightarrow> x = suffix" "blob_at raw d (Class y) \<longleftrightarrow> y = cls" for x y
    using s c by (auto simp: blob_at_def data_index_def)
  show ?thesis
    using charge_within [OF work, of 7] blocks raw s c
    by (cases suffix)
       (auto simp: require_class_edges_def vd_op_at class_edges_ok_def class_data_ok_def vd_bytes_def
         vd_class_def blobs)
qed

lemma dominance_chain:
  fixes scan grow confirm advance found
  assumes edges: "safe R m (within_work raw B (n * 4 + k))"
    and step: "\<And>x y w j. within_work raw B (n + j) w \<Longrightarrow>
      (x, y) \<in> {(scan, grow), (grow, confirm), (confirm, advance), (confirm, found)} \<Longrightarrow>
      safe R (require_dominates x y w) (within_work raw B j)"
  shows "safe R (rbind m (\<lambda>v. rbind (require_dominates scan grow v) (\<lambda>v.
    rbind (require_dominates grow confirm v) (\<lambda>v.
    rbind (require_dominates confirm advance v) (require_dominates confirm found))))) (within_work raw B k)"
proof -
  have split: "n * 4 + k = n + (n * 3 + k)" "n * 3 + k = n + (n * 2 + k)" "n * 2 + k = n + (n + k)" by simp_all
  have last2: "safe R (rbind (require_dominates confirm advance w) (require_dominates confirm found)) (within_work raw B k)"
    if "within_work raw B (n * 2 + k) w" for w
    by (rule safe_bind [OF step [OF that [unfolded split(3)]] step]) auto
  have last3: "safe R (rbind (require_dominates grow confirm w) (\<lambda>v.
      rbind (require_dominates confirm advance v) (require_dominates confirm found))) (within_work raw B k)"
    if "within_work raw B (n * 3 + k) w" for w
    by (rule safe_bind [OF step [OF that [unfolded split(2)]] last2]) auto
  have "safe R (rbind (require_dominates scan grow w) (\<lambda>v. rbind (require_dominates grow confirm v) (\<lambda>v.
      rbind (require_dominates confirm advance v) (require_dominates confirm found)))) (within_work raw B k)"
    if "within_work raw B (n * 4 + k) w" for w
    by (rule safe_bind [OF step [OF that [unfolded split(1)]] last3]) auto
  with edges show ?thesis by (rule safe_bind)
qed

lemma class_topology_safe:
  assumes work: "within_work raw B (7 + length (raw_blocks raw) * 4 + k) v" and flow: "flow_ok raw"
    and le: "length (raw_blocks raw) \<le> hard_max_blocks"
    and exact: "slots_exact raw (length (raw_blocks raw)) slots" and nolit: "slot_literal slots = None"
    and blocks: "block_at raw (raw_entry raw) (Entry a)"
      "block_at raw found ReturnFound" "block_at raw none ReturnNone"
  shows "safe (\<lambda>err. is_invalid err \<and> \<not> topology_ok raw)
    (class_topology slots (raw_entry raw) found none v) (within_work raw B k)"
proof (cases "topology_ok raw")
  case True
  let ?n = "length (raw_blocks raw)"
  note slot = slots_exact_iff [OF exact le]
  have "1 \<notin> set (kinds raw)"
    using slot_free [OF exact order_refl, of 1] nolit by (simp add: slot_fields kinds_def)
  then obtain cls suffix anchors dc ds scan grow confirm advance found' none' where
    prog: "class_program raw cls suffix anchors dc ds scan grow confirm advance found' none'" and n: "?n = 7"
  proof -
    assume none: "1 \<notin> set (kinds raw)"
      and thesis: "\<And>cls suffix anchors dc ds scan grow confirm advance found' none'.
        class_program raw cls suffix anchors dc ds scan grow confirm advance found' none' \<Longrightarrow> ?n = 7 \<Longrightarrow> thesis"
    show thesis
      by (rule topology_cases [OF True]) (use none literal_kinds(2) thesis in \<open>blast+\<close>)
  qed
  note p = prog [unfolded class_program_def]
  have slots: "slot_scan_class slots = Some scan" "slot_extend slots = Some grow"
      "slot_confirm slots = Some confirm" "slot_advance slots = Some advance"
    unfolding slot_fields slot using p by (auto intro!: exI conjI)
  have same: "b = b'" if "block_at raw b op" "block_at raw b' op" for b b' op
    using that slot [of "op_kind op" b] slot [of "op_kind op" b'] by fastforce
  have fn: "found' = found" "none' = none" using p blocks by (auto intro: same)
  let ?sh = "\<lparr>shape_entry = raw_entry raw, shape_scan = scan, shape_extend = grow, shape_confirm = confirm,
      shape_advance = advance, shape_found = found, shape_none = none\<rparr>"
  let ?dom = "\<lambda>x y. dominated raw x y"
  have d1: "?dom scan grow"
    by (rule dominatedI [of "[(raw_entry raw, Entry scan)]"]) (use p in auto)
  have d2: "?dom grow confirm"
    by (rule dominatedI [of "[(raw_entry raw, Entry scan), (none, ReturnNone),
          (scan, ScanClassStart dc (anchor_start anchors) grow none)]"]) (use p fn in auto)
  have "?dom confirm target" if "block_at raw target op"
    "op \<notin> {Entry scan, ReturnNone, ScanClassStart dc (anchor_start anchors) grow none, ExtendClassRun dc confirm}"
    for target op
    by (rule dominatedI [of "[(raw_entry raw, Entry scan), (none, ReturnNone), (grow, ExtendClassRun dc confirm),
          (scan, ScanClassStart dc (anchor_start anchors) grow none)]"]) (use p fn that in auto)
  then have d3: "?dom confirm advance" "?dom confirm found" using p fn by auto
  have edges: "safe (\<lambda>_. False) (require_class_edges ?sh v) (within_work raw B (?n * 4 + k))"
    by (rule safe_good [OF class_edges_safe [OF _ flow]]) (use work p fn in \<open>auto simp: add.assoc\<close>)
  have step: "safe (\<lambda>_. False) (require_dominates x y w) (within_work raw B j)"
    if "within_work raw B (?n + j) w" "?dom x y" for x y w j
    by (rule safe_good [OF dominates_safe [OF that(1) flow le] that(2)])
  have "safe (\<lambda>_. False) (class_topology slots (raw_entry raw) found none v) (within_work raw B k)"
  proof -
    have "safe (\<lambda>_. False) (rbind (require_class_edges ?sh v) (\<lambda>v.
        rbind (require_dominates scan grow v) (\<lambda>v. rbind (require_dominates grow confirm v) (\<lambda>v.
        rbind (require_dominates confirm advance v) (require_dominates confirm found))))) (within_work raw B k)"
      by (rule dominance_chain [OF edges step]) (use d1 d2 d3 in auto)
    with slots n show ?thesis using work by (simp add: class_topology_def within_work_def)
  qed
  then show ?thesis by (rule safe_weaken) simp
next
  case False
  let ?n = "length (raw_blocks raw)"
  note slot = slots_exact_iff [OF exact le]
  have raw: "vd_raw v = raw" using work by (simp add: within_work_def)
  show ?thesis
  proof (cases "slot_scan_class slots = None \<or> slot_extend slots = None \<or> slot_confirm slots = None
      \<or> slot_advance slots = None \<or> ?n \<noteq> 7")
    case True
    with False raw show ?thesis
      by (cases "slot_scan_class slots"; cases "slot_extend slots"; cases "slot_confirm slots";
          cases "slot_advance slots") (auto simp: class_topology_def)
  next
    case all: False
    then obtain scan grow confirm advance where slots: "slot_scan_class slots = Some scan"
      "slot_extend slots = Some grow" "slot_confirm slots = Some confirm" "slot_advance slots = Some advance"
      by auto
    let ?sh = "\<lparr>shape_entry = raw_entry raw, shape_scan = scan, shape_extend = grow, shape_confirm = confirm,
        shape_advance = advance, shape_found = found, shape_none = none\<rparr>"
    from slots obtain d b i j d' nx s b' m r t where ops: "block_at raw scan (ScanClassStart d b i j)"
      "block_at raw grow (ExtendClassRun d' nx)" "block_at raw confirm (ConfirmSuffix s b' m r)"
      "block_at raw advance (AdvanceAfterReject t)"
      unfolding slot_fields slot by (auto simp: op_kind_cases)
    have edges: "safe is_invalid (require_class_edges ?sh v) (within_work raw B (?n * 4 + k))"
      by (rule safe_invalid [OF class_edges_safe [OF _ flow]])
         (use work blocks ops in \<open>simp_all add: add.assoc\<close>)
    have step: "safe is_invalid (require_dominates x y w) (within_work raw B j)"
      if "within_work raw B (?n + j) w" for x y w j
      by (rule safe_invalid [OF dominates_safe [OF that flow le]])
    have "safe is_invalid (rbind (require_class_edges ?sh v) (\<lambda>v.
        rbind (require_dominates scan grow v) (\<lambda>v. rbind (require_dominates grow confirm v) (\<lambda>v.
        rbind (require_dominates confirm advance v) (require_dominates confirm found))))) (within_work raw B k)"
      by (rule dominance_chain [OF edges step])
    with False slots all raw show ?thesis by (simp add: class_topology_def)
  qed
qed

section \<open>The topology phase\<close>

lemma topology_kinds: "topology_ok raw \<Longrightarrow> distinct (kinds raw) \<and> {0, 6, 7} \<subseteq> set (kinds raw)"
  by (erule topology_cases) (use literal_kinds class_kinds in auto)

text \<open>The slots name blocks, so a run that gets past them knows its entry and exits.\<close>

lemma slots_topology_safe:
  assumes work: "within_work raw B (7 + length (raw_blocks raw) * 4 + k) v" and flow: "flow_ok raw"
    and le: "length (raw_blocks raw) \<le> hard_max_blocks"
    and exact: "slots_exact raw (length (raw_blocks raw)) slots"
  shows "safe (\<lambda>e. is_invalid e \<and> \<not> topology_ok raw) (slots_topology slots v) (within_work raw B k)"
proof -
  note slot = slots_exact_iff [OF exact le]
  have raw: "vd_raw v = raw" using work by (simp add: within_work_def)
  show ?thesis
  proof (cases "slot_at slots 0 = None \<or> slot_at slots 6 = None \<or> slot_at slots 7 = None")
    case True
    then have "\<not> {0, 6, 7} \<subseteq> set (kinds raw)"
      using slot_free [OF exact order_refl] by (auto simp: kinds_def)
    then have "\<not> topology_ok raw" using topology_kinds by blast
    with True show ?thesis
      unfolding slots_topology_def slot_fields(1,7,8)
      by (cases "slot_at slots 0"; cases "slot_at slots 6"; cases "slot_at slots 7") simp_all
  next
    case False
    then obtain start found none where all: "slot_at slots 0 = Some start" "slot_at slots 6 = Some found"
      "slot_at slots 7 = Some none" by auto
    show ?thesis
    proof (cases "start = raw_entry raw")
      case True
      from all obtain a where blocks: "block_at raw (raw_entry raw) (Entry a)"
        "block_at raw found ReturnFound" "block_at raw none ReturnNone"
        unfolding slot True by (auto simp: op_kind_cases)
      show ?thesis
      proof (cases "slot_literal slots")
        case None
        with class_topology_safe [OF work flow le exact None blocks] all True raw show ?thesis
          by (simp add: slots_topology_def slot_fields(1,7,8))
      next
        case (Some scan)
        then obtain d an m e where "block_at raw scan (ScanLiteral d an m e)"
          unfolding slot_fields slot by (auto simp: op_kind_cases)
        with literal_topology_safe [OF within_mono [OF work] flow le exact blocks(1) _ blocks(2,3)] Some all True raw
        show ?thesis by (simp add: slots_topology_def slot_fields(1,7,8))
      qed
    next
      case False
      have "\<not> topology_ok raw"
      proof
        assume top: "topology_ok raw"
        obtain a where "block_at raw (raw_entry raw) (Entry a)"
          by (rule topology_cases [OF top]) (auto simp: literal_program_def class_program_def)
        then have "slot_at slots 0 = Some (raw_entry raw)" unfolding slot by (metis op_kind.simps(1))
        with all(1) False show False by simp
      qed
      with False all raw show ?thesis by (simp add: slots_topology_def slot_fields(1,7,8))
    qed
  qed
qed

lemma topology_safe:
  assumes work: "within_work raw B (length (raw_blocks raw) + (7 + length (raw_blocks raw) * 4) + k) v"
    and flow: "flow_ok raw" and le: "length (raw_blocks raw) \<le> hard_max_blocks"
  shows "safe (\<lambda>e. is_invalid e \<and> \<not> topology_ok raw) (vd_topology v) (within_work raw B k)"
proof -
  let ?n = "length (raw_blocks raw)"
  let ?R = "\<lambda>e. is_invalid e \<and> \<not> topology_ok raw"
  have raw: "vd_raw v = raw" using work by (simp add: within_work_def)
  have "phase (distinct (kinds raw)) (rfold slot_step (drop 0 (numbered (raw_blocks raw))) (v, slots_empty))
      (\<lambda>(v', slots'). within_work raw B (7 + ?n * 4 + k) v' \<and> vd_data_use v' = vd_data_use v
        \<and> slots_exact raw ?n slots')"
    by (rule slots_phase [OF le]) (use work in \<open>auto simp: slots_exact_def ac_simps\<close>)
  then have "safe ?R (rfold slot_step (numbered (raw_blocks raw)) (v, slots_empty))
      (\<lambda>(v', slots'). within_work raw B (7 + ?n * 4 + k) v' \<and> slots_exact raw ?n slots')"
    using topology_kinds unfolding phase_def
    by (cases "rfold slot_step (numbered (raw_blocks raw)) (v, slots_empty)") auto
  then show ?thesis
    unfolding vd_topology_def raw
    by (rule safe_bind) (auto intro: slots_topology_safe [OF _ flow le])
qed

section \<open>Soundness\<close>

lemma literal_topology_sound:
  assumes "literal_topology slots (raw_entry raw) scan found none v = Inr v'" "vd_raw v = raw" "flow_ok raw"
    and blocks: "block_at raw (raw_entry raw) (Entry a)" "block_at raw scan (ScanLiteral d an m e)"
      "block_at raw found ReturnFound" "block_at raw none ReturnNone"
  shows "topology_ok raw"
proof -
  have n: "length (raw_blocks raw) = 4" and edges: "a = scan" "m = found" "e = none"
    using assms(1,2) blocks
    by (auto simp: literal_topology_def require_literal_edges_def rbind_eq_Inr vd_op_at split: if_splits)
  obtain needle where "blob_at raw d (Bytes needle)"
    using reference_blob [OF assms(3) blocks(2), of d]
    by (cases "raw_data raw ! data_index d") (auto simp: reference_ok_def blob_at_def data_index_def)
  with blocks edges have "literal_program raw needle an d scan found none"
    by (simp add: literal_program_def)
  with n have "canonical raw (LiteralShape needle an)" by auto
  then show ?thesis unfolding topology_ok_def by blast
qed

lemma class_data_sound:
  "class_data_ok raw sh d s = Inr u \<Longrightarrow> \<exists>cls suffix. blob_at raw d (Class cls) \<and> blob_at raw s (Bytes suffix)
     \<and> suffix \<noteq> [] \<and> \<not> contains cls (hd suffix)"
  by (auto simp: class_data_ok_def vd_bytes_def vd_class_def blob_at_def data_index_def rbind_eq_Inr
      split: if_splits data_blob.splits list.splits)

lemma class_topology_sound:
  assumes success: "class_topology slots (raw_entry raw) found none v = Inr v'" and "vd_raw v = raw"
    and exact: "slots_exact raw (length (raw_blocks raw)) slots" and le: "length (raw_blocks raw) \<le> hard_max_blocks"
    and blocks: "block_at raw (raw_entry raw) (Entry a)" "block_at raw found ReturnFound" "block_at raw none ReturnNone"
  shows "topology_ok raw"
proof -
  note slot = slots_exact_iff [OF exact le]
  obtain scan grow confirm advance v1 where slots: "slot_scan_class slots = Some scan" "slot_extend slots = Some grow"
      "slot_confirm slots = Some confirm" "slot_advance slots = Some advance" and n: "length (raw_blocks raw) = 7"
    and edges: "require_class_edges \<lparr>shape_entry = raw_entry raw, shape_scan = scan, shape_extend = grow,
        shape_confirm = confirm, shape_advance = advance, shape_found = found, shape_none = none\<rparr> v = Inr v1"
    using success assms(2) by (auto simp: class_topology_def rbind_eq_Inr split: if_splits)
  from slots obtain d b i j d' nx s b' m r t where ops: "block_at raw scan (ScanClassStart d b i j)"
      "block_at raw grow (ExtendClassRun d' nx)" "block_at raw confirm (ConfirmSuffix s b' m r)"
      "block_at raw advance (AdvanceAfterReject t)"
    unfolding slot_fields slot by (auto simp: op_kind_cases)
  have "a = scan \<and> i = grow \<and> j = none \<and> nx = confirm \<and> m = found \<and> r = advance \<and> t = scan \<and> d = d'
      \<and> (\<exists>sh u. class_data_ok raw sh d s = Inr u)"
    using edges assms(2) ops blocks
    by (auto simp: require_class_edges_def rbind_eq_Inr vd_charge_def vd_op_at class_edges_ok_def split: if_splits)
  then have e: "a = scan" "i = grow" "j = none" "nx = confirm" "m = found" "r = advance" "t = scan" "d = d'"
    and "\<exists>sh u. class_data_ok raw sh d s = Inr u" by auto
  then obtain cls suffix where "blob_at raw d (Class cls)" "blob_at raw s (Bytes suffix)"
    "suffix \<noteq> []" "\<not> contains cls (hd suffix)" using class_data_sound by blast
  with e ops blocks have "class_program raw cls suffix \<lparr>anchor_start = b, anchor_end = b'\<rparr> d s
      scan grow confirm advance found none"
    by (simp add: class_program_def)
  with n have "canonical raw (ClassSuffixShape cls suffix \<lparr>anchor_start = b, anchor_end = b'\<rparr>)"
    unfolding canonical.simps program_shape.simps by blast
  then show ?thesis unfolding topology_ok_def by blast
qed

lemma slots_topology_sound:
  assumes "slots_topology slots v = Inr v'" and raw: "vd_raw v = raw" and flow: "flow_ok raw"
    and exact: "slots_exact raw (length (raw_blocks raw)) slots" and le: "length (raw_blocks raw) \<le> hard_max_blocks"
  shows "topology_ok raw"
proof -
  note slot = slots_exact_iff [OF exact le]
  obtain found none where slots: "slot_entry slots = Some (raw_entry raw)" "slot_found slots = Some found"
      "slot_none slots = Some none"
    and rest: "(case slot_literal slots of
       Some scan \<Rightarrow> literal_topology slots (raw_entry raw) scan found none v
     | None \<Rightarrow> class_topology slots (raw_entry raw) found none v) = Inr v'"
    using assms(1) raw by (auto simp: slots_topology_def rbind_eq_Inr split: if_splits)
  from slots obtain a where blocks: "block_at raw (raw_entry raw) (Entry a)"
      "block_at raw found ReturnFound" "block_at raw none ReturnNone"
    unfolding slot_fields slot by (auto simp: op_kind_cases)
  show ?thesis
  proof (cases "slot_literal slots")
    case None
    with rest show ?thesis by (intro class_topology_sound [OF _ raw exact le blocks]) simp
  next
    case (Some scan)
    then obtain d an m e where "block_at raw scan (ScanLiteral d an m e)"
      unfolding slot_fields slot by (auto simp: op_kind_cases)
    with Some rest show ?thesis
      by (intro literal_topology_sound [OF _ raw flow blocks(1) _ blocks(2,3)]) simp_all
  qed
qed

lemma topology_phase:
  assumes work: "within_work raw B (length (raw_blocks raw) + (7 + length (raw_blocks raw) * 4) + k) v"
    and flow: "flow_ok raw" and le: "length (raw_blocks raw) \<le> hard_max_blocks"
  shows "phase (topology_ok raw) (vd_topology v) (within_work raw B k)"
  unfolding phase_def
proof (rule safe_post_conj [OF topology_safe [OF assms]])
  fix v' assume success: "vd_topology v = Inr v'"
  have raw: "vd_raw v = raw" using work by (simp add: within_work_def)
  have "phase (distinct (kinds raw)) (rfold slot_step (drop 0 (numbered (raw_blocks raw))) (v, slots_empty))
      (\<lambda>(v', slots'). within_work raw B (7 + length (raw_blocks raw) * 4 + k) v' \<and> vd_data_use v' = vd_data_use v
        \<and> slots_exact raw (length (raw_blocks raw)) slots')"
    by (rule slots_phase [OF le]) (use work in \<open>auto simp: slots_exact_def ac_simps\<close>)
  with success raw obtain v1 slots where "slots_topology slots v1 = Inr v'" "vd_raw v1 = raw"
    "slots_exact raw (length (raw_blocks raw)) slots"
    by (auto simp: vd_topology_def rbind_eq_Inr phase_def within_work_def)
  then show "topology_ok raw" by (rule slots_topology_sound [OF _ _ flow _ le])
qed

section \<open>The validator as a whole\<close>

definition well_formed :: "output_kind \<Rightarrow> raw_program \<Rightarrow> bool" where
  "well_formed kind raw = (headers_ok kind raw \<and> flow_ok raw \<and> all_reachable raw \<and> data_ok raw \<and> topology_ok raw)"

lemma validator_phases:
  assumes "length (raw_blocks raw) \<le> hard_max_blocks" "length (raw_data raw) \<le> hard_max_blocks"
    and bound: "bound = 11 * length (raw_blocks raw) + length (raw_data raw) + data_scan_work (raw_data raw) + 11"
    and "bound \<le> limit" "bound \<le> usize_max"
  shows "phase (well_formed kind raw) (validator_run kind (validator_new raw (val_meter_new limit)))
    (\<lambda>meter. vm_consumed meter \<le> bound)"
proof -
  let ?n = "length (raw_blocks raw)" and ?d = "length (raw_data raw) + data_scan_work (raw_data raw)"
  let ?v = "validator_new raw (val_meter_new limit)" and ?small = "4 + ?n * 4"
  let ?topology = "?n + (7 + ?n * 4) + 0"
  let ?extra = "?n * 2 + (?d + ?topology)"
  have split: "bound = ?small + ?extra" using bound by simp
  have small: "?small < u32_max" using assms(1) by (simp add: hard_max_blocks_def u32_max_def)
  have headers: "phase (headers_ok kind raw) (vd_headers kind ?v) (\<lambda>v. within_work raw bound (?n * 4 + ?extra) v \<and> v = spend 4 ?v)"
    by (rule headers_phase) (use assms split in
      \<open>simp add: within_work_def meter_within_def validator_new_def val_meter_new_def\<close>)
  have flow: "phase (flow_ok raw) (vd_targets_and_flow v) (\<lambda>v'. flow_work raw ?extra ?small 0 v' \<and> used v' = used_data raw)"
    if "within_work raw bound (?n * 4 + ?extra) v \<and> v = spend 4 ?v" for v
    by (rule flow_phase [OF _ small assms(1,2)])
       (use that split in \<open>auto simp: flow_work_def used_def validator_new_def\<close>)
  have reach: "phase (all_reachable raw) (vd_reachability v) (\<lambda>v'. within_work raw bound (?d + ?topology) v' \<and> used v' = used_data raw)"
    if "flow_work raw ?extra ?small 0 v \<and> used v = used_data raw" "flow_ok raw" for v
    by (rule phase_mono [OF reachability_phase [OF _ that(2) _ assms(1)]])
       (use that(1) split in \<open>auto simp: flow_work_def used_def\<close>)
  have data: "phase (data_ok raw) (vd_data v) (within_work raw bound ?topology)"
    if "within_work raw bound (?d + ?topology) v \<and> used v = used_data raw" for v
    using data_phase [OF _ _ assms(2)] that by blast
  have topology: "phase (topology_ok raw \<and> True) (rbind (vd_topology v) (\<lambda>v. Inr (vd_meter v)))
      (\<lambda>meter. vm_consumed meter \<le> bound)"
    if "within_work raw bound ?topology v" "flow_ok raw" for v
    by (rule phase_bind [OF topology_phase [OF that assms(1)]])
       (auto simp: phase_def within_work_def meter_within_def)
  have tail: "phase (flow_ok raw \<and> all_reachable raw \<and> data_ok raw \<and> topology_ok raw \<and> True)
      (rbind (vd_targets_and_flow v) (\<lambda>v. rbind (vd_reachability v) (\<lambda>v. rbind (vd_data v) (\<lambda>v.
        rbind (vd_topology v) (\<lambda>v. Inr (vd_meter v))))))
      (\<lambda>meter. vm_consumed meter \<le> bound)"
    if "within_work raw bound (?n * 4 + ?extra) v \<and> v = spend 4 ?v" for v
    by (rule phase_bind [OF flow [OF that]], rule phase_bind [OF reach], assumption, assumption,
        rule phase_bind [OF data], assumption, rule topology)
  have "phase (headers_ok kind raw \<and> flow_ok raw \<and> all_reachable raw \<and> data_ok raw \<and> topology_ok raw \<and> True)
      (validator_run kind ?v) (\<lambda>meter. vm_consumed meter \<le> bound)"
    unfolding validator_run_def by (rule phase_bind [OF headers tail])
  then show ?thesis by (simp add: well_formed_def)
qed

end
