(* ===== verification/KirValidate.thy ===== *)
theory KirValidate
  imports KirPlan KirTopology
begin

text \<open>
  The public validator of \<^verbatim>\<open>validate.rs\<close>, \<^verbatim>\<open>RawProgram::validate\<close>: planning, preflight, admission,
  the structural validator and the serializer in the order of the code, and the fixed-shape
  admission its builders share. The allocator (\<open>reserve\<close>), the digest (\<open>sha256\<close>), the type
  sizes and the vector capacities are parameters.
\<close>

section \<open>Fixed-shape admission\<close>

record fixed_shape_admission =
  fs_dimensions :: dimensions
  fs_seed :: construction_seed
  fs_raw_metadata_planning_work :: nat

definition fixed_shape_new ::
  "nat \<Rightarrow> nat \<Rightarrow> nat \<Rightarrow> nat \<Rightarrow> nat \<Rightarrow> nat \<Rightarrow> nat \<Rightarrow> nat \<Rightarrow> nat \<Rightarrow> nat \<Rightarrow> nat \<Rightarrow> nat \<Rightarrow> nat \<Rightarrow> nat
     \<Rightarrow> validate_error + fixed_shape_admission" where
  "fixed_shape_new blocks data_blobs serialized_bytes raw_allocation_requests
     literal_allocation_request_bytes block_allocation_request_bytes
     data_table_allocation_request_bytes planning_work raw_initialization_work raw_copy_work
     work_upper_bound additional_hash_invocations additional_hash_work additional_retained_bytes =
     rbind (ok_or (uadds literal_allocation_request_bytes
         [block_allocation_request_bytes, data_table_allocation_request_bytes])
       (ArithmeticOverflow SiteConstructionAllocationBytes)) (\<lambda>raw_allocation_request_bytes.
     rbind (raw_metadata_planning_envelope blocks data_blobs) (\<lambda>envelope.
     rbind (envelope_total envelope) (\<lambda>planned.
     Inr \<lparr>fs_dimensions = \<lparr>dim_data_bytes = 0, dim_serialized_bytes = serialized_bytes,
            dim_serialized_bytes_u64 = serialized_bytes, dim_estimated_code_bytes = 0,
            dim_work_factor = 0, dim_raw_program_capacity_bytes = raw_allocation_request_bytes,
            dim_literal_capacity_bytes = 0, dim_block_capacity_bytes = 0,
            dim_data_table_capacity_bytes = 0,
            dim_validation_work_upper_bound = work_upper_bound\<rparr>,
          fs_seed = \<lparr>cs_raw_allocation_requests = raw_allocation_requests,
            cs_literal_allocation_request_bytes = literal_allocation_request_bytes,
            cs_block_allocation_request_bytes = block_allocation_request_bytes,
            cs_data_table_allocation_request_bytes = data_table_allocation_request_bytes,
            cs_allocation_request_bytes = raw_allocation_request_bytes,
            cs_planning_work = planning_work,
            cs_initialization_work = raw_initialization_work, cs_copy_work = raw_copy_work,
            cs_additional_hash_invocations = additional_hash_invocations,
            cs_additional_hash_work = additional_hash_work,
            cs_additional_retained_bytes = additional_retained_bytes\<rparr>,
          fs_raw_metadata_planning_work = planned\<rparr>)))"

definition fixed_shape_admit ::
  "layout \<Rightarrow> fixed_shape_admission \<Rightarrow> nat \<Rightarrow> validate_limits \<Rightarrow> validate_error + unit" where
  "fixed_shape_admit sizes admission observed_raw_capacity_bytes limits =
     (let dims = (fs_dimensions admission)\<lparr>dim_raw_program_capacity_bytes := observed_raw_capacity_bytes\<rparr>
      in rbind (ok_or (uadd (cs_planning_work (fs_seed admission)) (fs_raw_metadata_planning_work admission))
           (ArithmeticOverflow SiteConstructionWork)) (\<lambda>planned.
         rbind (construction_work_new dims ((fs_seed admission)\<lparr>cs_planning_work := planned\<rparr>)) (\<lambda>work.
         admit_prospective sizes dims work limits)))"

section \<open>Validation\<close>

text \<open>The part of \<^verbatim>\<open>validate_accounted\<close> after admission: the validator, the receipt, the serializer.\<close>

definition seal_program ::
  "layout \<Rightarrow> (nat \<Rightarrow> nat option) \<Rightarrow> (bytes \<Rightarrow> bytes) \<Rightarrow> output_kind \<Rightarrow> raw_program
     \<Rightarrow> validate_limits \<Rightarrow> dimensions \<Rightarrow> construction_work \<Rightarrow> validate_error + validated_program" where
  "seal_program sizes reserve sha256 kind raw limits dims work =
     rbind (validator_run kind (validator_new raw (val_meter_new (max_validation_work limits)))) (\<lambda>meter.
     rbind (resource_accounting_of sizes dims work (dim_serialized_bytes dims) (vm_consumed meter)) (\<lambda>accounting.
     rbind (admit_accounting accounting limits) (\<lambda>_.
     rbind (kir_serialize reserve sha256 raw (dim_serialized_bytes dims) (max_serialized_capacity_bytes limits)
       (\<lambda>capacity.
          rbind (resource_accounting_of sizes dims work capacity (vm_consumed meter)) (\<lambda>accounting.
          rbind (admit_accounting accounting limits) (\<lambda>_. Inr accounting)))) (\<lambda>(serialized, accounting).
     Inr \<lparr>vp_raw = raw,
          vp_stats = \<lparr>st_blocks = length (raw_blocks raw), st_instructions = length (raw_blocks raw),
            st_data_blobs = length (raw_data raw), st_data_bytes = dim_data_bytes dims,
            st_serialized_bytes = dim_serialized_bytes dims,
            st_estimated_code_bytes = dim_estimated_code_bytes dims,
            st_work_factor = dim_work_factor dims, st_resources = accounting\<rparr>,
          vp_serialized = serialized\<rparr>))))"

definition validate_accounted ::
  "layout \<Rightarrow> vec_capacities \<Rightarrow> (nat \<Rightarrow> nat option) \<Rightarrow> (bytes \<Rightarrow> bytes) \<Rightarrow> output_kind
     \<Rightarrow> raw_program \<Rightarrow> validate_limits \<Rightarrow> construction_seed \<Rightarrow> validate_error + validated_program" where
  "validate_accounted sizes caps reserve sha256 kind raw limits seed =
     rbind (planning_charge raw_header_check_work
       (planning_new (cs_planning_work seed) (max_construction_work limits))) (\<lambda>planning.
     rbind (validate_headers kind raw) (\<lambda>_.
     rbind (admit_raw_shape_counts raw limits) (\<lambda>_.
     rbind (raw_metadata_planning_envelope (length (raw_blocks raw)) (length (raw_data raw))) (\<lambda>metadata_planning.
     rbind (envelope_total metadata_planning) (\<lambda>metadata_work.
     rbind (ok_or (uadd (cs_planning_work seed) metadata_work)
       (ArithmeticOverflow SiteConstructionWork)) (\<lambda>admitted_planning_work.
     rbind (enforce_work ConstructionWork admitted_planning_work (max_construction_work limits)) (\<lambda>_.
     rbind (preflight_dimensions sizes caps raw limits planning) (\<lambda>(dims, planning).
     rbind (ensure_planning_complete admitted_planning_work (pm_consumed planning)) (\<lambda>_.
     rbind (construction_work_new dims (seed\<lparr>cs_planning_work := pm_consumed planning\<rparr>)) (\<lambda>work.
     rbind (admit_prospective sizes dims work limits) (\<lambda>_.
     seal_program sizes reserve sha256 kind raw limits dims work)))))))))))"

definition validate ::
  "layout \<Rightarrow> vec_capacities \<Rightarrow> (nat \<Rightarrow> nat option) \<Rightarrow> (bytes \<Rightarrow> bytes) \<Rightarrow> output_kind
     \<Rightarrow> raw_program \<Rightarrow> validate_limits \<Rightarrow> validate_error + validated_program" where
  "validate sizes caps reserve sha256 kind raw limits =
     validate_accounted sizes caps reserve sha256 kind raw limits seed_default"

section \<open>Resource failures\<close>

named_theorems resource_intros \<open>computations that fail with resource errors only\<close>

lemma resource_bind [resource_intros]:
  "safe R m (\<lambda>x. safe R (f x) Q) \<Longrightarrow> safe R (rbind m f) Q"
  by simp

lemma resource_return [resource_intros]: "Q x \<Longrightarrow> safe R (Inr x) Q"
  by simp

lemma resource_ok_or [resource_intros]:
  "(\<And>y. x = Some y \<Longrightarrow> Q y) \<Longrightarrow> safe is_resource (ok_or x (ArithmeticOverflow site)) Q"
  by (cases x) auto

lemma resource_count [resource_intros]:
  "(n \<le> limit \<Longrightarrow> Q n) \<Longrightarrow> safe is_resource (enforce_count resource n limit) Q"
  by (simp add: enforce_count_def)

lemma resource_work [resource_intros]:
  "(n \<le> limit \<Longrightarrow> Q ()) \<Longrightarrow> safe is_resource (enforce_work resource n limit) Q"
  by (simp add: enforce_work_def)

lemma resource_charge [resource_intros]:
  assumes "\<And>p'. planning_charge n p = Inr p' \<Longrightarrow> Q p'"
  shows "safe is_resource (planning_charge n p) Q"
proof (rule safe_post)
  show "safe is_resource (planning_charge n p) (\<lambda>_. True)"
    unfolding planning_charge_def planning_admit_def by (intro resource_intros TrueI)
qed (rule assms)

lemma resource_pair [resource_intros]:
  "(\<And>a b. x = (a, b) \<Longrightarrow> safe R (f a b) Q) \<Longrightarrow> safe R (case x of (a, b) \<Rightarrow> f a b) Q"
  by (cases x) auto

lemma resource_loop: "(\<And>x s. safe R (f x s) (\<lambda>_. True)) \<Longrightarrow> safe R (rfold f xs s) (\<lambda>_. True)"
  by (rule safe_rfold) auto


lemma resource_scratch: "safe is_resource (validation_scratch_bytes sizes) (\<lambda>_. True)"
  unfolding validation_scratch_bytes_def by (intro resource_intros TrueI)

lemma resource_control: "safe is_resource (phase_control_inline_bytes sizes) (\<lambda>_. True)"
  unfolding phase_control_inline_bytes_def by (intro resource_intros TrueI)

lemma resource_peaks: "safe is_resource (phase_peaks_of sizes dims capacity retained) (\<lambda>_. True)"
  unfolding phase_peaks_of_def
  by (intro resource_intros TrueI resource_scratch [THEN safe_mono] resource_control [THEN safe_mono])

lemma resource_accounting_safe:
  "safe is_resource (resource_accounting_of sizes dims work capacity actual) (\<lambda>_. True)"
  unfolding resource_accounting_of_def
  by (intro resource_intros TrueI resource_scratch [THEN safe_mono] resource_peaks [THEN safe_mono])

lemma resource_admit: "safe is_resource (admit_accounting accounting limits) (\<lambda>_. True)"
  unfolding admit_accounting_def by (intro resource_intros TrueI)

lemma resource_prospective: "safe is_resource (admit_prospective sizes dims work limits) (\<lambda>_. True)"
  unfolding admit_prospective_def
  by (intro resource_intros TrueI resource_accounting_safe [THEN safe_mono] resource_admit [THEN safe_mono])

lemma resource_construction: "safe is_resource (construction_work_new dims seed) (\<lambda>_. True)"
  unfolding construction_work_new_def by (intro resource_intros TrueI)

lemma resource_envelope: "safe is_resource (raw_metadata_planning_envelope blocks data) (\<lambda>_. True)"
  "safe is_resource (envelope_total envelope) (\<lambda>_. True)"
  unfolding raw_metadata_planning_envelope_def envelope_total_def by (intro resource_intros TrueI)+

lemma resource_shape_counts:
  "safe is_resource (admit_raw_shape_counts raw limits)
     (\<lambda>_. length (raw_blocks raw) \<le> hard_max_blocks \<and> length (raw_data raw) \<le> hard_max_blocks)"
  unfolding admit_raw_shape_counts_def by (intro resource_intros conjI)

lemma resource_finish: "safe is_resource (census_finish census data_bytes limits) (\<lambda>_. True)"
  unfolding census_finish_def by (intro resource_intros TrueI) simp

lemma resource_block_step: "safe is_resource (block_census_step op st) (\<lambda>_. True)"
  unfolding block_census_step_def by (intro resource_intros TrueI)

lemma resource_data_step: "safe is_resource (data_census_step caps limits entry st) (\<lambda>_. True)"
proof -
  have "safe is_resource (blob_capacity_step caps limits i blob st) (\<lambda>_. True)" for i blob st
    unfolding blob_capacity_step_def by (cases blob) (simp_all only: data_blob.case, (intro resource_intros TrueI)+)
  note capacity = this [THEN safe_mono]
  show ?thesis unfolding data_census_step_def by (intro resource_intros TrueI capacity)
qed

lemma resource_scan: "safe is_resource (scan_step blobs entry st) (\<lambda>_. True)"
proof -
  have "safe is_resource (compare_step blob prior st) (\<lambda>_. True)" for blob prior st
    unfolding compare_step_def blob_compare_work_def by (intro resource_intros TrueI)
  note this [THEN resource_loop, intro]
  show ?thesis unfolding scan_step_def
    by (intro resource_intros) (auto intro: resource_ok_or)
qed

lemma resource_upper_bound: "safe is_resource (validation_work_upper_bound raw planning) (\<lambda>_. True)"
  unfolding validation_work_upper_bound_def validation_work_formula_def
  by (intro resource_intros TrueI resource_loop [OF resource_scan, THEN safe_mono])

lemma resource_preflight: "safe is_resource (preflight_dimensions sizes caps raw limits planning) (\<lambda>_. True)"
  unfolding preflight_dimensions_def fixed_shape_validation_work_upper_bound_def validation_work_formula_def
  by (intro resource_intros TrueI resource_scratch [THEN safe_mono] resource_finish [THEN safe_mono]
      resource_upper_bound [THEN safe_mono] resource_loop [OF resource_block_step, THEN safe_mono]
      resource_loop [OF resource_data_step, THEN safe_mono])


section \<open>Serialization\<close>

lemma serialize_safe:
  assumes fits: "lengths_fit raw" and size: "expected = length (encode raw)" "expected \<le> usize_max"
    and allocator: "\<And>n capacity. reserve n = Some capacity \<Longrightarrow> n \<le> capacity"
    and admit: "\<And>capacity. safe is_resource (admit_capacity capacity) (\<lambda>_. True)"
  shows "safe is_resource (kir_serialize reserve sha256 raw expected max_capacity admit_capacity) (\<lambda>_. True)"
proof (cases "reserve expected")
  case (Some capacity)
  obtain w where w: "write_program raw (writer_new (replicate expected 0)) = Inr w" "writer_finish w = Inr ()"
    using write_all_iff [OF size(2), of raw] fits size(1) by blast
  show ?thesis
    using allocator [OF Some] admit [of capacity]
    by (simp add: kir_serialize_def Some w)
qed (simp add: kir_serialize_def)

lemma accounting_fields:
  assumes "resource_accounting_of sizes dims work capacity actual = Inr accounting"
  shows "ra_validation_work accounting = actual" "ra_serialized_capacity_bytes accounting = capacity"
    "ra_validation_work_upper_bound accounting = dim_validation_work_upper_bound dims"
    "ra_construction_work accounting = cw_total_upper_bound work"
    "ra_planning_work accounting = cw_planning_work work"
  using assms by (auto simp: resource_accounting_of_def rbind_eq_Inr)

lemma admitted_work:
  assumes "admit_prospective sizes dims work limits = Inr u"
  shows "dim_validation_work_upper_bound dims \<le> max_validation_work limits"
  using assms by (auto simp: admit_prospective_def rbind_eq_Inr admit_accounting_def resource_accounting_of_def)

lemma planning_exact:
  assumes "raw_metadata_planning_envelope blocks data = Inr envelope" "envelope_total envelope = Inr planned"
  shows "planned = raw_header_check_work + blocks + data + data * data"
  using assms
  by (cases data) (auto simp: raw_metadata_planning_envelope_def envelope_total_def rbind_eq_Inr bind_eq_Some_conv)


section \<open>Outcome\<close>

definition refusal :: "output_kind \<Rightarrow> raw_program \<Rightarrow> validate_error \<Rightarrow> bool" where
  "refusal kind raw e = (is_resource e \<or> (is_invalid e \<and> \<not> well_formed kind raw))"

lemma refusal_step:
  "safe is_resource m (\<lambda>_. True) \<Longrightarrow> (\<And>x. m = Inr x \<Longrightarrow> safe (refusal kind raw) (f x) Q)
     \<Longrightarrow> safe (refusal kind raw) (rbind m f) Q"
  by (cases m) (auto simp: refusal_def)

lemma refusal_phase:
  "safe (\<lambda>e. is_invalid e \<and> \<not> well_formed kind raw) m P \<Longrightarrow> (\<And>x. m = Inr x \<Longrightarrow> safe (refusal kind raw) (f x) Q)
     \<Longrightarrow> safe (refusal kind raw) (rbind m f) Q"
  by (cases m) (auto simp: refusal_def)

lemma headers_refusal: "safe (\<lambda>e. is_invalid e \<and> \<not> well_formed kind raw) (validate_headers kind raw) (\<lambda>_. True)"
  by (auto simp: validate_headers_def well_formed_def headers_ok_def)

text \<open>What preflight has established by the time the structural validator runs.\<close>

definition preflighted :: "raw_program \<Rightarrow> validate_limits \<Rightarrow> dimensions \<Rightarrow> bool" where
  "preflighted raw limits dims =
     (length (raw_blocks raw) \<le> hard_max_blocks \<and> length (raw_data raw) \<le> hard_max_blocks
      \<and> lengths_fit raw \<and> dim_serialized_bytes dims = length (encode raw)
      \<and> length (encode raw) \<le> usize_max
      \<and> dim_work_factor dims = longest_literal (raw_data raw) + 8
      \<and> dim_validation_work_upper_bound dims =
          length (raw_blocks raw) * 11 + length (raw_data raw) + data_scan_work (raw_data raw) + 11
      \<and> dim_validation_work_upper_bound dims \<le> usize_max)"

definition accepted ::
  "(bytes \<Rightarrow> bytes) \<Rightarrow> output_kind \<Rightarrow> raw_program \<Rightarrow> validate_limits \<Rightarrow> validated_program \<Rightarrow> bool" where
  "accepted sha256 kind raw limits program =
     (well_formed kind raw \<and> lengths_fit raw \<and> vp_raw program = raw
      \<and> st_work_factor (vp_stats program) = longest_literal (raw_data raw) + 8
      \<and> st_serialized_bytes (vp_stats program) = length (encode raw)
      \<and> sp_bytes (vp_serialized program) = encode raw
      \<and> sp_identity (vp_serialized program) = sha256 (encode raw)
      \<and> sp_capacity (vp_serialized program) = ra_serialized_capacity_bytes (st_resources (vp_stats program))
      \<and> ra_validation_work (st_resources (vp_stats program))
          \<le> ra_validation_work_upper_bound (st_resources (vp_stats program))
      \<and> admit_accounting (st_resources (vp_stats program)) limits = Inr ())"

lemma seal_outcome:
  assumes pre: "preflighted raw limits dims"
    and bound: "dim_validation_work_upper_bound dims \<le> max_validation_work limits"
    and allocator: "\<And>n capacity. reserve n = Some capacity \<Longrightarrow> n \<le> capacity"
  shows "safe (refusal kind raw) (seal_program sizes reserve sha256 kind raw limits dims work)
     (accepted sha256 kind raw limits)"
proof -
  let ?run = "validator_run kind (validator_new raw (val_meter_new (max_validation_work limits)))"
  note pre = pre [unfolded preflighted_def]
  have run: "phase (well_formed kind raw) ?run (\<lambda>meter. vm_consumed meter \<le> dim_validation_work_upper_bound dims)"
    by (rule validator_phases) (use pre bound in auto)
  show ?thesis
    unfolding seal_program_def
  proof (rule refusal_phase [OF run [unfolded phase_def]], intro refusal_step resource_accounting_safe resource_admit)
    fix meter accounting u
    assume ok: "?run = Inr meter"
    show "safe is_resource (kir_serialize reserve sha256 raw (dim_serialized_bytes dims)
        (max_serialized_capacity_bytes limits) (\<lambda>capacity.
          rbind (resource_accounting_of sizes dims work capacity (vm_consumed meter)) (\<lambda>accounting.
          rbind (admit_accounting accounting limits) (\<lambda>_. Inr accounting)))) (\<lambda>_. True)"
      by (rule serialize_safe [OF _ _ _ allocator])
         (use pre in \<open>auto intro!: resource_intros resource_accounting_safe [THEN safe_mono]
            resource_admit [THEN safe_mono]\<close>)
    fix x
    assume "kir_serialize reserve sha256 raw (dim_serialized_bytes dims)
        (max_serialized_capacity_bytes limits) (\<lambda>capacity.
          rbind (resource_accounting_of sizes dims work capacity (vm_consumed meter)) (\<lambda>accounting.
          rbind (admit_accounting accounting limits) (\<lambda>_. Inr accounting))) = Inr x"
    then obtain serialized final capacity where x: "x = (serialized, final)"
      and acc: "resource_accounting_of sizes dims work capacity (vm_consumed meter) = Inr final"
      and admit: "admit_accounting final limits = Inr ()"
      and ser: "serialized = \<lparr>sp_bytes = encode raw, sp_capacity = capacity, sp_identity = sha256 (encode raw)\<rparr>"
      using pre by (cases x) (auto simp: kir_serialize_Inr rbind_eq_Inr)
    have "well_formed kind raw" "vm_consumed meter \<le> dim_validation_work_upper_bound dims"
      using run ok by (auto simp: phase_def)
    then show "safe (refusal kind raw) (case x of (serialized, accounting) \<Rightarrow>
     Inr \<lparr>vp_raw = raw,
          vp_stats = \<lparr>st_blocks = length (raw_blocks raw), st_instructions = length (raw_blocks raw),
            st_data_blobs = length (raw_data raw), st_data_bytes = dim_data_bytes dims,
            st_serialized_bytes = dim_serialized_bytes dims,
            st_estimated_code_bytes = dim_estimated_code_bytes dims,
            st_work_factor = dim_work_factor dims, st_resources = accounting\<rparr>,
          vp_serialized = serialized\<rparr>) (accepted sha256 kind raw limits)"
      using accounting_fields [OF acc] admit pre by (simp add: x ser accepted_def)
  qed
qed

lemma validate_accounted_outcome:
  assumes allocator: "\<And>n capacity. reserve n = Some capacity \<Longrightarrow> n \<le> capacity"
    and wide: "max_serialized_bytes limits \<le> usize_max"
  shows "safe (refusal kind raw) (validate_accounted sizes caps reserve sha256 kind raw limits seed)
    (accepted sha256 kind raw limits)"
  unfolding validate_accounted_def
proof (rule refusal_step, rule resource_charge, rule TrueI, rule refusal_phase [OF headers_refusal],
    intro refusal_step resource_shape_counts [THEN safe_mono] resource_envelope resource_preflight TrueI resource_ok_or resource_work)
  fix planning envelope metadata_work planned u x
  assume charge: "planning_charge raw_header_check_work
      (planning_new (cs_planning_work seed) (max_construction_work limits)) = Inr planning"
    and counts: "admit_raw_shape_counts raw limits = Inr u"
    and envelope: "raw_metadata_planning_envelope (length (raw_blocks raw)) (length (raw_data raw)) = Inr envelope"
    "envelope_total envelope = Inr metadata_work"
    "ok_or (uadd (cs_planning_work seed) metadata_work) (ArithmeticOverflow SiteConstructionWork) = Inr planned"
    and flight: "preflight_dimensions sizes caps raw limits planning = Inr x"
  obtain dims planning' where x: "x = (dims, planning')" by (cases x)
  note flight = flight [unfolded x]
  have planned: "planned = pm_consumed planning'"
    using planning_exact [OF envelope(1,2)] envelope(3) charge preflight_success(9) [OF flight]
    by (auto simp: planning_new_def)
  have small: "length (raw_blocks raw) \<le> hard_max_blocks" "length (raw_data raw) \<le> hard_max_blocks"
    using resource_shape_counts [of raw limits] counts by simp_all
  have "lengths_fit raw"
    using small preflight_success(10) [OF flight] by (simp add: lengths_fit_def hard_max_blocks_def u32_max_def)
  then have pre: "preflighted raw limits dims"
    using preflight_success [OF flight] small wide by (simp add: preflighted_def)
  show "safe (refusal kind raw) (case x of (dims, planning) \<Rightarrow>
     rbind (ensure_planning_complete planned (pm_consumed planning)) (\<lambda>_.
     rbind (construction_work_new dims (seed\<lparr>cs_planning_work := pm_consumed planning\<rparr>)) (\<lambda>work.
     rbind (admit_prospective sizes dims work limits) (\<lambda>_.
     seal_program sizes reserve sha256 kind raw limits dims work)))) (accepted sha256 kind raw limits)"
    unfolding x prod.case
    by (intro refusal_step resource_construction resource_prospective seal_outcome [OF pre] admitted_work allocator)
       (auto simp: ensure_planning_complete_def planned)
qed

end
