(* ===== verification/KirLower.thy ===== *)
theory KirLower
  imports KirValidate
begin

text \<open>
  The builders of \<^verbatim>\<open>lower.rs\<close>: fixed-shape preflight, the observed reservations of the literal, the
  block table and the data table, and the two canonical programs. A reservation is a parameter:
  an \<open>allocation\<close> gives, for each of the four vectors a construction reserves, the capacity
  the allocator returns for a requested length, or nothing.
\<close>

section \<open>Results\<close>

definition lift_validate :: "validate_error + 'a \<Rightarrow> build_error + 'a" where
  "lift_validate m = (case m of Inl e \<Rightarrow> Inl (BuildValidate e) | Inr x \<Rightarrow> Inr x)"

definition build_arithmetic :: "arithmetic_site \<Rightarrow> build_error" where
  "build_arithmetic site = BuildValidate (ArithmeticOverflow site)"

definition build_enforce :: "kir_resource \<Rightarrow> nat \<Rightarrow> nat \<Rightarrow> build_error + unit" where
  "build_enforce resource required limit =
     (if required > limit then Inl (BuildValidate (KirResourceLimit resource limit required)) else Inr ())"

definition padded_length :: "nat \<Rightarrow> build_error + nat" where
  "padded_length len = rbind (ok_or (uadd len 15) (build_arithmetic SiteEstimatedCodeBytes)) (\<lambda>n. Inr (align16 n))"

definition shape_work_factor :: "nat \<Rightarrow> build_error + nat" where
  "shape_work_factor len = ok_or (uadd len 8) (build_arithmetic SiteWorkFactor)"

section \<open>Fixed-shape preflight\<close>

record shape_dimensions =
  sd_blocks :: nat
  sd_data_blobs :: nat
  sd_data_bytes :: nat
  sd_literal_bytes :: nat
  sd_serialized_bytes :: nat
  sd_code_bytes :: nat
  sd_work_factor :: nat
  sd_data_scan_work :: nat
  sd_planning_work :: nat

definition preflight_shape ::
  "layout \<Rightarrow> shape_dimensions \<Rightarrow> validate_limits \<Rightarrow> nat \<Rightarrow> nat \<Rightarrow> nat \<Rightarrow> build_error + fixed_shape_admission" where
  "preflight_shape sizes shape limits additional_hash_invocations additional_hash_work additional_retained_bytes =
     rbind (build_enforce Blocks (sd_blocks shape) (max_blocks limits)) (\<lambda>_.
     rbind (build_enforce Instructions (sd_blocks shape) (max_instructions limits)) (\<lambda>_.
     rbind (build_enforce DataBlobs (sd_data_blobs shape) (max_data_blobs limits)) (\<lambda>_.
     rbind (build_enforce DataBytes (sd_data_bytes shape) (max_data_bytes limits)) (\<lambda>_.
     rbind (build_enforce SerializedBytes (sd_serialized_bytes shape) (max_serialized_bytes limits)) (\<lambda>_.
     rbind (build_enforce SerializedCapacityBytes (sd_serialized_bytes shape)
       (max_serialized_capacity_bytes limits)) (\<lambda>_.
     rbind (build_enforce EstimatedCodeBytes (sd_code_bytes shape) (max_estimated_code_bytes limits)) (\<lambda>_.
     if sd_work_factor shape > max_work_factor limits
     then Inl (BuildValidate (KirResourceLimit WorkFactor (max_work_factor limits) (sd_work_factor shape)))
     else
     rbind (ok_or (umul (sd_blocks shape) (sz_block sizes))
       (build_arithmetic SiteConstructionAllocationBytes)) (\<lambda>block_allocation_request_bytes.
     rbind (ok_or (umul (sd_data_blobs shape) (sz_data_blob sizes))
       (build_arithmetic SiteConstructionAllocationBytes)) (\<lambda>data_table_allocation_request_bytes.
     rbind (ok_or (uadds (sd_literal_bytes shape)
         [block_allocation_request_bytes, data_table_allocation_request_bytes])
       (build_arithmetic SiteConstructionAllocationBytes)) (\<lambda>raw_allocation_request_bytes.
     rbind (lift_validate (fixed_shape_validation_work_upper_bound (sd_blocks shape) (sd_data_blobs shape)
       (sd_data_scan_work shape))) (\<lambda>work_upper_bound.
     rbind (lift_validate (fixed_shape_new (sd_blocks shape) (sd_data_blobs shape) (sd_serialized_bytes shape) 3
       (sd_literal_bytes shape) block_allocation_request_bytes data_table_allocation_request_bytes
       (sd_planning_work shape) raw_allocation_request_bytes (sd_literal_bytes shape) work_upper_bound
       additional_hash_invocations additional_hash_work additional_retained_bytes)) (\<lambda>admission.
     rbind (lift_validate (fixed_shape_admit sizes admission raw_allocation_request_bytes limits)) (\<lambda>_.
     Inr admission)))))))))))))"

section \<open>Reservations\<close>

record allocation =
  al_literal :: "nat \<Rightarrow> nat option"
  al_blocks :: "nat \<Rightarrow> nat option"
  al_data :: "nat \<Rightarrow> nat option"
  al_serialized :: "nat \<Rightarrow> nat option"

text \<open>The empty vector \<^verbatim>\<open>reserved_bytes\<close> returns is its capacity.\<close>

definition reserved_bytes ::
  "layout \<Rightarrow> (nat \<Rightarrow> nat option) \<Rightarrow> nat \<Rightarrow> nat \<Rightarrow> nat \<Rightarrow> fixed_shape_admission \<Rightarrow> validate_limits
     \<Rightarrow> build_error + nat \<times> nat" where
  "reserved_bytes sizes reserve len prior_raw_capacity remaining_minimum_capacity admission limits =
     rbind (ok_or (reserve len) (BuildAllocationFailed DataBytes)) (\<lambda>capacity.
     rbind (ok_or (uadd prior_raw_capacity capacity) (build_arithmetic SitePhasePeakBytes)) (\<lambda>raw_capacity.
     rbind (ok_or (uadd raw_capacity remaining_minimum_capacity)
       (build_arithmetic SitePhasePeakBytes)) (\<lambda>projected_capacity.
     rbind (lift_validate (fixed_shape_admit sizes admission projected_capacity limits)) (\<lambda>_.
     if capacity < len
     then Inl (BuildValidate (ConstructionLengthMismatch DataBytes len capacity))
     else Inr (capacity, raw_capacity)))))"

definition initialize_bytes :: "nat \<Rightarrow> bytes \<Rightarrow> build_error + bytes" where
  "initialize_bytes capacity source =
     (if capacity < length source
      then Inl (BuildValidate (ConstructionLengthMismatch DataBytes (length source) capacity))
      else Inr source)"

record 'a fixed_vec =
  fv_values :: "'a list"
  fv_capacity :: nat
  fv_expected :: nat
  fv_resource :: kir_resource

definition reserved_vec ::
  "layout \<Rightarrow> (nat \<Rightarrow> nat option) \<Rightarrow> nat \<Rightarrow> nat \<Rightarrow> kir_resource \<Rightarrow> nat \<Rightarrow> nat \<Rightarrow> fixed_shape_admission
     \<Rightarrow> validate_limits \<Rightarrow> build_error + 'a fixed_vec \<times> nat" where
  "reserved_vec sizes reserve item_size len resource prior_raw_capacity remaining_minimum_capacity
     admission limits =
     rbind (ok_or (reserve len) (BuildAllocationFailed resource)) (\<lambda>capacity.
     rbind (ok_or (umul capacity item_size) (build_arithmetic SitePhasePeakBytes)) (\<lambda>capacity_bytes.
     rbind (ok_or (uadd prior_raw_capacity capacity_bytes)
       (build_arithmetic SitePhasePeakBytes)) (\<lambda>raw_capacity.
     rbind (ok_or (uadd raw_capacity remaining_minimum_capacity)
       (build_arithmetic SitePhasePeakBytes)) (\<lambda>projected_capacity.
     rbind (lift_validate (fixed_shape_admit sizes admission projected_capacity limits)) (\<lambda>_.
     Inr (\<lparr>fv_values = [], fv_capacity = capacity, fv_expected = len, fv_resource = resource\<rparr>,
          raw_capacity))))))"

definition allocation_bytes :: "nat \<Rightarrow> nat \<Rightarrow> build_error + nat" where
  "allocation_bytes item_size len = ok_or (umul len item_size) (build_arithmetic SiteConstructionAllocationBytes)"

definition fixed_push :: "'a \<Rightarrow> 'a fixed_vec \<Rightarrow> build_error + 'a fixed_vec" where
  "fixed_push item vec =
     rbind (ok_or (uadd (length (fv_values vec)) 1) (build_arithmetic SiteConstructionWork)) (\<lambda>attempted.
     if attempted > fv_expected vec \<or> attempted > fv_capacity vec
     then Inl (BuildValidate (ConstructionLengthMismatch (fv_resource vec) (fv_expected vec) attempted))
     else Inr (vec\<lparr>fv_values := fv_values vec @ [item]\<rparr>))"

definition fixed_finish :: "'a fixed_vec \<Rightarrow> build_error + 'a list" where
  "fixed_finish vec =
     (if length (fv_values vec) \<noteq> fv_expected vec
      then Inl (BuildValidate (ConstructionLengthMismatch (fv_resource vec) (fv_expected vec) (length (fv_values vec))))
      else Inr (fv_values vec))"

section \<open>Builders\<close>

definition raw_program_of :: "output_kind \<Rightarrow> block_op list \<Rightarrow> data_blob list \<Rightarrow> raw_program" where
  "raw_program_of kind blocks blobs = \<lparr>schema_version = raw_schema_version, semantics = semantics_current,
     abi = abi_current, raw_output = kind, raw_entry = BlockId 0, raw_blocks = blocks, raw_data = blobs\<rparr>"

definition build_exact_literal_accounted ::
  "layout \<Rightarrow> allocation \<Rightarrow> (bytes \<Rightarrow> bytes) \<Rightarrow> output_kind \<Rightarrow> bytes \<Rightarrow> anchor_flags \<Rightarrow> validate_limits
     \<Rightarrow> nat \<Rightarrow> nat \<Rightarrow> nat \<Rightarrow> build_error + validated_program" where
  "build_exact_literal_accounted sizes alloc sha256 kind literal anchors limits
     additional_hash_invocations additional_hash_work additional_retained_bytes =
     rbind (build_enforce DataBytes (length literal) u32_max) (\<lambda>_.
     rbind (build_enforce DataBytes (length literal) (max_data_bytes limits)) (\<lambda>_.
     rbind (padded_length (length literal)) (\<lambda>padded.
     rbind (ok_or (uadd (length literal) 53) (build_arithmetic SiteSerializedBytes)) (\<lambda>serialized_bytes.
     rbind (ok_or (uadd padded 240) (build_arithmetic SiteEstimatedCodeBytes)) (\<lambda>code_bytes.
     rbind (shape_work_factor (length literal)) (\<lambda>work_factor.
     rbind (preflight_shape sizes \<lparr>sd_blocks = 4, sd_data_blobs = 1, sd_data_bytes = length literal,
         sd_literal_bytes = length literal, sd_serialized_bytes = serialized_bytes,
         sd_code_bytes = code_bytes, sd_work_factor = work_factor, sd_data_scan_work = 0,
         sd_planning_work = 0\<rparr> limits additional_hash_invocations additional_hash_work
         additional_retained_bytes) (\<lambda>admission.
     rbind (allocation_bytes (sz_block sizes) 4) (\<lambda>block_request.
     rbind (allocation_bytes (sz_data_blob sizes) 1) (\<lambda>data_request.
     rbind (ok_or (uadd block_request data_request)
       (build_arithmetic SiteConstructionAllocationBytes)) (\<lambda>after_literal_minimum.
     rbind (reserved_bytes sizes (al_literal alloc) (length literal) 0 after_literal_minimum admission limits)
       (\<lambda>(literal_storage, literal_capacity).
     rbind (reserved_vec sizes (al_blocks alloc) (sz_block sizes) 4 Blocks literal_capacity data_request
         admission limits) (\<lambda>(blocks, block_capacity).
     rbind (reserved_vec sizes (al_data alloc) (sz_data_blob sizes) 1 DataBlobs block_capacity 0
         admission limits) (\<lambda>(blobs, _).
     rbind (initialize_bytes literal_storage literal) (\<lambda>literal.
     rbind (fixed_push (Entry (BlockId 1)) blocks) (\<lambda>blocks.
     rbind (fixed_push (ScanLiteral (DataId 0) anchors (BlockId 2) (BlockId 3)) blocks) (\<lambda>blocks.
     rbind (fixed_push ReturnFound blocks) (\<lambda>blocks.
     rbind (fixed_push ReturnNone blocks) (\<lambda>blocks.
     rbind (fixed_finish blocks) (\<lambda>block_list.
     rbind (fixed_push (Bytes literal) blobs) (\<lambda>blobs.
     rbind (fixed_finish blobs) (\<lambda>data_list.
     lift_validate (validate_accounted sizes
       \<lparr>cap_blocks = fv_capacity blocks, cap_data = fv_capacity blobs, cap_literal = (\<lambda>_. literal_storage)\<rparr>
       (al_serialized alloc) sha256 kind (raw_program_of kind block_list data_list) limits
       (fs_seed admission)))))))))))))))))))))))"

definition build_exact_literal ::
  "layout \<Rightarrow> allocation \<Rightarrow> (bytes \<Rightarrow> bytes) \<Rightarrow> output_kind \<Rightarrow> bytes \<Rightarrow> anchor_flags \<Rightarrow> validate_limits
     \<Rightarrow> build_error + validated_program" where
  "build_exact_literal sizes alloc sha256 kind literal anchors limits =
     build_exact_literal_accounted sizes alloc sha256 kind literal anchors limits 0 0 0"

definition build_class_suffix ::
  "layout \<Rightarrow> allocation \<Rightarrow> (bytes \<Rightarrow> bytes) \<Rightarrow> output_kind \<Rightarrow> byte_class \<Rightarrow> bytes \<Rightarrow> anchor_flags
     \<Rightarrow> validate_limits \<Rightarrow> build_error + validated_program" where
  "build_class_suffix sizes alloc sha256 kind cls suffix anchors limits =
     rbind (build_enforce DataBytes (length suffix) u32_max) (\<lambda>_.
     rbind (build_enforce DataBytes (length suffix) (max_data_bytes limits)) (\<lambda>_.
     case suffix of
       [] \<Rightarrow> Inl (BuildValidate (Invalid (EmptySuffix 1)))
     | first # rest \<Rightarrow>
     rbind (ok_or (uadd (length suffix) 32) (BuildValidate (ArithmeticOverflow SiteDataBytes))) (\<lambda>required.
     rbind (padded_length (length suffix)) (\<lambda>padded.
     rbind (ok_or (uadd (length suffix) 118) (build_arithmetic SiteSerializedBytes)) (\<lambda>serialized_bytes.
     rbind (ok_or (uadd padded 624) (build_arithmetic SiteEstimatedCodeBytes)) (\<lambda>code_bytes.
     rbind (shape_work_factor (length suffix)) (\<lambda>work_factor.
     rbind (preflight_shape sizes \<lparr>sd_blocks = 7, sd_data_blobs = 2, sd_data_bytes = required,
         sd_literal_bytes = length suffix, sd_serialized_bytes = serialized_bytes,
         sd_code_bytes = code_bytes, sd_work_factor = work_factor, sd_data_scan_work = 6,
         sd_planning_work = 6\<rparr> limits 0 0 0) (\<lambda>admission.
     if class_is_empty cls then Inl (BuildValidate (Invalid (EmptyClass 0)))
     else if contains cls first then Inl (BuildValidate (Invalid (SuffixOverlapsClass 0 1)))
     else
     rbind (allocation_bytes (sz_block sizes) 7) (\<lambda>block_request.
     rbind (allocation_bytes (sz_data_blob sizes) 2) (\<lambda>data_request.
     rbind (ok_or (uadd block_request data_request)
       (build_arithmetic SiteConstructionAllocationBytes)) (\<lambda>after_suffix_minimum.
     rbind (reserved_bytes sizes (al_literal alloc) (length suffix) 0 after_suffix_minimum admission limits)
       (\<lambda>(suffix_storage, suffix_capacity).
     rbind (reserved_vec sizes (al_blocks alloc) (sz_block sizes) 7 Blocks suffix_capacity data_request
         admission limits) (\<lambda>(blocks, block_capacity).
     rbind (reserved_vec sizes (al_data alloc) (sz_data_blob sizes) 2 DataBlobs block_capacity 0
         admission limits) (\<lambda>(blobs, _).
     rbind (initialize_bytes suffix_storage suffix) (\<lambda>suffix.
     rbind (fixed_push (Entry (BlockId 1)) blocks) (\<lambda>blocks.
     rbind (fixed_push (ScanClassStart (DataId 0) (anchor_start anchors) (BlockId 2) (BlockId 6)) blocks) (\<lambda>blocks.
     rbind (fixed_push (ExtendClassRun (DataId 0) (BlockId 3)) blocks) (\<lambda>blocks.
     rbind (fixed_push (ConfirmSuffix (DataId 1) (anchor_end anchors) (BlockId 5) (BlockId 4)) blocks) (\<lambda>blocks.
     rbind (fixed_push (AdvanceAfterReject (BlockId 1)) blocks) (\<lambda>blocks.
     rbind (fixed_push ReturnFound blocks) (\<lambda>blocks.
     rbind (fixed_push ReturnNone blocks) (\<lambda>blocks.
     rbind (fixed_finish blocks) (\<lambda>block_list.
     rbind (fixed_push (Class cls) blobs) (\<lambda>blobs.
     rbind (fixed_push (Bytes suffix) blobs) (\<lambda>blobs.
     rbind (fixed_finish blobs) (\<lambda>data_list.
     lift_validate (validate_accounted sizes
       \<lparr>cap_blocks = fv_capacity blocks, cap_data = fv_capacity blobs, cap_literal = (\<lambda>_. suffix_storage)\<rparr>
       (al_serialized alloc) sha256 kind (raw_program_of kind block_list data_list) limits
       (fs_seed admission))))))))))))))))))))))))))))"

section \<open>Failures\<close>

fun build_resource :: "build_error \<Rightarrow> bool" where
  "build_resource (BuildValidate e) = is_resource e"
| "build_resource (BuildAllocationFailed _) = True"

named_theorems build_intros \<open>builder steps that fail with resource errors only\<close>

lemmas [build_intros] = resource_bind resource_return resource_pair

lemma build_ok_or [build_intros]:
  "(\<And>y. x = Some y \<Longrightarrow> Q y) \<Longrightarrow> safe build_resource (ok_or x (build_arithmetic site)) Q"
  by (cases x) (auto simp: build_arithmetic_def)

lemma build_enforce_safe [build_intros]:
  "(n \<le> limit \<Longrightarrow> Q ()) \<Longrightarrow> safe build_resource (build_enforce resource n limit) Q"
  by (auto simp: build_enforce_def)

lemma build_lift: "safe is_resource m Q \<Longrightarrow> safe build_resource (lift_validate m) Q"
  by (cases m) (auto simp: lift_validate_def)

lemma build_padded [build_intros]:
  "(\<And>n. Q n) \<Longrightarrow> safe build_resource (padded_length len) Q"
  unfolding padded_length_def by (intro build_intros)

lemma build_work_factor [build_intros]:
  "(\<And>n. Q n) \<Longrightarrow> safe build_resource (shape_work_factor len) Q"
  unfolding shape_work_factor_def by (intro build_intros)

lemma build_allocation_bytes [build_intros]:
  "(\<And>n. Q n) \<Longrightarrow> safe build_resource (allocation_bytes item_size len) Q"
  unfolding allocation_bytes_def by (intro build_intros)

lemma resource_fixed_admit: "safe is_resource (fixed_shape_admit sizes admission capacity limits) (\<lambda>_. True)"
  unfolding fixed_shape_admit_def Let_def
  by (intro resource_intros TrueI resource_construction [THEN safe_mono] resource_prospective [THEN safe_mono])

lemma resource_fixed_new:
  "safe is_resource (fixed_shape_new b d s r l bb db p i c w hi hw ret) (\<lambda>_. True)"
  unfolding fixed_shape_new_def
  by (intro resource_intros TrueI resource_envelope [THEN safe_mono])

lemma build_admit [build_intros]:
  "(\<And>u. Q u) \<Longrightarrow> safe build_resource (lift_validate (fixed_shape_admit sizes admission capacity limits)) Q"
  by (intro build_lift resource_fixed_admit [THEN safe_mono])

lemma build_preflight [build_intros]:
  assumes "\<And>admission. Q admission"
  shows "safe build_resource (preflight_shape sizes shape limits hi hw ret) Q"
proof -
  have "safe build_resource (preflight_shape sizes shape limits hi hw ret) (\<lambda>_. True)"
    unfolding preflight_shape_def fixed_shape_validation_work_upper_bound_def validation_work_formula_def
    by (intro build_intros; simp; intro conjI impI build_intros build_lift resource_fixed_new [THEN safe_mono]
        resource_intros TrueI)
  then show ?thesis by (rule safe_mono) (rule assms)
qed

text \<open>An allocator never returns less than what was asked for.\<close>

definition allocator_ok :: "(nat \<Rightarrow> nat option) \<Rightarrow> bool" where
  "allocator_ok reserve = (\<forall>n capacity. reserve n = Some capacity \<longrightarrow> n \<le> capacity)"

definition allocation_ok :: "allocation \<Rightarrow> bool" where
  "allocation_ok alloc = (allocator_ok (al_literal alloc) \<and> allocator_ok (al_blocks alloc)
     \<and> allocator_ok (al_data alloc) \<and> allocator_ok (al_serialized alloc))"

lemma build_alloc: "(\<And>y. x = Some y \<Longrightarrow> Q y) \<Longrightarrow> safe build_resource (ok_or x (BuildAllocationFailed r)) Q"
  by (cases x) auto

lemma build_reserved_bytes:
  assumes "allocator_ok reserve" "\<And>capacity total. len \<le> capacity \<Longrightarrow> Q (capacity, total)"
  shows "safe build_resource (reserved_bytes sizes reserve len prior remaining admission limits) Q"
  unfolding reserved_bytes_def
  by (intro build_intros build_alloc) (use assms in \<open>auto simp: allocator_ok_def not_less\<close>)

lemma build_reserved_vec:
  assumes "allocator_ok reserve"
    "\<And>capacity total. len \<le> capacity \<Longrightarrow>
       Q (\<lparr>fv_values = [], fv_capacity = capacity, fv_expected = len, fv_resource = resource\<rparr>, total)"
  shows "safe build_resource (reserved_vec sizes reserve item_size len resource prior remaining admission limits) Q"
  unfolding reserved_vec_def
  by (intro build_intros build_alloc) (use assms in \<open>auto simp: allocator_ok_def\<close>)

section \<open>The canonical programs\<close>

definition literal_raw :: "output_kind \<Rightarrow> bytes \<Rightarrow> anchor_flags \<Rightarrow> raw_program" where
  "literal_raw kind literal anchors = raw_program_of kind
     [Entry (BlockId 1), ScanLiteral (DataId 0) anchors (BlockId 2) (BlockId 3), ReturnFound, ReturnNone]
     [Bytes literal]"

definition class_raw :: "output_kind \<Rightarrow> byte_class \<Rightarrow> bytes \<Rightarrow> anchor_flags \<Rightarrow> raw_program" where
  "class_raw kind cls suffix anchors = raw_program_of kind
     [Entry (BlockId 1), ScanClassStart (DataId 0) (anchor_start anchors) (BlockId 2) (BlockId 6),
      ExtendClassRun (DataId 0) (BlockId 3),
      ConfirmSuffix (DataId 1) (anchor_end anchors) (BlockId 5) (BlockId 4),
      AdvanceAfterReject (BlockId 1), ReturnFound, ReturnNone]
     [Class cls, Bytes suffix]"

lemma literal_canonical: "canonical (literal_raw kind literal anchors) (LiteralShape literal anchors)"
proof -
  have "literal_program (literal_raw kind literal anchors) literal anchors (DataId 0)
      (BlockId 1) (BlockId 2) (BlockId 3)"
    by (simp add: literal_raw_def raw_program_of_def literal_program_def block_at_def blob_at_def)
  moreover have "length (raw_blocks (literal_raw kind literal anchors)) = 4"
    by (simp add: literal_raw_def raw_program_of_def)
  ultimately show ?thesis unfolding canonical.simps program_shape.simps by blast
qed

lemma class_canonical:
  assumes "suffix \<noteq> []" "\<not> contains cls (hd suffix)"
  shows "canonical (class_raw kind cls suffix anchors) (ClassSuffixShape cls suffix anchors)"
proof -
  have "class_program (class_raw kind cls suffix anchors) cls suffix anchors (DataId 0) (DataId 1)
      (BlockId 1) (BlockId 2) (BlockId 3) (BlockId 4) (BlockId 5) (BlockId 6)"
    using assms by (simp add: class_raw_def raw_program_of_def class_program_def block_at_def blob_at_def)
  moreover have "length (raw_blocks (class_raw kind cls suffix anchors)) = 7"
    by (simp add: class_raw_def raw_program_of_def)
  ultimately show ?thesis unfolding canonical.simps program_shape.simps by blast
qed

lemma closed_step:
  assumes "closed_except raw (\<lambda>_. True) {} S" "i \<in> S" "i < length (raw_blocks raw)"
    "s \<in> set (successors (raw_blocks raw ! i))"
  shows "block_index s \<in> S"
  using assms by (auto simp: closed_except_def)

lemma literal_reachable: "all_reachable (literal_raw kind literal anchors)"
  unfolding all_reachable_def
proof (intro allI impI)
  let ?raw = "literal_raw kind literal anchors"
  fix S assume entry: "block_index (raw_entry ?raw) \<in> S" and "closed_except ?raw (\<lambda>_. True) {} S"
  note step = closed_step [OF this(2)]
  have "0 \<in> S" using entry by (simp add: literal_raw_def raw_program_of_def block_index_def)
  moreover from step [OF this, of "BlockId 1"] have "1 \<in> S"
    by (simp add: literal_raw_def raw_program_of_def block_index_def)
  moreover from step [OF this, of "BlockId 2"] step [OF this, of "BlockId 3"] have "2 \<in> S" "3 \<in> S"
    by (simp_all add: literal_raw_def raw_program_of_def block_index_def)
  ultimately show "{..<length (raw_blocks ?raw)} \<subseteq> S"
    by (auto simp: literal_raw_def raw_program_of_def less_Suc_eq numeral_eq_Suc)
qed

lemma class_reachable: "all_reachable (class_raw kind cls suffix anchors)"
  unfolding all_reachable_def
proof (intro allI impI)
  let ?raw = "class_raw kind cls suffix anchors"
  fix S assume entry: "block_index (raw_entry ?raw) \<in> S" and "closed_except ?raw (\<lambda>_. True) {} S"
  note step = closed_step [OF this(2)]
  have "0 \<in> S" using entry by (simp add: class_raw_def raw_program_of_def block_index_def)
  moreover from step [OF this, of "BlockId 1"] have "1 \<in> S"
    by (simp add: class_raw_def raw_program_of_def block_index_def)
  moreover from step [OF this, of "BlockId 2"] step [OF this, of "BlockId 6"] have "2 \<in> S" "6 \<in> S"
    by (simp_all add: class_raw_def raw_program_of_def block_index_def)
  moreover from step [OF this(1), of "BlockId 3"] have "3 \<in> S"
    by (simp add: class_raw_def raw_program_of_def block_index_def)
  moreover from step [OF this, of "BlockId 5"] step [OF this, of "BlockId 4"] have "4 \<in> S" "5 \<in> S"
    by (simp_all add: class_raw_def raw_program_of_def block_index_def)
  ultimately show "{..<length (raw_blocks ?raw)} \<subseteq> S"
    by (auto simp: class_raw_def raw_program_of_def less_Suc_eq numeral_eq_Suc)
qed

lemma literal_well_formed: "well_formed kind (literal_raw kind literal anchors)"
proof -
  have "topology_ok (literal_raw kind literal anchors)"
    unfolding topology_ok_def using literal_canonical by blast
  moreover have "flow_ok (literal_raw kind literal anchors)" "data_ok (literal_raw kind literal anchors)"
    by (auto simp: flow_ok_def block_ok_def edge_ok_def reference_ok_def data_ok_def used_data_def
        literal_raw_def raw_program_of_def block_index_def data_index_def)
  moreover have "headers_ok kind (literal_raw kind literal anchors)"
    by (simp add: headers_ok_def literal_raw_def raw_program_of_def)
  ultimately show ?thesis using literal_reachable by (simp add: well_formed_def)
qed

lemma class_well_formed:
  assumes "suffix \<noteq> []" "\<not> contains cls (hd suffix)" "\<not> class_is_empty cls"
  shows "well_formed kind (class_raw kind cls suffix anchors)"
proof -
  let ?raw = "class_raw kind cls suffix anchors"
  have "topology_ok ?raw" unfolding topology_ok_def using class_canonical assms by blast
  moreover have "flow_ok ?raw"
    by (auto simp: flow_ok_def block_ok_def edge_ok_def reference_ok_def
        class_raw_def raw_program_of_def block_index_def data_index_def)
  moreover have "data_ok ?raw"
    using assms(3) by (auto simp: data_ok_def used_data_def class_raw_def raw_program_of_def data_index_def less_Suc_eq)
  moreover have "headers_ok kind ?raw"
    by (simp add: headers_ok_def class_raw_def raw_program_of_def)
  ultimately show ?thesis using class_reachable by (simp add: well_formed_def)
qed

section \<open>What the builders return\<close>

lemma build_validate:
  assumes "allocator_ok reserve" "max_serialized_bytes limits \<le> usize_max" "well_formed kind raw"
  shows "safe build_resource (lift_validate (validate_accounted sizes caps reserve sha256 kind raw limits seed))
    (accepted sha256 kind raw limits)"
proof (rule build_lift, rule safe_weaken)
  show "safe (refusal kind raw) (validate_accounted sizes caps reserve sha256 kind raw limits seed)
      (accepted sha256 kind raw limits)"
    by (rule validate_accounted_outcome) (use assms in \<open>auto simp: allocator_ok_def\<close>)
qed (use assms(3) in \<open>auto simp: refusal_def\<close>)

lemma build_literal_outcome:
  assumes alloc: "allocation_ok alloc" and wide: "max_serialized_bytes limits \<le> usize_max"
  shows "safe build_resource
    (build_exact_literal_accounted sizes alloc sha256 kind literal anchors limits hi hw ret)
    (accepted sha256 kind (literal_raw kind literal anchors) limits)"
proof -
  have small: "Suc n \<le> usize_max" if "n \<le> 10" for n using that by (simp add: usize_max_def)
  show ?thesis
    unfolding build_exact_literal_accounted_def
    by (intro build_intros build_reserved_bytes build_reserved_vec)
       (use alloc wide small in \<open>auto simp: allocation_ok_def initialize_bytes_def fixed_push_def fixed_finish_def
          literal_raw_def [symmetric] intro!: build_validate literal_well_formed\<close>)
qed

lemma build_data_bytes [build_intros]:
  "(\<And>y. x = Some y \<Longrightarrow> Q y) \<Longrightarrow> safe build_resource (ok_or x (BuildValidate (ArithmeticOverflow site))) Q"
  by (cases x) auto

lemma build_class_outcome:
  assumes alloc: "allocation_ok alloc" and wide: "max_serialized_bytes limits \<le> usize_max"
    and ok: "suffix \<noteq> []" "\<not> contains cls (hd suffix)" "\<not> class_is_empty cls"
  shows "safe build_resource (build_class_suffix sizes alloc sha256 kind cls suffix anchors limits)
    (accepted sha256 kind (class_raw kind cls suffix anchors) limits)"
proof -
  obtain first rest where suffix: "suffix = first # rest" using ok(1) by (cases suffix) auto
  have first: "contains cls first = False" "class_is_empty cls = False" using ok suffix by auto
  have small: "Suc n \<le> usize_max" if "n \<le> 10" for n using that by (simp add: usize_max_def)
  show ?thesis
    unfolding build_class_suffix_def suffix list.case first if_False
    by (intro build_intros build_reserved_bytes build_reserved_vec)
       (use alloc wide small ok suffix in \<open>auto simp: allocation_ok_def initialize_bytes_def fixed_push_def
          fixed_finish_def class_raw_def [symmetric] intro!: build_validate class_well_formed\<close>)
qed

text \<open>The documented refusals of the class builder: an empty suffix, an empty class, an overlap.\<close>

definition build_refusal :: "invalid_program \<Rightarrow> build_error \<Rightarrow> bool" where
  "build_refusal reason e = (build_resource e \<or> e = BuildValidate (Invalid reason))"

lemma refusal_bind:
  "safe build_resource m (\<lambda>x. safe (build_refusal reason) (f x) Q) \<Longrightarrow> safe (build_refusal reason) (rbind m f) Q"
  by (cases m) (auto simp: build_refusal_def)

definition class_refusal :: "byte_class \<Rightarrow> bytes \<Rightarrow> invalid_program" where
  "class_refusal cls suffix = (if suffix = [] then EmptySuffix 1 else if class_is_empty cls then EmptyClass 0
     else SuffixOverlapsClass 0 1)"

lemma build_class_refuses:
  assumes "suffix = [] \<or> class_is_empty cls \<or> contains cls (hd suffix)"
  shows "safe (build_refusal (class_refusal cls suffix))
    (build_class_suffix sizes alloc sha256 kind cls suffix anchors limits) (\<lambda>_. False)"
proof (cases suffix)
  case Nil
  show ?thesis
    unfolding build_class_suffix_def Nil list.case
    by (intro refusal_bind build_enforce_safe) (simp add: class_refusal_def build_refusal_def)
next
  case (Cons first rest)
  have "class_is_empty cls \<or> contains cls first" using assms Cons by simp
  then show ?thesis
    unfolding build_class_suffix_def Cons list.case
    by (intro refusal_bind build_enforce_safe build_data_bytes build_padded build_ok_or build_work_factor build_preflight)
       (auto simp: class_refusal_def build_refusal_def)
qed

end
