(* ===== verification/KirAggregate.thy ===== *)
theory KirAggregate
  imports KirLower IterSpec
begin

text \<open>
  The exact-literal aggregate leaf of \<^verbatim>\<open>aggregate.rs\<close>: its construction, its checked upper bounds and
  its portable oracle, which counts the non-overlapping matches of a whole haystack or sums
  their widths. A \<^verbatim>\<open>debug_assert\<close> is a panic where it does not hold, as in the debug build.
\<close>

section \<open>Data\<close>

definition max_exact_aggregate_literal_bytes :: nat where
  "max_exact_aggregate_literal_bytes = 32"

text \<open>\<^verbatim>\<open>b"FREKAGG\0\x01"\<close>.\<close>

definition aggregate_identity_domain :: bytes where
  "aggregate_identity_domain = [0x46, 0x52, 0x45, 0x4B, 0x41, 0x47, 0x47, 0, 1]"

datatype aggregate_output = AggCount | AggSpanSum

fun aggregate_project :: "aggregate_output \<Rightarrow> nat \<Rightarrow> nat \<Rightarrow> nat" where
  "aggregate_project AggCount count span_sum = count"
| "aggregate_project AggSpanSum count span_sum = span_sum"

fun aggregate_output_tag :: "aggregate_output \<Rightarrow> u8" where
  "aggregate_output_tag AggCount = 1"
| "aggregate_output_tag AggSpanSum = 2"

record aggregate_program =
  agp_search :: validated_program
  agp_identity :: bytes

datatype aggregate_build_error =
    BuildLiteralLengthLimit nat nat
  | AggSearch build_error

datatype aggregate_error =
    AggLiteralLengthLimit nat nat
  | HaystackBytesLimit nat nat
  | LiteralBytesLimit nat nat
  | CandidatePositionsLimit nat nat
  | AggWorkLimit nat nat
  | MatchEventsLimit nat nat
  | OutputLimit nat nat
  | ReducerStepsLimit nat nat
  | ScratchLimit nat nat
  | NativeInvocationsLimit nat nat
  | AggArithmeticOverflow string
  | AggPanic

record aggregate_limits =
  agl_haystack_bytes :: nat
  agl_literal_bytes :: nat
  agl_candidate_positions :: nat
  agl_work :: nat
  agl_match_events :: nat
  agl_output :: nat
  agl_reducer_steps :: nat
  agl_scratch_bytes :: nat
  agl_native_invocations :: nat

definition aggregate_unlimited :: aggregate_limits where
  "aggregate_unlimited = \<lparr>agl_haystack_bytes = usize_max, agl_literal_bytes = usize_max,
     agl_candidate_positions = usize_max, agl_work = usize_max, agl_match_events = usize_max,
     agl_output = usize_max, agl_reducer_steps = usize_max, agl_scratch_bytes = usize_max,
     agl_native_invocations = 255\<rparr>"

definition aggregate_limits_default :: aggregate_limits where
  "aggregate_limits_default = \<lparr>agl_haystack_bytes = usize_max,
     agl_literal_bytes = max_exact_aggregate_literal_bytes, agl_candidate_positions = usize_max,
     agl_work = 8 * 2 ^ 30, agl_match_events = 128 * 2 ^ 20, agl_output = 128 * 2 ^ 20,
     agl_reducer_steps = 128 * 2 ^ 20 + 1, agl_scratch_bytes = 0, agl_native_invocations = 1\<rparr>"

record aggregate_bounds =
  ub_haystack_bytes :: nat
  ub_literal_bytes :: nat
  ub_candidate_positions :: nat
  ub_match_events :: nat
  ub_count :: nat
  ub_span_sum :: nat
  ub_reducer_steps :: nat
  ub_work :: nat
  ub_scratch_bytes :: nat
  ub_native_invocations :: nat

record aggregate_report =
  agr_output :: nat
  agr_work :: nat
  agr_match_events :: nat
  agr_upper_bounds :: aggregate_bounds

section \<open>Construction\<close>

definition build_exact_aggregate ::
  "layout \<Rightarrow> allocation \<Rightarrow> (bytes \<Rightarrow> bytes) \<Rightarrow> aggregate_output \<Rightarrow> bytes \<Rightarrow> validate_limits
     \<Rightarrow> aggregate_build_error + aggregate_program" where
  "build_exact_aggregate sizes alloc sha256 output literal limits =
     (if length literal > max_exact_aggregate_literal_bytes
      then Inl (BuildLiteralLengthLimit max_exact_aggregate_literal_bytes (length literal))
      else
      rbind (ok_or (uadd (length literal) 53)
        (AggSearch (BuildValidate (ArithmeticOverflow SiteSerializedBytes)))) (\<lambda>search_serialized_bytes.
      rbind (ok_or (uadds search_serialized_bytes [length aggregate_identity_domain, 1])
        (AggSearch (BuildValidate (ArithmeticOverflow SiteConstructionWork)))) (\<lambda>additional_hash_work.
      case build_exact_literal_accounted sizes alloc sha256 Span literal anchors_default limits 1
          additional_hash_work (sz_aggregate_program sizes - sz_validated_program sizes) of
        Inl e \<Rightarrow> Inl (AggSearch e)
      | Inr search \<Rightarrow>
          Inr \<lparr>agp_search = search,
            agp_identity = sha256 (aggregate_identity_domain @ [aggregate_output_tag output]
              @ sp_bytes (vp_serialized search))\<rparr>)))"

definition aggregate_literal :: "aggregate_program \<Rightarrow> aggregate_error + bytes" where
  "aggregate_literal program =
     (case raw_data (vp_raw (agp_search program)) of
        Bytes literal # _ \<Rightarrow> Inr literal
      | _ \<Rightarrow> Inl AggPanic)"

section \<open>Preflight\<close>

definition exact_aggregate_upper_bounds ::
  "nat \<Rightarrow> nat \<Rightarrow> aggregate_output \<Rightarrow> aggregate_error + aggregate_bounds" where
  "exact_aggregate_upper_bounds haystack_len literal_len output =
     (if literal_len > max_exact_aggregate_literal_bytes
      then Inl (AggLiteralLengthLimit max_exact_aggregate_literal_bytes literal_len)
      else if literal_len = 0 then
        rbind (ok_or (uadd haystack_len 1) (AggArithmeticOverflow ''empty byte boundaries'')) (\<lambda>match_events.
        Inr \<lparr>ub_haystack_bytes = haystack_len, ub_literal_bytes = 0, ub_candidate_positions = 0,
          ub_match_events = match_events, ub_count = match_events, ub_span_sum = 0,
          ub_reducer_steps = 1, ub_work = 1, ub_scratch_bytes = 0, ub_native_invocations = 1\<rparr>)
      else
        let candidate_positions =
              (case Option.bind (usub haystack_len literal_len) (\<lambda>final. uadd final 1) of
                 None \<Rightarrow> 0 | Some positions \<Rightarrow> positions);
            match_events = haystack_len div literal_len;
            count = match_events
        in
        rbind (ok_or (umul count literal_len) (AggArithmeticOverflow ''span-sum upper bound'')) (\<lambda>span_sum.
        rbind (ok_or (uadd match_events 1) (AggArithmeticOverflow ''reducer-step upper bound'')) (\<lambda>reducer_steps.
        rbind (ok_or (uadd literal_len 1) (AggArithmeticOverflow ''work per candidate'')) (\<lambda>per_candidate.
        rbind (ok_or (Option.bind (umul candidate_positions per_candidate) (\<lambda>work. uadd work reducer_steps))
          (AggArithmeticOverflow ''aggregate work upper bound'')) (\<lambda>work.
        let requested_span = (if output = AggSpanSum then span_sum else count)
        in if requested_span > haystack_len then Inl AggPanic
        else Inr \<lparr>ub_haystack_bytes = haystack_len, ub_literal_bytes = literal_len,
          ub_candidate_positions = candidate_positions, ub_match_events = match_events, ub_count = count,
          ub_span_sum = span_sum, ub_reducer_steps = reducer_steps, ub_work = work,
          ub_scratch_bytes = 0, ub_native_invocations = 1\<rparr>)))))"

definition check_limits ::
  "aggregate_bounds \<Rightarrow> aggregate_output \<Rightarrow> aggregate_limits \<Rightarrow> aggregate_error + unit" where
  "check_limits upper output limits =
     (let requested = (case output of AggCount \<Rightarrow> ub_count upper | AggSpanSum \<Rightarrow> ub_span_sum upper)
      in if ub_haystack_bytes upper > agl_haystack_bytes limits
         then Inl (HaystackBytesLimit (ub_haystack_bytes upper) (agl_haystack_bytes limits))
         else if ub_literal_bytes upper > agl_literal_bytes limits
         then Inl (LiteralBytesLimit (ub_literal_bytes upper) (agl_literal_bytes limits))
         else if ub_candidate_positions upper > agl_candidate_positions limits
         then Inl (CandidatePositionsLimit (ub_candidate_positions upper) (agl_candidate_positions limits))
         else if ub_work upper > agl_work limits then Inl (AggWorkLimit (ub_work upper) (agl_work limits))
         else if ub_match_events upper > agl_match_events limits
         then Inl (MatchEventsLimit (ub_match_events upper) (agl_match_events limits))
         else if requested > agl_output limits then Inl (OutputLimit requested (agl_output limits))
         else if ub_reducer_steps upper > agl_reducer_steps limits
         then Inl (ReducerStepsLimit (ub_reducer_steps upper) (agl_reducer_steps limits))
         else if ub_scratch_bytes upper > agl_scratch_bytes limits
         then Inl (ScratchLimit (ub_scratch_bytes upper) (agl_scratch_bytes limits))
         else if ub_native_invocations upper > agl_native_invocations limits
         then Inl (NativeInvocationsLimit (ub_native_invocations upper) (agl_native_invocations limits))
         else Inr ())"

definition preflight_exact_aggregate ::
  "nat \<Rightarrow> nat \<Rightarrow> aggregate_output \<Rightarrow> aggregate_limits \<Rightarrow> aggregate_error + aggregate_bounds" where
  "preflight_exact_aggregate haystack_len literal_len output limits =
     rbind (exact_aggregate_upper_bounds haystack_len literal_len output) (\<lambda>upper.
     rbind (check_limits upper output limits) (\<lambda>_. Inr upper))"

definition upper_bounds :: "aggregate_output \<Rightarrow> aggregate_program \<Rightarrow> nat \<Rightarrow> aggregate_error + aggregate_bounds" where
  "upper_bounds output program haystack_len =
     rbind (aggregate_literal program) (\<lambda>literal.
     exact_aggregate_upper_bounds haystack_len (length literal) output)"

section \<open>Execution\<close>

definition aggregate_tick :: "nat \<Rightarrow> nat \<Rightarrow> aggregate_error + nat" where
  "aggregate_tick limit work =
     (if work = limit then Inl (AggWorkLimit (saturating_add work 1) limit)
      else ok_or (uadd work 1) (AggArithmeticOverflow ''actual aggregate work''))"

fun aggregate_confirm ::
  "bytes \<Rightarrow> nat \<Rightarrow> nat \<Rightarrow> nat \<Rightarrow> bytes \<Rightarrow> nat \<Rightarrow> aggregate_error + bool \<times> nat" where
  "aggregate_confirm haystack max_work cursor offset [] work = Inr (True, work)"
| "aggregate_confirm haystack max_work cursor offset (expected # literal) work =
     rbind (aggregate_tick max_work work) (\<lambda>work.
     rbind (ok_or (uadd cursor offset) (AggArithmeticOverflow ''confirmation position'')) (\<lambda>position.
     if position \<ge> length haystack then Inl AggPanic
     else if haystack ! position \<noteq> expected then Inr (False, work)
     else aggregate_confirm haystack max_work cursor (Suc offset) literal work))"

record aggregate_state =
  ags_cursor :: nat
  ags_count :: nat
  ags_span_sum :: nat
  ags_work :: nat
  ags_events :: nat

text \<open>One turn of the loop, at a candidate whose window \<open>stop\<close> is inside the haystack.\<close>

definition aggregate_turn ::
  "bytes \<Rightarrow> bytes \<Rightarrow> nat \<Rightarrow> nat \<Rightarrow> aggregate_state \<Rightarrow> aggregate_error + aggregate_state" where
  "aggregate_turn haystack literal max_work stop st =
     rbind (aggregate_tick max_work (ags_work st)) (\<lambda>work.
     rbind (aggregate_confirm haystack max_work (ags_cursor st) 0 literal work) (\<lambda>(equal, work).
     if equal then
       rbind (ok_or (uadd (ags_count st) 1) (AggArithmeticOverflow ''actual count'')) (\<lambda>count.
       rbind (ok_or (uadd (ags_span_sum st) (length literal)) (AggArithmeticOverflow ''actual span sum'')) (\<lambda>span_sum.
       rbind (ok_or (uadd (ags_events st) 1) (AggArithmeticOverflow ''actual match events'')) (\<lambda>events.
       Inr \<lparr>ags_cursor = stop, ags_count = count, ags_span_sum = span_sum, ags_work = work, ags_events = events\<rparr>)))
     else
       rbind (ok_or (uadd (ags_cursor st) 1) (AggArithmeticOverflow ''candidate cursor'')) (\<lambda>cursor.
       Inr (st\<lparr>ags_cursor := cursor, ags_work := work\<rparr>))))"

lemma aggregate_turn_cursor:
  assumes "aggregate_turn haystack literal max_work stop st = Inr st'"
  shows "ags_cursor st' = stop \<or> ags_cursor st' = Suc (ags_cursor st)"
  using assms by (auto simp: aggregate_turn_def rbind_eq_Inr split: prod.splits if_splits)

text \<open>The code runs the loop for a literal \<open>first # rest\<close> only, so that every turn moves the cursor.\<close>

function aggregate_loop ::
  "bytes \<Rightarrow> u8 \<Rightarrow> bytes \<Rightarrow> nat \<Rightarrow> aggregate_state \<Rightarrow> aggregate_error + aggregate_state" where
  "aggregate_loop haystack first rest max_work st =
     (case uadd (ags_cursor st) (length (first # rest)) of
        None \<Rightarrow> Inr st
      | Some stop \<Rightarrow>
          if stop > length haystack then Inr st
          else rbind (aggregate_turn haystack (first # rest) max_work stop st)
                 (aggregate_loop haystack first rest max_work))"
  by pat_completeness auto
termination
  by (relation "measure (\<lambda>(haystack, first, rest, max_work, st). Suc (length haystack) - ags_cursor st)")
     (auto dest!: aggregate_turn_cursor)

declare aggregate_loop.simps [simp del]

definition aggregate_execute ::
  "aggregate_output \<Rightarrow> aggregate_program \<Rightarrow> bytes \<Rightarrow> aggregate_limits \<Rightarrow> aggregate_error + aggregate_report" where
  "aggregate_execute output program haystack limits =
     rbind (aggregate_literal program) (\<lambda>literal.
     rbind (preflight_exact_aggregate (length haystack) (length literal) output limits) (\<lambda>upper.
     case literal of
       [] \<Rightarrow> Inr \<lparr>agr_output = aggregate_project output (ub_count upper) 0, agr_work = 1,
               agr_match_events = ub_match_events upper, agr_upper_bounds = upper\<rparr>
     | first # rest \<Rightarrow>
         rbind (aggregate_loop haystack first rest (agl_work limits)
           \<lparr>ags_cursor = 0, ags_count = 0, ags_span_sum = 0, ags_work = 0, ags_events = 0\<rparr>) (\<lambda>st.
         rbind (aggregate_tick (agl_work limits) (ags_work st)) (\<lambda>work.
         if work > ub_work upper \<or> ags_events st > ub_match_events upper \<or> ags_count st > ub_count upper
           \<or> ags_span_sum st > ub_span_sum upper
         then Inl AggPanic
         else Inr \<lparr>agr_output = aggregate_project output (ags_count st) (ags_span_sum st), agr_work = work,
                agr_match_events = ags_events st, agr_upper_bounds = upper\<rparr>))))"

section \<open>Specification\<close>

definition literal_sel :: "bytes \<Rightarrow> bytes \<Rightarrow> nat \<Rightarrow> nat option" where
  "literal_sel literal haystack s =
     (if s + length literal \<le> length haystack \<and> take (length literal) (drop s haystack) = literal
      then Some (s + length literal) else None)"

interpretation lit: selector "length haystack" "literal_sel literal haystack" for haystack literal
  by unfold_locales (auto simp: literal_sel_def split: if_splits)

definition spans_from :: "bytes \<Rightarrow> bytes \<Rightarrow> nat \<Rightarrow> (nat \<times> nat) list" where
  "spans_from literal haystack cursor = iter_seq (length haystack) (literal_sel literal haystack) cursor None"

definition span_widths :: "(nat \<times> nat) list \<Rightarrow> nat" where
  "span_widths spans = sum_list (map (\<lambda>(s, e). e - s) spans)"

lemma literal_widths: "span_widths (spans_from literal h cursor) = length (spans_from literal h cursor) * length literal"
proof -
  have "e = s + length literal" if "(s, e) \<in> set (spans_from literal h cursor)" for s e
    using lit.iter_seq_selected [of s e h literal cursor None] that
    by (auto simp: spans_from_def literal_sel_def split: if_splits)
  moreover have "\<forall>(s, e)\<in>set spans. e = s + length literal \<Longrightarrow> span_widths spans = length spans * length literal" for spans
    by (induction spans) (auto simp: span_widths_def)
  ultimately show ?thesis by blast
qed

lemma spans_end: "length h < cursor + length literal \<Longrightarrow> spans_from literal h cursor = []"
  unfolding spans_from_def by (subst iter_seq.simps) (auto simp: next_match_None_iff [THEN iffD2] literal_sel_def)

lemma iter_literal_prev:
  assumes "literal \<noteq> []"
  shows "iter_seq (length h) (literal_sel literal h) cursor prev = spans_from literal h cursor"
proof -
  have "s \<noteq> e" if "next_match (length h) (literal_sel literal h) cursor = Some (s, e)" for s e
    using lit.next_match_bounds [OF that] assms by (auto simp: literal_sel_def split: if_splits)
  then show ?thesis unfolding spans_from_def by (subst (1 2) iter_seq.simps) (auto split: option.split)
qed

lemma spans_hit:
  assumes "literal \<noteq> []" "cursor + length literal \<le> length h" "take (length literal) (drop cursor h) = literal"
  shows "spans_from literal h cursor = (cursor, cursor + length literal) # spans_from literal h (cursor + length literal)"
proof -
  have "next_match (length h) (literal_sel literal h) cursor = Some (cursor, cursor + length literal)"
    using assms by (simp add: next_match_step [of _ _ cursor] literal_sel_def)
  then show ?thesis
    using assms(1) iter_literal_prev [OF assms(1), of h "cursor + length literal"]
    by (subst spans_from_def, subst iter_seq.simps) simp
qed

lemma spans_miss:
  assumes "take (length literal) (drop cursor h) \<noteq> literal" "cursor \<le> length h"
  shows "spans_from literal h cursor = spans_from literal h (Suc cursor)"
proof -
  have "next_match (length h) (literal_sel literal h) cursor = next_match (length h) (literal_sel literal h) (Suc cursor)"
    using assms by (simp add: next_match_step [of _ _ cursor] literal_sel_def)
  then show ?thesis unfolding spans_from_def by (subst (1 2) iter_seq.simps) simp
qed

section \<open>The loop\<close>

lemma tick_fits: "work < limit \<Longrightarrow> work < usize_max \<Longrightarrow> aggregate_tick limit work = Inr (Suc work)"
  by (simp add: aggregate_tick_def)

lemma confirm_outcome:
  assumes "cursor + offset + length literal \<le> length haystack" "length haystack \<le> usize_max"
    and "work + length literal \<le> limit" "work + length literal \<le> usize_max"
  shows "\<exists>work'. aggregate_confirm haystack limit cursor offset literal work
      = Inr (take (length literal) (drop (cursor + offset) haystack) = literal, work')
    \<and> work' \<le> work + length literal"
  using assms
proof (induction literal arbitrary: offset work)
  case (Cons expected literal)
  have pos: "cursor + offset < length haystack" and small: "cursor + offset \<le> usize_max" using Cons.prems by simp_all
  have drop: "drop (cursor + offset) haystack = haystack ! (cursor + offset) # drop (cursor + Suc offset) haystack"
    using pos by (simp add: Cons_nth_drop_Suc)
  have tick: "aggregate_tick limit work = Inr (Suc work)" using Cons.prems by (intro tick_fits) simp_all
  show ?case
  proof (cases "haystack ! (cursor + offset) = expected")
    case True
    obtain work' where "aggregate_confirm haystack limit cursor (Suc offset) literal (Suc work)
        = Inr (take (length literal) (drop (cursor + Suc offset) haystack) = literal, work')"
      "work' \<le> Suc work + length literal"
      using Cons.IH [of "Suc offset" "Suc work"] Cons.prems by auto
    then show ?thesis using True drop tick pos small by (simp add: not_le)
  next
    case False
    then show ?thesis using drop tick pos small by (simp add: not_le)
  qed
qed simp

definition candidates_left :: "bytes \<Rightarrow> bytes \<Rightarrow> nat \<Rightarrow> nat" where
  "candidates_left literal haystack cursor = Suc (length haystack) - (cursor + length literal)"

text \<open>The state after \<open>k\<close> matches.\<close>

definition aggregate_at :: "bytes \<Rightarrow> nat \<Rightarrow> nat \<Rightarrow> nat \<Rightarrow> aggregate_state" where
  "aggregate_at literal cursor k work = \<lparr>ags_cursor = cursor, ags_count = k, ags_span_sum = k * length literal,
     ags_work = work, ags_events = k\<rparr>"

lemma aggregate_turn_outcome:
  assumes "literal \<noteq> []" "cursor + length literal \<le> length haystack" "length haystack \<le> usize_max"
    and "k * length literal \<le> cursor" "work + Suc (length literal) \<le> limit" "work + Suc (length literal) \<le> usize_max"
  defines "hit \<equiv> take (length literal) (drop cursor haystack) = literal"
  shows "\<exists>work'. work' \<le> work + Suc (length literal)
    \<and> aggregate_turn haystack literal limit (cursor + length literal) (aggregate_at literal cursor k work)
      = Inr (if hit then aggregate_at literal (cursor + length literal) (Suc k) work'
             else aggregate_at literal (Suc cursor) k work')"
proof -
  have n: "0 < length literal" using assms(1) by simp
  have tick: "aggregate_tick limit work = Inr (Suc work)" using assms by (intro tick_fits) simp_all
  obtain work' where confirm: "aggregate_confirm haystack limit cursor 0 literal (Suc work) = Inr (hit, work')"
    and "work' \<le> Suc work + length literal"
    using confirm_outcome [of cursor 0 literal haystack "Suc work" limit] assms unfolding hit_def by auto
  moreover have "Suc k \<le> Suc k * length literal" "Suc k * length literal \<le> usize_max" "Suc cursor \<le> usize_max"
    using n assms(2-4) by (cases "length literal"; simp)+
  ultimately show ?thesis
    using tick confirm by (auto simp: aggregate_turn_def aggregate_at_def add.commute)
qed

lemma aggregate_loop_outcome:
  assumes "length haystack \<le> usize_max" "k * length (first # rest) \<le> cursor" "cursor \<le> length haystack"
    and "work + candidates_left (first # rest) haystack cursor * Suc (length (first # rest)) < min limit usize_max"
  shows "\<exists>cursor' work'. aggregate_loop haystack first rest limit (aggregate_at (first # rest) cursor k work)
      = Inr (aggregate_at (first # rest) cursor' (k + length (spans_from (first # rest) haystack cursor)) work')
    \<and> work' \<le> work + candidates_left (first # rest) haystack cursor * Suc (length (first # rest))
    \<and> (k + length (spans_from (first # rest) haystack cursor)) * length (first # rest) \<le> length haystack"
  using assms(2-4)
proof (induction "Suc (length haystack) - cursor" arbitrary: cursor k work rule: less_induct)
  case less
  let ?l = "first # rest" and ?st = "aggregate_at (first # rest) cursor k work"
  let ?c = "candidates_left ?l haystack" and ?n = "length (first # rest)"
  have at: "ags_cursor (aggregate_at ?l c k w) = c" for c k w by (simp add: aggregate_at_def)
  show ?case
  proof (cases "cursor + ?n \<le> length haystack")
    case False
    then have "aggregate_loop haystack first rest limit ?st = Inr ?st"
      by (subst aggregate_loop.simps) (auto simp: uadd_def at)
    then show ?thesis using False less.prems spans_end [of haystack cursor ?l]
      by (intro exI [of _ cursor] exI [of _ work]) auto
  next
    case True
    have "?c cursor = Suc (?c (Suc cursor))" using True unfolding candidates_left_def by linarith
    then have c: "?c cursor * Suc ?n = Suc ?n + ?c (Suc cursor) * Suc ?n" by (simp only: mult_Suc)
    have loop: "aggregate_loop haystack first rest limit ?st
        = rbind (aggregate_turn haystack ?l limit (cursor + ?n) ?st) (aggregate_loop haystack first rest limit)"
      using True assms(1) by (subst aggregate_loop.simps) (simp add: at)
    obtain work1 where turn: "aggregate_turn haystack ?l limit (cursor + ?n) ?st
        = Inr (if take ?n (drop cursor haystack) = ?l then aggregate_at ?l (cursor + ?n) (Suc k) work1
               else aggregate_at ?l (Suc cursor) k work1)" and work1: "work1 \<le> work + Suc ?n"
      using aggregate_turn_outcome [of ?l cursor haystack k work limit] True assms(1) less.prems c by auto
    show ?thesis
    proof (cases "take ?n (drop cursor haystack) = ?l")
      case hit: True
      have "?c (cursor + ?n) * Suc ?n \<le> ?c (Suc cursor) * Suc ?n"
        by (rule mult_le_mono1) (simp add: candidates_left_def)
      moreover have "Suc (length haystack) - (cursor + ?n) < Suc (length haystack) - cursor"
        by (rule diff_less_mono2) (use True in auto)
      note less.hyps [OF this, of "Suc k" work1]
      moreover from calculation obtain cursor' work' where
        "aggregate_loop haystack first rest limit (aggregate_at ?l (cursor + ?n) (Suc k) work1)
          = Inr (aggregate_at ?l cursor' (Suc k + length (spans_from ?l haystack (cursor + ?n))) work')"
        "work' \<le> work1 + ?c (cursor + ?n) * Suc ?n"
        "(Suc k + length (spans_from ?l haystack (cursor + ?n))) * ?n \<le> length haystack"
        using True less.prems c work1 by auto
      ultimately show ?thesis
        using hit True c work1 loop turn spans_hit [of ?l cursor haystack]
        by (intro exI [of _ cursor'] exI [of _ work']) auto
    next
      case miss: False
      have "Suc (length haystack) - Suc cursor < Suc (length haystack) - cursor"
        by (rule diff_less_mono2) (use less.prems in auto)
      note less.hyps [OF this, of k work1]
      moreover from calculation obtain cursor' work' where
        "aggregate_loop haystack first rest limit (aggregate_at ?l (Suc cursor) k work1)
          = Inr (aggregate_at ?l cursor' (k + length (spans_from ?l haystack (Suc cursor))) work')"
        "work' \<le> work1 + ?c (Suc cursor) * Suc ?n"
        "(k + length (spans_from ?l haystack (Suc cursor))) * ?n \<le> length haystack"
        using True less.prems c work1 by auto
      ultimately show ?thesis
        using miss True c work1 loop turn spans_miss [of ?l cursor haystack]
        by (intro exI [of _ cursor'] exI [of _ work']) auto
    qed
  qed
qed

section \<open>Outcome\<close>

text \<open>The spans of the empty literal are the empty ones at every boundary.\<close>

lemma spans_empty_literal:
  assumes "prev \<noteq> Some cursor"
  shows "iter_seq (length h) (literal_sel [] h) cursor prev = map (\<lambda>s. (s, s)) [cursor..<Suc (length h)]"
  using assms
proof (induction "Suc (length h) - cursor" arbitrary: cursor prev rule: less_induct)
  case less
  show ?case
  proof (cases "cursor \<le> length h")
    case True
    have "next_match (length h) (literal_sel [] h) cursor = Some (cursor, cursor)"
      using True by (simp add: next_match_step [of _ _ cursor] literal_sel_def)
    then have "iter_seq (length h) (literal_sel [] h) cursor prev
        = (cursor, cursor) # iter_seq (length h) (literal_sel [] h) (Suc cursor) (Some cursor)"
      using less.prems by (subst iter_seq.simps) simp
    then show ?thesis
      using less.hyps [of "Suc cursor" "Some cursor"] True by (simp add: upt_conv_Cons del: upt_Suc)
  next
    case False
    then show ?thesis using spans_end [of h cursor "[]"]
      by (subst iter_seq.simps) (simp add: next_match_step [of _ _ cursor])
  qed
qed

lemma candidate_positions:
  assumes "0 < l" "n \<le> usize_max"
  shows "(case Option.bind (usub n l) (\<lambda>final. uadd final 1) of None \<Rightarrow> 0 | Some positions \<Rightarrow> positions) = Suc n - l"
proof (cases "l \<le> n")
  case True
  then have "uadd (n - l) 1 = Some (Suc n - l)" using assms by simp
  then show ?thesis using True by simp
qed (simp add: usub_def)

lemma bounds_outcome:
  assumes "exact_aggregate_upper_bounds (length h) (length literal) output = Inr upper"
    "literal \<noteq> []" "length h \<le> usize_max"
  shows "ub_match_events upper = length h div length literal" "ub_count upper = length h div length literal"
    "ub_span_sum upper = length h div length literal * length literal"
    "ub_work upper = candidates_left literal h 0 * Suc (length literal) + Suc (length h div length literal)"
    "ub_work upper \<le> usize_max"
proof -
  have n: "0 < length literal" using assms(2) by simp
  note bounds = assms(1) [unfolded exact_aggregate_upper_bounds_def Let_def candidate_positions [OF n assms(3)]]
  show "ub_match_events upper = length h div length literal" "ub_count upper = length h div length literal"
    "ub_span_sum upper = length h div length literal * length literal"
    "ub_work upper = candidates_left literal h 0 * Suc (length literal) + Suc (length h div length literal)"
    "ub_work upper \<le> usize_max"
    using bounds n by (auto simp: rbind_eq_Inr bind_eq_Some_conv candidates_left_def split: if_splits)
qed

lemma bounds_no_panic:
  "exact_aggregate_upper_bounds n l output \<noteq> Inl AggPanic"
proof -
  have "(n < n div l) = False" "(n < n div l * l) = False"
    by (simp_all add: not_less)
  then show ?thesis
    by (auto simp: exact_aggregate_upper_bounds_def rbind_eq_Inl ok_or_def Let_def split: if_splits option.splits)
qed

lemma check_limits_work: "check_limits upper output limits = Inr u \<Longrightarrow> ub_work upper \<le> agl_work limits"
  by (auto simp: check_limits_def Let_def split: if_splits)

lemma check_limits_no_panic: "check_limits upper output limits \<noteq> Inl AggPanic"
  by (simp add: check_limits_def Let_def)

lemma aggregate_empty:
  assumes "exact_aggregate_upper_bounds (length h) 0 output = Inr upper"
  shows "ub_count upper = length (spans_from [] h 0)" "ub_match_events upper = length (spans_from [] h 0)"
    "ub_work upper = 1" "span_widths (spans_from [] h 0) = 0"
  using assms spans_empty_literal [of None 0 h] literal_widths [of "[]" h 0]
  by (auto simp: exact_aggregate_upper_bounds_def spans_from_def rbind_eq_Inr split: if_splits)

lemma aggregate_execute_outcome:
  assumes literal: "raw_data (vp_raw (agp_search program)) = [Bytes literal]" and fits: "length h \<le> usize_max"
    and upper: "preflight_exact_aggregate (length h) (length literal) output limits = Inr upper"
  defines "spans \<equiv> spans_from literal h 0"
  shows "\<exists>work \<le> ub_work upper. aggregate_execute output program h limits =
    Inr \<lparr>agr_output = aggregate_project output (length spans) (span_widths spans), agr_work = work,
         agr_match_events = length spans, agr_upper_bounds = upper\<rparr>"
proof (cases literal)
  case Nil
  have "exact_aggregate_upper_bounds (length h) 0 output = Inr upper"
    using upper Nil by (auto simp: preflight_exact_aggregate_def rbind_eq_Inr)
  from aggregate_empty [OF this] show ?thesis
    using literal upper Nil by (cases "output") (simp_all add: aggregate_execute_def aggregate_literal_def spans_def)
next
  case (Cons first rest)
  let ?w = "candidates_left literal h 0 * Suc (length literal)"
  have bounds: "exact_aggregate_upper_bounds (length h) (length literal) output = Inr upper"
    "ub_work upper \<le> agl_work limits"
    using upper check_limits_work by (auto simp: preflight_exact_aggregate_def rbind_eq_Inr)
  note b = bounds_outcome [OF bounds(1) _ fits]
  obtain cursor work where loop: "aggregate_loop h first rest (agl_work limits) (aggregate_at literal 0 0 0)
      = Inr (aggregate_at literal cursor (length spans) work)" and work: "work \<le> ?w"
    and total: "length spans * length literal \<le> length h"
    using aggregate_loop_outcome [of h 0 first rest 0 0 "agl_work limits"] fits b(4,5) bounds(2) Cons
    by (auto simp: spans_def)
  have events: "length spans \<le> length h div length literal"
    using total Cons by (simp add: less_eq_div_iff_mult_less_eq)
  have tick: "aggregate_tick (agl_work limits) work = Inr (Suc work)" "Suc work \<le> ub_work upper"
    using work b(4,5) bounds(2) Cons by (auto intro!: tick_fits)
  have widths: "span_widths spans = length spans * length literal"
    unfolding spans_def by (rule literal_widths)
  have "aggregate_execute output program h limits =
      (if Suc work > ub_work upper \<or> length spans > ub_match_events upper \<or> length spans > ub_count upper
         \<or> length spans * length literal > ub_span_sum upper
       then Inl AggPanic
       else Inr \<lparr>agr_output = aggregate_project output (length spans) (length spans * length literal),
         agr_work = Suc work, agr_match_events = length spans, agr_upper_bounds = upper\<rparr>)"
    using literal upper loop tick(1) Cons
    by (simp add: aggregate_execute_def aggregate_literal_def aggregate_at_def)
  then show ?thesis
    using tick(2) events b(1-3) mult_le_mono1 [OF events, of "length literal"] Cons by (simp add: widths)
qed

end
