(* ===== verification/KirLive.thy ===== *)
theory KirLive
  imports KirAggregate
begin

text \<open>
  Progress of the builders: under the default limits, on a platform whose types are at most 512
  bytes each and with an allocator that serves every request with at most 64 elements more than
  were asked for (\<^verbatim>\<open>try_reserve_exact\<close> may return more than the request), the literal and the class
  kernel are built for every literal and every suffix of up to a million bytes. Every checked sum and every admission of
  preflight, reservation, validation and serialization is shown to go through.
\<close>

section \<open>Success rules\<close>

named_theorems run_intros \<open>steps that succeed\<close>

lemma runs_bind [run_intros]: "runs m (\<lambda>x. runs (f x) Q) \<Longrightarrow> runs (rbind m f) Q"
  by simp

lemma runs_return [run_intros]: "Q x \<Longrightarrow> runs (Inr x) Q"
  by simp

lemma runs_mono: "runs m P \<Longrightarrow> (\<And>x. P x \<Longrightarrow> Q x) \<Longrightarrow> runs m Q"
  by (auto simp: runs_iff)

lemma runs_uadd [run_intros]: "a + b \<le> usize_max \<Longrightarrow> Q (a + b) \<Longrightarrow> runs (ok_or (uadd a b) e) Q"
  by simp

lemma runs_umul [run_intros]: "a * b \<le> usize_max \<Longrightarrow> Q (a * b) \<Longrightarrow> runs (ok_or (umul a b) e) Q"
  by simp

lemma runs_u8_add [run_intros]: "a + b \<le> 255 \<Longrightarrow> Q (a + b) \<Longrightarrow> runs (ok_or (u8_add a b) e) Q"
  by (simp add: u8_add_def)

lemma runs_uadds [run_intros]:
  "a + sum_list bs \<le> usize_max \<Longrightarrow> Q (a + sum_list bs) \<Longrightarrow> runs (ok_or (uadds a bs) e) Q"
  by (simp add: uadds_fits)

lemma runs_count [run_intros]: "n \<le> limit \<Longrightarrow> Q n \<Longrightarrow> runs (enforce_count resource n limit) Q"
  by (simp add: enforce_count_def)

lemma runs_work [run_intros]: "n \<le> limit \<Longrightarrow> Q () \<Longrightarrow> runs (enforce_work resource n limit) Q"
  by (simp add: enforce_work_def)

lemma runs_enforce [run_intros]: "n \<le> limit \<Longrightarrow> Q () \<Longrightarrow> runs (build_enforce resource n limit) Q"
  by (simp add: build_enforce_def)

lemma runs_lift [run_intros]: "runs m Q \<Longrightarrow> runs (lift_validate m) Q"
  by (auto simp: runs_iff lift_validate_def)

lemma runs_charge [run_intros]:
  "pm_consumed p + n \<le> usize_max \<Longrightarrow> pm_consumed p + n \<le> pm_limit p \<Longrightarrow>
     Q (p\<lparr>pm_consumed := pm_consumed p + n\<rparr>) \<Longrightarrow> runs (planning_charge n p) Q"
  by (simp add: runs_iff)

lemma runs_pair [run_intros]: "runs (f a b) Q \<Longrightarrow> runs (case (a, b) of (x, y) \<Rightarrow> f x y) Q"
  by simp

lemma runs_formula [run_intros]:
  "b * 11 + d + a + 11 \<le> usize_max \<Longrightarrow> Q (b * 11 + d + a + 11) \<Longrightarrow> runs (validation_work_formula b d a) Q"
  by (simp add: runs_iff)

section \<open>Sizes\<close>

definition layout_small :: "layout \<Rightarrow> bool" where
  "layout_small sizes = (list_all (\<lambda>size. size \<le> 512)
     [sz_bool sizes, sz_usize sizes, sz_block sizes, sz_data_blob sizes, sz_validator sizes,
      sz_raw_program sizes, sz_validated_program sizes, sz_aggregate_program sizes, sz_vec_u8 sizes,
      sz_fixed_writer sizes, sz_sha256 sizes, sz_digest sizes, sz_validate_limits sizes,
      sz_dimensions sizes, sz_census sizes, sz_planning_envelope sizes, sz_planning_meter sizes,
      sz_construction_seed sizes, sz_construction_work sizes, sz_phase_peaks sizes,
      sz_resource_accounting sizes, sz_block_slots8 sizes, sz_block_slots2 sizes,
      sz_flow_states2 sizes, sz_data_slots1 sizes, sz_class_shape sizes]
     \<and> sz_bool sizes + sz_usize sizes \<le> 16)"

lemmas usize_numeral = usize_max_def [simplified]

lemma scratch_runs:
  assumes "layout_small sizes"
  shows "runs (validation_scratch_bytes sizes) (\<lambda>n. n \<le> 4096)"
  unfolding validation_scratch_bytes_def hard_max_blocks_def
  by (intro run_intros) (use assms in \<open>auto simp: layout_small_def usize_numeral\<close>)

lemma control_runs:
  assumes "layout_small sizes"
  shows "runs (phase_control_inline_bytes sizes) (\<lambda>n. n \<le> 20000)"
  unfolding phase_control_inline_bytes_def
  by (intro run_intros) (use assms in \<open>auto simp: layout_small_def usize_numeral saturating_mul_def\<close>)

lemma peaks_runs:
  assumes small: "layout_small sizes" and raw: "dim_raw_program_capacity_bytes dims \<le> 1100000"
    and cap: "capacity \<le> 1100000" and ret: "retained \<le> 512"
  shows "runs (phase_peaks_of sizes dims capacity retained) (\<lambda>peaks.
    peak_validation peaks \<le> 4194304 \<and> peak_serialization peaks \<le> 4194304
    \<and> peak_identity peaks \<le> 4194304 \<and> peak_retained peaks \<le> 4194304)"
  unfolding phase_peaks_of_def
  by (intro run_intros scratch_runs [OF small, THEN runs_mono] control_runs [OF small, THEN runs_mono])
     (use assms in \<open>auto simp: layout_small_def usize_numeral serialization_inline_scratch_bytes_def
        identity_inline_scratch_bytes_def saturating_add_def saturating_mul_def\<close>)

text \<open>
  An allocator that serves every request, with some slack, and what admission asks of the
  dimensions and the construction work of a small program.
\<close>

definition serves :: "(nat \<Rightarrow> nat option) \<Rightarrow> bool" where
  "serves reserve = (\<forall>n. \<exists>capacity. reserve n = Some capacity \<and> n \<le> capacity \<and> capacity \<le> n + 64)"

lemma servesE:
  assumes "serves reserve"
  obtains capacity where "reserve n = Some capacity" "n \<le> capacity" "capacity \<le> n + 64"
  using assms unfolding serves_def by blast

definition work_small :: "construction_work \<Rightarrow> bool" where
  "work_small work = (cw_allocation_request_bytes work \<le> 2200000 \<and> cw_total_upper_bound work \<le> 8000000
     \<and> cw_additional_retained_bytes work \<le> 512)"

definition dims_small :: "dimensions \<Rightarrow> bool" where
  "dims_small dims = (dim_raw_program_capacity_bytes dims \<le> 1100000
     \<and> dim_serialized_bytes dims \<le> 1050000 \<and> dim_serialized_bytes_u64 dims = dim_serialized_bytes dims
     \<and> dim_validation_work_upper_bound dims \<le> 1000)"

lemma accounting_runs:
  assumes small: "layout_small sizes" and dims: "dims_small dims" and work: "work_small work"
    and cap: "capacity \<le> 1050000"
  shows "runs (resource_accounting_of sizes dims work capacity actual)
    (\<lambda>accounting. admit_accounting accounting validate_limits_default = Inr ())"
  unfolding resource_accounting_of_def
  by (intro run_intros scratch_runs [OF small, THEN runs_mono]
        peaks_runs [OF small, of dims capacity "cw_additional_retained_bytes work", THEN runs_mono])
     (use dims work cap in \<open>auto simp: dims_small_def work_small_def admit_accounting_def rbind_eq_Inr
        validate_limits_default_def default_construction_bytes_def\<close>)

lemma prospective_runs:
  assumes "layout_small sizes" "dims_small dims" "work_small work"
  shows "admit_prospective sizes dims work validate_limits_default = Inr ()"
  using accounting_runs [OF assms, of "dim_serialized_bytes dims" 0] assms(2)
  by (auto simp: admit_prospective_def dims_small_def runs_iff)

definition seed_small :: "construction_seed \<Rightarrow> bool" where
  "seed_small seed = (cs_raw_allocation_requests seed \<le> 3 \<and> cs_allocation_request_bytes seed \<le> 1100000
     \<and> cs_planning_work seed \<le> 1000 \<and> cs_initialization_work seed \<le> 1100000 \<and> cs_copy_work seed \<le> 1100000
     \<and> cs_additional_hash_invocations seed \<le> 1 \<and> cs_additional_hash_work seed \<le> 1000
     \<and> cs_additional_retained_bytes seed \<le> 512)"

lemma construction_runs:
  assumes "dims_small dims" "seed_small seed"
  shows "runs (construction_work_new dims seed) work_small"
  unfolding construction_work_new_def
  by (intro run_intros)
     (use assms in \<open>auto simp: dims_small_def seed_small_def work_small_def usize_numeral
        identity_initialization_work_per_hash_def identity_copy_work_per_hash_def\<close>)

lemma fixed_admit_runs:
  assumes small: "layout_small sizes" and dims: "dims_small (fs_dimensions admission)"
    and seed: "seed_small (fs_seed admission)"
    and plan: "cs_planning_work (fs_seed admission) + fs_raw_metadata_planning_work admission \<le> 1000"
    and cap: "capacity \<le> 1100000" and Q: "Q ()"
  shows "runs (fixed_shape_admit sizes admission capacity validate_limits_default) Q"
proof -
  let ?dims = "(fs_dimensions admission)\<lparr>dim_raw_program_capacity_bytes := capacity\<rparr>"
  have dims': "dims_small ?dims" using dims cap by (simp add: dims_small_def)
  show ?thesis
    unfolding fixed_shape_admit_def Let_def
    by (intro run_intros construction_runs [OF dims', THEN runs_mono])
       (use seed plan in \<open>auto simp: seed_small_def usize_numeral prospective_runs [OF small dims'] Q\<close>)
qed

section \<open>Preflight of a fixed shape\<close>

definition admission_small :: "fixed_shape_admission \<Rightarrow> bool" where
  "admission_small admission = (dims_small (fs_dimensions admission) \<and> seed_small (fs_seed admission)
     \<and> cs_planning_work (fs_seed admission) + fs_raw_metadata_planning_work admission \<le> 900)"

definition shape_small :: "shape_dimensions \<Rightarrow> bool" where
  "shape_small shape = (sd_blocks shape \<le> 7 \<and> sd_data_blobs shape \<le> 2 \<and> sd_data_bytes shape \<le> 1048576
     \<and> sd_literal_bytes shape \<le> 1000000 \<and> sd_serialized_bytes shape \<le> 1050000 \<and> sd_code_bytes shape \<le> 1048576
     \<and> sd_work_factor shape \<le> 1048576 \<and> sd_data_scan_work shape \<le> 6 \<and> sd_planning_work shape \<le> 6)"

lemma preflight_shape_runs:
  assumes small: "layout_small sizes" and shape: "shape_small shape" and extra: "hi \<le> 1" "hw \<le> 1000" "ret \<le> 512"
  shows "runs (preflight_shape sizes shape validate_limits_default hi hw ret) admission_small"
proof -
  have sizes: "sz_block sizes \<le> 512" "sz_data_blob sizes \<le> 512" using small by (simp_all add: layout_small_def)
  have tables: "sd_blocks shape * sz_block sizes \<le> 7 * 512" "sd_data_blobs shape * sz_data_blob sizes \<le> 2 * 512"
    "(sd_data_blobs shape - 1) * sd_data_blobs shape \<le> 1 * 2"
    using sizes shape by (intro mult_le_mono; auto simp: shape_small_def)+
  have factor: "(sd_work_factor shape > max_work_factor validate_limits_default) = False"
    using shape by (simp add: shape_small_def validate_limits_default_def)
  show ?thesis
    unfolding preflight_shape_def factor if_False fixed_shape_validation_work_upper_bound_def
      fixed_shape_new_def raw_metadata_planning_envelope_def envelope_total_def
    by (intro run_intros fixed_admit_runs [OF small])
       (use shape extra tables in \<open>auto simp: validate_limits_default_def usize_numeral admission_small_def dims_small_def
          seed_small_def shape_small_def raw_header_check_work_def\<close>)
qed

section \<open>Preflight of the canonical programs\<close>

lemma literal_census_runs:
  assumes n: "length literal \<le> 1000000"
  shows "runs (census_finish (observe_data (Bytes literal) (length literal)
      (observe_block ReturnNone (observe_block ReturnFound (observe_block (ScanLiteral needle anchors found none)
        (observe_block (Entry first) census_new))))) (length literal) validate_limits_default)
    (\<lambda>dims. dim_serialized_bytes dims = length literal + 53 \<and> dim_serialized_bytes_u64 dims = length literal + 53)"
proof -
  have "length literal + 15 - (length literal + 15) mod 16 \<le> 1000015" using n by simp
  then show ?thesis
    using n by (simp add: census_finish_def observe_data_def observe_block_def accumulate_checked_def census_new_def
        serialized_header_bytes_def align16_def validate_limits_default_def enforce_count_def usize_numeral)
qed

lemma preflight_literal_runs:
  assumes small: "layout_small sizes" and n: "length literal \<le> 1000000"
    and caps: "cap_blocks caps \<le> 68" "cap_data caps \<le> 65" "cap_literal caps 0 \<le> length literal + 64"
    and planning: "pm_limit planning = 16777216" "pm_consumed planning \<le> 1000"
  shows "runs (preflight_dimensions sizes caps (literal_raw kind literal anchors) validate_limits_default planning)
    (\<lambda>(dims, planning'). dims_small dims \<and> pm_consumed planning' = pm_consumed planning + (4 + 1 + 1 * 1))"
proof -
  have sizes: "sz_block sizes \<le> 512" "sz_data_blob sizes \<le> 512" using small by (simp_all add: layout_small_def)
  have tables: "cap_blocks caps * sz_block sizes \<le> 68 * 512" "cap_data caps * sz_data_blob sizes \<le> 65 * 512"
    by (rule mult_le_mono [OF caps(1) sizes(1)], rule mult_le_mono [OF caps(2) sizes(2)])
  have limits: "max_validation_scratch_bytes validate_limits_default = 4096"
    "max_validation_work validate_limits_default = 8388608"
    "max_raw_program_capacity_bytes validate_limits_default = 2097152"
    by (simp_all add: validate_limits_default_def)
  show ?thesis
    unfolding preflight_dimensions_def fixed_shape_validation_work_upper_bound_def literal_raw_def raw_program_of_def
      validation_work_upper_bound_def scan_step_def data_census_step_def block_census_step_def blob_capacity_step_def
    apply (simp add: planning)
    apply (intro run_intros scratch_runs [OF small, THEN runs_mono];
        (use n caps tables planning limits in \<open>simp add: usize_numeral u32_max_def dims_small_def\<close>)?)
    apply (intro run_intros literal_census_runs [OF n, THEN runs_mono];
        use n caps tables planning limits in \<open>simp add: usize_numeral\<close>)
    done
qed


lemma class_census_runs:
  assumes n: "length suffix \<le> 1000000"
  shows "runs (census_finish (observe_data (Bytes suffix) (length suffix) (observe_data (Class cls) 32
      (observe_block ReturnNone (observe_block ReturnFound (observe_block (AdvanceAfterReject again)
        (observe_block (ConfirmSuffix ds stop found rejected) (observe_block (ExtendClassRun dc grown)
          (observe_block (ScanClassStart dc start run none) (observe_block (Entry first) census_new)))))))))
      (32 + length suffix) validate_limits_default)
    (\<lambda>dims. dim_serialized_bytes dims = length suffix + 118 \<and> dim_serialized_bytes_u64 dims = length suffix + 118)"
proof -
  have "length suffix + 15 - (length suffix + 15) mod 16 \<le> 1000015" using n by simp
  then show ?thesis
    using n by (simp add: census_finish_def observe_data_def observe_block_def accumulate_checked_def census_new_def
        serialized_header_bytes_def align16_def validate_limits_default_def enforce_count_def usize_numeral)
qed

lemma preflight_class_runs:
  assumes small: "layout_small sizes" and n: "length suffix \<le> 1000000"
    and caps: "cap_blocks caps \<le> 71" "cap_data caps \<le> 66" "cap_literal caps (Suc 0) \<le> length suffix + 64"
    and planning: "pm_limit planning = 16777216" "pm_consumed planning \<le> 1000"
  shows "runs (preflight_dimensions sizes caps (class_raw kind cls suffix anchors) validate_limits_default planning)
    (\<lambda>(dims, planning'). dims_small dims \<and> pm_consumed planning' = pm_consumed planning + (7 + 2 + 2 * 2))"
proof -
  have sizes: "sz_block sizes \<le> 512" "sz_data_blob sizes \<le> 512" using small by (simp_all add: layout_small_def)
  have tables: "cap_blocks caps * sz_block sizes \<le> 71 * 512" "cap_data caps * sz_data_blob sizes \<le> 66 * 512"
    by (rule mult_le_mono [OF caps(1) sizes(1)], rule mult_le_mono [OF caps(2) sizes(2)])
  have limits: "max_validation_scratch_bytes validate_limits_default = 4096"
    "max_validation_work validate_limits_default = 8388608"
    "max_raw_program_capacity_bytes validate_limits_default = 2097152"
    by (simp_all add: validate_limits_default_def)
  show ?thesis
    unfolding preflight_dimensions_def fixed_shape_validation_work_upper_bound_def class_raw_def raw_program_of_def
      validation_work_upper_bound_def scan_step_def compare_step_def blob_compare_work_def data_census_step_def block_census_step_def blob_capacity_step_def
    apply (simp add: planning)
    apply (intro run_intros scratch_runs [OF small, THEN runs_mono];
        (use n caps tables planning limits in \<open>simp add: usize_numeral u32_max_def dims_small_def\<close>)?)
    apply (intro run_intros class_census_runs [OF n, THEN runs_mono];
        (use n caps tables planning limits in \<open>simp add: usize_numeral\<close>)?)
    done
qed

lemma headers_runs: "well_formed kind raw \<Longrightarrow> validate_headers kind raw = Inr ()"
  by (simp add: well_formed_def headers_ok_def validate_headers_def)

lemma validator_runs:
  assumes wf: "well_formed kind raw" and pre: "preflighted raw limits dims"
    and bound: "dim_validation_work_upper_bound dims \<le> max_validation_work limits"
  shows "runs (validator_run kind (validator_new raw (val_meter_new (max_validation_work limits)))) (\<lambda>_. True)"
proof -
  have "phase (well_formed kind raw) (validator_run kind (validator_new raw (val_meter_new (max_validation_work limits))))
      (\<lambda>meter. vm_consumed meter \<le> dim_validation_work_upper_bound dims)"
    by (rule validator_phases) (use pre bound in \<open>auto simp: preflighted_def\<close>)
  then show ?thesis using wf by (auto simp: phase_def safe_def runs_def split: sum.splits)
qed

lemma seal_runs:
  assumes small: "layout_small sizes" and wf: "well_formed kind raw"
    and pre: "preflighted raw validate_limits_default dims" and dims: "dims_small dims" and work: "work_small work"
    and serve: "serves reserve" and room: "length (encode raw) \<le> 1001000"
  shows "runs (seal_program sizes reserve sha256 kind raw validate_limits_default dims work) (\<lambda>_. True)"
proof -
  obtain capacity where reserve: "reserve (length (encode raw)) = Some capacity" "length (encode raw) \<le> capacity"
      "capacity \<le> length (encode raw) + 64"
    using serve by (rule servesE)
  have bytes: "dim_serialized_bytes dims = length (encode raw)" "capacity \<le> 1050000" "lengths_fit raw"
    using pre dims reserve(3) room by (auto simp: preflighted_def dims_small_def)
  have limits: "dim_validation_work_upper_bound dims \<le> max_validation_work validate_limits_default"
    using dims by (simp add: dims_small_def validate_limits_default_def)
  have ser: "runs (kir_serialize reserve sha256 raw (length (encode raw))
      (max_serialized_capacity_bytes validate_limits_default) (\<lambda>capacity.
        rbind (resource_accounting_of sizes dims work capacity used) (\<lambda>accounting.
        rbind (admit_accounting accounting validate_limits_default) (\<lambda>_. Inr accounting)))) (\<lambda>_. True)" for used
  proof -
    obtain acc where "resource_accounting_of sizes dims work capacity used = Inr acc"
      "admit_accounting acc validate_limits_default = Inr ()"
      using accounting_runs [OF small dims work bytes(2), of used] by (auto simp: runs_iff)
    then show ?thesis
      using reserve bytes room
      by (auto simp: runs_iff kir_serialize_Inr usize_numeral validate_limits_default_def rbind_eq_Inr)
  qed
  show ?thesis
    unfolding seal_program_def bytes(1)
    by (intro run_intros validator_runs [OF wf pre limits, THEN runs_mono]
          accounting_runs [OF small dims work, THEN runs_mono])
       (use room in \<open>auto simp: ser split: prod.split\<close>)
qed


lemma envelope_runs:
  assumes "b \<le> 7" "d \<le> 2"
  obtains envelope where "raw_metadata_planning_envelope b d = Inr envelope"
    "envelope_total envelope = Inr (4 + (b + d + d * d))"
proof -
  have "d = 0 \<or> d = 1 \<or> d = 2" using assms by auto
  then show ?thesis
    using assms that
    by (elim disjE) (simp_all add: raw_metadata_planning_envelope_def envelope_total_def raw_header_check_work_def
        usize_numeral)
qed

lemma validate_runs:
  fixes raw :: raw_program
  defines "planned \<equiv> length (raw_blocks raw) + length (raw_data raw) + length (raw_data raw) * length (raw_data raw)"
  assumes small: "layout_small sizes" and wf: "well_formed kind raw"
    and counts: "length (raw_blocks raw) \<le> 7" "length (raw_data raw) \<le> 2"
    and flight: "\<And>planning. pm_limit planning = 16777216 \<Longrightarrow> pm_consumed planning \<le> 1000 \<Longrightarrow>
      runs (preflight_dimensions sizes caps raw validate_limits_default planning)
        (\<lambda>(dims, planning'). dims_small dims \<and> pm_consumed planning' = pm_consumed planning + planned)"
    and seed: "seed_small seed" "cs_planning_work seed \<le> 900"
    and serve: "serves reserve" and room: "length (encode raw) \<le> 1001000"
  shows "runs (validate_accounted sizes caps reserve sha256 kind raw validate_limits_default seed) (\<lambda>_. True)"
proof -
  let ?cs = "cs_planning_work seed" and ?limits = validate_limits_default
  let ?start = "\<lparr>pm_limit = 16777216, pm_consumed = ?cs + 4\<rparr>"
  have few: "planned \<le> 13"
    using counts mult_le_mono [OF counts(2) counts(2)] by (simp add: planned_def)
  have admit: "admit_raw_shape_counts raw ?limits = Inr ()"
    using counts by (simp add: admit_raw_shape_counts_def enforce_count_def validate_limits_default_def hard_max_blocks_def)
  have planning: "planning_charge raw_header_check_work (planning_new ?cs (max_construction_work ?limits)) = Inr ?start"
    using seed by (simp add: planning_new_def raw_header_check_work_def validate_limits_default_def usize_numeral)
  obtain dims planning' where flown: "preflight_dimensions sizes caps raw ?limits ?start = Inr (dims, planning')"
    and dims: "dims_small dims" and consumed: "pm_consumed planning' = ?cs + (4 + planned)"
    using flight [of ?start] seed by (auto simp: runs_iff)
  have fits: "lengths_fit raw" using preflight_success(10) [OF flown] counts by (simp add: lengths_fit_def u32_max_def)
  have pre: "preflighted raw ?limits dims"
    using preflight_success [OF flown] fits counts
    by (simp add: preflighted_def hard_max_blocks_def usize_numeral validate_limits_default_def)
  have "seed_small (seed\<lparr>cs_planning_work := ?cs + (4 + planned)\<rparr>)" using seed few by (simp add: seed_small_def)
  note work = construction_runs [OF dims this]
  obtain envelope where envelope: "raw_metadata_planning_envelope (length (raw_blocks raw)) (length (raw_data raw)) = Inr envelope"
    "envelope_total envelope = Inr (4 + planned)"
    using envelope_runs [OF counts] unfolding planned_def .
  have budget: "?cs + (4 + planned) \<le> usize_max" "?cs + (4 + planned) \<le> max_construction_work ?limits"
    using seed few by (simp_all add: usize_numeral validate_limits_default_def)
  have tail: "runs (rbind (construction_work_new dims (seed\<lparr>cs_planning_work := ?cs + (4 + planned)\<rparr>)) (\<lambda>work.
      rbind (admit_prospective sizes dims work ?limits) (\<lambda>_.
      seal_program sizes reserve sha256 kind raw ?limits dims work))) (\<lambda>_. True)"
    by (intro run_intros work [THEN runs_mono]) (simp add: prospective_runs [OF small dims] seal_runs [where reserve = reserve, OF small wf pre dims _ serve room])
  show ?thesis
    unfolding validate_accounted_def planning rbind_Inr headers_runs [OF wf] admit envelope flown prod.case
      consumed uadd_fits [OF budget(1)] ok_or_simps enforce_work_def ensure_planning_complete_def
    using budget(2) tail by simp
qed

lemma validate_literal_runs:
  assumes small: "layout_small sizes" and n: "length literal \<le> 1000000"
    and caps: "cap_blocks caps \<le> 68" "cap_data caps \<le> 65" "cap_literal caps 0 \<le> length literal + 64"
    and seed: "seed_small seed" "cs_planning_work seed \<le> 900"
    and serve: "serves reserve"
  shows "runs (validate_accounted sizes caps reserve sha256 kind (literal_raw kind literal anchors)
    validate_limits_default seed) (\<lambda>_. True)"
proof -
  let ?raw = "literal_raw kind literal anchors"
  have counts: "length (raw_blocks ?raw) = 4" "length (raw_data ?raw) = 1"
    by (simp_all add: literal_raw_def raw_program_of_def)
  have room: "length (encode ?raw) \<le> 1001000"
    using n by (simp add: length_encode serialized_size_def literal_raw_def raw_program_of_def serialized_header_bytes_def)
  show ?thesis
    by (rule validate_runs [where reserve = reserve, OF small literal_well_formed _ _ _ seed serve room]; (unfold counts)?)
       (simp, simp, rule preflight_literal_runs [OF small n caps])
qed

lemma validate_class_runs:
  assumes small: "layout_small sizes" and n: "length suffix \<le> 1000000"
    and ok: "suffix \<noteq> []" "\<not> contains cls (hd suffix)" "\<not> class_is_empty cls"
    and caps: "cap_blocks caps \<le> 71" "cap_data caps \<le> 66" "cap_literal caps (Suc 0) \<le> length suffix + 64"
    and seed: "seed_small seed" "cs_planning_work seed \<le> 900"
    and serve: "serves reserve"
  shows "runs (validate_accounted sizes caps reserve sha256 kind (class_raw kind cls suffix anchors)
    validate_limits_default seed) (\<lambda>_. True)"
proof -
  let ?raw = "class_raw kind cls suffix anchors"
  have counts: "length (raw_blocks ?raw) = 7" "length (raw_data ?raw) = 2"
    by (simp_all add: class_raw_def raw_program_of_def)
  have room: "length (encode ?raw) \<le> 1001000"
    using n by (simp add: length_encode serialized_size_def class_raw_def raw_program_of_def serialized_header_bytes_def)
  show ?thesis
    by (rule validate_runs [where reserve = reserve, OF small class_well_formed [OF ok] _ _ _ seed serve room]; (unfold counts)?)
       (simp, simp, rule preflight_class_runs [OF small n caps])
qed

section \<open>The builders\<close>

lemma reserved_bytes_runs:
  assumes "layout_small sizes" "admission_small admission" "reserve len = Some capacity" "len \<le> capacity"
    "prior + capacity + remaining \<le> 1100000" "Q (capacity, prior + capacity)"
  shows "runs (reserved_bytes sizes reserve len prior remaining admission validate_limits_default) Q"
  unfolding reserved_bytes_def assms(3) ok_or_simps
  by (intro run_intros fixed_admit_runs [OF assms(1)])
     (use assms in \<open>auto simp: admission_small_def usize_numeral\<close>)

lemma reserved_vec_runs:
  assumes "layout_small sizes" "admission_small admission" "reserve len = Some capacity"
    "prior + capacity * item_size + remaining \<le> 1100000"
    "Q (\<lparr>fv_values = [], fv_capacity = capacity, fv_expected = len, fv_resource = resource\<rparr>,
        prior + capacity * item_size)"
  shows "runs (reserved_vec sizes reserve item_size len resource prior remaining admission validate_limits_default) Q"
  unfolding reserved_vec_def assms(3) ok_or_simps
  by (intro run_intros fixed_admit_runs [OF assms(1)])
     (use assms in \<open>auto simp: admission_small_def usize_numeral\<close>)

text \<open>An allocator of the builders all of whose four reservations are served.\<close>

definition allocation_serves :: "allocation \<Rightarrow> bool" where
  "allocation_serves alloc = (serves (al_literal alloc) \<and> serves (al_blocks alloc)
     \<and> serves (al_data alloc) \<and> serves (al_serialized alloc))"

lemma allocation_servesE:
  assumes "allocation_serves alloc"
  obtains literal blocks blobs where "al_literal alloc l = Some literal" "l \<le> literal" "literal \<le> l + 64"
    "al_blocks alloc b = Some blocks" "b \<le> blocks" "blocks \<le> b + 64"
    "al_data alloc d = Some blobs" "d \<le> blobs" "blobs \<le> d + 64" "serves (al_serialized alloc)"
  using assms unfolding allocation_serves_def by (metis servesE)

lemma build_literal_runs:
  assumes small: "layout_small sizes" and n: "length literal \<le> 1000000"
    and serve: "allocation_serves alloc"
    and extra: "hi \<le> 1" "hw \<le> 1000" "ret \<le> 512"
  shows "runs (build_exact_literal_accounted sizes alloc sha256 kind literal anchors validate_limits_default hi hw ret)
    (\<lambda>_. True)"
proof -
  let ?raw = "literal_raw kind literal anchors"
  have sizes: "sz_block sizes \<le> 512" "sz_data_blob sizes \<le> 512" using small by (simp_all add: layout_small_def)
  obtain cl cb cd where cl: "al_literal alloc (length literal) = Some cl" "length literal \<le> cl" "cl \<le> length literal + 64"
    and cb: "al_blocks alloc 4 = Some cb" "4 \<le> cb" "cb \<le> 4 + 64"
    and cd: "al_data alloc 1 = Some cd" "1 \<le> cd" "cd \<le> 1 + 64" and sealed: "serves (al_serialized alloc)"
    by (rule allocation_servesE [OF serve])
  have tables: "cb * sz_block sizes \<le> (4 + 64) * 512" "cd * sz_data_blob sizes \<le> (1 + 64) * 512"
    by (rule mult_le_mono [OF cb(3) sizes(1)], rule mult_le_mono [OF cd(3) sizes(2)])
  have limits: "length literal \<le> u32_max" "length literal \<le> max_data_bytes validate_limits_default"
    using n by (simp_all add: u32_max_def validate_limits_default_def)
  have code: "align16 (length literal + 15) + 240 \<le> 1048576" using n by (simp add: align16_def)
  have validate: "runs (validate_accounted sizes
      \<lparr>cap_blocks = cb, cap_data = cd, cap_literal = (\<lambda>_. cl)\<rparr> (al_serialized alloc) sha256 kind ?raw
      validate_limits_default (fs_seed admission)) (\<lambda>_. True)"
    if "admission_small admission" for admission
    by (rule validate_literal_runs [OF small n]) (use that sealed cl cb cd in \<open>auto simp: admission_small_def\<close>)
  show ?thesis
    unfolding build_exact_literal_accounted_def padded_length_def shape_work_factor_def allocation_bytes_def
    by (intro run_intros preflight_shape_runs [OF small _ extra, THEN runs_mono] limits code
          reserved_bytes_runs [where reserve = "al_literal alloc", OF small _ cl(1,2)]
          reserved_vec_runs [where reserve = "al_blocks alloc", OF small _ cb(1)]
          reserved_vec_runs [where reserve = "al_data alloc", OF small _ cd(1)])
       (use n sizes tables cl cb cd code validate in \<open>auto simp: shape_small_def usize_numeral initialize_bytes_def fixed_push_def
          fixed_finish_def literal_raw_def [symmetric] intro!: runs_lift\<close>)
qed

lemma build_class_runs:
  assumes small: "layout_small sizes" and n: "length suffix \<le> 1000000"
    and ok: "suffix \<noteq> []" "\<not> contains cls (hd suffix)" "\<not> class_is_empty cls"
    and serve: "allocation_serves alloc"
  shows "runs (build_class_suffix sizes alloc sha256 kind cls suffix anchors validate_limits_default) (\<lambda>_. True)"
proof -
  let ?raw = "class_raw kind cls suffix anchors"
  obtain first rest where suffix: "suffix = first # rest" using ok(1) by (cases suffix) auto
  have first: "contains cls first = False" "class_is_empty cls = False" using ok suffix by auto
  have sizes: "sz_block sizes \<le> 512" "sz_data_blob sizes \<le> 512" using small by (simp_all add: layout_small_def)
  obtain cl cb cd where cl: "al_literal alloc (length suffix) = Some cl" "length suffix \<le> cl" "cl \<le> length suffix + 64"
    and cb: "al_blocks alloc 7 = Some cb" "7 \<le> cb" "cb \<le> 7 + 64"
    and cd: "al_data alloc 2 = Some cd" "2 \<le> cd" "cd \<le> 2 + 64" and sealed: "serves (al_serialized alloc)"
    by (rule allocation_servesE [OF serve])
  have tables: "cb * sz_block sizes \<le> (7 + 64) * 512" "cd * sz_data_blob sizes \<le> (2 + 64) * 512"
    by (rule mult_le_mono [OF cb(3) sizes(1)], rule mult_le_mono [OF cd(3) sizes(2)])
  have limits: "length suffix \<le> u32_max" "length suffix \<le> max_data_bytes validate_limits_default"
    using n by (simp_all add: u32_max_def validate_limits_default_def)
  have code: "align16 (length suffix + 15) + 624 \<le> 1048576" using n by (simp add: align16_def)
  have validate: "runs (validate_accounted sizes
      \<lparr>cap_blocks = cb, cap_data = cd, cap_literal = (\<lambda>_. cl)\<rparr> (al_serialized alloc) sha256 kind ?raw
      validate_limits_default (fs_seed admission)) (\<lambda>_. True)"
    if "admission_small admission" for admission
    by (rule validate_class_runs [OF small n ok]) (use that sealed cl cb cd in \<open>auto simp: admission_small_def\<close>)
  show ?thesis
    unfolding build_class_suffix_def padded_length_def shape_work_factor_def allocation_bytes_def
    by (simp only: suffix list.case first if_False)
       (intro run_intros preflight_shape_runs [OF small, THEN runs_mono] limits [unfolded suffix] code [unfolded suffix]
          reserved_bytes_runs [where reserve = "al_literal alloc", OF small _ cl(1,2) [unfolded suffix]]
          reserved_vec_runs [where reserve = "al_blocks alloc", OF small _ cb(1)]
          reserved_vec_runs [where reserve = "al_data alloc", OF small _ cd(1)],
        use n sizes tables cl cb cd code validate in \<open>auto simp: shape_small_def usize_numeral initialize_bytes_def fixed_push_def
          fixed_finish_def class_raw_def [symmetric] suffix intro!: runs_lift\<close>)
qed

lemma build_aggregate_runs:
  assumes small: "layout_small sizes" and n: "length literal \<le> max_exact_aggregate_literal_bytes"
    and serve: "allocation_serves alloc"
  shows "runs (build_exact_aggregate sizes alloc sha256 output literal validate_limits_default) (\<lambda>_. True)"
proof -
  have n': "length literal \<le> 32" using n by (simp add: max_exact_aggregate_literal_bytes_def)
  have "runs (build_exact_literal_accounted sizes alloc sha256 Span literal anchors_default validate_limits_default 1
      (63 + length literal) (sz_aggregate_program sizes - sz_validated_program sizes)) (\<lambda>_. True)"
    by (rule build_literal_runs [OF small _ serve]) (use n' small in \<open>auto simp: layout_small_def\<close>)
  then show ?thesis
    using n' by (auto simp: build_exact_aggregate_def max_exact_aggregate_literal_bytes_def aggregate_identity_domain_def
        usize_numeral runs_iff)
qed

end
