(* ===== verification/KirTyping.thy ===== *)
theory KirTyping
  imports KirValidate KirInterp
begin

text \<open>
  Flow states are the types of \<^verbatim>\<open>validate.rs\<close> for the states of the machine of \<^verbatim>\<open>interpret.rs\<close>: a
  program that passes the target and flow phase of the validator, whatever its topology, keeps
  the machine in a state its current block accepts, so that it never raises
  \<^verbatim>\<open>ExecuteError::InternalInvariant\<close>.
\<close>

fun flow_type :: "flow \<Rightarrow> flow_state" where
  "flow_type Initial = FInitial"
| "flow_type (Cursor _) = FCursor"
| "flow_type (Run _ _) = FRun"
| "flow_type (Match _) = FMatch"
| "flow_type Exhausted = FExhausted"
| "flow_type (Rejected _) = FRejected"

definition typed :: "raw_program \<Rightarrow> block_id \<Rightarrow> flow \<Rightarrow> bool" where
  "typed raw pc st = (block_index pc < length (raw_blocks raw)
     \<and> required_state (raw_blocks raw ! block_index pc) = flow_type st)"

fun external :: "execute_error \<Rightarrow> bool" where
  "external (InternalInvariant _) = False"
| "external _ = True"

text \<open>\<open>outward m\<close>: the computation does not raise the internal error.\<close>

definition outward :: "execute_error + 'a \<Rightarrow> bool" where
  "outward m = safe external m (\<lambda>_. True)"

lemma outward_Inr [simp]: "outward (Inr x)"
  by (simp add: outward_def)

lemma outward_bind: "outward m \<Longrightarrow> (\<And>x. m = Inr x \<Longrightarrow> outward (f x)) \<Longrightarrow> outward (rbind m f)"
  by (cases m) (auto simp: outward_def)

lemma outward_tick [simp]: "outward (meter_tick meter)"
  by (simp add: outward_def meter_tick_def ok_or_def split: option.split)

lemma outward_position [simp]: "outward (next_position p n)"
  by (simp add: outward_def next_position_def ok_or_def split: option.split)

lemma outward_byte [simp]: "outward (byte_at h p)"
  by (simp add: outward_def byte_at_def)

lemma outward_matches_loop [simp]: "outward (matches_loop h s k needle meter)"
  by (induction h s k needle meter rule: matches_loop.induct) (auto intro!: outward_bind)

lemma outward_matches_at [simp]: "outward (matches_at h w s needle meter)"
  by (simp add: matches_at_def split: option.split)

lemma outward_literal_loop [simp]: "outward (literal_loop h w c f needle meter)"
proof (induction h w c f needle meter rule: literal_loop.induct)
  case (1 h w c f needle meter)
  show ?case by (subst literal_loop.simps) (auto intro!: outward_bind "1.IH")
qed

lemma outward_find_literal [simp]: "outward (find_literal h w c needle anchors meter)"
  by (auto simp: find_literal_def intro!: outward_bind split: option.split)

lemma outward_class_loop [simp]: "outward (class_loop h stop p cls meter)"
proof (induction h stop p cls meter rule: class_loop.induct)
  case (1 h stop p cls meter)
  show ?case by (subst class_loop.simps) (auto intro!: outward_bind "1.IH")
qed

lemma outward_find_class [simp]: "outward (find_class_start h w c cls anchored meter)"
  by (auto simp: find_class_start_def intro!: outward_bind)

lemma outward_extend_loop [simp]: "outward (extend_loop h limit cls stop meter)"
proof (induction h limit cls stop meter rule: extend_loop.induct)
  case (1 h limit cls stop meter)
  show ?case by (subst extend_loop.simps) (auto intro!: outward_bind "1.IH")
qed

section \<open>Preservation and progress\<close>

lemma flow_block_ok:
  assumes "flow_ok raw" "block_index pc < length (raw_blocks raw)"
  shows "block_ok raw (raw_blocks raw ! block_index pc)"
  using assms by (auto simp: flow_ok_def)

lemma typed_bytes:
  assumes "reference_ok (vp_raw program) op d" "required_state op = FCursor \<or> required_state op = FRun"
    and "\<And>cls. data_kind_ok op (Class cls) = False"
  shows "\<exists>bs. program_bytes program (data_no d) pc = Inr bs"
  using assms by (cases "raw_data (vp_raw program) ! data_index d")
    (auto simp: reference_ok_def program_bytes_def data_index_def)

lemma typed_class:
  assumes "reference_ok (vp_raw (m_program mc)) op d" and "\<And>bs. data_kind_ok op (Bytes bs) = False"
  shows "\<exists>cls. program_class mc (data_no d) = Inr cls"
  using assms by (cases "raw_data (vp_raw (m_program mc)) ! data_index d")
    (auto simp: reference_ok_def program_class_def data_index_def)

definition well_typed :: "machine \<Rightarrow> bool" where
  "well_typed mc = typed (vp_raw (m_program mc)) (m_pc mc) (m_state mc)"

lemma edge_typed: "edge_ok raw (target, flow_type st) \<Longrightarrow> typed raw target st"
  by (simp add: edge_ok_def typed_def)

lemma step_outward:
  assumes "flow_ok (vp_raw (m_program mc))" "well_typed mc"
  shows "outward (machine_step mc)"
proof -
  let ?raw = "vp_raw (m_program mc)"
  let ?op = "raw_blocks ?raw ! block_index (m_pc mc)"
  have pc: "unat (block_no (m_pc mc)) < length (raw_blocks ?raw)" and st: "required_state ?op = flow_type (m_state mc)"
    using assms(2) by (auto simp: well_typed_def typed_def block_index_def)
  have ok: "block_ok ?raw ?op" using flow_block_ok assms pc by (simp add: block_index_def)
  show ?thesis
  proof (cases ?op)
    case (ScanLiteral needle anchors matched exhausted)
    obtain bs where "program_bytes (m_program mc) (data_no needle) (m_pc mc) = Inr bs"
      using typed_bytes [of "m_program mc" ?op needle] ok ScanLiteral by (auto simp: block_ok_def)
    then show ?thesis using pc st ScanLiteral
      by (cases "m_state mc")
         (auto simp: machine_step_def scan_literal_def block_index_def intro!: outward_bind split: option.split)
  next
    case (ScanClassStart cls anchored run exhausted)
    obtain c where "program_class mc (data_no cls) = Inr c"
      using typed_class [of mc ?op cls] ok ScanClassStart by (auto simp: block_ok_def)
    then show ?thesis using pc st ScanClassStart
      by (cases "m_state mc")
         (auto simp: machine_step_def scan_class_def block_index_def intro!: outward_bind split: option.split)
  next
    case (ExtendClassRun cls after)
    obtain c where "program_class mc (data_no cls) = Inr c"
      using typed_class [of mc ?op cls] ok ExtendClassRun by (auto simp: block_ok_def)
    then show ?thesis using pc st ExtendClassRun
      by (cases "m_state mc") (auto simp: machine_step_def extend_class_def block_index_def intro!: outward_bind)
  next
    case (ConfirmSuffix suffix anchored matched rejected)
    obtain bs where "program_bytes (m_program mc) (data_no suffix) (m_pc mc) = Inr bs"
      using typed_bytes [of "m_program mc" ?op suffix] ok ConfirmSuffix by (auto simp: block_ok_def)
    then show ?thesis using pc st ConfirmSuffix
      by (cases "m_state mc")
         (auto simp: machine_step_def confirm_suffix_def block_index_def Let_def intro!: outward_bind)
  qed (use pc st in \<open>cases "m_state mc"; auto simp: machine_step_def block_index_def\<close>)+
qed

lemma step_typed:
  assumes "flow_ok (vp_raw (m_program mc))" "well_typed mc" "machine_step mc = Inr (Continue, mc')"
  shows "well_typed mc' \<and> m_program mc' = m_program mc"
proof -
  let ?raw = "vp_raw (m_program mc)"
  let ?op = "raw_blocks ?raw ! block_index (m_pc mc)"
  have pc: "unat (block_no (m_pc mc)) < length (raw_blocks ?raw)"
    using assms(2) by (auto simp: well_typed_def typed_def block_index_def)
  have ok: "block_ok ?raw ?op" using flow_block_ok assms(1) pc by (simp add: block_index_def)
  show ?thesis
    using assms(3) ok pc
    by (cases ?op)
       (auto simp: machine_step_def scan_literal_def scan_class_def extend_class_def confirm_suffix_def block_index_def
          block_ok_def well_typed_def Let_def rbind_eq_Inr split: flow.splits option.splits if_splits
          intro!: edge_typed)
qed

lemma run_outward:
  assumes "flow_ok (vp_raw (m_program mc))" "well_typed mc"
  shows "outward (machine_run mc)"
  using assms
proof (induction mc rule: machine_run.induct)
  case (1 mc)
  show ?case
  proof (subst machine_run.simps, rule outward_bind, simp, rule outward_bind)
    fix meter assume tick: "meter_tick (m_meter mc) = Inr meter"
    let ?mc = "mc\<lparr>m_meter := meter\<rparr>"
    have typed: "flow_ok (vp_raw (m_program ?mc))" "well_typed ?mc" using "1.prems" by (simp_all add: well_typed_def)
    then show "outward (machine_step ?mc)" by (rule step_outward)
    fix x assume step: "machine_step ?mc = Inr x"
    obtain c mc' where x: "x = (c, mc')" by (cases x)
    show "outward (case x of (control, mc') \<Rightarrow> case control of Return found \<Rightarrow> Inr (found, mc') | Continue \<Rightarrow> machine_run mc')"
    proof (cases c)
      case Continue
      note kept = step_typed [OF typed step [unfolded x Continue]]
      have "outward (machine_run mc')"
        by (rule "1.IH" [OF tick step x [symmetric] Continue]) (use kept typed(1) in simp_all)
      then show ?thesis by (simp add: x Continue)
    qed (simp add: x)
  qed
qed

lemma execute_outward:
  assumes "flow_ok (vp_raw program)"
  shows "outward (execute kind program haystack window limits)"
proof (cases "window_valid window (length haystack)")
  case True
  let ?mc = "\<lparr>m_program = program, m_haystack = haystack, m_window = window,
      m_pc = raw_entry (vp_raw program), m_state = Initial, m_meter = meter_new (exec_max_work limits)\<rparr>"
  have "well_typed ?mc"
    using assms by (cases "raw_blocks (vp_raw program) ! block_index (raw_entry (vp_raw program))")
      (auto simp: well_typed_def typed_def flow_ok_def)
  then have "outward (machine_run ?mc)" using assms by (intro run_outward) simp_all
  then show ?thesis unfolding execute_def using True by (auto intro!: outward_bind)
qed (simp add: execute_def outward_def)

end
