(* ===== verification/KirAgree.thy ===== *)
theory KirAgree
  imports KirLive KirTyping
begin

text \<open>
  The properties of \<^verbatim>\<open>crates/fre-kernel-ir\<close>, from a raw program or a literal to the result of a search
  or an aggregate, with concrete programs as their witnesses.
\<close>

section \<open>Accepted programs\<close>

lemma canonical_shape: "canonical raw shape \<Longrightarrow> program_shape raw shape"
  by (cases shape) auto

lemma well_formed_shape:
  assumes "well_formed kind raw"
  obtains shape where "program_shape raw shape"
  using assms canonical_shape by (auto simp: well_formed_def topology_ok_def)

lemma blob_at_mem: "blob_at raw d blob \<Longrightarrow> blob \<in> set (raw_data raw)"
  unfolding blob_at_def by (metis nth_mem)

lemma shape_bytes_stored:
  assumes "program_shape raw shape"
  shows "Bytes (shape_bytes shape) \<in> set (raw_data raw)"
proof (cases shape)
  case (LiteralShape needle anchors)
  with assms obtain d where "blob_at raw d (Bytes needle)" by (auto simp: literal_program_def)
  then show ?thesis using LiteralShape by (simp add: blob_at_mem)
next
  case (ClassSuffixShape cls suffix anchors)
  with assms obtain d where "blob_at raw d (Bytes suffix)" by (auto simp: class_program_def)
  then show ?thesis using ClassSuffixShape by (simp add: blob_at_mem)
qed

lemma accepted_bound:
  assumes "accepted sha256 kind raw limits program" "program_shape raw shape"
    and "conservative_work_bound program width = Inr bound"
  shows "(width + 1) * (length (shape_bytes shape) + 8) + 8 \<le> bound"
proof -
  have "length (shape_bytes shape) + 8 \<le> st_work_factor (vp_stats program)"
    using longest_literal_upper [OF shape_bytes_stored [OF assms(2)]] assms(1) by (simp add: accepted_def)
  then have "(width + 1) * (length (shape_bytes shape) + 8) \<le> (width + 1) * st_work_factor (vp_stats program)"
    by (rule mult_le_mono2)
  then show ?thesis using assms(3) by (auto simp: conservative_work_bound_def bind_eq_Some_conv)
qed

lemma validate_accepted:
  assumes "allocator_ok reserve" "max_serialized_bytes limits \<le> usize_max"
    and "validate sizes caps reserve sha256 kind raw limits = Inr program"
  shows "accepted sha256 kind raw limits program"
  using validate_accounted_outcome [of reserve limits kind raw sizes caps sha256 seed_default] assms
  by (auto simp: validate_def allocator_ok_def)

text \<open>
  The outcome of a search: within \<open>bound\<close> and the budget it reports the leftmost match of the
  shape in the window, projected to the output kind; the only error is a budget below \<open>bound\<close>.
\<close>

definition search_outcome ::
  "output_kind \<Rightarrow> kernel_shape \<Rightarrow> bytes \<Rightarrow> search_window \<Rightarrow> nat \<Rightarrow> nat \<Rightarrow> execute_error + execution_report \<Rightarrow> bool" where
  "search_outcome kind shape haystack window budget bound result =
     (case result of
        Inl e \<Rightarrow> e = WorkLimitExceeded budget budget \<and> budget < bound
      | Inr report \<Rightarrow> report_work report \<le> bound \<and> report_work report \<le> budget
          \<and> (\<exists>found. report_output report = project kind found \<and> kernel_found shape haystack window found))"

definition shape_bound :: "kernel_shape \<Rightarrow> search_window \<Rightarrow> nat" where
  "shape_bound shape window = (window_end window - window_start window + 1) * (length (shape_bytes shape) + 8) + 8"

lemma shape_search:
  assumes "program_shape (vp_raw program) shape" "window_valid window (length haystack)"
    "length haystack \<le> usize_max" "exec_max_work elimits \<le> usize_max"
  shows "search_outcome kind shape haystack window (exec_max_work elimits) (shape_bound shape window)
    (execute kind program haystack window elimits)"
  using execute_outcome [OF assms(1,3,2,4), of kind] unfolding search_outcome_def shape_bound_def .

lemma search_outcome_mono:
  assumes "search_outcome kind shape haystack window budget bound result" "bound \<le> bound'"
  shows "search_outcome kind shape haystack window budget bound' result"
  using assms by (auto simp: search_outcome_def split: sum.splits)

lemma accepted_search:
  assumes ok: "accepted sha256 kind raw limits program" and shape: "program_shape raw shape"
    and bound: "conservative_work_bound program (window_end window - window_start window) = Inr bound"
    and run: "window_valid window (length haystack)" "length haystack \<le> usize_max" "exec_max_work elimits \<le> usize_max"
  shows "search_outcome kind shape haystack window (exec_max_work elimits) bound
    (execute kind program haystack window elimits)"
proof (rule search_outcome_mono [OF shape_search [OF _ run]])
  show "program_shape (vp_raw program) shape" using ok shape by (simp add: accepted_def)
  show "shape_bound shape window \<le> bound" using accepted_bound [OF ok shape bound] by (simp add: shape_bound_def)
qed


section \<open>Searches as abstract iteration steps\<close>

lemma next_match_SomeI:
  assumes "sel s = Some e" "cursor \<le> s" "s \<le> n" "\<And>t. cursor \<le> t \<Longrightarrow> t < s \<Longrightarrow> sel t = None"
  shows "next_match n sel cursor = Some (s, e)"
proof (cases "next_match n sel cursor")
  case None
  with assms show ?thesis by (auto simp: next_match_None_iff)
next
  case (Some se)
  obtain t f where se: "se = (t, f)" by (cases se)
  note t = next_match_Some [OF Some [unfolded se]]
  have "\<not> t < s" using t assms(4) [of t] by auto
  moreover have "\<not> s < t" using next_match_leftmost [OF Some [unfolded se] assms(2)] assms(1) by auto
  ultimately have "t = s" by simp
  with t assms(1) Some se show ?thesis by simp
qed

text \<open>An unanchored literal search over the rest of a haystack is one step of the abstract iteration.\<close>

lemma literal_found_next:
  assumes found: "kernel_found (LiteralShape literal anchors_default) h (window_new cursor (length h)) found"
  shows "map_option (\<lambda>span. (span_start span, span_end span)) found = next_match (length h) (literal_sel literal h) cursor"
proof -
  let ?match = "kernel_match (LiteralShape literal anchors_default) h (window_new cursor (length h))"
  have sel: "?match s e \<longleftrightarrow> literal_sel literal h s = Some e" if "cursor \<le> s" for s e
    using that by (auto simp: kernel_match.simps within_def anchors_hold_def anchors_default_def window_new_def
        slice_def literal_sel_def)
  have none: "literal_sel literal h s = None" if "cursor \<le> s" "\<And>e. \<not> ?match s e" for s
    using sel [OF that(1)] that(2) by (cases "literal_sel literal h s") auto
  show ?thesis
  proof (cases found)
    case None
    then have "literal_sel literal h s = None" if "cursor \<le> s" for s
      using found that by (intro none) (auto simp: kernel_found_def window_new_def)
    then show ?thesis using None next_match_None_iff [of "length h" "literal_sel literal h" cursor] by simp
  next
    case (Some span)
    let ?s = "span_start span" and ?e = "span_end span"
    have le: "cursor \<le> ?s" and hit: "?match ?s ?e" and before: "\<And>t e. cursor \<le> t \<Longrightarrow> t < ?s \<Longrightarrow> \<not> ?match t e"
      using found Some by (auto simp: kernel_found_def first_from_def window_new_def)
    have "next_match (length h) (literal_sel literal h) cursor = Some (?s, ?e)"
    proof (rule next_match_SomeI)
      show at: "literal_sel literal h ?s = Some ?e" using sel [OF le] hit by simp
      show "?s \<le> length h" using at by (auto simp: literal_sel_def split: if_splits)
      show "literal_sel literal h t = None" if "cursor \<le> t" "t < ?s" for t
        using that before by (intro none) auto
    qed (rule le)
    then show ?thesis using Some by simp
  qed
qed


section \<open>A concrete platform\<close>

text \<open>Type sizes and an allocator that serves every request exactly, for the witnesses.\<close>

definition platform :: layout where
  "platform = \<lparr>sz_bool = 1, sz_usize = 8, sz_block = 20, sz_data_blob = 40, sz_validator = 80,
     sz_raw_program = 72, sz_validated_program = 480, sz_aggregate_program = 512, sz_vec_u8 = 24,
     sz_fixed_writer = 24, sz_sha256 = 112, sz_digest = 32, sz_validate_limits = 160,
     sz_dimensions = 80, sz_census = 64, sz_planning_envelope = 40, sz_planning_meter = 16,
     sz_construction_seed = 88, sz_construction_work = 112, sz_phase_peaks = 32,
     sz_resource_accounting = 200, sz_block_slots8 = 64, sz_block_slots2 = 16,
     sz_flow_states2 = 2, sz_data_slots1 = 16, sz_class_shape = 48\<rparr>"

definition exact_allocation :: allocation where
  "exact_allocation = \<lparr>al_literal = Some, al_blocks = Some, al_data = Some, al_serialized = Some\<rparr>"

lemma platform_small: "layout_small platform"
  by (simp add: layout_small_def platform_def)

lemma exact_allocation_ok: "allocation_ok exact_allocation" "allocator_ok Some"
  by (simp_all add: allocation_ok_def exact_allocation_def allocator_ok_def)

lemma exact_allocation_serves: "allocation_serves exact_allocation" "serves Some"
  by (simp_all add: allocation_serves_def exact_allocation_def serves_def)

lemma default_limits_wide: "max_serialized_bytes validate_limits_default \<le> usize_max"
  by (simp add: validate_limits_default_def usize_numeral)

lemma platform_literal:
  assumes "length literal \<le> 1000000"
  obtains program where
    "build_exact_literal platform exact_allocation sha256 kind literal anchors validate_limits_default = Inr program"
  using build_literal_runs [OF platform_small assms exact_allocation_serves(1), of 0 0 0 sha256 kind anchors]
  by (auto simp: build_exact_literal_def runs_iff)

lemma platform_class:
  assumes "length suffix \<le> 1000000" "suffix \<noteq> []" "\<not> contains cls (hd suffix)" "\<not> class_is_empty cls"
  obtains program where
    "build_class_suffix platform exact_allocation sha256 kind cls suffix anchors validate_limits_default = Inr program"
  using build_class_runs [OF platform_small assms exact_allocation_serves(1), of sha256 kind anchors]
  by (auto simp: runs_iff)

lemma platform_validate:
  assumes "length literal \<le> 1000000" "cap_blocks caps = 4" "cap_data caps = 1" "cap_literal caps 0 = length literal"
  obtains program where
    "validate platform caps Some sha256 kind (literal_raw kind literal anchors) validate_limits_default = Inr program"
  using validate_literal_runs [OF platform_small assms(1), of caps seed_default Some sha256 kind anchors]
    exact_allocation_serves(2) assms
  by (auto simp: validate_def runs_iff seed_small_def seed_default_def)

lemma platform_aggregate:
  assumes "length literal \<le> max_exact_aggregate_literal_bytes"
  obtains program where
    "build_exact_aggregate platform exact_allocation sha256 output literal validate_limits_default = Inr program"
  using build_aggregate_runs [OF platform_small assms exact_allocation_serves(1), of sha256 "output"]
  by (auto simp: runs_iff)


section \<open>Searches\<close>

text \<open>
  C21: on a valid window (\<^verbatim>\<open>execute\<close> refuses a range outside the haystack with \<^verbatim>\<open>InvalidWindow\<close>),
  a search with a program \<^verbatim>\<open>build_exact_literal\<close> returns reports, in the program's output kind, the
  leftmost occurrence of the literal inside the window that satisfies the anchors, and no
  occurrence exactly when there is none. It takes at most \<open>(width + 1) * (length + 8) + 8\<close>
  work, and the only error it can raise is the exhaustion of a smaller budget.
\<close>

theorem kir_literal_search:
  assumes "allocation_ok alloc" "max_serialized_bytes limits \<le> usize_max"
    and "build_exact_literal sizes alloc sha256 kind literal anchors limits = Inr program"
    and "window_valid window (length haystack)" "length haystack \<le> usize_max" "exec_max_work elimits \<le> usize_max"
  shows "search_outcome kind (LiteralShape literal anchors) haystack window (exec_max_work elimits)
    ((window_end window - window_start window + 1) * (length literal + 8) + 8)
    (execute kind program haystack window elimits)"
proof -
  have "vp_raw program = literal_raw kind literal anchors"
    using build_literal_outcome [OF assms(1,2), of sizes sha256 kind literal anchors 0 0 0] assms(3)
    by (simp add: build_exact_literal_def accepted_def)
  then have "program_shape (vp_raw program) (LiteralShape literal anchors)"
    using canonical_shape [OF literal_canonical] by simp
  from shape_search [OF this assms(4-6), of kind] show ?thesis by (simp add: shape_bound_def)
qed

text \<open>The literal \<^verbatim>\<open>ab\<close> in the haystack \<^verbatim>\<open>xab\<close>.\<close>

theorem kir_literal_search_witness:
  "\<exists>program. build_exact_literal platform exact_allocation (take 32) Span [97, 98] anchors_default validate_limits_default
       = Inr program
     \<and> search_outcome Span (LiteralShape [97, 98] anchors_default) [120, 97, 98] (window_new 0 3) 100
       ((3 - 0 + 1) * (2 + 8) + 8) (execute Span program [120, 97, 98] (window_new 0 3) \<lparr>exec_max_work = 100\<rparr>)"
proof -
  obtain program where built: "build_exact_literal platform exact_allocation (take 32) Span [97, 98] anchors_default
      validate_limits_default = Inr program"
    by (rule platform_literal [of "[97, 98]"]) simp
  with kir_literal_search [OF exact_allocation_ok(1) default_limits_wide built,
      of "window_new 0 3" "[120, 97, 98]" "\<lparr>exec_max_work = 100\<rparr>"]
  show ?thesis by (auto simp: window_new_def window_valid_def usize_numeral)
qed

lemma built_class_search:
  assumes "allocation_ok alloc" "max_serialized_bytes limits \<le> usize_max"
    and "build_class_suffix sizes alloc sha256 kind cls suffix anchors limits = Inr program"
    and "window_valid window (length haystack)" "length haystack \<le> usize_max" "exec_max_work elimits \<le> usize_max"
  shows "search_outcome kind (ClassSuffixShape cls suffix anchors) haystack window (exec_max_work elimits)
    ((window_end window - window_start window + 1) * (length suffix + 8) + 8)
    (execute kind program haystack window elimits)"
proof -
  have ok: "suffix \<noteq> []" "\<not> contains cls (hd suffix)" "\<not> class_is_empty cls"
    using build_class_refuses [of suffix cls sizes alloc sha256 kind anchors limits] assms(3) by auto
  then have "vp_raw program = class_raw kind cls suffix anchors"
    using build_class_outcome [OF assms(1,2) ok, of sizes sha256 kind anchors] assms(3) by (simp add: accepted_def)
  then have "program_shape (vp_raw program) (ClassSuffixShape cls suffix anchors)"
    using canonical_shape [OF class_canonical [OF ok(1,2)]] by simp
  from shape_search [OF this assms(4-6), of kind] show ?thesis by (simp add: shape_bound_def)
qed

text \<open>
  C22: on a valid window, a search with a program \<^verbatim>\<open>build_class_suffix\<close> returns reports the leftmost span that is a
  non-empty run of bytes of the class followed by the suffix, inside the window and satisfying
  the anchors; its work is within the same bound, and the only error is a smaller budget.
\<close>

theorem kir_class_search:
  assumes "allocation_ok alloc" "max_serialized_bytes limits \<le> usize_max"
    and "build_class_suffix sizes alloc sha256 kind cls suffix anchors limits = Inr program"
    and "window_valid window (length haystack)" "length haystack \<le> usize_max" "exec_max_work elimits \<le> usize_max"
  shows "search_outcome kind (ClassSuffixShape cls suffix anchors) haystack window (exec_max_work elimits)
    ((window_end window - window_start window + 1) * (length suffix + 8) + 8)
    (execute kind program haystack window elimits)"
  by (rule built_class_search [OF assms])

text \<open>One or more of \<^verbatim>\<open>a\<close>, \<^verbatim>\<open>b\<close> and then \<^verbatim>\<open>!\<close>, in \<^verbatim>\<open>xab!\<close>.\<close>

theorem kir_class_search_witness:
  "\<exists>program. build_class_suffix platform exact_allocation (take 32) Span (from_bytes [97, 98]) [33] anchors_default
       validate_limits_default = Inr program
     \<and> search_outcome Span (ClassSuffixShape (from_bytes [97, 98]) [33] anchors_default) [120, 97, 98, 33]
       (window_new 0 4) 200 ((4 - 0 + 1) * (1 + 8) + 8)
       (execute Span program [120, 97, 98, 33] (window_new 0 4) \<lparr>exec_max_work = 200\<rparr>)"
proof -
  have "\<not> class_is_empty (from_bytes [97, 98])" by (auto simp: class_is_empty_iff)
  then obtain program where built: "build_class_suffix platform exact_allocation (take 32) Span (from_bytes [97, 98]) [33]
      anchors_default validate_limits_default = Inr program"
    using platform_class [of "[33]" "from_bytes [97, 98]" "take 32" Span anchors_default] by auto
  with kir_class_search [OF exact_allocation_ok(1) default_limits_wide built,
      of "window_new 0 4" "[120, 97, 98, 33]" "\<lparr>exec_max_work = 200\<rparr>"]
  show ?thesis by (auto simp: window_new_def window_valid_def usize_numeral)
qed

text \<open>
  Searching with a built, unanchored literal program from a cursor to the end of the haystack,
  with an unlimited budget, is one step of the abstract iteration: it returns the first
  position at or after the cursor where the literal stands, with its end.
\<close>

lemma kir_search_step:
  assumes "allocation_ok alloc" "max_serialized_bytes limits \<le> usize_max"
    and "build_exact_literal sizes alloc sha256 Span literal anchors_default limits = Inr program"
    and "cursor \<le> length haystack" "(length haystack + 1) * (length literal + 8) + 8 \<le> usize_max"
  shows "\<exists>report found. execute Span program haystack (window_new cursor (length haystack)) execution_unlimited = Inr report
    \<and> report_output report = SpanOutput found
    \<and> map_option (\<lambda>span. (span_start span, span_end span)) found
        = next_match (length haystack) (literal_sel literal haystack) cursor"
proof -
  let ?window = "window_new cursor (length haystack)"
  have raw: "vp_raw program = literal_raw Span literal anchors_default"
    using build_literal_outcome [OF assms(1,2), of sizes sha256 Span literal anchors_default 0 0 0] assms(3)
    by (simp add: build_exact_literal_def accepted_def)
  have valid: "window_valid ?window (length haystack)" "exec_max_work execution_unlimited \<le> usize_max"
    using assms(4) by (auto simp: window_valid_def window_new_def execution_unlimited_def)
  have fits: "length haystack \<le> usize_max"
    using mult_le_mono [of "length haystack" "length haystack + 1" 1 "length literal + 8"] assms(5) by linarith
  have "search_outcome Span (LiteralShape literal anchors_default) haystack ?window (exec_max_work execution_unlimited)
      (shape_bound (LiteralShape literal anchors_default) ?window) (execute Span program haystack ?window execution_unlimited)"
    by (rule shape_search [OF _ valid(1) fits valid(2)]) (use raw canonical_shape [OF literal_canonical] in simp)
  moreover have "shape_bound (LiteralShape literal anchors_default) ?window \<le> exec_max_work execution_unlimited"
  proof (rule order_trans)
    show "shape_bound (LiteralShape literal anchors_default) ?window \<le> (length haystack + 1) * (length literal + 8) + 8"
      unfolding shape_bound_def by (intro add_mono mult_le_mono) (simp_all add: window_new_def)
  qed (use assms(5) in \<open>simp add: execution_unlimited_def\<close>)
  ultimately show ?thesis
    by (auto simp: search_outcome_def dest!: literal_found_next split: sum.splits)
qed

text \<open>
  C23: the work bound a validated program publishes is sound, for whatever program passed the
  validator. The program is a literal or a class-suffix kernel, and on a valid window a search with a budget of at
  least \<^verbatim>\<open>conservative_work_bound\<close> for the width of its window always returns the leftmost match of
  that kernel in the window, within the bound; a smaller budget can only exhaust.
\<close>

theorem kir_work_bound:
  assumes "allocator_ok reserve" "max_serialized_bytes limits \<le> usize_max"
    and "validate sizes caps reserve sha256 kind raw limits = Inr program"
    and "conservative_work_bound program (window_end window - window_start window) = Inr bound"
    and "window_valid window (length haystack)" "length haystack \<le> usize_max" "exec_max_work elimits \<le> usize_max"
  shows "\<exists>shape. program_shape raw shape
    \<and> search_outcome kind shape haystack window (exec_max_work elimits) bound (execute kind program haystack window elimits)"
proof -
  have ok: "accepted sha256 kind raw limits program" by (rule validate_accepted [OF assms(1-3)])
  then obtain shape where "program_shape raw shape" by (auto simp: accepted_def elim: well_formed_shape)
  with accepted_search [OF ok this assms(4-7)] show ?thesis by blast
qed

theorem kir_work_bound_witness:
  "\<exists>program shape. validate platform \<lparr>cap_blocks = 4, cap_data = 1, cap_literal = (\<lambda>_. 2)\<rparr> Some (take 32) Exists
       (literal_raw Exists [97, 98] anchors_default) validate_limits_default = Inr program
     \<and> program_shape (literal_raw Exists [97, 98] anchors_default) shape
     \<and> search_outcome Exists shape [120, 97, 98] (window_new 0 3) 48 48
         (execute Exists program [120, 97, 98] (window_new 0 3) \<lparr>exec_max_work = 48\<rparr>)"
proof -
  let ?raw = "literal_raw Exists [97, 98] anchors_default"
  obtain program where built: "validate platform \<lparr>cap_blocks = 4, cap_data = 1, cap_literal = (\<lambda>_. 2)\<rparr> Some (take 32) Exists
       ?raw validate_limits_default = Inr program"
    by (rule platform_validate [of "[97, 98]" "\<lparr>cap_blocks = 4, cap_data = 1, cap_literal = (\<lambda>_. 2)\<rparr>"]) simp_all
  have "st_work_factor (vp_stats program) = 10"
    using validate_accepted [OF exact_allocation_ok(2) default_limits_wide built]
    by (simp add: accepted_def literal_raw_def raw_program_of_def)
  then have "conservative_work_bound program (window_end (window_new 0 3) - window_start (window_new 0 3)) = Inr 48"
    by (simp add: conservative_work_bound_def window_new_def usize_numeral)
  from kir_work_bound [OF exact_allocation_ok(2) default_limits_wide built this, of "[120, 97, 98]" "\<lparr>exec_max_work = 48\<rparr>"]
    built
  show ?thesis by (auto simp: window_new_def window_valid_def usize_numeral)
qed

end
