(* ===== verification/KirContract.thy ===== *)
theory KirContract
  imports KirAgree
begin

text \<open>
  The contracts of the validator, the serializer, the builders and the aggregate leaf of
  \<^verbatim>\<open>crates/fre-kernel-ir\<close>, each for every input its code accepts, with concrete programs as
  witnesses.
\<close>

section \<open>Validator\<close>

text \<open>
  C24: \<^verbatim>\<open>RawProgram::validate\<close> decides well-formedness exactly, up to resources. Whatever the raw
  program, the limits and the platform, it fails with a resource error, or with an
  \<^verbatim>\<open>Invalid\<close> error on a program that is not well formed, or it returns a program that is well
  formed, keeps the raw program, stores its canonical bytes and their digest, and whose receipt
  is within the limits. It never reports an internal length mismatch.
\<close>

theorem kir_validate_exact:
  assumes "allocator_ok reserve" "max_serialized_bytes limits \<le> usize_max"
  shows "case validate sizes caps reserve sha256 kind raw limits of
      Inl e \<Rightarrow> is_resource e \<or> (is_invalid e \<and> \<not> well_formed kind raw)
    | Inr program \<Rightarrow> well_formed kind raw \<and> vp_raw program = raw
        \<and> sp_bytes (vp_serialized program) = encode raw
        \<and> sp_identity (vp_serialized program) = sha256 (encode raw)
        \<and> admit_accounting (st_resources (vp_stats program)) limits = Inr ()"
  using validate_accounted_outcome [of reserve limits kind raw sizes caps sha256 seed_default] assms
  by (auto simp: validate_def allocator_ok_def safe_def refusal_def accepted_def split: sum.splits)

text \<open>The literal program of the wrong output kind, and the one of the right kind.\<close>

theorem kir_validate_exact_witness:
  "(case validate platform \<lparr>cap_blocks = 4, cap_data = 1, cap_literal = (\<lambda>_. 2)\<rparr> Some (take 32) Exists
      (literal_raw Span [97, 98] anchors_default) validate_limits_default of
      Inl e \<Rightarrow> is_resource e \<or> (is_invalid e \<and> \<not> well_formed Exists (literal_raw Span [97, 98] anchors_default))
    | Inr program \<Rightarrow> False)"
proof -
  have "\<not> well_formed Exists (literal_raw Span [97, 98] anchors_default)"
    by (simp add: well_formed_def headers_ok_def literal_raw_def raw_program_of_def)
  with kir_validate_exact [OF exact_allocation_ok(2) default_limits_wide, where sizes = platform
      and caps = "\<lparr>cap_blocks = 4, cap_data = 1, cap_literal = (\<lambda>_. 2)\<rparr>" and ?sha256.0 = "take 32" and kind = Exists
      and raw = "literal_raw Span [97, 98] anchors_default"]
  show ?thesis by (auto split: sum.splits)
qed

text \<open>
  C31: the resource receipt of a validated program respects every limit it was validated under:
  requested and retained bytes, the serialized capacity, the peaks of the validation, serialization
  and identity phases, the validation scratch, the construction work, and the validation
  work, whose actual amount is at most the preflight's upper bound.
\<close>

theorem kir_receipt_within_limits:
  assumes "allocator_ok reserve" "max_serialized_bytes limits \<le> usize_max"
    and "validate sizes caps reserve sha256 kind raw limits = Inr program"
  defines "receipt \<equiv> st_resources (vp_stats program)"
  shows "ra_validation_work receipt \<le> ra_validation_work_upper_bound receipt
    \<and> ra_validation_work_upper_bound receipt \<le> max_validation_work limits
    \<and> ra_construction_work receipt \<le> max_construction_work limits
    \<and> ra_allocation_request_bytes receipt \<le> max_construction_allocation_bytes limits
    \<and> ra_raw_program_capacity_bytes receipt \<le> max_raw_program_capacity_bytes limits
    \<and> sp_capacity (vp_serialized program) = ra_serialized_capacity_bytes receipt
    \<and> ra_serialized_capacity_bytes receipt \<le> max_serialized_capacity_bytes limits
    \<and> ra_validation_scratch_bytes receipt \<le> max_validation_scratch_bytes limits
    \<and> ra_validation_phase_peak_bytes receipt \<le> max_validation_phase_bytes limits
    \<and> ra_serialization_phase_peak_bytes receipt \<le> max_serialization_phase_bytes limits
    \<and> ra_identity_phase_peak_bytes receipt \<le> max_identity_phase_bytes limits
    \<and> ra_retained_program_bytes receipt \<le> max_retained_program_bytes limits"
  using validate_accepted [OF assms(1-3)]
  by (auto simp: receipt_def accepted_def admit_accounting_def rbind_eq_Inr)

theorem kir_receipt_within_limits_witness:
  "\<exists>program. validate platform \<lparr>cap_blocks = 4, cap_data = 1, cap_literal = (\<lambda>_. 2)\<rparr> Some (take 32) Span
       (literal_raw Span [97, 98] anchors_default) validate_limits_default = Inr program
     \<and> ra_validation_work (st_resources (vp_stats program)) \<le> 8388608
     \<and> ra_construction_work (st_resources (vp_stats program)) \<le> 16777216"
proof -
  obtain program where built: "validate platform \<lparr>cap_blocks = 4, cap_data = 1, cap_literal = (\<lambda>_. 2)\<rparr> Some (take 32) Span
       (literal_raw Span [97, 98] anchors_default) validate_limits_default = Inr program"
    by (rule platform_validate [of "[97, 98]" "\<lparr>cap_blocks = 4, cap_data = 1, cap_literal = (\<lambda>_. 2)\<rparr>"]) simp_all
  with kir_receipt_within_limits [OF exact_allocation_ok(2) default_limits_wide built]
  show ?thesis by (intro exI [of _ program]) (simp add: validate_limits_default_def)
qed

text \<open>
  C25: the structural validator is exact on its own. On a program of at most 64 blocks and data
  entries, with the work of the preflight formula admitted, it succeeds within that work when the
  program is well formed, and otherwise fails with an \<^verbatim>\<open>Invalid\<close> error and no other.
\<close>

theorem kir_validator_exact:
  assumes "length (raw_blocks raw) \<le> hard_max_blocks" "length (raw_data raw) \<le> hard_max_blocks"
    and "bound = 11 * length (raw_blocks raw) + length (raw_data raw) + data_scan_work (raw_data raw) + 11"
    and "bound \<le> limit" "bound \<le> usize_max"
  shows "case validator_run kind (validator_new raw (val_meter_new limit)) of
      Inl e \<Rightarrow> is_invalid e \<and> \<not> well_formed kind raw
    | Inr meter \<Rightarrow> vm_consumed meter \<le> bound \<and> well_formed kind raw"
  using validator_phases [OF assms, of kind] by (simp add: phase_def safe_def split: sum.splits)

theorem kir_validator_exact_witness:
  "case validator_run Span (validator_new (literal_raw Span [97, 98] anchors_default) (val_meter_new 100)) of
      Inl e \<Rightarrow> False
    | Inr meter \<Rightarrow> vm_consumed meter \<le> 56 \<and> well_formed Span (literal_raw Span [97, 98] anchors_default)"
proof -
  let ?raw = "literal_raw Span [97, 98] anchors_default"
  have "56 = 11 * length (raw_blocks ?raw) + length (raw_data ?raw) + data_scan_work (raw_data ?raw) + 11"
    by (simp add: literal_raw_def raw_program_of_def data_scan_work_def blob_scan_def)
  from kir_validator_exact [OF _ _ this, of 100 Span] literal_well_formed [of Span "[97, 98]" anchors_default]
  show ?thesis
    by (auto simp: literal_raw_def raw_program_of_def hard_max_blocks_def usize_numeral split: sum.splits)
qed


section \<open>Serializer\<close>

text \<open>
  C27: the canonical serialization is lossless: two validated programs, of whatever kinds, limits
  and platforms, whose serialized bytes are equal have the same raw program.
\<close>

theorem kir_serialization_lossless:
  assumes "allocator_ok reserve" "allocator_ok reserve'"
    and "max_serialized_bytes limits \<le> usize_max" "max_serialized_bytes limits' \<le> usize_max"
    and "validate sizes caps reserve sha256 kind raw limits = Inr program"
    and "validate sizes' caps' reserve' sha256' kind' raw' limits' = Inr program'"
  shows "sp_bytes (vp_serialized program) = sp_bytes (vp_serialized program') \<longleftrightarrow> vp_raw program = vp_raw program'"
proof -
  have ok: "accepted sha256 kind raw limits program" "accepted sha256' kind' raw' limits' program'"
    using validate_accepted assms by blast+
  then show ?thesis using encode_inject [of raw raw'] by (auto simp: accepted_def)
qed

text \<open>The same literal for two output kinds: different bytes.\<close>

theorem kir_serialization_lossless_witness:
  "\<exists>program program'. validate platform \<lparr>cap_blocks = 4, cap_data = 1, cap_literal = (\<lambda>_. 2)\<rparr> Some (take 32) Span
       (literal_raw Span [97, 98] anchors_default) validate_limits_default = Inr program
     \<and> validate platform \<lparr>cap_blocks = 4, cap_data = 1, cap_literal = (\<lambda>_. 2)\<rparr> Some (take 32) Exists
       (literal_raw Exists [97, 98] anchors_default) validate_limits_default = Inr program'
     \<and> sp_bytes (vp_serialized program) \<noteq> sp_bytes (vp_serialized program')"
proof -
  let ?caps = "\<lparr>cap_blocks = 4, cap_data = 1, cap_literal = (\<lambda>_. 2)\<rparr>"
  obtain program where span: "validate platform ?caps Some (take 32) Span
       (literal_raw Span [97, 98] anchors_default) validate_limits_default = Inr program"
    by (rule platform_validate [of "[97, 98]" ?caps]) simp_all
  obtain program' where exists: "validate platform ?caps Some (take 32) Exists
       (literal_raw Exists [97, 98] anchors_default) validate_limits_default = Inr program'"
    by (rule platform_validate [of "[97, 98]" ?caps]) simp_all
  have "vp_raw program \<noteq> vp_raw program'"
    using validate_accepted [OF exact_allocation_ok(2) default_limits_wide span]
      validate_accepted [OF exact_allocation_ok(2) default_limits_wide exists]
    by (auto simp: accepted_def literal_raw_def raw_program_of_def)
  with kir_serialization_lossless [OF exact_allocation_ok(2) exact_allocation_ok(2) default_limits_wide default_limits_wide
      span exists] span exists
  show ?thesis by blast
qed

section \<open>Flow types\<close>

text \<open>
  C26: the flow phase of the validator is a sound type system for the machine. A program every block
  of which has its targets and data references typed (\<open>flow_ok\<close>), whatever its topology,
  never makes a search fail with \<^verbatim>\<open>InternalInvariant\<close>: the current block always exists and
  accepts the machine's state.
\<close>

theorem kir_flow_type_safe:
  assumes "flow_ok (vp_raw program)"
  shows "execute kind program haystack window limits \<noteq> Inl (InternalInvariant block)"
  using execute_outward [OF assms, of kind haystack window limits] by (auto simp: outward_def)

theorem kir_flow_type_safe_witness:
  "\<exists>program. vp_raw program = literal_raw Span [97, 98] anchors_default
     \<and> execute Exists program [120, 97, 98] (window_new 0 3) \<lparr>exec_max_work = 2\<rparr> \<noteq> Inl (InternalInvariant 1)"
proof -
  obtain program where "validate platform \<lparr>cap_blocks = 4, cap_data = 1, cap_literal = (\<lambda>_. 2)\<rparr> Some (take 32) Span
       (literal_raw Span [97, 98] anchors_default) validate_limits_default = Inr program"
    by (rule platform_validate [of "[97, 98]" "\<lparr>cap_blocks = 4, cap_data = 1, cap_literal = (\<lambda>_. 2)\<rparr>"]) simp_all
  from validate_accepted [OF exact_allocation_ok(2) default_limits_wide this]
  have "vp_raw program = literal_raw Span [97, 98] anchors_default" "flow_ok (vp_raw program)"
    by (auto simp: accepted_def well_formed_def)
  with kir_flow_type_safe [OF this(2)] show ?thesis by blast
qed

section \<open>Builders\<close>

text \<open>
  For any literal, anchors, limits and platform, \<^verbatim>\<open>build_exact_literal\<close> fails with a resource error
  only (a limit, an overflow or a failed allocation), or returns the validated canonical program of
  the literal: four blocks, the literal as its only datum, its canonical bytes and receipt.
\<close>

lemma kir_build_literal:
  assumes "allocation_ok alloc" "max_serialized_bytes limits \<le> usize_max"
  shows "case build_exact_literal sizes alloc sha256 kind literal anchors limits of
      Inl e \<Rightarrow> build_resource e
    | Inr program \<Rightarrow> accepted sha256 kind (literal_raw kind literal anchors) limits program"
  using build_literal_outcome [OF assms] by (simp add: build_exact_literal_def safe_def)

text \<open>
  C30: \<^verbatim>\<open>build_class_suffix\<close> refuses, beside resource errors, exactly the three inputs its canonical
  program cannot express, with the documented error and in the documented order: an empty
  suffix, an empty class, and a suffix that starts with a byte of the class. On every other input
  it fails with a resource error only, or returns the validated canonical program.
\<close>

theorem kir_build_class:
  assumes "allocation_ok alloc" "max_serialized_bytes limits \<le> usize_max"
  shows "case build_class_suffix sizes alloc sha256 kind cls suffix anchors limits of
      Inl e \<Rightarrow> build_resource e
        \<or> e = BuildValidate (Invalid (EmptySuffix 1)) \<and> suffix = []
        \<or> e = BuildValidate (Invalid (EmptyClass 0)) \<and> suffix \<noteq> [] \<and> class_is_empty cls
        \<or> e = BuildValidate (Invalid (SuffixOverlapsClass 0 1)) \<and> suffix \<noteq> [] \<and> contains cls (hd suffix)
    | Inr program \<Rightarrow> suffix \<noteq> [] \<and> \<not> class_is_empty cls \<and> \<not> contains cls (hd suffix)
        \<and> accepted sha256 kind (class_raw kind cls suffix anchors) limits program"
proof (cases "suffix = [] \<or> class_is_empty cls \<or> contains cls (hd suffix)")
  case True
  from build_class_refuses [OF True, of sizes alloc sha256 kind anchors limits] True show ?thesis
    by (auto simp: safe_def build_refusal_def class_refusal_def split: sum.splits if_splits)
next
  case False
  then have "suffix \<noteq> []" "\<not> contains cls (hd suffix)" "\<not> class_is_empty cls" by auto
  from build_class_outcome [OF assms this, of sizes sha256 kind anchors] False show ?thesis
    by (auto simp: safe_def split: sum.splits)
qed

text \<open>The class of \<^verbatim>\<open>a\<close> and \<^verbatim>\<open>b\<close> with the suffix \<^verbatim>\<open>!\<close> is built.\<close>

theorem kir_build_class_witness:
  "case build_class_suffix platform exact_allocation (take 32) Span (from_bytes [97, 98]) [33] anchors_default
      validate_limits_default of
      Inl e \<Rightarrow> False
    | Inr program \<Rightarrow> accepted (take 32) Span (class_raw Span (from_bytes [97, 98]) [33] anchors_default)
        validate_limits_default program"
proof -
  have "\<not> class_is_empty (from_bytes [97, 98])" by (auto simp: class_is_empty_iff)
  then obtain program where "build_class_suffix platform exact_allocation (take 32) Span (from_bytes [97, 98]) [33]
      anchors_default validate_limits_default = Inr program"
    using platform_class [of "[33]" "from_bytes [97, 98]" "take 32" Span anchors_default] by auto
  then show ?thesis
    using kir_build_class [OF exact_allocation_ok(1) default_limits_wide, where sizes = platform
        and ?sha256.0 = "take 32" and kind = Span and cls = "from_bytes [97, 98]" and suffix = "[33]"
        and anchors = anchors_default] by simp
qed

text \<open>
  C29: the builders make progress. Under the default limits, on a platform whose types are at most
  512 bytes each (a \<^verbatim>\<open>bool\<close> and a \<^verbatim>\<open>usize\<close> together at most 16), with an allocator that serves every
  request with a capacity of at most 64 elements more than requested, every literal of up to a
  million bytes is built, and so is every non-empty class with a non-empty suffix of up to a million
  bytes whose first byte is not in the class.
\<close>

theorem kir_builders_succeed:
  assumes "layout_small sizes" "length literal \<le> 1000000" "allocation_serves alloc"
  shows "(\<exists>program. build_exact_literal sizes alloc sha256 kind literal anchors validate_limits_default = Inr program)
    \<and> (\<exists>program. literal = [] \<or> class_is_empty cls \<or> contains cls (hd literal)
        \<or> build_class_suffix sizes alloc sha256 kind cls literal anchors validate_limits_default = Inr program)"
  using build_literal_runs [OF assms, of 0 0 0 sha256 kind anchors]
    build_class_runs [OF assms(1,2) _ _ _ assms(3), of cls sha256 kind anchors]
  by (auto simp: build_exact_literal_def runs_iff)

text \<open>An allocator that rounds every request up by sixteen elements, and both builders.\<close>

definition generous_allocation :: allocation where
  "generous_allocation = (let reserve = (\<lambda>n. Some (n + 16))
     in \<lparr>al_literal = reserve, al_blocks = reserve, al_data = reserve, al_serialized = reserve\<rparr>)"

theorem kir_builders_succeed_witness:
  "(\<exists>program. build_exact_literal platform generous_allocation id Exists [33] anchors_default validate_limits_default
      = Inr program)
   \<and> (\<exists>program. build_class_suffix platform generous_allocation id Span (from_bytes [97, 98]) [33] anchors_default
      validate_limits_default = Inr program)"
proof -
  have serves: "allocation_serves generous_allocation"
    by (simp add: allocation_serves_def generous_allocation_def serves_def Let_def)
  have "\<not> class_is_empty (from_bytes [97, 98])" "\<not> contains (from_bytes [97, 98]) 33"
    by (auto simp: class_is_empty_iff)
  then show ?thesis
    using kir_builders_succeed [OF platform_small _ serves, of "[33]" id Exists anchors_default "from_bytes [97, 98]"]
      kir_builders_succeed [OF platform_small _ serves, of "[33]" id Span anchors_default "from_bytes [97, 98]"]
    by auto
qed

text \<open>
  The four-lane bit table of a byte class holds exactly the bytes it was made of, whatever their
  order and repetitions, and the class is empty exactly when it holds no byte.
\<close>

lemma kir_class_membership:
  "(contains (from_bytes members) byte \<longleftrightarrow> byte \<in> set members)
   \<and> (class_is_empty (from_bytes members) \<longleftrightarrow> members = [])"
proof -
  have "(\<forall>byte. byte \<notin> set members) \<longleftrightarrow> members = []" by (cases members) auto
  then show ?thesis by (simp add: class_is_empty_iff)
qed

end
