(* ===== verification/KirReduce.thy ===== *)
theory KirReduce
  imports KirAgree
begin

text \<open>
  The contract of the exact-literal aggregate leaf: what construction returns, what an execution
  reports and when it is refused.
\<close>

section \<open>Construction\<close>

lemma build_short_aggregate:
  assumes "length literal \<le> 32"
  shows "build_exact_aggregate sizes alloc sha256 reducer literal limits =
    (case build_exact_literal_accounted sizes alloc sha256 Span literal anchors_default limits 1 (length literal + 63)
        (sz_aggregate_program sizes - sz_validated_program sizes) of
      Inl e \<Rightarrow> Inl (AggSearch e)
    | Inr search \<Rightarrow> Inr \<lparr>agp_search = search, agp_identity = sha256 (aggregate_identity_domain
        @ [aggregate_output_tag reducer] @ sp_bytes (vp_serialized search))\<rparr>)"
proof -
  have sums: "uadd (length literal) 53 = Some (length literal + 53)"
    "uadds (length literal + 53) [length aggregate_identity_domain, 1] = Some (length literal + 63)"
    using assms by (simp_all add: usize_numeral aggregate_identity_domain_def)
  show ?thesis
    unfolding build_exact_aggregate_def sums ok_or_simps rbind_Inr
    using assms by (simp add: max_exact_aggregate_literal_bytes_def)
qed

lemma built_short:
  "build_exact_aggregate sizes alloc sha256 reducer literal limits = Inr program \<Longrightarrow> length literal \<le> 32"
  by (simp add: build_exact_aggregate_def max_exact_aggregate_literal_bytes_def split: if_splits)

text \<open>
  \<^verbatim>\<open>build_exact_aggregate\<close> refuses a literal of more than 32 bytes with its length, fails on a
  shorter one with a resource error of the search program only, and otherwise returns the
  validated unanchored literal program together with the digest of the domain, the output tag and
  the program's canonical bytes.
\<close>

lemma kir_aggregate_build:
  assumes "allocation_ok alloc" "max_serialized_bytes limits \<le> usize_max"
  shows "case build_exact_aggregate sizes alloc sha256 reducer literal limits of
      Inl (BuildLiteralLengthLimit maximum actual) \<Rightarrow> maximum = 32 \<and> actual = length literal \<and> 32 < length literal
    | Inl (AggSearch e) \<Rightarrow> length literal \<le> 32 \<and> build_resource e
    | Inr program \<Rightarrow> length literal \<le> 32
        \<and> accepted sha256 Span (literal_raw Span literal anchors_default) limits (agp_search program)
        \<and> agp_identity program = sha256 (aggregate_identity_domain @ [aggregate_output_tag reducer]
            @ encode (literal_raw Span literal anchors_default))"
proof (cases "length literal \<le> 32")
  case True
  from build_literal_outcome [OF assms, of sizes sha256 Span literal anchors_default 1 "length literal + 63"
      "sz_aggregate_program sizes - sz_validated_program sizes"]
  show ?thesis
    unfolding build_short_aggregate [OF True] using True by (auto simp: safe_def accepted_def split: sum.splits)
qed (simp add: build_exact_aggregate_def max_exact_aggregate_literal_bytes_def)

lemma aggregate_data:
  assumes "allocation_ok alloc" "max_serialized_bytes limits \<le> usize_max"
    "build_exact_aggregate sizes alloc sha256 reducer literal limits = Inr program"
  shows "raw_data (vp_raw (agp_search program)) = [Bytes literal]"
proof -
  have "build_exact_literal_accounted sizes alloc sha256 Span literal anchors_default limits 1 (length literal + 63)
      (sz_aggregate_program sizes - sz_validated_program sizes) = Inr (agp_search program)"
    using assms(3) by (auto simp: build_short_aggregate [OF built_short [OF assms(3)]] split: sum.splits)
  with build_literal_outcome [OF assms(1,2), of sizes sha256 Span literal anchors_default 1 "length literal + 63"
      "sz_aggregate_program sizes - sz_validated_program sizes"]
  show ?thesis by (simp add: accepted_def literal_raw_def raw_program_of_def)
qed

section \<open>Execution\<close>

text \<open>
  C28: an execution of a built aggregate program reports exactly the abstract iteration of the
  literal over the whole haystack: the number of non-overlapping matches, or the sum of their
  widths, and the number of match events, within the work preflight computed and the work
  admitted. It is refused only by preflight, with preflight's error, and never panics: no
  debug assertion, slice index or bound fails.
\<close>

theorem kir_aggregate_correct:
  assumes "allocation_ok alloc" "max_serialized_bytes limits \<le> usize_max"
    and "build_exact_aggregate sizes alloc sha256 reducer literal limits = Inr program"
    and "length haystack \<le> usize_max"
  defines "spans \<equiv> iter_seq (length haystack) (literal_sel literal haystack) 0 None"
  shows "case aggregate_execute reducer program haystack alimits of
      Inl e \<Rightarrow> preflight_exact_aggregate (length haystack) (length literal) reducer alimits = Inl e \<and> e \<noteq> AggPanic
    | Inr report \<Rightarrow>
        preflight_exact_aggregate (length haystack) (length literal) reducer alimits = Inr (agr_upper_bounds report)
        \<and> agr_output report = (case reducer of AggCount \<Rightarrow> length spans | AggSpanSum \<Rightarrow> span_widths spans)
        \<and> agr_match_events report = length spans
        \<and> agr_work report \<le> ub_work (agr_upper_bounds report)
        \<and> agr_work report \<le> agl_work alimits"
proof -
  note literal = aggregate_data [OF assms(1-3)]
  show ?thesis
  proof (cases "preflight_exact_aggregate (length haystack) (length literal) reducer alimits")
    case (Inl e)
    have "e \<noteq> AggPanic"
      using Inl bounds_no_panic check_limits_no_panic
      by (auto simp: preflight_exact_aggregate_def rbind_def split: sum.splits)
    then show ?thesis using Inl literal by (simp add: aggregate_execute_def aggregate_literal_def)
  next
    case (Inr upper)
    have "ub_work upper \<le> agl_work alimits"
      using Inr check_limits_work by (auto simp: preflight_exact_aggregate_def rbind_eq_Inr)
    with aggregate_execute_outcome [OF literal assms(4) Inr] Inr show ?thesis
      by (cases reducer) (auto simp: spans_def spans_from_def)
  qed
qed

lemma preflight_admits:
  assumes n: "n \<le> 100000000" and l: "l \<le> 32"
  shows "\<exists>upper. preflight_exact_aggregate n l reducer aggregate_limits_default = Inr upper"
proof (cases "l = 0")
  case True
  then show ?thesis
    using n by (cases reducer) (auto simp: preflight_exact_aggregate_def exact_aggregate_upper_bounds_def check_limits_def
        aggregate_limits_default_def max_exact_aggregate_literal_bytes_def usize_numeral)
next
  case False
  define e where "e = n div l"
  define w where "w = (Suc n - l) * Suc l"
  have e: "e \<le> n" "e * l \<le> n" by (simp_all add: e_def)
  have w: "w \<le> 100000001 * 33" unfolding w_def using l n by (intro mult_le_mono) auto
  have positions: "(case Option.bind (usub n l) (\<lambda>final. uadd final 1) of None \<Rightarrow> 0 | Some p \<Rightarrow> p) = Suc n - l"
    using False n by (intro candidate_positions) (auto simp: usize_numeral)
  have sums: "umul e l = Some (e * l)" "uadd e 1 = Some (e + 1)" "uadd l 1 = Some (Suc l)"
    "umul (Suc n - l) (Suc l) = Some w" "uadd w (e + 1) = Some (w + (e + 1))"
    using e w n l by (auto simp: usize_numeral umul_def w_def)
  have fits: "(if reducer = AggSpanSum then e * l else e) > n \<longleftrightarrow> False" "l > max_exact_aggregate_literal_bytes \<longleftrightarrow> False"
    "l = 0 \<longleftrightarrow> False"
    using e l False by (auto simp: max_exact_aggregate_literal_bytes_def)
  show ?thesis
    unfolding preflight_exact_aggregate_def exact_aggregate_upper_bounds_def Let_def positions fits if_False
      e_def [symmetric] sums ok_or_simps rbind_Inr bind.simps Option.bind.simps
    using e w n l by (cases reducer) (simp_all add: check_limits_def Let_def aggregate_limits_default_def
        max_exact_aggregate_literal_bytes_def usize_numeral)
qed

text \<open>
  An aggregate execution is admitted: with the default limits, every built aggregate runs to a
  report on every haystack of up to a hundred million bytes.
\<close>

lemma kir_aggregate_runs:
  assumes "allocation_ok alloc" "max_serialized_bytes limits \<le> usize_max"
    and "build_exact_aggregate sizes alloc sha256 reducer literal limits = Inr program"
    and "length haystack \<le> 100000000"
  shows "\<exists>report. aggregate_execute reducer program haystack aggregate_limits_default = Inr report"
proof -
  let ?n = "length haystack" and ?l = "length literal"
  note literal = aggregate_data [OF assms(1-3)]
  note l = built_short [OF assms(3)]
  have "\<exists>upper. preflight_exact_aggregate ?n ?l reducer aggregate_limits_default = Inr upper"
    by (rule preflight_admits [OF assms(4) l])
  with aggregate_execute_outcome [OF literal, of haystack reducer aggregate_limits_default] assms(4)
  show ?thesis by (auto simp: usize_numeral)
qed


section \<open>Witnesses\<close>

text \<open>The matches of \<^verbatim>\<open>ab\<close> in \<^verbatim>\<open>abxab\<close>.\<close>

lemma ab_spans: "iter_seq 5 (literal_sel [97, 98] [97, 98, 120, 97, 98]) 0 None = [(0, 2), (3, 5)]"
proof -
  let ?sel = "literal_sel [97, 98] [97, 98, 120, 97, 98]"
  have next_hits: "next_match 5 ?sel 0 = Some (0, 2)" "next_match 5 ?sel 2 = Some (3, 5)" "next_match 5 ?sel 5 = None"
    by (simp_all add: next_match_def literal_sel_def upt_conv_Cons)
  show ?thesis
    by (subst iter_seq.simps, simp add: next_hits, subst iter_seq.simps, simp add: next_hits,
        subst iter_seq.simps, simp add: next_hits)
qed

theorem kir_aggregate_correct_witness:
  "\<exists>program. build_exact_aggregate platform exact_allocation (take 32) AggSpanSum [97, 98] validate_limits_default
       = Inr program
     \<and> (case aggregate_execute AggSpanSum program [97, 98, 120, 97, 98] aggregate_limits_default of
          Inl e \<Rightarrow> e \<noteq> AggPanic
        | Inr report \<Rightarrow> agr_output report = 4 \<and> agr_match_events report = 2)"
proof -
  obtain program where built: "build_exact_aggregate platform exact_allocation (take 32) AggSpanSum [97, 98]
      validate_limits_default = Inr program"
    by (rule platform_aggregate [of "[97, 98]"]) (simp add: max_exact_aggregate_literal_bytes_def)
  have "length [97, 98, 120, 97, 98 :: u8] = 5" by simp
  with built kir_aggregate_correct [OF exact_allocation_ok(1) default_limits_wide built, of "[97, 98, 120, 97, 98]"
      aggregate_limits_default]
  show ?thesis
    by (intro exI [of _ program]) (auto simp only: ab_spans span_widths_def, auto simp: usize_numeral split: sum.splits)
qed

end
