(* ===== verification/KerFields.thy ===== *)
theory KerFields
  imports FrePrelude
begin

unbundle bit_operations_syntax

text \<open>
  \<^verbatim>\<open>crates/fre-kernels/src/delimiter_field_spans.rs\<close>: the production kernel for
  \<^verbatim>\<open>BYTE_CLASS+ DELIMITER BYTE_CLASS+\<close>. Its plan is built from byte ranges with the effects of the
  attempt (\<^verbatim>\<open>direct_build_attempt.rs\<close>); its visitor walks the delimiters of the haystack and scans
  outward. The visitor's calls are the list of the spans it is called with. Not under the sources:
  \<open>memchr_iter\<close>, the positions of a byte, and \<open>plan_size\<close>, the size of the plan. The debug assertion
  of the builder (the work it charged is the work it announced) is the error \<open>BuildPanic\<close>.
\<close>

section \<open>Data\<close>

text \<open>\<^verbatim>\<open>BoundedSeparatedFieldsBuildLimits\<close> and \<^verbatim>\<open>BoundedSeparatedFieldsReduceLimits\<close>.\<close>

record field_build_limits =
  max_source_ranges :: nat
  max_build_work :: nat
  max_persistent_bytes :: nat
  max_build_peak_bytes :: nat

definition field_build_limits_default :: field_build_limits where
  "field_build_limits_default = \<lparr>max_source_ranges = 256, max_build_work = 2 ^ 20, max_persistent_bytes = 2 ^ 20,
     max_build_peak_bytes = 2 ^ 20\<rparr>"

record field_reduce_limits =
  max_input_bytes :: nat
  max_sequential_bytes :: nat
  max_count :: nat
  max_reduce_work :: nat
  max_reduce_peak_bytes :: nat

definition field_reduce_limits_default :: field_reduce_limits where
  "field_reduce_limits_default = \<lparr>max_input_bytes = 128 * 2 ^ 20, max_sequential_bytes = 2 ^ 29, max_count = 128 * 2 ^ 20,
     max_reduce_work = 2 ^ 29, max_reduce_peak_bytes = 2 ^ 20\<rparr>"

record build_actual =
  ba_work :: nat
  ba_allocations :: nat
  ba_allocated_bytes :: nat
  ba_copied_bytes :: nat
  ba_initialized_bytes :: nat
  ba_live_persistent_bytes :: nat
  ba_peak_bytes :: nat

definition build_actual_default :: build_actual where
  "build_actual_default = \<lparr>ba_work = 0, ba_allocations = 0, ba_allocated_bytes = 0, ba_copied_bytes = 0,
     ba_initialized_bytes = 0, ba_live_persistent_bytes = 0, ba_peak_bytes = 0\<rparr>"

record build_accounting =
  bd_source_ranges :: nat
  bd_bitmap_word_writes :: nat
  bd_class_members :: nat
  bd_delimiter :: u8
  bd_work :: nat
  bd_allocations :: nat
  bd_reserves :: nat
  bd_temporary_copies :: nat
  bd_scratch_bytes :: nat
  bd_persistent_bytes :: nat
  bd_peak_bytes :: nat

datatype field_build_error =
    FieldEmptyClass
  | ReversedRange u8 u8
  | NonCanonicalRanges
  | DelimiterInClass u8
  | RangeLimit nat nat
  | BuildWorkLimit nat nat
  | PersistentLimit nat nat
  | BuildPeakLimit nat nat
  | BuildOverflow string
  | BuildPanic

record field_plan =
  fp_class_words :: "u64w list"
  fp_delimiter :: u8
  fp_build :: build_accounting

record field_identity =
  fi_plan_id :: string
  fi_operation_id :: string
  fi_class_words :: "u64w list"
  fi_delimiter :: u8
  fi_unicode :: bool
  fi_greedy :: bool
  fi_delimiter_excluded :: bool
  fi_leftmost_first :: bool
  fi_non_overlapping :: bool

record reduce_upper_bounds =
  ub_input_bytes :: nat
  ub_delimiter_scan_bytes :: nat
  ub_delimiter_events :: nat
  ub_membership_tests :: nat
  ub_sequential_bytes :: nat
  ub_match_events :: nat
  ub_span_sum :: nat
  ub_work :: nat
  ub_allocations :: nat
  ub_reserves :: nat
  ub_temporary_copies :: nat
  ub_scratch_bytes :: nat
  ub_persistent_bytes :: nat
  ub_peak_bytes :: nat

record reduce_counters =
  rc_input_bytes :: nat
  rc_delimiter_scan_bytes :: nat
  rc_delimiter_events :: nat
  rc_membership_tests :: nat
  rc_sequential_bytes :: nat
  rc_match_events :: nat
  rc_matched_bytes :: nat
  rc_work :: nat

record reduce_accounting =
  ra_identity :: field_identity
  ra_upper_bounds :: reduce_upper_bounds
  ra_actual :: reduce_counters

record complete_span =
  cs_start :: nat
  cs_end :: nat

record span_visit_result =
  sv_matches :: nat
  sv_span_sum :: nat
  sv_accounting :: reduce_accounting

datatype field_reduce_error =
    InputLimit nat nat
  | SequentialLimit nat nat
  | MatchLimit nat nat
  | ReduceWorkLimit nat nat
  | ReducePeakLimit nat nat
  | AccountingInvariant string nat nat
  | ReduceOverflow string
  | FieldPanic

section \<open>Construction\<close>

definition class_contains :: "u64w list \<Rightarrow> u8 \<Rightarrow> bool" where
  "class_contains words byte = ((words ! (unat byte div 64)) AND push_bit (unat byte mod 64) 1 \<noteq> 0)"

text \<open>\<^verbatim>\<open>u64::MAX.checked_shl\<close> and \<^verbatim>\<open>checked_shr\<close>.\<close>

definition max_shl :: "nat \<Rightarrow> u64w option" where
  "max_shl n = (if n < 64 then Some (push_bit n (- 1)) else None)"

definition max_shr :: "nat \<Rightarrow> u64w option" where
  "max_shr n = (if n < 64 then Some (drop_bit n (- 1)) else None)"

definition insert_word ::
    "u8 \<Rightarrow> u8 \<Rightarrow> nat \<Rightarrow> nat \<Rightarrow> nat \<Rightarrow> u64w list \<Rightarrow> field_build_error + u64w list" where
  "insert_word start stop first final relative words =
     rbind (ok_or (uadd first relative) (BuildOverflow ''bitmap word index'')) (\<lambda>word.
     let first_bit = (if word = first then unat start mod 64 else 0);
         last_bit = (if word = final then unat stop mod 64 else 63) in
     rbind (ok_or (max_shl first_bit) (BuildOverflow ''bitmap first shift'')) (\<lambda>first_mask.
     rbind (ok_or (usub 63 last_bit) (BuildOverflow ''bitmap last shift'')) (\<lambda>shift.
     rbind (ok_or (max_shr shift) (BuildOverflow ''bitmap last shift'')) (\<lambda>last_mask.
     Inr (words[word := words ! word OR (first_mask AND last_mask)])))))"

definition insert_range :: "u64w list \<Rightarrow> u8 \<Rightarrow> u8 \<Rightarrow> field_build_error + (u64w list \<times> nat)" where
  "insert_range words start stop =
     (let first = unat start div 64; final = unat stop div 64 in
      if first > final + 1 \<or> final + 1 > length words then Inl (BuildOverflow ''bitmap word range'')
      else
        rbind (rfold (insert_word start stop first final) [0..<final + 1 - first] words) (\<lambda>words.
        rbind (ok_or (usub final first) (BuildOverflow ''bitmap word writes'')) (\<lambda>width.
        rbind (ok_or (uadd width 1) (BuildOverflow ''bitmap word writes'')) (\<lambda>writes.
        Inr (words, writes)))))"

definition charge_build_work :: "nat \<Rightarrow> build_actual \<Rightarrow> field_build_error + build_actual" where
  "charge_build_work amount actual =
     rbind (ok_or (uadd (ba_work actual) amount) (BuildOverflow ''build work'')) (\<lambda>work.
     Inr (actual\<lparr>ba_work := work\<rparr>))"

text \<open>An error of the attempt keeps the effects observed before it.\<close>

definition with_actual :: "build_actual \<Rightarrow> field_build_error + 'a \<Rightarrow> (field_build_error \<times> build_actual) + 'a" where
  "with_actual actual m = (case m of Inl e \<Rightarrow> Inl (e, actual) | Inr x \<Rightarrow> Inr x)"

type_synonym range_state = "u64w list \<times> u8 option \<times> nat \<times> build_actual"

definition range_turn :: "u8 \<times> u8 \<Rightarrow> range_state \<Rightarrow> (field_build_error \<times> build_actual) + range_state" where
  "range_turn = (\<lambda>(start, stop) (words, previous_end, writes, actual).
     rbind (with_actual actual (charge_build_work 4 actual)) (\<lambda>actual.
     if start > stop then Inl (ReversedRange start stop, actual)
     else if (case previous_end of None \<Rightarrow> False | Some previous \<Rightarrow> previous \<ge> start) then Inl (NonCanonicalRanges, actual)
     else
       rbind (with_actual actual (insert_range words start stop)) (\<lambda>(words, written).
       rbind (with_actual actual (ok_or (uadd writes written) (BuildOverflow ''bitmap word writes''))) (\<lambda>writes.
       Inr (words, Some stop, writes, actual)))))"

definition count_ones :: "u64w \<Rightarrow> nat" where
  "count_ones w = length (filter (bit w) [0..<64])"

definition class_population :: "u64w list \<Rightarrow> field_build_error + nat" where
  "class_population words = rfold (\<lambda>word total.
     ok_or (uadd total (count_ones word)) (BuildOverflow ''class member population'')) words 0"

text \<open>Behind the loop over the ranges: the checks of the finished class, and the plan.\<close>

definition attempt_publish ::
    "nat \<Rightarrow> nat \<Rightarrow> u8 \<Rightarrow> nat \<Rightarrow> range_state \<Rightarrow> (field_build_error \<times> build_actual) + (field_plan \<times> build_actual)" where
  "attempt_publish plan_size source_ranges delimiter work = (\<lambda>(class_words, _, writes, actual).
     rbind (with_actual actual (charge_build_work 8 actual)) (\<lambda>actual.
     if class_contains class_words delimiter then Inl (DelimiterInClass delimiter, actual)
     else
       rbind (with_actual actual (class_population class_words)) (\<lambda>class_members.
       if class_members = 0 then Inl (FieldEmptyClass, actual)
       else if ba_work actual \<noteq> work then Inl (BuildPanic, actual)
       else
         rbind (with_actual actual (ok_or (umul source_ranges 2) (BuildOverflow ''source range copied bytes''))) (\<lambda>copied.
         let actual = actual\<lparr>ba_copied_bytes := copied, ba_initialized_bytes := plan_size,
               ba_live_persistent_bytes := plan_size, ba_peak_bytes := plan_size\<rparr> in
         Inr (\<lparr>fp_class_words = class_words, fp_delimiter = delimiter,
               fp_build = \<lparr>bd_source_ranges = source_ranges, bd_bitmap_word_writes = writes,
                 bd_class_members = class_members, bd_delimiter = delimiter, bd_work = work, bd_allocations = 0,
                 bd_reserves = 0, bd_temporary_copies = 0, bd_scratch_bytes = 0,
                 bd_persistent_bytes = plan_size, bd_peak_bytes = plan_size\<rparr>\<rparr>, actual)))))"

definition attempt_ranges ::
    "nat \<Rightarrow> (u8 \<times> u8) list \<Rightarrow> u8 \<Rightarrow> field_build_limits \<Rightarrow> (field_build_error \<times> build_actual) + (field_plan \<times> build_actual)" where
  "attempt_ranges plan_size ranges delimiter limits =
     (let source_ranges = length ranges; actual = build_actual_default in
      if source_ranges = 0 then Inl (FieldEmptyClass, actual)
      else if source_ranges > max_source_ranges limits
      then Inl (RangeLimit source_ranges (max_source_ranges limits), actual)
      else
        rbind (with_actual actual (rbind (ok_or (umul source_ranges 4) (BuildOverflow ''complete build work'')) (\<lambda>work.
          ok_or (uadd work 8) (BuildOverflow ''complete build work'')))) (\<lambda>work.
        if work > max_build_work limits then Inl (BuildWorkLimit work (max_build_work limits), actual)
        else if plan_size > max_persistent_bytes limits
        then Inl (PersistentLimit plan_size (max_persistent_bytes limits), actual)
        else if plan_size > max_build_peak_bytes limits
        then Inl (BuildPeakLimit plan_size (max_build_peak_bytes limits), actual)
        else
          rbind (rfold range_turn ranges ([0, 0, 0, 0], None, 0, actual)) (attempt_publish plan_size source_ranges delimiter work)))"

definition build_attempt ::
    "nat \<Rightarrow> (u8 \<times> u8) list \<Rightarrow> u8 \<Rightarrow> field_build_limits \<Rightarrow> (field_build_error \<times> build_actual) + (field_plan \<times> build_actual)" where
  "build_attempt plan_size ranges delimiter limits =
     (case attempt_ranges plan_size ranges delimiter limits of
        Inr r \<Rightarrow> Inr r
      | Inl (e, actual) \<Rightarrow> Inl (e, actual\<lparr>ba_live_persistent_bytes := 0\<rparr>))"

definition field_build :: "nat \<Rightarrow> (u8 \<times> u8) list \<Rightarrow> u8 \<Rightarrow> field_build_limits \<Rightarrow> field_build_error + field_plan" where
  "field_build plan_size ranges delimiter limits =
     (case build_attempt plan_size ranges delimiter limits of Inl (e, _) \<Rightarrow> Inl e | Inr (plan, _) \<Rightarrow> Inr plan)"

section \<open>Admission\<close>

definition span_visit_identity :: "field_plan \<Rightarrow> field_identity" where
  "span_visit_identity plan = \<lparr>fi_plan_id = ''delimiter-field-spans.byte-class-plus-delimiter-byte-class-plus.v1'',
     fi_operation_id = ''delimiter-field-spans.span-visit.leftmost-greedy-nonoverlap.v1'',
     fi_class_words = fp_class_words plan, fi_delimiter = fp_delimiter plan, fi_unicode = False, fi_greedy = True,
     fi_delimiter_excluded = True, fi_leftmost_first = True, fi_non_overlapping = True\<rparr>"

definition full_window_upper_bounds :: "field_plan \<Rightarrow> nat \<Rightarrow> field_reduce_error + reduce_upper_bounds" where
  "full_window_upper_bounds plan input_bytes =
     rbind (ok_or (umul input_bytes 2) (ReduceOverflow ''membership-test bound'')) (\<lambda>membership_tests.
     rbind (ok_or (uadd input_bytes membership_tests) (ReduceOverflow ''sequential-byte bound'')) (\<lambda>sequential_bytes.
     let match_events = input_bytes div 3 in
     rbind (ok_or (uadd sequential_bytes input_bytes) (ReduceOverflow ''complete traversal work'')) (\<lambda>work.
     rbind (ok_or (uadd work match_events) (ReduceOverflow ''complete traversal work'')) (\<lambda>work.
     rbind (ok_or (uadd work 8) (ReduceOverflow ''complete traversal work'')) (\<lambda>work.
     Inr \<lparr>ub_input_bytes = input_bytes, ub_delimiter_scan_bytes = input_bytes, ub_delimiter_events = input_bytes,
          ub_membership_tests = membership_tests, ub_sequential_bytes = sequential_bytes, ub_match_events = match_events,
          ub_span_sum = input_bytes, ub_work = work, ub_allocations = 0, ub_reserves = 0, ub_temporary_copies = 0,
          ub_scratch_bytes = 0, ub_persistent_bytes = bd_persistent_bytes (fp_build plan),
          ub_peak_bytes = bd_persistent_bytes (fp_build plan)\<rparr>)))))"

definition field_preflight :: "field_plan \<Rightarrow> nat \<Rightarrow> field_reduce_limits \<Rightarrow> field_reduce_error + reduce_upper_bounds" where
  "field_preflight plan input_bytes limits =
     (if input_bytes > max_input_bytes limits then Inl (InputLimit input_bytes (max_input_bytes limits))
      else
        rbind (full_window_upper_bounds plan input_bytes) (\<lambda>upper.
        if ub_sequential_bytes upper > max_sequential_bytes limits
        then Inl (SequentialLimit (ub_sequential_bytes upper) (max_sequential_bytes limits))
        else if ub_match_events upper > max_count limits then Inl (MatchLimit (ub_match_events upper) (max_count limits))
        else if ub_work upper > max_reduce_work limits then Inl (ReduceWorkLimit (ub_work upper) (max_reduce_work limits))
        else if ub_peak_bytes upper > max_reduce_peak_bytes limits
        then Inl (ReducePeakLimit (ub_peak_bytes upper) (max_reduce_peak_bytes limits))
        else Inr upper))"

section \<open>Traversal\<close>

definition field_add :: "nat \<Rightarrow> nat \<Rightarrow> string \<Rightarrow> field_reduce_error + nat" where
  "field_add left right computation = ok_or (uadd left right) (ReduceOverflow computation)"

definition field_byte :: "bytes \<Rightarrow> nat \<Rightarrow> field_reduce_error + u8" where
  "field_byte h i = (if i < length h then Inr (h ! i) else Inl FieldPanic)"

function left_field :: "u64w list \<Rightarrow> bytes \<Rightarrow> nat \<Rightarrow> nat \<Rightarrow> nat \<Rightarrow> field_reduce_error + (nat \<times> nat)" where
  "left_field words h next_start start tests =
     (if start > next_start
      then
        rbind (field_add tests 1 ''left membership tests'') (\<lambda>tests.
        rbind (ok_or (usub start 1) (ReduceOverflow ''left field predecessor'')) (\<lambda>previous.
        rbind (field_byte h previous) (\<lambda>byte.
        if \<not> class_contains words byte then Inr (start, tests)
        else left_field words h next_start previous tests)))
      else Inr (start, tests))"
  by pat_completeness auto
termination
  by (relation "measure (\<lambda>(words, h, next_start, start, tests). start)") auto

function right_field :: "u64w list \<Rightarrow> bytes \<Rightarrow> nat \<Rightarrow> nat \<Rightarrow> field_reduce_error + (nat \<times> nat)" where
  "right_field words h stop tests =
     (if stop < length h
      then
        rbind (field_add tests 1 ''right membership tests'') (\<lambda>tests.
        rbind (field_byte h stop) (\<lambda>byte.
        if \<not> class_contains words byte then Inr (stop, tests)
        else rbind (ok_or (uadd stop 1) (ReduceOverflow ''right field successor'')) (\<lambda>stop.
          right_field words h stop tests)))
      else Inr (stop, tests))"
  by pat_completeness auto
termination
  by (relation "measure (\<lambda>(words, h, stop, tests). length h - stop)") auto

declare left_field.simps [simp del] right_field.simps [simp del]

record visit_state =
  vs_next_start :: nat
  vs_delimiter_events :: nat
  vs_membership_tests :: nat
  vs_matches :: nat
  vs_span_sum :: nat
  vs_visited :: "complete_span list"

definition visit_delimiter :: "field_plan \<Rightarrow> bytes \<Rightarrow> nat \<Rightarrow> visit_state \<Rightarrow> field_reduce_error + visit_state" where
  "visit_delimiter plan h delimiter st =
     rbind (field_add (vs_delimiter_events st) 1 ''delimiter events'') (\<lambda>events.
     let st = st\<lparr>vs_delimiter_events := events\<rparr> in
     if delimiter < vs_next_start st then Inr st
     else
       rbind (left_field (fp_class_words plan) h (vs_next_start st) delimiter (vs_membership_tests st)) (\<lambda>(start, tests).
       let st = st\<lparr>vs_membership_tests := tests\<rparr> in
       if start = delimiter then Inr st
       else
         rbind (ok_or (uadd delimiter 1) (ReduceOverflow ''post-delimiter offset'')) (\<lambda>right_start.
         rbind (right_field (fp_class_words plan) h right_start tests) (\<lambda>(stop, tests).
         let st = st\<lparr>vs_membership_tests := tests\<rparr> in
         if stop = right_start then Inr st
         else
           rbind (ok_or (usub stop start) (ReduceOverflow ''matched width'')) (\<lambda>width.
           rbind (field_add (vs_matches st) 1 ''match events'') (\<lambda>matches.
           rbind (field_add (vs_span_sum st) width ''matched byte sum'') (\<lambda>span_sum.
           Inr (st\<lparr>vs_matches := matches, vs_span_sum := span_sum, vs_next_start := stop,
                 vs_visited := vs_visited st @ [\<lparr>cs_start = start, cs_end = stop\<rparr>]\<rparr>))))))))"

definition check_counter :: "string \<times> nat \<times> nat \<Rightarrow> unit \<Rightarrow> field_reduce_error + unit" where
  "check_counter = (\<lambda>(counter, actual, bound) _. if actual > bound then Inl (AccountingInvariant counter actual bound) else Inr ())"

definition visit_spans ::
    "(u8 \<Rightarrow> bytes \<Rightarrow> nat list) \<Rightarrow> field_plan \<Rightarrow> bytes \<Rightarrow> field_reduce_limits
     \<Rightarrow> field_reduce_error + (complete_span list \<times> span_visit_result)" where
  "visit_spans memchr_iter plan h limits =
     rbind (field_preflight plan (length h) limits) (\<lambda>upper.
     rbind (rfold (visit_delimiter plan h) (memchr_iter (fp_delimiter plan) h)
       \<lparr>vs_next_start = 0, vs_delimiter_events = 0, vs_membership_tests = 0, vs_matches = 0, vs_span_sum = 0, vs_visited = []\<rparr>) (\<lambda>st.
     rbind (field_add (ub_delimiter_scan_bytes upper) (vs_membership_tests st) ''actual sequential bytes'') (\<lambda>sequential_bytes.
     rbind (field_add sequential_bytes (vs_delimiter_events st) ''actual traversal work'') (\<lambda>work.
     rbind (field_add work (vs_matches st) ''actual traversal work'') (\<lambda>work.
     rbind (field_add work 8 ''actual traversal work'') (\<lambda>work.
     rbind (rfold check_counter
       [(''delimiter events'', vs_delimiter_events st, ub_delimiter_events upper),
        (''membership tests'', vs_membership_tests st, ub_membership_tests upper),
        (''sequential bytes'', sequential_bytes, ub_sequential_bytes upper),
        (''match events'', vs_matches st, ub_match_events upper),
        (''matched byte sum'', vs_span_sum st, ub_span_sum upper),
        (''work'', work, ub_work upper)] ()) (\<lambda>_.
     Inr (vs_visited st, \<lparr>sv_matches = vs_matches st, sv_span_sum = vs_span_sum st,
       sv_accounting = \<lparr>ra_identity = span_visit_identity plan, ra_upper_bounds = upper,
         ra_actual = \<lparr>rc_input_bytes = length h, rc_delimiter_scan_bytes = ub_delimiter_scan_bytes upper,
           rc_delimiter_events = vs_delimiter_events st, rc_membership_tests = vs_membership_tests st,
           rc_sequential_bytes = sequential_bytes, rc_match_events = vs_matches st,
           rc_matched_bytes = vs_span_sum st, rc_work = work\<rparr>\<rparr>\<rparr>))))))))"

end
