(* ===== verification/KerClass.thy ===== *)
theory KerClass
  imports KerFields
begin

text \<open>
  The construction of a delimiter-field plan: the bitmap holds exactly the bytes of the ranges, and
  every refusal of the builder has its reason.
\<close>

section \<open>Bitmaps\<close>

definition member :: "u64w list \<Rightarrow> nat \<Rightarrow> bool" where
  "member words n = bit (words ! (n div 64)) (n mod 64)"

lemma class_contains_member: "class_contains words byte = member words (unat byte)"
  by (simp only: class_contains_def member_def and_push_bit_1)

lemma mask_bit:
  assumes "a < 64" "b < 64" "j < 64"
  shows "bit (push_bit a (- 1) AND drop_bit (63 - b) (- 1) :: u64w) j \<longleftrightarrow> a \<le> j \<and> j \<le> b"
  using assms by (auto simp: bit_simps)

lemma insert_word_ok:
  assumes "length words = 4" "first + relative \<le> final" "final < 4" "first = unat start div 64" "final = unat stop div 64"
  obtains words' where "insert_word start stop first final relative words = Inr words'" "length words' = 4"
    "\<And>n. n < 256 \<Longrightarrow> member words' n \<longleftrightarrow> member words n \<or>
       n div 64 = first + relative \<and> unat start \<le> n \<and> n \<le> unat stop"
proof -
  let ?w = "first + relative"
  define a b where "a = (if ?w = first then unat start mod 64 else 0)" and "b = (if ?w = final then unat stop mod 64 else 63)"
  define mask :: u64w where "mask = push_bit a (- 1) AND drop_bit (63 - b) (- 1)"
  have ab: "a < 64" "b < 64" by (simp_all add: a_def b_def)
  have word: "insert_word start stop first final relative words = Inr (words[?w := words ! ?w OR mask])"
  proof -
    have "uadd first relative = Some ?w" using assms(2,3) by (intro uadd_fits usize_max_ge) simp
    moreover have "max_shl a = Some (push_bit a (- 1))" "usub 63 b = Some (63 - b)" "max_shr (63 - b) = Some (drop_bit (63 - b) (- 1))"
      using ab by (simp_all only: max_shl_def max_shr_def usub_fits if_True) simp_all
    ultimately show ?thesis
      unfolding insert_word_def Let_def by (simp only: ok_or_simps rbind_Inr a_def [symmetric] b_def [symmetric] mask_def)
  qed
  have w: "?w < length words" using assms(1-3) by simp
  have inside: "a \<le> n mod 64 \<and> n mod 64 \<le> b \<longleftrightarrow> unat start \<le> n \<and> n \<le> unat stop" if "n div 64 = ?w" for n
  proof -
    define x s e where "x = n mod 64" and "s = unat start mod 64" and "e = unat stop mod 64"
    have eqs: "n = 64 * (first + relative) + x" "unat start = 64 * first + s" "unat stop = 64 * final + e"
      using that assms(4,5) unfolding x_def s_def e_def by (metis mult_div_mod_eq)+
    have less: "x < 64" "s < 64" "e < 64" by (simp_all add: x_def s_def e_def)
    have "a = (if relative = 0 then s else 0)" "b = (if first + relative = final then e else 63)"
      by (simp_all add: a_def b_def s_def e_def)
    then have "a \<le> x \<and> x \<le> b \<longleftrightarrow> 64 * first + s \<le> 64 * (first + relative) + x \<and> 64 * (first + relative) + x \<le> 64 * final + e"
      using less assms(2) by auto
    then show ?thesis unfolding x_def [symmetric] using eqs by simp
  qed
  show thesis
  proof (rule that [OF word])
    fix n :: nat assume "n < 256"
    show "member (words[?w := words ! ?w OR mask]) n \<longleftrightarrow> member words n \<or>
        n div 64 = ?w \<and> unat start \<le> n \<and> n \<le> unat stop"
    proof (cases "n div 64 = ?w")
      case True
      then show ?thesis
        using inside [OF True] mask_bit [OF ab, of "n mod 64"] w by (simp add: member_def bit_or_iff mask_def)
    qed (simp add: member_def)
  qed (use assms(1) in simp)
qed

lemma insert_words_ok:
  assumes "length words = 4" "first + k \<le> Suc final" "final < 4" "first = unat start div 64" "final = unat stop div 64"
  shows "\<exists>words'. rfold (insert_word start stop first final) [0..<k] words = Inr words' \<and> length words' = 4 \<and>
    (\<forall>n<256. member words' n \<longleftrightarrow> member words n \<or> n div 64 < first + k \<and> unat start \<le> n \<and> n \<le> unat stop)"
  using assms(2)
proof (induction k)
  case 0
  have "\<not> unat start \<le> n" if "n div 64 < first" for n
    using that assms(4) div_le_mono [of "unat start" n 64] by auto
  then show ?case using assms(1) by auto
next
  case (Suc k)
  then obtain words1 where 1: "rfold (insert_word start stop first final) [0..<k] words = Inr words1" "length words1 = 4"
    "\<And>n. n < 256 \<Longrightarrow> member words1 n \<longleftrightarrow> member words n \<or> n div 64 < first + k \<and> unat start \<le> n \<and> n \<le> unat stop"
    by auto
  obtain words2 where 2: "insert_word start stop first final k words1 = Inr words2" "length words2 = 4"
    "\<And>n. n < 256 \<Longrightarrow> member words2 n \<longleftrightarrow> member words1 n \<or> n div 64 = first + k \<and> unat start \<le> n \<and> n \<le> unat stop"
    using insert_word_ok [OF 1(2) _ assms(3-5), of k] Suc.prems by auto
  then show ?case using 1 by (auto simp: rfold_append less_Suc_eq)
qed

lemma insert_range_ok:
  assumes "length words = 4" "start \<le> stop"
  obtains words' writes where "insert_range words start stop = Inr (words', writes)" "length words' = 4" "writes \<le> 4"
    "\<And>b. class_contains words' b \<longleftrightarrow> class_contains words b \<or> start \<le> b \<and> b \<le> stop"
proof -
  let ?f = "unat start div 64" and ?l = "unat stop div 64"
  have le: "unat start \<le> unat stop" using assms(2) by (simp add: word_le_nat_alt)
  then have fl: "?f \<le> ?l" by (rule div_le_mono)
  have byte: "unat b < 256" for b :: u8 using unsigned_less [of b, where 'a = nat] by simp
  have l: "?l < 4" using byte [of stop] by simp
  obtain words' where r: "rfold (insert_word start stop ?f ?l) [0..<?l + 1 - ?f] words = Inr words'" "length words' = 4"
    "\<And>n. n < 256 \<Longrightarrow> member words' n \<longleftrightarrow> member words n \<or> n div 64 < ?f + (?l + 1 - ?f) \<and> unat start \<le> n \<and> n \<le> unat stop"
    using insert_words_ok [OF assms(1) _ l refl refl, where k = "?l + 1 - ?f" and start = start] fl by auto
  have "insert_range words start stop = Inr (words', ?l - ?f + 1)"
    using r(1) fl l assms(1) by (simp add: insert_range_def Let_def usize_max_ge)
  moreover have "class_contains words' b \<longleftrightarrow> class_contains words b \<or> start \<le> b \<and> b \<le> stop" for b
    using r(3) [OF byte [of b]] fl div_le_mono [of "unat b" "unat stop" 64]
    by (auto simp: class_contains_member word_le_nat_alt)
  ultimately show thesis using that r(2) l by simp
qed

section \<open>Ranges\<close>

definition in_ranges :: "(u8 \<times> u8) list \<Rightarrow> u8 \<Rightarrow> bool" where
  "in_ranges ranges b = (\<exists>(s, t)\<in>set ranges. s \<le> b \<and> b \<le> t)"

text \<open>No range is reversed, and each starts behind its predecessor.\<close>

fun canonical :: "u8 option \<Rightarrow> (u8 \<times> u8) list \<Rightarrow> bool" where
  "canonical prev [] = True"
| "canonical prev ((s, t) # ranges) = (s \<le> t \<and> (\<forall>p. prev = Some p \<longrightarrow> p < s) \<and> canonical (Some t) ranges)"

definition range_refusal :: "u8 option \<Rightarrow> (u8 \<times> u8) list \<Rightarrow> field_build_error \<times> build_actual \<Rightarrow> bool" where
  "range_refusal prev ranges = (\<lambda>(e, _). \<not> canonical prev ranges \<and>
     (e = NonCanonicalRanges \<or> (\<exists>(s, t)\<in>set ranges. t < s \<and> e = ReversedRange s t)))"

definition ranges_held :: "u64w list \<Rightarrow> (u8 \<times> u8) list \<Rightarrow> u64w list \<Rightarrow> bool" where
  "ranges_held words ranges words' = (length words' = 4 \<and> (\<forall>b. class_contains words' b \<longleftrightarrow> class_contains words b \<or> in_ranges ranges b))"

lemma range_turns:
  assumes "length words = 4" "ba_work actual + 4 * length ranges \<le> usize_max" "writes + 4 * length ranges \<le> usize_max"
  shows "safe (range_refusal prev ranges) (rfold range_turn ranges (words, prev, writes, actual))
    (\<lambda>(words', prev', writes', actual'). canonical prev ranges \<and> ranges_held words ranges words' \<and>
       ba_work actual' = ba_work actual + 4 * length ranges)"
  using assms
proof (induction ranges arbitrary: words prev writes actual)
  case Nil
  then show ?case by (simp add: ranges_held_def in_ranges_def)
next
  case (Cons r ranges)
  obtain s t where r: "r = (s, t)" by (cases r)
  let ?a = "actual\<lparr>ba_work := ba_work actual + 4\<rparr>"
  have charge: "charge_build_work 4 actual = Inr ?a" using Cons.prems(2) by (simp add: charge_build_work_def)
  show ?case
  proof (cases "s \<le> t \<and> (\<forall>p. prev = Some p \<longrightarrow> p < s)")
    case False
    then consider "t < s" | "s \<le> t" "\<exists>p. prev = Some p \<and> s \<le> p" by force
    then show ?thesis
      by cases (auto simp: r range_turn_def with_actual_def charge range_refusal_def)
  next
    case True
    obtain words1 w where ins: "insert_range words s t = Inr (words1, w)" "length words1 = 4" "w \<le> 4"
      "\<And>b. class_contains words1 b \<longleftrightarrow> class_contains words b \<or> s \<le> b \<and> b \<le> t"
      using insert_range_ok [OF Cons.prems(1)] True by blast
    have w: "writes + w + 4 * length ranges \<le> usize_max" using ins(3) Cons.prems(3) by simp
    have "\<not> (case prev of None \<Rightarrow> False | Some previous \<Rightarrow> previous \<ge> s)" using True by (auto split: option.split)
    then have turn: "range_turn r (words, prev, writes, actual) = Inr (words1, Some t, writes + w, ?a)"
      using True ins(1) w by (simp add: r range_turn_def with_actual_def charge not_less)
    have "safe (range_refusal (Some t) ranges) (rfold range_turn ranges (words1, Some t, writes + w, ?a))
        (\<lambda>(words', prev', writes', actual'). canonical (Some t) ranges \<and> ranges_held words1 ranges words' \<and>
          ba_work actual' = ba_work ?a + 4 * length ranges)"
      using Cons.prems(2) w ins(2) by (intro Cons.IH) simp_all
    then have "safe (range_refusal prev (r # ranges)) (rfold range_turn ranges (words1, Some t, writes + w, ?a))
        (\<lambda>(words', prev', writes', actual'). canonical (Some t) ranges \<and> ranges_held words1 ranges words' \<and>
          ba_work actual' = ba_work ?a + 4 * length ranges)"
      by (rule safe_weaken) (auto simp: range_refusal_def r)
    then show ?thesis
      unfolding rfold.simps turn rbind_Inr
      by (rule safe_mono) (use True ins(4) in \<open>auto simp: r ranges_held_def in_ranges_def\<close>)
  qed
qed

lemma count_ones_le: "count_ones w \<le> 64"
  using length_filter_le [of "bit w" "[0..<64]"] by (simp add: count_ones_def del: length_filter_le)

lemma population_ok:
  assumes "length words = 4"
  shows "class_population words = Inr (sum_list (map count_ones words))"
proof -
  have "rfold (\<lambda>word total. ok_or (uadd total (count_ones word)) (BuildOverflow ''class member population'')) ws t =
      Inr (t + sum_list (map count_ones ws))" if "t + 64 * length ws \<le> 1000" for ws t
    using that
  proof (induction ws arbitrary: t)
    case (Cons w ws)
    have "uadd t (count_ones w) = Some (t + count_ones w)"
      using count_ones_le [of w] Cons.prems by (intro uadd_fits usize_max_ge) simp
    then show ?case using Cons count_ones_le [of w] by simp
  qed simp
  from this [of 0 words] show ?thesis using assms by (simp add: class_population_def)
qed

lemma population_pos:
  assumes "length words = 4" "class_contains words b"
  shows "0 < sum_list (map count_ones words)"
proof -
  have "unat b < 256" using unsigned_less [of b, where 'a = nat] by simp
  then have w: "words ! (unat b div 64) \<in> set words" using assms(1) by simp
  have "unat b mod 64 \<in> set (filter (bit (words ! (unat b div 64))) [0..<64])"
    using assms(2) by (simp add: class_contains_member member_def)
  then have "0 < count_ones (words ! (unat b div 64))" unfolding count_ones_def by (rule length_pos_if_in_set)
  moreover have "count_ones (words ! (unat b div 64)) \<le> sum_list (map count_ones words)"
    using w by (intro member_le_sum_list) auto
  ultimately show ?thesis by linarith
qed

section \<open>The builder\<close>

fun build_refusal :: "nat \<Rightarrow> (u8 \<times> u8) list \<Rightarrow> u8 \<Rightarrow> field_build_limits \<Rightarrow> field_build_error \<Rightarrow> bool" where
  "build_refusal n ranges d l FieldEmptyClass = (ranges = [])"
| "build_refusal n ranges d l (ReversedRange s t) = ((s, t) \<in> set ranges \<and> t < s)"
| "build_refusal n ranges d l NonCanonicalRanges = (\<not> canonical None ranges)"
| "build_refusal n ranges d l (DelimiterInClass b) = (b = d \<and> in_ranges ranges d)"
| "build_refusal n ranges d l (RangeLimit a b) = (a = length ranges \<and> b = max_source_ranges l \<and> b < a)"
| "build_refusal n ranges d l (BuildWorkLimit a b) = (a = 4 * length ranges + 8 \<and> b = max_build_work l \<and> b < a)"
| "build_refusal n ranges d l (PersistentLimit a b) = (a = n \<and> b = max_persistent_bytes l \<and> b < a)"
| "build_refusal n ranges d l (BuildPeakLimit a b) = (a = n \<and> b = max_build_peak_bytes l \<and> b < a)"
| "build_refusal n ranges d l (BuildOverflow s) = (usize_max < 4 * length ranges + 8)"
| "build_refusal n ranges d l BuildPanic = False"

definition buildable :: "nat \<Rightarrow> (u8 \<times> u8) list \<Rightarrow> u8 \<Rightarrow> field_build_limits \<Rightarrow> bool" where
  "buildable n ranges d l = (ranges \<noteq> [] \<and> canonical None ranges \<and> \<not> in_ranges ranges d \<and>
     length ranges \<le> max_source_ranges l \<and> 4 * length ranges + 8 \<le> max_build_work l \<and> 4 * length ranges + 8 \<le> usize_max \<and>
     n \<le> max_persistent_bytes l \<and> n \<le> max_build_peak_bytes l)"

definition describes :: "field_plan \<Rightarrow> nat \<Rightarrow> (u8 \<times> u8) list \<Rightarrow> u8 \<Rightarrow> bool" where
  "describes plan n ranges d = (fp_delimiter plan = d \<and> (\<forall>b. class_contains (fp_class_words plan) b \<longleftrightarrow> in_ranges ranges b)
     \<and> bd_persistent_bytes (fp_build plan) = n)"

lemma canonical_refused:
  "range_refusal None ranges (e, a) \<Longrightarrow> build_refusal n ranges d l e"
  by (auto simp: range_refusal_def)

lemma canonical_member: "canonical None ranges \<Longrightarrow> ranges \<noteq> [] \<Longrightarrow> \<exists>b. in_ranges ranges b"
  by (cases ranges) (auto simp: in_ranges_def)

lemma not_contains_zero: "\<not> class_contains [0, 0, 0, 0] b"
proof -
  have "unat b div 64 < 4" using unsigned_less [of b, where 'a = nat] by simp
  then have "[0, 0, 0, 0 :: u64w] ! (unat b div 64) \<in> set [0, 0, 0, 0 :: u64w]" by (intro nth_mem) simp
  then show ?thesis by (simp add: class_contains_def)
qed

lemma publish_outcome:
  assumes c: "canonical None ranges" "ranges \<noteq> []" and held: "ranges_held [0, 0, 0, 0] ranges words"
    and work: "ba_work actual = 4 * length ranges" "4 * length ranges + 8 \<le> usize_max"
  shows "safe (\<lambda>(e, _). build_refusal n ranges d l e) (attempt_publish n (length ranges) d (4 * length ranges + 8) (words, prev, writes, actual))
    (\<lambda>(plan, _). \<not> in_ranges ranges d \<and> describes plan n ranges d)"
proof -
  have mem: "class_contains words b \<longleftrightarrow> in_ranges ranges b" for b using held not_contains_zero by (simp add: ranges_held_def)
  have len: "length words = 4" using held by (simp add: ranges_held_def)
  obtain b where "in_ranges ranges b" using canonical_member [OF c] by blast
  then have "0 < sum_list (map count_ones words)" using population_pos [OF len] mem by blast
  then show ?thesis
    using population_ok [OF len] mem work
    by (auto simp: attempt_publish_def with_actual_def charge_build_work_def Let_def describes_def simp del: sum_list_eq_0_iff)
qed

lemma attempt_outcome:
  "safe (\<lambda>(e, _). build_refusal n ranges d l e) (attempt_ranges n ranges d l)
     (\<lambda>(plan, _). buildable n ranges d l \<and> describes plan n ranges d)"
proof (cases "ranges = [] \<or> max_source_ranges l < length ranges \<or> usize_max < 4 * length ranges + 8 \<or>
    max_build_work l < 4 * length ranges + 8 \<or> max_persistent_bytes l < n \<or> max_build_peak_bytes l < n")
  case True
  then show ?thesis
    by (auto simp: attempt_ranges_def Let_def with_actual_def umul_def uadd_def mult.commute split: option.split)
next
  case False
  let ?R = "\<lambda>(e, _). build_refusal n ranges d l e" and ?a = "build_actual_default"
  have fits: "4 * length ranges + 8 \<le> usize_max" using False by simp
  have turns: "safe ?R (rfold range_turn ranges ([0, 0, 0, 0], None, 0, ?a))
      (\<lambda>(words', prev', writes', actual'). canonical None ranges \<and> ranges_held [0, 0, 0, 0] ranges words' \<and>
        ba_work actual' = 4 * length ranges)"
  proof (rule safe_weaken)
    show "safe (range_refusal None ranges) (rfold range_turn ranges ([0, 0, 0, 0], None, 0, ?a))
        (\<lambda>(words', prev', writes', actual'). canonical None ranges \<and> ranges_held [0, 0, 0, 0] ranges words' \<and>
          ba_work actual' = 4 * length ranges)"
      using range_turns [of "[0, 0, 0, 0]" ?a ranges 0 None] fits by (simp add: build_actual_default_def)
  qed (auto intro: canonical_refused)
  have "safe ?R (rbind (rfold range_turn ranges ([0, 0, 0, 0], None, 0, ?a)) (attempt_publish n (length ranges) d (4 * length ranges + 8)))
      (\<lambda>(plan, _). buildable n ranges d l \<and> describes plan n ranges d)"
  proof (rule safe_bind [OF turns], clarify)
    fix words prev writes and actual :: build_actual
    assume "canonical None ranges" "ranges_held [0, 0, 0, 0] ranges words" "ba_work actual = 4 * length ranges"
    then show "safe ?R (attempt_publish n (length ranges) d (4 * length ranges + 8) (words, prev, writes, actual))
        (\<lambda>(plan, _). buildable n ranges d l \<and> describes plan n ranges d)"
      using False fits by (intro safe_mono [OF publish_outcome]) (auto simp: buildable_def not_less)
  qed
  then show ?thesis
    unfolding attempt_ranges_def Let_def using False fits
    by (simp add: with_actual_def mult.commute not_less)
qed

lemma field_build_outcome:
  "safe (build_refusal n ranges d l) (field_build n ranges d l)
     (\<lambda>plan. buildable n ranges d l \<and> describes plan n ranges d)"
  using attempt_outcome [of n ranges d l]
  by (auto simp: field_build_def build_attempt_def safe_def split: sum.splits)

end
