(* ===== verification/KerScan.thy ===== *)
theory KerScan
  imports KerClass IterSpec
begin

text \<open>
  The traversal of the delimiter-field kernel visits exactly the spans of the abstract iteration of
  \<^verbatim>\<open>BYTE_CLASS+ DELIMITER BYTE_CLASS+\<close>, and its counters stay within the bounds of the preflight.
\<close>

section \<open>Runs\<close>

definition run_end :: "(u8 \<Rightarrow> bool) \<Rightarrow> bytes \<Rightarrow> nat \<Rightarrow> nat" where
  "run_end C h p = p + length (takeWhile C (drop p h))"

lemma run_end_bounds: "p \<le> run_end C h p" "p \<le> length h \<Longrightarrow> run_end C h p \<le> length h"
  using length_takeWhile_le [of C "drop p h"] by (auto simp: run_end_def)

lemma run_end_inside:
  assumes "p \<le> i" "i < run_end C h p"
  shows "C (h ! i)"
proof -
  have "i - p < length (takeWhile C (drop p h))" using assms by (simp add: run_end_def)
  then have "takeWhile C (drop p h) ! (i - p) \<in> set (takeWhile C (drop p h))" "takeWhile C (drop p h) ! (i - p) = drop p h ! (i - p)"
    by (rule nth_mem, rule takeWhile_nth)
  moreover have "drop p h ! (i - p) = h ! i"
    using assms run_end_bounds(2) [of p h C] length_takeWhile_le [of C "drop p h"] by (simp add: run_end_def)
  ultimately show ?thesis using set_takeWhileD by fastforce
qed

lemma run_end_stops: "run_end C h p < length h \<Longrightarrow> \<not> C (h ! run_end C h p)"
  using nth_length_takeWhile [of C "drop p h"] by (auto simp: run_end_def less_diff_conv add.commute)

lemma run_end_eq:
  assumes "p \<le> m" "m \<le> length h" "\<And>i. p \<le> i \<Longrightarrow> i < m \<Longrightarrow> C (h ! i)" "m = length h \<or> \<not> C (h ! m)"
  shows "run_end C h p = m"
proof (rule antisym)
  show "run_end C h p \<le> m"
    using assms run_end_inside [of p m C h] run_end_bounds(2) [of p h C] by (metis le_trans not_le)
  show "m \<le> run_end C h p"
    using assms run_end_stops [of C h p] run_end_bounds(1) [of p C h] by (metis le_trans not_le less_le_trans)
qed

lemma run_end_step:
  assumes "p < length h"
  shows "run_end C h p = (if C (h ! p) then run_end C h (Suc p) else p)"
  using assms by (simp add: run_end_def Cons_nth_drop_Suc [symmetric])

section \<open>The selector\<close>

definition field_sel :: "(u8 \<Rightarrow> bool) \<Rightarrow> u8 \<Rightarrow> bytes \<Rightarrow> nat \<Rightarrow> nat option" where
  "field_sel C d h s = (let m = run_end C h s in
     if s < m \<and> m < length h \<and> h ! m = d \<and> Suc m < run_end C h (Suc m) then Some (run_end C h (Suc m)) else None)"

lemma field_sel_Some:
  "field_sel C d h s = Some e \<longleftrightarrow> (\<exists>m. run_end C h s = m \<and> s < m \<and> m < length h \<and> h ! m = d \<and> Suc m < e \<and> run_end C h (Suc m) = e)"
  by (auto simp: field_sel_def Let_def)

interpretation field: selector "length h" "field_sel C d h" for C d h
  by unfold_locales (use run_end_bounds(2) in \<open>fastforce simp: field_sel_Some\<close>)

abbreviation field_spans :: "(u8 \<Rightarrow> bool) \<Rightarrow> u8 \<Rightarrow> bytes \<Rightarrow> nat \<Rightarrow> (nat \<times> nat) list" where
  "field_spans C d h c \<equiv> iter_seq (length h) (field_sel C d h) c None"

lemma field_spans_step:
  assumes "next_match (length h) (field_sel C d h) c = Some (s, e)"
  shows "field_spans C d h c = (s, e) # field_spans C d h e"
proof -
  have "s < e" using field.next_match_bounds [OF assms] by (auto simp: field_sel_Some)
  have any: "iter_seq (length h) (field_sel C d h) k prev = field_spans C d h k" for k prev
  proof (cases "next_match (length h) (field_sel C d h) k")
    case (Some x)
    obtain s' e' where x: "x = (s', e')" by (cases x)
    have "s' \<noteq> e'" using field.next_match_bounds [OF Some [unfolded x]] by (auto simp: field_sel_Some)
    then show ?thesis
      using field.iter_seq_unfold [where cursor = k and prev = prev] field.iter_seq_unfold [where cursor = k and prev = None] Some x by simp
  qed (simp add: field.iter_seq_unfold [where cursor = k])
  show ?thesis
    using field.iter_seq_unfold [where cursor = c and prev = None] assms \<open>s < e\<close> any by simp
qed

section \<open>The scans\<close>

lemma left_field_ok:
  assumes "next_start \<le> start" "start \<le> length h" "tests + (start - next_start) \<le> usize_max"
  shows "\<exists>s. left_field words h next_start start tests = Inr (s, tests + (start - s) + (if next_start < s then 1 else 0)) \<and>
    next_start \<le> s \<and> s \<le> start \<and> (\<forall>i. s \<le> i \<longrightarrow> i < start \<longrightarrow> class_contains words (h ! i)) \<and>
    (s = next_start \<or> \<not> class_contains words (h ! (s - 1)))"
  using assms
proof (induction "start - next_start" arbitrary: start tests)
  case 0
  then show ?case by (subst left_field.simps) auto
next
  case (Suc n)
  then have gt: "next_start < start" by simp
  have t: "field_add tests 1 ''left membership tests'' = Inr (Suc tests)" using Suc.prems(3) gt by (simp add: field_add_def)
  have byte: "field_byte h (start - 1) = Inr (h ! (start - 1))" using gt Suc.prems(2) by (simp add: field_byte_def)
  have step: "left_field words h next_start start tests =
      (if \<not> class_contains words (h ! (start - 1)) then Inr (start, Suc tests)
       else left_field words h next_start (start - 1) (Suc tests))"
    using gt t byte by (subst left_field.simps) simp
  show ?case
  proof (cases "class_contains words (h ! (start - 1))")
    case False
    then show ?thesis using step gt by auto
  next
    case True
    have "\<exists>s. left_field words h next_start (start - 1) (Suc tests) =
        Inr (s, Suc tests + (start - 1 - s) + (if next_start < s then 1 else 0)) \<and>
        next_start \<le> s \<and> s \<le> start - 1 \<and> (\<forall>i. s \<le> i \<longrightarrow> i < start - 1 \<longrightarrow> class_contains words (h ! i)) \<and>
        (s = next_start \<or> \<not> class_contains words (h ! (s - 1)))"
      using Suc.hyps(2) Suc.prems gt by (intro Suc.hyps(1)) simp_all
    then obtain s where s: "left_field words h next_start (start - 1) (Suc tests) =
        Inr (s, Suc tests + (start - 1 - s) + (if next_start < s then 1 else 0))"
      "next_start \<le> s" "s \<le> start - 1" "\<And>i. s \<le> i \<Longrightarrow> i < start - 1 \<Longrightarrow> class_contains words (h ! i)"
      "s = next_start \<or> \<not> class_contains words (h ! (s - 1))" by blast
    have "class_contains words (h ! i)" if "s \<le> i" "i < start" for i
      using s(4) [of i] True that by (cases "i = start - 1") auto
    moreover have "Suc tests + (start - 1 - s) = tests + (start - s)" using s(3) gt by simp
    ultimately show ?thesis using step True s gt by (intro exI [of _ s]) auto
  qed
qed

lemma right_field_ok:
  assumes "stop \<le> length h" "tests + (length h - stop) \<le> usize_max" "length h \<le> usize_max"
  shows "right_field words h stop tests =
    Inr (run_end (class_contains words) h stop,
      tests + (run_end (class_contains words) h stop - stop) + (if run_end (class_contains words) h stop < length h then 1 else 0))"
  using assms
proof (induction "length h - stop" arbitrary: stop tests)
  case 0
  then have "run_end (class_contains words) h stop = stop" by (intro run_end_eq) auto
  with 0 show ?case by (subst right_field.simps) auto
next
  case (Suc n)
  then have lt: "stop < length h" by simp
  have step: "right_field words h stop tests =
      (if \<not> class_contains words (h ! stop) then Inr (stop, Suc tests) else right_field words h (Suc stop) (Suc tests))"
    using lt Suc.prems by (subst right_field.simps) (simp add: field_add_def field_byte_def)
  show ?case
  proof (cases "class_contains words (h ! stop)")
    case False
    then show ?thesis using step run_end_step [OF lt] lt by simp
  next
    case True
    have "right_field words h (Suc stop) (Suc tests) =
      Inr (run_end (class_contains words) h (Suc stop),
        Suc tests + (run_end (class_contains words) h (Suc stop) - Suc stop) + (if run_end (class_contains words) h (Suc stop) < length h then 1 else 0))"
      using Suc.hyps(2) Suc.prems lt by (intro Suc.hyps(1)) simp_all
    then show ?thesis using step True run_end_step [OF lt, of "class_contains words"] run_end_bounds(1) [of "Suc stop" "class_contains words" h] by simp
  qed
qed

section \<open>One delimiter\<close>

abbreviation plan_class :: "field_plan \<Rightarrow> u8 \<Rightarrow> bool" where
  "plan_class plan \<equiv> class_contains (fp_class_words plan)"

abbreviation plan_sel :: "field_plan \<Rightarrow> bytes \<Rightarrow> nat \<Rightarrow> nat option" where
  "plan_sel plan h \<equiv> field_sel (plan_class plan) (fp_delimiter plan) h"

abbreviation plan_spans :: "field_plan \<Rightarrow> bytes \<Rightarrow> nat \<Rightarrow> (nat \<times> nat) list" where
  "plan_spans plan h c \<equiv> field_spans (plan_class plan) (fp_delimiter plan) h c"

definition span_pair :: "complete_span \<Rightarrow> nat \<times> nat" where
  "span_pair s = (cs_start s, cs_end s)"

text \<open>
  The delimiters before \<open>k\<close> are done: no match from the next start on has its delimiter there, and
  the spans visited and the spans to come make up the whole. Every byte is tested at most once from
  its right (\<open>a\<close> of them so far) and once from its left (\<open>b\<close>).
\<close>

definition scanned :: "field_plan \<Rightarrow> bytes \<Rightarrow> nat \<Rightarrow> visit_state \<Rightarrow> bool" where
  "scanned plan h k st = (vs_next_start st \<le> length h \<and> vs_delimiter_events st \<le> k
     \<and> 3 * vs_matches st \<le> vs_next_start st \<and> vs_span_sum st \<le> vs_next_start st
     \<and> vs_matches st = length (vs_visited st)
     \<and> vs_span_sum st = (\<Sum>s\<leftarrow>vs_visited st. cs_end s - cs_start s)
     \<and> (\<exists>a b. vs_membership_tests st \<le> a + b \<and> a \<le> k \<and> (a = 0 \<or> a < k \<and> h ! a = fp_delimiter plan)
          \<and> b \<le> length h \<and> b \<le> Suc (max k (vs_next_start st)))
     \<and> (\<forall>s e. vs_next_start st \<le> s \<longrightarrow> plan_sel plan h s = Some e \<longrightarrow> k \<le> run_end (plan_class plan) h s)
     \<and> map span_pair (vs_visited st) @ plan_spans plan h (vs_next_start st) = plan_spans plan h 0)"

lemma scanned_other:
  assumes "scanned plan h k st" "k < length h" "h ! k \<noteq> fp_delimiter plan"
  shows "scanned plan h (Suc k) st"
proof -
  obtain a b where ab: "vs_membership_tests st \<le> a + b" "a \<le> k" "a = 0 \<or> a < k \<and> h ! a = fp_delimiter plan"
    "b \<le> length h" "b \<le> Suc (max k (vs_next_start st))" using assms(1) unfolding scanned_def by blast
  have "Suc k \<le> run_end (plan_class plan) h s" if "vs_next_start st \<le> s" "plan_sel plan h s = Some e" for s e
  proof -
    have "k \<le> run_end (plan_class plan) h s" using assms(1) that by (auto simp: scanned_def)
    moreover have "run_end (plan_class plan) h s \<noteq> k" using that(2) assms(3) by (auto simp: field_sel_Some)
    ultimately show ?thesis by simp
  qed
  moreover have "\<exists>a b. vs_membership_tests st \<le> a + b \<and> a \<le> Suc k \<and> (a = 0 \<or> a < Suc k \<and> h ! a = fp_delimiter plan)
      \<and> b \<le> length h \<and> b \<le> Suc (max (Suc k) (vs_next_start st))"
    using ab by (intro exI [of _ a] exI [of _ b]) auto
  ultimately show ?thesis using assms(1) unfolding scanned_def by auto
qed

text \<open>A delimiter without a match: the state changes in its counters only.\<close>

lemma scanned_miss:
  assumes inv: "scanned plan h k st" and k: "k < length h"
    and miss: "\<And>s e. vs_next_start st \<le> s \<Longrightarrow> plan_sel plan h s = Some e \<Longrightarrow> run_end (plan_class plan) h s \<noteq> k"
    and tests: "\<exists>a b. t \<le> a + b \<and> a \<le> Suc k \<and> (a = 0 \<or> a < Suc k \<and> h ! a = fp_delimiter plan)
      \<and> b \<le> length h \<and> b \<le> Suc (max (Suc k) (vs_next_start st))"
  shows "scanned plan h (Suc k) (st\<lparr>vs_delimiter_events := Suc (vs_delimiter_events st), vs_membership_tests := t\<rparr>)"
proof -
  have "Suc k \<le> run_end (plan_class plan) h s" if "vs_next_start st \<le> s" "plan_sel plan h s = Some e" for s e
  proof -
    have "k \<le> run_end (plan_class plan) h s" using inv that by (auto simp: scanned_def)
    then show ?thesis using miss [OF that] by simp
  qed
  then show ?thesis using inv tests unfolding scanned_def by auto
qed

lemma scanned_hit:
  assumes inv: "scanned plan h k st" and s: "vs_next_start st \<le> s" "s < k" "k < length h"
    and left: "\<And>i. s \<le> i \<Longrightarrow> i < k \<Longrightarrow> plan_class plan (h ! i)"
      "s = vs_next_start st \<or> \<not> plan_class plan (h ! (s - 1))"
    and d: "h ! k = fp_delimiter plan" "\<not> plan_class plan (fp_delimiter plan)"
    and e: "e = run_end (plan_class plan) h (Suc k)" "Suc k < e"
    and tests: "\<exists>a b. t \<le> a + b \<and> a \<le> Suc k \<and> (a = 0 \<or> a < Suc k \<and> h ! a = fp_delimiter plan)
      \<and> b \<le> length h \<and> b \<le> Suc (max (Suc k) e)"
  shows "scanned plan h (Suc k) (st\<lparr>vs_delimiter_events := Suc (vs_delimiter_events st), vs_membership_tests := t,
    vs_matches := Suc (vs_matches st), vs_span_sum := vs_span_sum st + (e - s), vs_next_start := e,
    vs_visited := vs_visited st @ [\<lparr>cs_start = s, cs_end = e\<rparr>]\<rparr>)"
proof -
  let ?C = "plan_class plan" and ?sel = "plan_sel plan h"
  have run: "run_end ?C h s = k" by (rule run_end_eq) (use s left(1) d in auto)
  have sel: "?sel s = Some e" using run s e d(1) by (simp add: field_sel_Some)
  have first: "?sel u = None" if u: "vs_next_start st \<le> u" "u < s" for u
  proof (rule ccontr)
    assume "?sel u \<noteq> None"
    then obtain f where "?sel u = Some f" by blast
    then have "k \<le> run_end ?C h u" using inv u(1) by (auto simp: scanned_def)
    then have "?C (h ! (s - 1))" using u s by (intro run_end_inside [of u _ ?C h]) auto
    with left(2) u show False by auto
  qed
  have "next_match (length h) ?sel (vs_next_start st) = Some (s, e)"
    by (rule next_match_first) (use sel s first in auto)
  from field_spans_step [OF this]
  have spans: "map span_pair (vs_visited st @ [\<lparr>cs_start = s, cs_end = e\<rparr>]) @ plan_spans plan h e = plan_spans plan h 0"
    using inv by (simp add: scanned_def span_pair_def)
  have end_le: "e \<le> length h" using e(1) run_end_bounds(2) [of "Suc k" h ?C] s(3) by simp
  have later: "Suc k \<le> run_end ?C h u" if "e \<le> u" for u using run_end_bounds(1) [of u ?C h] that e(2) by simp
  show ?thesis
    using inv s e(2) end_le later tests spans unfolding scanned_def by auto
qed

lemma visit_delimiter_ok:
  assumes inv: "scanned plan h k st" and k: "k < length h" and d: "h ! k = fp_delimiter plan" "\<not> plan_class plan (fp_delimiter plan)"
    and fits: "3 * length h \<le> usize_max"
  shows "\<exists>st'. visit_delimiter plan h k st = Inr st' \<and> scanned plan h (Suc k) st'"
proof -
  let ?C = "plan_class plan" and ?c = "vs_next_start st" and ?t = "vs_membership_tests st"
  obtain a b where ab: "?t \<le> a + b" "a \<le> k" "a = 0 \<or> a < k \<and> h ! a = fp_delimiter plan" "b \<le> length h" "b \<le> Suc (max k ?c)"
    and counts: "vs_delimiter_events st \<le> k" "?c \<le> length h" "3 * vs_matches st \<le> ?c" "vs_span_sum st \<le> ?c"
    using inv unfolding scanned_def by blast
  have events: "field_add (vs_delimiter_events st) 1 ''delimiter events'' = Inr (Suc (vs_delimiter_events st))"
    using counts(1) k fits by (simp add: field_add_def)
  show ?thesis
  proof (cases "k < ?c")
    case True
    have "scanned plan h (Suc k) (st\<lparr>vs_delimiter_events := Suc (vs_delimiter_events st), vs_membership_tests := ?t\<rparr>)"
    proof (rule scanned_miss [OF inv k])
      show "run_end ?C h s \<noteq> k" if "?c \<le> s" for s using run_end_bounds(1) [of s ?C h] that True by simp
      show "\<exists>a b. ?t \<le> a + b \<and> a \<le> Suc k \<and> (a = 0 \<or> a < Suc k \<and> h ! a = fp_delimiter plan)
          \<and> b \<le> length h \<and> b \<le> Suc (max (Suc k) ?c)"
        using ab by (intro exI [of _ a] exI [of _ b]) auto
    qed
    then show ?thesis using True events by (simp add: visit_delimiter_def)
  next
    case False
    have "?t + (k - ?c) \<le> usize_max" using ab k fits by linarith
    with left_field_ok [of ?c k h ?t "fp_class_words plan"] False k obtain s where
      left: "left_field (fp_class_words plan) h ?c k ?t = Inr (s, ?t + (k - s) + (if ?c < s then 1 else 0))"
      and s: "?c \<le> s" "s \<le> k" "\<And>i. s \<le> i \<Longrightarrow> i < k \<Longrightarrow> ?C (h ! i)" "s = ?c \<or> \<not> ?C (h ! (s - 1))" by auto
    define t1 where "t1 = ?t + (k - s) + (if ?c < s then 1 else 0)"
    have "a = 0 \<or> a < s" using ab(3) s(3) [of a] d(2) by (metis not_le)
    then have t1: "t1 \<le> k + b" using ab(1) s(1,2) by (auto simp: t1_def)
    have b: "b \<le> Suc k" using ab(5) False by simp
    show ?thesis
    proof (cases "s = k")
      case True
      have "scanned plan h (Suc k) (st\<lparr>vs_delimiter_events := Suc (vs_delimiter_events st), vs_membership_tests := t1\<rparr>)"
      proof (rule scanned_miss [OF inv k])
        fix u e assume u: "?c \<le> u" "plan_sel plan h u = Some e"
        show "run_end ?C h u \<noteq> k"
        proof
          assume run: "run_end ?C h u = k"
          then have "u < k" using u(2) by (auto simp: field_sel_Some)
          then have "?C (h ! (k - 1))" using run by (intro run_end_inside [of u _ ?C h]) auto
          with s(4) True u(1) \<open>u < k\<close> show False by auto
        qed
      next
        show "\<exists>a b. t1 \<le> a + b \<and> a \<le> Suc k \<and> (a = 0 \<or> a < Suc k \<and> h ! a = fp_delimiter plan)
            \<and> b \<le> length h \<and> b \<le> Suc (max (Suc k) ?c)"
          using t1 ab(4) b d(1) by (intro exI [of _ k] exI [of _ b]) auto
      qed
      then show ?thesis using False events left True by (simp add: visit_delimiter_def t1_def)
    next
      case less: False
      define e where "e = run_end ?C h (Suc k)"
      define t2 where "t2 = t1 + (e - Suc k) + (if e < length h then 1 else 0)"
      have "t1 + (length h - Suc k) \<le> usize_max" using t1 ab(4) k fits by linarith
      then have right: "right_field (fp_class_words plan) h (Suc k) t1 = Inr (e, t2)"
        using right_field_ok [of "Suc k" h t1 "fp_class_words plan"] k fits by (simp add: e_def t2_def)
      have e: "Suc k \<le> e" "e \<le> length h" using run_end_bounds [of "Suc k"] k by (simp_all add: e_def)
      have tests: "\<exists>a b. t2 \<le> a + b \<and> a \<le> Suc k \<and> (a = 0 \<or> a < Suc k \<and> h ! a = fp_delimiter plan)
          \<and> b \<le> length h \<and> b \<le> Suc (max (Suc k) e)"
        using t1 b e d(1)
        by (intro exI [of _ k] exI [of _ "e + (if e < length h then 1 else 0)"]) (auto simp: t2_def)
      have succ: "uadd k 1 = Some (Suc k)" using k fits by simp
      show ?thesis
      proof (cases "e = Suc k")
        case True
        have "scanned plan h (Suc k) (st\<lparr>vs_delimiter_events := Suc (vs_delimiter_events st), vs_membership_tests := t2\<rparr>)"
        proof (rule scanned_miss [OF inv k])
          show "run_end ?C h u \<noteq> k" if "plan_sel plan h u = Some f" for u f
            using that True by (auto simp: field_sel_Some e_def)
          show "\<exists>a b. t2 \<le> a + b \<and> a \<le> Suc k \<and> (a = 0 \<or> a < Suc k \<and> h ! a = fp_delimiter plan)
              \<and> b \<le> length h \<and> b \<le> Suc (max (Suc k) ?c)"
            using tests unfolding True by (elim ex_forward) auto
        qed
        then show ?thesis using False events left less succ right True by (simp add: visit_delimiter_def t1_def)
      next
        case hit: False
        have "field_add (vs_matches st) 1 ''match events'' = Inr (Suc (vs_matches st))"
          "field_add (vs_span_sum st) (e - s) ''matched byte sum'' = Inr (vs_span_sum st + (e - s))"
          "usub e s = Some (e - s)"
          using counts s(1,2) e fits by (simp_all add: field_add_def)
        then show ?thesis
          using False events left less succ right hit
            scanned_hit [OF inv s(1) _ k s(3,4) d e_def _ tests] s(2) e(1)
          by (simp add: visit_delimiter_def t1_def)
      qed
    qed
  qed
qed

section \<open>The traversal\<close>

text \<open>What \<^verbatim>\<open>memchr_iter\<close> documents: all positions of the needle, from left to right.\<close>

definition memchr_ok :: "(u8 \<Rightarrow> bytes \<Rightarrow> nat list) \<Rightarrow> bool" where
  "memchr_ok memchr_iter = (\<forall>needle h. memchr_iter needle h = filter (\<lambda>i. h ! i = needle) [0..<length h])"

lemma traversal_ok:
  assumes "\<not> plan_class plan (fp_delimiter plan)" "3 * length h \<le> usize_max"
  shows "k \<le> length h \<Longrightarrow> scanned plan h k st \<Longrightarrow>
    \<exists>st'. rfold (visit_delimiter plan h) (filter (\<lambda>i. h ! i = fp_delimiter plan) [k..<length h]) st = Inr st' \<and>
      scanned plan h (length h) st'"
proof (induction "length h - k" arbitrary: k st)
  case (Suc n)
  then have k: "k < length h" by simp
  have upt: "[k..<length h] = k # [Suc k..<length h]" using k by (rule upt_conv_Cons)
  show ?case
  proof (cases "h ! k = fp_delimiter plan")
    case True
    obtain st1 where "visit_delimiter plan h k st = Inr st1" "scanned plan h (Suc k) st1"
      using visit_delimiter_ok [OF Suc.prems(2) k True assms] by blast
    then show ?thesis using Suc.hyps(1) [of "Suc k" st1] Suc.hyps(2) k True by (simp add: upt)
  next
    case False
    then show ?thesis using Suc.hyps(1) [of "Suc k" st] Suc.hyps(2) k scanned_other [OF Suc.prems(2) k False] by (simp add: upt)
  qed
qed simp

lemma scanned_start:
  "scanned plan h 0 \<lparr>vs_next_start = 0, vs_delimiter_events = 0, vs_membership_tests = 0, vs_matches = 0, vs_span_sum = 0, vs_visited = []\<rparr>"
  by (auto simp: scanned_def)

text \<open>At the end every counter is within its bound, and the spans are those of the iteration.\<close>

lemma scanned_end:
  assumes "scanned plan h (length h) st"
  shows "vs_delimiter_events st \<le> length h" "vs_membership_tests st \<le> 2 * length h" "vs_matches st \<le> length h div 3"
    "vs_span_sum st \<le> length h" "map span_pair (vs_visited st) = plan_spans plan h 0" "vs_matches st = length (vs_visited st)"
    "vs_span_sum st = (\<Sum>s\<leftarrow>vs_visited st. cs_end s - cs_start s)"
proof -
  have "plan_sel plan h s = None" if "vs_next_start st \<le> s" "s \<le> length h" for s
  proof (rule ccontr)
    assume "plan_sel plan h s \<noteq> None"
    then obtain e where "plan_sel plan h s = Some e" by blast
    moreover from this have "run_end (plan_class plan) h s < length h" by (auto simp: field_sel_Some)
    ultimately show False using assms that(1) by (auto simp: scanned_def)
  qed
  then have "next_match (length h) (plan_sel plan h) (vs_next_start st) = None" by (simp add: next_match_None_iff)
  then have "plan_spans plan h (vs_next_start st) = []"
    using field.iter_seq_unfold [where cursor = "vs_next_start st" and prev = None] by simp
  then show "map span_pair (vs_visited st) = plan_spans plan h 0" using assms by (simp add: scanned_def)
qed (use assms in \<open>auto simp: scanned_def\<close>)

definition field_refusal :: "field_plan \<Rightarrow> nat \<Rightarrow> field_reduce_limits \<Rightarrow> field_reduce_error \<Rightarrow> bool" where
  "field_refusal plan n l e = (field_preflight plan n l = Inl e)"

lemma preflight_ok:
  assumes "field_preflight plan n l = Inr upper"
  shows "ub_delimiter_scan_bytes upper = n" "ub_delimiter_events upper = n" "ub_membership_tests upper = n * 2"
    "ub_sequential_bytes upper = n + n * 2" "ub_match_events upper = n div 3" "ub_span_sum upper = n"
    "ub_work upper = n + n * 2 + n + n div 3 + 8" "n + n * 2 + n + n div 3 + 8 \<le> usize_max"
  using assms by (auto simp: field_preflight_def full_window_upper_bounds_def Let_def split: if_splits elim!: rbindE)

lemma visit_spans_outcome:
  assumes memchr: "memchr_ok memchr_iter" and d: "\<not> plan_class plan (fp_delimiter plan)"
  shows "safe (field_refusal plan (length h) l) (visit_spans memchr_iter plan h l) (\<lambda>(visited, result).
    map span_pair visited = plan_spans plan h 0 \<and> sv_matches result = length visited \<and>
    sv_span_sum result = (\<Sum>s\<leftarrow>visited. cs_end s - cs_start s) \<and>
    rc_work (ra_actual (sv_accounting result)) \<le> ub_work (ra_upper_bounds (sv_accounting result)))"
proof (cases "field_preflight plan (length h) l")
  case (Inl e)
  then show ?thesis by (simp add: visit_spans_def field_refusal_def)
next
  case (Inr upper)
  note u = preflight_ok [OF Inr]
  let ?st0 = "\<lparr>vs_next_start = 0, vs_delimiter_events = 0, vs_membership_tests = 0, vs_matches = 0, vs_span_sum = 0, vs_visited = []\<rparr>"
  have "3 * length h \<le> usize_max" using u(8) by simp
  then obtain st where run: "rfold (visit_delimiter plan h) (memchr_iter (fp_delimiter plan) h) ?st0 = Inr st" "scanned plan h (length h) st"
    using traversal_ok [OF d, of h 0 ?st0] scanned_start memchr by (auto simp: memchr_ok_def)
  note e = scanned_end [OF run(2)]
  have "length h + vs_membership_tests st + vs_delimiter_events st + vs_matches st + 8 \<le> length h + length h * 2 + length h + length h div 3 + 8"
    using e(1-3) by simp
  then show ?thesis
    using Inr run(1) u e by (simp add: visit_spans_def field_add_def check_counter_def)
qed

end
