(* ===== verification/KerReport.thy ===== *)
theory KerReport
  imports KerScan RefSearch
begin

text \<open>
  The properties of the delimiter-field kernel: exact construction, exact traversal within the
  preflight, and agreement with the reference interpreter on \<^verbatim>\<open>BYTE_CLASS+ DELIMITER BYTE_CLASS+\<close>.
\<close>

section \<open>The pattern in the reference interpreter\<close>

definition range_class :: "(u8 \<times> u8) list \<Rightarrow> ref_ast" where
  "range_class ranges = RClass (map (\<lambda>(s, t). \<lparr>br_start = s, br_end = t\<rparr>) ranges)"

definition field_ast :: "(u8 \<times> u8) list \<Rightarrow> u8 \<Rightarrow> ref_ast" where
  "field_ast ranges d = RConcat [RRepeat (range_class ranges) 1 None RGreedy, RByte d, RRepeat (range_class ranges) 1 None RGreedy]"

lemma range_class_outs:
  "outs h (range_class ranges) (p, c) = (if p < length h \<and> in_ranges ranges (h ! p) then [(Suc p, c)] else [])"
  by (auto simp: range_class_def byte_range_contains_def in_ranges_def)

lemma later_copies:
  assumes "0 < count" "prev \<noteq> p" "p \<le> length h"
  shows "rep_outs (outs h (range_class ranges)) (length h) 1 None RGreedy count prev (p, c) =
    map (\<lambda>q. (q, c)) (rev [p..<Suc (run_end (in_ranges ranges) h p)])"
  using assms
proof (induction "length h - p" arbitrary: p prev count)
  case 0
  then have "run_end (in_ranges ranges) h p = p" by (intro run_end_eq) auto
  with 0 show ?case by (subst rep_outs.simps) (simp add: may_repeat_def range_class_outs)
next
  case (Suc n)
  then have p: "p < length h" by simp
  let ?m = "run_end (in_ranges ranges) h"
  show ?case
  proof (cases "in_ranges ranges (h ! p)")
    case False
    then have "?m p = p" using run_end_step [OF p] by simp
    with False Suc.prems show ?thesis by (subst rep_outs.simps) (simp add: may_repeat_def range_class_outs)
  next
    case True
    have m: "?m p = ?m (Suc p)" using run_end_step [OF p, of "in_ranges ranges"] True by simp
    have le: "Suc p \<le> ?m (Suc p)" by (rule run_end_bounds(1))
    have "rep_outs (outs h (range_class ranges)) (length h) 1 None RGreedy (Suc count) p (Suc p, c) =
        map (\<lambda>q. (q, c)) (rev [Suc p..<Suc (?m (Suc p))])"
      using Suc.hyps(2) p by (intro Suc.hyps(1)) simp_all
    then show ?thesis
      using True p Suc.prems m le by (subst rep_outs.simps) (simp add: may_repeat_def range_class_outs upt_conv_Cons del: upt_Suc)
  qed
qed

lemma plus_outs:
  assumes "p \<le> length h"
  shows "outs h (RRepeat (range_class ranges) 1 None RGreedy) (p, c) =
    map (\<lambda>q. (q, c)) (rev [Suc p..<Suc (run_end (in_ranges ranges) h p)])"
proof (cases "p < length h \<and> in_ranges ranges (h ! p)")
  case True
  then have "run_end (in_ranges ranges) h p = run_end (in_ranges ranges) h (Suc p)" using run_end_step by simp
  with True later_copies [of 1 p "Suc p" h ranges c] show ?thesis
    by (simp add: rep_outs.simps [of _ _ _ _ _ 0] may_repeat_def range_class_outs del: upt_Suc)
next
  case False
  then have "run_end (in_ranges ranges) h p = p" using assms by (intro run_end_eq) auto
  with False show ?thesis by (auto simp: rep_outs.simps [of _ _ _ _ _ 0] may_repeat_def range_class_outs)
qed

lemma concat_map_sing: "concat (map (\<lambda>x. [f x]) xs) = map f xs"
  by (induction xs) auto

lemma first_rev_upt: "first_of (map f (rev [a..<Suc b])) = (if a \<le> b then Some (f b) else None)"
  by simp

lemma concat_rev_last:
  assumes "s < m" "\<And>q. s \<le> q \<Longrightarrow> q < m \<Longrightarrow> X q = []"
  shows "concat (map X (rev [Suc s..<Suc m])) = X m"
proof -
  have "concat (map X (rev [Suc s..<m])) = []" using assms(2) by auto
  then show ?thesis using assms(1) by simp
qed

lemma field_ref_sel:
  assumes "rr_ast r = field_ast ranges d" "\<not> in_ranges ranges d" "s \<le> length h"
  shows "ref_sel r h s = field_sel (in_ranges ranges) d h s"
proof -
  let ?C = "in_ranges ranges" and ?m = "run_end (in_ranges ranges) h"
  let ?rest = "\<lambda>q c. if q < length h \<and> h ! q = d then map (\<lambda>q. (q, c)) (rev [Suc (Suc q)..<Suc (?m (Suc q))]) else []"
  have tail: "seq_outs (map (outs h) [RByte d, RRepeat (range_class ranges) 1 None RGreedy]) (q, c) = ?rest q c" for q c
    using plus_outs [of "Suc q" h ranges c] by (auto simp: o_def concat_map_sing simp del: outs.simps(6) upt_Suc)
  obtain c where st: "start_state r s = (s, c)" by (simp add: start_state_def)
  have all: "outs h (field_ast ranges d) (s, c) = concat (map (\<lambda>q. ?rest q c) (rev [Suc s..<Suc (?m s)]))"
    unfolding field_ast_def using plus_outs [OF assms(3), of ranges c] tail
    by (simp add: o_def del: outs.simps(6) upt_Suc)
  have middle: "?rest q c = []" if "s \<le> q" "q < ?m s" for q
    using run_end_inside [OF that] assms(2) by auto
  have "outs h (field_ast ranges d) (s, c) = (if s < ?m s then ?rest (?m s) c else [])"
    unfolding all using concat_rev_last [of s "?m s" "\<lambda>q. ?rest q c"] middle by (cases "s < ?m s") (auto simp del: upt_Suc)
  then show ?thesis
    using first_rev_upt [of "\<lambda>q. (q, c)" "Suc (Suc (?m s))" "?m (Suc (?m s))"]
    by (auto simp: ref_sel_def assms(1) st field_sel_def Let_def Suc_le_eq simp del: upt_Suc)
qed

lemma field_reference_spans:
  assumes "ref_ready (field_ast ranges d) l r h" "find_all_rust_reference r h = Inr ms" "\<not> in_ranges ranges d"
  shows "map (\<lambda>m. (rs_start (rm_span m), rs_end (rm_span m))) ms = field_spans (in_ranges ranges) d h 0"
proof -
  have "ms = ref_iteration r h 0 None"
    using find_all_answer [OF ref_ready_ok(1) [OF assms(1)] assms(2) [unfolded find_all_rust_reference_def]] by simp
  moreover have "iter_seq (length h) (ref_sel r h) 0 None = field_spans (in_ranges ranges) d h 0"
    by (rule iter_seq_cong, rule field_ref_sel [OF ref_ready_ok(2) [OF assms(1)] assms(3)])
  ultimately show ?thesis by (simp add: ref_iteration_spans)
qed

lemma built_plan:
  assumes "field_build n ranges d bl = Inr plan"
  shows "buildable n ranges d bl" "fp_delimiter plan = d" "plan_class plan = in_ranges ranges" "\<not> in_ranges ranges d"
    "bd_persistent_bytes (fp_build plan) = n"
  using field_build_outcome [of n ranges d bl] assms by (auto simp: describes_def buildable_def)

lemma built_visit:
  assumes "memchr_ok memchr_iter" "field_build n ranges d bl = Inr plan"
  shows "safe (field_refusal plan (length h) l) (visit_spans memchr_iter plan h l) (\<lambda>(visited, result).
    map span_pair visited = field_spans (in_ranges ranges) d h 0 \<and> sv_matches result = length visited \<and>
    sv_span_sum result = (\<Sum>s\<leftarrow>visited. cs_end s - cs_start s) \<and>
    rc_work (ra_actual (sv_accounting result)) \<le> ub_work (ra_upper_bounds (sv_accounting result)))"
  using visit_spans_outcome [OF assms(1), of plan h l] built_plan [OF assms(2)] by simp

section \<open>A sample kernel\<close>

text \<open>\<^verbatim>\<open>[a-z]+=[a-z]+\<close>.\<close>

definition sample_ranges :: "(u8 \<times> u8) list" where
  "sample_ranges = [(97, 122)]"

definition scan_memchr :: "u8 \<Rightarrow> bytes \<Rightarrow> nat list" where
  "scan_memchr needle h = filter (\<lambda>i. h ! i = needle) [0..<length h]"

lemma scan_memchr_ok: "memchr_ok scan_memchr"
  by (simp add: memchr_ok_def scan_memchr_def)

lemma sample_builds:
  obtains plan where "field_build 128 sample_ranges 61 field_build_limits_default = Inr plan"
proof (cases "field_build 128 sample_ranges 61 field_build_limits_default")
  case (Inl e)
  with field_build_outcome [of 128 sample_ranges 61 field_build_limits_default] have "build_refusal 128 sample_ranges 61 field_build_limits_default e"
    by simp
  then have False
    by (cases e) (simp_all add: sample_ranges_def in_ranges_def field_build_limits_default_def usize_max_def)
  then show thesis ..
qed

section \<open>Properties\<close>

text \<open>
  C34: The builder of the delimiter-field kernel is exact. It refuses with the reason that holds (an
  empty list, a reversed range, ranges out of order, the delimiter inside the class, a limit
  exceeded or an overflow) and its debug assertion never fails; otherwise the input is admissible and the bitmap of the plan holds
  exactly the bytes of the ranges.
\<close>

theorem fields_build_exact:
  "case field_build plan_size ranges d l of
     Inl e \<Rightarrow> build_refusal plan_size ranges d l e
   | Inr plan \<Rightarrow> buildable plan_size ranges d l \<and> fp_delimiter plan = d \<and>
       {b. class_contains (fp_class_words plan) b} = {b. in_ranges ranges b}"
  using field_build_outcome [of plan_size ranges d l] by (auto simp: safe_def describes_def split: sum.splits)

text \<open>
  C33: The traversal of the delimiter-field kernel fails only in its preflight: no counter overflows,
  no access is out of range and no accounting invariant is violated. Otherwise it visits exactly the
  leftmost greedy non-overlapping spans, counts them, sums their widths, and stays within the work
  it announced.
\<close>

theorem fields_visit_exact:
  assumes "memchr_ok memchr_iter" "field_build plan_size ranges d bl = Inr plan"
  shows "safe (\<lambda>e. field_preflight plan (length h) l = Inl e) (visit_spans memchr_iter plan h l) (\<lambda>(visited, result).
    map span_pair visited = iter_seq (length h) (field_sel (in_ranges ranges) d h) 0 None \<and> sv_matches result = length visited \<and>
    sv_span_sum result = (\<Sum>s\<leftarrow>visited. cs_end s - cs_start s) \<and>
    rc_work (ra_actual (sv_accounting result)) \<le> ub_work (ra_upper_bounds (sv_accounting result)))"
  using built_visit [OF assms, of h l] by (simp add: field_refusal_def [abs_def])

theorem fields_visit_exact_witness:
  "\<exists>plan visited result. visit_spans scan_memchr plan [97, 61, 98] field_reduce_limits_default = Inr (visited, result) \<and>
     map span_pair visited = [(0, 3)]"
proof -
  obtain plan where plan: "field_build 128 sample_ranges 61 field_build_limits_default = Inr plan" by (rule sample_builds)
  have "field_preflight plan 3 field_reduce_limits_default \<noteq> Inl e" for e
    using built_plan(5) [OF plan]
    by (simp add: field_preflight_def full_window_upper_bounds_def field_reduce_limits_default_def Let_def usize_max_def uadd_def umul_def)
  moreover have "iter_seq (length [97, 61, 98 :: u8]) (field_sel (in_ranges sample_ranges) 61 [97, 61, 98]) 0 None = [(0, 3)]"
  proof -
    have c: "in_ranges sample_ranges 97" "in_ranges sample_ranges 98" "\<not> in_ranges sample_ranges 61"
      by (simp_all add: sample_ranges_def in_ranges_def)
    have "field_sel (in_ranges sample_ranges) 61 [97, 61, 98] 0 = Some 3" "field_sel (in_ranges sample_ranges) 61 [97, 61, 98] 3 = None"
      using c by (simp_all add: field_sel_def run_end_def Let_def)
    then have "next_match 3 (field_sel (in_ranges sample_ranges) 61 [97, 61, 98]) 0 = Some (0, 3)"
      "next_match 3 (field_sel (in_ranges sample_ranges) 61 [97, 61, 98]) 3 = None"
      by (simp_all add: next_match_step [of 3 _ 0] next_match_step [of 3 _ 3] next_match_step [of 3 _ 4])
    then show ?thesis
      using field.iter_seq_unfold [where h = "[97, 61, 98]" and C = "in_ranges sample_ranges" and d = 61 and cursor = 0 and prev = None]
        field.iter_seq_unfold [where h = "[97, 61, 98]" and C = "in_ranges sample_ranges" and d = 61 and cursor = 3 and prev = "Some 3"]
      by (simp add: numeral_3_eq_3)
  qed
  ultimately obtain visited result where
    "visit_spans scan_memchr plan [97, 61, 98] field_reduce_limits_default = Inr (visited, result)" "map span_pair visited = [(0, 3)]"
    using fields_visit_exact [OF scan_memchr_ok plan, of "[97, 61, 98]" field_reduce_limits_default]
    by (cases "visit_spans scan_memchr plan [97, 61, 98] field_reduce_limits_default") (auto simp: numeral_3_eq_3)
  then show ?thesis by (intro exI conjI)
qed

text \<open>
  C32: The delimiter-field kernel and the reference interpreter agree, a production kernel and the
  independent oracle: whenever the reference iterates the pattern \<^verbatim>\<open>CLASS+ DELIMITER CLASS+\<close> and a
  plan built for it visits the same haystack, the spans visited are the spans of the reference
  matches, and the count and the span sum are theirs.
\<close>

theorem fields_reference_agree:
  assumes "memchr_ok memchr_iter" "field_build plan_size ranges d bl = Inr plan"
    and "visit_spans memchr_iter plan h limits = Inr (visited, result)"
    and "ref_ready (field_ast ranges d) rl r h" "find_all_rust_reference r h = Inr ms"
  shows "map span_pair visited = map (\<lambda>m. (rs_start (rm_span m), rs_end (rm_span m))) ms \<and> sv_matches result = length ms \<and>
    sv_span_sum result = (\<Sum>m\<leftarrow>ms. rs_end (rm_span m) - rs_start (rm_span m))"
proof -
  have spans: "map span_pair visited = map (\<lambda>m. (rs_start (rm_span m), rs_end (rm_span m))) ms"
    and sums: "sv_matches result = length visited" "sv_span_sum result = (\<Sum>s\<leftarrow>visited. cs_end s - cs_start s)"
    using built_visit [OF assms(1,2), of h limits] assms(3)
      field_reference_spans [OF assms(4,5) built_plan(4) [OF assms(2)]] by simp_all
  have "map (\<lambda>s. cs_end s - cs_start s) visited = map (\<lambda>(a, b). b - a) (map span_pair visited)"
    by (simp add: span_pair_def o_def)
  also have "\<dots> = map (\<lambda>m. rs_end (rm_span m) - rs_start (rm_span m)) ms" by (simp add: spans o_def)
  finally show ?thesis using spans sums map_eq_imp_length_eq [OF spans] by simp
qed

theorem fields_reference_agree_witness:
  "\<exists>plan visited result ms. field_build 128 sample_ranges 61 field_build_limits_default = Inr plan \<and>
     visit_spans scan_memchr plan [97, 61, 98] field_reduce_limits_default = Inr (visited, result) \<and>
     find_all_rust_reference \<lparr>rr_ast = field_ast sample_ranges 61, rr_capture_count = 0, rr_limits = ref_limits_default\<rparr>
       [97, 61, 98] = Inr ms \<and> sv_matches result = length ms \<and> length ms = 1"
proof -
  let ?r = "\<lparr>rr_ast = field_ast sample_ranges 61, rr_capture_count = 0, rr_limits = ref_limits_default\<rparr>"
  obtain plan where plan: "field_build 128 sample_ranges 61 field_build_limits_default = Inr plan" by (rule sample_builds)
  have "field_preflight plan 3 field_reduce_limits_default \<noteq> Inl e" for e
    using built_plan(5) [OF plan]
    by (simp add: field_preflight_def full_window_upper_bounds_def field_reduce_limits_default_def Let_def usize_max_def uadd_def umul_def)
  then obtain visited result where run: "visit_spans scan_memchr plan [97, 61, 98] field_reduce_limits_default = Inr (visited, result)"
    using built_visit [OF scan_memchr_ok plan, of "[97, 61, 98]" field_reduce_limits_default]
    by (cases "visit_spans scan_memchr plan [97, 61, 98] field_reduce_limits_default") (auto simp: field_refusal_def numeral_3_eq_3)
  have ready: "ref_ready (field_ast sample_ranges 61) ref_limits_default ?r [97, 61, 98]"
    by (simp add: ref_eval field_ast_def range_class_def sample_ranges_def)
  obtain ms where ms: "find_all_rust_reference ?r [97, 61, 98] = Inr ms" "length ms = 1"
    by (simp add: ref_eval upt_rec field_ast_def range_class_def sample_ranges_def byte_range_contains_def)
  from fields_reference_agree [OF scan_memchr_ok plan run ready ms(1)] plan run ms show ?thesis by auto
qed

end
