(* ===== verification/KerCodec.thy ===== *)
theory KerCodec
  imports FrePrelude
begin

unbundle bit_operations_syntax

text \<open>
  \<^verbatim>\<open>crates/fre-kernels/src/determinize_state_codec.rs\<close>: the variable-length codec of determinized
  states, seven bits to a byte with the continuation in the top bit, and its zigzag form for signed
  integers. A \<^verbatim>\<open>u32\<close> and an \<^verbatim>\<open>i32\<close> are words of 32 bits; the sign of an \<^verbatim>\<open>i32\<close> is its top bit. A
  written destination is returned.
\<close>

type_synonym u32w = "32 word"

section \<open>Data\<close>

datatype codec_resource = CodecInputBytes | CodecOutputBytes | CodecWork | CodecSequentialReadBytes | CodecSequentialWriteBytes

record codec_limits =
  cl_max_input_bytes :: nat
  cl_max_output_bytes :: nat
  cl_max_work :: nat
  cl_max_sequential_read_bytes :: nat
  cl_max_sequential_write_bytes :: nat

definition codec_limits_default :: codec_limits where
  "codec_limits_default = \<lparr>cl_max_input_bytes = 5, cl_max_output_bytes = 5, cl_max_work = 128,
     cl_max_sequential_read_bytes = 5, cl_max_sequential_write_bytes = 5\<rparr>"

record codec_accounting =
  ca_input_bytes :: nat
  ca_output_bytes :: nat
  ca_work :: nat
  ca_sequential_read_bytes :: nat
  ca_sequential_write_bytes :: nat

record 'v decoded =
  de_value :: 'v
  de_encoded_bytes :: nat
  de_accounting :: codec_accounting

datatype codec_error =
    DestinationTooSmall nat nat
  | MissingTerminator nat
  | NonCanonicalVarint
  | CodecResourceLimit codec_resource nat nat
  | CodecOverflow

section \<open>Requirements\<close>

definition encoded_len :: "u32w \<Rightarrow> nat" where
  "encoded_len value =
     (if value \<le> 0x7F then 1 else if value \<le> 0x3FFF then 2 else if value \<le> 0x1FFFFF then 3
      else if value \<le> 0x0FFFFFFF then 4 else 5)"

definition codec_account :: "nat \<Rightarrow> nat \<Rightarrow> nat \<Rightarrow> nat \<Rightarrow> codec_error + codec_accounting" where
  "codec_account input_bytes output_bytes reads writes =
     rbind (ok_or (uadd reads writes) CodecOverflow) (\<lambda>traversed.
     rbind (ok_or (umul traversed 8) CodecOverflow) (\<lambda>n.
     rbind (ok_or (uadd 32 n) CodecOverflow) (\<lambda>work.
     Inr \<lparr>ca_input_bytes = input_bytes, ca_output_bytes = output_bytes, ca_work = work,
          ca_sequential_read_bytes = reads, ca_sequential_write_bytes = writes\<rparr>)))"

definition encode_requirements :: "u32w \<Rightarrow> codec_error + codec_accounting" where
  "encode_requirements value = codec_account 0 (encoded_len value) 0 (encoded_len value)"

definition decode_requirements :: "nat \<Rightarrow> codec_error + codec_accounting" where
  "decode_requirements input_len = codec_account input_len 0 (min input_len 5) 0"

definition codec_check :: "codec_resource \<times> nat \<times> nat \<Rightarrow> unit \<Rightarrow> codec_error + unit" where
  "codec_check = (\<lambda>(resource, needed, limit) _. if needed > limit then Inl (CodecResourceLimit resource needed limit) else Inr ())"

definition codec_enforce :: "codec_accounting \<Rightarrow> codec_limits \<Rightarrow> codec_error + unit" where
  "codec_enforce a l = rfold codec_check
     [(CodecInputBytes, ca_input_bytes a, cl_max_input_bytes l),
      (CodecOutputBytes, ca_output_bytes a, cl_max_output_bytes l),
      (CodecWork, ca_work a, cl_max_work l),
      (CodecSequentialReadBytes, ca_sequential_read_bytes a, cl_max_sequential_read_bytes l),
      (CodecSequentialWriteBytes, ca_sequential_write_bytes a, cl_max_sequential_write_bytes l)] ()"

section \<open>Unsigned integers\<close>

text \<open>\<^verbatim>\<open>u8::try_from\<close> of a \<^verbatim>\<open>u32\<close>, and the loop over the first bytes of the destination.\<close>

definition byte_try_from :: "u32w \<Rightarrow> u8 option" where
  "byte_try_from w = (if unat w < 256 then Some (ucast w) else None)"

fun encode_bytes :: "u32w \<Rightarrow> nat \<Rightarrow> codec_error + bytes" where
  "encode_bytes value 0 = Inr []"
| "encode_bytes value (Suc n) =
     rbind (ok_or (byte_try_from (value AND 0x7F)) CodecOverflow) (\<lambda>low.
     let value = drop_bit 7 value; byte = (if value = 0 then low else low OR 0x80) in
     rbind (encode_bytes value n) (\<lambda>rest. Inr (byte # rest)))"

definition encode_u32 :: "u32w \<Rightarrow> bytes \<Rightarrow> codec_limits \<Rightarrow> codec_error + (codec_accounting \<times> bytes)" where
  "encode_u32 value destination limits =
     rbind (encode_requirements value) (\<lambda>required.
     rbind (codec_enforce required limits) (\<lambda>_.
     if length destination < ca_output_bytes required
     then Inl (DestinationTooSmall (ca_output_bytes required) (length destination))
     else
       rbind (encode_bytes value (ca_output_bytes required)) (\<lambda>written.
       Inr (required, written @ drop (ca_output_bytes required) destination))))"

text \<open>\<^verbatim>\<open>u32::checked_shl\<close>.\<close>

definition checked_shl :: "u32w \<Rightarrow> nat \<Rightarrow> u32w option" where
  "checked_shl w n = (if n < 32 then Some (push_bit n w) else None)"

fun decode_bytes :: "nat \<Rightarrow> bytes \<Rightarrow> nat \<Rightarrow> u32w \<Rightarrow> codec_accounting \<Rightarrow> codec_error + u32w decoded" where
  "decode_bytes scan [] index value required = Inl (MissingTerminator scan)"
| "decode_bytes scan (byte # rest) index value required =
     rbind (ok_or (if index * 7 \<le> u32_max then Some (index * 7) else None) CodecOverflow) (\<lambda>shift.
     if index = 4 \<and> byte > 0x0F then Inl NonCanonicalVarint
     else
       rbind (ok_or (checked_shl (ucast (byte AND 0x7F)) shift) CodecOverflow) (\<lambda>bits.
       let value = value OR bits in
       if byte < 0x80
       then rbind (ok_or (uadd index 1) CodecOverflow) (\<lambda>encoded_bytes.
         if encoded_len value \<noteq> encoded_bytes then Inl NonCanonicalVarint
         else Inr \<lparr>de_value = value, de_encoded_bytes = encoded_bytes, de_accounting = required\<rparr>)
       else decode_bytes scan rest (Suc index) value required))"

definition decode_u32 :: "bytes \<Rightarrow> codec_limits \<Rightarrow> codec_error + u32w decoded" where
  "decode_u32 input limits =
     rbind (decode_requirements (length input)) (\<lambda>required.
     rbind (codec_enforce required limits) (\<lambda>_.
     let scan = min (length input) 5 in
     decode_bytes scan (take scan input) 0 0 required))"

section \<open>Signed integers\<close>

definition zigzag :: "u32w \<Rightarrow> u32w" where
  "zigzag value = (if bit value 31 then NOT (push_bit 1 value) else push_bit 1 value)"

definition unzigzag :: "u32w \<Rightarrow> u32w" where
  "unzigzag value = (if value AND 1 \<noteq> 0 then NOT (drop_bit 1 value) else drop_bit 1 value)"

definition encode_i32 :: "u32w \<Rightarrow> bytes \<Rightarrow> codec_limits \<Rightarrow> codec_error + (codec_accounting \<times> bytes)" where
  "encode_i32 value destination limits = encode_u32 (zigzag value) destination limits"

definition decode_i32 :: "bytes \<Rightarrow> codec_limits \<Rightarrow> codec_error + u32w decoded" where
  "decode_i32 input limits =
     rbind (decode_u32 input limits) (\<lambda>d.
     Inr \<lparr>de_value = unzigzag (de_value d), de_encoded_bytes = de_encoded_bytes d, de_accounting = de_accounting d\<rparr>)"

section \<open>What a varint is\<close>

text \<open>The digits of a number in base 128, lowest first, every digit but the last one marked.\<close>

fun varint :: "nat \<Rightarrow> nat list" where
  "varint n = (if n < 128 then [n] else (n mod 128 + 128) # varint (n div 128))"

declare varint.simps [simp del]

definition varint_bytes :: "u32w \<Rightarrow> bytes" where
  "varint_bytes w = map of_nat (varint (unat w))"

lemma varint_low: "n < 128 \<Longrightarrow> varint n = [n]"
  and varint_high: "128 \<le> n \<Longrightarrow> varint n = (n mod 128 + 128) # varint (n div 128)"
  by (simp_all add: varint.simps)

lemma varint_ne [simp]: "varint n \<noteq> []"
  by (subst varint.simps) simp

lemma encoded_len_varint: "encoded_len w = length (varint (unat w))"
proof -
  have "unat w < 2 ^ 32" using unsigned_less [of w] by simp
  moreover have "w \<le> 0x7F \<longleftrightarrow> unat w < 128" "w \<le> 0x3FFF \<longleftrightarrow> unat w < 128 * 128"
    "w \<le> 0x1FFFFF \<longleftrightarrow> unat w < 128 * 128 * 128" "w \<le> 0x0FFFFFFF \<longleftrightarrow> unat w < 128 * 128 * 128 * 128"
    by (auto simp: word_le_nat_alt)
  ultimately show ?thesis
    by (auto simp: encoded_len_def varint_low varint_high div_less_iff_less_mult div_mult2_eq [symmetric]
        less_eq_div_iff_mult_less_eq)
qed

section \<open>Seven bits at a time\<close>

lemma low_bits: "unat (w AND 0x7F :: 'a::len word) = unat w mod 128"
proof -
  have "(0x7F :: 'a word) = mask 7" by (simp add: mask_eq_exp_minus_1)
  then have "w AND 0x7F = take_bit 7 w" by (simp only: take_bit_eq_mask)
  then show ?thesis by (simp only: unsigned_take_bit_eq) (simp add: take_bit_eq_mod)
qed

lemma high_bits: "unat (drop_bit 7 w :: 'a::len word) = unat w div 128"
  by (simp only: unat_drop_bit_eq) (simp add: drop_bit_eq_div)

lemma no_bit_above:
  assumes "unat (w :: 'a::len word) < 2 ^ n" and "n \<le> i"
  shows "\<not> bit w i"
proof -
  have "unat w < 2 ^ i" using assms(1) power_increasing [OF assms(2), of "2 :: nat"] by linarith
  then have "\<not> bit (unat w) i" by (simp add: bit_nat_def)
  then show ?thesis by (auto simp: bit_unsigned_iff dest: bit_imp_le_length)
qed

lemma add_shifted:
  assumes "unat w < 2 ^ n" and "unat w + unat b * 2 ^ n < 2 ^ LENGTH('a)"
  shows "unat (w OR push_bit n b :: 'a::len word) = unat w + unat b * 2 ^ n"
proof -
  have "w AND push_bit n b = 0"
    using no_bit_above [OF assms(1)] by (intro bit_word_eqI) (auto simp only: bit_and_iff bit_push_bit_iff bit_0_eq)
  then have "w OR push_bit n b = w + push_bit n b" by (simp only: disjunctive_add_eq_or)
  also have "\<dots> = of_nat (unat w + unat b * 2 ^ n)"
    by (simp add: push_bit_eq_mult)
  finally show ?thesis using assms(2) by (simp add: unsigned_of_nat take_bit_nat_eq_self del: of_nat_add of_nat_mult)
qed

lemma marked_byte:
  assumes "unat (w :: u8) < 128"
  shows "w OR 0x80 = of_nat (unat w + 128)"
proof -
  have "(0x80 :: u8) = push_bit 7 1" by simp
  then have "unat (w OR 0x80) = unat w + 128"
    using add_shifted [of w 7 1] assms by simp
  then show ?thesis by (metis of_nat_unat ucast_id)
qed

section \<open>Signed integers\<close>

lemma bit_zigzag: "bit (zigzag v) n \<longleftrightarrow> n < 32 \<and> bit v 31 \<noteq> (0 < n \<and> bit v (n - 1))"
proof -
  have "bit (push_bit 1 v) n \<longleftrightarrow> n < 32 \<and> 0 < n \<and> bit v (n - 1)"
    by (auto simp only: bit_push_bit_iff) (auto dest: bit_imp_le_length)
  then show ?thesis by (auto simp: zigzag_def bit_not_iff simp del: push_bit_of_1)
qed

lemma bit_unzigzag: "bit (unzigzag v) n \<longleftrightarrow> n < 32 \<and> bit v 0 \<noteq> bit v (Suc n)"
proof -
  have "v AND 1 \<noteq> 0 \<longleftrightarrow> bit v 0" by (simp add: and_one_eq bit_0 mod2_eq_if)
  moreover have "bit (drop_bit 1 v) n \<longleftrightarrow> n < 32 \<and> bit v (Suc n)"
    by (auto simp: bit_drop_bit_eq dest: bit_imp_le_length)
  ultimately show ?thesis by (auto simp: unzigzag_def bit_not_iff)
qed

lemma zigzag_inverse: "unzigzag (zigzag v) = v"
proof (rule bit_word_eqI)
  fix n
  assume n: "n < LENGTH(32)"
  show "bit (unzigzag (zigzag v)) n = bit v n"
    using n by (cases "n = 31") (auto simp: bit_unzigzag bit_zigzag)
qed

lemma unzigzag_inverse: "zigzag (unzigzag v) = v"
proof (rule bit_word_eqI)
  fix n
  assume n: "n < LENGTH(32)"
  then show "bit (zigzag (unzigzag v)) n = bit v n"
    by (cases n) (auto simp: bit_unzigzag bit_zigzag dest: bit_imp_le_length)
qed

section \<open>The encoder\<close>

lemma low_byte: "byte_try_from (w AND 0x7F) = Some (of_nat (unat w mod 128))"
proof -
  have "unat w mod 128 < 128" by simp
  then have "unat (w AND 0x7F) < 256" unfolding low_bits by linarith
  moreover have "ucast (w AND 0x7F) = (of_nat (unat (w AND 0x7F)) :: u8)" by simp
  ultimately show ?thesis by (simp only: byte_try_from_def low_bits if_True)
qed

lemma encode_bytes_varint: "encode_bytes w (length (varint (unat w))) = Inr (varint_bytes w)"
proof (induction "length (varint (unat w))" arbitrary: w)
  case 0
  then show ?case by simp
next
  case (Suc n)
  let ?v = "drop_bit 7 w"
  have zero: "?v = 0 \<longleftrightarrow> unat w < 128"
    using high_bits [of w] by (metis div_eq_0_iff unat_eq_0 zero_neq_numeral)
  show ?case
  proof (cases "unat w < 128")
    case True
    then show ?thesis using zero by (simp add: varint_low varint_bytes_def low_byte)
  next
    case False
    have "n = length (varint (unat ?v))" using Suc(2) False by (simp add: varint_high high_bits)
    moreover have "of_nat (unat w mod 128) OR 0x80 = (of_nat (unat w mod 128 + 128) :: u8)"
      using marked_byte [of "of_nat (unat w mod 128)"] by (simp add: unsigned_of_nat take_bit_nat_eq_self)
    ultimately show ?thesis
      using Suc(1) [of ?v] Suc(2) [symmetric] zero False
      by (simp add: varint_high varint_bytes_def low_byte high_bits)
  qed
qed

section \<open>The decoder\<close>

text \<open>
  The number that a run of bytes stands for; the bytes up to the first unmarked one are read, and a
  fifth byte must be below 16.
\<close>

abbreviation marked :: "u8 \<Rightarrow> bool" where
  "marked b \<equiv> 0x80 \<le> b"

fun weigh :: "bytes \<Rightarrow> nat" where
  "weigh [] = 0"
| "weigh (b # bs) = unat b mod 128 + 128 * weigh bs"

definition finish :: "nat \<Rightarrow> u32w \<Rightarrow> codec_accounting \<Rightarrow> codec_error + u32w decoded" where
  "finish n v required =
     (if encoded_len v \<noteq> n then Inl NonCanonicalVarint
      else Inr \<lparr>de_value = v, de_encoded_bytes = n, de_accounting = required\<rparr>)"

lemma decode_step:
  assumes "i < 5" and "unat w < 2 ^ (7 * i)" and "i = 4 \<longrightarrow> b \<le> 0x0F"
  defines "v \<equiv> of_nat (unat w + 2 ^ (7 * i) * (unat b mod 128)) :: u32w"
  shows "decode_bytes scan (b # bs) i w required =
           (if marked b then decode_bytes scan bs (Suc i) v required else finish (Suc i) v required)"
    and "unat v = unat w + 2 ^ (7 * i) * (unat b mod 128)"
    and "i < 4 \<Longrightarrow> unat v < 2 ^ (7 * Suc i)"
proof -
  let ?m = "unat b mod 128"
  have sum: "unat w + ?m * 2 ^ (7 * i) < 2 ^ (7 * i) * Suc ?m"
    using assms(2) by (simp add: algebra_simps)
  have top: "2 ^ (7 * i) * Suc ?m \<le> 2 ^ 32 \<and> (i < 4 \<longrightarrow> 2 ^ (7 * i) * Suc ?m \<le> 2 ^ (7 * Suc i))"
  proof (cases "i = 4")
    case True
    then have "unat b \<le> 15" using assms(3) by (simp add: word_le_nat_alt)
    then show ?thesis using True by simp
  next
    case False
    have "Suc ?m \<le> 128" using mod_less_divisor [of 128 "unat b"] by linarith
    then have "2 ^ (7 * i) * Suc ?m \<le> 2 ^ (7 * Suc i)"
      using mult_le_mono2 [of "Suc ?m" 128 "2 ^ (7 * i)"] by (simp add: power_add)
    moreover have "(2 :: nat) ^ (7 * Suc i) \<le> 2 ^ 32" using False assms(1) by (intro power_increasing) auto
    ultimately show ?thesis by (meson le_trans)
  qed
  have fits: "unat w + ?m * 2 ^ (7 * i) < 2 ^ 32" using sum top by linarith
  then show v: "unat v = unat w + 2 ^ (7 * i) * ?m"
    by (simp add: v_def unsigned_of_nat take_bit_nat_eq_self mult.commute del: of_nat_add of_nat_mult)
  show "i < 4 \<Longrightarrow> unat v < 2 ^ (7 * Suc i)" using sum top v by (simp add: mult.commute)
  have "unat (ucast (b AND 0x7F) :: u32w) = ?m"
    using mod_less_divisor [of 128 "unat b"] by (simp add: unsigned_ucast_eq low_bits take_bit_nat_eq_self)
  then have "unat (w OR push_bit (7 * i) (ucast (b AND 0x7F))) = unat v"
    using add_shifted [of w "7 * i" "ucast (b AND 0x7F)"] assms(2) fits v by (simp add: mult.commute)
  then have "w OR push_bit (7 * i) (ucast (b AND 0x7F)) = v" by (rule unsigned_word_eqI)
  moreover have "i * 7 \<le> u32_max" "Suc i \<le> usize_max" "7 * i < 32"
    using assms(1) by (auto intro: usize_max_ge u32_max_ge)
  ultimately show "decode_bytes scan (b # bs) i w required =
      (if marked b then decode_bytes scan bs (Suc i) v required else finish (Suc i) v required)"
    using assms(3) by (auto simp: checked_shl_def finish_def Let_def mult.commute not_le not_less)
qed

text \<open>The whole scan: the marked bytes, then the byte that ends the number.\<close>

definition scan_outcome :: "nat \<Rightarrow> bytes \<Rightarrow> nat \<Rightarrow> nat \<Rightarrow> codec_accounting \<Rightarrow> codec_error + u32w decoded" where
  "scan_outcome scan bs i n required =
     (let cs = takeWhile marked bs in
      if 5 \<le> i + length cs then Inl NonCanonicalVarint
      else case drop (length cs) bs of
        [] \<Rightarrow> Inl (MissingTerminator scan)
      | t # _ \<Rightarrow>
          if i + length cs = 4 \<and> 0x0F < t then Inl NonCanonicalVarint
          else finish (Suc (i + length cs)) (of_nat (n + 2 ^ (7 * i) * weigh (cs @ [t]))) required)"

lemma decode_bytes_outcome:
  assumes "i + length bs \<le> 5" and "unat w < 2 ^ (7 * i)" and "i < 5"
  shows "decode_bytes scan bs i w required = scan_outcome scan bs i (unat w) required"
  using assms
proof (induction bs arbitrary: i w)
  case Nil
  then show ?case by (simp add: scan_outcome_def)
next
  case (Cons b bs)
  show ?case
  proof (cases "i = 4 \<and> 0x0F < b")
    case True
    then show ?thesis by (auto simp: scan_outcome_def u32_max_def)
  next
    case False
    then have small: "i = 4 \<longrightarrow> b \<le> 0x0F" by auto
    note step = decode_step [OF Cons(4,3) small]
    show ?thesis
    proof (cases "marked b")
      case True
      then have "i < 4" using small Cons(4) by (cases "i = 4") (auto simp: word_le_nat_alt)
      then show ?thesis
        using Cons(1) [of "Suc i"] Cons(2) True step
        by (simp add: scan_outcome_def Let_def algebra_simps power_add del: decode_bytes.simps of_nat_add of_nat_mult
            split: list.split)
    next
      case False
      then show ?thesis
        using small Cons(4) step(1) by (auto simp: scan_outcome_def algebra_simps simp del: decode_bytes.simps of_nat_add of_nat_mult)
    qed
  qed
qed

section \<open>The encoding of a number is unique\<close>

lemma byte_of_low: "n < 128 \<Longrightarrow> unat (of_nat n :: u8) = n"
  and byte_of_marked: "n < 128 \<Longrightarrow> unat (of_nat (n + 128) :: u8) = n + 128"
  by (simp_all add: unsigned_of_nat take_bit_nat_eq_self del: of_nat_add)

lemma varint_framed:
  obtains cs t where "map of_nat (varint n) = cs @ [t]" and "\<forall>c\<in>set cs. marked c" and "\<not> marked t"
    and "weigh (cs @ [t]) = n"
proof (induction n arbitrary: thesis rule: varint.induct)
  case (1 n)
  show ?case
  proof (cases "n < 128")
    case True
    then show ?thesis
      using 1(2) [of "[]" "of_nat n"] by (simp add: varint_low byte_of_low word_le_nat_alt)
  next
    case False
    let ?b = "of_nat (n mod 128 + 128) :: u8"
    obtain cs t where tail: "map of_nat (varint (n div 128)) = cs @ [t]" "\<forall>c\<in>set cs. marked c" "\<not> marked t"
      "weigh (cs @ [t]) = n div 128"
      using 1(1) [OF False] by blast
    have b: "unat ?b = n mod 128 + 128" by (rule byte_of_marked) simp
    show ?thesis
      using tail False b by (intro 1(2) [of "?b # cs" t]) (simp_all add: varint_high word_le_nat_alt del: of_nat_add)
  qed
qed

lemma varint_unique:
  assumes "\<forall>c\<in>set cs. marked c" and "\<not> marked t" and "length (varint (weigh (cs @ [t]))) = Suc (length cs)"
  shows "cs @ [t] = map of_nat (varint (weigh (cs @ [t])))"
  using assms
proof (induction cs)
  case Nil
  then have "unat t < 128" by (simp add: word_le_nat_alt)
  then show ?case by (simp add: varint_low)
next
  case (Cons c cs)
  let ?n = "weigh (cs @ [t])"
  have high: "128 \<le> weigh ((c # cs) @ [t])"
    using Cons(4) by (cases "weigh ((c # cs) @ [t]) < 128") (auto simp: varint_low)
  have parts: "weigh ((c # cs) @ [t]) mod 128 = unat c mod 128" "weigh ((c # cs) @ [t]) div 128 = ?n"
    by simp_all
  have "unat c < 256" using unsigned_less [of c] by simp
  moreover have "128 \<le> unat c" using Cons(2) by (simp add: word_le_nat_alt)
  ultimately have "unat c mod 128 + 128 = unat c" by (auto simp: mod_if)
  then have "of_nat (unat c mod 128 + 128) = c" by (simp only: of_nat_unat ucast_id)
  then show ?case
    using Cons(1,2,3,4) parts varint_high [OF high] by (simp del: weigh.simps of_nat_add append_Cons)
qed

section \<open>Budgets\<close>

definition encode_cost :: "u32w \<Rightarrow> codec_accounting" where
  "encode_cost v = (let n = length (varint_bytes v) in
     \<lparr>ca_input_bytes = 0, ca_output_bytes = n, ca_work = 32 + 8 * n, ca_sequential_read_bytes = 0,
      ca_sequential_write_bytes = n\<rparr>)"

definition decode_cost :: "nat \<Rightarrow> codec_accounting" where
  "decode_cost n =
     \<lparr>ca_input_bytes = n, ca_output_bytes = 0, ca_work = 32 + 8 * min n 5,
      ca_sequential_read_bytes = min n 5, ca_sequential_write_bytes = 0\<rparr>"

definition affordable :: "codec_accounting \<Rightarrow> codec_limits \<Rightarrow> bool" where
  "affordable a l \<longleftrightarrow> ca_input_bytes a \<le> cl_max_input_bytes l \<and> ca_output_bytes a \<le> cl_max_output_bytes l
     \<and> ca_work a \<le> cl_max_work l \<and> ca_sequential_read_bytes a \<le> cl_max_sequential_read_bytes l
     \<and> ca_sequential_write_bytes a \<le> cl_max_sequential_write_bytes l"

lemma length_varint_bytes: "length (varint_bytes v) = encoded_len v"
  by (simp add: varint_bytes_def encoded_len_varint)

lemma encoded_len_le: "encoded_len v \<le> 5"
  by (simp add: encoded_len_def)

lemma encode_requirements_cost: "encode_requirements v = Inr (encode_cost v)"
proof -
  have "encoded_len v * 8 \<le> usize_max" "32 + encoded_len v * 8 \<le> usize_max" "encoded_len v \<le> usize_max"
    using encoded_len_le [of v] by (auto intro!: usize_max_ge)
  then show ?thesis
    by (simp add: encode_requirements_def codec_account_def encode_cost_def length_varint_bytes Let_def)
qed

lemma decode_requirements_cost: "decode_requirements n = Inr (decode_cost n)"
proof -
  have "min n 5 * 8 \<le> usize_max" "32 + min n 5 * 8 \<le> usize_max" "min n 5 \<le> usize_max"
    by (auto intro!: usize_max_ge)
  then show ?thesis by (simp add: decode_requirements_def codec_account_def decode_cost_def)
qed

lemma codec_enforce_cases:
  "codec_enforce a l = Inr () \<and> affordable a l
   \<or> (\<exists>r n m. codec_enforce a l = Inl (CodecResourceLimit r n m) \<and> \<not> affordable a l)"
  by (auto simp: codec_enforce_def codec_check_def affordable_def)

lemma encode_u32_outcome:
  assumes "affordable (encode_cost v) limits" and "encoded_len v \<le> length destination"
  shows "encode_u32 v destination limits =
           Inr (encode_cost v, varint_bytes v @ drop (encoded_len v) destination)"
proof -
  have "ca_output_bytes (encode_cost v) = encoded_len v" by (simp add: encode_cost_def length_varint_bytes Let_def)
  moreover have "encode_bytes v (encoded_len v) = Inr (varint_bytes v)"
    by (simp add: encoded_len_varint encode_bytes_varint)
  ultimately show ?thesis
    using codec_enforce_cases [of "encode_cost v" limits] assms by (auto simp: encode_u32_def encode_requirements_cost)
qed

lemma decode_u32_outcome:
  assumes "affordable (decode_cost (length input)) limits"
  shows "decode_u32 input limits =
           scan_outcome (min (length input) 5) (take 5 input) 0 0 (decode_cost (length input))"
  using codec_enforce_cases [of "decode_cost (length input)" limits] assms
  by (auto simp: decode_u32_def decode_requirements_cost decode_bytes_outcome Let_def min_def)

lemma decode_u32_refused:
  assumes "\<not> affordable (decode_cost (length input)) limits"
  shows "\<exists>r n m. decode_u32 input limits = Inl (CodecResourceLimit r n m)"
  using codec_enforce_cases [of "decode_cost (length input)" limits] assms
  by (auto simp: decode_u32_def decode_requirements_cost)

section \<open>What the decoder accepts\<close>

lemma weigh_snoc: "weigh (cs @ [t]) = weigh cs + 2 ^ (7 * length cs) * (unat t mod 128)"
  by (induction cs) (simp_all add: algebra_simps power_add)

lemma weigh_less: "weigh bs < 2 ^ (7 * length bs)"
proof (induction bs)
  case (Cons b bs)
  have "unat b mod 128 < 128" by simp
  moreover have "Suc (weigh bs) * 128 \<le> 2 ^ (7 * length bs) * 128" using Cons by (intro mult_le_mono1) simp
  ultimately show ?case by (simp add: power_add)
qed simp

lemma last_byte_small:
  assumes "length cs = 4" and "\<not> marked t"
  shows "weigh (cs @ [t]) < 2 ^ 32 \<longleftrightarrow> \<not> 0x0F < t"
proof -
  have "unat t < 128" using assms(2) by (simp add: word_le_nat_alt)
  then show ?thesis
    using weigh_less [of cs] assms(1) by (auto simp: weigh_snoc word_less_nat_alt)
qed

lemma scan_outcome_framed:
  assumes "\<forall>c\<in>set cs. marked c" and "\<not> marked t" and "length cs < 5"
  shows "scan_outcome scan (cs @ t # rest) 0 0 required =
           (if 2 ^ 32 \<le> weigh (cs @ [t]) then Inl NonCanonicalVarint
            else finish (Suc (length cs)) (of_nat (weigh (cs @ [t]))) required)"
proof -
  have cs: "takeWhile marked (cs @ t # rest) = cs" using assms(1,2) by (subst takeWhile_append2) auto
  have "weigh (cs @ [t]) < 2 ^ 32" if "length cs \<noteq> 4"
    using weigh_less [of "cs @ [t]"] power_increasing [of "7 * Suc (length cs)" 32 "2 :: nat"] that assms(3) by simp
  then have "2 ^ 32 \<le> weigh (cs @ [t]) \<longleftrightarrow> length cs = 4 \<and> 0x0F < t"
    using last_byte_small [OF _ assms(2), of cs] by (auto simp: not_less [symmetric])
  then show ?thesis
    using assms(3) unfolding scan_outcome_def Let_def cs by simp
qed

lemma scan_cases:
  obtains (framed) cs t rest where "bs = cs @ t # rest" and "\<forall>c\<in>set cs. marked c" and "\<not> marked t"
  | (open_ended) "\<forall>c\<in>set bs. marked c"
  using split_list_first_prop [of bs "\<lambda>b. \<not> marked b"] by blast

lemma scan_outcome_open:
  assumes "\<forall>c\<in>set bs. marked c"
  shows "scan_outcome scan bs 0 0 required =
           (if 5 \<le> length bs then Inl NonCanonicalVarint else Inl (MissingTerminator scan))"
proof -
  have bs: "takeWhile marked bs = bs" using assms by (simp add: takeWhile_eq_all_conv)
  show ?thesis unfolding scan_outcome_def Let_def bs by simp
qed

lemma scan_accepts:
  assumes "length bs \<le> 5"
  shows "scan_outcome scan bs 0 0 required = Inr d \<longleftrightarrow>
           de_accounting d = required \<and> de_encoded_bytes d = encoded_len (de_value d)
           \<and> (\<exists>rest. bs = varint_bytes (de_value d) @ rest)" (is "_ \<longleftrightarrow> ?good")
proof
  assume ok: "scan_outcome scan bs 0 0 required = Inr d"
  show ?good
  proof (cases bs rule: scan_cases)
    case (framed cs t rest)
    let ?v = "of_nat (weigh (cs @ [t])) :: u32w"
    have small: "weigh (cs @ [t]) < 2 ^ 32"
      and fin: "finish (Suc (length cs)) ?v required = Inr d"
      using ok scan_outcome_framed [OF framed(2,3), of scan rest required] assms framed(1) by (auto split: if_splits)
    have v: "unat ?v = weigh (cs @ [t])" using small by (simp add: unsigned_of_nat take_bit_nat_eq_self)
    have len: "encoded_len ?v = Suc (length cs)" and d: "de_value d = ?v" "de_encoded_bytes d = Suc (length cs)" "de_accounting d = required"
      using fin by (auto simp: finish_def split: if_splits)
    have "cs @ [t] = varint_bytes ?v"
      unfolding varint_bytes_def v by (rule varint_unique [OF framed(2,3)]) (use len v in \<open>simp add: encoded_len_varint\<close>)
    then have "bs = varint_bytes ?v @ rest" using framed(1) by simp
    then show ?thesis using len d by auto
  qed (use ok scan_outcome_open in \<open>auto split: if_splits\<close>)
next
  assume good: ?good
  then obtain rest where rest: "bs = varint_bytes (de_value d) @ rest" by blast
  obtain cs t where f: "varint_bytes (de_value d) = cs @ [t]" "\<forall>c\<in>set cs. marked c" "\<not> marked t"
    "weigh (cs @ [t]) = unat (de_value d)"
    unfolding varint_bytes_def by (rule varint_framed)
  have "length cs < 5" "Suc (length cs) = encoded_len (de_value d)"
    using f(1) length_varint_bytes [of "de_value d"] encoded_len_le [of "de_value d"] by auto
  moreover have "unat (de_value d) < 2 ^ 32" using unsigned_less [of "de_value d"] by simp
  ultimately show "scan_outcome scan bs 0 0 required = Inr d"
    using scan_outcome_framed [OF f(2,3), of scan rest required] good rest f(1,4) by (auto simp: finish_def)
qed

lemma prefix_take: "length xs \<le> n \<Longrightarrow> (\<exists>rest. take n ys = xs @ rest) \<longleftrightarrow> (\<exists>rest. ys = xs @ rest)"
  by (metis append.assoc append_take_drop_id take_all_iff take_append)

lemma decode_u32_accepts:
  "decode_u32 input limits = Inr d \<longleftrightarrow>
     affordable (decode_cost (length input)) limits \<and> de_accounting d = decode_cost (length input)
     \<and> de_encoded_bytes d = encoded_len (de_value d) \<and> (\<exists>rest. input = varint_bytes (de_value d) @ rest)"
proof (cases "affordable (decode_cost (length input)) limits")
  case True
  have "length (varint_bytes (de_value d)) \<le> 5" by (simp add: length_varint_bytes encoded_len_le)
  then show ?thesis
    using True scan_accepts [of "take 5 input"] prefix_take [of "varint_bytes (de_value d)" 5 input]
    by (simp add: decode_u32_outcome)
qed (use decode_u32_refused in fastforce)

lemma decode_u32_missing:
  "decode_u32 input limits = Inl (MissingTerminator k) \<longleftrightarrow>
     affordable (decode_cost (length input)) limits \<and> k = length input \<and> length input < 5 \<and> list_all marked input"
proof (cases "affordable (decode_cost (length input)) limits")
  case True
  show ?thesis
  proof (cases "take 5 input" rule: scan_cases)
    case (framed cs t rest)
    have "length (cs @ t # rest) \<le> 5" unfolding framed(1) [symmetric] by simp
    then have "length cs < 5" by simp
    moreover have "\<not> list_all marked input"
      using framed(3) in_set_takeD [of t 5 input] framed(1) by (auto simp: list_all_iff)
    ultimately show ?thesis
      using True scan_outcome_framed [OF framed(2,3)] framed(1) by (auto simp: decode_u32_outcome finish_def)
  next
    case open_ended
    then show ?thesis
      using True scan_outcome_open [OF open_ended] by (auto simp: decode_u32_outcome list_all_iff)
  qed
qed (use decode_u32_refused in fastforce)

lemma decode_u32_no_overflow: "decode_u32 input limits \<noteq> Inl CodecOverflow"
proof (cases "affordable (decode_cost (length input)) limits")
  case True
  then show ?thesis by (auto simp: decode_u32_outcome scan_outcome_def finish_def Let_def split: list.split)
qed (use decode_u32_refused in fastforce)

section \<open>Properties\<close>

text \<open>
  C35: The decoder of \<^verbatim>\<open>u32\<close> values accepts exactly the canonical encodings. It returns a value if
  and only if the limits pay for the length of the input and the input begins with the shortest
  base-128 encoding of that value, whose length it reports; it says that the terminator is missing
  if and only if the whole input has fewer than five bytes and all of them are marked; it never
  reports an arithmetic overflow, so every other input is refused as not canonical or over a limit.
\<close>

theorem codec_decode_exact:
  "(decode_u32 input limits = Inr d \<longleftrightarrow>
      affordable (decode_cost (length input)) limits \<and> de_accounting d = decode_cost (length input)
      \<and> de_encoded_bytes d = length (varint_bytes (de_value d)) \<and> (\<exists>rest. input = varint_bytes (de_value d) @ rest))
   \<and> (decode_u32 input limits = Inl (MissingTerminator k) \<longleftrightarrow>
      affordable (decode_cost (length input)) limits \<and> k = length input \<and> length input < 5 \<and> list_all marked input)
   \<and> decode_u32 input limits \<noteq> Inl CodecOverflow"
  unfolding length_varint_bytes using decode_u32_accepts decode_u32_missing decode_u32_no_overflow by (intro conjI)

text \<open>
  C36: Signed integers survive the codec. When the limits pay for the zigzag image of a value and the
  destination has room for it, encoding succeeds, writes the shortest encoding over the first bytes
  and leaves the rest of the destination alone; decoding the whole destination then gives the value
  back, together with the number of bytes that were written.
\<close>

theorem codec_i32_roundtrip:
  assumes "affordable (encode_cost (zigzag v)) limits"
    and "encoded_len (zigzag v) \<le> length destination"
    and "affordable (decode_cost (length destination)) limits'"
  shows "\<exists>written.
           encode_i32 v destination limits = Inr (encode_cost (zigzag v), written)
           \<and> written = varint_bytes (zigzag v) @ drop (encoded_len (zigzag v)) destination
           \<and> length written = length destination
           \<and> decode_i32 written limits' =
               Inr \<lparr>de_value = v, de_encoded_bytes = ca_output_bytes (encode_cost (zigzag v)),
                    de_accounting = decode_cost (length destination)\<rparr>"
proof -
  let ?z = "zigzag v"
  let ?written = "varint_bytes ?z @ drop (encoded_len ?z) destination"
  have len: "length ?written = length destination" using assms(2) by (simp add: length_varint_bytes)
  have "decode_u32 ?written limits' =
      Inr \<lparr>de_value = ?z, de_encoded_bytes = encoded_len ?z, de_accounting = decode_cost (length destination)\<rparr>"
    unfolding decode_u32_accepts using assms(3) len by simp
  moreover have "ca_output_bytes (encode_cost ?z) = encoded_len ?z"
    by (simp add: encode_cost_def length_varint_bytes Let_def)
  ultimately show ?thesis
    using encode_u32_outcome [OF assms(1,2)] len by (simp add: encode_i32_def decode_i32_def zigzag_inverse)
qed

theorem codec_i32_roundtrip_witness:
  "\<exists>written. encode_i32 (- 1000) [9, 9, 9, 9] codec_limits_default = Inr (encode_cost 1999, written)
     \<and> written = [0xCF, 0x0F, 9, 9]
     \<and> decode_i32 written codec_limits_default =
         Inr \<lparr>de_value = - 1000, de_encoded_bytes = 2, de_accounting = decode_cost 4\<rparr>"
proof -
  have z: "zigzag (- 1000) = 1999" by (simp add: zigzag_def)
  have bytes: "varint_bytes 1999 = [0xCF, 0x0F]" by (simp add: varint_bytes_def varint_high varint_low)
  have len: "encoded_len 1999 = 2" by (simp add: encoded_len_def)
  have "affordable (encode_cost (zigzag (- 1000))) codec_limits_default"
    "encoded_len (zigzag (- 1000)) \<le> length [9, 9, 9, 9 :: u8]"
    "affordable (decode_cost (length [9, 9, 9, 9 :: u8])) codec_limits_default"
    by (simp_all add: z len bytes affordable_def encode_cost_def decode_cost_def codec_limits_default_def)
  from codec_i32_roundtrip [OF this] show ?thesis
    by (simp add: z len bytes encode_cost_def decode_cost_def)
qed

end
