(* ===== verification/ReqModel.thy ===== *)
theory ReqModel
  imports KirSearch KerFields
begin

unbundle bit_operations_syntax

text \<open>
  \<^verbatim>\<open>crates/fre-required-literal-lab/src/lib.rs\<close>: the plan for \<^verbatim>\<open>CLASS+ SUFFIX\<close> that looks for the
  suffix first and confirms the class run backwards. Its \<^verbatim>\<open>ByteClass\<close>, \<^verbatim>\<open>Anchors\<close>, \<^verbatim>\<open>Window\<close> and \<^verbatim>\<open>Match\<close>
  have the fields of the kernel IR's types and are modelled by \<open>byte_class\<close>, \<open>anchor_flags\<close>,
  \<open>search_window\<close> and \<open>match_span\<close>; their operations are defined here. Not under the sources:
  \<open>reserve\<close>, whether a reservation succeeds, \<open>plan_size\<close>, the size of the plan object, and
  \<open>find_iter\<close>, the matches of \<^verbatim>\<open>memchr::memmem::Finder\<close> for a needle. A finder is its needle.
\<close>

section \<open>Data\<close>

definition rq_add :: "u8 \<Rightarrow> byte_class \<Rightarrow> byte_class" where
  "rq_add byte cls = or_lane cls (unat byte div 64) (push_bit (unat byte mod 64) 1)"

definition rq_from_bytes :: "bytes \<Rightarrow> byte_class" where
  "rq_from_bytes bytes = fold rq_add bytes (ByteClass 0 0 0 0)"

definition rq_inclusive :: "u8 \<Rightarrow> u8 \<Rightarrow> byte_class" where
  "rq_inclusive start stop =
     (if start > stop then ByteClass 0 0 0 0
      else fold rq_add (map of_nat [unat start..<Suc (unat stop)]) (ByteClass 0 0 0 0))"

definition rq_contains :: "byte_class \<Rightarrow> u8 \<Rightarrow> bool" where
  "rq_contains cls byte = ((lanes cls ! (unat byte div 64)) AND push_bit (unat byte mod 64) 1 \<noteq> 0)"

definition rq_cardinality :: "byte_class \<Rightarrow> nat" where
  "rq_cardinality cls = fold (\<lambda>word total. min (total + count_ones word) usize_max) (lanes cls) 0"

definition rq_is_empty :: "byte_class \<Rightarrow> bool" where
  "rq_is_empty cls = (lanes cls = [0, 0, 0, 0])"

definition rq_window_full :: "bytes \<Rightarrow> search_window" where
  "rq_window_full haystack = window_new 0 (length haystack)"

record rq_build_limits =
  rq_max_suffix_bytes :: nat
  rq_max_build_work :: nat
  rq_max_scratch_bytes :: nat
  rq_max_persistent_bytes :: nat
  rq_max_peak_bytes :: nat

definition rq_build_limits_default :: rq_build_limits where
  "rq_build_limits_default = \<lparr>rq_max_suffix_bytes = 32 * 1024 * 1024, rq_max_build_work = 512 * 1024 * 1024,
     rq_max_scratch_bytes = 256 * 1024 * 1024, rq_max_persistent_bytes = 64 * 1024 * 1024,
     rq_max_peak_bytes = 320 * 1024 * 1024\<rparr>"

record rq_search_limits =
  rq_max_work_upper_bound :: nat
  rq_max_candidate_visits :: nat
  rq_max_search_scratch :: nat

definition rq_search_unlimited :: rq_search_limits where
  "rq_search_unlimited = \<lparr>rq_max_work_upper_bound = usize_max, rq_max_candidate_visits = usize_max,
     rq_max_search_scratch = usize_max\<rparr>"

definition rq_search_limits_default :: rq_search_limits where
  "rq_search_limits_default = \<lparr>rq_max_work_upper_bound = 512 * 1024 * 1024,
     rq_max_candidate_visits = 64 * 1024 * 1024, rq_max_search_scratch = 0\<rparr>"

record rq_build_accounting =
  rb_suffix_bytes :: nat
  rb_class_cardinality :: nat
  rb_work_upper_bound :: nat
  rb_scratch_bytes :: nat
  rb_persistent_bytes :: nat
  rb_peak_bytes :: nat

record rq_search_accounting =
  rs_window_bytes :: nat
  rs_candidate_visits_upper_bound :: nat
  rs_finder_calls_upper_bound :: nat
  rs_finder_work_upper_bound :: nat
  rs_backward_work_upper_bound :: nat
  rs_work_upper_bound :: nat
  rs_scratch_bytes :: nat
  rs_candidate_visits :: nat
  rs_finder_calls :: nat
  rs_backward_bytes_examined :: nat

datatype rq_build_error =
    RqEmptyClass
  | RqEmptySuffix
  | FirstSuffixByteInClass u8
  | OverlappingSuffix nat
  | RqSuffixLimit nat nat
  | RqWorkLimit nat nat
  | RqScratchLimit nat nat
  | RqPersistentLimit nat nat
  | RqPeakLimit nat nat
  | RqAllocationFailed string nat
  | RqOverflow string
  | RqPanic

datatype rq_search_error =
    RqInvalidWindow nat nat nat
  | CandidateLimit nat nat
  | RqSearchWorkLimit nat nat
  | RqSearchScratchLimit nat nat
  | RqSearchOverflow string
  | RqSearchPanic

record rq_plan =
  rp_class :: byte_class
  rp_suffix :: bytes
  rp_anchors :: anchor_flags
  rp_build :: rq_build_accounting

section \<open>The longest border\<close>

definition rq_at :: "'a list \<Rightarrow> nat \<Rightarrow> rq_build_error + 'a" where
  "rq_at xs i = (if i < length xs then Inr (xs ! i) else Inl RqPanic)"

text \<open>The condition of the inner loop, and the loop; \<open>None\<close> is a loop that never ends.\<close>

definition mismatch :: "bytes \<Rightarrow> nat \<Rightarrow> nat \<Rightarrow> rq_build_error + bool" where
  "mismatch suffix index matched =
     (if matched = 0 then Inr False
      else rbind (rq_at suffix index) (\<lambda>a. rbind (rq_at suffix matched) (\<lambda>b. Inr (a \<noteq> b))))"

partial_function (option) fall_back :: "bytes \<Rightarrow> nat list \<Rightarrow> nat \<Rightarrow> nat \<Rightarrow> (rq_build_error + nat) option" where
  "fall_back suffix prefix index matched =
     (case mismatch suffix index matched of
        Inl e \<Rightarrow> Some (Inl e)
      | Inr differs \<Rightarrow>
          if \<not> differs then Some (Inr matched)
          else
            (case rbind (ok_or (usub matched 1) (RqOverflow ''prefix fallback index'')) (rq_at prefix) of
               Inl e \<Rightarrow> Some (Inl e)
             | Inr matched \<Rightarrow> fall_back suffix prefix index matched))"

definition border_step :: "bytes \<Rightarrow> nat \<Rightarrow> nat \<Rightarrow> rq_build_error + nat" where
  "border_step suffix index matched =
     rbind (rq_at suffix index) (\<lambda>a.
     rbind (rq_at suffix matched) (\<lambda>b.
     if a = b then ok_or (uadd matched 1) (RqOverflow ''prefix matched length'') else Inr matched))"

fun border_loop :: "bytes \<Rightarrow> nat list \<Rightarrow> nat list \<Rightarrow> nat \<Rightarrow> (rq_build_error + nat list) option" where
  "border_loop suffix [] prefix matched = Some (Inr prefix)"
| "border_loop suffix (index # rest) prefix matched =
     (case fall_back suffix prefix index matched of
        None \<Rightarrow> None
      | Some (Inl e) \<Rightarrow> Some (Inl e)
      | Some (Inr matched) \<Rightarrow>
          (case border_step suffix index matched of
             Inl e \<Rightarrow> Some (Inl e)
           | Inr matched \<Rightarrow> border_loop suffix rest (prefix @ [matched]) matched))"

definition longest_border :: "(string \<Rightarrow> nat \<Rightarrow> bool) \<Rightarrow> bytes \<Rightarrow> (rq_build_error + nat) option" where
  "longest_border reserve suffix =
     (if \<not> reserve ''suffix prefix function'' (length suffix)
      then Some (Inl (RqAllocationFailed ''suffix prefix function'' (length suffix)))
      else
        (case border_loop suffix [1..<length suffix] [0] 0 of
           None \<Rightarrow> None
         | Some (Inl e) \<Rightarrow> Some (Inl e)
         | Some (Inr prefix) \<Rightarrow>
             Some (ok_or (if prefix = [] then None else Some (last prefix)) (RqOverflow ''non-empty suffix prefix result''))))"

section \<open>Construction\<close>

text \<open>The checks that come before the border is computed; they give the receipt.\<close>

definition rq_admit ::
    "nat \<Rightarrow> byte_class \<Rightarrow> bytes \<Rightarrow> rq_build_limits \<Rightarrow> rq_build_error + rq_build_accounting" where
  "rq_admit plan_size cls suffix limits =
     (if rq_is_empty cls then Inl RqEmptyClass
      else case suffix of [] \<Rightarrow> Inl RqEmptySuffix | first # _ \<Rightarrow>
      if rq_contains cls first then Inl (FirstSuffixByteInClass first)
      else if length suffix > rq_max_suffix_bytes limits
      then Inl (RqSuffixLimit (length suffix) (rq_max_suffix_bytes limits))
      else
        rbind (ok_or (umul (length suffix) 12) (RqOverflow ''build work upper bound'')) (\<lambda>work.
        rbind (ok_or (uadd work 32) (RqOverflow ''build work upper bound'')) (\<lambda>work_upper_bound.
        if work_upper_bound > rq_max_build_work limits then Inl (RqWorkLimit work_upper_bound (rq_max_build_work limits))
        else
          rbind (ok_or (umul (length suffix) 8) (RqOverflow ''border proof scratch bytes'')) (\<lambda>scratch_bytes.
          if scratch_bytes > rq_max_scratch_bytes limits then Inl (RqScratchLimit scratch_bytes (rq_max_scratch_bytes limits))
          else
            rbind (ok_or (uadd plan_size (length suffix)) (RqOverflow ''persistent plan bytes'')) (\<lambda>persistent_bytes.
            if persistent_bytes > rq_max_persistent_bytes limits
            then Inl (RqPersistentLimit persistent_bytes (rq_max_persistent_bytes limits))
            else
              rbind (ok_or (uadd persistent_bytes scratch_bytes) (RqOverflow ''construction peak bytes'')) (\<lambda>peak_bytes.
              if peak_bytes > rq_max_peak_bytes limits then Inl (RqPeakLimit peak_bytes (rq_max_peak_bytes limits))
              else
                Inr \<lparr>rb_suffix_bytes = length suffix, rb_class_cardinality = rq_cardinality cls,
                     rb_work_upper_bound = work_upper_bound, rb_scratch_bytes = scratch_bytes,
                     rb_persistent_bytes = persistent_bytes, rb_peak_bytes = peak_bytes\<rparr>))))))"

definition rq_publish ::
    "(string \<Rightarrow> nat \<Rightarrow> bool) \<Rightarrow> byte_class \<Rightarrow> bytes \<Rightarrow> anchor_flags \<Rightarrow> rq_build_accounting \<Rightarrow> nat \<Rightarrow> rq_build_error + rq_plan" where
  "rq_publish reserve cls suffix anchors build border =
     (if border \<noteq> 0 then Inl (OverlappingSuffix border)
      else if \<not> reserve ''owned suffix'' (length suffix) then Inl (RqAllocationFailed ''owned suffix'' (length suffix))
      else Inr \<lparr>rp_class = cls, rp_suffix = suffix, rp_anchors = anchors, rp_build = build\<rparr>)"

definition rq_build ::
    "(string \<Rightarrow> nat \<Rightarrow> bool) \<Rightarrow> nat \<Rightarrow> byte_class \<Rightarrow> bytes \<Rightarrow> anchor_flags \<Rightarrow> rq_build_limits
     \<Rightarrow> (rq_build_error + rq_plan) option" where
  "rq_build reserve plan_size cls suffix anchors limits =
     (case rq_admit plan_size cls suffix limits of
        Inl e \<Rightarrow> Some (Inl e)
      | Inr build \<Rightarrow>
          (case longest_border reserve suffix of
             None \<Rightarrow> None
           | Some m \<Rightarrow> Some (rbind m (rq_publish reserve cls suffix anchors build))))"

section \<open>Search\<close>

definition zero_search_accounting :: "nat \<Rightarrow> rq_search_accounting" where
  "zero_search_accounting window_bytes =
     \<lparr>rs_window_bytes = window_bytes, rs_candidate_visits_upper_bound = 0, rs_finder_calls_upper_bound = 0,
      rs_finder_work_upper_bound = 0, rs_backward_work_upper_bound = 0, rs_work_upper_bound = 0, rs_scratch_bytes = 0,
      rs_candidate_visits = 0, rs_finder_calls = 0, rs_backward_bytes_examined = 0\<rparr>"

definition check_search_scratch :: "nat \<Rightarrow> nat \<Rightarrow> rq_search_error + unit" where
  "check_search_scratch needed limit = (if needed > limit then Inl (RqSearchScratchLimit needed limit) else Inr ())"

definition udiv :: "nat \<Rightarrow> nat \<Rightarrow> nat option" where
  "udiv a b = (if b = 0 then None else Some (a div b))"

definition rq_preflight :: "rq_plan \<Rightarrow> search_window \<Rightarrow> rq_search_limits \<Rightarrow> rq_search_error + rq_search_accounting" where
  "rq_preflight plan window limits =
     (let suffix_bytes = length (rp_suffix plan) in
     rbind (ok_or (usub (window_end window) (window_start window)) (RqSearchOverflow ''search window bytes'')) (\<lambda>window_bytes.
     rbind (ok_or (udiv window_bytes suffix_bytes) (RqSearchOverflow ''candidate count upper bound'')) (\<lambda>visits.
     if visits > rq_max_candidate_visits limits then Inl (CandidateLimit visits (rq_max_candidate_visits limits))
     else
       rbind (ok_or (uadd visits 1) (RqSearchOverflow ''finder calls upper bound'')) (\<lambda>calls.
       rbind (ok_or (umul calls suffix_bytes) (RqSearchOverflow ''repeated finder needle terms'')) (\<lambda>terms.
       rbind (ok_or (uadd window_bytes terms) (RqSearchOverflow ''finder work upper bound'')) (\<lambda>finder_work.
       rbind (ok_or (umul visits 6) (RqSearchOverflow ''candidate structural work'')) (\<lambda>candidate_structure.
       rbind (ok_or (uadd finder_work window_bytes) (RqSearchOverflow ''complete search work upper bound'')) (\<lambda>work.
       rbind (ok_or (uadd work candidate_structure) (RqSearchOverflow ''complete search work upper bound'')) (\<lambda>work.
       rbind (ok_or (uadd work 2) (RqSearchOverflow ''complete search work upper bound'')) (\<lambda>work.
       if work > rq_max_work_upper_bound limits then Inl (RqSearchWorkLimit work (rq_max_work_upper_bound limits))
       else
         Inr \<lparr>rs_window_bytes = window_bytes, rs_candidate_visits_upper_bound = visits,
              rs_finder_calls_upper_bound = calls, rs_finder_work_upper_bound = finder_work,
              rs_backward_work_upper_bound = window_bytes, rs_work_upper_bound = work, rs_scratch_bytes = 0,
              rs_candidate_visits = 0, rs_finder_calls = 0, rs_backward_bytes_examined = 0\<rparr>))))))))))"

definition rq_byte :: "bytes \<Rightarrow> nat \<Rightarrow> rq_search_error + u8" where
  "rq_byte haystack i = (if i < length haystack then Inr (haystack ! i) else Inl RqSearchPanic)"

function confirm_back :: "byte_class \<Rightarrow> bytes \<Rightarrow> nat \<Rightarrow> nat \<Rightarrow> nat \<Rightarrow> rq_search_error + (nat \<times> nat)" where
  "confirm_back cls haystack lower start examined =
     (if start > lower
      then
        rbind (ok_or (usub start 1) (RqSearchOverflow ''backward confirmation position'')) (\<lambda>previous.
        rbind (ok_or (uadd examined 1) (RqSearchOverflow ''actual backward examinations'')) (\<lambda>examined.
        rbind (rq_byte haystack previous) (\<lambda>byte.
        if \<not> rq_contains cls byte then Inr (start, examined)
        else confirm_back cls haystack lower previous examined)))
      else Inr (start, examined))"
  by pat_completeness auto
termination
  by (relation "measure (\<lambda>(cls, haystack, lower, start, examined). start)") auto

declare confirm_back.simps [simp del]

text \<open>What the body of the loop does with one candidate: \<open>None\<close> is \<^verbatim>\<open>continue\<close>.\<close>

definition rq_candidate ::
    "rq_plan \<Rightarrow> bytes \<Rightarrow> search_window \<Rightarrow> nat \<Rightarrow> rq_search_accounting
     \<Rightarrow> rq_search_error + (match_span option \<times> rq_search_accounting)" where
  "rq_candidate plan haystack window relative acc =
     rbind (ok_or (uadd (rs_candidate_visits acc) 1) (RqSearchOverflow ''actual candidate visits'')) (\<lambda>visits.
     let acc = acc\<lparr>rs_candidate_visits := visits\<rparr> in
     rbind (ok_or (uadd (window_start window) relative) (RqSearchOverflow ''absolute suffix candidate'')) (\<lambda>candidate.
     case usub candidate 1 of
       None \<Rightarrow> Inr (None, acc)
     | Some previous \<Rightarrow>
         if candidate = window_start window then Inr (None, acc)
         else
           rbind (rq_byte haystack previous) (\<lambda>byte.
           if \<not> rq_contains (rp_class plan) byte then Inr (None, acc)
           else
             rbind (confirm_back (rp_class plan) haystack (window_start window) candidate (rs_backward_bytes_examined acc))
               (\<lambda>(start, examined).
             let acc = acc\<lparr>rs_backward_bytes_examined := examined\<rparr> in
             rbind (ok_or (uadd candidate (length (rp_suffix plan))) (RqSearchOverflow ''selected match end'')) (\<lambda>stop.
             if anchor_start (rp_anchors plan) \<and> start \<noteq> 0 then Inr (None, acc)
             else if anchor_end (rp_anchors plan) \<and> stop \<noteq> length haystack then Inr (None, acc)
             else Inr (Some (match_span_new start stop), acc))))))"

fun rq_loop ::
    "rq_plan \<Rightarrow> bytes \<Rightarrow> search_window \<Rightarrow> nat list \<Rightarrow> rq_search_accounting
     \<Rightarrow> rq_search_error + (match_span option \<times> rq_search_accounting)" where
  "rq_loop plan haystack window candidates acc =
     rbind (ok_or (uadd (rs_finder_calls acc) 1) (RqSearchOverflow ''actual finder calls'')) (\<lambda>calls.
     let acc = acc\<lparr>rs_finder_calls := calls\<rparr> in
     case candidates of
       [] \<Rightarrow> Inr (None, acc)
     | relative # rest \<Rightarrow>
         rbind (rq_candidate plan haystack window relative acc) (\<lambda>(found, acc).
         case found of Some span \<Rightarrow> Inr (Some span, acc) | None \<Rightarrow> rq_loop plan haystack window rest acc))"

declare rq_loop.simps [simp del]

definition rq_find_window ::
    "(bytes \<Rightarrow> bytes \<Rightarrow> nat list) \<Rightarrow> rq_plan \<Rightarrow> bytes \<Rightarrow> search_window \<Rightarrow> rq_search_limits
     \<Rightarrow> rq_search_error + (match_span option \<times> rq_search_accounting)" where
  "rq_find_window find_iter plan haystack window limits =
     (if window_start window > window_end window \<or> window_end window > length haystack
      then Inl (RqInvalidWindow (window_start window) (window_end window) (length haystack))
      else
        rbind (check_search_scratch 0 (rq_max_search_scratch limits)) (\<lambda>_.
        if anchor_start (rp_anchors plan) \<and> window_start window \<noteq> 0
          \<or> anchor_end (rp_anchors plan) \<and> window_end window \<noteq> length haystack
        then
          rbind (ok_or (usub (window_end window) (window_start window)) (RqSearchOverflow ''impossible anchored window bytes''))
            (\<lambda>window_bytes. Inr (None, zero_search_accounting window_bytes))
        else
          rbind (rq_preflight plan window limits) (\<lambda>acc.
          rq_loop plan haystack window
            (find_iter (rp_suffix plan) (slice haystack (window_start window) (window_end window))) acc)))"

definition rq_find ::
    "(bytes \<Rightarrow> bytes \<Rightarrow> nat list) \<Rightarrow> rq_plan \<Rightarrow> bytes \<Rightarrow> rq_search_limits
     \<Rightarrow> rq_search_error + (match_span option \<times> rq_search_accounting)" where
  "rq_find find_iter plan haystack limits = rq_find_window find_iter plan haystack (rq_window_full haystack) limits"

end
