(* ===== verification/ReqBorder.thy ===== *)
theory ReqBorder
  imports ReqModel KirAggregate
begin

text \<open>
  The prefix function of the required-literal plan. A border of the first \<open>n\<close> bytes is a length
  \<open>k < n\<close> at which they begin and end alike; the table of the code holds the widest border of every
  prefix, its inner loop ends, and without a border two occurrences never overlap.
\<close>

definition border_at :: "'a list \<Rightarrow> nat \<Rightarrow> nat \<Rightarrow> bool" where
  "border_at s n k \<longleftrightarrow> k < n \<and> (\<forall>i<k. s ! i = s ! (n - k + i))"

definition widest_border :: "'a list \<Rightarrow> nat \<Rightarrow> nat \<Rightarrow> bool" where
  "widest_border s n k \<longleftrightarrow> border_at s n k \<and> (\<forall>j. border_at s n j \<longrightarrow> j \<le> k)"

lemma border_zero [simp]: "0 < n \<Longrightarrow> border_at s n 0"
  by (simp add: border_at_def)

lemma border_nested:
  assumes "border_at s n m" "j < m"
  shows "border_at s n j \<longleftrightarrow> border_at s m j"
proof -
  have "s ! (n - j + i) = s ! (m - j + i)" if "i < j" for i
  proof -
    have "s ! (m - j + i) = s ! (n - m + (m - j + i))" using assms that by (simp add: border_at_def)
    also have "n - m + (m - j + i) = n - j + i" using assms by (simp add: border_at_def)
    finally show ?thesis by simp
  qed
  then show ?thesis using assms by (auto simp: border_at_def)
qed

lemma border_extend: "border_at s (Suc n) (Suc k) \<longleftrightarrow> border_at s n k \<and> s ! k = s ! n"
  by (auto simp: border_at_def less_Suc_eq)

section \<open>The table\<close>

definition border_table :: "'a list \<Rightarrow> nat list \<Rightarrow> nat \<Rightarrow> bool" where
  "border_table s prefix n \<longleftrightarrow> length prefix = n \<and> (\<forall>i<n. widest_border s (Suc i) (prefix ! i))"

text \<open>The border that the inner loop ends with: the widest one that the next byte may extend.\<close>

definition extendable :: "'a list \<Rightarrow> nat \<Rightarrow> nat \<Rightarrow> bool" where
  "extendable s n m \<longleftrightarrow> border_at s n m \<and> (\<forall>j. border_at s n j \<and> s ! j = s ! n \<longrightarrow> j \<le> m)"

lemma fall_back_ok:
  assumes "border_table s prefix n" "n < length s" "extendable s n m"
  shows "\<exists>m'. fall_back s prefix n m = Some (Inr m') \<and> extendable s n m' \<and> (m' = 0 \<or> s ! m' = s ! n)"
  using assms(3)
proof (induction m rule: less_induct)
  case (less m)
  have m: "m < n" using less.prems by (simp add: extendable_def border_at_def)
  show ?case
  proof (cases "m = 0 \<or> s ! n = s ! m")
    case True
    then show ?thesis
      using less.prems m assms(2) by (subst fall_back.simps) (auto simp: mismatch_def rq_at_def)
  next
    case False
    let ?p = "prefix ! (m - 1)"
    have p: "widest_border s m ?p" using assms(1) m False by (auto simp: border_table_def dest!: spec [of _ "m - 1"])
    then have less_p: "?p < m" by (simp add: widest_border_def border_at_def)
    have "extendable s n ?p"
      unfolding extendable_def
    proof (intro conjI allI impI)
      show "border_at s n ?p"
        using less.prems less_p p border_nested [of s n m ?p] by (simp add: extendable_def widest_border_def)
      fix j
      assume j: "border_at s n j \<and> s ! j = s ! n"
      then have "j \<le> m" "j \<noteq> m" using less.prems False by (auto simp: extendable_def)
      then show "j \<le> ?p"
        using j less.prems p border_nested [of s n m j] by (simp add: extendable_def widest_border_def)
    qed
    from less.IH [OF less_p this] show ?thesis
      using m False assms(1,2) by (subst fall_back.simps) (auto simp: mismatch_def rq_at_def border_table_def)
  qed
qed

lemma border_step_ok:
  assumes "extendable s n m" "m = 0 \<or> s ! m = s ! n" "n < length s" "length s \<le> usize_max"
  shows "\<exists>m'. border_step s n m = Inr m' \<and> widest_border s (Suc n) m'"
proof -
  have m: "m < n" using assms(1) by (simp add: extendable_def border_at_def)
  let ?m' = "if s ! n = s ! m then Suc m else m"
  have "border_step s n m = Inr ?m'"
    using m assms(3,4) by (simp add: border_step_def rq_at_def)
  moreover have "widest_border s (Suc n) ?m'"
    unfolding widest_border_def
  proof (intro conjI allI impI)
    show "border_at s (Suc n) ?m'"
      using assms(1,2) by (auto simp: border_extend extendable_def)
    fix j
    assume j: "border_at s (Suc n) j"
    show "j \<le> ?m'"
    proof (cases j)
      case (Suc k)
      then have "border_at s n k" "s ! k = s ! n" "k \<le> m" using j assms(1) by (auto simp: border_extend extendable_def)
      then show ?thesis using Suc assms(2) by auto
    qed simp
  qed
  ultimately show ?thesis by blast
qed

lemma border_table_snoc:
  "border_table s prefix n \<Longrightarrow> widest_border s (Suc n) m \<Longrightarrow> border_table s (prefix @ [m]) (Suc n)"
  by (auto simp: border_table_def nth_append less_Suc_eq)

lemma border_loop_ok:
  assumes "border_table s prefix n" "widest_border s n m" "0 < n" "n \<le> length s" "length s \<le> usize_max"
  shows "\<exists>prefix'. border_loop s [n..<length s] prefix m = Some (Inr prefix') \<and> border_table s prefix' (length s)"
  using assms(1-4)
proof (induction "length s - n" arbitrary: n prefix m)
  case 0
  then show ?case by simp
next
  case (Suc d)
  then have n: "n < length s" by simp
  have "extendable s n m" using Suc.prems by (simp add: extendable_def widest_border_def)
  from fall_back_ok [OF Suc.prems(1) n this] obtain m1 where
    m1: "fall_back s prefix n m = Some (Inr m1)" "extendable s n m1" "m1 = 0 \<or> s ! m1 = s ! n" by blast
  from border_step_ok [OF m1(2,3) n assms(5)] obtain m2 where
    m2: "border_step s n m1 = Inr m2" "widest_border s (Suc n) m2" by blast
  have "\<exists>prefix'. border_loop s [Suc n..<length s] (prefix @ [m2]) m2 = Some (Inr prefix') \<and> border_table s prefix' (length s)"
    using Suc(2) n m2(2) by (intro Suc.hyps(1) border_table_snoc [OF Suc.prems(1)]) simp_all
  then show ?case using n m1(1) m2(1) by (simp add: upt_conv_Cons)
qed

lemma longest_border_exact:
  assumes "s \<noteq> []" "length s \<le> usize_max"
  shows "longest_border reserve s =
      Some (Inl (RqAllocationFailed ''suffix prefix function'' (length s))) \<and> \<not> reserve ''suffix prefix function'' (length s)
    \<or> (\<exists>k. longest_border reserve s = Some (Inr k) \<and> widest_border s (length s) k)"
proof -
  have "border_table s [0] 1" "widest_border s 1 0"
    by (auto simp: border_table_def widest_border_def border_at_def)
  from border_loop_ok [OF this _ _ assms(2)] assms(1) obtain prefix where
    p: "border_loop s [1..<length s] [0] 0 = Some (Inr prefix)" "border_table s prefix (length s)"
    by (auto simp: Suc_le_eq)
  have "prefix \<noteq> []" using p(2) assms(1) by (auto simp: border_table_def)
  moreover have "widest_border s (length s) (last prefix)"
    using p(2) assms(1) \<open>prefix \<noteq> []\<close> by (auto simp: border_table_def last_conv_nth dest!: spec [of _ "length s - 1"])
  ultimately show ?thesis using p(1) by (auto simp: longest_border_def)
qed

section \<open>Occurrences of a word without a border\<close>

lemma literal_sel_iff:
  "literal_sel s h p = Some e \<longleftrightarrow> e = p + length s \<and> e \<le> length h \<and> (\<forall>i<length s. h ! (p + i) = s ! i)"
  by (auto simp: literal_sel_def list_eq_iff_nth_eq split: if_splits)

lemma occurrences_disjoint:
  assumes "widest_border s (length s) 0" "literal_sel s h p = Some a" "literal_sel s h q = Some b" "p < q"
  shows "p + length s \<le> q"
proof (rule ccontr)
  assume "\<not> ?thesis"
  then have overlap: "q < p + length s" by simp
  let ?k = "p + length s - q"
  have "border_at s (length s) ?k"
    unfolding border_at_def
  proof (intro conjI allI impI)
    fix i
    assume i: "i < ?k"
    have "s ! i = h ! (q + i)" using assms(3) i assms(4) by (simp add: literal_sel_iff)
    also have "\<dots> = s ! (q - p + i)"
    proof -
      have "q - p + i < length s" "p + (q - p + i) = q + i" using i assms(4) by simp_all
      then show ?thesis using assms(2) by (metis literal_sel_iff)
    qed
    also have "q - p + i = length s - ?k + i" using assms(4) overlap by simp
    finally show "s ! i = s ! (length s - ?k + i)" .
  qed (use assms(4) overlap in simp)
  then show False using assms(1) overlap by (auto simp: widest_border_def)
qed

end
