(* ===== verification/ReqScan.thy ===== *)
theory ReqScan
  imports ReqBorder
begin

text \<open>
  The search of the required-literal plan: the finder yields every occurrence of a suffix without a
  border, the backward scans of different candidates do not meet, and the first candidate that
  survives gives the leftmost match of the kernel shape \<^verbatim>\<open>CLASS+ SUFFIX\<close>.
\<close>

section \<open>Candidates\<close>

text \<open>The documented behaviour of \<^verbatim>\<open>memmem::Finder::find_iter\<close>: successive non-overlapping matches.\<close>

definition memmem_ok :: "(bytes \<Rightarrow> bytes \<Rightarrow> nat list) \<Rightarrow> bool" where
  "memmem_ok find_iter \<longleftrightarrow> (\<forall>needle h. needle \<noteq> [] \<longrightarrow> find_iter needle h = map fst (spans_from needle h 0))"

definition occurs :: "bytes \<Rightarrow> bytes \<Rightarrow> nat \<Rightarrow> bool" where
  "occurs needle h p \<longleftrightarrow> literal_sel needle h p \<noteq> None"

lemma fixed_width_spans:
  assumes "separated lo prev spans" "\<forall>(s, e)\<in>set spans. e = s + L \<and> e \<le> n" "lo \<le> n" "0 < L"
  shows "sorted_wrt (<) (map fst spans) \<and> (\<forall>p\<in>set (map fst spans). lo \<le> p) \<and> lo + length spans * L \<le> n"
  using assms
proof (induction lo prev spans rule: separated.induct)
  case (2 lo prev s e spans)
  then have "sorted_wrt (<) (map fst spans) \<and> (\<forall>p\<in>set (map fst spans). e \<le> p) \<and> e + length spans * L \<le> n" by auto
  with "2.prems" show ?case by (auto simp: algebra_simps)
qed auto

lemma candidates:
  fixes needle h :: bytes
  assumes "needle \<noteq> []" "widest_border needle (length needle) 0"
  defines "cs \<equiv> map fst (spans_from needle h 0)"
  shows "sorted_wrt (<) cs" "set cs = {p. occurs needle h p}" "length cs \<le> length h div length needle"
proof -
  let ?spans = "spans_from needle h 0"
  have sel: "literal_sel needle h s = Some e" if "(s, e) \<in> set ?spans" for s e
    using lit.iter_seq_selected [of s e h needle 0 None] that by (simp add: spans_from_def)
  have sep: "separated 0 None ?spans" unfolding spans_from_def by (rule lit.iter_seq_separated)
  have width: "\<forall>(s, e)\<in>set ?spans. e = s + length needle \<and> e \<le> length h" using sel by (auto simp: literal_sel_iff)
  have "0 < length needle" using assms(1) by simp
  note facts = fixed_width_spans [OF sep width _ this]
  show "sorted_wrt (<) cs" using facts by (simp add: cs_def)
  show "length cs \<le> length h div length needle"
    using facts assms(1) by (simp add: cs_def less_eq_div_iff_mult_less_eq)
  have "t \<in> fst ` set ?spans" if t: "literal_sel needle h t = Some f" for t f
  proof -
    have "t \<le> length h" "f \<noteq> t" using t assms(1) by (auto simp: literal_sel_iff)
    then consider "(t, f) \<in> set ?spans" | s e where "(s, e) \<in> set ?spans" "s < t" "t < e"
      using lit.iter_seq_complete [OF t, of 0 None] by (auto simp: spans_from_def)
    then show ?thesis
    proof cases
      case 2
      then show ?thesis
        using occurrences_disjoint [OF assms(2) sel [OF 2(1)] t 2(2)] width by fastforce
    qed force
  qed
  then show "set cs = {p. occurs needle h p}" using sel by (force simp: cs_def occurs_def)
qed

section \<open>Backward confirmation\<close>

lemma rq_contains_eq: "rq_contains cls byte = contains cls byte"
  by (simp add: rq_contains_def contains_def byte_lane_def byte_bit_def unat_div unat_mod)

text \<open>A barrier is a position the scan cannot pass: the lower end, or a byte outside the class.\<close>

lemma confirm_back_ok:
  assumes "lower \<le> barrier" "barrier \<le> start" "barrier = lower \<or> barrier < start \<and> \<not> contains cls (h ! barrier)"
    and "start \<le> length h" "examined + (start - barrier) \<le> usize_max"
  shows "\<exists>st examined'. confirm_back cls h lower start examined = Inr (st, examined')
    \<and> examined' \<le> examined + (start - barrier) \<and> lower \<le> st \<and> st \<le> start
    \<and> (\<forall>i. st \<le> i \<longrightarrow> i < start \<longrightarrow> contains cls (h ! i)) \<and> (lower < st \<longrightarrow> \<not> contains cls (h ! (st - 1)))"
  using assms
proof (induction start arbitrary: examined)
  case 0
  then show ?case by (subst confirm_back.simps) simp
next
  case (Suc p)
  show ?case
  proof (cases "lower = Suc p")
    case True
    then show ?thesis by (subst confirm_back.simps) simp
  next
    case False
    then have p: "barrier \<le> p" "lower \<le> p" "p < length h" "examined + 1 \<le> usize_max" using Suc.prems by auto
    show ?thesis
    proof (cases "contains cls (h ! p)")
      case True
      have "barrier = lower \<or> barrier < p \<and> \<not> contains cls (h ! barrier)"
        using Suc.prems(3) True p(1) by (cases "barrier = p") auto
      moreover have "Suc examined + (p - barrier) \<le> usize_max" "p \<le> length h" using Suc.prems(4,5) p(1) by simp_all
      ultimately obtain st examined' where st: "confirm_back cls h lower p (Suc examined) = Inr (st, examined')"
        "examined' \<le> Suc examined + (p - barrier)" "lower \<le> st" "st \<le> p"
        "\<forall>i. st \<le> i \<longrightarrow> i < p \<longrightarrow> contains cls (h ! i)" "lower < st \<longrightarrow> \<not> contains cls (h ! (st - 1))"
        using Suc.IH [OF Suc.prems(1) p(1), of "Suc examined"] by metis
      show ?thesis
      proof (rule exI [of _ st], rule exI [of _ examined'], intro conjI allI impI)
        show "confirm_back cls h lower (Suc p) examined = Inr (st, examined')"
          using p st(1) True by (subst confirm_back.simps) (simp add: rq_byte_def rq_contains_eq)
        fix i
        assume "st \<le> i" "i < Suc p"
        then show "contains cls (h ! i)" using st(5) True by (cases "i = p") auto
      qed (use st p in auto)
    next
      case False
      then show ?thesis
        using p Suc.prems by (subst confirm_back.simps) (auto simp: rq_byte_def rq_contains_eq)
    qed
  qed
qed

section \<open>Matches by the position of their suffix\<close>

definition hit :: "rq_plan \<Rightarrow> bytes \<Rightarrow> search_window \<Rightarrow> nat \<Rightarrow> nat \<Rightarrow> bool" where
  "hit plan h w m s \<longleftrightarrow> window_start w \<le> s \<and> s < m \<and> m + length (rp_suffix plan) \<le> window_end w
     \<and> (\<forall>i<length (rp_suffix plan). h ! (m + i) = rp_suffix plan ! i)
     \<and> (\<forall>i. s \<le> i \<longrightarrow> i < m \<longrightarrow> contains (rp_class plan) (h ! i))
     \<and> anchors_hold (rp_anchors plan) h s (m + length (rp_suffix plan))"

abbreviation plan_shape :: "rq_plan \<Rightarrow> kernel_shape" where
  "plan_shape plan \<equiv> ClassSuffixShape (rp_class plan) (rp_suffix plan) (rp_anchors plan)"

lemma kernel_match_hit:
  assumes "window_valid w (length h)"
  shows "kernel_match (plan_shape plan) h w s t \<longleftrightarrow> (\<exists>m. hit plan h w m s \<and> t = m + length (rp_suffix plan))"
    (is "?match \<longleftrightarrow> ?hit")
proof
  have b: "window_end w \<le> length h" using assms by (simp add: window_valid_def)
  {
    assume ?match
    then obtain m where m: "Suc s \<le> m" "m \<le> t" "list_all (contains (rp_class plan)) (slice h s m)" "slice h m t = rp_suffix plan"
      "within w s t" "anchors_hold (rp_anchors plan) h s t" by (auto simp: kernel_match.simps)
    then have "t \<le> length h" "m \<le> length h" using b by (auto simp: within_def)
    with m show ?hit
      by (intro exI [of _ m]) (auto simp: hit_def slice_eq_iff list_all_slice_iff within_def)
  next
    assume ?hit
    then obtain m where m: "hit plan h w m s" "t = m + length (rp_suffix plan)" by blast
    then have "m \<le> length h" "t \<le> length h" using b by (auto simp: hit_def)
    with m show ?match
      by (auto simp: kernel_match.simps hit_def within_def slice_eq_iff list_all_slice_iff intro!: bexI [of _ m])
  }
qed

lemma occurs_in_window:
  assumes "window_valid w (length h)"
  shows "occurs needle (slice h (window_start w) (window_end w)) r \<longleftrightarrow>
    window_start w + r + length needle \<le> window_end w \<and> (\<forall>i<length needle. h ! (window_start w + r + i) = needle ! i)"
proof -
  have "length (slice h (window_start w) (window_end w)) = window_end w - window_start w"
    using assms by (simp add: length_slice window_valid_def)
  moreover have "slice h (window_start w) (window_end w) ! i = h ! (window_start w + i)" if "i < window_end w - window_start w" for i
    using that assms by (simp add: slice_def window_valid_def)
  ultimately show ?thesis
    using assms by (auto simp: occurs_def not_None_eq literal_sel_iff window_valid_def add.assoc)
qed

text \<open>A match cannot run across an occurrence of the suffix.\<close>

lemma hit_after:
  assumes "hit plan h w m s" "occurs (rp_suffix plan) (slice h (window_start w) (window_end w)) r" "window_valid w (length h)"
    and "rp_suffix plan \<noteq> []" "\<not> contains (rp_class plan) (hd (rp_suffix plan))" "window_start w + r < m"
  shows "window_start w + r < s"
proof -
  have "h ! (window_start w + r) = hd (rp_suffix plan)"
    using assms(2,4) occurs_in_window [OF assms(3)] by (auto simp: hd_conv_nth)
  then show ?thesis using assms(1,5,6) by (metis hit_def leI)
qed

section \<open>One candidate\<close>

definition bounds_of :: "rq_search_accounting \<Rightarrow> rq_search_accounting" where
  "bounds_of acc = acc\<lparr>rs_candidate_visits := 0, rs_finder_calls := 0, rs_backward_bytes_examined := 0\<rparr>"

definition candidate_result :: "rq_plan \<Rightarrow> bytes \<Rightarrow> search_window \<Rightarrow> nat \<Rightarrow> match_span option \<Rightarrow> bool" where
  "candidate_result plan h w m found =
     (case found of
        None \<Rightarrow> \<forall>s. \<not> hit plan h w m s
      | Some span \<Rightarrow> \<exists>s. span = match_span_new s (m + length (rp_suffix plan)) \<and> hit plan h w m s
          \<and> (\<forall>s'. hit plan h w m s' \<longrightarrow> s \<le> s'))"

lemma candidate_confirmed:
  assumes occ: "occurs (rp_suffix plan) (slice h (window_start w) (window_end w)) r" and w: "window_valid w (length h)"
    and m: "m = window_start w + r" "window_start w \<le> st" "st < m"
    and run: "\<forall>i. st \<le> i \<longrightarrow> i < m \<longrightarrow> contains (rp_class plan) (h ! i)"
    and left: "window_start w < st \<longrightarrow> \<not> contains (rp_class plan) (h ! (st - 1))"
  shows "candidate_result plan h w m
    (if anchor_start (rp_anchors plan) \<and> st \<noteq> 0 \<or> anchor_end (rp_anchors plan) \<and> m + length (rp_suffix plan) \<noteq> length h
     then None else Some (match_span_new st (m + length (rp_suffix plan))))"
proof -
  have least: "st \<le> s" if "hit plan h w m s" for s
  proof (rule ccontr)
    assume "\<not> st \<le> s"
    then have "window_start w < st" "s \<le> st - 1" "st - 1 < m" using that m(3) by (auto simp: hit_def)
    with that left show False by (auto simp: hit_def)
  qed
  have here: "hit plan h w m st" if "anchors_hold (rp_anchors plan) h st (m + length (rp_suffix plan))"
    using that occ m run occurs_in_window [OF w] by (auto simp: hit_def)
  show ?thesis
  proof (cases "anchors_hold (rp_anchors plan) h st (m + length (rp_suffix plan))")
    case True
    then show ?thesis using here least by (auto simp: candidate_result_def anchors_hold_def)
  next
    case False
    have "\<not> hit plan h w m s" for s
    proof
      assume hit: "hit plan h w m s"
      then have "anchors_hold (rp_anchors plan) h s (m + length (rp_suffix plan))" by (simp add: hit_def)
      with least [OF hit] False show False by (auto simp: anchors_hold_def)
    qed
    with False show ?thesis by (auto simp: candidate_result_def anchors_hold_def)
  qed
qed

lemma candidate_ok:
  assumes occ: "occurs (rp_suffix plan) (slice h (window_start w) (window_end w)) r" and w: "window_valid w (length h)"
    and fits: "length h \<le> usize_max" "rs_candidate_visits acc < usize_max"
    and lo: "rs_backward_bytes_examined acc \<le> lo" "lo = 0 \<or> lo < r \<and> \<not> contains (rp_class plan) (h ! (window_start w + lo))"
  shows "\<exists>found acc'. rq_candidate plan h w r acc = Inr (found, acc') \<and> candidate_result plan h w (window_start w + r) found
    \<and> rs_candidate_visits acc' = Suc (rs_candidate_visits acc) \<and> rs_finder_calls acc' = rs_finder_calls acc
    \<and> rs_backward_bytes_examined acc' \<le> r \<and> bounds_of acc' = bounds_of acc"
proof -
  let ?m = "window_start w + r" and ?acc = "acc\<lparr>rs_candidate_visits := Suc (rs_candidate_visits acc)\<rparr>"
  have stop: "?m + length (rp_suffix plan) \<le> length h"
    using occ occurs_in_window [OF w] w by (auto simp: window_valid_def)
  have seen: "rs_backward_bytes_examined acc \<le> r" using lo by auto
  show ?thesis
  proof (cases "?m = 0 \<or> r = 0 \<or> \<not> contains (rp_class plan) (h ! (?m - 1))")
    case True
    have "\<not> hit plan h w ?m s" for s
      using True by (auto simp: hit_def dest: spec [of _ "?m - 1"])
    moreover have "rq_candidate plan h w r acc = Inr (None, ?acc)"
      using True fits stop by (auto simp: rq_candidate_def rq_byte_def rq_contains_eq Let_def usub_def)
    ultimately show ?thesis using seen by (auto simp: candidate_result_def bounds_of_def)
  next
    case False
    then have r: "0 < r" "?m - 1 < length h" "contains (rp_class plan) (h ! (?m - 1))" using stop by auto
    have "rs_backward_bytes_examined acc + (?m - (window_start w + lo)) \<le> r" using lo r(1) by auto
    then obtain st examined where st:
      "confirm_back (rp_class plan) h (window_start w) ?m (rs_backward_bytes_examined acc) = Inr (st, examined)" "examined \<le> r"
      "window_start w \<le> st" "st \<le> ?m" "\<forall>i. st \<le> i \<longrightarrow> i < ?m \<longrightarrow> contains (rp_class plan) (h ! i)"
      "window_start w < st \<longrightarrow> \<not> contains (rp_class plan) (h ! (st - 1))"
      using confirm_back_ok [of "window_start w" "window_start w + lo" ?m "rp_class plan" h "rs_backward_bytes_examined acc"]
        stop fits(1) lo(2) by fastforce
    have "st \<noteq> ?m" using st(6) r by auto
    then have "st < ?m" using st(4) by simp
    note result = candidate_confirmed [OF occ w refl st(3) this st(5,6)]
    show ?thesis
      using False r fits stop st(1,2) result
      by (auto simp: rq_candidate_def rq_byte_def rq_contains_eq Let_def bounds_of_def)
  qed
qed

section \<open>The loop\<close>

text \<open>
  Before a turn of the loop: the candidates to come are occurrences in ascending order, every other
  occurrence has been refuted, and the bytes examined so far lie before a barrier that is the last
  candidate.
\<close>

definition loop_state :: "rq_plan \<Rightarrow> bytes \<Rightarrow> search_window \<Rightarrow> nat \<Rightarrow> nat list \<Rightarrow> rq_search_accounting \<Rightarrow> bool" where
  "loop_state plan h w lo cs acc \<longleftrightarrow>
     sorted_wrt (<) cs
     \<and> (\<forall>r\<in>set cs. occurs (rp_suffix plan) (slice h (window_start w) (window_end w)) r)
     \<and> (\<forall>r. occurs (rp_suffix plan) (slice h (window_start w) (window_end w)) r \<longrightarrow> r \<notin> set cs \<longrightarrow>
          (\<forall>s. \<not> hit plan h w (window_start w + r) s))
     \<and> (lo = 0 \<or> (\<forall>r\<in>set cs. lo < r) \<and> \<not> contains (rp_class plan) (h ! (window_start w + lo)))
     \<and> rs_backward_bytes_examined acc \<le> lo \<and> lo \<le> window_end w - window_start w
     \<and> rs_finder_calls acc = rs_candidate_visits acc"

definition well_counted :: "search_window \<Rightarrow> nat \<Rightarrow> rq_search_accounting \<Rightarrow> bool" where
  "well_counted w visits acc \<longleftrightarrow> rs_candidate_visits acc \<le> visits \<and> rs_finder_calls acc \<le> Suc visits
     \<and> rs_backward_bytes_examined acc \<le> window_end w - window_start w"

lemma hit_occurs:
  assumes "hit plan h w m s" "window_valid w (length h)"
  obtains r where "m = window_start w + r" "occurs (rp_suffix plan) (slice h (window_start w) (window_end w)) r"
proof
  show "m = window_start w + (m - window_start w)" using assms(1) by (simp add: hit_def)
  then show "occurs (rp_suffix plan) (slice h (window_start w) (window_end w)) (m - window_start w)"
    using assms(1) unfolding occurs_in_window [OF assms(2)] by (simp add: hit_def)
qed

lemma found_first:
  assumes w: "window_valid w (length h)" and suffix: "rp_suffix plan \<noteq> []" "\<not> contains (rp_class plan) (hd (rp_suffix plan))"
    and state: "loop_state plan h w lo (r # cs) acc" and found: "candidate_result plan h w (window_start w + r) (Some span)"
  shows "kernel_found (plan_shape plan) h w (Some span)"
proof -
  obtain s where s: "span = match_span_new s (window_start w + r + length (rp_suffix plan))"
    "hit plan h w (window_start w + r) s" "\<And>s'. hit plan h w (window_start w + r) s' \<Longrightarrow> s \<le> s'"
    using found by (auto simp: candidate_result_def)
  have occ: "occurs (rp_suffix plan) (slice h (window_start w) (window_end w)) r" using state by (simp add: loop_state_def)
  have "s \<le> s'" if hit': "hit plan h w m s'" for m s'
  proof -
    obtain r' where r': "m = window_start w + r'" "occurs (rp_suffix plan) (slice h (window_start w) (window_end w)) r'"
      by (rule hit_occurs [OF hit' w])
    have "r' \<in> set (r # cs)" using state r' hit' by (auto simp: loop_state_def)
    then consider "r' = r" | "r < r'" using state by (auto simp: loop_state_def)
    then show ?thesis
    proof cases
      case 1
      then show ?thesis using s(3) hit' r'(1) by simp
    next
      case 2
      then have "window_start w + r < s'" using hit_after [OF hit' occ w suffix] r'(1) by simp
      then show ?thesis using s(2) by (simp add: hit_def)
    qed
  qed
  moreover have "window_start w \<le> s" using s(2) by (simp add: hit_def)
  ultimately show ?thesis
    using s(1,2) unfolding kernel_found_def s(1) first_from_Some kernel_match_hit [OF w] by (auto simp: not_le [symmetric])
qed

lemma loop_ok:
  assumes w: "window_valid w (length h)" and fits: "length h \<le> usize_max"
    and suffix: "rp_suffix plan \<noteq> []" "\<not> contains (rp_class plan) (hd (rp_suffix plan))"
    and state: "loop_state plan h w lo cs acc" "rs_candidate_visits acc + length cs < usize_max"
  shows "\<exists>found acc'. rq_loop plan h w cs acc = Inr (found, acc') \<and> kernel_found (plan_shape plan) h w found
    \<and> well_counted w (rs_candidate_visits acc + length cs) acc' \<and> bounds_of acc' = bounds_of acc"
  using state
proof (induction cs arbitrary: lo acc)
  case Nil
  have none: "\<not> hit plan h w m s" for m s
    using Nil(1) hit_occurs [OF _ w, of plan m s] by (auto simp: loop_state_def)
  show ?case
    using Nil none
    by (subst rq_loop.simps)
      (auto simp: kernel_found_def kernel_match_hit [OF w] well_counted_def loop_state_def bounds_of_def)
next
  case (Cons r cs)
  let ?acc = "acc\<lparr>rs_finder_calls := Suc (rs_finder_calls acc)\<rparr>"
  have occ: "occurs (rp_suffix plan) (slice h (window_start w) (window_end w)) r" using Cons.prems(1) by (simp add: loop_state_def)
  have "\<exists>found acc'. rq_candidate plan h w r ?acc = Inr (found, acc') \<and> candidate_result plan h w (window_start w + r) found
    \<and> rs_candidate_visits acc' = Suc (rs_candidate_visits ?acc) \<and> rs_finder_calls acc' = rs_finder_calls ?acc
    \<and> rs_backward_bytes_examined acc' \<le> r \<and> bounds_of acc' = bounds_of ?acc"
    by (rule candidate_ok [OF occ w fits, of _ lo]) (use Cons.prems in \<open>auto simp: loop_state_def\<close>)
  then obtain found acc' where c: "rq_candidate plan h w r ?acc = Inr (found, acc')"
    "candidate_result plan h w (window_start w + r) found" "rs_candidate_visits acc' = Suc (rs_candidate_visits acc)"
    "rs_finder_calls acc' = Suc (rs_finder_calls acc)" "rs_backward_bytes_examined acc' \<le> r" "bounds_of acc' = bounds_of acc"
    by (auto simp: bounds_of_def)
  have calls: "rs_finder_calls acc = rs_candidate_visits acc" using Cons.prems(1) by (simp add: loop_state_def)
  have r: "r \<le> window_end w - window_start w" "h ! (window_start w + r) = hd (rp_suffix plan)"
    using occ suffix(1) unfolding occurs_in_window [OF w] by (auto simp: hd_conv_nth)
  show ?case
  proof (cases found)
    case None
    have "loop_state plan h w r cs acc'"
      using Cons.prems(1) c None r suffix(2) calls unfolding loop_state_def candidate_result_def
      by (auto simp del: not_None_eq)
    then have "\<exists>found acc''. rq_loop plan h w cs acc' = Inr (found, acc'') \<and> kernel_found (plan_shape plan) h w found
        \<and> well_counted w (rs_candidate_visits acc' + length cs) acc'' \<and> bounds_of acc'' = bounds_of acc'"
      by (rule Cons.IH) (use Cons.prems(2) c(3) in simp)
    then show ?thesis
      using c(1,3,6) None Cons.prems(2) calls by (subst rq_loop.simps) (auto simp: Let_def)
  next
    case (Some span)
    have "kernel_found (plan_shape plan) h w (Some span)"
      using found_first [OF w suffix Cons.prems(1)] c(2) Some by simp
    then show ?thesis
      using c Some Cons.prems(2) calls r(1) by (subst rq_loop.simps) (auto simp: Let_def well_counted_def)
  qed
qed

end
