(* ===== verification/ReqReport.thy ===== *)
theory ReqReport
  imports ReqScan KirContract
begin

text \<open>
  The properties of the required-literal plan: construction, search, and agreement with the class
  suffix programs of the kernel IR.
\<close>

section \<open>Construction\<close>

definition rq_refusal ::
    "(string \<Rightarrow> nat \<Rightarrow> bool) \<Rightarrow> nat \<Rightarrow> byte_class \<Rightarrow> bytes \<Rightarrow> rq_build_limits \<Rightarrow> rq_build_error \<Rightarrow> bool" where
  "rq_refusal reserve plan_size cls suffix l e =
     (let n = length suffix in
      case e of
        RqEmptyClass \<Rightarrow> \<forall>b. \<not> contains cls b
      | RqEmptySuffix \<Rightarrow> suffix = []
      | FirstSuffixByteInClass b \<Rightarrow> suffix \<noteq> [] \<and> b = hd suffix \<and> contains cls b
      | OverlappingSuffix k \<Rightarrow> 0 < k \<and> widest_border suffix n k
      | RqSuffixLimit needed limit \<Rightarrow> needed = n \<and> limit = rq_max_suffix_bytes l \<and> limit < needed
      | RqWorkLimit needed limit \<Rightarrow> needed = 12 * n + 32 \<and> limit = rq_max_build_work l \<and> limit < needed
      | RqScratchLimit needed limit \<Rightarrow> needed = 8 * n \<and> limit = rq_max_scratch_bytes l \<and> limit < needed
      | RqPersistentLimit needed limit \<Rightarrow> needed = plan_size + n \<and> limit = rq_max_persistent_bytes l \<and> limit < needed
      | RqPeakLimit needed limit \<Rightarrow> needed = plan_size + 9 * n \<and> limit = rq_max_peak_bytes l \<and> limit < needed
      | RqAllocationFailed structure additional \<Rightarrow> additional = n \<and> \<not> reserve structure additional
      | RqOverflow computation \<Rightarrow> usize_max < 12 * n + 32 \<or> usize_max < plan_size + 9 * n
      | RqPanic \<Rightarrow> False)"

definition rq_buildable :: "(string \<Rightarrow> nat \<Rightarrow> bool) \<Rightarrow> nat \<Rightarrow> byte_class \<Rightarrow> bytes \<Rightarrow> rq_build_limits \<Rightarrow> bool" where
  "rq_buildable reserve plan_size cls suffix l \<longleftrightarrow>
     (\<exists>b. contains cls b) \<and> suffix \<noteq> [] \<and> \<not> contains cls (hd suffix) \<and> widest_border suffix (length suffix) 0
     \<and> length suffix \<le> rq_max_suffix_bytes l \<and> 12 * length suffix + 32 \<le> min (rq_max_build_work l) usize_max
     \<and> 8 * length suffix \<le> rq_max_scratch_bytes l \<and> plan_size + length suffix \<le> rq_max_persistent_bytes l
     \<and> plan_size + 9 * length suffix \<le> min (rq_max_peak_bytes l) usize_max
     \<and> reserve ''suffix prefix function'' (length suffix) \<and> reserve ''owned suffix'' (length suffix)"

lemma rq_is_empty_iff: "rq_is_empty cls \<longleftrightarrow> (\<forall>b. \<not> contains cls b)"
  unfolding class_is_empty_iff [symmetric] by (cases cls) (simp add: rq_is_empty_def class_is_empty_def)

lemma rq_admit_safe:
  "safe (rq_refusal reserve plan_size cls suffix l) (rq_admit plan_size cls suffix l) (\<lambda>build.
     (\<exists>b. contains cls b) \<and> suffix \<noteq> [] \<and> \<not> contains cls (hd suffix)
     \<and> length suffix \<le> rq_max_suffix_bytes l \<and> 12 * length suffix + 32 \<le> min (rq_max_build_work l) usize_max
     \<and> 8 * length suffix \<le> rq_max_scratch_bytes l \<and> plan_size + length suffix \<le> rq_max_persistent_bytes l
     \<and> plan_size + 9 * length suffix \<le> min (rq_max_peak_bytes l) usize_max)"
  by (cases suffix)
    (auto simp: rq_admit_def rq_refusal_def rq_is_empty_iff rq_contains_eq Let_def ok_or_def uadd_def umul_def)

lemma rq_publish_safe:
  assumes "widest_border suffix (length suffix) k"
  shows "safe (rq_refusal reserve plan_size cls suffix l) (rq_publish reserve cls suffix anchors build k) (\<lambda>plan.
     k = 0 \<and> reserve ''owned suffix'' (length suffix) \<and> plan = \<lparr>rp_class = cls, rp_suffix = suffix, rp_anchors = anchors, rp_build = build\<rparr>)"
  using assms by (auto simp: rq_publish_def rq_refusal_def)

lemma rq_build_outcome:
  "\<exists>m. rq_build reserve plan_size cls suffix anchors l = Some m \<and> safe (rq_refusal reserve plan_size cls suffix l) m (\<lambda>plan.
     rq_buildable reserve plan_size cls suffix l \<and> rp_class plan = cls \<and> rp_suffix plan = suffix \<and> rp_anchors plan = anchors)"
proof (cases "rq_admit plan_size cls suffix l")
  case (Inl e)
  then show ?thesis using rq_admit_safe [of reserve plan_size cls suffix l] by (simp add: rq_build_def)
next
  case (Inr build)
  then have ok: "suffix \<noteq> []" "length suffix \<le> usize_max"
    using rq_admit_safe [of reserve plan_size cls suffix l] by auto
  from longest_border_exact [OF this, of reserve] show ?thesis
  proof (elim disjE exE conjE)
    assume "longest_border reserve suffix = Some (Inl (RqAllocationFailed ''suffix prefix function'' (length suffix)))"
      "\<not> reserve ''suffix prefix function'' (length suffix)"
    then show ?thesis using Inr by (simp add: rq_build_def rq_refusal_def)
  next
    fix k
    assume k: "longest_border reserve suffix = Some (Inr k)" "widest_border suffix (length suffix) k"
    then have "reserve ''suffix prefix function'' (length suffix)" by (auto simp: longest_border_def split: if_splits)
    then have "safe (rq_refusal reserve plan_size cls suffix l) (rq_publish reserve cls suffix anchors build k) (\<lambda>plan.
        rq_buildable reserve plan_size cls suffix l \<and> rp_class plan = cls \<and> rp_suffix plan = suffix \<and> rp_anchors plan = anchors)"
      using Inr rq_admit_safe [of reserve plan_size cls suffix l] k(2)
      by (intro safe_mono [OF rq_publish_safe [OF k(2)]]) (auto simp: rq_buildable_def)
    then show ?thesis using Inr k(1) by (simp add: rq_build_def)
  qed
qed

section \<open>Search\<close>

definition rq_work :: "rq_plan \<Rightarrow> search_window \<Rightarrow> nat" where
  "rq_work plan w =
     (let width = window_end w - window_start w; n = length (rp_suffix plan) in
      width + (width div n + 1) * n + width + 6 * (width div n) + 2)"

definition rq_search_refusal :: "rq_plan \<Rightarrow> nat \<Rightarrow> search_window \<Rightarrow> rq_search_limits \<Rightarrow> rq_search_error \<Rightarrow> bool" where
  "rq_search_refusal plan len w l e =
     (let visits = (window_end w - window_start w) div length (rp_suffix plan) in
      case e of
        RqInvalidWindow a b n \<Rightarrow> a = window_start w \<and> b = window_end w \<and> n = len \<and> \<not> window_valid w len
      | CandidateLimit needed limit \<Rightarrow> needed = visits \<and> limit = rq_max_candidate_visits l \<and> limit < needed
      | RqSearchWorkLimit needed limit \<Rightarrow> needed = rq_work plan w \<and> limit = rq_max_work_upper_bound l \<and> limit < needed
      | RqSearchOverflow computation \<Rightarrow> usize_max < rq_work plan w
      | _ \<Rightarrow> False)"

lemma rq_preflight_safe:
  assumes "window_valid w len" "rp_suffix plan \<noteq> []"
  shows "safe (rq_search_refusal plan len w l) (rq_preflight plan w l) (\<lambda>acc.
    rs_candidate_visits_upper_bound acc = (window_end w - window_start w) div length (rp_suffix plan)
    \<and> rs_finder_calls_upper_bound acc = Suc (rs_candidate_visits_upper_bound acc)
    \<and> rs_backward_work_upper_bound acc = window_end w - window_start w \<and> rs_candidate_visits_upper_bound acc < usize_max
    \<and> rs_candidate_visits acc = 0 \<and> rs_finder_calls acc = 0 \<and> rs_backward_bytes_examined acc = 0)"
proof -
  define W where "W = window_end w - window_start w"
  define v where "v = W div length (rp_suffix plan)"
  define t where "t = Suc v * length (rp_suffix plan)"
  have steps: "usub (window_end w) (window_start w) = Some W" "udiv W (length (rp_suffix plan)) = Some v"
    "umul (Suc v) (length (rp_suffix plan)) = (if t \<le> usize_max then Some t else None)"
    "umul v 6 = (if 6 * v \<le> usize_max then Some (6 * v) else None)"
    using assms by (simp_all add: udiv_def v_def t_def umul_def usub_def W_def window_valid_def)
  have le: "Suc v \<le> t" using mult_le_mono2 [of 1 "length (rp_suffix plan)" "Suc v"] assms(2) by (simp add: t_def Suc_le_eq)
  have work: "rq_work plan w = W + t + W + 6 * v + 2"
    by (simp add: rq_work_def Let_def v_def t_def W_def)
  show ?thesis
    unfolding rq_preflight_def rq_search_refusal_def Let_def work W_def [symmetric] v_def [symmetric]
    using steps le by (auto simp: ok_or_def uadd_def)
qed

text \<open>What a finished search reports: the leftmost match, with counters inside the announced bounds.\<close>

definition rq_report :: "rq_plan \<Rightarrow> bytes \<Rightarrow> search_window \<Rightarrow> match_span option \<times> rq_search_accounting \<Rightarrow> bool" where
  "rq_report plan h w = (\<lambda>(found, acc). window_valid w (length h) \<and> kernel_found (plan_shape plan) h w found
     \<and> rs_candidate_visits acc \<le> rs_candidate_visits_upper_bound acc
     \<and> rs_finder_calls acc \<le> rs_finder_calls_upper_bound acc
     \<and> rs_backward_bytes_examined acc \<le> rs_backward_work_upper_bound acc)"

lemma impossible_anchor:
  assumes "anchor_start (rp_anchors plan) \<and> window_start w \<noteq> 0 \<or> anchor_end (rp_anchors plan) \<and> window_end w \<noteq> length h"
    and "window_valid w (length h)"
  shows "kernel_found (plan_shape plan) h w None"
  using assms by (auto simp: kernel_found_def kernel_match_hit hit_def anchors_hold_def window_valid_def)

lemma initial_state:
  assumes "memmem_ok find_iter" "rp_suffix plan \<noteq> []" "widest_border (rp_suffix plan) (length (rp_suffix plan)) 0"
    and "rs_candidate_visits acc = 0" "rs_finder_calls acc = 0" "rs_backward_bytes_examined acc = 0"
  shows "loop_state plan h w 0 (find_iter (rp_suffix plan) (slice h (window_start w) (window_end w))) acc"
  using assms candidates [OF assms(2,3), of "slice h (window_start w) (window_end w)"]
  by (simp add: loop_state_def memmem_ok_def)

lemma rq_search_outcome:
  assumes "memmem_ok find_iter" "rp_suffix plan \<noteq> []" "widest_border (rp_suffix plan) (length (rp_suffix plan)) 0"
    and "\<not> contains (rp_class plan) (hd (rp_suffix plan))" "length h \<le> usize_max"
  shows "safe (rq_search_refusal plan (length h) w l) (rq_find_window find_iter plan h w l) (rq_report plan h w)"
proof (cases "window_valid w (length h)")
  case False
  then show ?thesis by (auto simp: rq_find_window_def rq_search_refusal_def window_valid_def)
next
  case True
  note w = this
  show ?thesis
  proof (cases "anchor_start (rp_anchors plan) \<and> window_start w \<noteq> 0 \<or> anchor_end (rp_anchors plan) \<and> window_end w \<noteq> length h")
    case True
    from impossible_anchor [OF this w] True w show ?thesis
      by (auto simp: rq_find_window_def rq_report_def zero_search_accounting_def check_search_scratch_def window_valid_def)
  next
    case False
    let ?cs = "find_iter (rp_suffix plan) (slice h (window_start w) (window_end w))"
    have count: "length ?cs \<le> (window_end w - window_start w) div length (rp_suffix plan)"
      using candidates(3) [OF assms(2,3), of "slice h (window_start w) (window_end w)"] assms(1,2) w
      by (simp add: memmem_ok_def length_slice window_valid_def)
    have "safe (rq_search_refusal plan (length h) w l) (rbind (rq_preflight plan w l) (rq_loop plan h w ?cs)) (rq_report plan h w)"
    proof (rule safe_bind [OF rq_preflight_safe [OF w assms(2)]])
      fix acc :: rq_search_accounting
      assume acc: "rs_candidate_visits_upper_bound acc = (window_end w - window_start w) div length (rp_suffix plan)
        \<and> rs_finder_calls_upper_bound acc = Suc (rs_candidate_visits_upper_bound acc)
        \<and> rs_backward_work_upper_bound acc = window_end w - window_start w \<and> rs_candidate_visits_upper_bound acc < usize_max
        \<and> rs_candidate_visits acc = 0 \<and> rs_finder_calls acc = 0 \<and> rs_backward_bytes_examined acc = 0"
      then have "loop_state plan h w 0 ?cs acc" using initial_state [OF assms(1-3)] by blast
      from loop_ok [OF w assms(5,2,4) this] acc count obtain found acc' where
        r: "rq_loop plan h w ?cs acc = Inr (found, acc')" "kernel_found (plan_shape plan) h w found"
          "well_counted w (length ?cs) acc'" "bounds_of acc' = bounds_of acc" by auto
      have "rs_candidate_visits_upper_bound acc' = rs_candidate_visits_upper_bound acc"
        "rs_finder_calls_upper_bound acc' = rs_finder_calls_upper_bound acc"
        "rs_backward_work_upper_bound acc' = rs_backward_work_upper_bound acc"
        using r(4) by (cases acc, cases acc', simp add: bounds_of_def)+
      then show "safe (rq_search_refusal plan (length h) w l) (rq_loop plan h w ?cs acc) (rq_report plan h w)"
        using r w acc count by (auto simp: rq_report_def well_counted_def)
    qed
    then show ?thesis
      using False w by (auto simp: rq_find_window_def check_search_scratch_def window_valid_def)
  qed
qed

text \<open>The leftmost match of the shape is unique.\<close>

lemma kernel_found_unique:
  assumes "kernel_found (plan_shape plan) h w found" "kernel_found (plan_shape plan) h w found'" "window_valid w (length h)"
    and "rp_suffix plan \<noteq> []" "\<not> contains (rp_class plan) (hd (rp_suffix plan))"
  shows "found = found'"
proof -
  have stop: "t = t'" if ends: "kernel_match (plan_shape plan) h w s t" "kernel_match (plan_shape plan) h w s t'" for s t t'
  proof -
    obtain m m' where m: "hit plan h w m s" "hit plan h w m' s" "t = m + length (rp_suffix plan)" "t' = m' + length (rp_suffix plan)"
      using ends by (auto simp: kernel_match_hit [OF assms(3)])
    have "\<not> a < b" if hits: "hit plan h w a s" "hit plan h w b s" for a b
    proof -
      obtain r where r: "a = window_start w + r" "occurs (rp_suffix plan) (slice h (window_start w) (window_end w)) r"
        by (rule hit_occurs [OF hits(1) assms(3)])
      have "s < a" using hits(1) by (simp add: hit_def)
      then show ?thesis using hit_after [OF hits(2) r(2) assms(3-5)] r(1) by auto
    qed
    from this [OF m(1,2)] this [OF m(2,1)] m(3,4) show ?thesis by simp
  qed
  show ?thesis
  proof (cases found)
    case None
    then show ?thesis using assms(1,2) by (cases found') (auto simp: kernel_found_def first_from_def)
  next
    case (Some a)
    then obtain b where b: "found' = Some b" using assms(1,2) by (cases found') (auto simp: kernel_found_def first_from_def)
    have "\<not> span_start a < span_start b" "\<not> span_start b < span_start a"
      using assms(1,2) Some b by (auto simp: kernel_found_def first_from_def)
    then have start: "span_start a = span_start b" by simp
    then have "span_end a = span_end b"
      using assms(1,2) Some b stop [of "span_start a" "span_end a" "span_end b"] by (simp add: kernel_found_def first_from_def)
    with start show ?thesis using Some b by simp
  qed
qed

lemma rq_from_bytes_eq: "rq_from_bytes members = from_bytes members"
proof -
  have "fold rq_add members cls = class_add_all members cls" for cls
    by (induction members arbitrary: cls)
      (simp_all add: rq_add_def byte_lane_def byte_bit_def unat_div unat_mod)
  then show ?thesis by (simp add: rq_from_bytes_def from_bytes_def class_empty_def)
qed

lemma built_rq_search:
  assumes "memmem_ok find_iter" "rq_build reserve plan_size cls suffix anchors bl = Some (Inr plan)" "length h \<le> usize_max"
  shows "safe (rq_search_refusal plan (length h) w l) (rq_find_window find_iter plan h w l) (rq_report plan h w)"
    and "rp_class plan = cls" "rp_suffix plan = suffix" "rp_anchors plan = anchors" "suffix \<noteq> []" "\<not> contains cls (hd suffix)"
proof -
  have plan: "rq_buildable reserve plan_size cls suffix bl" "rp_class plan = cls" "rp_suffix plan = suffix" "rp_anchors plan = anchors"
    using rq_build_outcome [of reserve plan_size cls suffix anchors bl] assms(2) by auto
  then show "rp_class plan = cls" "rp_suffix plan = suffix" "rp_anchors plan = anchors" "suffix \<noteq> []" "\<not> contains cls (hd suffix)"
    by (auto simp: rq_buildable_def)
  show "safe (rq_search_refusal plan (length h) w l) (rq_find_window find_iter plan h w l) (rq_report plan h w)"
    using plan by (intro rq_search_outcome [OF assms(1) _ _ _ assms(3)]) (auto simp: rq_buildable_def)
qed

section \<open>A sample plan\<close>

text \<open>One or more of \<^verbatim>\<open>a\<close>, \<^verbatim>\<open>b\<close> and then \<^verbatim>\<open>!\<close>.\<close>

definition memmem_scan :: "bytes \<Rightarrow> bytes \<Rightarrow> nat list" where
  "memmem_scan needle h = map fst (spans_from needle h 0)"

lemma memmem_scan_ok: "memmem_ok memmem_scan"
  by (simp add: memmem_ok_def memmem_scan_def)

abbreviation sample_build :: "(rq_build_error + rq_plan) option" where
  "sample_build \<equiv> rq_build (\<lambda>_ _. True) 64 (rq_from_bytes [97, 98]) [33] anchors_default rq_build_limits_default"

lemma sample_plan:
  obtains plan where "sample_build = Some (Inr plan)"
proof -
  have "\<not> rq_refusal (\<lambda>_ _. True) 64 (rq_from_bytes [97, 98]) [33] rq_build_limits_default e" for e
    by (cases e) (auto simp: rq_refusal_def rq_from_bytes_eq rq_build_limits_default_def usize_max_def widest_border_def border_at_def)
  moreover obtain m where "sample_build = Some m"
    "safe (rq_refusal (\<lambda>_ _. True) 64 (rq_from_bytes [97, 98]) [33] rq_build_limits_default) m (\<lambda>_. True)"
    using rq_build_outcome [of "\<lambda>_ _. True" 64 "rq_from_bytes [97, 98]" "[33]" anchors_default rq_build_limits_default]
    by (auto intro: safe_mono)
  ultimately show thesis using that by (cases m) auto
qed

lemma sample_admits:
  assumes "sample_build = Some (Inr plan)"
  shows "\<not> rq_search_refusal plan (length [120, 97, 98, 33 :: u8]) (window_new 0 4) rq_search_limits_default e"
  using built_rq_search(3) [OF memmem_scan_ok assms, of "[]"]
  by (cases e) (auto simp: rq_search_refusal_def rq_work_def rq_search_limits_default_def window_new_def window_valid_def usize_max_def)

section \<open>Properties\<close>

text \<open>
  C39: The construction of a required-literal plan always returns, the fallback loop of its prefix
  function included, and is exact: it refuses with the reason that holds (an empty class, an empty
  suffix, a suffix that begins inside the class, a limit exceeded, a failed reservation, an
  overflow, or a border of the suffix, reported with the length of the longest one), and otherwise
  the input is admissible, the suffix has no border, and the plan carries it.
\<close>

theorem required_build_exact:
  "\<exists>m. rq_build reserve plan_size cls suffix anchors l = Some m
     \<and> (case m of
          Inl e \<Rightarrow> rq_refusal reserve plan_size cls suffix l e
        | Inr plan \<Rightarrow> rq_buildable reserve plan_size cls suffix l \<and> rp_class plan = cls \<and> rp_suffix plan = suffix
            \<and> rp_anchors plan = anchors)"
  using rq_build_outcome [of reserve plan_size cls suffix anchors l] by (simp add: safe_def)

text \<open>
  C38: A search with a built required-literal plan is refused only for an invalid window, a limit
  below the announced candidates or work, or an announced work beyond \<^verbatim>\<open>usize\<close>; no counter overflows
  and no access is out of range. Otherwise it reports the leftmost run of the class followed by the
  suffix inside the window that satisfies the anchors, or that there is none, and the candidates
  visited, the finder calls and the bytes examined backwards are within the announced bounds.
\<close>

theorem required_search_exact:
  assumes "memmem_ok find_iter" "rq_build reserve plan_size cls suffix anchors bl = Some (Inr plan)" "length h \<le> usize_max"
  shows "case rq_find_window find_iter plan h w l of
      Inl e \<Rightarrow> rq_search_refusal plan (length h) w l e
    | Inr (found, acc) \<Rightarrow> window_valid w (length h) \<and> kernel_found (ClassSuffixShape cls suffix anchors) h w found
        \<and> rs_candidate_visits acc \<le> rs_candidate_visits_upper_bound acc
        \<and> rs_finder_calls acc \<le> rs_finder_calls_upper_bound acc
        \<and> rs_backward_bytes_examined acc \<le> rs_backward_work_upper_bound acc"
  using built_rq_search(1) [OF assms, of w l] built_rq_search(2-4) [OF assms] by (auto simp: safe_def rq_report_def split: sum.splits)

theorem required_search_exact_witness:
  "\<exists>plan found acc. sample_build = Some (Inr plan)
     \<and> rq_find_window memmem_scan plan [120, 97, 98, 33] (window_new 0 4) rq_search_limits_default = Inr (found, acc)
     \<and> kernel_found (ClassSuffixShape (rq_from_bytes [97, 98]) [33] anchors_default) [120, 97, 98, 33] (window_new 0 4) found"
proof -
  obtain plan where plan: "sample_build = Some (Inr plan)" by (rule sample_plan)
  have "length [120, 97, 98, 33 :: u8] \<le> usize_max" by (simp add: usize_max_def)
  from required_search_exact [OF memmem_scan_ok plan this, of "window_new 0 4" rq_search_limits_default]
    sample_admits [OF plan] plan show ?thesis
    by (auto split: sum.splits prod.splits)
qed

text \<open>
  C37: The required-literal plan and the kernel IR agree: when a plan and a class-suffix program are
  built from the same members, suffix and anchors, and both searches of a window return, the
  program's output is the plan's answer, although one looks for the suffix and scans backwards and
  the other looks for the class and scans forwards.
\<close>

theorem required_kernel_agree:
  assumes "memmem_ok find_iter" "rq_build reserve plan_size (rq_from_bytes members) suffix anchors bl = Some (Inr plan)"
    and "rq_find_window find_iter plan h w sl = Inr (found, acc)"
    and "allocation_ok alloc" "max_serialized_bytes limits \<le> usize_max"
    and "build_class_suffix sizes alloc sha256 kind (from_bytes members) suffix anchors limits = Inr program"
    and "execute kind program h w elimits = Inr report"
    and "length h \<le> usize_max" "exec_max_work elimits \<le> usize_max"
  shows "report_output report = project kind found"
proof -
  note plan = built_rq_search [OF assms(1,2,8)]
  have w: "window_valid w (length h)" and mine: "kernel_found (plan_shape plan) h w found"
    using plan(1) [of w sl] assms(3) by (auto simp: rq_report_def)
  obtain found' where "report_output report = project kind found'" "kernel_found (plan_shape plan) h w found'"
    using built_class_search [OF assms(4-6) w assms(8,9)] assms(7) plan(2-4) by (auto simp: search_outcome_def rq_from_bytes_eq)
  with kernel_found_unique [OF mine _ w] plan(2,3,5,6) show ?thesis by simp
qed

theorem required_kernel_agree_witness:
  "\<exists>plan found acc program report. sample_build = Some (Inr plan)
     \<and> rq_find_window memmem_scan plan [120, 97, 98, 33] (window_new 0 4) rq_search_limits_default = Inr (found, acc)
     \<and> build_class_suffix platform exact_allocation (take 32) Span (from_bytes [97, 98]) [33] anchors_default
         validate_limits_default = Inr program
     \<and> execute Span program [120, 97, 98, 33] (window_new 0 4) \<lparr>exec_max_work = 200\<rparr> = Inr report
     \<and> report_output report = SpanOutput found"
proof -
  let ?h = "[120, 97, 98, 33 :: u8]" and ?w = "window_new 0 4"
  obtain plan where plan: "sample_build = Some (Inr plan)" by (rule sample_plan)
  have small: "length ?h \<le> usize_max" "exec_max_work \<lparr>exec_max_work = 200\<rparr> \<le> usize_max" by (simp_all add: usize_max_def)
  obtain found acc where found: "rq_find_window memmem_scan plan ?h ?w rq_search_limits_default = Inr (found, acc)"
    using built_rq_search(1) [OF memmem_scan_ok plan small(1), of ?w rq_search_limits_default] sample_admits [OF plan]
    by (cases "rq_find_window memmem_scan plan ?h ?w rq_search_limits_default") auto
  have "\<not> class_is_empty (from_bytes [97, 98])" by (auto simp: class_is_empty_iff)
  then obtain program where built: "build_class_suffix platform exact_allocation (take 32) Span (from_bytes [97, 98]) [33]
      anchors_default validate_limits_default = Inr program"
    using platform_class [of "[33]" "from_bytes [97, 98]" "take 32" Span anchors_default] by auto
  have w: "window_valid ?w (length ?h)" by (simp add: window_new_def window_valid_def)
  obtain report where run: "execute Span program ?h ?w \<lparr>exec_max_work = 200\<rparr> = Inr report"
    using built_class_search [OF exact_allocation_ok(1) default_limits_wide built w small]
    by (auto simp: search_outcome_def window_new_def split: sum.splits)
  from required_kernel_agree [OF memmem_scan_ok plan found exact_allocation_ok(1) default_limits_wide built run small]
  show ?thesis using plan found built run by auto
qed

end
