(* ===== verification/Spec2Isabelle.thy ===== *)
theory Spec2Isabelle
  imports RegexAgree LabGuardReport KirContract KirReduce KerReport KerCodec ReqReport
begin

text \<open>
  Verification of the semantic core of the fre regular expression engine.

  \<^bold>\<open>The program.\<close> fre is a bounded regex engine in Rust: production automata, search kernels and
  native code generators, held to account by a few small crates that state the semantics.
  This development models four of those crates, every operation of them, and two components of
  the production search kernels:

  \<^item> \<^verbatim>\<open>crates/fre-reference\<close>: the independent oracle, a fuelled backtracking interpreter over a
    hand-built AST;
  \<^item> \<^verbatim>\<open>crates/fre-iterator-lab\<close>: the whole-operation iteration laboratory, a compiler from
    a capture-free AST to a continuation graph and four executors of it, and a second compiler
    and executor that keep progress registers;
  \<^item> \<^verbatim>\<open>crates/fre-kernel-ir\<close>: the typed kernel programs the native back ends compile, with their
    validator, canonical serializer, portable interpreter, builders and the exact-literal
    aggregate leaf;
  \<^item> \<^verbatim>\<open>crates/fre-required-literal-lab\<close>: the plan for a class run and a suffix that looks for the
    suffix first and confirms backwards;
  \<^item> \<^verbatim>\<open>crates/fre-kernels\<close>: the span visitor for two fields of a byte class around a delimiter, and
    the integer codec of determinized states.

  They meet in one abstract notion, the iteration of a selector (\<open>IterSpec\<close>): from a cursor, the
  leftmost position where something is selected, its end, and the Rust rule for empty matches.

  \<^bold>\<open>Theories and sources.\<close>

  \<^item> \<open>FrePrelude\<close>: checked \<^verbatim>\<open>usize\<close> arithmetic (64-bit), the result monad \<open>rbind\<close> with
    \<open>safe\<close> (what errors it may raise) and \<open>runs\<close> (that it succeeds), shared list lemmas.
    \<open>IterSpec\<close>: \<open>next_match\<close>, \<open>iter_seq\<close> and the locale \<open>selector\<close>, interpreted for the
    reference (\<open>ref\<close>), the laboratory, the literal kernels (\<open>lit\<close>) and the field kernel
    (\<open>field\<close>).
  \<^item> \<open>RefRegex\<close> models \<^verbatim>\<open>fre-reference/src/lib.rs\<close>: the AST, its validation by an explicit stack
    (\<open>validate_loop\<close>), the thread machine (\<open>match_loop\<close>), search (\<open>find_at\<close>) and iteration
    (\<open>find_all_rust_reference\<close>). \<open>RefCorrect\<close> gives the denotation \<open>outs\<close> (the ends of an AST in
    priority order) and proves the machine computes it; \<open>RefBudget\<close> counts the steps it takes
    (\<open>work\<close>) and proves that this much fuel is enough; \<open>RefSearch\<close> holds the properties.
  \<^item> \<open>LabBase\<close> (\<^verbatim>\<open>ast.rs\<close>, \<^verbatim>\<open>error.rs\<close>, \<^verbatim>\<open>accounting.rs\<close>), \<open>LabCompile\<close> (\<^verbatim>\<open>compile.rs\<close>, with the
    progress product), \<open>LabOrder\<close> (the order of same-boundary edges), \<open>LabIterate\<close>
    (\<^verbatim>\<open>iterate.rs\<close> as a locale over a source of roots), \<open>LabRow\<close>, \<open>LabTable\<close> (\<^verbatim>\<open>full_dp.rs\<close>,
    \<^verbatim>\<open>oracle.rs\<close>), \<open>LabReplay\<close>, \<open>LabLog\<close> (\<^verbatim>\<open>decision_log.rs\<close>), \<open>LabRowLog\<close>
    (\<^verbatim>\<open>sequential_log.rs\<close>). \<open>LabSem\<close> is the ordered denotation \<open>ends\<close>; \<open>LabProduct\<close> and
    \<open>LabCorrect\<close> prove the compiler, \<open>LabCompiled\<close> the invariant of its result, \<open>LabRefuse\<close> the
    refusals; \<open>LabAgree\<close> holds the properties. \<open>LabGuard\<close> models \<^verbatim>\<open>guarded.rs\<close>, \<open>LabGuardSem\<close>
    proves its compiler, \<open>LabGuardRun\<close> its registers and configurations, \<open>LabGuardSolve\<close> its solver,
    \<open>LabGuardAgree\<close> the iteration over it (the locale \<open>paying_source\<close>); \<open>LabGuardReport\<close> holds the
    properties. \<open>RegexAgree\<close> relates the laboratory to the
    reference interpreter, and shows where the two differ.
  \<^item> \<open>KirBase\<close> (\<^verbatim>\<open>ir.rs\<close>, \<^verbatim>\<open>contract.rs\<close>, \<^verbatim>\<open>error.rs\<close>), \<open>KirInterp\<close> (\<^verbatim>\<open>interpret.rs\<close>), \<open>KirSerialize\<close>
    (\<^verbatim>\<open>serialize.rs\<close>), \<open>KirMeter\<close>, \<open>KirCensus\<close>, \<open>KirValidator\<close>, \<open>KirValidate\<close>
    (\<^verbatim>\<open>validate.rs\<close>), \<open>KirLower\<close> (\<^verbatim>\<open>lower.rs\<close>), \<open>KirAggregate\<close> (\<^verbatim>\<open>aggregate.rs\<close>).
    \<open>KirSearch\<close> says which spans a kernel matches and proves the scans, \<open>KirRun\<close> the whole
    machine; \<open>KirTyping\<close> that the validator's flow states are types of the machine;
    \<open>KirBudget\<close>, \<open>KirPhases\<close> and \<open>KirTopology\<close> that the validator decides
    \<open>well_formed\<close> within its work budget; \<open>KirPlan\<close> what preflight establishes; \<open>KirLive\<close> that
    the builders succeed. \<open>KirAgree\<close>, \<open>KirContract\<close> and \<open>KirReduce\<close> hold the properties.
  \<^item> \<open>KerFields\<close> models \<^verbatim>\<open>fre-kernels/src/delimiter_field_spans.rs\<close> with the effects of
    \<^verbatim>\<open>direct_build_attempt.rs\<close>: the builder from byte ranges (\<open>build_attempt\<close>), the preflight
    (\<open>field_preflight\<close>) and the visitor (\<open>visit_spans\<close>). \<open>KerClass\<close> proves the bitmap and the
    refusals of the builder, \<open>KerScan\<close> the outward scans and the counters of the traversal;
    \<open>KerReport\<close> holds the properties. \<open>KerCodec\<close> models \<^verbatim>\<open>determinize_state_codec.rs\<close> and proves it
    against the base-128 digits of a number (\<open>varint\<close>).
  \<^item> \<open>ReqModel\<close> models \<^verbatim>\<open>fre-required-literal-lab/src/lib.rs\<close>: the prefix function (\<open>longest_border\<close>),
    construction (\<open>rq_build\<close>) and the windowed search (\<open>rq_find_window\<close>). \<open>ReqBorder\<close> proves the
    prefix function and that occurrences of a word without a border are disjoint, \<open>ReqScan\<close> the
    candidate loop; \<open>ReqReport\<close> holds the properties.

  \<^bold>\<open>What is shown.\<close> For the reference interpreter: search and iteration return the leftmost,
  highest-priority, non-overlapping sequence; failures are fuel, the result count, a bad
  start, or the \<^verbatim>\<open>u32\<close> counter of an unbounded repetition when its minimum and the haystack reach
  that range; iteration succeeds when none of the limits is short, where the step budget that is
  enough is an explicit function of the AST and the haystack (\<open>ref_budget\<close>), to be compared with the
  \<^verbatim>\<open>u64\<close> \<^verbatim>\<open>max_steps\<close>. For the laboratory: the compiled graph computes the ordered
  denotation, its runtime invariant holds, the four executors report the same abstract sequence,
  their work and storage stay in the published bounds and every refusal is a real excess; the
  guarded-state executor reports the same sequence, and its preflight is short of the work of the
  run by one unit for each configuration. For the
  kernel IR: builders return canonical programs or resource errors and, with an allocator that
  serves requests with little slack, succeed under the default limits; validation is exact, its receipt within limits; serialization is injective; a flow-typed
  program never raises the internal error; searches return the leftmost match within the
  published work bound; the aggregate leaf counts and sums the abstract iteration and never
  panics. For the search kernels: the field kernel is built exactly when its input is admissible,
  its traversal never overflows or breaks an accounting invariant and visits the leftmost greedy
  spans within the announced work; the codec accepts exactly the canonical encodings and gives
  every integer back. For the required-literal plan: construction returns on every input and
  decides borders exactly; the search reports the leftmost match within its announced counters, and
  the same answer as the class-suffix program of the kernel IR. Across components: the laboratory and the reference report the same spans on
  a fragment of patterns, the field kernel visits the reference's spans, and the aggregate leaf
  counts the reference's matches (below).

  \<^bold>\<open>Integers, fuel and parameters.\<close> Bytes, class lanes and identifiers are machine words; \<^verbatim>\<open>usize\<close>
  values are naturals with every checked operation written as \<open>uadd\<close>, \<open>umul\<close> or \<open>usub\<close> against
  \<open>usize_max = 2 ^ 64 - 1\<close>. No fuel is added by the model: the fuel of the reference machine is
  the code's own \<^verbatim>\<open>max_steps\<close> and the kernel machine's is its work meter, and both loops
  terminate on it; every other loop has a measure. What is not under the modelled
  sources is a parameter: the sizes of Rust types (\<open>layout\<close>), the capacities of vectors and what a
  reservation returns (\<open>vec_capacities\<close>, \<open>allocation\<close>; the hypothesis \<open>allocator_ok\<close> says a
  granted capacity is at least the request, as \<^verbatim>\<open>try_reserve_exact\<close> documents, and \<open>serves\<close>, for the
  claim that builders succeed, that every request is granted with at most 64 elements more), the digest
  (\<open>sha256\<close>, with no hypothesis), whether an allocation of the laboratory succeeds, and the byte
  search of the \<^verbatim>\<open>memchr\<close> crate (\<open>memchr_iter\<close>; the hypothesis \<open>memchr_ok\<close> says it yields the
  positions of the byte in ascending order) and its substring finder (\<open>find_iter\<close>; \<open>memmem_ok\<close> says it
  yields the successive non-overlapping occurrences).

  \<^bold>\<open>Not modelled.\<close> Of the modelled crates: tests, \<^verbatim>\<open>Display\<close> and \<^verbatim>\<open>Debug\<close> output, wall-clock fields. The
  production automata, parsers, the other search kernels, SIMD code, native code generators, object
  writers and loaders: they rest on the third-party HIR, on vector intrinsics, on executable
  memory and on machine code, which a shallow embedding does not reach. The tools, gates and
  scripts around them hold no engine logic.
\<close>

section \<open>Literals in the reference interpreter and in the kernels\<close>

lemma literal_outs:
  assumes "p \<le> length h"
  shows "outs h (RConcat (map RByte literal)) (p, c) =
    (if take (length literal) (drop p h) = literal then [(p + length literal, c)] else [])"
  using assms
proof (induction literal arbitrary: p)
  case (Cons b literal)
  have "take (length (b # literal)) (drop p h) = b # literal \<longleftrightarrow>
      p < length h \<and> h ! p = b \<and> take (length literal) (drop (Suc p) h) = literal"
    by (cases "p < length h") (auto simp: Cons_nth_drop_Suc [symmetric])
  then show ?case using Cons by auto
qed simp

lemma literal_ref_sel:
  assumes "rr_ast r = RConcat (map RByte literal)" "s \<le> length h"
  shows "ref_sel r h s = literal_sel literal h s"
proof -
  have "s + length literal \<le> length h" if "take (length literal) (drop s h) = literal"
    using arg_cong [OF that, of length] assms(2) by simp
  then show ?thesis
    unfolding ref_sel_def start_state_def assms(1) literal_outs [OF assms(2)] literal_sel_def by auto
qed

lemma literal_reference_spans:
  assumes "ref_ready (RConcat (map RByte literal)) l r h" "find_all_rust_reference r h = Inr ms"
  shows "map (\<lambda>m. (rs_start (rm_span m), rs_end (rm_span m))) ms = spans_from literal h 0"
proof -
  have "ms = ref_iteration r h 0 None"
    using find_all_answer [OF ref_ready_ok(1) [OF assms(1)] assms(2) [unfolded find_all_rust_reference_def]] by simp
  moreover have "iter_seq (length h) (ref_sel r h) 0 None = iter_seq (length h) (literal_sel literal h) 0 None"
    by (rule iter_seq_cong, rule literal_ref_sel [OF ref_ready_ok(2) [OF assms(1)]])
  ultimately show ?thesis by (simp add: ref_iteration_spans spans_from_def)
qed

text \<open>
  C40: the aggregate leaf and the reference interpreter agree, two independent implementations of one
  semantics: whenever the reference iterates the pattern that is the literal's bytes in sequence and
  a built aggregate runs on the same haystack, the aggregate's count is the number of reference
  matches, its span sum is the sum of their widths.
\<close>

theorem aggregate_reference_agree:
  assumes "ref_ready (RConcat (map RByte literal)) l r haystack" "find_all_rust_reference r haystack = Inr ms"
    and "allocation_ok alloc" "max_serialized_bytes limits \<le> usize_max"
    and "build_exact_aggregate sizes alloc sha256 reducer literal limits = Inr program"
    and "aggregate_execute reducer program haystack alimits = Inr outcome"
  shows "agr_match_events outcome = length ms \<and> agr_output outcome =
    (case reducer of
       AggCount \<Rightarrow> length ms
     | AggSpanSum \<Rightarrow> sum_list (map (\<lambda>m. rs_end (rm_span m) - rs_start (rm_span m)) ms))"
proof -
  have spans: "spans_from literal haystack 0 = map (\<lambda>m. (rs_start (rm_span m), rs_end (rm_span m))) ms"
    using literal_reference_spans [OF assms(1,2)] by simp
  have fits: "length haystack \<le> usize_max" using assms(1) by (simp add: ref_ready_def)
  note literal = aggregate_data [OF assms(3-5)]
  obtain upper where "preflight_exact_aggregate (length haystack) (length literal) reducer alimits = Inr upper"
    using assms(6) literal by (auto simp: aggregate_execute_def aggregate_literal_def rbind_eq_Inr)
  from aggregate_execute_outcome [OF literal fits this] assms(6) show ?thesis
    by (cases reducer) (auto simp: spans span_widths_def o_def)
qed


text \<open>The literal \<^verbatim>\<open>a\<close> in \<^verbatim>\<open>aba\<close>: the reference finds two spans, and so does the aggregate.\<close>

theorem aggregate_reference_agree_witness:
  "\<exists>ms program outcome.
     find_all_rust_reference \<lparr>rr_ast = RConcat [RByte 97], rr_capture_count = 0, rr_limits = ref_limits_default\<rparr> [97, 98, 97]
       = Inr ms
     \<and> build_exact_aggregate platform exact_allocation (take 32) AggCount [97] validate_limits_default = Inr program
     \<and> aggregate_execute AggCount program [97, 98, 97] aggregate_limits_default = Inr outcome
     \<and> length ms = 2 \<and> agr_output outcome = 2"
proof -
  let ?r = "\<lparr>rr_ast = RConcat [RByte 97], rr_capture_count = 0, rr_limits = ref_limits_default\<rparr>"
  have ready: "ref_ready (RConcat (map RByte [97])) ref_limits_default ?r [97, 98, 97]" by (simp add: ref_eval)
  obtain ms where ms: "find_all_rust_reference ?r [97, 98, 97] = Inr ms" and two: "length ms = 2"
    by (simp add: ref_eval upt_rec)
  obtain program where built: "build_exact_aggregate platform exact_allocation (take 32) AggCount [97]
      validate_limits_default = Inr program"
    by (rule platform_aggregate [of "[97]"]) (simp add: max_exact_aggregate_literal_bytes_def)
  obtain upper where "preflight_exact_aggregate (length [97, 98, 97 :: u8]) (length [97 :: u8]) AggCount
      aggregate_limits_default = Inr upper"
    using preflight_admits [of "length [97, 98, 97 :: u8]" "length [97 :: u8]" AggCount] by auto
  from aggregate_execute_outcome [OF aggregate_data [OF exact_allocation_ok(1) default_limits_wide built] _ this]
  obtain outcome where run: "aggregate_execute AggCount program [97, 98, 97] aggregate_limits_default = Inr outcome"
    by (auto simp: usize_numeral)
  from aggregate_reference_agree [OF ready ms exact_allocation_ok(1) default_limits_wide built run] ms built run two
  show ?thesis by auto
qed

end
